(* ===== verification/Kernel_Prelude.thy ===== *)
theory Kernel_Prelude
  imports Main "HOL-Library.Word" "HOL-Library.Monad_Syntax"
begin

text \<open>
  The vocabulary every other theory of the development shares: the machine
  integers of \<^verbatim>\<open>kernel/stdint.h\<close>, the counted \<^verbatim>\<open>for\<close> loop, page and frame
  arithmetic on 32-bit words, and generic lemmas on them.

  An operation that may call \<^verbatim>\<open>Debug::panic\<close> (directly or through
  \<^verbatim>\<open>ASSERT\<close>), or that may loop for ever, has an \<^typ>\<open>'a option\<close> result:
  \<^const>\<open>None\<close> says that control never comes back to the caller, which is what
  \<^verbatim>\<open>Debug::vpanic\<close> (\<^verbatim>\<open>kernel/debug.cc\<close>) does with its closing
  \<^verbatim>\<open>while (true)\<close>.  State is passed explicitly.
\<close>

unbundle bit_operations_syntax

section \<open>Machine integers\<close>

type_synonym u8 = "8 word"
type_synonym u16 = "16 word"
type_synonym u32 = "32 word"
type_synonym u64 = "64 word"

text \<open>A kernel pointer is a 32-bit address; 0 is \<^verbatim>\<open>nullptr\<close>.\<close>

type_synonym ptr = u32

named_theorems word_nat \<open>translation of 32-bit operations to natural numbers\<close>

section \<open>Counted loops\<close>

text \<open>
  \<open>for_loop i n f s\<close> is \<^verbatim>\<open>for (k = i; k < i + n; k++) s = f(k, s)\<close>; it stops
  without a result as soon as one iteration does not return.
\<close>

fun for_loop :: "nat \<Rightarrow> nat \<Rightarrow> (nat \<Rightarrow> 's \<Rightarrow> 's option) \<Rightarrow> 's \<Rightarrow> 's option" where
  "for_loop i 0 f s = Some s"
| "for_loop i (Suc n) f s = do { s' \<leftarrow> f i s; for_loop (Suc i) n f s' }"

text \<open>
  The address of element \<open>i\<close> of a \<^verbatim>\<open>uint32_t\<close> array at \<open>p\<close>, and the test that
  an address is the base of a 4 KB frame (\<^verbatim>\<open>PhysMem::offset(p) == 0\<close>).
\<close>

definition elem :: "u32 \<Rightarrow> nat \<Rightarrow> u32" where
  "elem p i = p + 4 * of_nat i"

definition page_aligned :: "u32 \<Rightarrow> bool" where
  "page_aligned p \<longleftrightarrow> p AND 0xFFF = 0"

section \<open>Loop rules\<close>

lemma for_loop_total:
  assumes "I i s"
    and "\<And>k t. i \<le> k \<Longrightarrow> k < i + n \<Longrightarrow> I k t \<Longrightarrow> \<exists>t'. f k t = Some t' \<and> I (Suc k) t'"
  shows "\<exists>t. for_loop i n f s = Some t \<and> I (i + n) t"
  using assms
proof (induction n arbitrary: i s)
  case 0
  then show ?case by simp
next
  case (Suc n)
  obtain s' where s': "f i s = Some s'" "I (Suc i) s'"
    using Suc.prems by force
  have "\<exists>t. for_loop (Suc i) n f s' = Some t \<and> I (Suc i + n) t"
    using Suc.prems(2) by (intro Suc.IH s'(2)) auto
  then show ?case using s'(1) by simp
qed

lemma for_loop_inv:
  assumes "for_loop i n f s = Some t" "I i s"
    and "\<And>k u u'. i \<le> k \<Longrightarrow> k < i + n \<Longrightarrow> I k u \<Longrightarrow> f k u = Some u' \<Longrightarrow> I (Suc k) u'"
  shows "I (i + n) t"
  using assms
proof (induction n arbitrary: i s)
  case 0
  then show ?case by simp
next
  case (Suc n)
  from Suc.prems(1) obtain s' where s': "f i s = Some s'" "for_loop (Suc i) n f s' = Some t"
    by (auto split: Option.bind_splits)
  have "I (Suc i) s'" using Suc.prems(2,3) s'(1) by auto
  then have "I (Suc i + n) t"
    using Suc.prems(3) by (intro Suc.IH [OF s'(2)]) auto
  then show ?case by simp
qed

lemma for_loop_append:
  "for_loop i (m + n) f s = do { t \<leftarrow> for_loop i m f s; for_loop (i + m) n f t }"
  by (induction m arbitrary: i s) (auto split: Option.bind_split)

section \<open>Word arithmetic\<close>

lemma unat_lt_32 [simp]: "unat (x :: u32) < 4294967296"
  using unsigned_less [of x, where ?'a = nat] by simp

lemma word_less_unat [word_nat]: "x < y \<longleftrightarrow> unat x < unat (y :: u32)"
  by (rule word_less_nat_alt)

lemma word_le_unat [word_nat]: "x \<le> y \<longleftrightarrow> unat x \<le> unat (y :: u32)"
  by (rule word_le_nat_alt)

lemma unat_add_32 [word_nat]: "unat (x + y :: u32) = (unat x + unat y) mod 4294967296"
  by (simp add: unat_word_ariths)

lemma unat_add_no_wrap:
  "unat x + unat y < 4294967296 \<Longrightarrow> unat (x + y :: u32) = unat x + unat y"
  by (simp add: unat_add_32)

text \<open>The overflow tests of the code, \<^verbatim>\<open>addr + size < addr\<close>, are exact.\<close>

lemma add_no_wrap_iff: "x \<le> x + y \<longleftrightarrow> unat x + unat y < 4294967296" for x y :: u32
proof (cases "unat x + unat y < 4294967296")
  case True
  then show ?thesis by (simp add: word_le_unat unat_add_32)
next
  case False
  then obtain r where r: "unat x + unat y = 4294967296 + r"
    using le_Suc_ex not_less by blast
  have "r < 4294967296" "r < unat x"
    using r unat_lt_32 [of x] unat_lt_32 [of y] by linarith+
  then show ?thesis
    using False r by (simp add: word_le_unat unat_add_32)
qed

lemma unat_drop_bit_32 [word_nat]: "unat (drop_bit n x :: u32) = unat x div 2 ^ n"
  by (simp add: unat_drop_bit_eq drop_bit_eq_div [where 'a = nat])

lemma unat_and_mask_32: "unat (x AND mask n :: u32) = unat x mod 2 ^ n"
  by (simp flip: take_bit_eq_mask add: unsigned_take_bit_eq take_bit_eq_mod [where 'a = nat])

lemma unat_page_offset [word_nat]: "unat (x AND 0xFFF :: u32) = unat x mod 4096"
  using unat_and_mask_32 [of x 12] by (simp add: mask_eq_exp_minus_1)

lemma unat_and_3FF [word_nat]: "unat (x AND 0x3FF :: u32) = unat x mod 1024"
  using unat_and_mask_32 [of x 10] by (simp add: mask_eq_exp_minus_1)

lemma page_base_diff: "x AND 0xFFFFF000 = x - (x AND 0xFFF)" for x :: u32
proof -
  have "(0xFFFFF000 :: u32) = NOT 0xFFF" by code_simp
  moreover have "x - (x AND 0xFFF) = x AND NOT (x AND 0xFFF)"
    by (rule disjunctive_diff) (simp add: bit_and_iff)
  moreover have "x AND NOT (x AND 0xFFF) = x AND NOT 0xFFF"
    by (rule bit_word_eqI) (auto simp: bit_and_iff bit_or_iff bit_not_iff)
  ultimately show ?thesis by (simp only:)
qed

lemma unat_page_base [word_nat]: "unat (x AND 0xFFFFF000 :: u32) = unat x div 4096 * 4096"
proof -
  have "x AND 0xFFF \<le> x" by (rule word_and_le2)
  then have "unat (x AND 0xFFFFF000) = unat x - unat x mod 4096"
    by (simp add: page_base_diff unat_sub unat_page_offset)
  then show ?thesis by (simp add: minus_mod_eq_div_mult)
qed

section \<open>Pages and arrays of words\<close>

lemma page_aligned_unat: "page_aligned p \<longleftrightarrow> unat p mod 4096 = 0"
  by (metis page_aligned_def unat_page_offset unat_eq_zero unat_0)

lemma page_aligned_0 [simp]: "page_aligned 0"
  by (simp add: page_aligned_def)

lemma page_aligned_base [simp]: "page_aligned (x AND 0xFFFFF000)"
  by (simp add: page_aligned_unat unat_page_base)

lemma page_base_aligned: "page_aligned p \<Longrightarrow> p AND 0xFFFFF000 = p"
  by (simp add: page_aligned_def page_base_diff)

lemma page_aligned_mult: "page_aligned p \<Longrightarrow> \<exists>k. unat p = 4096 * k"
  by (metis page_aligned_unat mod_0_imp_dvd dvdE)

lemma page_aligned_bound: "page_aligned p \<Longrightarrow> unat p + 4096 \<le> 4294967296"
proof -
  assume "page_aligned p"
  then obtain k where "unat p = 4096 * k"
    using page_aligned_mult by blast
  moreover from this have "k < 1048576" using unat_lt_32 [of p] by simp
  ultimately show ?thesis by simp
qed

lemma unat_elem:
  assumes "page_aligned p" "i < 1024"
  shows "unat (elem p i) = unat p + 4 * i"
proof -
  have "unat (4 * of_nat i :: u32) = 4 * i"
    using assms(2) by (simp add: unat_word_ariths unat_of_nat)
  then show ?thesis
    using page_aligned_bound [OF assms(1)] assms(2)
    by (simp add: elem_def unat_add_no_wrap)
qed

lemma elem_eq_iff:
  assumes "page_aligned p" "page_aligned q" "i < 1024" "j < 1024"
  shows "elem p i = elem q j \<longleftrightarrow> p = q \<and> i = j"
proof
  assume "elem p i = elem q j"
  then have eq: "unat p + 4 * i = unat q + 4 * j"
    using unat_elem assms by metis
  obtain a b where "unat p = 4096 * a" "unat q = 4096 * b"
    using assms(1,2) page_aligned_mult by blast
  moreover from this eq have "1024 * a + i = 1024 * b + j" by simp
  then have "(1024 * a + i) div 1024 = (1024 * b + j) div 1024"
    and "(1024 * a + i) mod 1024 = (1024 * b + j) mod 1024" by simp_all
  then have "a = b" "i = j" using assms(3,4) by simp_all
  ultimately show "p = q \<and> i = j"
    by (simp add: word_unat_eq_iff)
qed auto

lemma elem_base:
  assumes "page_aligned p" "i < 1024"
  shows "elem p i AND 0xFFFFF000 = p"
proof -
  have "unat (elem p i AND 0xFFFFF000) = unat p"
    using assms unat_elem [OF assms] by (auto simp: unat_page_base page_aligned_unat)
  then show ?thesis by (simp add: word_unat_eq_iff)
qed

section \<open>Intervals\<close>

lemma upt_split: "i \<le> j \<Longrightarrow> j \<le> k \<Longrightarrow> [i..<k] = [i..<j] @ [j..<k]"
  using upt_add_eq_append [of i j "k - j"] by simp

lemma filter_eq_upt: "k < n \<Longrightarrow> filter (\<lambda>i. i = k) [0..<n] = [k]"
  by (induction n) (auto simp: less_Suc_eq)

lemma concat_map_upt_nil: "(\<And>i. a \<le> i \<Longrightarrow> i < b \<Longrightarrow> f i = []) \<Longrightarrow> concat (map f [a..<b]) = []"
  by auto

end
