(* ===== verification/Linked_Lists.thy ===== *)
theory Linked_Lists
  imports Kernel_Prelude
begin

text \<open>
  Doubly linked lists in an explicit store, as \<^verbatim>\<open>MRUQueue\<close> and
  \<^verbatim>\<open>VMEQueue\<close> of \<^verbatim>\<open>kernel/queue.h\<close> build them by hand.  The store maps an
  address to a node; \<open>deref\<close> and \<open>field_upd\<close> are \<^verbatim>\<open>p->f\<close> and
  \<^verbatim>\<open>p->f = v\<close>, with no result when \<^verbatim>\<open>p\<close> is null or dangling.
  The locale \<open>dll_node\<close> is the interface between a list and its node type (the
  two link fields and their setters); the surgery lemmas on segments are proved once
  inside it and every node type of the kernel interprets it.
\<close>

section \<open>Field access through a pointer\<close>

type_synonym 'n store = "ptr \<rightharpoonup> 'n"

definition deref :: "'n store \<Rightarrow> ptr \<Rightarrow> 'n option" where
  "deref h p = (if p = 0 then None else h p)"

definition field_upd :: "'n store \<Rightarrow> ptr \<Rightarrow> ('n \<Rightarrow> 'n) \<Rightarrow> 'n store option" where
  "field_upd h p f = do { c \<leftarrow> deref h p; Some (h(p \<mapsto> f c)) }"

section \<open>Segments\<close>

text \<open>
  \<open>dllseg nx pv h p pr xs n l\<close>: starting at \<open>p\<close>, whose predecessor is \<open>pr\<close>, the
  nodes \<open>xs\<close> are linked both ways; after them comes \<open>n\<close> and the last of them is
  \<open>l\<close> (\<open>pr\<close> when there is none).
\<close>

fun dllseg :: "('n \<Rightarrow> ptr) \<Rightarrow> ('n \<Rightarrow> ptr) \<Rightarrow> 'n store \<Rightarrow> ptr \<Rightarrow> ptr \<Rightarrow> ptr list \<Rightarrow> ptr \<Rightarrow> ptr \<Rightarrow> bool" where
  "dllseg nx pv h p pr [] n l = (p = n \<and> l = pr)"
| "dllseg nx pv h p pr (x # xs) n l =
     (p = x \<and> x \<noteq> 0 \<and>
      (case h x of None \<Rightarrow> False | Some c \<Rightarrow> pv c = pr \<and> dllseg nx pv h (nx c) x xs n l))"

definition dll :: "('n \<Rightarrow> ptr) \<Rightarrow> ('n \<Rightarrow> ptr) \<Rightarrow> 'n store \<Rightarrow> ptr \<Rightarrow> ptr \<Rightarrow> ptr list \<Rightarrow> bool" where
  "dll nx pv h f l xs \<longleftrightarrow> dllseg nx pv h f 0 xs 0 l \<and> distinct xs"

text \<open>The code that splices node \<open>x\<close> out of a list, and in between two neighbours.\<close>

definition unlink :: "('n \<Rightarrow> ptr) \<Rightarrow> ('n \<Rightarrow> ptr) \<Rightarrow> (ptr \<Rightarrow> 'n \<Rightarrow> 'n) \<Rightarrow> (ptr \<Rightarrow> 'n \<Rightarrow> 'n) \<Rightarrow>
    'n store \<Rightarrow> ptr \<Rightarrow> ptr \<Rightarrow> ptr \<Rightarrow> ('n store \<times> ptr \<times> ptr) option" where
  "unlink nx pv set_nx set_pv h f l it = do {
     c \<leftarrow> deref h it;
     (h1, first1) \<leftarrow> (if pv c \<noteq> 0 then do { h' \<leftarrow> field_upd h (pv c) (set_nx (nx c)); Some (h', f) }
                      else Some (h, nx c));
     c1 \<leftarrow> deref h1 it;
     (h2, last2) \<leftarrow> (if nx c1 \<noteq> 0 then do { h' \<leftarrow> field_upd h1 (nx c1) (set_pv (pv c1)); Some (h', l) }
                     else Some (h1, pv c1));
     Some (h2, first1, last2) }"

definition link :: "(ptr \<Rightarrow> 'n \<Rightarrow> 'n) \<Rightarrow> (ptr \<Rightarrow> 'n \<Rightarrow> 'n) \<Rightarrow>
    'n store \<Rightarrow> ptr \<Rightarrow> ptr \<Rightarrow> ptr \<Rightarrow> ptr \<Rightarrow> ptr \<Rightarrow> ('n store \<times> ptr \<times> ptr) option" where
  "link set_nx set_pv h f l x prev next = do {
     h1 \<leftarrow> field_upd h x (set_pv prev);
     h2 \<leftarrow> field_upd h1 x (set_nx next);
     (h3, first3) \<leftarrow> (if prev \<noteq> 0 then do { h' \<leftarrow> field_upd h2 prev (set_nx x); Some (h', f) }
                      else Some (h2, x));
     (h4, last4) \<leftarrow> (if next \<noteq> 0 then do { h' \<leftarrow> field_upd h3 next (set_pv x); Some (h', l) }
                     else Some (h3, x));
     Some (h4, first3, last4) }"

text \<open>First and last node of a list of nodes, null when it is empty.\<close>

definition first_of :: "ptr list \<Rightarrow> ptr" where
  "first_of xs = (case xs of [] \<Rightarrow> 0 | x # _ \<Rightarrow> x)"

definition last_of :: "ptr list \<Rightarrow> ptr" where
  "last_of xs = (if xs = [] then 0 else last xs)"

section \<open>Segments, independently of the node type\<close>

lemma deref_nonnull [simp]: "p \<noteq> 0 \<Longrightarrow> deref h p = h p" and deref_null [simp]: "deref h 0 = None"
  by (simp_all add: deref_def)

lemma field_upd_Some: "p \<noteq> 0 \<Longrightarrow> h p = Some c \<Longrightarrow> field_upd h p f = Some (h(p \<mapsto> f c))"
  by (simp add: field_upd_def)

lemma first_of_simps [simp]: "first_of [] = 0" "first_of (x # xs) = x"
  by (simp_all add: first_of_def)

lemma last_of_simps [simp]: "last_of [] = 0" "last_of (xs @ [x]) = x" "last_of [x] = x"
    "last_of (x # y # ys) = last_of (y # ys)"
  by (simp_all add: last_of_def)

lemma dllseg_cong:
  assumes "\<And>x. x \<in> set xs \<Longrightarrow> h' x = h x"
  shows "dllseg nx pv h' p pr xs n l = dllseg nx pv h p pr xs n l"
  using assms by (induction xs arbitrary: p pr) (auto split: option.splits)

lemma dllseg_upd [simp]: "a \<notin> set xs \<Longrightarrow> dllseg nx pv (h(a := v)) p pr xs n l = dllseg nx pv h p pr xs n l"
  by (rule dllseg_cong) auto

lemma dllseg_append:
  "dllseg nx pv h p pr (xs @ ys) n l \<longleftrightarrow>
     (\<exists>m k. dllseg nx pv h p pr xs m k \<and> dllseg nx pv h m k ys n l)"
  by (induction xs arbitrary: p pr) (auto split: option.splits)

lemma dllseg_nonnull: "dllseg nx pv h p pr xs n l \<Longrightarrow> 0 \<notin> set xs"
  by (induction xs arbitrary: p pr) (auto split: option.splits)

lemma dllseg_first: "dllseg nx pv h p pr xs 0 l \<Longrightarrow> p = first_of xs"
  by (cases xs) auto

lemma dllseg_last: "dllseg nx pv h p 0 xs n l \<Longrightarrow> l = last_of xs"
proof -
  have "dllseg nx pv h p pr xs n l \<Longrightarrow> l = (if xs = [] then pr else last xs)" for pr
    by (induction xs arbitrary: p pr) (auto split: option.splits)
  then show "dllseg nx pv h p 0 xs n l \<Longrightarrow> l = last_of xs" by (simp add: last_of_def)
qed

lemma dll_cong: "(\<And>x. x \<in> set xs \<Longrightarrow> h' x = h x) \<Longrightarrow> dll nx pv h' f l xs = dll nx pv h f l xs"
  unfolding dll_def using dllseg_cong [of xs h' h] by auto

lemma dll_seg: "dll nx pv h f l xs \<Longrightarrow> dllseg nx pv h f 0 xs 0 l"
  by (simp add: dll_def)

lemma dll_first: "dll nx pv h f l xs \<Longrightarrow> f = first_of xs"
  by (rule dllseg_first [OF dll_seg])

lemma dll_last: "dll nx pv h f l xs \<Longrightarrow> l = last_of xs"
  by (rule dllseg_last [OF dll_seg])

lemma dll_nonnull: "dll nx pv h f l xs \<Longrightarrow> x \<in> set xs \<Longrightarrow> x \<noteq> 0"
  using dllseg_nonnull [OF dll_seg] by metis

lemma dllseg_alloc: "dllseg nx pv h p pr xs n l \<Longrightarrow> x \<in> set xs \<Longrightarrow> \<exists>c. h x = Some c"
  by (induction xs arbitrary: p pr) (auto split: option.splits)

lemma dll_alloc: "dll nx pv h f l xs \<Longrightarrow> x \<in> set xs \<Longrightarrow> \<exists>c. h x = Some c"
  by (auto simp: dll_def dest: dllseg_alloc)

text \<open>The links of a node in the middle of a list are its neighbours.\<close>

lemma dll_mid:
  assumes "dll nx pv h f l (xs @ x # ys)"
  obtains c where "h x = Some c" "pv c = last_of xs" "nx c = first_of ys"
    "dllseg nx pv h f 0 xs x (last_of xs)" "dllseg nx pv h (first_of ys) x ys 0 l"
proof -
  from assms obtain k where k: "dllseg nx pv h f 0 xs x k" "dllseg nx pv h x k (x # ys) 0 l"
    by (auto simp: dll_def dllseg_append)
  moreover from k obtain c where c: "h x = Some c" "pv c = k" "dllseg nx pv h (nx c) x ys 0 l"
    by (auto split: option.splits)
  ultimately show thesis
    using that [of c] dllseg_last [OF k(1)] dllseg_first [OF c(3)] by auto
qed

section \<open>The node interface and list surgery\<close>

locale dll_node =
  fixes nx pv :: "'n \<Rightarrow> ptr" and set_nx set_pv :: "ptr \<Rightarrow> 'n \<Rightarrow> 'n" and val :: "'n \<Rightarrow> 'v"
  assumes nx_set_nx [simp]: "nx (set_nx q c) = q"
    and pv_set_nx [simp]: "pv (set_nx q c) = pv c"
    and nx_set_pv [simp]: "nx (set_pv q c) = nx c"
    and pv_set_pv [simp]: "pv (set_pv q c) = q"
    and val_set_nx [simp]: "val (set_nx q c) = val c"
    and val_set_pv [simp]: "val (set_pv q c) = val c"
begin

lemma field_upd_val:
  assumes "field_upd h p f = Some h'" "\<And>c. val (f c) = val c"
  shows "map_option val (h' a) = map_option val (h a)"
  using assms by (auto simp: field_upd_def deref_def split: if_splits Option.bind_splits)

lemma unlink_val:
  "unlink nx pv set_nx set_pv h f l x = Some (h', f', l') \<Longrightarrow> map_option val (h' a) = map_option val (h a)"
  by (auto simp: unlink_def field_upd_val split: if_splits Option.bind_splits)

lemma link_val:
  "link set_nx set_pv h f l x p n = Some (h', f', l') \<Longrightarrow> map_option val (h' a) = map_option val (h a)"
  by (auto simp: link_def field_upd_val split: if_splits Option.bind_splits)

lemma seg_set_next:
  assumes "dllseg nx pv h p pr (xs @ [x]) n l" "x \<notin> set xs" "h x = Some c"
  shows "dllseg nx pv (h(x \<mapsto> set_nx n' c)) p pr (xs @ [x]) n' x"
  using assms by (auto simp: dllseg_append split: option.splits)

lemma seg_set_prev:
  assumes "dllseg nx pv h x pr (x # xs) n l" "x \<notin> set xs" "h x = Some c"
  shows "dllseg nx pv (h(x \<mapsto> set_pv pr' c)) x pr' (x # xs) n l"
  using assms by (auto split: option.splits)

text \<open>
  Splicing node \<open>x\<close> out: the list loses exactly \<open>x\<close>, no other node is written, and
  the spliced node keeps its contents.
\<close>

lemma unlink_dll:
  assumes d: "dll nx pv h f l (xs @ x # ys)"
  shows "\<exists>h' f' l'. unlink nx pv set_nx set_pv h f l x = Some (h', f', l') \<and>
     dll nx pv h' f' l' (xs @ ys) \<and> (\<forall>p. p \<notin> set (xs @ ys) \<longrightarrow> h' p = h p)"
proof -
  obtain c where c: "h x = Some c" "pv c = last_of xs" "nx c = first_of ys"
    and pre: "dllseg nx pv h f 0 xs x (last_of xs)"
    and post: "dllseg nx pv h (first_of ys) x ys 0 l"
    using d by (rule dll_mid)
  have dist: "distinct (xs @ x # ys)" and nn: "0 \<notin> set (xs @ x # ys)"
    using d by (auto simp: dll_def dest: dllseg_nonnull)
  have step1: "\<exists>h1 f1. (if pv c \<noteq> 0 then do { h' \<leftarrow> field_upd h (pv c) (set_nx (nx c)); Some (h', f) }
        else Some (h, nx c)) = Some (h1, f1) \<and>
      dllseg nx pv h1 f1 0 xs (first_of ys) (last_of xs) \<and>
      (\<forall>p. p \<notin> set xs \<longrightarrow> h1 p = h p)"
  proof (cases xs rule: rev_cases)
    case Nil
    then show ?thesis using c pre by simp
  next
    case (snoc zs z)
    then obtain cz where cz: "h z = Some cz" using dllseg_alloc [OF pre] by auto
    have "z \<noteq> 0" using nn snoc by auto
    moreover have "dllseg nx pv (h(z \<mapsto> set_nx (first_of ys) cz)) f 0 xs (first_of ys) z"
      using pre dist unfolding snoc by (intro seg_set_next) (auto simp: cz)
    ultimately show ?thesis
      using c cz snoc by (auto simp: field_upd_Some)
  qed
  then obtain h1 f1 where h1: "(if pv c \<noteq> 0 then do { h' \<leftarrow> field_upd h (pv c) (set_nx (nx c)); Some (h', f) }
        else Some (h, nx c)) = Some (h1, f1)"
      "dllseg nx pv h1 f1 0 xs (first_of ys) (last_of xs)" "\<forall>p. p \<notin> set xs \<longrightarrow> h1 p = h p"
    by blast
  have h1x: "h1 x = Some c" and "x \<noteq> 0" using h1(3) dist c nn by auto
  have post1: "dllseg nx pv h1 (first_of ys) x ys 0 l"
    using post dist h1(3) by (subst dllseg_cong [where h = h]) auto
  show ?thesis
  proof (cases ys)
    case Nil
    then show ?thesis
      using h1 h1x \<open>x \<noteq> 0\<close> c dist by (auto simp: unlink_def dll_def)
  next
    case (Cons y zs)
    then obtain cy where cy: "h1 y = Some cy" using dllseg_alloc [OF post1] by auto
    have y: "y \<noteq> 0" "y \<notin> set xs" "y \<notin> set zs" using nn dist Cons by auto
    have "dllseg nx pv (h1(y \<mapsto> set_pv (last_of xs) cy)) y (last_of xs) ys 0 l"
      using post1 y unfolding Cons by (intro seg_set_prev) (auto simp: cy)
    moreover have "dllseg nx pv (h1(y \<mapsto> set_pv (last_of xs) cy)) f1 0 xs y (last_of xs)"
      using h1(2) y Cons by simp
    ultimately have "dll nx pv (h1(y \<mapsto> set_pv (last_of xs) cy)) f1 l (xs @ ys)"
      using dist Cons by (auto simp: dll_def dllseg_append)
    moreover have "unlink nx pv set_nx set_pv h f l x = Some (h1(y \<mapsto> set_pv (last_of xs) cy), f1, l)"
      using h1(1) h1x \<open>x \<noteq> 0\<close> c Cons y cy by (simp add: unlink_def field_upd_Some)
    ultimately show ?thesis
      using h1(3) Cons by auto
  qed
qed

text \<open>Splicing a fresh node in between two neighbours.\<close>

lemma link_dll:
  assumes d: "dll nx pv h f l (xs @ ys)" and x: "x \<noteq> 0" "x \<notin> set (xs @ ys)" "h x = Some c"
  shows "\<exists>h' f' l'. link set_nx set_pv h f l x (last_of xs) (first_of ys) = Some (h', f', l') \<and>
     dll nx pv h' f' l' (xs @ x # ys) \<and> h' x = Some (set_nx (first_of ys) (set_pv (last_of xs) c)) \<and>
     (\<forall>p. p \<notin> set (xs @ x # ys) \<longrightarrow> h' p = h p)"
proof -
  let ?h2 = "h(x \<mapsto> set_nx (first_of ys) (set_pv (last_of xs) c))"
  have dist: "distinct (xs @ ys)" and nn: "0 \<notin> set (xs @ ys)"
    using d by (auto simp: dll_def dest: dllseg_nonnull)
  obtain k m where "dllseg nx pv h f 0 xs m k" "dllseg nx pv h m k ys 0 l"
    using d by (auto simp: dll_def dllseg_append)
  then have pre: "dllseg nx pv ?h2 f 0 xs (first_of ys) (last_of xs)"
    and post: "dllseg nx pv ?h2 (first_of ys) (last_of xs) ys 0 l"
    using x(2) dllseg_first dllseg_last by (fastforce)+
  have "\<exists>h3 f3. (if last_of xs \<noteq> 0 then do { h' \<leftarrow> field_upd ?h2 (last_of xs) (set_nx x); Some (h', f) }
        else Some (?h2, x)) = Some (h3, f3) \<and>
      dllseg nx pv h3 f3 0 xs x (last_of xs) \<and> (\<forall>p. p \<notin> set xs \<longrightarrow> h3 p = ?h2 p)"
  proof (cases xs rule: rev_cases)
    case Nil
    then show ?thesis by simp
  next
    case (snoc zs z)
    then obtain cz where cz: "?h2 z = Some cz" using dllseg_alloc [OF pre] by auto
    have "z \<noteq> 0" using nn snoc by auto
    moreover have "dllseg nx pv (?h2(z \<mapsto> set_nx x cz)) f 0 xs x z"
      using pre dist cz unfolding snoc by (intro seg_set_next) auto
    ultimately show ?thesis
      using cz snoc by (auto simp: field_upd_Some)
  qed
  then obtain h3 f3 where h3: "(if last_of xs \<noteq> 0 then do { h' \<leftarrow> field_upd ?h2 (last_of xs) (set_nx x); Some (h', f) }
        else Some (?h2, x)) = Some (h3, f3)"
      "dllseg nx pv h3 f3 0 xs x (last_of xs)" "\<forall>p. p \<notin> set xs \<longrightarrow> h3 p = ?h2 p"
    by blast
  have h3x: "h3 x = Some (set_nx (first_of ys) (set_pv (last_of xs) c))" using h3(3) x by auto
  have start: "field_upd h x (set_pv (last_of xs)) = Some (h(x \<mapsto> set_pv (last_of xs) c))"
      "field_upd (h(x \<mapsto> set_pv (last_of xs) c)) x (set_nx (first_of ys)) = Some ?h2"
    using x by (simp_all add: field_upd_Some)
  have post3: "dllseg nx pv h3 (first_of ys) (last_of xs) ys 0 l"
    using post dist h3(3) by (subst dllseg_cong [where h = ?h2]) auto
  show ?thesis
  proof (cases ys)
    case Nil
    then have "dll nx pv h3 f3 x (xs @ x # ys)"
      using h3 h3x x dist by (auto simp: dll_def dllseg_append)
    moreover have "link set_nx set_pv h f l x (last_of xs) (first_of ys) = Some (h3, f3, x)"
      using h3(1) start Nil by (cases "last_of xs = 0") (auto simp: link_def split: Option.bind_splits)
    ultimately show ?thesis
      using h3(3) h3x by auto
  next
    case (Cons y zs)
    then obtain cy where cy: "h3 y = Some cy" using dllseg_alloc [OF post3] by auto
    have y: "y \<noteq> 0" "y \<notin> set xs" "y \<notin> set zs" "y \<noteq> x" using nn dist Cons x by auto
    let ?h4 = "h3(y \<mapsto> set_pv x cy)"
    have "dllseg nx pv ?h4 y x ys 0 l"
      using post3 y unfolding Cons by (intro seg_set_prev) (auto simp: cy)
    moreover have "dllseg nx pv ?h4 f3 0 xs x (last_of xs)"
      using h3(2) y by simp
    ultimately have "dll nx pv ?h4 f3 l (xs @ x # ys)"
      using h3x y x dist Cons by (auto simp: dll_def dllseg_append)
    moreover have "link set_nx set_pv h f l x (last_of xs) (first_of ys) = Some (?h4, f3, l)"
      using h3(1) start y cy Cons
      by (cases "last_of xs = 0") (auto simp: link_def field_upd_Some split: Option.bind_splits)
    ultimately show ?thesis
      using h3(3) h3x y Cons by auto
  qed
qed

end

end
