(* ===== verification/Vme_Queue.thy ===== *)
theory Vme_Queue
  imports Linked_Lists
begin

text \<open>
  The list of virtual memory entries of a process: \<^verbatim>\<open>VME\<close> and \<^verbatim>\<open>VMEQueue\<close> of
  \<^verbatim>\<open>kernel/queue.h\<close>.  The first group of definitions is the pointer program itself
  (nodes in a store, loops that follow \<^verbatim>\<open>next\<close>); the second group is the same
  interface on the list of regions, which the memory-management system calls use.  The
  refinement lemmas relate them; the rest of the theory is about regions: the list stays
  sorted and disjoint, the first-fit search is a first fit, \<^verbatim>\<open>contains_range\<close>
  decides coverage, \<^verbatim>\<open>deep_copy\<close> copies.
\<close>

section \<open>The pointer program\<close>

record VME =
  vme_next :: ptr
  vme_prev :: ptr
  vme_start :: u32
  vme_end :: u32
  vme_size :: u32

record VMEQueue =
  vq_first :: ptr
  vq_last :: ptr
  vq_size :: u32

definition VME_new :: "u32 \<Rightarrow> u32 \<Rightarrow> VME" where
  "VME_new addr sz =
     \<lparr>vme_next = 0, vme_prev = 0, vme_start = addr, vme_end = addr + sz, vme_size = sz\<rparr>"

definition VMEQueue_new :: VMEQueue where
  "VMEQueue_new = \<lparr>vq_first = 0, vq_last = 0, vq_size = 0\<rparr>"

definition set_vme_next :: "ptr \<Rightarrow> VME \<Rightarrow> VME" where
  "set_vme_next p v = v\<lparr>vme_next := p\<rparr>"

definition set_vme_prev :: "ptr \<Rightarrow> VME \<Rightarrow> VME" where
  "set_vme_prev p v = v\<lparr>vme_prev := p\<rparr>"

partial_function (option) intersects_loop :: "VME store \<Rightarrow> ptr \<Rightarrow> u32 \<Rightarrow> u32 \<Rightarrow> bool option" where
  "intersects_loop h it addr sz =
     (if it = 0 then Some False
      else do {
        c \<leftarrow> deref h it;
        if addr < vme_end c \<and> addr + sz \<ge> vme_start c then Some True
        else intersects_loop h (vme_next c) addr sz })"

definition intersects_queue :: "VME store \<Rightarrow> VMEQueue \<Rightarrow> u32 \<Rightarrow> u32 \<Rightarrow> bool option" where
  "intersects_queue h q addr sz = intersects_loop h (vq_first q) addr sz"

text \<open>The two searches of \<^verbatim>\<open>add_vme\<close>: first fit, and the place of a fixed address.\<close>

partial_function (option) fit_loop :: "VME store \<Rightarrow> u32 \<Rightarrow> u32 \<Rightarrow> ptr \<Rightarrow> ptr \<Rightarrow> (u32 \<times> ptr \<times> ptr) option" where
  "fit_loop h sz start_address prev next =
     (if next = 0 then Some (start_address, prev, next)
      else do {
        c \<leftarrow> deref h next;
        if vme_start c < start_address + sz
        then fit_loop h sz (vme_end c) next (vme_next c)
        else Some (start_address, prev, next) })"

partial_function (option) place_loop :: "VME store \<Rightarrow> u32 \<Rightarrow> ptr \<Rightarrow> ptr \<Rightarrow> (ptr \<times> ptr) option" where
  "place_loop h vend prev next =
     (if next = 0 then Some (prev, next)
      else do {
        c \<leftarrow> deref h next;
        if vme_start c < vend then place_loop h vend next (vme_next c)
        else Some (prev, next) })"

definition insert_vme :: "VME store \<Rightarrow> VMEQueue \<Rightarrow> ptr \<Rightarrow> ptr \<Rightarrow> ptr \<Rightarrow> (u32 \<times> VME store \<times> VMEQueue) option" where
  "insert_vme h q vme prev next = do {
     (h', f, l) \<leftarrow> link set_vme_next set_vme_prev h (vq_first q) (vq_last q) vme prev next;
     v \<leftarrow> deref h' vme;
     Some (vme_start v, h', q\<lparr>vq_first := f, vq_last := l\<rparr>) }"

definition add_vme :: "VME store \<Rightarrow> VMEQueue \<Rightarrow> ptr \<Rightarrow> (u32 \<times> VME store \<times> VMEQueue) option" where
  "add_vme h q vme = do {
     v \<leftarrow> deref h vme;
     if vme_size v = 0 then Some (0, h, q)
     else if vme_start v = 0 then do {
       (start_address, prev, next) \<leftarrow> fit_loop h (vme_size v) 0x80000000 0 (vq_first q);
       if start_address + vme_size v > 0xF0000000 \<or> start_address + vme_size v < start_address
       then Some (0, h, q)
       else do {
         h1 \<leftarrow> field_upd h vme (\<lambda>v. v\<lparr>vme_start := start_address\<rparr>);
         h2 \<leftarrow> field_upd h1 vme (\<lambda>v. v\<lparr>vme_end := start_address + vme_size v\<rparr>);
         insert_vme h2 q vme prev next } }
     else do {
       (prev, next) \<leftarrow> place_loop h (vme_end v) 0 (vq_first q);
       insert_vme h q vme prev next } }"

partial_function (option) find_loop :: "VME store \<Rightarrow> ptr \<Rightarrow> u32 \<Rightarrow> ptr option" where
  "find_loop h it addr =
     (if it = 0 then Some 0
      else do {
        c \<leftarrow> deref h it;
        if addr < vme_end c \<and> addr \<ge> vme_start c then Some it
        else find_loop h (vme_next c) addr })"

definition remove_vme :: "VME store \<Rightarrow> VMEQueue \<Rightarrow> u32 \<Rightarrow> (ptr \<times> VME store \<times> VMEQueue) option" where
  "remove_vme h q addr = do {
     it \<leftarrow> find_loop h (vq_first q) addr;
     if it = 0 then Some (0, h, q)
     else do {
       (h', f, l) \<leftarrow> unlink vme_next vme_prev set_vme_next set_vme_prev h (vq_first q) (vq_last q) it;
       Some (it, h', q\<lparr>vq_first := f, vq_last := l\<rparr>) } }"

text \<open>
  \<^verbatim>\<open>deep_copy\<close> allocates a node per entry; \<open>news\<close> are the addresses the successive
  calls of \<^verbatim>\<open>new VME\<close> return.  Running out of them is \<^verbatim>\<open>operator new\<close> finding no
  memory, which panics.
\<close>

partial_function (option) copy_loop ::
  "VME store \<Rightarrow> VMEQueue \<Rightarrow> ptr \<Rightarrow> ptr list \<Rightarrow> (VME store \<times> VMEQueue) option" where
  "copy_loop h q it news =
     (if it = 0 then Some (h, q)
      else do {
        c \<leftarrow> deref h it;
        (case news of
           [] \<Rightarrow> None
         | p # ps \<Rightarrow> do {
             (_, h', q') \<leftarrow> add_vme (h(p \<mapsto> VME_new (vme_start c) (vme_size c))) q p;
             c' \<leftarrow> deref h' it;
             copy_loop h' q' (vme_prev c') ps }) })"

definition deep_copy :: "VME store \<Rightarrow> VMEQueue \<Rightarrow> ptr list \<Rightarrow> (VME store \<times> VMEQueue) option" where
  "deep_copy h q news = copy_loop h VMEQueue_new (vq_last q) news"

partial_function (option) contains_loop :: "VME store \<Rightarrow> ptr \<Rightarrow> u32 \<Rightarrow> u32 \<Rightarrow> bool option" where
  "contains_loop h it start end =
     (if it = 0 then Some False
      else do {
        c \<leftarrow> deref h it;
        if start \<ge> vme_start c \<and> start < vme_end c
        then (if end < vme_end c then Some True
              else contains_loop h (vme_next c) (vme_end c) end)
        else contains_loop h (vme_next c) start end })"

definition contains_range :: "VME store \<Rightarrow> VMEQueue \<Rightarrow> u32 \<Rightarrow> u32 \<Rightarrow> bool option" where
  "contains_range h q start end = contains_loop h (vq_first q) start end"

partial_function (option) clear_vmes :: "VME store \<Rightarrow> VMEQueue \<Rightarrow> (VME store \<times> VMEQueue) option" where
  "clear_vmes h q =
     (if vq_first q = 0 then Some (h, q)
      else do {
        c \<leftarrow> deref h (vq_first q);
        let h1 = h(vq_first q := None);
        if vme_next c = 0 then clear_vmes h1 (q\<lparr>vq_first := 0, vq_last := 0\<rparr>)
        else do {
          h2 \<leftarrow> field_upd h1 (vme_next c) (set_vme_prev 0);
          clear_vmes h2 (q\<lparr>vq_first := vme_next c\<rparr>) } })"

section \<open>The queue as a list of regions\<close>

record region =
  r_start :: u32
  r_end :: u32
  r_size :: u32

definition region_of :: "VME \<Rightarrow> region" where
  "region_of v = \<lparr>r_start = vme_start v, r_end = vme_end v, r_size = vme_size v\<rparr>"

definition new_region :: "u32 \<Rightarrow> u32 \<Rightarrow> region" where
  "new_region addr sz = \<lparr>r_start = addr, r_end = addr + sz, r_size = sz\<rparr>"

definition intersects_regions :: "u32 \<Rightarrow> u32 \<Rightarrow> region list \<Rightarrow> bool" where
  "intersects_regions addr sz rs \<longleftrightarrow> list_ex (\<lambda>r. addr < r_end r \<and> addr + sz \<ge> r_start r) rs"

fun fit :: "u32 \<Rightarrow> u32 \<Rightarrow> region list \<Rightarrow> u32 \<times> nat" where
  "fit sz sa [] = (sa, 0)"
| "fit sz sa (r # rs) =
     (if r_start r < sa + sz then (let (a, k) = fit sz (r_end r) rs in (a, Suc k)) else (sa, 0))"

fun place :: "u32 \<Rightarrow> region list \<Rightarrow> nat" where
  "place e [] = 0"
| "place e (r # rs) = (if r_start r < e then Suc (place e rs) else 0)"

definition insert_at :: "nat \<Rightarrow> 'a \<Rightarrow> 'a list \<Rightarrow> 'a list" where
  "insert_at k x xs = take k xs @ x # drop k xs"

definition add_region :: "region \<Rightarrow> region list \<Rightarrow> u32 \<times> region list" where
  "add_region r rs =
     (if r_size r = 0 then (0, rs)
      else if r_start r = 0 then
        (let (sa, k) = fit (r_size r) 0x80000000 rs
         in if sa + r_size r > 0xF0000000 \<or> sa + r_size r < sa then (0, rs)
            else (sa, insert_at k \<lparr>r_start = sa, r_end = sa + r_size r, r_size = r_size r\<rparr> rs))
      else (r_start r, insert_at (place (r_end r) rs) r rs))"

fun remove_region :: "u32 \<Rightarrow> region list \<Rightarrow> (region \<times> region list) option" where
  "remove_region addr [] = None"
| "remove_region addr (r # rs) =
     (if addr < r_end r \<and> addr \<ge> r_start r then Some (r, rs)
      else map_option (\<lambda>(x, ys). (x, r # ys)) (remove_region addr rs))"

fun contains_regions :: "region list \<Rightarrow> u32 \<Rightarrow> u32 \<Rightarrow> bool" where
  "contains_regions [] s e = False"
| "contains_regions (r # rs) s e =
     (if s \<ge> r_start r \<and> s < r_end r
      then (if e < r_end r then True else contains_regions rs (r_end r) e)
      else contains_regions rs s e)"

definition copy_regions :: "region list \<Rightarrow> region list" where
  "copy_regions rs = fold (\<lambda>r acc. snd (add_region (new_region (r_start r) (r_size r)) acc)) (rev rs) []"

text \<open>
  Well-formed regions: inside the user range of the README (0x80000000 to 0xF0001000),
  not empty, \<^verbatim>\<open>end\<close> and \<^verbatim>\<open>size\<close> consistent, sorted by address, pairwise disjoint.
\<close>

definition region_ok :: "region \<Rightarrow> bool" where
  "region_ok r \<longleftrightarrow> 0x80000000 \<le> r_start r \<and> r_start r < r_end r \<and> r_end r \<le> 0xF0001000 \<and>
     r_end r = r_start r + r_size r"

definition regions_ok :: "region list \<Rightarrow> bool" where
  "regions_ok rs \<longleftrightarrow> list_all region_ok rs \<and> sorted_wrt (\<lambda>a b. r_end a \<le> r_start b) rs"

definition covered :: "region list \<Rightarrow> u32 \<Rightarrow> bool" where
  "covered rs a \<longleftrightarrow> list_ex (\<lambda>r. r_start r \<le> a \<and> a < r_end r) rs"

text \<open>
  The specification of the first-fit search: \<open>sz\<close> bytes fit at \<open>a\<close> when they lie in the
  private user range 0x80000000 to 0xF0000000 and meet no region.
\<close>

definition fits :: "region list \<Rightarrow> u32 \<Rightarrow> u32 \<Rightarrow> bool" where
  "fits rs a sz \<longleftrightarrow> 0x80000000 \<le> a \<and> unat a + unat sz \<le> 0xF0000000 \<and>
     (\<forall>x. a \<le> x \<and> x < a + sz \<longrightarrow> \<not> covered rs x)"

text \<open>The queue \<open>q\<close> of store \<open>h\<close> has the nodes \<open>xs\<close>, which hold the regions \<open>rs\<close>.\<close>

definition vmeq :: "VME store \<Rightarrow> VMEQueue \<Rightarrow> ptr list \<Rightarrow> region list \<Rightarrow> bool" where
  "vmeq h q xs rs \<longleftrightarrow>
     dll vme_next vme_prev h (vq_first q) (vq_last q) xs \<and>
     map (\<lambda>x. map_option region_of (h x)) xs = map Some rs"

text \<open>A concrete queue for the witnesses.\<close>

definition ex_store :: "VME store" where
  "ex_store = [0x100 \<mapsto> VME_new 0x80001000 0x1000, 0x200 \<mapsto> VME_new 0 0x2000]"

definition ex_queue :: VMEQueue where
  "ex_queue = \<lparr>vq_first = 0x100, vq_last = 0x100, vq_size = 0\<rparr>"

section \<open>The node type is a list node\<close>

interpretation vme: dll_node vme_next vme_prev set_vme_next set_vme_prev region_of
  by unfold_locales (simp_all add: set_vme_next_def set_vme_prev_def region_of_def)

lemma region_of_set_links [simp]:
  "region_of (set_vme_next p v) = region_of v" "region_of (set_vme_prev p v) = region_of v"
  by (simp_all add: region_of_def set_vme_next_def set_vme_prev_def)

lemma region_of_new [simp]: "region_of (VME_new a n) = new_region a n"
  by (simp add: region_of_def VME_new_def new_region_def)


section \<open>Refinement: the pointer program implements the list interface\<close>

text \<open>A suffix of the queue, from node \<open>p\<close> on, holding the regions \<open>rs\<close>.\<close>

abbreviation (input) vme_suffix :: "VME store \<Rightarrow> ptr \<Rightarrow> ptr \<Rightarrow> ptr list \<Rightarrow> region list \<Rightarrow> bool" where
  "vme_suffix h p pr xs rs \<equiv>
     (\<exists>l. dllseg vme_next vme_prev h p pr xs 0 l) \<and> map (\<lambda>x. map_option region_of (h x)) xs = map Some rs"

lemma vmeq_suffix: "vmeq h q xs rs \<Longrightarrow> vme_suffix h (vq_first q) 0 xs rs"
  by (auto simp: vmeq_def dll_def)

lemma vme_suffix_Cons:
  assumes "vme_suffix h p pr (x # xs) rs"
  obtains c ss where "p = x" "x \<noteq> 0" "h x = Some c" "vme_prev c = pr" "rs = region_of c # ss"
    "vme_suffix h (vme_next c) x xs ss"
  using assms by (cases rs) (auto split: option.splits)

lemma region_of_sels:
  "vme_start c = r_start (region_of c)" "vme_end c = r_end (region_of c)" "vme_size c = r_size (region_of c)"
  by (simp_all add: region_of_def)

lemma intersects_loop_refines:
  "vme_suffix h p pr xs rs \<Longrightarrow> intersects_loop h p addr sz = Some (intersects_regions addr sz rs)"
proof (induction xs arbitrary: p pr rs)
  case Nil
  then show ?case by (simp add: intersects_loop.simps intersects_regions_def)
next
  case (Cons x xs)
  from Cons.prems obtain c ss where c: "p = x" "x \<noteq> 0" "h x = Some c" "rs = region_of c # ss"
    and suf: "vme_suffix h (vme_next c) x xs ss" by (rule vme_suffix_Cons)
  show ?case
    using c Cons.IH [OF suf]
    by (subst intersects_loop.simps) (auto simp: intersects_regions_def region_of_sels)
qed

lemma contains_loop_refines:
  "vme_suffix h p pr xs rs \<Longrightarrow> contains_loop h p s e = Some (contains_regions rs s e)"
proof (induction xs arbitrary: p pr rs s)
  case Nil
  then show ?case by (simp add: contains_loop.simps)
next
  case (Cons x xs)
  from Cons.prems obtain c ss where c: "p = x" "x \<noteq> 0" "h x = Some c" "rs = region_of c # ss"
    and suf: "vme_suffix h (vme_next c) x xs ss" by (rule vme_suffix_Cons)
  show ?case
    using c Cons.IH [OF suf] by (subst contains_loop.simps) (simp add: region_of_sels)
qed

lemma fit_bound: "fit sz sa rs = (a, k) \<Longrightarrow> k \<le> length rs"
  by (induction rs arbitrary: sa a k) (auto split: if_splits prod.splits)

lemma place_bound: "place e rs \<le> length rs"
  by (induction rs) auto

lemma fit_loop_refines:
  "vme_suffix h p pr xs rs \<Longrightarrow> fit sz sa rs = (a, k) \<Longrightarrow>
     fit_loop h sz sa pr p = Some (a, (if k = 0 then pr else xs ! (k - 1)), first_of (drop k xs))"
proof (induction xs arbitrary: p pr rs sa a k)
  case Nil
  then show ?case by (auto simp: fit_loop.simps)
next
  case (Cons x xs)
  from Cons.prems(1) obtain c ss where c: "p = x" "x \<noteq> 0" "h x = Some c" "rs = region_of c # ss"
    and suf: "vme_suffix h (vme_next c) x xs ss" by (rule vme_suffix_Cons)
  obtain a' k' where ak: "fit sz (vme_end c) ss = (a', k')" by force
  show ?case
    using c Cons.prems(2) Cons.IH [OF suf ak] ak
    by (subst fit_loop.simps)
      (auto simp: region_of_sels nth_Cons split: if_splits nat.split)
qed

lemma place_loop_refines:
  "vme_suffix h p pr xs rs \<Longrightarrow> k = place e rs \<Longrightarrow>
     place_loop h e pr p = Some ((if k = 0 then pr else xs ! (k - 1)), first_of (drop k xs))"
proof (induction xs arbitrary: p pr rs k)
  case Nil
  then show ?case by (auto simp: place_loop.simps)
next
  case (Cons x xs)
  from Cons.prems(1) obtain c ss where c: "p = x" "x \<noteq> 0" "h x = Some c" "rs = region_of c # ss"
    and suf: "vme_suffix h (vme_next c) x xs ss" by (rule vme_suffix_Cons)
  show ?case
    using c Cons.prems(2) Cons.IH [OF suf refl]
    by (subst place_loop.simps)
      (auto simp: region_of_sels nth_Cons split: if_splits nat.split)
qed

lemma find_loop_refines:
  "vme_suffix h p pr xs rs \<Longrightarrow>
     (case remove_region addr rs of
        None \<Rightarrow> find_loop h p addr = Some 0
      | Some (r, ss) \<Rightarrow> \<exists>k < length xs. find_loop h p addr = Some (xs ! k) \<and>
          r = rs ! k \<and> ss = take k rs @ drop (Suc k) rs)"
proof (induction xs arbitrary: p pr rs)
  case Nil
  then show ?case by (auto simp: find_loop.simps)
next
  case (Cons x xs)
  from Cons.prems(1) obtain c ss where c: "p = x" "x \<noteq> 0" "h x = Some c" "rs = region_of c # ss"
    and suf: "vme_suffix h (vme_next c) x xs ss" by (rule vme_suffix_Cons)
  show ?case
  proof (cases "addr < vme_end c \<and> vme_start c \<le> addr")
    case True
    then have "find_loop h p addr = Some x" using c by (subst find_loop.simps) simp
    then show ?thesis using True c by (auto simp: region_of_sels intro!: exI [of _ 0])
  next
    case False
    then have "find_loop h p addr = find_loop h (vme_next c) addr"
      using c by (subst find_loop.simps) auto
    then show ?thesis
      using False c Cons.IH [OF suf]
      by (cases "remove_region addr ss") (auto simp: region_of_sels intro: exI [of _ "Suc _"])
  qed
qed

lemma vmeq_length: "vmeq h q xs rs \<Longrightarrow> length xs = length rs"
  unfolding vmeq_def by (metis length_map)

lemma last_of_take: "k \<le> length xs \<Longrightarrow> last_of (take k xs) = (if k = 0 then 0 else xs ! (k - 1))"
  by (cases k) (auto simp: last_of_def take_Suc_conv_app_nth)

lemma vmeq_cong: "vmeq h q xs rs \<Longrightarrow> (\<And>x. x \<in> set xs \<Longrightarrow> h' x = h x) \<Longrightarrow> vmeq h' q xs rs"
  unfolding vmeq_def using dll_cong [of xs h' h] by (auto cong: map_cong)

lemma map_insert_at: "map f (insert_at k x xs) = insert_at k (f x) (map f xs)"
  by (simp add: insert_at_def take_map drop_map)

lemma set_insert_at [simp]: "set (insert_at k x xs) = insert x (set xs)"
  by (simp add: insert_at_def) (metis append_take_drop_id set_append)

text \<open>Linking a node into the queue inserts its region at the same position.\<close>

lemma insert_vme_refines:
  assumes q: "vmeq h q xs rs" and x: "x \<noteq> 0" "x \<notin> set xs" "h x = Some v" and k: "k \<le> length xs"
  shows "\<exists>h' q'. insert_vme h q x (if k = 0 then 0 else xs ! (k - 1)) (first_of (drop k xs)) =
      Some (vme_start v, h', q') \<and>
    vmeq h' q' (insert_at k x xs) (insert_at k (region_of v) rs) \<and>
    (\<forall>p. p \<notin> set (x # xs) \<longrightarrow> h' p = h p)"
proof -
  let ?f = "vq_first q" and ?l = "vq_last q"
  have "dll vme_next vme_prev h ?f ?l (take k xs @ drop k xs)"
    using q by (simp add: vmeq_def)
  moreover have "x \<notin> set (take k xs @ drop k xs)" using x by simp
  ultimately obtain h' f' l' where
    lk: "link set_vme_next set_vme_prev h ?f ?l x (last_of (take k xs)) (first_of (drop k xs)) = Some (h', f', l')"
    and d: "dll vme_next vme_prev h' f' l' (insert_at k x xs)"
    and hx: "h' x = Some (set_vme_next (first_of (drop k xs)) (set_vme_prev (last_of (take k xs)) v))"
    and fr: "\<forall>p. p \<notin> set (insert_at k x xs) \<longrightarrow> h' p = h p"
    using vme.link_dll [of h ?f ?l "take k xs" "drop k xs" x v] x unfolding insert_at_def by blast
  have "map (\<lambda>x. map_option region_of (h' x)) (insert_at k x xs) = map Some (insert_at k (region_of v) rs)"
    using q x vme.link_val [OF lk] by (simp add: map_insert_at vmeq_def)
  then have "vmeq h' (q\<lparr>vq_first := f', vq_last := l'\<rparr>) (insert_at k x xs) (insert_at k (region_of v) rs)"
    using d by (simp add: vmeq_def)
  moreover have "insert_vme h q x (if k = 0 then 0 else xs ! (k - 1)) (first_of (drop k xs)) =
      Some (vme_start v, h', q\<lparr>vq_first := f', vq_last := l'\<rparr>)"
    using lk hx x(1) last_of_take [OF k]
    by (simp add: insert_vme_def set_vme_next_def set_vme_prev_def)
  ultimately show ?thesis using fr by auto
qed

lemma add_vme_refines:
  assumes q: "vmeq h q xs rs" and x: "x \<noteq> 0" "x \<notin> set xs" "h x = Some v"
    and add: "add_region (region_of v) rs = (va, rs')"
  shows "\<exists>h' q' xs'. add_vme h q x = Some (va, h', q') \<and> vmeq h' q' xs' rs' \<and>
     set xs' \<subseteq> insert x (set xs) \<and> (\<forall>p. p \<notin> insert x (set xs) \<longrightarrow> h' p = h p)"
proof (cases "vme_size v = 0")
  case True
  then have "rs' = rs" "va = 0" using add by (auto simp: add_region_def region_of_def)
  then show ?thesis using True q x by (auto simp: add_vme_def)
next
  case False
  show ?thesis
  proof (cases "vme_start v = 0")
    case True
    obtain sa k where fit: "fit (vme_size v) 0x80000000 rs = (sa, k)" by force
    let ?n = "vme_size v"
    note floop = fit_loop_refines [OF vmeq_suffix [OF q] fit]
    show ?thesis
    proof (cases "sa + ?n > 0xF0000000 \<or> sa + ?n < sa")
      case full: True
      then have "rs' = rs" "va = 0" using add \<open>vme_start v = 0\<close> False fit
        by (auto simp: add_region_def region_of_def)
      then show ?thesis using full True False q x floop by (auto simp: add_vme_def)
    next
      case room: False
      let ?w = "v\<lparr>vme_start := sa, vme_end := sa + ?n\<rparr>"
      have rs': "va = sa" "rs' = insert_at k (region_of ?w) rs"
        using add True False fit room by (auto simp: add_region_def region_of_def)
      have q2: "vmeq (h(x \<mapsto> ?w)) q xs rs" using q x by (auto intro: vmeq_cong)
      have k: "k \<le> length xs" using fit_bound [OF fit] vmeq_length [OF q] by simp
      have "add_vme h q x = insert_vme (h(x \<mapsto> ?w)) q x (if k = 0 then 0 else xs ! (k - 1)) (first_of (drop k xs))"
        using True False room floop x by (auto simp: add_vme_def field_upd_Some)
      then show ?thesis
        using insert_vme_refines [OF q2 x(1,2) _ k, of ?w] rs' by (fastforce)
    qed
  next
    case fixed: False
    let ?k = "place (vme_end v) rs"
    have rs': "va = vme_start v" "rs' = insert_at ?k (region_of v) rs"
      using add False fixed by (auto simp: add_region_def region_of_def)
    have k: "?k \<le> length xs" using place_bound [of "vme_end v" rs] vmeq_length [OF q] by simp
    have "add_vme h q x = insert_vme h q x (if ?k = 0 then 0 else xs ! (?k - 1)) (first_of (drop ?k xs))"
      using False fixed place_loop_refines [OF vmeq_suffix [OF q] refl] x by (auto simp: add_vme_def)
    then show ?thesis
      using insert_vme_refines [OF q x k] rs' by fastforce
  qed
qed

lemma remove_vme_refines:
  assumes q: "vmeq h q xs rs"
  shows "case remove_region addr rs of
      None \<Rightarrow> remove_vme h q addr = Some (0, h, q)
    | Some (r, rs') \<Rightarrow> \<exists>x h' q' xs'. remove_vme h q addr = Some (x, h', q') \<and> x \<in> set xs \<and>
        map_option region_of (h' x) = Some r \<and> vmeq h' q' xs' rs' \<and> (\<forall>p. p \<notin> set xs \<longrightarrow> h' p = h p)"
proof (cases "remove_region addr rs")
  case None
  then show ?thesis
    using find_loop_refines [OF vmeq_suffix [OF q], of addr] by (simp add: remove_vme_def)
next
  case (Some p)
  obtain r rs' where p: "p = (r, rs')" by force
  obtain k where k: "k < length xs" "find_loop h (vq_first q) addr = Some (xs ! k)" "r = rs ! k"
      "rs' = take k rs @ drop (Suc k) rs"
    using find_loop_refines [OF vmeq_suffix [OF q], of addr] Some p by auto
  have "dll vme_next vme_prev h (vq_first q) (vq_last q) (take k xs @ xs ! k # drop (Suc k) xs)"
    using q k(1) by (simp add: vmeq_def id_take_nth_drop [symmetric])
  then obtain h' f' l' where
    u: "unlink vme_next vme_prev set_vme_next set_vme_prev h (vq_first q) (vq_last q) (xs ! k) = Some (h', f', l')"
    and d: "dll vme_next vme_prev h' f' l' (take k xs @ drop (Suc k) xs)"
    and fr: "\<forall>p. p \<notin> set (take k xs @ drop (Suc k) xs) \<longrightarrow> h' p = h p"
    using vme.unlink_dll by blast
  have vals: "map (\<lambda>x. map_option region_of (h' x)) xs = map Some rs"
    using q vme.unlink_val [OF u] by (simp add: vmeq_def)
  have "vmeq h' (q\<lparr>vq_first := f', vq_last := l'\<rparr>) (take k xs @ drop (Suc k) xs) rs'"
    using d arg_cong [OF vals, of "take k"] arg_cong [OF vals, of "drop (Suc k)"] k(4)
    by (simp add: vmeq_def take_map drop_map)
  moreover have "map_option region_of (h' (xs ! k)) = Some r"
    using arg_cong [OF vals, of "\<lambda>l. l ! k"] k(1,3) vmeq_length [OF q] by simp
  moreover have "xs ! k \<noteq> 0"
    using q k(1) dll_nonnull [of vme_next vme_prev h _ _ xs "xs ! k"] by (auto simp: vmeq_def)
  then have "remove_vme h q addr = Some (xs ! k, h', q\<lparr>vq_first := f', vq_last := l'\<rparr>)"
    using k(2) u by (simp add: remove_vme_def)
  moreover have "\<forall>p. p \<notin> set xs \<longrightarrow> h' p = h p" using fr by (auto dest: in_set_takeD in_set_dropD)
  ultimately show ?thesis
    using k(1) Some p by auto
qed

text \<open>
  The copy loop walks the source backwards through \<^verbatim>\<open>prev\<close>; at each point the
  nodes \<open>zs\<close> are still to be copied and the copy holds \<open>ss\<close>.
\<close>

lemma copy_loop_refines:
  assumes src: "vmeq h q (zs @ ws) (rs @ us)" and len: "length rs = length zs"
    and dst: "vmeq h d ys ss" and disj: "set (zs @ ws) \<inter> set ys = {}"
    and news: "length news = length zs" "distinct news" "0 \<notin> set news"
      "set news \<inter> (set (zs @ ws) \<union> set ys) = {}"
  shows "\<exists>h' d' ys'. copy_loop h d (last_of zs) news = Some (h', d') \<and>
     vmeq h' d' ys' (fold (\<lambda>r acc. snd (add_region (new_region (r_start r) (r_size r)) acc)) (rev rs) ss) \<and>
     vmeq h' q (zs @ ws) (rs @ us) \<and> set (zs @ ws) \<inter> set ys' = {} \<and> set ys' \<subseteq> set ys \<union> set news \<and>
     (\<forall>p. p \<notin> set ys \<union> set news \<longrightarrow> h' p = h p)"
  using assms
proof (induction zs arbitrary: h d ws rs us ys ss news rule: rev_induct)
  case Nil
  then show ?case by (auto simp: copy_loop.simps)
next
  case (snoc z zs)
  obtain rr r where rs: "rs = rr @ [r]" using snoc.prems(2) by (cases rs rule: rev_cases) auto
  obtain n ns where news: "news = n # ns" using snoc.prems(5) by (cases news) auto
  let ?all = "(zs @ [z]) @ ws"
  have dsrc: "dll vme_next vme_prev h (vq_first q) (vq_last q) (zs @ z # ws)"
    using snoc.prems(1) by (simp add: vmeq_def)
  obtain c where c: "h z = Some c" "vme_prev c = last_of zs" by (rule dll_mid [OF dsrc])
  have z0: "z \<noteq> 0" using dll_nonnull [OF dsrc] by simp
  have rc: "region_of c = r"
  proof -
    have "map (\<lambda>x. map_option region_of (h x)) ?all ! length zs = map Some (rs @ us) ! length zs"
      using snoc.prems(1) by (simp add: vmeq_def)
    then show ?thesis using c rs snoc.prems(2) by (simp add: nth_append)
  qed
  have n: "n \<noteq> 0" "n \<notin> set ?all" "n \<notin> set ys" using snoc.prems(7,8) news by auto
  let ?h1 = "h(n \<mapsto> VME_new (vme_start c) (vme_size c))"
  have dst1: "vmeq ?h1 d ys ss" using snoc.prems(3) n by (auto intro: vmeq_cong)
  let ?ss = "snd (add_region (new_region (r_start r) (r_size r)) ss)"
  have "add_region (region_of (VME_new (vme_start c) (vme_size c))) ss =
      (fst (add_region (new_region (r_start r) (r_size r)) ss), ?ss)"
    using rc by (auto simp: region_of_sels)
  from add_vme_refines [OF dst1 n(1,3) _ this] obtain h2 d2 ys2 where
    a: "add_vme ?h1 d n = Some (fst (add_region (new_region (r_start r) (r_size r)) ss), h2, d2)"
    and d2: "vmeq h2 d2 ys2 ?ss" and ys2: "set ys2 \<subseteq> insert n (set ys)"
    and fr: "\<forall>p. p \<notin> insert n (set ys) \<longrightarrow> h2 p = ?h1 p" by auto
  have same: "h2 p = h p" if "p \<in> set ?all" for p
    using that fr n snoc.prems(4) by auto
  have src2: "vmeq h2 q (zs @ z # ws) (rr @ r # us)"
    using snoc.prems(1) same rs by (auto intro: vmeq_cong)
  have "\<exists>h' d' ys'. copy_loop h2 d2 (last_of zs) ns = Some (h', d') \<and>
     vmeq h' d' ys' (fold (\<lambda>r acc. snd (add_region (new_region (r_start r) (r_size r)) acc)) (rev rr) ?ss) \<and>
     vmeq h' q (zs @ z # ws) (rr @ r # us) \<and> set (zs @ z # ws) \<inter> set ys' = {} \<and> set ys' \<subseteq> set ys2 \<union> set ns \<and>
     (\<forall>p. p \<notin> set ys2 \<union> set ns \<longrightarrow> h' p = h2 p)"
    using snoc.prems ys2 n news rs by (intro snoc.IH [OF src2 _ d2]) auto
  then obtain h' d' ys' where
    l: "copy_loop h2 d2 (last_of zs) ns = Some (h', d')"
      "vmeq h' d' ys' (fold (\<lambda>r acc. snd (add_region (new_region (r_start r) (r_size r)) acc)) (rev rr) ?ss)"
      "vmeq h' q (zs @ z # ws) (rr @ r # us)" "set (zs @ z # ws) \<inter> set ys' = {}"
    and ys': "set ys' \<subseteq> set ys2 \<union> set ns" and fr': "\<forall>p. p \<notin> set ys2 \<union> set ns \<longrightarrow> h' p = h2 p" by blast
  have "set ys' \<subseteq> set ys \<union> set news" using ys' ys2 news by auto
  moreover have "h' p = h p" if "p \<notin> set ys \<union> set news" for p
    using that fr fr' ys2 news by auto
  moreover have "copy_loop h d z news = copy_loop h2 d2 (last_of zs) ns"
    using z0 c a news same [of z] by (subst copy_loop.simps) simp
  ultimately show ?case using l rs by (intro exI [of _ h'] exI [of _ d'] exI [of _ ys']) simp
qed

lemma deep_copy_refines:
  assumes "vmeq h q xs rs" "length news = length xs" "distinct news" "0 \<notin> set news" "set news \<inter> set xs = {}"
  shows "\<exists>h' d ys. deep_copy h q news = Some (h', d) \<and> vmeq h' d ys (copy_regions rs) \<and> vmeq h' q xs rs \<and>
    set ys \<subseteq> set news \<and> (\<forall>p. p \<notin> set news \<longrightarrow> h' p = h p)"
proof -
  have empty: "vmeq h VMEQueue_new [] []" by (simp add: vmeq_def dll_def VMEQueue_new_def)
  have "vq_last q = last_of xs" using assms(1) by (auto simp: vmeq_def dest: dll_last)
  then show ?thesis
    using copy_loop_refines [of h q xs "[]" rs "[]" VMEQueue_new "[]" "[]" news] assms empty vmeq_length [OF assms(1)]
    by (auto simp: deep_copy_def copy_regions_def)
qed

lemma clear_vmes_refines:
  assumes "vmeq h q xs rs"
  shows "\<exists>h' q'. clear_vmes h q = Some (h', q') \<and> vq_first q' = 0 \<and> (xs \<noteq> [] \<longrightarrow> vq_last q' = 0) \<and>
     (\<forall>x \<in> set xs. h' x = None) \<and> (\<forall>x. x \<notin> set xs \<longrightarrow> h' x = h x)"
  using assms
proof (induction xs arbitrary: h q rs)
  case Nil
  then show ?case by (subst clear_vmes.simps) (auto simp: vmeq_def dll_def)
next
  case (Cons x xs)
  from Cons.prems have d: "dll vme_next vme_prev h (vq_first q) (vq_last q) ([] @ x # xs)"
    by (simp add: vmeq_def)
  obtain c where c: "h x = Some c" "vme_next c = first_of xs"
    and seg: "dllseg vme_next vme_prev h (first_of xs) x xs 0 (vq_last q)"
    by (rule dll_mid [OF d])
  have x: "vq_first q = x" "x \<noteq> 0" "x \<notin> set xs" "distinct xs"
    using dll_first [OF d] dll_nonnull [OF d] d by (auto simp: dll_def)
  show ?case
  proof (cases xs)
    case Nil
    then have "clear_vmes h q = clear_vmes (h(x := None)) (q\<lparr>vq_first := 0, vq_last := 0\<rparr>)"
      using x c by (subst clear_vmes.simps) simp
    also have "\<dots> = Some (h(x := None), q\<lparr>vq_first := 0, vq_last := 0\<rparr>)"
      by (subst clear_vmes.simps) simp
    finally show ?thesis using Nil by simp
  next
    case (Cons y ys)
    obtain cy where cy: "h y = Some cy" using dllseg_alloc [OF seg] Cons by auto
    have y: "y \<noteq> 0" "y \<noteq> x" "y \<notin> set ys" using dllseg_nonnull [OF seg] x Cons by auto
    let ?h = "h(x := None, y \<mapsto> set_vme_prev 0 cy)" and ?q = "q\<lparr>vq_first := y\<rparr>"
    have eq: "clear_vmes h q = clear_vmes ?h ?q"
      using x c cy y Cons by (subst clear_vmes.simps) (simp add: field_upd_Some)
    have "dllseg vme_next vme_prev ?h y 0 xs 0 (vq_last q)"
      using vme.seg_set_prev [of "h(x := None)" y x ys 0 "vq_last q" cy 0] seg cy y x Cons by auto
    moreover have "map (\<lambda>z. map_option region_of (?h z)) xs = map (\<lambda>z. map_option region_of (h z)) xs"
      using cy x Cons by (intro map_cong) auto
    moreover have "map (\<lambda>z. map_option region_of (h z)) xs = map Some (tl rs)"
      using Cons.prems by (auto simp: vmeq_def map_tl)
    ultimately have "vmeq ?h ?q xs (tl rs)"
      using x by (simp add: vmeq_def dll_def)
    from Cons.IH [OF this] Cons eq show ?thesis using x y by fastforce
  qed
qed

lemma clear_vmes_empties:
  assumes "vmeq h q xs rs"
  shows "\<exists>h' q'. clear_vmes h q = Some (h', q') \<and> vmeq h' q' [] [] \<and> (\<forall>p. h' p = (if p \<in> set xs then None else h p))"
proof -
  obtain h' q' where c: "clear_vmes h q = Some (h', q')" "vq_first q' = 0" "xs \<noteq> [] \<longrightarrow> vq_last q' = 0"
    "\<forall>x \<in> set xs. h' x = None" "\<forall>x. x \<notin> set xs \<longrightarrow> h' x = h x"
    using clear_vmes_refines [OF assms] by blast
  moreover have "vq_last q' = 0"
  proof (cases "xs = []")
    case True
    then have q: "vq_first q = 0" "vq_last q = 0" using assms by (auto simp: vmeq_def dll_def)
    then have "clear_vmes h q = Some (h, q)" by (subst clear_vmes.simps) simp
    then show ?thesis using c(1) q by simp
  qed (use c(3) in blast)
  ultimately show ?thesis by (auto simp: vmeq_def dll_def)
qed

section \<open>Properties of the region list\<close>

lemma region_ok_nat:
  assumes "region_ok r"
  shows "2147483648 \<le> unat (r_start r)" "unat (r_start r) < unat (r_end r)"
    "unat (r_end r) \<le> 4026535936" "unat (r_end r) = unat (r_start r) + unat (r_size r)"
proof -
  have "r_start r \<le> r_start r + r_size r" using assms by (metis less_imp_le region_ok_def)
  then have "unat (r_start r) + unat (r_size r) < 4294967296" by (simp only: add_no_wrap_iff)
  then show "unat (r_end r) = unat (r_start r) + unat (r_size r)"
    using assms by (simp add: region_ok_def unat_add_no_wrap)
qed (use assms in \<open>auto simp: region_ok_def word_nat\<close>)

lemma regions_ok_Cons:
  "regions_ok (r # rs) \<longleftrightarrow> region_ok r \<and> regions_ok rs \<and> (\<forall>s \<in> set rs. r_end r \<le> r_start s)"
  by (auto simp: regions_ok_def)

lemma regions_ok_mem: "regions_ok rs \<Longrightarrow> r \<in> set rs \<Longrightarrow> region_ok r"
  by (auto simp: regions_ok_def list_all_iff)

lemma covered_iff: "covered rs a \<longleftrightarrow> (\<exists>r \<in> set rs. r_start r \<le> a \<and> a < r_end r)"
  by (auto simp: covered_def list_ex_iff)

lemma regions_ok_insert_at:
  assumes "regions_ok rs" "region_ok r" "k \<le> length rs"
    and "\<forall>s \<in> set (take k rs). r_end s \<le> r_start r" "\<forall>s \<in> set (drop k rs). r_end r \<le> r_start s"
  shows "regions_ok (insert_at k r rs)"
proof -
  let ?P = "\<lambda>a b. r_end a \<le> r_start b"
  have "sorted_wrt ?P (take k rs @ drop k rs)"
    using assms(1) by (simp add: regions_ok_def)
  then have "sorted_wrt ?P (take k rs)" "sorted_wrt ?P (drop k rs)"
      "\<forall>x \<in> set (take k rs). \<forall>y \<in> set (drop k rs). ?P x y"
    unfolding sorted_wrt_append by auto
  then show ?thesis
    using assms unfolding regions_ok_def insert_at_def
    by (auto simp: sorted_wrt_append list_all_iff dest: in_set_takeD in_set_dropD)
qed

lemma covered_insert_at:
  "covered (insert_at k r rs) a \<longleftrightarrow> covered rs a \<or> (r_start r \<le> a \<and> a < r_end r)"
  by (auto simp: covered_iff)

text \<open>The first-fit search, in natural numbers.\<close>

lemma fit_spec:
  assumes "regions_ok rs" "\<forall>r \<in> set rs. sa \<le> r_start r" "fit sz sa rs = (a, k)"
  shows "sa \<le> a" "\<forall>r \<in> set (take k rs). r_end r \<le> a"
    "\<forall>r \<in> set (drop k rs). unat a + unat sz \<le> unat (r_start r) \<or> 4294967296 \<le> unat a + unat sz"
    "\<forall>b. sa \<le> b \<and> b < a \<longrightarrow>
       (\<exists>r \<in> set rs. unat b < unat (r_end r) \<and> unat (r_start r) < unat b + unat sz)"
  using assms
proof (induction rs arbitrary: sa a k)
  case Nil
  { case 1 then show ?case by simp }
  { case 2 then show ?case by simp }
  { case 3 then show ?case by simp }
  { case 4 then show ?case by auto }
next
  case (Cons r rs)
  obtain a' k' where rec: "fit sz (r_end r) rs = (a', k')" by force
  have ih: "r_end r \<le> a'" "\<forall>r \<in> set (take k' rs). r_end r \<le> a'"
      "\<forall>r \<in> set (drop k' rs). unat a' + unat sz \<le> unat (r_start r) \<or> 4294967296 \<le> unat a' + unat sz"
      "\<forall>b. r_end r \<le> b \<and> b < a' \<longrightarrow>
         (\<exists>s \<in> set rs. unat b < unat (r_end s) \<and> unat (r_start s) < unat b + unat sz)"
    if "regions_ok (r # rs)"
    using Cons.IH [of "r_end r" a' k'] rec that by (auto simp: regions_ok_Cons)
  { case 1
    then show ?case
      using ih(1) rec regions_ok_mem [of "r # rs" r] region_ok_nat(2) [of r]
      by (auto simp: word_nat split: if_splits) }
  { case 2
    then show ?case using ih(1,2) rec by (auto split: if_splits) }
  { case 3
    show ?case
    proof (cases "r_start r < sa + sz")
      case True
      then show ?thesis using 3 ih(3) rec by auto
    next
      case False
      then have ak: "a = sa" "k = 0" using 3 by auto
      have "unat (r_start r) \<le> unat (r_start s)" if "s \<in> set rs" for s
        using that 3(1) region_ok_nat(2) [of r] by (auto simp: regions_ok_Cons word_nat)
      moreover have "unat sa + unat sz \<le> unat (r_start r) \<or> 4294967296 \<le> unat sa + unat sz"
        using False unat_add_no_wrap [of sa sz] by (auto simp: word_less_unat not_less)
      ultimately show ?thesis using ak by (auto intro: order_trans)
    qed }
  { case 4
    show ?case
    proof (cases "r_start r < sa + sz")
      case True
      have le: "sa \<le> r_start r" and okr: "region_ok r" using 4 by (auto simp: regions_ok_Cons)
      have nw: "unat sa + unat sz < 4294967296"
      proof -
        have "sa \<le> sa + sz" using True le by simp
        then show ?thesis by (simp only: add_no_wrap_iff)
      qed
      have lt: "unat (r_start r) < unat sa + unat sz"
        using True unat_add_no_wrap [OF nw] by (simp add: word_less_unat)
      have "\<exists>s \<in> set (r # rs). unat b < unat (r_end s) \<and> unat (r_start s) < unat b + unat sz"
        if b: "sa \<le> b" "b < a" for b
      proof (cases "b < r_end r")
        case True
        then show ?thesis using lt b(1) by (auto simp: word_nat)
      next
        case False
        then show ?thesis using ih(4) 4 b(2) rec \<open>r_start r < sa + sz\<close> by auto
      qed
      then show ?thesis by blast
    next
      case False
      then show ?thesis using 4 by auto
    qed }
qed


lemma add_fixed_region:
  assumes "regions_ok rs" "region_ok r" "\<not> intersects_regions (r_start r) (r_size r) rs"
  shows "add_region r rs = (r_start r, insert_at (place (r_end r) rs) r rs)"
    and "regions_ok (insert_at (place (r_end r) rs) r rs)"
proof -
  note ok = region_ok_nat [OF assms(2)]
  have apart: "r_end s \<le> r_start r \<or> r_end r < r_start s" if "s \<in> set rs" for s
    using assms(2,3) that by (auto simp: intersects_regions_def list_ex_iff region_ok_def not_le)
  have left: "r_start s < r_end r" if "s \<in> set (take (place (r_end r) ss) ss)" for s ss
    using that by (induction ss) (auto split: if_splits)
  have right: "\<not> r_start s < r_end r" if "regions_ok ss" "s \<in> set (drop (place (r_end r) ss) ss)" for s ss
    using that
  proof (induction ss)
    case (Cons t ts)
    show ?case
    proof (cases "r_start t < r_end r")
      case True
      with Cons show ?thesis by (auto simp: regions_ok_Cons)
    next
      case False
      have "r_start t \<le> r_start s"
        using Cons.prems False region_ok_nat(2) [of t] by (auto simp: regions_ok_Cons word_nat)
      with False show ?thesis by simp
    qed
  qed simp
  have nz: "r_size r \<noteq> 0" "r_start r \<noteq> 0" using ok by auto
  then show "add_region r rs = (r_start r, insert_at (place (r_end r) rs) r rs)"
    by (simp add: add_region_def)
  show "regions_ok (insert_at (place (r_end r) rs) r rs)"
  proof (rule regions_ok_insert_at [OF assms(1,2) place_bound])
    show "\<forall>s \<in> set (take (place (r_end r) rs) rs). r_end s \<le> r_start r"
      using left apart by (meson in_set_takeD not_less_iff_gr_or_eq)
    show "\<forall>s \<in> set (drop (place (r_end r) rs) rs). r_end r \<le> r_start s"
      using right [OF assms(1)] by (meson not_less)
  qed
qed

lemma contains_regions_covered:
  assumes "regions_ok rs" "s \<le> e"
  shows "contains_regions rs s e \<longleftrightarrow> (\<forall>a. s \<le> a \<and> a \<le> e \<longrightarrow> covered rs a)"
  using assms
proof (induction rs arbitrary: s)
  case Nil
  then show ?case by (auto simp: covered_def)
next
  case (Cons r rs)
  have ok: "regions_ok rs" and r: "region_ok r" and after: "\<forall>t \<in> set rs. r_end r \<le> r_start t"
    using Cons.prems(1) by (auto simp: regions_ok_Cons)
  have cov: "covered (r # rs) a \<longleftrightarrow> (r_start r \<le> a \<and> a < r_end r) \<or> covered rs a" for a
    by (auto simp: covered_def)
  have late: "r_end r \<le> a" if "covered rs a" for a
    using that after by (auto simp: covered_iff intro: order_trans)
  show ?case
  proof (cases "r_start r \<le> s \<and> s < r_end r")
    case True
    show ?thesis
    proof (cases "e < r_end r")
      case True
      then show ?thesis using \<open>r_start r \<le> s \<and> s < r_end r\<close> by (auto simp: cov intro: order_trans)
    next
      case False
      have "covered (r # rs) a" if "\<forall>a. r_end r \<le> a \<and> a \<le> e \<longrightarrow> covered rs a" "s \<le> a" "a \<le> e" for a
        using that True by (cases "a < r_end r") (auto simp: cov)
      moreover have "covered rs a"
        if "\<forall>a. s \<le> a \<and> a \<le> e \<longrightarrow> covered (r # rs) a" "r_end r \<le> a" "a \<le> e" for a
      proof -
        have "covered (r # rs) a" using that True by (meson le_less_trans less_imp_le less_le_trans)
        then show ?thesis using that(2) by (auto simp: cov)
      qed
      ultimately have "(\<forall>a. r_end r \<le> a \<and> a \<le> e \<longrightarrow> covered rs a) \<longleftrightarrow>
          (\<forall>a. s \<le> a \<and> a \<le> e \<longrightarrow> covered (r # rs) a)" by blast
      then show ?thesis using True False Cons.IH [OF ok, of "r_end r"] by simp
    qed
  next
    case False
    show ?thesis
    proof (cases "s < r_start r")
      case True
      have "\<not> covered rs s"
        using late True r by (metis leD less_trans region_ok_def)
      moreover from this True have "\<not> covered (r # rs) s" by (simp add: cov leD)
      ultimately show ?thesis using False Cons.IH [OF ok Cons.prems(2)] Cons.prems(2) by auto
    next
      case False2: False
      then have "r_end r \<le> s" using False by (meson not_less)
      then have "covered (r # rs) a \<longleftrightarrow> covered rs a" if "s \<le> a" for a
        using that by (auto simp: cov)
      then show ?thesis using False Cons.IH [OF ok Cons.prems(2)] by auto
    qed
  qed
qed

lemma remove_region_spec:
  assumes "regions_ok rs"
  shows "case remove_region addr rs of
      None \<Rightarrow> \<not> covered rs addr
    | Some (r, rs') \<Rightarrow> r \<in> set rs \<and> r_start r \<le> addr \<and> addr < r_end r \<and> regions_ok rs' \<and> set rs' \<subseteq> set rs \<and>
        (\<forall>a. covered rs' a \<longleftrightarrow> covered rs a \<and> \<not> (r_start r \<le> a \<and> a < r_end r))"
  using assms
proof (induction rs)
  case Nil
  then show ?case by (simp add: covered_def)
next
  case (Cons t ts)
  have cov: "covered (t # us) a \<longleftrightarrow> (r_start t \<le> a \<and> a < r_end t) \<or> covered us a" for a us
    by (auto simp: covered_def)
  have ok: "regions_ok ts" "region_ok t" "\<forall>s \<in> set ts. r_end t \<le> r_start s"
    using Cons.prems by (auto simp: regions_ok_Cons)
  show ?case
  proof (cases "addr < r_end t \<and> r_start t \<le> addr")
    case True
    have "\<not> (r_start t \<le> a \<and> a < r_end t)" if "covered ts a" for a
      using that ok(3) by (meson covered_iff leD less_le_trans order_trans)
    then show ?thesis using True ok(1) by (auto simp: cov)
  next
    case False
    show ?thesis
    proof (cases "remove_region addr ts")
      case None
      then show ?thesis using False Cons.IH ok(1) by (auto simp: cov)
    next
      case (Some p)
      then obtain r rs' where p: "remove_region addr ts = Some (r, rs')" by (cases p) auto
      have ih: "r \<in> set ts" "r_start r \<le> addr" "addr < r_end r" "regions_ok rs'" "set rs' \<subseteq> set ts"
          "\<And>a. covered rs' a \<longleftrightarrow> covered ts a \<and> \<not> (r_start r \<le> a \<and> a < r_end r)"
        using Cons.IH ok(1) p by auto
      have "\<not> (r_start r \<le> a \<and> a < r_end r)" if "r_start t \<le> a \<and> a < r_end t" for a
        using that ok(3) ih(1) by (meson leD less_le_trans)
      then show ?thesis using False p ih ok by (auto simp: cov regions_ok_Cons)
    qed
  qed
qed

lemma copy_regions_id: "regions_ok rs \<Longrightarrow> copy_regions rs = rs"
proof (induction rs)
  case Nil
  then show ?case by (simp add: copy_regions_def)
next
  case (Cons r rs)
  have r: "region_ok r" "\<forall>s \<in> set rs. r_end r \<le> r_start s" using Cons.prems by (auto simp: regions_ok_Cons)
  have nr: "new_region (r_start r) (r_size r) = r"
    using r(1) by (simp add: new_region_def region_ok_def)
  have "place (r_end r) rs = 0" using r(2) by (cases rs) auto
  moreover have "r_size r \<noteq> 0" "r_start r \<noteq> 0" using region_ok_nat [OF r(1)] by auto
  ultimately have "add_region r rs = (r_start r, r # rs)" by (simp add: add_region_def insert_at_def)
  then show ?case using Cons by (auto simp: copy_regions_def nr regions_ok_Cons)
qed

text \<open>Helpers of the first-fit theorem.\<close>

lemma room_nat:
  assumes "\<not> (sa + sz > 0xF0000000 \<or> sa + sz < (sa :: u32))"
  shows "unat sa + unat sz \<le> 4026531840"
proof -
  have "sa \<le> sa + sz" using assms by (meson not_less)
  then have "unat sa + unat sz < 4294967296" by (simp only: add_no_wrap_iff)
  then show ?thesis using assms by (simp add: word_nat not_less)
qed

lemma fit_too_high:
  assumes "sa + sz > 0xF0000000 \<or> sa + sz < sa" "sa \<le> a"
  shows "\<not> fits rs a sz"
proof
  assume "fits rs a sz"
  then have le: "unat sa + unat sz \<le> 4026531840" using assms(2) by (simp add: fits_def word_nat)
  then have "unat (sa + sz) = unat sa + unat sz" by (intro unat_add_no_wrap) simp
  then show False using assms(1) le by (auto simp: word_less_unat)
qed

lemma fit_blocks:
  assumes "\<forall>b. 0x80000000 \<le> b \<and> b < sa \<longrightarrow>
      (\<exists>r \<in> set rs. unat b < unat (r_end r) \<and> unat (r_start r) < unat b + unat sz)"
    and "a < sa" "sz \<noteq> 0" "regions_ok rs"
  shows "\<not> fits rs a sz"
proof
  assume fits: "fits rs a sz"
  then obtain r where r: "r \<in> set rs" "unat a < unat (r_end r)" "unat (r_start r) < unat a + unat sz"
    using assms(1,2) by (auto simp: fits_def)
  have sum: "unat (a + sz) = unat a + unat sz"
    using fits by (intro unat_add_no_wrap) (simp add: fits_def)
  have "unat sz \<noteq> 0" using assms(3) by (simp add: unat_eq_zero)
  define x where "x = max a (r_start r)"
  have "a \<le> x" "x < a + sz"
    using r sum \<open>unat sz \<noteq> 0\<close> by (auto simp: x_def max_def word_nat)
  moreover have "covered rs x"
  proof (cases "a \<le> r_start r")
    case True
    then show ?thesis
      using r region_ok_nat(2) [OF regions_ok_mem [OF assms(4) r(1)]]
      by (auto simp: x_def max_def covered_iff word_less_unat)
  next
    case False
    then show ?thesis
      using r by (auto simp: x_def max_def covered_iff word_nat intro!: bexI [of _ r])
  qed
  ultimately show False using fits by (simp add: fits_def)
qed

lemma fits_between:
  assumes "0x80000000 \<le> sa" "unat sa + unat sz \<le> 4026531840"
    and "\<forall>r \<in> set (take k rs). r_end r \<le> sa" "\<forall>r \<in> set (drop k rs). sa + sz \<le> r_start r"
  shows "fits rs sa sz"
proof -
  have "\<not> covered rs x" if "sa \<le> x" "x < sa + sz" for x
  proof
    assume "covered rs x"
    then obtain r where r: "r \<in> set rs" "r_start r \<le> x" "x < r_end r"
      by (auto simp: covered_iff)
    then have "r \<in> set (take k rs) \<or> r \<in> set (drop k rs)"
      by (metis Un_iff append_take_drop_id set_append)
    then show False using assms(3,4) that r(2,3) by (meson leD less_le_trans order_trans)
  qed
  then show ?thesis using assms(1,2) by (simp add: fits_def)
qed

lemma room_region_ok:
  assumes "0x80000000 \<le> sa" "unat sa + unat sz \<le> 4026531840" "sz \<noteq> 0"
  shows "region_ok \<lparr>r_start = sa, r_end = sa + sz, r_size = sz\<rparr>"
proof -
  have "unat sz \<noteq> 0" using assms(3) by (simp add: unat_eq_zero)
  then show ?thesis
    using assms(1,2) unat_add_no_wrap [of sa sz] by (simp add: region_ok_def word_less_unat word_le_unat)
qed

section \<open>Claims\<close>

text \<open>
  C7. The pointer program of \<^verbatim>\<open>VMEQueue\<close> implements the list of regions.  On a well-linked
  queue \<^verbatim>\<open>intersects_queue\<close>, \<^verbatim>\<open>contains_range\<close>, \<^verbatim>\<open>add_vme\<close>, \<^verbatim>\<open>remove\<close>, \<^verbatim>\<open>deep_copy\<close> (when the heap
  provides its nodes) and \<^verbatim>\<open>clear\<close> return: their loops end and they never follow a null or dangling
  pointer.  They answer what the list operation answers and leave a well-linked queue that holds its
  result.  Adding and removing write no node outside the queue, the new node apart; copying writes
  only the new nodes, so the original is as before; clearing frees the nodes of the queue and leaves
  every other node alone.
\<close>

theorem vmequeue_refines_regions:
  assumes "vmeq h q xs rs" "x \<noteq> 0" "x \<notin> set xs" "h x = Some v"
  shows "intersects_queue h q addr sz = Some (intersects_regions addr sz rs) \<and>
    contains_range h q s e = Some (contains_regions rs s e) \<and>
    (\<exists>h' q' xs'. add_vme h q x = Some (fst (add_region (region_of v) rs), h', q') \<and>
       vmeq h' q' xs' (snd (add_region (region_of v) rs)) \<and>
       (\<forall>p. p \<notin> insert x (set xs) \<longrightarrow> h' p = h p)) \<and>
    (case remove_region addr rs of
       None \<Rightarrow> remove_vme h q addr = Some (0, h, q)
     | Some (r, rs') \<Rightarrow> \<exists>y h' q' xs'. remove_vme h q addr = Some (y, h', q') \<and> y \<in> set xs \<and>
         map_option region_of (h' y) = Some r \<and> vmeq h' q' xs' rs' \<and> (\<forall>p. p \<notin> set xs \<longrightarrow> h' p = h p)) \<and>
    (\<forall>news. length news = length xs \<and> distinct news \<and> 0 \<notin> set news \<and> set news \<inter> set xs = {} \<longrightarrow>
       (\<exists>h' d ys. deep_copy h q news = Some (h', d) \<and> vmeq h' d ys (copy_regions rs) \<and> vmeq h' q xs rs \<and>
          set ys \<subseteq> set news \<and> (\<forall>p. p \<notin> set news \<longrightarrow> h' p = h p))) \<and>
    (\<exists>h' q'. clear_vmes h q = Some (h', q') \<and> vmeq h' q' [] [] \<and> (\<forall>p. h' p = (if p \<in> set xs then None else h p)))"
proof (intro conjI)
  show "intersects_queue h q addr sz = Some (intersects_regions addr sz rs)"
    using intersects_loop_refines [OF vmeq_suffix [OF assms(1)]] by (simp add: intersects_queue_def)
  show "contains_range h q s e = Some (contains_regions rs s e)"
    using contains_loop_refines [OF vmeq_suffix [OF assms(1)]] by (simp add: contains_range_def)
  show "\<exists>h' q' xs'. add_vme h q x = Some (fst (add_region (region_of v) rs), h', q') \<and>
       vmeq h' q' xs' (snd (add_region (region_of v) rs)) \<and>
       (\<forall>p. p \<notin> insert x (set xs) \<longrightarrow> h' p = h p)"
    using add_vme_refines [OF assms surjective_pairing] by blast
  show "\<forall>news. length news = length xs \<and> distinct news \<and> 0 \<notin> set news \<and> set news \<inter> set xs = {} \<longrightarrow>
       (\<exists>h' d ys. deep_copy h q news = Some (h', d) \<and> vmeq h' d ys (copy_regions rs) \<and> vmeq h' q xs rs \<and>
          set ys \<subseteq> set news \<and> (\<forall>p. p \<notin> set news \<longrightarrow> h' p = h p))"
    using deep_copy_refines [OF assms(1)] by blast
  show "\<exists>h' q'. clear_vmes h q = Some (h', q') \<and> vmeq h' q' [] [] \<and> (\<forall>p. h' p = (if p \<in> set xs then None else h p))"
    using clear_vmes_empties [OF assms(1)] by blast
qed (rule remove_vme_refines [OF assms(1)])

lemma ex_queue_vmeq: "vmeq ex_store ex_queue [0x100] [new_region 0x80001000 0x1000]"
  by (simp add: vmeq_def dll_def ex_store_def ex_queue_def VME_new_def new_region_def region_of_def)

lemma vmequeue_refines_regions_witness:
  "intersects_queue ex_store ex_queue 0x80000000 0x1000 = Some True \<and>
   contains_range ex_store ex_queue 0x80001000 0x80001FFF = Some True \<and>
   (\<exists>h' q' xs'. add_vme ex_store ex_queue 0x200 = Some (0x80002000, h', q') \<and>
      vmeq h' q' xs' [new_region 0x80001000 0x1000, new_region 0x80002000 0x2000])"
  using vmequeue_refines_regions [OF ex_queue_vmeq, of "0x200" "VME_new 0 0x2000" "0x80000000" "0x1000"
      "0x80001000" "0x80001FFF"]
  by (auto simp: ex_store_def intersects_regions_def new_region_def add_region_def insert_at_def)

text \<open>
  \<^verbatim>\<open>add_vme\<close> with address 0 is exactly a first-fit allocation: if it returns a
  non-zero address, that is the lowest address of the private user range at which the
  requested size fits without touching an existing region, the new region is in the list and
  the list stays sorted and disjoint; if it returns 0, the size fits nowhere and the list is
  unchanged.
\<close>

theorem first_fit_correct:
  assumes "regions_ok rs" "sz \<noteq> 0" "add_region (new_region 0 sz) rs = (va, rs')"
  shows "if va = 0 then rs' = rs \<and> (\<forall>a. \<not> fits rs a sz)
     else fits rs va sz \<and> (\<forall>a. fits rs a sz \<longrightarrow> va \<le> a) \<and> regions_ok rs' \<and>
       (\<forall>a. covered rs' a \<longleftrightarrow> covered rs a \<or> (va \<le> a \<and> a < va + sz))"
proof -
  obtain sa k where fit: "fit sz 0x80000000 rs = (sa, k)" by force
  have low: "\<forall>r \<in> set rs. 0x80000000 \<le> r_start r"
    using regions_ok_mem [OF assms(1)] by (auto simp: region_ok_def)
  note f = fit_spec [OF assms(1) low fit]
  have no_low: "\<not> fits rs a sz" if "a < sa" for a
    using f(4) that assms(2,1) by (rule fit_blocks)
  show ?thesis
  proof (cases "sa + sz > 0xF0000000 \<or> sa + sz < sa")
    case True
    then have "va = 0" "rs' = rs" using assms(2,3) fit by (auto simp: add_region_def new_region_def)
    moreover have "\<not> fits rs a sz" for a
      using no_low [of a] fit_too_high [OF True, of a] by (meson not_less)
    ultimately show ?thesis by simp
  next
    case False
    have nw: "unat sa + unat sz \<le> 4026531840" by (rule room_nat [OF False])
    let ?r = "\<lparr>r_start = sa, r_end = sa + sz, r_size = sz\<rparr>"
    have va: "va = sa" "rs' = insert_at k ?r rs"
      using assms(2,3) fit False by (auto simp: add_region_def new_region_def)
    have right: "\<forall>r \<in> set (drop k rs). sa + sz \<le> r_start r"
      using f(3) nw by (auto simp: word_le_unat unat_add_no_wrap)
    have ok: "region_ok ?r"
      using f(1) nw assms(2) by (rule room_region_ok)
    have "regions_ok rs'"
      unfolding va using f(2) right fit_bound [OF fit] by (intro regions_ok_insert_at assms(1) ok) auto
    moreover have "fits rs sa sz"
      using f(1) nw f(2) right by (rule fits_between)
    moreover have "sa \<noteq> 0" using f(1) by auto
    ultimately show ?thesis
      using va no_low by (auto simp: covered_insert_at not_less [symmetric])
  qed
qed

lemma first_fit_correct_witness:
  "regions_ok [new_region 0x80000000 0x1000] \<and>
   fits [new_region 0x80000000 0x1000] 0x80001000 0x3000 \<and>
   \<not> fits [new_region 0x80000000 0x1000] 0x80000000 0x3000"
proof -
  have ok: "regions_ok [new_region 0x80000000 0x1000]"
    by (simp add: regions_ok_def region_ok_def new_region_def)
  have "add_region (new_region 0 0x3000) [new_region 0x80000000 0x1000] =
      (0x80001000, [new_region 0x80000000 0x1000, new_region 0x80001000 0x3000])"
    by (simp add: add_region_def new_region_def insert_at_def)
  from first_fit_correct [OF ok _ this]
  have "fits [new_region 0x80000000 0x1000] 0x80001000 0x3000"
    and least: "\<And>a. fits [new_region 0x80000000 0x1000] a 0x3000 \<Longrightarrow> 0x80001000 \<le> a" by auto
  moreover have "\<not> fits [new_region 0x80000000 0x1000] 0x80000000 0x3000"
    using least [of "0x80000000"] by auto
  ultimately show ?thesis using ok by blast
qed

text \<open>
  Mapping at a fixed address: when the region is well formed and
  \<^verbatim>\<open>intersects_queue\<close> answered no, \<^verbatim>\<open>add_vme\<close> returns that address, the list
  stays sorted and disjoint, no address of the new region was mapped before, and exactly the new
  addresses become mapped.
\<close>

theorem add_fixed_correct:
  assumes "regions_ok rs" "region_ok r" "\<not> intersects_regions (r_start r) (r_size r) rs"
    and "add_region r rs = (va, rs')"
  shows "va = r_start r \<and> regions_ok rs' \<and>
    (\<forall>a. r_start r \<le> a \<and> a < r_end r \<longrightarrow> \<not> covered rs a) \<and>
    (\<forall>a. covered rs' a \<longleftrightarrow> covered rs a \<or> (r_start r \<le> a \<and> a < r_end r))"
proof -
  have "\<not> covered rs a" if "r_start r \<le> a" "a < r_end r" for a
  proof
    assume "covered rs a"
    then obtain s where s: "s \<in> set rs" "r_start s \<le> a" "a < r_end s" by (auto simp: covered_iff)
    then have "r_start r < r_end s" "r_start s \<le> r_start r + r_size r"
      using that assms(2) by (auto simp: region_ok_def intro: order_trans)
    then show False using s(1) assms(3) by (auto simp: intersects_regions_def list_ex_iff)
  qed
  then show ?thesis
    using add_fixed_region [OF assms(1-3)] assms(4) by (auto simp: covered_insert_at)
qed

lemma add_fixed_correct_witness:
  "regions_ok (snd (add_region (new_region 0x80004000 0x1000) [new_region 0x80000000 0x1000])) \<and>
   covered (snd (add_region (new_region 0x80004000 0x1000) [new_region 0x80000000 0x1000])) 0x80004FFF"
  using add_fixed_correct [of "[new_region 0x80000000 0x1000]" "new_region 0x80004000 0x1000", OF _ _ _ surjective_pairing]
  by (simp add: regions_ok_def region_ok_def new_region_def intersects_regions_def)

text \<open>
  \<^verbatim>\<open>contains_range\<close>, which the page fault handler asks whether an address is
  mapped, decides exactly whether every address from \<open>s\<close> to \<open>e\<close> (both included) lies
  in some region, also when the range runs over several adjacent regions.
\<close>

theorem contains_range_correct:
  assumes "vmeq h q xs rs" "regions_ok rs" "s \<le> e"
  shows "contains_range h q s e = Some (\<forall>a. s \<le> a \<and> a \<le> e \<longrightarrow> covered rs a)"
  using contains_loop_refines [OF vmeq_suffix [OF assms(1)]] contains_regions_covered [OF assms(2,3)]
  by (simp add: contains_range_def)

lemma contains_range_correct_witness:
  "contains_range ex_store ex_queue 0x80001000 0x80001FFF =
     Some (\<forall>a. 0x80001000 \<le> a \<and> a \<le> 0x80001FFF \<longrightarrow> covered [new_region 0x80001000 0x1000] a)"
  by (rule contains_range_correct [OF ex_queue_vmeq])
    (simp_all add: regions_ok_def region_ok_def new_region_def)

text \<open>
  \<^verbatim>\<open>remove\<close> (the first half of \<^verbatim>\<open>simple_munmap\<close>) fails exactly on an
  unmapped address; otherwise it takes out the one region that contains the address, the list
  stays well formed, and exactly that region's addresses become unmapped.
\<close>

theorem remove_region_correct:
  assumes "regions_ok rs"
  shows "case remove_region addr rs of
      None \<Rightarrow> \<not> covered rs addr
    | Some (r, rs') \<Rightarrow> r \<in> set rs \<and> r_start r \<le> addr \<and> addr < r_end r \<and> regions_ok rs' \<and>
        (\<forall>a. covered rs' a \<longleftrightarrow> covered rs a \<and> \<not> (r_start r \<le> a \<and> a < r_end r))"
  using remove_region_spec [OF assms, of addr] by (simp split: option.splits prod.splits)

lemma remove_region_correct_witness:
  "remove_region 0x80000FFF [new_region 0x80000000 0x1000, new_region 0x80001000 0x1000] =
     Some (new_region 0x80000000 0x1000, [new_region 0x80001000 0x1000]) \<and>
   regions_ok [new_region 0x80001000 0x1000]"
  using remove_region_correct [of "[new_region 0x80000000 0x1000, new_region 0x80001000 0x1000]" "0x80000FFF"]
  by (simp add: regions_ok_def region_ok_def new_region_def)

text \<open>
  \<^verbatim>\<open>deep_copy\<close>, which \<^verbatim>\<open>fork\<close> uses, gives the child a queue of its own: with
  enough memory it returns, the copy holds exactly the parent's regions in nodes disjoint from
  the parent's, and the parent's queue is as before.
\<close>

theorem deep_copy_correct:
  assumes "vmeq h q xs rs" "regions_ok rs"
    and "length news = length xs" "distinct news" "0 \<notin> set news" "set news \<inter> set xs = {}"
  shows "\<exists>h' d ys. deep_copy h q news = Some (h', d) \<and> vmeq h' d ys rs \<and> vmeq h' q xs rs \<and>
    set xs \<inter> set ys = {}"
  using deep_copy_refines [OF assms(1,3-6)] copy_regions_id [OF assms(2)] assms(6) by fastforce

lemma deep_copy_correct_witness:
  "\<exists>h' d ys. deep_copy ex_store ex_queue [0x300] = Some (h', d) \<and>
     vmeq h' d ys [new_region 0x80001000 0x1000] \<and>
     vmeq h' ex_queue [0x100] [new_region 0x80001000 0x1000] \<and> set [0x100] \<inter> set ys = {}"
  by (rule deep_copy_correct [OF ex_queue_vmeq])
    (simp_all add: regions_ok_def region_ok_def new_region_def)

end
