(* ===== verification/Phys_Mem.thy ===== *)
theory Phys_Mem
  imports Kernel_Prelude
begin

text \<open>
  The physical frame allocator, \<^verbatim>\<open>kernel/physmem.cc\<close> and \<^verbatim>\<open>kernel/physmem.h\<close>.
  Physical memory is a function from the address of an aligned 32-bit word to its contents,
  so that the free list can live where the code keeps it: in the first word of each free
  frame.  The spin lock that \<^verbatim>\<open>LockGuard\<close> takes around both operations makes each of
  them one step, which is how they are modelled.

  The locale \<open>frame_allocator\<close> is the contract the virtual memory manager relies on:
  which frames are allocated, what an allocation and a release change, what they leave
  alone.  It is interpreted on \<open>alloc_frame\<close> and \<open>dealloc_frame\<close>.
\<close>

section \<open>State and operations\<close>

record phys =
  mem :: "u32 \<Rightarrow> u32"
  firstFree :: ptr
  avail :: u32
  limit :: u32

definition FRAME_SIZE :: u32 where
  "FRAME_SIZE = push_bit 12 1"

definition offset :: "u32 \<Rightarrow> u32" where
  "offset pa = pa AND 0xFFF"

definition ppn :: "u32 \<Rightarrow> u32" where
  "ppn pa = drop_bit 12 pa"

definition framedown :: "u32 \<Rightarrow> u32" where
  "framedown pa = (pa div FRAME_SIZE) * FRAME_SIZE"

definition frameup :: "u32 \<Rightarrow> u32" where
  "frameup pa = framedown (pa + FRAME_SIZE - 1)"

text \<open>\<^verbatim>\<open>bzero\<close> of machine.S on a range of whole words.\<close>

definition bzero :: "(u32 \<Rightarrow> u32) \<Rightarrow> u32 \<Rightarrow> u32 \<Rightarrow> (u32 \<Rightarrow> u32)" where
  "bzero m p n = (\<lambda>a. if a - p < n then 0 else m a)"

definition alloc_frame :: "phys \<Rightarrow> (u32 \<times> phys) option" where
  "alloc_frame s = do {
     (p, s1) \<leftarrow>
       (if firstFree s \<noteq> 0 then Some (firstFree s, s\<lparr>firstFree := mem s (firstFree s)\<rparr>)
        else if avail s = limit s then None
        else Some (avail s, s\<lparr>avail := avail s + FRAME_SIZE\<rparr>));
     if offset p = 0 then Some (p, s1\<lparr>mem := bzero (mem s1) p FRAME_SIZE\<rparr>) else None }"

definition dealloc_frame :: "u32 \<Rightarrow> phys \<Rightarrow> phys option" where
  "dealloc_frame p s =
     (if offset p = 0 then Some (s\<lparr>mem := (mem s)(p := firstFree s), firstFree := p\<rparr>) else None)"

definition phys_init :: "u32 \<Rightarrow> u32 \<Rightarrow> phys \<Rightarrow> phys option" where
  "phys_init start sz s =
     (if offset start = 0 \<and> offset sz = 0 then Some (s\<lparr>avail := start, limit := start + sz\<rparr>) else None)"

section \<open>The allocator's invariant\<close>

text \<open>The chain of free frames that starts at \<open>p\<close>.\<close>

fun free_list :: "(u32 \<Rightarrow> u32) \<Rightarrow> ptr \<Rightarrow> ptr list \<Rightarrow> bool" where
  "free_list m p [] = (p = 0)"
| "free_list m p (x # xs) = (p = x \<and> x \<noteq> 0 \<and> page_aligned x \<and> free_list m (m x) xs)"

text \<open>
  \<open>phys_ok base fs s\<close>: the free list of \<open>s\<close> is \<open>fs\<close>, without repetitions, all of it
  between the start \<open>base\<close> of the managed range and \<open>avail\<close>.
\<close>

definition phys_ok :: "u32 \<Rightarrow> ptr list \<Rightarrow> phys \<Rightarrow> bool" where
  "phys_ok base fs s \<longleftrightarrow>
     base \<noteq> 0 \<and> page_aligned base \<and> page_aligned (avail s) \<and> page_aligned (limit s) \<and>
     base \<le> avail s \<and> avail s \<le> limit s \<and>
     free_list (mem s) (firstFree s) fs \<and> distinct fs \<and> (\<forall>f \<in> set fs. base \<le> f \<and> f < avail s)"

definition allocated :: "u32 \<Rightarrow> ptr list \<Rightarrow> phys \<Rightarrow> u32 \<Rightarrow> bool" where
  "allocated base fs s p \<longleftrightarrow> page_aligned p \<and> base \<le> p \<and> p < avail s \<and> p \<notin> set fs"

text \<open>How many frames the allocator can still give out.\<close>

definition frames_left :: "ptr list \<Rightarrow> phys \<Rightarrow> nat" where
  "frames_left fs s = length fs + (unat (limit s) - unat (avail s)) div 4096"

text \<open>A word lies outside the frame at \<open>p\<close>.\<close>

definition outside :: "u32 \<Rightarrow> u32 \<Rightarrow> bool" where
  "outside p a \<longleftrightarrow> a AND 0xFFFFF000 \<noteq> p"

text \<open>
  Every history of the allocator: the boot call of \<^verbatim>\<open>PhysMem::init\<close>, allocations, releases
  of frames that are live, and clients writing any word of a live frame in between.  The list
  holds the live frames.
\<close>

inductive pm_run :: "u32 \<Rightarrow> u32 \<Rightarrow> phys \<Rightarrow> u32 list \<Rightarrow> bool" for start sz where
  pm_boot: "firstFree s0 = 0 \<Longrightarrow> phys_init start sz s0 = Some s \<Longrightarrow> pm_run start sz s []"
| pm_alloc: "pm_run start sz s live \<Longrightarrow> alloc_frame s = Some (p, s') \<Longrightarrow> pm_run start sz s' (p # live)"
| pm_dealloc: "pm_run start sz s live \<Longrightarrow> p \<in> set live \<Longrightarrow> dealloc_frame p s = Some s' \<Longrightarrow>
    pm_run start sz s' (remove1 p live)"
| pm_writes: "pm_run start sz s live \<Longrightarrow> p \<in> set live \<Longrightarrow> \<not> outside p a \<Longrightarrow>
    pm_run start sz (s\<lparr>mem := (mem s)(a := v)\<rparr>) live"

text \<open>A concrete allocator: four frames at 0x600000, nothing allocated yet.\<close>

definition ex_phys :: phys where
  "ex_phys = \<lparr>mem = (\<lambda>_. 0xDEADBEEF), firstFree = 0, avail = 0x600000, limit = 0x604000\<rparr>"

section \<open>Lemmas\<close>

lemma offset_0_iff [simp]: "offset p = 0 \<longleftrightarrow> page_aligned p"
  by (simp add: offset_def page_aligned_def)

lemma FRAME_SIZE_eq: "FRAME_SIZE = 0x1000"
  by (simp add: FRAME_SIZE_def)

lemma free_list_cong: "(\<And>x. x \<in> set xs \<Longrightarrow> m' x = m x) \<Longrightarrow> free_list m' p xs = free_list m p xs"
  by (induction xs arbitrary: p) auto

lemma free_list_nonnull: "free_list m p xs \<Longrightarrow> x \<in> set xs \<Longrightarrow> x \<noteq> 0 \<and> page_aligned x"
  by (induction xs arbitrary: p) auto

text \<open>Zeroing a frame touches that frame only.\<close>

lemma in_frame_iff:
  assumes "page_aligned p"
  shows "a - p < 0x1000 \<longleftrightarrow> a AND 0xFFFFF000 = p"
proof
  assume "a AND 0xFFFFF000 = p"
  then have "p = a - (a AND 0xFFF)" by (simp only: page_base_diff)
  then have "a - p = a AND 0xFFF" by simp
  moreover have "unat (a AND 0xFFF) < 4096" by (simp add: unat_page_offset)
  ultimately show "a - p < 0x1000" by (simp add: word_less_unat)
next
  assume lt: "a - p < 0x1000"
  define d where "d = a - p"
  have d: "unat d < 4096" using lt by (simp add: d_def word_less_unat)
  have "unat (p + d) = unat p + unat d"
    using page_aligned_bound [OF assms] d by (intro unat_add_no_wrap) simp
  then have "unat (a AND 0xFFFFF000) = unat p"
    using assms d by (auto simp: d_def unat_page_base page_aligned_unat)
  then show "a AND 0xFFFFF000 = p" by (simp add: word_unat_eq_iff)
qed

lemma bzero_frame: "page_aligned p \<Longrightarrow> bzero m p 0x1000 a = (if outside p a then m a else 0)"
  by (simp add: bzero_def in_frame_iff outside_def)

lemma outside_aligned [simp]: "page_aligned q \<Longrightarrow> outside p q \<longleftrightarrow> p \<noteq> q"
  by (auto simp: outside_def page_base_aligned)

lemma outside_elem [simp]: "page_aligned q \<Longrightarrow> i < 1024 \<Longrightarrow> outside p (elem q i) \<longleftrightarrow> p \<noteq> q"
  by (auto simp: outside_def elem_base)

lemma elem_0 [simp]: "elem p 0 = p"
  by (simp add: elem_def)

lemma phys_ok_fresh_room:
  assumes "phys_ok base fs s" "avail s \<noteq> limit s"
  shows "unat (avail s) + 4096 \<le> unat (limit s)" "unat (avail s + 0x1000) = unat (avail s) + 4096"
proof -
  obtain i j where ij: "unat (avail s) = 4096 * i" "unat (limit s) = 4096 * j"
    using assms(1) page_aligned_mult [of "avail s"] page_aligned_mult [of "limit s"]
    by (auto simp: phys_ok_def)
  have "unat (avail s) \<noteq> unat (limit s)" using assms(2) by (simp add: word_unat_eq_iff)
  moreover have "unat (avail s) \<le> unat (limit s)" using assms(1) by (simp add: phys_ok_def word_le_unat)
  ultimately have "i < j" using ij by simp
  then show le: "unat (avail s) + 4096 \<le> unat (limit s)" using ij by simp
  have "unat (avail s) + 4096 < 4294967296"
    using le unat_lt_32 [of "limit s"] by linarith
  then show "unat (avail s + 0x1000) = unat (avail s) + 4096"
    by (subst unat_add_no_wrap) simp_all
qed

lemma free_list_bzero:
  assumes "free_list m p fs" "f \<notin> set fs" "page_aligned f"
  shows "free_list (bzero m f 0x1000) p fs"
  using assms free_list_nonnull [OF assms(1)]
  by (subst free_list_cong [where m = m]) (auto simp: bzero_frame)

lemma alloc_frame_ok:
  assumes ok: "phys_ok base fs s" and room: "0 < frames_left fs s"
  shows "\<exists>p s' fs'. alloc_frame s = Some (p, s') \<and> phys_ok base fs' s' \<and> p \<noteq> 0 \<and> page_aligned p \<and>
     \<not> allocated base fs s p \<and> (\<forall>q. allocated base fs' s' q \<longleftrightarrow> allocated base fs s q \<or> q = p) \<and>
     Suc (frames_left fs' s') = frames_left fs s \<and>
     (\<forall>a. mem s' a = (if outside p a then mem s a else 0))"
proof (cases fs)
  case (Cons p fs')
  let ?s' = "s\<lparr>firstFree := mem s p, mem := bzero (mem s) p 0x1000\<rparr>"
  have p: "firstFree s = p" "p \<noteq> 0" "page_aligned p" "free_list (mem s) (mem s p) fs'"
      "p \<notin> set fs'" "distinct fs'" "base \<le> p" "p < avail s"
    using ok Cons by (auto simp: phys_ok_def)
  have "alloc_frame s = Some (p, ?s')"
    using p(1-3) by (simp add: alloc_frame_def FRAME_SIZE_eq)
  moreover have "phys_ok base fs' ?s'"
    using ok Cons p free_list_bzero [OF p(4,5,3)] by (auto simp: phys_ok_def)
  ultimately show ?thesis
    using p Cons by (intro exI [of _ p] exI [of _ ?s'] exI [of _ fs'])
      (auto simp: allocated_def frames_left_def bzero_frame)
next
  case Nil
  then have "firstFree s = 0" using ok by (simp add: phys_ok_def)
  have "(unat (limit s) - unat (avail s)) div 4096 \<noteq> 0" using room Nil by (simp add: frames_left_def)
  then have ne: "avail s \<noteq> limit s" by auto
  note r = phys_ok_fresh_room [OF ok ne]
  let ?p = "avail s"
  let ?s' = "s\<lparr>avail := ?p + 0x1000, mem := bzero (mem s) ?p 0x1000\<rparr>"
  have p: "page_aligned ?p" "?p \<noteq> 0" "base \<le> ?p"
    using ok by (auto simp: phys_ok_def word_le_unat unat_eq_zero)
  have al: "page_aligned (?p + 0x1000)"
    using p(1) r(2) by (simp add: page_aligned_unat)
  have "alloc_frame s = Some (?p, ?s')"
    using \<open>firstFree s = 0\<close> ne p by (simp add: alloc_frame_def FRAME_SIZE_eq)
  moreover have "phys_ok base [] ?s'"
    using ok Nil al r p by (auto simp: phys_ok_def word_le_unat)
  moreover have below: "q < ?p + 0x1000 \<longleftrightarrow> q < ?p \<or> q = ?p" if qa: "page_aligned q" for q
  proof -
    obtain i j where "unat q = 4096 * i" "unat ?p = 4096 * j"
      using qa p(1) page_aligned_mult by blast
    then show ?thesis using r(2) by (auto simp: word_less_unat word_unat_eq_iff)
  qed
  moreover have "(unat (limit s) - (unat ?p + 4096)) div 4096 = (unat (limit s) - unat ?p) div 4096 - 1"
    by simp
  moreover have "(unat (limit s) - unat ?p) div 4096 \<ge> 1" using r(1) by simp
  ultimately show ?thesis
    using p Nil r(2) by (intro exI [of _ ?p] exI [of _ ?s'] exI [of _ "[]"])
      (auto simp: allocated_def frames_left_def bzero_frame)
qed

lemma alloc_frame_none:
  assumes "phys_ok base fs s" "frames_left fs s = 0"
  shows "alloc_frame s = None"
proof -
  have "fs = []" and z: "(unat (limit s) - unat (avail s)) div 4096 = 0"
    using assms(2) by (auto simp: frames_left_def)
  moreover have "avail s = limit s"
  proof (rule ccontr)
    assume "avail s \<noteq> limit s"
    then show False using phys_ok_fresh_room(1) [OF assms(1)] z by (simp add: div_eq_0_iff)
  qed
  ultimately show ?thesis using assms(1) by (simp add: phys_ok_def alloc_frame_def)
qed

lemma dealloc_frame_ok:
  assumes ok: "phys_ok base fs s" and al: "allocated base fs s p"
  shows "\<exists>s'. dealloc_frame p s = Some s' \<and> phys_ok base (p # fs) s' \<and>
     (\<forall>q. allocated base (p # fs) s' q \<longleftrightarrow> allocated base fs s q \<and> q \<noteq> p) \<and>
     frames_left (p # fs) s' = Suc (frames_left fs s) \<and> (\<forall>a. a \<noteq> p \<longrightarrow> mem s' a = mem s a)"
proof -
  have p: "page_aligned p" "p \<notin> set fs" "base \<le> p" "p < avail s" "p \<noteq> 0"
    using al ok by (auto simp: allocated_def phys_ok_def)
  let ?s' = "s\<lparr>mem := (mem s)(p := firstFree s), firstFree := p\<rparr>"
  have "free_list ((mem s)(p := firstFree s)) (firstFree s) fs = free_list (mem s) (firstFree s) fs"
    using p(2) by (intro free_list_cong) auto
  then have "phys_ok base (p # fs) ?s'"
    using ok p by (auto simp: phys_ok_def)
  then show ?thesis
    using p by (auto simp: dealloc_frame_def allocated_def frames_left_def)
qed

section \<open>The allocator's contract\<close>

locale frame_allocator =
  fixes alloc :: "'s \<Rightarrow> (u32 \<times> 's) option" and dealloc :: "u32 \<Rightarrow> 's \<Rightarrow> 's option"
    and invar :: "'f \<Rightarrow> 's \<Rightarrow> bool" and used :: "'f \<Rightarrow> 's \<Rightarrow> u32 \<Rightarrow> bool"
    and left :: "'f \<Rightarrow> 's \<Rightarrow> nat" and word :: "'s \<Rightarrow> u32 \<Rightarrow> u32"
  assumes alloc_ok: "invar f s \<Longrightarrow> 0 < left f s \<Longrightarrow>
      \<exists>p s' f'. alloc s = Some (p, s') \<and> invar f' s' \<and> p \<noteq> 0 \<and> page_aligned p \<and> \<not> used f s p \<and>
        (\<forall>q. used f' s' q \<longleftrightarrow> used f s q \<or> q = p) \<and> Suc (left f' s') = left f s \<and>
        (\<forall>a. word s' a = (if outside p a then word s a else 0))"
    and alloc_none: "invar f s \<Longrightarrow> left f s = 0 \<Longrightarrow> alloc s = None"
    and dealloc_ok: "invar f s \<Longrightarrow> used f s p \<Longrightarrow>
      \<exists>s' f'. dealloc p s = Some s' \<and> invar f' s' \<and> (\<forall>q. used f' s' q \<longleftrightarrow> used f s q \<and> q \<noteq> p) \<and>
        left f' s' = Suc (left f s) \<and> (\<forall>a. a \<noteq> p \<longrightarrow> word s' a = word s a)"
begin

lemma alloc_SomeE:
  assumes "invar f s" "alloc s = Some (p, s')"
  obtains f' where "invar f' s'" "p \<noteq> 0" "page_aligned p" "\<not> used f s p"
    "\<And>q. used f' s' q \<longleftrightarrow> used f s q \<or> q = p" "Suc (left f' s') = left f s"
    "\<And>a. word s' a = (if outside p a then word s a else 0)"
proof -
  have "0 < left f s" using assms alloc_none by force
  from alloc_ok [OF assms(1) this] assms(2) show thesis by (auto intro: that)
qed

lemma alloc_iff: "invar f s \<Longrightarrow> (\<exists>p s'. alloc s = Some (p, s')) \<longleftrightarrow> 0 < left f s"
  using alloc_ok [of f s] alloc_none [of f s] by (cases "left f s") auto

text \<open>Two allocations in a row: different frames, both zero, everything else untouched.\<close>

lemma alloc_twice:
  assumes "invar f s" "2 \<le> left f s"
  shows "\<exists>p s1 q s2 f'. alloc s = Some (p, s1) \<and> alloc s1 = Some (q, s2) \<and> invar f' s2 \<and>
     p \<noteq> q \<and> page_aligned p \<and> page_aligned q \<and> \<not> used f s p \<and> \<not> used f s q \<and>
     (\<forall>r. used f' s2 r \<longleftrightarrow> used f s r \<or> r = p \<or> r = q) \<and> Suc (Suc (left f' s2)) = left f s \<and>
     (\<forall>a. word s2 a = (if outside p a \<and> outside q a then word s a else 0))"
proof -
  obtain p s1 f1 where 1: "alloc s = Some (p, s1)" "invar f1 s1" "page_aligned p" "\<not> used f s p"
      "\<forall>r. used f1 s1 r \<longleftrightarrow> used f s r \<or> r = p" "Suc (left f1 s1) = left f s"
      "\<forall>a. word s1 a = (if outside p a then word s a else 0)"
    using alloc_ok [OF assms(1)] assms(2) by auto
  then have "0 < left f1 s1" using assms(2) by simp
  then obtain q s2 f2 where 2: "alloc s1 = Some (q, s2)" "invar f2 s2" "page_aligned q" "\<not> used f1 s1 q"
      "\<forall>r. used f2 s2 r \<longleftrightarrow> used f1 s1 r \<or> r = q" "Suc (left f2 s2) = left f1 s1"
      "\<forall>a. word s2 a = (if outside q a then word s1 a else 0)"
    using alloc_ok [OF 1(2)] by auto
  show ?thesis
    using 1 2 by (intro exI [of _ p] exI [of _ s1] exI [of _ q] exI [of _ s2] exI [of _ f2]) auto
qed

text \<open>Releasing what was just allocated gives back the same set of allocated frames.\<close>

lemma alloc_dealloc:
  assumes "invar f s" "alloc s = Some (p, s1)"
  shows "\<exists>s2 f2. dealloc p s1 = Some s2 \<and> invar f2 s2 \<and> (\<forall>q. used f2 s2 q \<longleftrightarrow> used f s q) \<and>
     left f2 s2 = left f s"
proof -
  obtain f1 where f1: "invar f1 s1" "\<not> used f s p" "\<And>q. used f1 s1 q \<longleftrightarrow> used f s q \<or> q = p"
      "Suc (left f1 s1) = left f s"
    by (rule alloc_SomeE [OF assms]) blast
  then obtain s2 f2 where "dealloc p s1 = Some s2" "invar f2 s2"
      "\<forall>q. used f2 s2 q \<longleftrightarrow> used f1 s1 q \<and> q \<noteq> p" "left f2 s2 = Suc (left f1 s1)"
    using dealloc_ok [of f1 s1 p] by auto
  then show ?thesis using f1 by auto
qed

end

interpretation pm: frame_allocator alloc_frame dealloc_frame "phys_ok base" "allocated base" frames_left mem
  for base
proof unfold_locales
  fix fs s p
  show "phys_ok base fs s \<Longrightarrow> allocated base fs s p \<Longrightarrow>
      \<exists>s' f'. dealloc_frame p s = Some s' \<and> phys_ok base f' s' \<and>
        (\<forall>q. allocated base f' s' q \<longleftrightarrow> allocated base fs s q \<and> q \<noteq> p) \<and>
        frames_left f' s' = Suc (frames_left fs s) \<and> (\<forall>a. a \<noteq> p \<longrightarrow> mem s' a = mem s a)"
    using dealloc_frame_ok by blast
qed (use alloc_frame_ok alloc_frame_none in auto)

lemma pm_write_ok:
  assumes "phys_ok base fs s" "allocated base fs s p" "\<not> outside p a"
  shows "phys_ok base fs (s\<lparr>mem := (mem s)(a := v)\<rparr>)"
proof -
  have fl: "free_list (mem s) (firstFree s) fs" using assms(1) by (simp add: phys_ok_def)
  have "a \<noteq> f" if "f \<in> set fs" for f
    using assms(2,3) that free_list_nonnull [OF fl that] by (auto simp: allocated_def)
  then have "free_list ((mem s)(a := v)) (firstFree s) fs"
    using fl by (subst free_list_cong [where m = "mem s"]) auto
  then show ?thesis using assms(1) by (simp add: phys_ok_def)
qed

lemma phys_init_ok:
  assumes "phys_init start sz s0 = Some s" "firstFree s0 = 0" "start \<noteq> 0" "start \<le> start + sz"
  shows "phys_ok start [] s" "limit s = start + sz" "\<not> allocated start [] s p"
proof -
  have al: "page_aligned start" "page_aligned sz" and s: "s = s0\<lparr>avail := start, limit := start + sz\<rparr>"
    using assms(1) by (auto simp: phys_init_def split: if_splits)
  have "unat (start + sz) = unat start + unat sz"
    using assms(4) by (intro unat_add_no_wrap) (simp only: add_no_wrap_iff)
  then have "page_aligned (start + sz)" using al by (auto simp: page_aligned_unat)
  then show "phys_ok start [] s" using assms(2-4) al s by (simp add: phys_ok_def)
  show "limit s = start + sz" "\<not> allocated start [] s p" using s by (auto simp: allocated_def)
qed

lemma alloc_frame_limit: "alloc_frame s = Some (p, s') \<Longrightarrow> limit s' = limit s"
  by (auto simp: alloc_frame_def split: if_splits)

lemma pm_run_inv:
  assumes "pm_run start sz s live" "start \<noteq> 0" "start \<le> start + sz"
  shows "\<exists>fs. phys_ok start fs s \<and> (\<forall>p. allocated start fs s p \<longleftrightarrow> p \<in> set live) \<and> distinct live \<and>
     limit s = start + sz"
  using assms(1)
proof (induction rule: pm_run.induct)
  case (pm_boot s0 s)
  then show ?case using phys_init_ok [OF pm_boot(2,1) assms(2,3)] by auto
next
  case (pm_alloc s live p s')
  then obtain fs where fs: "phys_ok start fs s" "\<forall>p. allocated start fs s p \<longleftrightarrow> p \<in> set live"
      "distinct live" "limit s = start + sz" by auto
  obtain fs' where "phys_ok start fs' s'" "\<not> allocated start fs s p"
      "\<And>q. allocated start fs' s' q \<longleftrightarrow> allocated start fs s q \<or> q = p"
    by (rule pm.alloc_SomeE [OF fs(1) pm_alloc(2)]) blast
  then show ?case using fs alloc_frame_limit [OF pm_alloc(2)] by auto
next
  case (pm_dealloc s live p s')
  then obtain fs where fs: "phys_ok start fs s" "\<forall>p. allocated start fs s p \<longleftrightarrow> p \<in> set live"
      "distinct live" "limit s = start + sz" by auto
  then have "allocated start fs s p" using pm_dealloc(2) by simp
  from dealloc_frame_ok [OF fs(1) this] pm_dealloc(3)
  have "phys_ok start (p # fs) s'" "\<forall>q. allocated start (p # fs) s' q \<longleftrightarrow> allocated start fs s q \<and> q \<noteq> p"
    by auto
  moreover have "limit s' = limit s" using pm_dealloc(3) by (auto simp: dealloc_frame_def split: if_splits)
  ultimately show ?case using fs by (intro exI [of _ "p # fs"]) auto
next
  case (pm_writes s live p a v)
  then obtain fs where fs: "phys_ok start fs s" "\<forall>p. allocated start fs s p \<longleftrightarrow> p \<in> set live"
      "distinct live" "limit s = start + sz" by auto
  then show ?case
    using pm_write_ok [OF fs(1) _ pm_writes(3)] pm_writes(2) by (intro exI [of _ fs]) (auto simp: allocated_def)
qed

lemma ex_phys_ok: "phys_ok 0x600000 [] ex_phys"
  by (simp add: phys_ok_def ex_phys_def page_aligned_def)

section \<open>Properties\<close>

text \<open>
  The frame allocator meets its contract.  When frames are left \<^verbatim>\<open>alloc_frame\<close>
  returns an aligned frame that was not allocated, with all its words zero, leaves every word
  outside it alone and the invariant intact; when none is left it panics, and in no other case.
\<close>

theorem alloc_frame_correct:
  assumes "phys_ok base fs s"
  shows "case alloc_frame s of
      None \<Rightarrow> frames_left fs s = 0
    | Some (p, s') \<Rightarrow> page_aligned p \<and> p \<noteq> 0 \<and> \<not> allocated base fs s p \<and>
        (\<forall>i < 1024. mem s' (elem p i) = 0) \<and> (\<forall>a. outside p a \<longrightarrow> mem s' a = mem s a) \<and>
        (\<exists>fs'. phys_ok base fs' s' \<and> Suc (frames_left fs' s') = frames_left fs s \<and>
           (\<forall>q. allocated base fs' s' q \<longleftrightarrow> allocated base fs s q \<or> q = p))"
proof (cases "frames_left fs s")
  case 0
  then show ?thesis using alloc_frame_none [OF assms] by simp
next
  case (Suc n)
  then obtain p s' fs' where "alloc_frame s = Some (p, s')" "phys_ok base fs' s'" "p \<noteq> 0" "page_aligned p"
      "\<not> allocated base fs s p" "\<forall>q. allocated base fs' s' q \<longleftrightarrow> allocated base fs s q \<or> q = p"
      "Suc (frames_left fs' s') = frames_left fs s" "\<forall>a. mem s' a = (if outside p a then mem s a else 0)"
    using alloc_frame_ok [OF assms] by auto
  then show ?thesis by auto
qed

lemma alloc_frame_correct_witness:
  "\<exists>s'. alloc_frame ex_phys = Some (0x600000, s') \<and> (\<forall>i < 1024. mem s' (elem 0x600000 i) = 0) \<and>
     mem s' 0x601000 = 0xDEADBEEF"
proof -
  have "\<exists>s'. alloc_frame ex_phys = Some (0x600000, s')"
    by (simp add: alloc_frame_def ex_phys_def page_aligned_def)
  then show ?thesis
    using alloc_frame_correct [OF ex_phys_ok] by (auto simp: page_aligned_def ex_phys_def)
qed

text \<open>
  C32. Over every history of boot, allocations, releases and client writes into live
  frames, the live frames are pairwise distinct, aligned and inside the managed range, and the
  next allocation never returns a live frame: a client that writes only its own frames cannot
  corrupt the free list that is threaded through the free ones.
\<close>

theorem live_frames_disjoint:
  assumes "pm_run start sz s live" "start \<noteq> 0" "start \<le> start + sz"
  shows "distinct live \<and>
    (\<forall>p \<in> set live. page_aligned p \<and> start \<le> p \<and> unat p + 4096 \<le> unat start + unat sz) \<and>
    (\<forall>p s'. alloc_frame s = Some (p, s') \<longrightarrow> p \<notin> set live)"
proof -
  obtain fs where fs: "phys_ok start fs s" "\<forall>p. allocated start fs s p \<longleftrightarrow> p \<in> set live" "distinct live"
      "limit s = start + sz"
    using pm_run_inv [OF assms] by blast
  have sum: "unat (start + sz) = unat start + unat sz"
    using assms(3) by (intro unat_add_no_wrap) (simp only: add_no_wrap_iff)
  have "unat p + 4096 \<le> unat start + unat sz" if "p \<in> set live" for p
  proof -
    have p: "page_aligned p" "p < avail s" using fs(2) that by (auto simp: allocated_def)
    obtain i j where ij: "unat p = 4096 * i" "unat (avail s) = 4096 * j"
      using fs(1) p(1) page_aligned_mult by (metis phys_ok_def)
    then have "unat p + 4096 \<le> unat (avail s)" using p(2) by (simp add: word_less_unat)
    also have "\<dots> \<le> unat (limit s)" using fs(1) by (simp add: phys_ok_def word_le_unat)
    finally show ?thesis using fs(4) sum by simp
  qed
  moreover have "p \<notin> set live" if "alloc_frame s = Some (p, s')" for p s'
    using pm.alloc_SomeE [OF fs(1) that] fs(2) by metis
  ultimately show ?thesis using fs by (auto simp: allocated_def)
qed

lemma live_frames_disjoint_witness:
  "\<exists>s s'. pm_run 0x600000 0x4000 s [] \<and> pm_run 0x600000 0x4000 s' [0x600000] \<and>
     (\<forall>p t. alloc_frame s' = Some (p, t) \<longrightarrow> p \<notin> {0x600000})"
proof -
  have boot: "pm_run 0x600000 0x4000 ex_phys []"
    by (rule pm_run.pm_boot [of ex_phys]) (simp_all add: phys_init_def ex_phys_def page_aligned_def)
  obtain s' where "alloc_frame ex_phys = Some (0x600000, s')"
    by (simp add: alloc_frame_def ex_phys_def page_aligned_def)
  from pm_run.pm_alloc [OF boot this] have run: "pm_run 0x600000 0x4000 s' [0x600000]" .
  have "\<forall>p t. alloc_frame s' = Some (p, t) \<longrightarrow> p \<notin> set [0x600000]"
    using live_frames_disjoint [OF run] by simp
  then show ?thesis using boot run by auto
qed

end
