(* ===== verification/Vmm.thy ===== *)
theory Vmm
  imports Phys_Mem
begin

text \<open>
  Two-level page tables: \<^verbatim>\<open>kernel/vmm.cc\<close>.  Page directories and page tables are
  frames of the physical memory of \<open>Phys_Mem\<close>, read and written entry by entry as the
  code does; the kernel runs identity mapped below 128 MB, so the address it uses for a frame is
  the frame's physical address.  \<open>mmu_walk\<close> is the translation the processor does with
  the tables (4 KB pages, no PSE), against which the operations are specified.
\<close>

section \<open>State\<close>

record config =
  memSize :: u32
  localAPIC :: u32
  ioAPIC :: u32

text \<open>The globals of \<^verbatim>\<open>namespace VMM\<close> and the \<^verbatim>\<open>%cr3\<close> register of the running core.\<close>

record vm =
  pm :: phys
  the_shared_frame :: u32
  page_directory :: u32
  kernel_pt :: "u32 list"
  apic_pt :: u32
  shared_pt :: u32
  cr3 :: u32

section \<open>Reading and writing table entries\<close>

definition pt_get :: "phys \<Rightarrow> u32 \<Rightarrow> nat \<Rightarrow> u32" where
  "pt_get s p i = mem s (elem p i)"

definition pt_set :: "u32 \<Rightarrow> nat \<Rightarrow> u32 \<Rightarrow> phys \<Rightarrow> phys" where
  "pt_set p i v s = s\<lparr>mem := (mem s)(elem p i := v)\<rparr>"

definition present :: "u32 \<Rightarrow> bool" where
  "present e \<longleftrightarrow> e AND 1 = 1"

definition frame_of :: "u32 \<Rightarrow> u32" where
  "frame_of e = e AND 0xFFFFF000"

definition pdi_of :: "u32 \<Rightarrow> nat" where
  "pdi_of va = unat (drop_bit 22 va)"

definition pti_of :: "u32 \<Rightarrow> nat" where
  "pti_of va = unat (drop_bit 12 va AND 0x3FF)"

section \<open>Initialisation\<close>

definition kernel_table :: "nat \<Rightarrow> u32 \<Rightarrow> phys \<Rightarrow> phys option" where
  "kernel_table i p s =
     for_loop 0 1024 (\<lambda>j s. Some
       (if i = 0 \<and> j = 0 then s
        else pt_set p j (push_bit 22 (of_nat i) OR push_bit 12 (of_nat j) OR 0x103) s)) s"

definition global_init :: "config \<Rightarrow> vm \<Rightarrow> vm option" where
  "global_init cfg v = do {
     (spt, s1) \<leftarrow> alloc_frame (pm v);
     (sf, s2) \<leftarrow> alloc_frame s1;
     let s3 = pt_set spt 0 (sf OR 0x107) s2;
     (apt, s4) \<leftarrow> alloc_frame s3;
     let s5 = pt_set apt (pti_of (localAPIC cfg)) (localAPIC cfg OR 0x113) s4;
     let s6 = pt_set apt (pti_of (ioAPIC cfg)) (ioAPIC cfg OR 0x113) s5;
     (kpts, s7) \<leftarrow> for_loop 0 32 (\<lambda>i (kpts, s). do {
        (p, s') \<leftarrow> alloc_frame s;
        s'' \<leftarrow> kernel_table i p s';
        Some (kpts[i := p], s'') }) (kernel_pt v, s6);
     Some (v\<lparr>pm := s7, shared_pt := spt, the_shared_frame := sf, apic_pt := apt, kernel_pt := kpts\<rparr>) }"

definition per_core_init :: "config \<Rightarrow> vm \<Rightarrow> vm option" where
  "per_core_init cfg v = do {
     (pd, s1) \<leftarrow> alloc_frame (pm v);
     s2 \<leftarrow> for_loop 0 32 (\<lambda>i s. Some (pt_set pd i (kernel_pt v ! i OR 0x3) s)) s1;
     let s3 = pt_set pd (pdi_of (ioAPIC cfg)) (apic_pt v OR 0x13) s2;
     let s4 = pt_set pd (pdi_of 0xF0000000) (shared_pt v OR 0x7) s3;
     Some (v\<lparr>pm := s4, page_directory := pd, cr3 := pd\<rparr>) }"

text \<open>
  The memory part of \<^verbatim>\<open>kernelInit\<close> on the first core: the frames start after the heap.
\<close>

definition VMM_FRAMES :: u32 where
  "VMM_FRAMES = 1 * 1024 * 1024 + 5 * 1024 * 1024"

definition boot_vm :: "config \<Rightarrow> vm \<Rightarrow> vm option" where
  "boot_vm cfg v = do {
     s \<leftarrow> phys_init VMM_FRAMES (memSize cfg - VMM_FRAMES) (pm v);
     v1 \<leftarrow> global_init cfg (v\<lparr>pm := s\<rparr>);
     per_core_init cfg v1 }"

section \<open>Freeing a user address space\<close>

definition free_table :: "u32 \<Rightarrow> phys \<Rightarrow> phys option" where
  "free_table page_table s =
     for_loop 0 1024 (\<lambda>pti s.
       if present (pt_get s page_table pti) then do {
         s' \<leftarrow> dealloc_frame (frame_of (pt_get s page_table pti)) s;
         Some (pt_set page_table pti 0 s') }
       else Some s) s"

definition free_pde :: "u32 \<Rightarrow> nat \<Rightarrow> phys \<Rightarrow> phys option" where
  "free_pde pd pdi s =
     (if present (pt_get s pd pdi) then do {
        let page_table = frame_of (pt_get s pd pdi);
        s' \<leftarrow> free_table page_table s;
        s'' \<leftarrow> dealloc_frame page_table s';
        Some (pt_set pd pdi 0 s'') }
      else Some s)"

definition VMM_free :: "u32 \<Rightarrow> phys \<Rightarrow> phys option" where
  "VMM_free pd s =
     for_loop (pdi_of 0x80000000) (pdi_of 0xF0000000 - pdi_of 0x80000000) (free_pde pd) s"

section \<open>Demand paging\<close>

text \<open>The last branch of \<^verbatim>\<open>vmm_pageFault\<close>: give the faulting page a frame.\<close>

definition map_page :: "u32 \<Rightarrow> u32 \<Rightarrow> phys \<Rightarrow> phys option" where
  "map_page pd va s = do {
     s1 \<leftarrow> (if \<not> present (pt_get s pd (pdi_of va))
           then do { (p, t) \<leftarrow> alloc_frame s; Some (pt_set pd (pdi_of va) (p OR 0x7) t) }
           else Some s);
     let page_table = frame_of (pt_get s1 pd (pdi_of va));
     (if \<not> present (pt_get s1 page_table (pti_of va))
      then do { (p, t) \<leftarrow> alloc_frame s1; Some (pt_set page_table (pti_of va) (p OR 0x107) t) }
      else Some s1) }"

section \<open>The processor's translation\<close>

record xlate =
  x_frame :: u32
  x_user :: bool
  x_write :: bool

definition mmu_walk :: "(u32 \<Rightarrow> u32) \<Rightarrow> u32 \<Rightarrow> u32 \<Rightarrow> xlate option" where
  "mmu_walk m pd va =
     (let pde = m (elem (frame_of pd) (pdi_of va)) in
      if \<not> present pde then None
      else let pte = m (elem (frame_of pde) (pti_of va)) in
        if \<not> present pte then None
        else Some \<lparr>x_frame = frame_of pte,
                   x_user = (pde AND 4 \<noteq> 0 \<and> pte AND 4 \<noteq> 0),
                   x_write = (pde AND 2 \<noteq> 0 \<and> pte AND 2 \<noteq> 0)\<rparr>)"

definition phys_addr :: "(u32 \<Rightarrow> u32) \<Rightarrow> u32 \<Rightarrow> u32 \<Rightarrow> u32 option" where
  "phys_addr m pd va = map_option (\<lambda>x. x_frame x OR (va AND 0xFFF)) (mmu_walk m pd va)"

section \<open>Well-formed address spaces\<close>

text \<open>
  Every table a directory points to is an allocated frame other than the directory, and no two
  entries point to the same table.
\<close>

definition tables_ok :: "u32 \<Rightarrow> ptr list \<Rightarrow> phys \<Rightarrow> u32 \<Rightarrow> bool" where
  "tables_ok base fs s pd \<longleftrightarrow>
     allocated base fs s pd \<and>
     (\<forall>i < 1024. present (pt_get s pd i) \<longrightarrow>
        allocated base fs s (frame_of (pt_get s pd i)) \<and> frame_of (pt_get s pd i) \<noteq> pd) \<and>
     (\<forall>i < 1024. \<forall>j < 1024. i \<noteq> j \<longrightarrow> present (pt_get s pd i) \<longrightarrow> present (pt_get s pd j) \<longrightarrow>
        frame_of (pt_get s pd i) \<noteq> frame_of (pt_get s pd j))"

text \<open>The frames one directory entry owns: its data frames, then its table.\<close>

definition table_frames :: "phys \<Rightarrow> u32 \<Rightarrow> u32 list" where
  "table_frames s pt = map (\<lambda>i. frame_of (pt_get s pt i)) (filter (\<lambda>i. present (pt_get s pt i)) [0..<1024])"

definition pde_frames :: "phys \<Rightarrow> u32 \<Rightarrow> nat \<Rightarrow> u32 list" where
  "pde_frames s pd i =
     (if present (pt_get s pd i)
      then table_frames s (frame_of (pt_get s pd i)) @ [frame_of (pt_get s pd i)] else [])"

definition user_frames :: "phys \<Rightarrow> u32 \<Rightarrow> u32 list" where
  "user_frames s pd = concat (map (pde_frames s pd) [512..<960])"

text \<open>
  A user address space: directory, user tables and user data frames are all allocated and all
  different.
\<close>

definition user_space_ok :: "u32 \<Rightarrow> ptr list \<Rightarrow> phys \<Rightarrow> u32 \<Rightarrow> bool" where
  "user_space_ok base fs s pd \<longleftrightarrow>
     allocated base fs s pd \<and> distinct (pd # user_frames s pd) \<and>
     (\<forall>f \<in> set (user_frames s pd). allocated base fs s f)"

text \<open>
  What mapping page \<open>va\<close> promises: the new state is well formed, \<open>va\<close> translates to a
  frame \<open>p\<close> that was free before and holds zeros, with user write access; every other page
  translates as before; nothing but the directory, the page's table and the new frames is written;
  one frame is used, or two when the table is missing, and the directory changes at most in the entry of the page, where a
  missing table is replaced by a new one.
\<close>

definition fresh_mapping :: "u32 \<Rightarrow> ptr list \<Rightarrow> phys \<Rightarrow> u32 \<Rightarrow> u32 \<Rightarrow> ptr list \<Rightarrow> phys \<Rightarrow> u32 \<Rightarrow> bool" where
  "fresh_mapping base fs s pd va fs' s' p \<longleftrightarrow>
     phys_ok base fs' s' \<and> tables_ok base fs' s' pd \<and>
     mmu_walk (mem s') pd va = Some \<lparr>x_frame = p, x_user = True, x_write = True\<rparr> \<and>
     \<not> allocated base fs s p \<and> allocated base fs' s' p \<and> (\<forall>i < 1024. pt_get s' p i = 0) \<and>
     (\<forall>q. allocated base fs s q \<longrightarrow> allocated base fs' s' q) \<and>
     (\<forall>va'. va' AND 0xFFFFF000 \<noteq> va AND 0xFFFFF000 \<longrightarrow> mmu_walk (mem s') pd va' = mmu_walk (mem s) pd va') \<and>
     (\<forall>q j. allocated base fs s q \<longrightarrow> j < 1024 \<longrightarrow> q \<noteq> pd \<longrightarrow>
        (present (pt_get s pd (pdi_of va)) \<longrightarrow> q \<noteq> frame_of (pt_get s pd (pdi_of va))) \<longrightarrow>
        pt_get s' q j = pt_get s q j) \<and>
     frames_left fs s = frames_left fs' s' + (if present (pt_get s pd (pdi_of va)) then 1 else 2) \<and>
     (\<forall>j < 1024. j \<noteq> pdi_of va \<or> present (pt_get s pd j) \<longrightarrow> pt_get s' pd j = pt_get s pd j) \<and>
     (\<not> present (pt_get s pd (pdi_of va)) \<longrightarrow>
        \<not> allocated base fs s (frame_of (pt_get s' pd (pdi_of va))) \<and> frame_of (pt_get s' pd (pdi_of va)) \<noteq> p \<and>
        pt_get s' pd (pdi_of va) AND 6 = 6)"

section \<open>Table entries\<close>

lemma pdi_of_less [simp]: "pdi_of va < 1024"
proof -
  have "unat va div 4194304 < 1024" using unat_lt_32 [of va] by (simp add: div_less_iff_less_mult)
  then show ?thesis by (simp add: pdi_of_def unat_drop_bit_32)
qed

lemma pti_of_less [simp]: "pti_of va < 1024"
  by (simp add: pti_of_def unat_and_3FF)

lemma pdi_of_div: "pdi_of va = unat va div 4194304"
  by (simp add: pdi_of_def unat_drop_bit_32)

lemma pti_of_div: "pti_of va = unat va div 4096 mod 1024"
  by (simp add: pti_of_def unat_and_3FF unat_drop_bit_32)

lemma pdi_of_bounds [simp]: "pdi_of 0x80000000 = 512" "pdi_of 0xF0000000 = 960"
  by (simp_all add: pdi_of_div)

lemma frame_of_aligned [simp]: "page_aligned (frame_of e)"
  by (simp add: frame_of_def)

lemma frame_of_self: "page_aligned p \<Longrightarrow> frame_of p = p"
  by (simp add: frame_of_def page_base_aligned)

text \<open>An entry is an aligned frame with flag bits below 0x1000 ored in.\<close>

lemma entry_flags:
  assumes "page_aligned p" "c AND 0xFFF = c"
  shows "(p OR k) AND c = k AND c"
proof -
  have "p AND c = (p AND 0xFFF) AND c"
    using assms(2) by (metis and.assoc and.commute)
  then have "p AND c = 0" using assms(1) by (simp add: page_aligned_def)
  then show ?thesis by (simp add: bit.conj_disj_distrib2)
qed

lemma entry_frame:
  assumes "page_aligned p" "k AND 0xFFFFF000 = 0"
  shows "frame_of (p OR k) = p"
  using assms by (simp add: frame_of_def bit.conj_disj_distrib2 page_base_aligned)

lemma present_entry: "page_aligned p \<Longrightarrow> k AND 1 = 1 \<Longrightarrow> present (p OR k)"
  by (simp add: present_def entry_flags)

lemma entry_7 [simp]: "page_aligned p \<Longrightarrow> present (p OR 7)" "page_aligned p \<Longrightarrow> frame_of (p OR 7) = p"
    "page_aligned p \<Longrightarrow> (p OR 7) AND 4 = 4" "page_aligned p \<Longrightarrow> (p OR 7) AND 2 = 2"
  by (simp_all add: present_entry entry_frame entry_flags)

lemma entry_107 [simp]: "page_aligned p \<Longrightarrow> present (p OR 0x107)" "page_aligned p \<Longrightarrow> frame_of (p OR 0x107) = p"
    "page_aligned p \<Longrightarrow> (p OR 0x107) AND 4 = 4" "page_aligned p \<Longrightarrow> (p OR 0x107) AND 2 = 2"
  by (simp_all add: present_entry entry_frame entry_flags)

lemma not_present_0 [simp]: "\<not> present 0"
  by (simp add: present_def)

lemma pt_get_set:
  assumes "page_aligned p" "page_aligned q" "i < 1024" "j < 1024"
  shows "pt_get (pt_set p i v s) q j = (if p = q \<and> i = j then v else pt_get s q j)"
  using assms by (auto simp: pt_get_def pt_set_def elem_eq_iff)

lemma pt_set_simps [simp]:
  "firstFree (pt_set p i v s) = firstFree s" "avail (pt_set p i v s) = avail s"
  "limit (pt_set p i v s) = limit s" "allocated base fs (pt_set p i v s) = allocated base fs s"
  "frames_left fs (pt_set p i v s) = frames_left fs s"
  by (simp_all add: pt_set_def allocated_def frames_left_def fun_eq_iff)

lemma pt_set_ok:
  assumes "phys_ok base fs s" "allocated base fs s p" "i < 1024"
  shows "phys_ok base fs (pt_set p i v s)"
  unfolding pt_set_def using assms by (intro pm_write_ok) (auto simp: allocated_def)

text \<open>A page is the pair of its two table indices.\<close>

lemma same_page_iff:
  "pdi_of va = pdi_of va' \<and> pti_of va = pti_of va' \<longleftrightarrow> va AND 0xFFFFF000 = va' AND 0xFFFFF000"
proof -
  have "pdi_of va = unat va div 4096 div 1024" for va
    by (simp add: pdi_of_div flip: div_mult2_eq)
  then have "pdi_of va = pdi_of va' \<and> pti_of va = pti_of va' \<longleftrightarrow> unat va div 4096 = unat va' div 4096"
    by (metis pti_of_div div_mult_mod_eq)
  also have "\<dots> \<longleftrightarrow> unat (va AND 0xFFFFF000) = unat (va' AND 0xFFFFF000)"
    by (simp add: unat_page_base)
  finally show ?thesis by (simp add: word_unat_eq_iff)
qed

section \<open>Demand paging gives the faulting page a fresh frame\<close>

lemma mmu_walk_pt_get:
  assumes "page_aligned pd"
  shows "mmu_walk (mem s) pd va =
     (let pde = pt_get s pd (pdi_of va) in
      if \<not> present pde then None
      else let pte = pt_get s (frame_of pde) (pti_of va) in
        if \<not> present pte then None
        else Some \<lparr>x_frame = frame_of pte, x_user = (pde AND 4 \<noteq> 0 \<and> pte AND 4 \<noteq> 0),
                   x_write = (pde AND 2 \<noteq> 0 \<and> pte AND 2 \<noteq> 0)\<rparr>)"
  using assms by (simp add: mmu_walk_def pt_get_def frame_of_self Let_def)

lemma mmu_walk_cong:
  assumes "page_aligned pd" "pt_get s' pd (pdi_of va) = pt_get s pd (pdi_of va)"
    and "present (pt_get s pd (pdi_of va)) \<Longrightarrow>
      pt_get s' (frame_of (pt_get s pd (pdi_of va))) (pti_of va) =
      pt_get s (frame_of (pt_get s pd (pdi_of va))) (pti_of va)"
  shows "mmu_walk (mem s') pd va = mmu_walk (mem s) pd va"
  using assms(2,3) by (simp add: mmu_walk_pt_get [OF assms(1)] Let_def)

text \<open>Allocation, as the clients of this theory use it.\<close>

lemma alloc_entry:
  assumes "phys_ok base fs s" "0 < frames_left fs s"
  obtains p s' fs' where "alloc_frame s = Some (p, s')" "phys_ok base fs' s'" "p \<noteq> 0" "page_aligned p"
    "\<not> allocated base fs s p" "\<forall>q. allocated base fs' s' q \<longleftrightarrow> allocated base fs s q \<or> q = p"
    "Suc (frames_left fs' s') = frames_left fs s"
    "\<forall>q j. page_aligned q \<longrightarrow> j < 1024 \<longrightarrow> pt_get s' q j = (if q = p then 0 else pt_get s q j)"
proof -
  obtain p s' fs' where p: "alloc_frame s = Some (p, s')" "phys_ok base fs' s'" "p \<noteq> 0" "page_aligned p"
    "\<not> allocated base fs s p" "\<forall>q. allocated base fs' s' q \<longleftrightarrow> allocated base fs s q \<or> q = p"
    "Suc (frames_left fs' s') = frames_left fs s" "\<forall>a. mem s' a = (if outside p a then mem s a else 0)"
    using pm.alloc_ok [OF assms] by blast
  have "pt_get s' q j = (if q = p then 0 else pt_get s q j)" if "page_aligned q" "j < 1024" for q j
    using p(8) that by (simp add: pt_get_def)
  then show thesis using p by (auto intro: that)
qed

lemma tables_okD:
  assumes "tables_ok base fs s pd" "i < 1024" "present (pt_get s pd i)"
  shows "allocated base fs s (frame_of (pt_get s pd i))" "frame_of (pt_get s pd i) \<noteq> pd"
    "\<And>j. j < 1024 \<Longrightarrow> j \<noteq> i \<Longrightarrow> present (pt_get s pd j) \<Longrightarrow> frame_of (pt_get s pd i) \<noteq> frame_of (pt_get s pd j)"
  using assms unfolding tables_ok_def by auto

text \<open>
  The common core: a table \<open>pt\<close> is already installed at \<open>pdi\<close> and its entry \<open>pti\<close>
  is free; \<open>p\<close> is a frame allocated for it.
\<close>

lemma set_pte_walk:
  assumes t: "tables_ok base fs s pd" and pd: "page_aligned pd"
    and pde: "present (pt_get s pd (pdi_of va))" "pt = frame_of (pt_get s pd (pdi_of va))"
    and p: "page_aligned p"
  defines "s' \<equiv> pt_set pt (pti_of va) (p OR 0x107) s"
  shows "mmu_walk (mem s') pd va = Some \<lparr>x_frame = p, x_user = (pt_get s pd (pdi_of va) AND 4 \<noteq> 0),
      x_write = (pt_get s pd (pdi_of va) AND 2 \<noteq> 0)\<rparr>"
    and "va' AND 0xFFFFF000 \<noteq> va AND 0xFFFFF000 \<Longrightarrow> mmu_walk (mem s') pd va' = mmu_walk (mem s) pd va'"
    and "tables_ok base fs s' pd"
proof -
  have pt: "page_aligned pt" "pt \<noteq> pd" using pde tables_okD(2) [OF t _ pde(1)] by auto
  have get: "pt_get s' q j = (if q = pt \<and> j = pti_of va then p OR 0x107 else pt_get s q j)"
    if "page_aligned q" "j < 1024" for q j
    using that pt by (auto simp: s'_def pt_get_set)
  show "mmu_walk (mem s') pd va = Some \<lparr>x_frame = p, x_user = (pt_get s pd (pdi_of va) AND 4 \<noteq> 0),
      x_write = (pt_get s pd (pdi_of va) AND 2 \<noteq> 0)\<rparr>"
    using pde pt p by (simp add: mmu_walk_pt_get [OF pd] get pd Let_def)
  show "mmu_walk (mem s') pd va' = mmu_walk (mem s) pd va'" if "va' AND 0xFFFFF000 \<noteq> va AND 0xFFFFF000"
  proof (rule mmu_walk_cong [OF pd])
    show "pt_get s' pd (pdi_of va') = pt_get s pd (pdi_of va')" using pt pd by (simp add: get)
    assume pr: "present (pt_get s pd (pdi_of va'))"
    have "frame_of (pt_get s pd (pdi_of va')) \<noteq> pt \<or> pti_of va' \<noteq> pti_of va"
      using that same_page_iff [of va va'] tables_okD(3) [OF t _ pr, of "pdi_of va"] pde by auto
    then show "pt_get s' (frame_of (pt_get s pd (pdi_of va'))) (pti_of va') =
        pt_get s (frame_of (pt_get s pd (pdi_of va'))) (pti_of va')"
      by (auto simp: get)
  qed
  have "pt_get s' pd i = pt_get s pd i" if "i < 1024" for i using that pt pd by (simp add: get)
  then show "tables_ok base fs s' pd"
    using t unfolding tables_ok_def by (simp add: s'_def)
qed

text \<open>Installing a fresh, empty table changes no translation.\<close>

lemma set_pde_walk:
  assumes t: "tables_ok base fs s pd" and al: "alloc_frame s = Some (p, s1)" and ok: "phys_ok base fs s"
    and pde: "\<not> present (pt_get s pd i)" "i < 1024"
  obtains fs1 where "phys_ok base fs1 (pt_set pd i (p OR 7) s1)" "tables_ok base fs1 (pt_set pd i (p OR 7) s1) pd"
    "Suc (frames_left fs1 (pt_set pd i (p OR 7) s1)) = frames_left fs s"
    "\<forall>q. allocated base fs1 (pt_set pd i (p OR 7) s1) q \<longleftrightarrow> allocated base fs s q \<or> q = p"
    "\<not> allocated base fs s p" "page_aligned p" "p \<noteq> pd"
    "\<forall>q j. page_aligned q \<longrightarrow> j < 1024 \<longrightarrow>
       pt_get (pt_set pd i (p OR 7) s1) q j = (if q = pd \<and> j = i then p OR 7 else if q = p then 0 else pt_get s q j)"
    "\<forall>va. mmu_walk (mem (pt_set pd i (p OR 7) s1)) pd va = mmu_walk (mem s) pd va"
proof -
  have "0 < frames_left fs s" using pm.alloc_iff [OF ok] al by blast
  then obtain fs1 where p: "phys_ok base fs1 s1" "page_aligned p" "\<not> allocated base fs s p"
      "\<forall>q. allocated base fs1 s1 q \<longleftrightarrow> allocated base fs s q \<or> q = p" "Suc (frames_left fs1 s1) = frames_left fs s"
      "\<forall>q j. page_aligned q \<longrightarrow> j < 1024 \<longrightarrow> pt_get s1 q j = (if q = p then 0 else pt_get s q j)"
    using al by (auto elim!: alloc_entry [OF ok])
  let ?s = "pt_set pd i (p OR 7) s1"
  have pdal: "allocated base fs s pd" using t by (simp add: tables_ok_def)
  then have pd: "page_aligned pd" "p \<noteq> pd" using p(3) by (auto simp: allocated_def)
  have get: "pt_get ?s q j = (if q = pd \<and> j = i then p OR 7 else if q = p then 0 else pt_get s q j)"
    if "page_aligned q" "j < 1024" for q j
    using that pd pde(2) p(6) by (auto simp: pt_get_set)
  have "phys_ok base fs1 ?s" using p(1,4) pdal pde(2) by (intro pt_set_ok) auto
  moreover have "tables_ok base fs1 ?s pd"
  proof -
    have "frame_of (pt_get s pd j) \<noteq> p" if "j < 1024" "present (pt_get s pd j)" for j
      using tables_okD(1) [OF t that] p(3) by auto
    then show ?thesis
      using t p(2,4) pd pde unfolding tables_ok_def by (auto simp: get)
  qed
  moreover have "mmu_walk (mem ?s) pd va = mmu_walk (mem s) pd va" for va
  proof (cases "pdi_of va = i")
    case True
    then show ?thesis using pde p(2) pd by (simp add: mmu_walk_pt_get [OF pd(1)] get)
  next
    case False
    show ?thesis
    proof (rule mmu_walk_cong [OF pd(1)])
      show "pt_get ?s pd (pdi_of va) = pt_get s pd (pdi_of va)" using False pd by (simp add: get)
      assume "present (pt_get s pd (pdi_of va))"
      then have "frame_of (pt_get s pd (pdi_of va)) \<noteq> p" "frame_of (pt_get s pd (pdi_of va)) \<noteq> pd"
        using tables_okD(1,2) [OF t] p(3) by (auto simp del: frame_of_aligned)
      then show "pt_get ?s (frame_of (pt_get s pd (pdi_of va))) (pti_of va) =
          pt_get s (frame_of (pt_get s pd (pdi_of va))) (pti_of va)" by (simp add: get)
    qed
  qed
  ultimately show thesis
    using p pd get by (intro that [of fs1]) auto
qed

lemma flag_bits: "e AND 6 = 6 \<Longrightarrow> e AND 4 \<noteq> 0 \<and> e AND 2 \<noteq> 0" for e :: u32
proof -
  assume e: "e AND 6 = 6"
  have "e AND 4 = (e AND 6) AND 4" "e AND 2 = (e AND 6) AND 2" by (simp_all add: and.assoc)
  then show ?thesis using e by simp
qed

lemma map_page_in_table:
  assumes ok: "phys_ok base fs s" and t: "tables_ok base fs s pd" and room: "0 < frames_left fs s"
    and True: "present (pt_get s pd (pdi_of va))" and flags: "pt_get s pd (pdi_of va) AND 6 = 6"
    and unmapped: "mmu_walk (mem s) pd va = None"
  shows "\<exists>s' fs' p. map_page pd va s = Some s' \<and> fresh_mapping base fs s pd va fs' s' p"
proof -
  have pd: "page_aligned pd" using t by (simp add: tables_ok_def allocated_def)
  define pt where "pt = frame_of (pt_get s pd (pdi_of va))"
  have pt: "page_aligned pt" "allocated base fs s pt" using tables_okD(1) [OF t _ True] by (auto simp: pt_def)
  have npte: "\<not> present (pt_get s pt (pti_of va))"
    using unmapped True by (auto simp: mmu_walk_pt_get [OF pd] Let_def pt_def split: if_splits)
  obtain p s1 fs1 where p: "alloc_frame s = Some (p, s1)" "phys_ok base fs1 s1" "page_aligned p"
      "\<not> allocated base fs s p" "\<forall>q. allocated base fs1 s1 q \<longleftrightarrow> allocated base fs s q \<or> q = p"
      "\<forall>q j. page_aligned q \<longrightarrow> j < 1024 \<longrightarrow> pt_get s1 q j = (if q = p then 0 else pt_get s q j)"
      "Suc (frames_left fs1 s1) = frames_left fs s"
    using room by (auto elim: alloc_entry [OF ok])
  have same: "pt_get s1 q j = pt_get s q j" if "allocated base fs s q" "j < 1024" for q j
    using that p(4,6) by (auto simp: allocated_def)
  have pdal: "allocated base fs s pd" using t by (simp add: tables_ok_def)
  have t1: "tables_ok base fs1 s1 pd" using t p(5) same [OF pdal] unfolding tables_ok_def by auto
  have walk1: "mmu_walk (mem s1) pd va' = mmu_walk (mem s) pd va'" for va'
    using same [OF pdal] same tables_okD(1) [OF t] by (intro mmu_walk_cong [OF pd]) auto
  let ?s' = "pt_set pt (pti_of va) (p OR 0x107) s1"
  have eq: "pt = frame_of (pt_get s1 pd (pdi_of va))" "present (pt_get s1 pd (pdi_of va))"
    using same [OF pdal] True by (auto simp: pt_def)
  note w = set_pte_walk [OF t1 pd eq(2,1) p(3)]
  have "map_page pd va s = Some ?s'"
    using True npte p(1) by (simp add: map_page_def Let_def pt_def)
  moreover have "phys_ok base fs1 ?s'" using p(2,5) pt(2) by (intro pt_set_ok) auto
  moreover have "pt_get ?s' q j = pt_get s1 q j" if "page_aligned q" "q \<noteq> pt" "j < 1024" for q j
    using that pt(1) by (simp add: pt_get_set)
  moreover have "p \<noteq> pt" using p(4) pt(2) by auto
  moreover have "pt \<noteq> pd" using tables_okD(2) [OF t _ True] by (simp add: pt_def)
  ultimately show ?thesis
    using w walk1 p same [OF pdal] flags True flag_bits same pd
    by (intro exI [of _ ?s'] exI [of _ fs1] exI [of _ p]) (auto simp: fresh_mapping_def pt_def allocated_def)
qed

lemma map_page_new_table:
  assumes ok: "phys_ok base fs s" and t: "tables_ok base fs s pd" and room: "2 \<le> frames_left fs s"
    and False: "\<not> present (pt_get s pd (pdi_of va))"
  shows "\<exists>s' fs' p. map_page pd va s = Some s' \<and> fresh_mapping base fs s pd va fs' s' p"
proof -
  have pd: "page_aligned pd" using t by (simp add: tables_ok_def allocated_def)
  have "0 < frames_left fs s" using room by simp
  then obtain r s1 where al: "alloc_frame s = Some (r, s1)" using pm.alloc_ok [OF ok] by blast
  let ?s1 = "pt_set pd (pdi_of va) (r OR 7) s1"
  obtain fs1 where 1: "phys_ok base fs1 ?s1" "tables_ok base fs1 ?s1 pd"
      "Suc (frames_left fs1 ?s1) = frames_left fs s"
      "\<forall>q. allocated base fs1 ?s1 q \<longleftrightarrow> allocated base fs s q \<or> q = r"
      "\<not> allocated base fs s r" "page_aligned r" "r \<noteq> pd"
      "\<forall>q j. page_aligned q \<longrightarrow> j < 1024 \<longrightarrow>
        pt_get ?s1 q j = (if q = pd \<and> j = pdi_of va then r OR 7 else if q = r then 0 else pt_get s q j)"
      "\<forall>va. mmu_walk (mem ?s1) pd va = mmu_walk (mem s) pd va"
    by (rule set_pde_walk [OF t al ok False pdi_of_less])
  have pde1: "pt_get ?s1 pd (pdi_of va) = r OR 7" and pte1: "pt_get ?s1 r (pti_of va) = 0"
    using 1(7,8) pd 1(6) by auto
  have "0 < frames_left fs1 ?s1" using 1(3) room by simp
  then obtain p s2 fs2 where p: "alloc_frame ?s1 = Some (p, s2)" "phys_ok base fs2 s2" "page_aligned p"
      "\<not> allocated base fs1 ?s1 p" "\<forall>q. allocated base fs2 s2 q \<longleftrightarrow> allocated base fs1 ?s1 q \<or> q = p"
      "\<forall>q j. page_aligned q \<longrightarrow> j < 1024 \<longrightarrow> pt_get s2 q j = (if q = p then 0 else pt_get ?s1 q j)"
      "Suc (frames_left fs2 s2) = frames_left fs1 ?s1"
    by (rule alloc_entry [OF 1(1)])
  have same: "pt_get s2 q j = pt_get ?s1 q j" if "allocated base fs1 ?s1 q" "j < 1024" for q j
    using that p(4,6) by (auto simp: allocated_def)
  have pdal: "allocated base fs1 ?s1 pd" using 1(2) by (simp add: tables_ok_def)
  have t2: "tables_ok base fs2 s2 pd"
    using 1(2) p(5) same [OF pdal] unfolding tables_ok_def by auto
  have walk2: "mmu_walk (mem s2) pd va' = mmu_walk (mem s) pd va'" for va'
    using same [OF pdal] same tables_okD(1) [OF 1(2)] 1(9)
    by (subst mmu_walk_cong [OF pd, of s2 va' ?s1]) auto
  have eq: "present (pt_get s2 pd (pdi_of va))" "r = frame_of (pt_get s2 pd (pdi_of va))"
    using same [OF pdal] pde1 1(6) by auto
  note w = set_pte_walk [OF t2 pd eq p(3)]
  let ?s' = "pt_set r (pti_of va) (p OR 0x107) s2"
  have run: "map_page pd va s = Some ?s'"
    using False al pde1 pte1 1(6) p(1) by (simp add: map_page_def Let_def)
  have ok': "phys_ok base fs2 ?s'" using p(2,5) 1(4) by (intro pt_set_ok) auto
  have neq: "p \<noteq> r" "\<not> allocated base fs s p" using p(4) 1(4) by auto
  have get: "pt_get ?s' q j = pt_get s2 q j" if "page_aligned q" "q \<noteq> r" "j < 1024" for q j
    using that 1(6) by (simp add: pt_get_set)
  have "pt_get s2 pd (pdi_of va) = r OR 7" using same [OF pdal] pde1 by simp
  then have walk: "mmu_walk (mem ?s') pd va = Some \<lparr>x_frame = p, x_user = True, x_write = True\<rparr>"
    using w(1) 1(6) by simp
  have zero: "\<forall>i < 1024. pt_get ?s' p i = 0" using get neq(1) p(3,6) by simp
  have al': "allocated base fs2 ?s' p" "\<forall>q. allocated base fs s q \<longrightarrow> allocated base fs2 ?s' q"
    using p(5) 1(4) by simp_all
  have others: "\<forall>va'. va' AND 0xFFFFF000 \<noteq> va AND 0xFFFFF000 \<longrightarrow>
      mmu_walk (mem ?s') pd va' = mmu_walk (mem s) pd va'"
    using w(2) walk2 by metis
  have frame: "pt_get ?s' q j = pt_get s q j" if "allocated base fs s q" "j < 1024" "q \<noteq> pd" for q j
  proof -
    have "page_aligned q" "q \<noteq> r" "allocated base fs1 ?s1 q" using that(1) 1(4,5) by (auto simp: allocated_def)
    then show ?thesis using get [of q j] same [of q j] that 1(8) by simp
  qed
  have left: "frames_left fs s = frames_left fs2 ?s' + (if present (pt_get s pd (pdi_of va)) then 1 else 2)"
    using 1(3) p(7) False by simp
  have dir: "pt_get ?s' pd j = (if j = pdi_of va then r OR 7 else pt_get s pd j)" if "j < 1024" for j
    using that get [OF pd] 1(7) same [OF pdal that] 1(8) pd by auto
  have "frame_of (pt_get ?s' pd (pdi_of va)) = r" "pt_get ?s' pd (pdi_of va) AND 6 = 6"
    using dir 1(6) entry_flags [OF 1(6), of 6 7] by simp_all
  then have table: "\<not> allocated base fs s (frame_of (pt_get ?s' pd (pdi_of va)))"
      "frame_of (pt_get ?s' pd (pdi_of va)) \<noteq> p" "pt_get ?s' pd (pdi_of va) AND 6 = 6"
    using 1(5) neq(1) by simp_all
  have dirs: "\<forall>j < 1024. j \<noteq> pdi_of va \<or> present (pt_get s pd j) \<longrightarrow> pt_get ?s' pd j = pt_get s pd j"
    using dir False by auto
  show ?thesis
    unfolding fresh_mapping_def
    using run ok' w(3) walk neq(2) al' zero others frame left dirs table
    by (intro exI [of _ ?s'] exI [of _ fs2] exI [of _ p] conjI) blast+
qed

lemma map_page_fresh:
  assumes "phys_ok base fs s" "tables_ok base fs s pd" "2 \<le> frames_left fs s" "mmu_walk (mem s) pd va = None"
    and "present (pt_get s pd (pdi_of va)) \<longrightarrow> pt_get s pd (pdi_of va) AND 6 = 6"
  shows "\<exists>s' fs' p. map_page pd va s = Some s' \<and> fresh_mapping base fs s pd va fs' s' p"
proof (cases "present (pt_get s pd (pdi_of va))")
  case True
  have "0 < frames_left fs s" using assms(3) by simp
  then show ?thesis using map_page_in_table [OF assms(1,2) _ True] True assms(4,5) by blast
qed (rule map_page_new_table [OF assms(1-3)])

section \<open>Freeing returns every user frame\<close>

lemma dealloc_entry:
  assumes ok: "phys_ok base fs s" and al: "allocated base fs s p"
  obtains s' where "dealloc_frame p s = Some s'" "phys_ok base (p # fs) s'" "avail s' = avail s" "limit s' = limit s"
    "\<forall>q j. page_aligned q \<longrightarrow> j < 1024 \<longrightarrow> q \<noteq> p \<longrightarrow> pt_get s' q j = pt_get s q j"
proof -
  obtain s' where s': "dealloc_frame p s = Some s'" "phys_ok base (p # fs) s'" "\<forall>a. a \<noteq> p \<longrightarrow> mem s' a = mem s a"
    using dealloc_frame_ok [OF ok al] by blast
  have p: "page_aligned p" using al by (simp add: allocated_def)
  have "elem q j \<noteq> p" if "page_aligned q" "j < 1024" "q \<noteq> p" for q j
    using elem_eq_iff [OF that(1) p that(2), of 0] that by auto
  then have "\<forall>q j. page_aligned q \<longrightarrow> j < 1024 \<longrightarrow> q \<noteq> p \<longrightarrow> pt_get s' q j = pt_get s q j"
    using s'(3) by (simp add: pt_get_def)
  moreover have "avail s' = avail s" "limit s' = limit s"
    using s'(1) by (auto simp: dealloc_frame_def split: if_splits)
  ultimately show thesis using s' that by blast
qed

lemma allocated_append:
  "avail t = avail s \<Longrightarrow> allocated base (ds @ fs) t q \<longleftrightarrow> allocated base fs s q \<and> q \<notin> set ds"
  by (auto simp: allocated_def)

text \<open>The invariant of the inner loop after \<open>k\<close> entries.\<close>

lemma free_table_ok:
  assumes ok: "phys_ok base fs s" and pt: "allocated base fs s pt"
    and dist: "distinct (table_frames s pt @ [pt])" and al: "\<forall>f \<in> set (table_frames s pt). allocated base fs s f"
  shows "\<exists>s'. free_table pt s = Some s' \<and> phys_ok base (rev (table_frames s pt) @ fs) s' \<and>
     avail s' = avail s \<and> limit s' = limit s \<and>
     (\<forall>q j. page_aligned q \<longrightarrow> j < 1024 \<longrightarrow> q \<notin> set (table_frames s pt @ [pt]) \<longrightarrow> pt_get s' q j = pt_get s q j)"
proof -
  have ptal: "page_aligned pt" using pt by (simp add: allocated_def)
  define ds where "ds k = map (\<lambda>i. frame_of (pt_get s pt i)) (filter (\<lambda>i. present (pt_get s pt i)) [0..<k])" for k
  define I where "I k t \<longleftrightarrow> phys_ok base (rev (ds k) @ fs) t \<and> avail t = avail s \<and> limit t = limit s \<and>
     (\<forall>q j. page_aligned q \<longrightarrow> j < 1024 \<longrightarrow> q \<notin> set (ds k) \<longrightarrow> q \<noteq> pt \<longrightarrow> pt_get t q j = pt_get s q j) \<and>
     (\<forall>j < 1024. k \<le> j \<longrightarrow> pt_get t pt j = pt_get s pt j)" for k t
  have full: "ds 1024 = table_frames s pt" by (simp add: ds_def table_frames_def)
  have step: "\<exists>t'. (if present (pt_get t pt k) then do {
         s' \<leftarrow> dealloc_frame (frame_of (pt_get t pt k)) t;
         Some (pt_set pt k 0 s') } else Some t) = Some t' \<and> I (Suc k) t'"
    if k: "k < 1024" and I: "I k t" for k t
  proof (cases "present (pt_get s pt k)")
    case False
    then have "ds (Suc k) = ds k" by (simp add: ds_def)
    then show ?thesis using False I k by (auto simp: I_def)
  next
    case True
    let ?f = "frame_of (pt_get s pt k)"
    have dsS: "ds (Suc k) = ds k @ [?f]" using True by (simp add: ds_def)
    have "table_frames s pt = ds (Suc k) @ map (\<lambda>i. frame_of (pt_get s pt i))
        (filter (\<lambda>i. present (pt_get s pt i)) [Suc k..<1024])"
      unfolding table_frames_def ds_def using k upt_split [of 0 "Suc k" 1024]
      by (simp only: Suc_leI filter_append map_append le0)
    then have f: "?f \<notin> set (ds k)" "?f \<noteq> pt" "allocated base fs s ?f"
      using dist al dsS by auto
    have eq: "pt_get t pt k = pt_get s pt k" using I k by (simp add: I_def)
    have "allocated base (rev (ds k) @ fs) t ?f" using f I by (simp add: I_def allocated_append [of t s])
    then obtain t1 where t1: "dealloc_frame ?f t = Some t1" "phys_ok base (?f # rev (ds k) @ fs) t1"
        "avail t1 = avail t" "limit t1 = limit t"
        "\<forall>q j. page_aligned q \<longrightarrow> j < 1024 \<longrightarrow> q \<noteq> ?f \<longrightarrow> pt_get t1 q j = pt_get t q j"
      using I by (auto simp: I_def elim: dealloc_entry)
    have nin: "pt \<notin> set (ds (Suc k))"
      using \<open>table_frames s pt = _\<close> dist by auto
    have "allocated base (?f # rev (ds k) @ fs) t1 pt"
      using pt nin I t1(3) by (auto simp: I_def allocated_def dsS)
    then have "phys_ok base (?f # rev (ds k) @ fs) (pt_set pt k 0 t1)" using t1(2) k by (intro pt_set_ok)
    then have "I (Suc k) (pt_set pt k 0 t1)"
      using I t1 f k ptal by (auto simp: I_def dsS pt_get_set)
    then show ?thesis using True eq t1(1) by simp
  qed
  have "I 0 s" using ok by (simp add: I_def ds_def)
  then have "\<exists>s'. free_table pt s = Some s' \<and> I (0 + 1024) s'"
    unfolding free_table_def by (rule for_loop_total) (rule step; simp)
  then obtain s' where "free_table pt s = Some s'" "I 1024 s'" by auto
  then show ?thesis by (auto simp: I_def full)
qed

lemma free_pde_ok:
  assumes ok: "phys_ok base fs s" and pd: "allocated base fs s pd" and i: "i < 1024"
    and dist: "distinct (pd # pde_frames s pd i)" and al: "\<forall>f \<in> set (pde_frames s pd i). allocated base fs s f"
  shows "\<exists>s'. free_pde pd i s = Some s' \<and> phys_ok base (rev (pde_frames s pd i) @ fs) s' \<and>
     avail s' = avail s \<and> limit s' = limit s \<and>
     (\<forall>q j. page_aligned q \<longrightarrow> j < 1024 \<longrightarrow> q \<notin> set (pde_frames s pd i) \<longrightarrow>
        pt_get s' q j = (if q = pd \<and> j = i \<and> present (pt_get s pd i) then 0 else pt_get s q j))"
proof (cases "present (pt_get s pd i)")
  case False
  then show ?thesis using ok by (simp add: free_pde_def pde_frames_def)
next
  case True
  let ?pt = "frame_of (pt_get s pd i)"
  have fr: "pde_frames s pd i = table_frames s ?pt @ [?pt]" using True by (simp add: pde_frames_def)
  have pdal: "page_aligned pd" using pd by (simp add: allocated_def)
  obtain s1 where s1: "free_table ?pt s = Some s1" "phys_ok base (rev (table_frames s ?pt) @ fs) s1"
      "avail s1 = avail s" "limit s1 = limit s"
      "\<forall>q j. page_aligned q \<longrightarrow> j < 1024 \<longrightarrow> q \<notin> set (table_frames s ?pt @ [?pt]) \<longrightarrow> pt_get s1 q j = pt_get s q j"
    using free_table_ok [OF ok, of ?pt] dist al unfolding fr by auto
  have "allocated base (rev (table_frames s ?pt) @ fs) s1 ?pt"
    using al dist s1(3) unfolding fr by (simp add: allocated_append [of s1 s])
  then obtain s2 where s2: "dealloc_frame ?pt s1 = Some s2" "phys_ok base (?pt # rev (table_frames s ?pt) @ fs) s2"
      "avail s2 = avail s1" "limit s2 = limit s1"
      "\<forall>q j. page_aligned q \<longrightarrow> j < 1024 \<longrightarrow> q \<noteq> ?pt \<longrightarrow> pt_get s2 q j = pt_get s1 q j"
    using s1(2) by (auto elim: dealloc_entry)
  have "allocated base (?pt # rev (table_frames s ?pt) @ fs) s2 pd"
    using pd dist s1(3) s2(3) unfolding fr by (auto simp: allocated_def)
  then have "phys_ok base (rev (pde_frames s pd i) @ fs) (pt_set pd i 0 s2)"
    using s2(2) i unfolding fr by (simp add: pt_set_ok)
  moreover have "free_pde pd i s = Some (pt_set pd i 0 s2)"
    using True s1(1) s2(1) by (simp add: free_pde_def Let_def)
  ultimately show ?thesis
    using True s1 s2 i pdal unfolding fr by (auto simp: pt_get_set)
qed

lemma pde_frames_cong:
  assumes "pt_get t pd i = pt_get s pd i"
    and "present (pt_get s pd i) \<Longrightarrow> \<forall>j < 1024. pt_get t (frame_of (pt_get s pd i)) j = pt_get s (frame_of (pt_get s pd i)) j"
  shows "pde_frames t pd i = pde_frames s pd i"
proof (cases "present (pt_get s pd i)")
  case True
  then have "table_frames t (frame_of (pt_get s pd i)) = table_frames s (frame_of (pt_get s pd i))"
    using assms(2) unfolding table_frames_def by (intro map_cong filter_cong refl) auto
  then show ?thesis using True assms(1) by (simp add: pde_frames_def)
qed (simp add: assms(1) pde_frames_def)

lemma pde_frames_table: "present (pt_get s pd i) \<Longrightarrow> frame_of (pt_get s pd i) \<in> set (pde_frames s pd i)"
  by (simp add: pde_frames_def)

lemma VMM_free_ok:
  assumes ok: "phys_ok base fs s" and us: "user_space_ok base fs s pd"
  shows "\<exists>s'. VMM_free pd s = Some s' \<and> phys_ok base (rev (user_frames s pd) @ fs) s' \<and>
     avail s' = avail s \<and> limit s' = limit s \<and>
     (\<forall>q j. page_aligned q \<longrightarrow> j < 1024 \<longrightarrow> q \<notin> set (user_frames s pd) \<longrightarrow>
        pt_get s' q j = (if q = pd \<and> 512 \<le> j \<and> j < 960 \<and> present (pt_get s pd j) then 0 else pt_get s q j))"
proof -
  define ds where "ds k = concat (map (pde_frames s pd) [512..<k])" for k
  have full: "ds 960 = user_frames s pd" by (simp add: ds_def user_frames_def)
  have pd: "allocated base fs s pd" "page_aligned pd" "distinct (pd # ds 960)" "\<forall>f \<in> set (ds 960). allocated base fs s f"
    using us by (auto simp: user_space_ok_def full allocated_def)
  define I where "I k t \<longleftrightarrow> phys_ok base (rev (ds k) @ fs) t \<and> avail t = avail s \<and> limit t = limit s \<and>
     (\<forall>q j. page_aligned q \<longrightarrow> j < 1024 \<longrightarrow> q \<notin> set (ds k) \<longrightarrow>
        pt_get t q j = (if q = pd \<and> 512 \<le> j \<and> j < k \<and> present (pt_get s pd j) then 0 else pt_get s q j))" for k t
  have step: "\<exists>t'. free_pde pd k t = Some t' \<and> I (Suc k) t'" if k: "512 \<le> k" "k < 960" and I: "I k t" for k t
  proof -
    have dsS: "ds (Suc k) = ds k @ pde_frames s pd k" using k by (simp add: ds_def)
    have "ds 960 = ds (Suc k) @ concat (map (pde_frames s pd) [Suc k..<960])"
      unfolding ds_def using k upt_split [of 512 "Suc k" 960]
      by (simp only: Suc_leI map_append concat_append le_SucI)
    then have d: "distinct (pd # ds k @ pde_frames s pd k)" "\<forall>f \<in> set (pde_frames s pd k). allocated base fs s f"
      using pd dsS by auto
    have pdt: "pd \<notin> set (ds k)" and eq: "pt_get t pd k = pt_get s pd k"
      using d I k pd(2) by (auto simp: I_def)
    have frames: "pde_frames t pd k = pde_frames s pd k"
    proof (rule pde_frames_cong [OF eq])
      assume pr: "present (pt_get s pd k)"
      then have "frame_of (pt_get s pd k) \<notin> set (ds k)" "frame_of (pt_get s pd k) \<noteq> pd"
        using pde_frames_table [OF pr] d(1) by auto
      then show "\<forall>j < 1024. pt_get t (frame_of (pt_get s pd k)) j = pt_get s (frame_of (pt_get s pd k)) j"
        using I by (simp add: I_def)
    qed
    have alt: "allocated base (rev (ds k) @ fs) t q \<longleftrightarrow> allocated base fs s q \<and> q \<notin> set (ds k)" for q
      using I by (simp add: I_def allocated_append [of t s])
    have "\<exists>t'. free_pde pd k t = Some t' \<and> phys_ok base (rev (pde_frames t pd k) @ rev (ds k) @ fs) t' \<and>
       avail t' = avail t \<and> limit t' = limit t \<and>
       (\<forall>q j. page_aligned q \<longrightarrow> j < 1024 \<longrightarrow> q \<notin> set (pde_frames t pd k) \<longrightarrow>
         pt_get t' q j = (if q = pd \<and> j = k \<and> present (pt_get t pd k) then 0 else pt_get t q j))"
      using I k d pd(1) alt pdt by (intro free_pde_ok) (auto simp: frames I_def)
    then show ?thesis
      using I k dsS by (auto simp: I_def frames eq less_Suc_eq)
  qed
  have "I 512 s" using ok by (auto simp: I_def ds_def)
  then have "\<exists>s'. for_loop 512 448 (free_pde pd) s = Some s' \<and> I (512 + 448) s'"
    by (rule for_loop_total) (rule step; simp)
  then obtain s' where "VMM_free pd s = Some s'" "I 960 s'" by (auto simp: VMM_free_def)
  then show ?thesis by (auto simp: I_def full)
qed

section \<open>The boot address space\<close>

definition kernel_entry :: "nat \<Rightarrow> nat \<Rightarrow> u32" where
  "kernel_entry i j = push_bit 22 (of_nat i) OR push_bit 12 (of_nat j) OR 0x103"

text \<open>What \<^verbatim>\<open>global_init\<close> leaves in memory: 35 different frames with the shared, APIC and kernel tables.\<close>

definition kernel_tables_ok :: "u32 \<Rightarrow> ptr list \<Rightarrow> config \<Rightarrow> vm \<Rightarrow> bool" where
  "kernel_tables_ok base fs cfg v \<longleftrightarrow>
     length (kernel_pt v) = 32 \<and> distinct (shared_pt v # the_shared_frame v # apic_pt v # kernel_pt v) \<and>
     (\<forall>p \<in> set (shared_pt v # the_shared_frame v # apic_pt v # kernel_pt v). allocated base fs (pm v) p) \<and>
     (\<forall>i < 32. \<forall>j < 1024. pt_get (pm v) (kernel_pt v ! i) j = (if i = 0 \<and> j = 0 then 0 else kernel_entry i j)) \<and>
     (\<forall>j < 1024. pt_get (pm v) (shared_pt v) j = (if j = 0 then the_shared_frame v OR 0x107 else 0)) \<and>
     (\<forall>j < 1024. pt_get (pm v) (apic_pt v) j =
        (if j = pti_of (ioAPIC cfg) then ioAPIC cfg OR 0x113
         else if j = pti_of (localAPIC cfg) then localAPIC cfg OR 0x113 else 0))"

text \<open>
  The address space the README describes, before a process has pages of its own: memory but page 0 and
  the two APIC pages map to themselves for the supervisor only, one frame is shared with user code at
  0xF0000000, nothing else is mapped.
\<close>

definition readme_map :: "config \<Rightarrow> u32 \<Rightarrow> u32 \<Rightarrow> xlate option" where
  "readme_map cfg sf va =
     (if 0x1000 \<le> va \<and> va < memSize cfg \<or> va AND 0xFFFFF000 = ioAPIC cfg \<or> va AND 0xFFFFF000 = localAPIC cfg
      then Some \<lparr>x_frame = va AND 0xFFFFF000, x_user = False, x_write = True\<rparr>
      else if va AND 0xFFFFF000 = 0xF0000000 then Some \<lparr>x_frame = sf, x_user = True, x_write = True\<rparr>
      else None)"

text \<open>
  The translation the tables of the code give.  It maps 128 MB whatever the size of the memory, and it
  enters the page of the local APIC into the table of the I/O APIC, which is its place only when the two
  lie in the same 4 MB.
\<close>

definition boot_map :: "config \<Rightarrow> u32 \<Rightarrow> u32 \<Rightarrow> xlate option" where
  "boot_map cfg sf va =
     (if va < 0x08000000 then
        if va < 0x1000 then None else Some \<lparr>x_frame = va AND 0xFFFFF000, x_user = False, x_write = True\<rparr>
      else if pdi_of va = pdi_of (ioAPIC cfg) \<and> pti_of va = pti_of (ioAPIC cfg)
      then Some \<lparr>x_frame = frame_of (ioAPIC cfg), x_user = False, x_write = True\<rparr>
      else if pdi_of va = pdi_of (ioAPIC cfg) \<and> pti_of va = pti_of (localAPIC cfg)
      then Some \<lparr>x_frame = frame_of (localAPIC cfg), x_user = False, x_write = True\<rparr>
      else if va AND 0xFFFFF000 = 0xF0000000 then Some \<lparr>x_frame = sf, x_user = True, x_write = True\<rparr>
      else None)"

lemma split_at_bits:
  "push_bit (b + c) (drop_bit (b + c) va) OR push_bit b (drop_bit b va AND mask c) = va AND NOT (mask b)" for va :: u32
proof (rule bit_word_eqI)
  fix n :: nat
  show "bit (push_bit (b + c) (drop_bit (b + c) va) OR push_bit b (drop_bit b va AND mask c)) n =
      bit (va AND NOT (mask b)) n" if "n < LENGTH(32)"
    using that by (cases "b + c \<le> n") (auto simp: bit_simps)
qed

lemma kernel_entry_va:
  "kernel_entry (pdi_of va) (pti_of va) = (va AND 0xFFFFF000) OR 0x103"
proof -
  have m: "NOT (mask 12) = (0xFFFFF000 :: u32)" by code_simp
  show ?thesis
    using split_at_bits [of 12 10 va, unfolded m]
    by (simp add: kernel_entry_def pdi_of_def pti_of_def mask_eq_exp_minus_1 flip: or.assoc)
qed

lemma kernel_table_ok:
  assumes ok: "phys_ok base fs s" and p: "allocated base fs s p"
  shows "\<exists>s'. kernel_table i p s = Some s' \<and> phys_ok base fs s' \<and> avail s' = avail s \<and> limit s' = limit s \<and>
     (\<forall>q j. page_aligned q \<longrightarrow> j < 1024 \<longrightarrow>
        pt_get s' q j = (if q = p \<and> \<not> (i = 0 \<and> j = 0) then kernel_entry i j else pt_get s q j))"
proof -
  define I where "I k t \<longleftrightarrow> phys_ok base fs t \<and> avail t = avail s \<and> limit t = limit s \<and>
     (\<forall>q j. page_aligned q \<longrightarrow> j < 1024 \<longrightarrow>
        pt_get t q j = (if q = p \<and> j < k \<and> \<not> (i = 0 \<and> j = 0) then kernel_entry i j else pt_get s q j))" for k t
  have pa: "page_aligned p" using p by (simp add: allocated_def)
  have "I 0 s" using ok by (auto simp: I_def)
  then have "\<exists>t. kernel_table i p s = Some t \<and> I (0 + 1024) t"
    unfolding kernel_table_def
  proof (rule for_loop_total)
    fix k t assume k: "0 \<le> k" "k < 0 + 1024" and t: "I k t"
    have "allocated base fs t p" using t p by (auto simp: I_def allocated_def)
    then have "phys_ok base fs (pt_set p k v t)" for v using t k by (auto simp: I_def intro: pt_set_ok)
    then show "\<exists>t'. Some (if i = 0 \<and> k = 0 then t
        else pt_set p k (push_bit 22 (of_nat i) OR push_bit 12 (of_nat k) OR 0x103) t) = Some t' \<and> I (Suc k) t'"
      using t k pa by (auto simp: I_def pt_get_set less_Suc_eq simp flip: kernel_entry_def)
  qed
  then show ?thesis by (auto simp: I_def)
qed

lemma allocated_same: "avail t = avail s \<Longrightarrow> allocated base fs t = allocated base fs s"
  by (simp add: allocated_def fun_eq_iff)

lemma frames_left_same: "avail t = avail s \<Longrightarrow> limit t = limit s \<Longrightarrow> frames_left fs t = frames_left fs s"
  by (simp add: frames_left_def)

text \<open>The loop of \<^verbatim>\<open>global_init\<close>: after \<open>k\<close> rounds the first \<open>k\<close> kernel tables are built.\<close>

definition kpt_inv :: "u32 \<Rightarrow> ptr list \<Rightarrow> phys \<Rightarrow> nat \<Rightarrow> u32 list \<times> phys \<Rightarrow> bool" where
  "kpt_inv base fs s k = (\<lambda>(kpts, t). length kpts = 32 \<and> (\<exists>fs'. phys_ok base fs' t \<and>
     frames_left fs' t + k = frames_left fs s \<and> distinct (take k kpts) \<and>
     (\<forall>p \<in> set (take k kpts). page_aligned p \<and> \<not> allocated base fs s p) \<and>
     (\<forall>q. allocated base fs' t q \<longleftrightarrow> allocated base fs s q \<or> q \<in> set (take k kpts)) \<and>
     (\<forall>i < k. \<forall>j < 1024. pt_get t (kpts ! i) j = (if i = 0 \<and> j = 0 then 0 else kernel_entry i j)) \<and>
     (\<forall>q j. allocated base fs s q \<longrightarrow> j < 1024 \<longrightarrow> pt_get t q j = pt_get s q j)))"

lemma kpt_step:
  assumes inv: "kpt_inv base fs s k (kpts, t)" and k: "k < 32" and room: "32 \<le> frames_left fs s"
  shows "\<exists>r. (do { (p, s') \<leftarrow> alloc_frame t; s'' \<leftarrow> kernel_table k p s'; Some (kpts[k := p], s'') }) = Some r \<and>
     kpt_inv base fs s (Suc k) r"
proof -
  from inv obtain fs1 where 1: "length kpts = 32" "phys_ok base fs1 t" "frames_left fs1 t + k = frames_left fs s"
      "distinct (take k kpts)" "\<forall>p \<in> set (take k kpts). page_aligned p \<and> \<not> allocated base fs s p"
      "\<forall>q. allocated base fs1 t q \<longleftrightarrow> allocated base fs s q \<or> q \<in> set (take k kpts)"
      "\<forall>i < k. \<forall>j < 1024. pt_get t (kpts ! i) j = (if i = 0 \<and> j = 0 then 0 else kernel_entry i j)"
      "\<forall>q j. allocated base fs s q \<longrightarrow> j < 1024 \<longrightarrow> pt_get t q j = pt_get s q j"
    by (auto simp: kpt_inv_def)
  have "0 < frames_left fs1 t" using 1(3) k room by simp
  then obtain p t1 fs2 where p: "alloc_frame t = Some (p, t1)" "phys_ok base fs2 t1" "page_aligned p"
      "\<not> allocated base fs1 t p" "\<forall>q. allocated base fs2 t1 q \<longleftrightarrow> allocated base fs1 t q \<or> q = p"
      "Suc (frames_left fs2 t1) = frames_left fs1 t"
      "\<forall>q j. page_aligned q \<longrightarrow> j < 1024 \<longrightarrow> pt_get t1 q j = (if q = p then 0 else pt_get t q j)"
    by (rule alloc_entry [OF 1(2)])
  obtain t2 where t2: "kernel_table k p t1 = Some t2" "phys_ok base fs2 t2" "avail t2 = avail t1" "limit t2 = limit t1"
      "\<forall>q j. page_aligned q \<longrightarrow> j < 1024 \<longrightarrow>
        pt_get t2 q j = (if q = p \<and> \<not> (k = 0 \<and> j = 0) then kernel_entry k j else pt_get t1 q j)"
    using kernel_table_ok [OF p(2), of p k] p(5) by auto
  have tk: "take (Suc k) (kpts[k := p]) = take k kpts @ [p]"
    using k 1(1) by (simp add: take_Suc_conv_app_nth)
  have new: "p \<notin> set (take k kpts)" "\<not> allocated base fs s p" using p(4) 1(6) by auto
  have tabs: "pt_get t2 (kpts[k := p] ! i) j = (if i = 0 \<and> j = 0 then 0 else kernel_entry i j)"
    if "i < Suc k" "j < 1024" for i j
  proof (cases "i = k")
    case True
    then show ?thesis using that k 1(1) p(3,7) t2(5) by simp
  next
    case False
    then have "i < k" using that(1) by simp
    then have "kpts ! i \<in> set (take k kpts)" using k 1(1) by (auto simp: in_set_conv_nth intro!: exI [of _ i])
    then show ?thesis using that \<open>i < k\<close> 1(5,7) new(1) p(7) t2(5) by auto
  qed
  have frame: "pt_get t2 q j = pt_get s q j" if "allocated base fs s q" "j < 1024" for q j
    using that 1(8) p(7) t2(5) new(2) by (auto simp: allocated_def)
  have "kpt_inv base fs s (Suc k) (kpts[k := p], t2)"
    unfolding kpt_inv_def using 1 p t2 new tabs frame
    by (auto simp: tk frames_left_same [of t2 t1] allocated_same [of t2 t1] intro!: exI [of _ fs2])
  then show ?thesis using p(1) t2(1) by auto
qed

lemma global_init_ok:
  assumes ok: "phys_ok base fs (pm v)" and room: "35 \<le> frames_left fs (pm v)" and len: "length (kernel_pt v) = 32"
  shows "\<exists>v' fs'. global_init cfg v = Some v' \<and> phys_ok base fs' (pm v') \<and> kernel_tables_ok base fs' cfg v' \<and>
     frames_left fs' (pm v') + 35 = frames_left fs (pm v)"
proof -
  have "0 < frames_left fs (pm v)" using room by simp
  then obtain spt s1 fs1 where 1: "alloc_frame (pm v) = Some (spt, s1)" "phys_ok base fs1 s1" "page_aligned spt"
      "\<forall>q. allocated base fs1 s1 q \<longleftrightarrow> allocated base fs (pm v) q \<or> q = spt"
      "Suc (frames_left fs1 s1) = frames_left fs (pm v)"
      "\<forall>q j. page_aligned q \<longrightarrow> j < 1024 \<longrightarrow> pt_get s1 q j = (if q = spt then 0 else pt_get (pm v) q j)"
    by (rule alloc_entry [OF ok])
  have "0 < frames_left fs1 s1" using room 1(5) by simp
  then obtain sf s2 fs2 where 2: "alloc_frame s1 = Some (sf, s2)" "phys_ok base fs2 s2" "page_aligned sf"
      "\<not> allocated base fs1 s1 sf" "\<forall>q. allocated base fs2 s2 q \<longleftrightarrow> allocated base fs1 s1 q \<or> q = sf"
      "Suc (frames_left fs2 s2) = frames_left fs1 s1"
      "\<forall>q j. page_aligned q \<longrightarrow> j < 1024 \<longrightarrow> pt_get s2 q j = (if q = sf then 0 else pt_get s1 q j)"
    by (rule alloc_entry [OF 1(2)])
  define s3 where "s3 = pt_set spt 0 (sf OR 0x107) s2"
  have ok3: "phys_ok base fs2 s3" unfolding s3_def using 2(2,5) 1(4) by (intro pt_set_ok) auto
  have "0 < frames_left fs2 s3" using room 1(5) 2(6) by (simp add: s3_def)
  then obtain apt s4 fs4 where 4: "alloc_frame s3 = Some (apt, s4)" "phys_ok base fs4 s4" "page_aligned apt"
      "\<not> allocated base fs2 s3 apt" "\<forall>q. allocated base fs4 s4 q \<longleftrightarrow> allocated base fs2 s3 q \<or> q = apt"
      "Suc (frames_left fs4 s4) = frames_left fs2 s3"
      "\<forall>q j. page_aligned q \<longrightarrow> j < 1024 \<longrightarrow> pt_get s4 q j = (if q = apt then 0 else pt_get s3 q j)"
    by (rule alloc_entry [OF ok3])
  define s6 where "s6 = pt_set apt (pti_of (ioAPIC cfg)) (ioAPIC cfg OR 0x113)
      (pt_set apt (pti_of (localAPIC cfg)) (localAPIC cfg OR 0x113) s4)"
  have ok6: "phys_ok base fs4 s6" unfolding s6_def using 4(2,5) by (intro pt_set_ok) auto
  have neq: "sf \<noteq> spt" "apt \<noteq> spt" "apt \<noteq> sf" using 1(4) 2(4,5) 4(4) by (auto simp: s3_def)
  have left: "frames_left fs4 s6 + 3 = frames_left fs (pm v)" using 1(5) 2(6) 4(6) by (simp add: s3_def s6_def)
  have al: "allocated base fs4 s6 q" if "q \<in> {spt, sf, apt}" for q
    using that 1(4) 2(5) 4(5) by (auto simp: s3_def s6_def)
  have c1: "pt_get s6 spt j = (if j = 0 then sf OR 0x107 else 0)" if "j < 1024" for j
    using that neq 1(3,6) 2(3,7) 4(3,7) by (auto simp: s3_def s6_def pt_get_set)
  have c2: "pt_get s6 apt j = (if j = pti_of (ioAPIC cfg) then ioAPIC cfg OR 0x113
       else if j = pti_of (localAPIC cfg) then localAPIC cfg OR 0x113 else 0)" if "j < 1024" for j
    using that neq 4(3,7) by (auto simp: s6_def pt_get_set)
  let ?f = "\<lambda>i (kpts, s). do { (p, s') \<leftarrow> alloc_frame s; s'' \<leftarrow> kernel_table i p s'; Some (kpts[i := p], s'') }"
  have "kpt_inv base fs4 s6 0 (kernel_pt v, s6)" using ok6 len by (auto simp: kpt_inv_def)
  then have "\<exists>r. for_loop 0 32 ?f (kernel_pt v, s6) = Some r \<and> kpt_inv base fs4 s6 (0 + 32) r"
  proof (rule for_loop_total)
    fix k t assume "kpt_inv base fs4 s6 k t" "k < 0 + 32"
    then show "\<exists>t'. ?f k t = Some t' \<and> kpt_inv base fs4 s6 (Suc k) t'"
      using kpt_step [of base fs4 s6 k "fst t" "snd t"] left room by (cases t) simp
  qed
  then obtain kpts s7 fs7 where 7: "for_loop 0 32 ?f (kernel_pt v, s6) = Some (kpts, s7)" "length kpts = 32"
      "phys_ok base fs7 s7" "frames_left fs7 s7 + 32 = frames_left fs4 s6" "distinct kpts"
      "\<forall>p \<in> set kpts. page_aligned p \<and> \<not> allocated base fs4 s6 p"
      "\<forall>q. allocated base fs7 s7 q \<longleftrightarrow> allocated base fs4 s6 q \<or> q \<in> set kpts"
      "\<forall>i < 32. \<forall>j < 1024. pt_get s7 (kpts ! i) j = (if i = 0 \<and> j = 0 then 0 else kernel_entry i j)"
      "\<forall>q j. allocated base fs4 s6 q \<longrightarrow> j < 1024 \<longrightarrow> pt_get s7 q j = pt_get s6 q j"
    by (auto simp: kpt_inv_def)
  let ?v = "v\<lparr>pm := s7, shared_pt := spt, the_shared_frame := sf, apic_pt := apt, kernel_pt := kpts\<rparr>"
  have "global_init cfg v = Some ?v"
    using 1(1) 2(1) 4(1) 7(1) by (simp add: global_init_def Let_def s3_def s6_def)
  moreover have "kernel_tables_ok base fs7 cfg ?v"
    unfolding kernel_tables_ok_def using 7 al neq c1 c2 by auto
  ultimately show ?thesis using 7(3,4) left by (intro exI [of _ ?v] exI [of _ fs7]) simp
qed

lemma entry_103 [simp]: "page_aligned p \<Longrightarrow> present (p OR 0x103)" "page_aligned p \<Longrightarrow> frame_of (p OR 0x103) = p"
    "page_aligned p \<Longrightarrow> (p OR 0x103) AND 4 = 0" "page_aligned p \<Longrightarrow> (p OR 0x103) AND 2 = 2"
  by (simp_all add: present_entry entry_frame entry_flags)

lemma entry_113 [simp]: "page_aligned p \<Longrightarrow> present (p OR 0x113)" "page_aligned p \<Longrightarrow> frame_of (p OR 0x113) = p"
    "page_aligned p \<Longrightarrow> (p OR 0x113) AND 4 = 0" "page_aligned p \<Longrightarrow> (p OR 0x113) AND 2 = 2"
  by (simp_all add: present_entry entry_frame entry_flags)

lemma entry_3 [simp]: "page_aligned p \<Longrightarrow> present (p OR 3)" "page_aligned p \<Longrightarrow> frame_of (p OR 3) = p"
    "page_aligned p \<Longrightarrow> (p OR 3) AND 4 = 0" "page_aligned p \<Longrightarrow> (p OR 3) AND 2 = 2"
  by (simp_all add: present_entry entry_frame entry_flags)

lemma entry_13 [simp]: "page_aligned p \<Longrightarrow> present (p OR 0x13)" "page_aligned p \<Longrightarrow> frame_of (p OR 0x13) = p"
    "page_aligned p \<Longrightarrow> (p OR 0x13) AND 4 = 0" "page_aligned p \<Longrightarrow> (p OR 0x13) AND 2 = 2"
  by (simp_all add: present_entry entry_frame entry_flags)

text \<open>The directory \<^verbatim>\<open>per_core_init\<close> builds.\<close>

definition boot_pde :: "config \<Rightarrow> vm \<Rightarrow> nat \<Rightarrow> u32" where
  "boot_pde cfg v i =
     (if i = 960 then shared_pt v OR 7 else if i = pdi_of (ioAPIC cfg) then apic_pt v OR 0x13
      else if i < 32 then kernel_pt v ! i OR 3 else 0)"

lemma kernel_tables_ok_frame:
  assumes kt: "kernel_tables_ok base fs cfg v"
    and fields: "kernel_pt v' = kernel_pt v" "shared_pt v' = shared_pt v" "apic_pt v' = apic_pt v"
      "the_shared_frame v' = the_shared_frame v"
    and al: "\<And>q. allocated base fs (pm v) q \<Longrightarrow> allocated base fs' (pm v') q"
    and get: "\<And>q j. allocated base fs (pm v) q \<Longrightarrow> j < 1024 \<Longrightarrow> pt_get (pm v') q j = pt_get (pm v) q j"
  shows "kernel_tables_ok base fs' cfg v'"
proof -
  have a: "\<forall>p \<in> set (shared_pt v # the_shared_frame v # apic_pt v # kernel_pt v). allocated base fs (pm v) p"
    using kt by (simp add: kernel_tables_ok_def)
  moreover have "length (kernel_pt v) = 32" using kt by (simp add: kernel_tables_ok_def)
  ultimately have "pt_get (pm v') (kernel_pt v ! i) j = pt_get (pm v) (kernel_pt v ! i) j"
      "pt_get (pm v') (shared_pt v) j = pt_get (pm v) (shared_pt v) j"
      "pt_get (pm v') (apic_pt v) j = pt_get (pm v) (apic_pt v) j" if "i < 32" "j < 1024" for i j
    using that get by auto
  note this(1) this(2,3) [of 0]
  then show ?thesis using kt a al unfolding kernel_tables_ok_def fields by simp
qed

lemma per_core_init_ok:
  assumes ok: "phys_ok base fs (pm v)" and room: "0 < frames_left fs (pm v)" and kt: "kernel_tables_ok base fs cfg v"
  shows "\<exists>v' fs'. per_core_init cfg v = Some v' \<and> phys_ok base fs' (pm v') \<and> kernel_tables_ok base fs' cfg v' \<and>
     Suc (frames_left fs' (pm v')) = frames_left fs (pm v) \<and> cr3 v' = page_directory v' \<and>
     \<not> allocated base fs (pm v) (page_directory v') \<and> allocated base fs' (pm v') (page_directory v') \<and>
     the_shared_frame v' = the_shared_frame v \<and>
     (\<forall>j < 1024. pt_get (pm v') (page_directory v') j = boot_pde cfg v' j)"
proof -
  obtain pd s1 fs1 where 1: "alloc_frame (pm v) = Some (pd, s1)" "phys_ok base fs1 s1" "page_aligned pd"
      "\<not> allocated base fs (pm v) pd" "\<forall>q. allocated base fs1 s1 q \<longleftrightarrow> allocated base fs (pm v) q \<or> q = pd"
      "Suc (frames_left fs1 s1) = frames_left fs (pm v)"
      "\<forall>q j. page_aligned q \<longrightarrow> j < 1024 \<longrightarrow> pt_get s1 q j = (if q = pd then 0 else pt_get (pm v) q j)"
    by (rule alloc_entry [OF ok room])
  define I where "I k t \<longleftrightarrow> phys_ok base fs1 t \<and> avail t = avail s1 \<and> limit t = limit s1 \<and>
     (\<forall>q j. page_aligned q \<longrightarrow> j < 1024 \<longrightarrow>
        pt_get t q j = (if q = pd \<and> j < k then kernel_pt v ! j OR 3 else pt_get s1 q j))" for k t
  let ?f = "\<lambda>i s. Some (pt_set pd i (kernel_pt v ! i OR 0x3) s)"
  have "I 0 s1" using 1(2) by (auto simp: I_def)
  then have "\<exists>t. for_loop 0 32 ?f s1 = Some t \<and> I (0 + 32) t"
  proof (rule for_loop_total)
    fix k t assume k: "0 \<le> k" "k < 0 + 32" and t: "I k t"
    have "allocated base fs1 t pd" using t 1(5) by (auto simp: I_def allocated_def)
    then have "phys_ok base fs1 (pt_set pd k e t)" for e using t k by (auto simp: I_def intro: pt_set_ok)
    then show "\<exists>t'. ?f k t = Some t' \<and> I (Suc k) t'"
      using t k 1(3) by (auto simp: I_def pt_get_set less_Suc_eq)
  qed
  then obtain s2 where s2: "for_loop 0 32 ?f s1 = Some s2" "I 32 s2" by auto
  have av: "avail s2 = avail s1" "limit s2 = limit s1" "phys_ok base fs1 s2" using s2(2) unfolding I_def by blast+
  note al2 = allocated_same [OF av(1), of base fs1]
  define s4 where "s4 = pt_set pd (pdi_of 0xF0000000) (shared_pt v OR 0x7)
      (pt_set pd (pdi_of (ioAPIC cfg)) (apic_pt v OR 0x13) s2)"
  let ?v = "v\<lparr>pm := s4, page_directory := pd, cr3 := pd\<rparr>"
  have run: "per_core_init cfg v = Some ?v" using 1(1) s2(1) by (simp add: per_core_init_def Let_def s4_def)
  have ok4: "phys_ok base fs1 s4"
    unfolding s4_def using av(3) al2 1(5) by (intro pt_set_ok) auto
  have al4: "allocated base fs1 s4 = allocated base fs1 s1" by (simp add: s4_def al2)
  have old: "pt_get s4 q j = pt_get (pm v) q j" if "allocated base fs (pm v) q" "j < 1024" for q j
    using that 1(3,4,7) s2(2) by (auto simp: s4_def pt_get_set I_def allocated_def)
  have pdes: "pt_get s4 pd j = boot_pde cfg ?v j" if "j < 1024" for j
    using that 1(3,7) s2(2) by (auto simp: s4_def pt_get_set I_def boot_pde_def)
  have "kernel_tables_ok base fs1 cfg ?v"
    by (rule kernel_tables_ok_frame [OF kt]) (use old al4 1(5) in auto)
  moreover have "frames_left fs1 s4 = frames_left fs1 s1" using av by (intro frames_left_same) (simp_all add: s4_def)
  ultimately show ?thesis
    using run ok4 pdes 1(4,5,6) al4 by (intro exI [of _ ?v] exI [of _ fs1]) auto
qed

lemma per_core_init_fields:
  "per_core_init cfg v = Some v' \<Longrightarrow> kernel_pt v' = kernel_pt v \<and> shared_pt v' = shared_pt v \<and>
     apic_pt v' = apic_pt v \<and> the_shared_frame v' = the_shared_frame v"
  by (auto simp: per_core_init_def Let_def split: Option.bind_splits)

lemma va_low_iff: "va < 0x08000000 \<longleftrightarrow> pdi_of va < 32"
  by (simp add: word_less_unat pdi_of_div div_less_iff_less_mult)

lemma va_page0_iff: "va < 0x1000 \<longleftrightarrow> pdi_of va = 0 \<and> pti_of va = 0"
proof -
  have "pdi_of va = 0 \<and> pti_of va = 0 \<longleftrightarrow> va AND 0xFFFFF000 = 0"
    using same_page_iff [of va 0] by (simp add: pdi_of_div pti_of_div)
  also have "\<dots> \<longleftrightarrow> unat va div 4096 * 4096 = 0"
    by (metis unat_page_base unat_eq_zero unat_0)
  finally show ?thesis by (auto simp: word_less_unat div_eq_0_iff)
qed

lemma va_shared_iff: "va AND 0xFFFFF000 = 0xF0000000 \<longleftrightarrow> pdi_of va = 960 \<and> pti_of va = 0"
  using same_page_iff [of va "0xF0000000"] by (simp add: pti_of_div)

lemma boot_walk:
  assumes kt: "kernel_tables_ok base fs cfg v" and pd: "page_aligned pd"
    and pdes: "\<forall>j < 1024. pt_get (pm v) pd j = boot_pde cfg v j"
    and io: "page_aligned (ioAPIC cfg)" "page_aligned (localAPIC cfg)" "32 \<le> pdi_of (ioAPIC cfg)" "pdi_of (ioAPIC cfg) \<noteq> 960"
  shows "mmu_walk (mem (pm v)) pd va = boot_map cfg (the_shared_frame v) va"
proof -
  have al: "page_aligned (shared_pt v)" "page_aligned (the_shared_frame v)" "page_aligned (apic_pt v)"
      "i < 32 \<Longrightarrow> page_aligned (kernel_pt v ! i)" for i
    using kt by (auto simp: kernel_tables_ok_def allocated_def)
  have get: "i < 32 \<Longrightarrow> j < 1024 \<Longrightarrow> pt_get (pm v) (kernel_pt v ! i) j = (if i = 0 \<and> j = 0 then 0 else kernel_entry i j)"
    "j < 1024 \<Longrightarrow> pt_get (pm v) (shared_pt v) j = (if j = 0 then the_shared_frame v OR 0x107 else 0)"
    "j < 1024 \<Longrightarrow> pt_get (pm v) (apic_pt v) j = (if j = pti_of (ioAPIC cfg) then ioAPIC cfg OR 0x113
         else if j = pti_of (localAPIC cfg) then localAPIC cfg OR 0x113 else 0)" for i j
    using kt by (auto simp: kernel_tables_ok_def)
  consider "pdi_of va < 32" | "pdi_of va = pdi_of (ioAPIC cfg)" | "pdi_of va = 960"
    | "\<not> pdi_of va < 32" "pdi_of va \<noteq> pdi_of (ioAPIC cfg)" "pdi_of va \<noteq> 960" by blast
  then show ?thesis
  proof cases
    case 1
    then have "boot_pde cfg v (pdi_of va) = kernel_pt v ! pdi_of va OR 3" using io by (simp add: boot_pde_def)
    then show ?thesis
      using 1 al pdes get by (simp add: mmu_walk_pt_get [OF pd] boot_map_def va_low_iff va_page0_iff Let_def kernel_entry_va)
  next
    case 2
    then show ?thesis
      using io al pdes get va_shared_iff [of va]
      by (simp add: mmu_walk_pt_get [OF pd] boot_map_def va_low_iff Let_def boot_pde_def frame_of_self)
  next
    case 3
    then show ?thesis
      using io al pdes get va_shared_iff [of va]
      by (simp add: mmu_walk_pt_get [OF pd] boot_map_def va_low_iff Let_def boot_pde_def)
  next
    case 4
    then show ?thesis
      using pdes va_shared_iff [of va]
      by (simp add: mmu_walk_pt_get [OF pd] boot_map_def va_low_iff Let_def boot_pde_def)
  qed
qed

text \<open>With both APICs in the same 4 MB the two maps differ only between the end of memory and 128 MB.\<close>

lemma boot_map_readme:
  assumes io: "page_aligned (ioAPIC cfg)" "page_aligned (localAPIC cfg)" "32 \<le> pdi_of (ioAPIC cfg)"
    and same: "pdi_of (localAPIC cfg) = pdi_of (ioAPIC cfg)"
    and va: "va < min (memSize cfg) 0x8000000 \<or> max (memSize cfg) 0x8000000 \<le> va"
  shows "boot_map cfg sf va = readme_map cfg sf va"
proof -
  have page: "va AND 0xFFFFF000 = a \<longleftrightarrow> pdi_of va = pdi_of a \<and> pti_of va = pti_of a" if "page_aligned a" for a
    using that same_page_iff [of va a] by (simp add: frame_of_self [unfolded frame_of_def])
  show ?thesis
  proof (cases "va < 0x8000000")
    case True
    then have "va < memSize cfg" using va by (auto simp: less_max_iff_disj not_le [symmetric])
    moreover have "pdi_of va < 32" using True by (simp add: va_low_iff)
    ultimately show ?thesis using True io same page [OF io(1)] page [OF io(2)] va_shared_iff [of va]
      by (auto simp: boot_map_def readme_map_def not_less)
  next
    case False
    then have "\<not> va < memSize cfg" using va by auto
    then show ?thesis using False io same page [OF io(1)] page [OF io(2)]
      by (auto simp: boot_map_def readme_map_def frame_of_self)
  qed
qed

lemma boot_tables_ok:
  assumes kt: "kernel_tables_ok base fs cfg v" and pd: "allocated base fs (pm v) pd"
    and pdes: "\<forall>j < 1024. pt_get (pm v) pd j = boot_pde cfg v j"
    and new: "pd \<notin> set (shared_pt v # the_shared_frame v # apic_pt v # kernel_pt v)"
  shows "tables_ok base fs (pm v) pd"
proof -
  have al: "page_aligned (shared_pt v)" "page_aligned (apic_pt v)" "i < 32 \<Longrightarrow> page_aligned (kernel_pt v ! i)" for i
    using kt by (auto simp: kernel_tables_ok_def allocated_def)
  have dist: "shared_pt v \<noteq> apic_pt v" and nth_in: "i < 32 \<Longrightarrow> kernel_pt v ! i \<noteq> shared_pt v \<and> kernel_pt v ! i \<noteq> apic_pt v \<and>
      shared_pt v \<noteq> kernel_pt v ! i \<and> apic_pt v \<noteq> kernel_pt v ! i"
    and nth_inj: "i < 32 \<Longrightarrow> j < 32 \<Longrightarrow> i \<noteq> j \<Longrightarrow> kernel_pt v ! i \<noteq> kernel_pt v ! j" for i j
    using kt nth_mem [of i "kernel_pt v"] nth_eq_iff_index_eq [of "kernel_pt v" i j]
    unfolding kernel_tables_ok_def by (auto simp del: nth_mem)
  define tab where "tab i = (if i = 960 then shared_pt v else if i = pdi_of (ioAPIC cfg) then apic_pt v else kernel_pt v ! i)" for i
  have pr: "present (boot_pde cfg v i) \<Longrightarrow> i = 960 \<or> i = pdi_of (ioAPIC cfg) \<or> i < 32" for i
    by (auto simp: boot_pde_def split: if_splits)
  have fr: "frame_of (boot_pde cfg v i) = tab i" if "present (boot_pde cfg v i)" for i
    using al pr [OF that] by (auto simp: boot_pde_def tab_def)
  have in_t: "tab i \<in> set (shared_pt v # the_shared_frame v # apic_pt v # kernel_pt v)" if "present (boot_pde cfg v i)" for i
    using pr [OF that] kt by (auto simp: tab_def kernel_tables_ok_def)
  have inj: "tab i \<noteq> tab j" if "present (boot_pde cfg v i)" "present (boot_pde cfg v j)" "i \<noteq> j" for i j
    using pr [OF that(1)] pr [OF that(2)] that(3) dist nth_in [of i] nth_in [of j] nth_inj [of i j]
    by (cases "i = 960"; cases "j = 960"; cases "i = pdi_of (ioAPIC cfg)"; cases "j = pdi_of (ioAPIC cfg)")
      (simp_all add: tab_def)
  have "allocated base fs (pm v) (tab i)" "tab i \<noteq> pd" if "present (boot_pde cfg v i)" for i
    using in_t [OF that] kt new by (auto simp: kernel_tables_ok_def)
  note tab = this
  have pde: "pt_get (pm v) pd i = boot_pde cfg v i" if "i < 1024" for i using pdes that by blast
  show ?thesis
    unfolding tables_ok_def
  proof (intro conjI allI impI)
    fix i assume "i < 1024" "present (pt_get (pm v) pd i)"
    then show "allocated base fs (pm v) (frame_of (pt_get (pm v) pd i))" "frame_of (pt_get (pm v) pd i) \<noteq> pd"
      using tab [of i] fr [of i] by (simp_all add: pde)
    fix j assume "j < 1024" "i \<noteq> j" "present (pt_get (pm v) pd j)"
    then show "frame_of (pt_get (pm v) pd i) \<noteq> frame_of (pt_get (pm v) pd j)"
      using \<open>i < 1024\<close> \<open>present (pt_get (pm v) pd i)\<close> fr [of i] fr [of j] inj [of i j] by (simp add: pde)
  qed (rule pd)
qed

text \<open>Two concrete states for the examples: 64 frames at 0x600000, with the APICs where a PC has them.\<close>

definition ex_config :: config where
  "ex_config = \<lparr>memSize = 0x640000, localAPIC = 0xFEE00000, ioAPIC = 0xFEC00000\<rparr>"

definition pc_config :: config where
  "pc_config = \<lparr>memSize = 0x8000000, localAPIC = 0xFEE00000, ioAPIC = 0xFEC00000\<rparr>"

definition ex_vm :: vm where
  "ex_vm = \<lparr>pm = \<lparr>mem = (\<lambda>_. 0xDEADBEEF), firstFree = 0, avail = 0, limit = 0\<rparr>,
     the_shared_frame = 0, page_directory = 0, kernel_pt = replicate 32 0, apic_pt = 0, shared_pt = 0, cr3 = 0\<rparr>"

text \<open>A directory at 0x600000 with nothing mapped, and three more frames to allocate.\<close>

definition ex_space :: phys where
  "ex_space = \<lparr>mem = (\<lambda>_. 0), firstFree = 0, avail = 0x601000, limit = 0x604000\<rparr>"

lemma ex_space_ok: "phys_ok 0x600000 [] ex_space"
  by (simp add: phys_ok_def ex_space_def page_aligned_def)

lemma ex_space_tables: "tables_ok 0x600000 [] ex_space 0x600000" "pt_get ex_space p i = 0"
  by (simp_all add: tables_ok_def ex_space_def pt_get_def allocated_def page_aligned_def)

text \<open>The same directory with one user page, at 0x80001000, mapped to the frame at 0x602000.\<close>

definition ex_user :: phys where
  "ex_user = \<lparr>mem = (\<lambda>a. if a = 0x600800 then 0x601007 else if a = 0x601004 then 0x602107 else 0),
     firstFree = 0, avail = 0x603000, limit = 0x604000\<rparr>"

lemma ex_user_pde: "i < 1024 \<Longrightarrow> pt_get ex_user 0x600000 i = (if i = 512 then 0x601007 else 0)"
  using elem_eq_iff [of "0x600000" "0x600000" i 512] elem_eq_iff [of "0x600000" "0x601000" i 1]
  by (auto simp: pt_get_def ex_user_def page_aligned_def elem_def)

lemma ex_user_pte: "i < 1024 \<Longrightarrow> pt_get ex_user 0x601000 i = (if i = 1 then 0x602107 else 0)"
  using elem_eq_iff [of "0x601000" "0x600000" i 512] elem_eq_iff [of "0x601000" "0x601000" i 1]
  by (auto simp: pt_get_def ex_user_def page_aligned_def elem_def)

lemma ex_user_frames: "user_frames ex_user 0x600000 = [0x602000, 0x601000]"
proof -
  have "filter (\<lambda>i. present (pt_get ex_user 0x601000 i)) [0..<1024] = filter (\<lambda>i. i = 1) [0..<1024]"
    by (rule filter_cong) (auto simp: ex_user_pte present_def)
  also have "\<dots> = [1]" by (rule filter_eq_upt) simp
  finally have "table_frames ex_user 0x601000 = [0x602000]"
    by (simp add: table_frames_def ex_user_pte frame_of_def)
  then have "pde_frames ex_user 0x600000 512 = [0x602000, 0x601000]"
    by (simp add: pde_frames_def ex_user_pde present_def frame_of_def)
  moreover have "concat (map (pde_frames ex_user 0x600000) [Suc 512..<960]) = []"
    by (rule concat_map_upt_nil) (simp add: pde_frames_def ex_user_pde)
  moreover have "[512..<960] = 512 # [Suc 512..<960]" by (rule upt_conv_Cons) simp
  ultimately show ?thesis by (simp only: user_frames_def list.map concat.simps append_Nil2)
qed

lemma ex_user_ok: "phys_ok 0x600000 [] ex_user" "user_space_ok 0x600000 [] ex_user 0x600000"
    "tables_ok 0x600000 [] ex_user 0x600000"
proof -
  have al: "allocated 0x600000 [] ex_user p" if "p \<in> {0x600000, 0x601000, 0x602000}" for p
    using that by (auto simp: allocated_def ex_user_def page_aligned_def)
  then show "user_space_ok 0x600000 [] ex_user 0x600000" by (simp add: user_space_ok_def ex_user_frames)
  show "tables_ok 0x600000 [] ex_user 0x600000"
    using al by (auto simp: tables_ok_def ex_user_pde frame_of_def)
  show "phys_ok 0x600000 [] ex_user" by (simp add: phys_ok_def ex_user_def page_aligned_def)
qed

lemma ex_user_walk: "mmu_walk (mem ex_user) 0x600000 0x80001234 \<noteq> None"
  using mmu_walk_pt_get [of "0x600000" ex_user "0x80001234"]
  by (simp add: page_aligned_def pdi_of_div pti_of_div ex_user_pde ex_user_pte present_def frame_of_def)

section \<open>Claims\<close>

text \<open>
  C27. Booting sets up the address space of the kernel.  Given at least 36 frames, \<^verbatim>\<open>PhysMem::init\<close>,
  \<^verbatim>\<open>VMM::global_init\<close> and \<^verbatim>\<open>VMM::per_core_init\<close> all return, the directory loaded in \<^verbatim>\<open>%cr3\<close> is well formed, so
  that pages can be added to it, and it translates every address of the 32-bit space exactly as
  \<open>boot_map\<close> says: the only page user code can touch is the shared one.  When the two APICs lie in the
  same 4 MB, as on a PC, this is the address space of the README (\<open>readme_map\<close>) for every address but
  those between the end of memory and 128 MB, and for every address when there are 128 MB of memory.
  With less memory the code maps the rest of the 128 MB too; with more it leaves the memory above
  unmapped.
\<close>

theorem boot_address_space:
  assumes "memSize cfg = 0x600000 + n" "page_aligned n" "36 * 4096 \<le> unat n" "0x600000 \<le> memSize cfg"
    and "firstFree (pm v) = 0" "length (kernel_pt v) = 32"
    and io: "page_aligned (ioAPIC cfg)" "page_aligned (localAPIC cfg)" "32 \<le> pdi_of (ioAPIC cfg)" "pdi_of (ioAPIC cfg) \<noteq> 960"
  shows "\<exists>v' fs'. boot_vm cfg v = Some v' \<and> phys_ok 0x600000 fs' (pm v') \<and>
     tables_ok 0x600000 fs' (pm v') (cr3 v') \<and>
     (\<forall>va. mmu_walk (mem (pm v')) (cr3 v') va = boot_map cfg (the_shared_frame v') va) \<and>
     (pdi_of (localAPIC cfg) = pdi_of (ioAPIC cfg) \<longrightarrow>
       (\<forall>va. va < min (memSize cfg) 0x8000000 \<or> max (memSize cfg) 0x8000000 \<le> va \<longrightarrow>
          mmu_walk (mem (pm v')) (cr3 v') va = readme_map cfg (the_shared_frame v') va))"
proof -
  define s where "s = (pm v)\<lparr>avail := 0x600000, limit := 0x600000 + n\<rparr>"
  have init: "phys_init 0x600000 n (pm v) = Some s"
    using assms(2) by (simp add: phys_init_def s_def page_aligned_def)
  have le: "0x600000 \<le> 0x600000 + n" using assms(1,4) by simp
  have ok: "phys_ok 0x600000 [] s"
    by (rule phys_init_ok(1) [OF init assms(5) _ le]) simp
  have lim: "unat (0x600000 + n) = unat (0x600000 :: u32) + unat n"
    using le by (intro unat_add_no_wrap) (simp only: add_no_wrap_iff)
  have room: "36 \<le> frames_left [] s"
    using assms(3) lim by (simp add: frames_left_def s_def less_eq_div_iff_mult_less_eq)
  then obtain v1 fs1 where 1: "global_init cfg (v\<lparr>pm := s\<rparr>) = Some v1" "phys_ok 0x600000 fs1 (pm v1)"
      "kernel_tables_ok 0x600000 fs1 cfg v1" "frames_left fs1 (pm v1) + 35 = frames_left [] s"
    using global_init_ok [of "0x600000" "[]" "v\<lparr>pm := s\<rparr>" cfg] ok assms(6) by auto
  have room1: "0 < frames_left fs1 (pm v1)" using 1(4) room by simp
  then obtain v2 fs2 where 2: "per_core_init cfg v1 = Some v2" "phys_ok 0x600000 fs2 (pm v2)"
      "kernel_tables_ok 0x600000 fs2 cfg v2" "cr3 v2 = page_directory v2"
      "\<not> allocated 0x600000 fs1 (pm v1) (page_directory v2)" "allocated 0x600000 fs2 (pm v2) (page_directory v2)"
      "\<forall>j < 1024. pt_get (pm v2) (page_directory v2) j = boot_pde cfg v2 j"
      "kernel_pt v2 = kernel_pt v1" "shared_pt v2 = shared_pt v1" "apic_pt v2 = apic_pt v1"
      "the_shared_frame v2 = the_shared_frame v1"
    using per_core_init_ok [OF 1(2) room1 1(3)] by (auto dest: per_core_init_fields)
  have "page_directory v2 \<notin> set (shared_pt v2 # the_shared_frame v2 # apic_pt v2 # kernel_pt v2)"
    using 1(3) 2(5,8-11) unfolding kernel_tables_ok_def by metis
  then have "tables_ok 0x600000 fs2 (pm v2) (cr3 v2)" using boot_tables_ok [OF 2(3,6,7)] 2(4) by simp
  moreover have "mmu_walk (mem (pm v2)) (cr3 v2) va = boot_map cfg (the_shared_frame v2) va" for va
    using boot_walk [OF 2(3) _ 2(7) io] 2(4,6) by (simp add: allocated_def)
  moreover have "boot_vm cfg v = Some v2" using init 1(1) 2(1) assms(1) by (simp add: boot_vm_def VMM_FRAMES_def)
  moreover have "boot_map cfg (the_shared_frame v2) va = readme_map cfg (the_shared_frame v2) va"
    if "pdi_of (localAPIC cfg) = pdi_of (ioAPIC cfg)" "va < min (memSize cfg) 0x8000000 \<or> max (memSize cfg) 0x8000000 \<le> va" for va
    by (rule boot_map_readme [OF io(1,2,3) that])
  ultimately show ?thesis using 2(2) by metis
qed

lemma boot_address_space_witness:
  "\<exists>v'. boot_vm pc_config ex_vm = Some v' \<and>
     mmu_walk (mem (pm v')) (cr3 v') 0x1234567 = Some \<lparr>x_frame = 0x1234000, x_user = False, x_write = True\<rparr> \<and>
     mmu_walk (mem (pm v')) (cr3 v') 0xFEE00020 = Some \<lparr>x_frame = 0xFEE00000, x_user = False, x_write = True\<rparr> \<and>
     mmu_walk (mem (pm v')) (cr3 v') 0x80000000 = None"
proof -
  have same: "pdi_of (localAPIC pc_config) = pdi_of (ioAPIC pc_config)" "memSize pc_config = 0x8000000"
    by (simp_all add: pc_config_def pdi_of_div)
  have "\<exists>v' fs'. boot_vm pc_config ex_vm = Some v' \<and> phys_ok 0x600000 fs' (pm v') \<and>
     tables_ok 0x600000 fs' (pm v') (cr3 v') \<and>
     (\<forall>va. mmu_walk (mem (pm v')) (cr3 v') va = boot_map pc_config (the_shared_frame v') va) \<and>
     (pdi_of (localAPIC pc_config) = pdi_of (ioAPIC pc_config) \<longrightarrow>
       (\<forall>va. va < min (memSize pc_config) 0x8000000 \<or> max (memSize pc_config) 0x8000000 \<le> va \<longrightarrow>
          mmu_walk (mem (pm v')) (cr3 v') va = readme_map pc_config (the_shared_frame v') va))"
    by (rule boot_address_space [where n = "0x7A00000"])
      (simp_all add: pc_config_def ex_vm_def page_aligned_def pdi_of_div)
  then obtain v' where v': "boot_vm pc_config ex_vm = Some v'"
      "\<And>va. mmu_walk (mem (pm v')) (cr3 v') va = readme_map pc_config (the_shared_frame v') va"
    using same by (auto simp: not_less [symmetric])
  then show ?thesis
    by (intro exI [of _ v']) (simp add: readme_map_def pc_config_def)
qed

text \<open>
  C14. Demand paging.  When the faulting page is not mapped, two frames are left and the
  directory entry, if there is one, allows user writes, the page-fault handler's mapping step
  returns and the page translates, with user write access, to a frame that was free before and
  holds only zeros; every other page of the address space translates as before, and no
  allocated frame but the directory and the page's table is written: other processes' memory
  is untouched.
\<close>

theorem map_page_correct:
  assumes "phys_ok base fs s" "tables_ok base fs s pd" "2 \<le> frames_left fs s"
    and "mmu_walk (mem s) pd va = None"
    and "present (pt_get s pd (pdi_of va)) \<longrightarrow> pt_get s pd (pdi_of va) AND 6 = 6"
  shows "\<exists>s' fs' p. map_page pd va s = Some s' \<and> fresh_mapping base fs s pd va fs' s' p"
  by (rule map_page_fresh [OF assms])

lemma map_page_correct_witness:
  "\<exists>s' p. map_page 0x600000 0x80001234 ex_space = Some s' \<and>
     mmu_walk (mem s') 0x600000 0x80001FFF = Some \<lparr>x_frame = p, x_user = True, x_write = True\<rparr> \<and>
     mmu_walk (mem s') 0x600000 0x80002000 = None"
proof -
  have none: "mmu_walk (mem ex_space) 0x600000 va = None" for va
    by (simp add: mmu_walk_def ex_space_def)
  have "\<exists>s' fs' p. map_page 0x600000 0x80001234 ex_space = Some s' \<and>
      fresh_mapping 0x600000 [] ex_space 0x600000 0x80001234 fs' s' p"
    by (rule map_page_correct [OF ex_space_ok ex_space_tables(1)])
      (simp_all add: none ex_space_tables(2), simp add: ex_space_def frames_left_def)
  then obtain s' fs' p where *: "map_page 0x600000 0x80001234 ex_space = Some s'"
      "mmu_walk (mem s') 0x600000 0x80001234 = Some \<lparr>x_frame = p, x_user = True, x_write = True\<rparr>"
      "\<forall>va'. va' AND 0xFFFFF000 \<noteq> 0x80001234 AND 0xFFFFF000 \<longrightarrow> mmu_walk (mem s') 0x600000 va' = None"
    by (auto simp: fresh_mapping_def none)
  moreover have "mmu_walk (mem s') 0x600000 0x80001FFF = mmu_walk (mem s') 0x600000 0x80001234"
    by (simp add: mmu_walk_def pdi_of_div pti_of_div Let_def)
  ultimately show ?thesis by (intro exI [of _ s'] exI [of _ p]) simp
qed

text \<open>
  C17. Tearing down an address space.  \<^verbatim>\<open>VMM::free\<close> gives back every user data frame and
  every user page table, in the order it walks them, and nothing else: afterwards those are the
  only frames that stopped being allocated, no user page is mapped any more, every address
  outside the user range translates as before, and the directory itself is still allocated.
\<close>

theorem VMM_free_correct:
  assumes "phys_ok base fs s" "user_space_ok base fs s pd" "tables_ok base fs s pd"
    and "\<forall>i < 1024. i < 512 \<or> 960 \<le> i \<longrightarrow> present (pt_get s pd i) \<longrightarrow> frame_of (pt_get s pd i) \<notin> set (user_frames s pd)"
  shows "\<exists>s'. VMM_free pd s = Some s' \<and> phys_ok base (rev (user_frames s pd) @ fs) s' \<and>
     (\<forall>q. allocated base (rev (user_frames s pd) @ fs) s' q \<longleftrightarrow>
        allocated base fs s q \<and> q \<notin> set (user_frames s pd)) \<and>
     frames_left (rev (user_frames s pd) @ fs) s' = frames_left fs s + length (user_frames s pd) \<and>
     (\<forall>va. mmu_walk (mem s') pd va =
        (if 0x80000000 \<le> va \<and> va < 0xF0000000 then None else mmu_walk (mem s) pd va)) \<and>
     allocated base (rev (user_frames s pd) @ fs) s' pd"
proof -
  obtain s' where s': "VMM_free pd s = Some s'" "phys_ok base (rev (user_frames s pd) @ fs) s'"
      "avail s' = avail s" "limit s' = limit s"
      "\<forall>q j. page_aligned q \<longrightarrow> j < 1024 \<longrightarrow> q \<notin> set (user_frames s pd) \<longrightarrow>
        pt_get s' q j = (if q = pd \<and> 512 \<le> j \<and> j < 960 \<and> present (pt_get s pd j) then 0 else pt_get s q j)"
    using VMM_free_ok [OF assms(1,2)] by blast
  have pd: "page_aligned pd" "pd \<notin> set (user_frames s pd)" "allocated base fs s pd"
    using assms(2) by (auto simp: user_space_ok_def allocated_def)
  have al: "allocated base (rev (user_frames s pd) @ fs) s' q \<longleftrightarrow> allocated base fs s q \<and> q \<notin> set (user_frames s pd)" for q
    using allocated_append [OF s'(3), of base "rev (user_frames s pd)" fs q] by simp
  have user: "0x80000000 \<le> va \<and> va < 0xF0000000 \<longleftrightarrow> 512 \<le> pdi_of va \<and> pdi_of va < 960" for va
    by (simp add: word_le_unat word_less_unat pdi_of_div div_less_iff_less_mult less_eq_div_iff_mult_less_eq)
  have "mmu_walk (mem s') pd va = (if 0x80000000 \<le> va \<and> va < 0xF0000000 then None else mmu_walk (mem s) pd va)" for va
  proof (cases "512 \<le> pdi_of va \<and> pdi_of va < 960")
    case True
    then have "\<not> present (pt_get s' pd (pdi_of va))" using s'(5) pd by auto
    then show ?thesis using True user by (simp add: mmu_walk_pt_get [OF pd(1)])
  next
    case False
    have eq: "pt_get s' pd (pdi_of va) = pt_get s pd (pdi_of va)" using False s'(5) pd by auto
    have "mmu_walk (mem s') pd va = mmu_walk (mem s) pd va"
    proof (rule mmu_walk_cong [OF pd(1) eq])
      assume pr: "present (pt_get s pd (pdi_of va))"
      then have "frame_of (pt_get s pd (pdi_of va)) \<notin> set (user_frames s pd)"
        using assms(4) False by (auto simp: not_le)
      then show "pt_get s' (frame_of (pt_get s pd (pdi_of va))) (pti_of va) =
          pt_get s (frame_of (pt_get s pd (pdi_of va))) (pti_of va)"
        using s'(5) tables_okD(2) [OF assms(3) _ pr] by simp
    qed
    then show ?thesis using False user [of va] by auto
  qed
  then show ?thesis using s' pd al by (auto simp: frames_left_def)
qed

lemma VMM_free_correct_witness:
  "\<exists>s'. VMM_free 0x600000 ex_user = Some s' \<and> frames_left [0x601000, 0x602000] s' = 3 \<and>
     mmu_walk (mem ex_user) 0x600000 0x80001234 \<noteq> None \<and> mmu_walk (mem s') 0x600000 0x80001234 = None \<and>
     allocated 0x600000 [0x601000, 0x602000] s' 0x600000"
proof -
  have "\<exists>s'. VMM_free 0x600000 ex_user = Some s' \<and> phys_ok 0x600000 (rev (user_frames ex_user 0x600000) @ []) s' \<and>
     (\<forall>q. allocated 0x600000 (rev (user_frames ex_user 0x600000) @ []) s' q \<longleftrightarrow>
        allocated 0x600000 [] ex_user q \<and> q \<notin> set (user_frames ex_user 0x600000)) \<and>
     frames_left (rev (user_frames ex_user 0x600000) @ []) s' =
        frames_left [] ex_user + length (user_frames ex_user 0x600000) \<and>
     (\<forall>va. mmu_walk (mem s') 0x600000 va =
        (if 0x80000000 \<le> va \<and> va < 0xF0000000 then None else mmu_walk (mem ex_user) 0x600000 va)) \<and>
     allocated 0x600000 (rev (user_frames ex_user 0x600000) @ []) s' 0x600000"
    by (rule VMM_free_correct [OF ex_user_ok]) (auto simp: ex_user_frames ex_user_pde)
  then obtain s' where s': "VMM_free 0x600000 ex_user = Some s'"
      "allocated 0x600000 [0x601000, 0x602000] s' 0x600000"
      "frames_left [0x601000, 0x602000] s' = frames_left [] ex_user + 2" "mmu_walk (mem s') 0x600000 0x80001234 = None"
    by (auto simp: ex_user_frames)
  then show ?thesis
    by (intro exI [of _ s']) (simp add: frames_left_def ex_user_walk, simp add: ex_user_def)
qed

end
