(* ===== verification/Spin_Lock.thy ===== *)
theory Spin_Lock
  imports Kernel_Prelude
begin

text \<open>
  Atomic cells, spin locks and lock guards: \<^verbatim>\<open>kernel/atomic.h\<close>.  The first half is
  the code as one core runs it, with \<^verbatim>\<open>lock()\<close> as the loop it is, so that spinning
  for ever is a missing result.  The second half puts any number of cores around one lock: a
  step of the relation \<open>lock_step\<close> is one atomic operation of one core.
\<close>

section \<open>Atomic cells\<close>

text \<open>Each operation takes the cell's contents and returns its result with the new contents.\<close>

definition atomic_get :: "'a \<Rightarrow> 'a" where
  "atomic_get x = x"

definition atomic_set :: "'a \<Rightarrow> 'a \<Rightarrow> 'a" where
  "atomic_set v x = v"

definition atomic_exchange :: "'a \<Rightarrow> 'a \<Rightarrow> 'a \<times> 'a" where
  "atomic_exchange v x = (x, v)"

definition fetch_add :: "'a :: plus \<Rightarrow> 'a \<Rightarrow> 'a \<times> 'a" where
  "fetch_add inc x = (x, x + inc)"

definition add_fetch :: "'a :: plus \<Rightarrow> 'a \<Rightarrow> 'a \<times> 'a" where
  "add_fetch inc x = (x + inc, x + inc)"

section \<open>Locks as one core sees them\<close>

definition SpinLock_new :: bool where
  "SpinLock_new = False"

definition SpinLock_isMine :: "bool \<Rightarrow> bool" where
  "SpinLock_isMine taken = atomic_get taken"

partial_function (option) SpinLock_lock :: "bool \<Rightarrow> bool option" where
  "SpinLock_lock taken =
     (case atomic_exchange True taken of (old, taken') \<Rightarrow>
        if old then SpinLock_lock taken' else Some taken')"

definition SpinLock_unlock :: "bool \<Rightarrow> bool option" where
  "SpinLock_unlock taken = Some (atomic_set False taken)"

definition NoLock_lock :: "unit \<Rightarrow> unit option" where
  "NoLock_lock l = Some l"

definition NoLock_unlock :: "unit \<Rightarrow> unit option" where
  "NoLock_unlock l = Some l"

text \<open>
  \<^verbatim>\<open>LockGuard g{lock}; body\<close>: the constructor locks, the destructor unlocks when the
  scope is left.  The lock type is given by its two operations.
\<close>

definition LockGuard :: "('l \<Rightarrow> 'l option) \<Rightarrow> ('l \<Rightarrow> 'l option) \<Rightarrow> ('l \<times> 's \<Rightarrow> ('r \<times> 'l \<times> 's) option) \<Rightarrow>
    'l \<times> 's \<Rightarrow> ('r \<times> 'l \<times> 's) option" where
  "LockGuard lk ulk body = (\<lambda>(l, s). do {
     l1 \<leftarrow> lk l;
     (r, l2, s') \<leftarrow> body (l1, s);
     l3 \<leftarrow> ulk l2;
     Some (r, l3, s') })"

text \<open>\<^verbatim>\<open>LockGuardP\<close> does nothing for a null lock.\<close>

definition LockGuardP :: "('l \<Rightarrow> 'l option) \<Rightarrow> ('l \<Rightarrow> 'l option) \<Rightarrow> ('l option \<times> 's \<Rightarrow> ('r \<times> 'l option \<times> 's) option) \<Rightarrow>
    'l option \<times> 's \<Rightarrow> ('r \<times> 'l option \<times> 's) option" where
  "LockGuardP lk ulk body = (\<lambda>(it, s). do {
     it1 \<leftarrow> (case it of None \<Rightarrow> Some None | Some l \<Rightarrow> map_option Some (lk l));
     (r, it2, s') \<leftarrow> body (it1, s);
     it3 \<leftarrow> (case it2 of None \<Rightarrow> Some None | Some l \<Rightarrow> map_option Some (ulk l));
     Some (r, it3, s') })"

section \<open>Cores around one lock\<close>

text \<open>
  Where a core is: outside, in the loop of \<^verbatim>\<open>lock()\<close>, between \<^verbatim>\<open>lock()\<close> and
  \<^verbatim>\<open>unlock()\<close>, or between them and in the loop of a second \<^verbatim>\<open>lock()\<close> on the
  same lock.
\<close>

datatype lock_pc = Outside | Spinning | Holding | Nested

record cores =
  taken :: bool
  pcs :: "nat \<Rightarrow> lock_pc"

definition cores_init :: cores where
  "cores_init = \<lparr>taken = SpinLock_new, pcs = (\<lambda>_. Outside)\<rparr>"

inductive lock_step :: "cores \<Rightarrow> cores \<Rightarrow> bool" where
  call: "pcs s c = Outside \<Longrightarrow> lock_step s (s\<lparr>pcs := (pcs s)(c := Spinning)\<rparr>)"
| attempt: "pcs s c = Spinning \<Longrightarrow> atomic_exchange True (taken s) = (old, t) \<Longrightarrow>
    lock_step s (s\<lparr>taken := t, pcs := (pcs s)(c := if old then Spinning else Holding)\<rparr>)"
| leave: "pcs s c = Holding \<Longrightarrow>
    lock_step s (s\<lparr>taken := atomic_set False (taken s), pcs := (pcs s)(c := Outside)\<rparr>)"
| again: "pcs s c = Holding \<Longrightarrow> lock_step s (s\<lparr>pcs := (pcs s)(c := Nested)\<rparr>)"
| attempt_again: "pcs s c = Nested \<Longrightarrow> atomic_exchange True (taken s) = (old, t) \<Longrightarrow>
    lock_step s (s\<lparr>taken := t, pcs := (pcs s)(c := if old then Nested else Holding)\<rparr>)"

definition inside :: "cores \<Rightarrow> nat \<Rightarrow> bool" where
  "inside s c \<longleftrightarrow> pcs s c \<in> {Holding, Nested}"

text \<open>The lock is taken exactly when some core is inside, and at most one core is.\<close>

definition lock_inv :: "cores \<Rightarrow> bool" where
  "lock_inv s \<longleftrightarrow> (taken s \<longleftrightarrow> (\<exists>c. inside s c)) \<and> (\<forall>c d. inside s c \<longrightarrow> inside s d \<longrightarrow> c = d)"

section \<open>Lemmas\<close>

lemma SpinLock_lock_free [simp]: "SpinLock_lock False = Some True"
  by (subst SpinLock_lock.simps) (simp add: atomic_exchange_def)

lemma SpinLock_lock_returns: "SpinLock_lock t = Some r \<Longrightarrow> \<not> t \<and> r"
  by (rule SpinLock_lock.raw_induct [where P = "\<lambda>t r. \<not> t \<and> r", rotated])
    (auto simp: atomic_exchange_def split: if_splits)

lemma SpinLock_lock_taken [simp]: "SpinLock_lock True = None"
  using SpinLock_lock_returns by (cases "SpinLock_lock True") blast+

lemma SpinLock_unlock_simp [simp]: "SpinLock_unlock t = Some False"
  by (simp add: SpinLock_unlock_def atomic_set_def)

lemmas NoLock_simps = NoLock_lock_def NoLock_unlock_def

lemma lock_inv_init: "lock_inv cores_init"
  by (simp add: lock_inv_def cores_init_def inside_def SpinLock_new_def)

lemma inside_upd:
  "inside (s\<lparr>pcs := (pcs s)(c := p)\<rparr>) d \<longleftrightarrow> (if d = c then p \<in> {Holding, Nested} else inside s d)"
  "inside (s\<lparr>taken := t, pcs := (pcs s)(c := p)\<rparr>) d \<longleftrightarrow> (if d = c then p \<in> {Holding, Nested} else inside s d)"
  by (auto simp: inside_def)

lemma lock_inv_step: "lock_step s s' \<Longrightarrow> lock_inv s \<Longrightarrow> lock_inv s'"
proof (induction rule: lock_step.induct)
  case (call s c)
  then have "\<not> inside s c" by (simp add: inside_def)
  then show ?case using call unfolding lock_inv_def inside_upd by auto
next
  case (attempt s c old t)
  then have "\<not> inside s c" "t" "old = taken s" by (auto simp: inside_def atomic_exchange_def)
  then show ?case using attempt unfolding lock_inv_def inside_upd by auto
next
  case (leave s c)
  then have "inside s c" by (simp add: inside_def)
  then show ?case using leave unfolding lock_inv_def inside_upd by (auto simp: atomic_set_def)
next
  case (again s c)
  then have "inside s c" by (simp add: inside_def)
  then show ?case using again unfolding lock_inv_def inside_upd by auto
next
  case (attempt_again s c old t)
  then have "inside s c" "t" "old = taken s" by (auto simp: inside_def atomic_exchange_def)
  then show ?case using attempt_again unfolding lock_inv_def inside_upd by auto
qed

lemma lock_inv_reach: "lock_step\<^sup>*\<^sup>* s s' \<Longrightarrow> lock_inv s \<Longrightarrow> lock_inv s'"
  by (induction rule: rtranclp_induct) (auto intro: lock_inv_step)

lemma nested_stays: "lock_step s s' \<Longrightarrow> lock_inv s \<Longrightarrow> pcs s c = Nested \<Longrightarrow> pcs s' c = Nested"
proof (induction rule: lock_step.induct)
  case (leave s d)
  then have "inside s c" "inside s d" by (simp_all add: inside_def)
  then have "c = d" using leave by (simp add: lock_inv_def)
  then show ?case using leave by simp
next
  case (again s d)
  then show ?case by auto
next
  case (attempt_again s d old t)
  then have "inside s c" by (simp add: inside_def)
  then have "old" using attempt_again by (auto simp: lock_inv_def atomic_exchange_def)
  then show ?case using attempt_again by simp
qed auto

lemma nested_stays_reach:
  "lock_step\<^sup>*\<^sup>* s s' \<Longrightarrow> lock_inv s \<Longrightarrow> pcs s c = Nested \<Longrightarrow> pcs s' c = Nested"
  by (induction rule: rtranclp_induct) (auto intro: nested_stays lock_inv_reach)

section \<open>Claims\<close>

text \<open>
  C37. Spin locks work.  From the initial state, whatever the cores do and in whatever
  order, at most one core is between \<^verbatim>\<open>lock()\<close> and \<^verbatim>\<open>unlock()\<close>; and whenever no
  core is, every core in the loop of \<^verbatim>\<open>lock()\<close> gets the lock with its next exchange.
\<close>

theorem spinlock_mutual_exclusion:
  assumes "lock_step\<^sup>*\<^sup>* cores_init s"
  shows "(\<forall>c d. inside s c \<longrightarrow> inside s d \<longrightarrow> c = d) \<and>
    ((\<exists>c. inside s c) \<or> (\<forall>c. pcs s c = Spinning \<longrightarrow> (\<exists>s'. lock_step s s' \<and> inside s' c)))"
proof -
  have inv: "lock_inv s" by (rule lock_inv_reach [OF assms lock_inv_init])
  have "\<exists>s'. lock_step s s' \<and> inside s' c" if "\<not> taken s" "pcs s c = Spinning" for c
    using lock_step.attempt [of s c False True] that by (auto simp: atomic_exchange_def inside_def)
  then show ?thesis using inv unfolding lock_inv_def by blast
qed

lemma spinlock_mutual_exclusion_witness:
  "\<exists>s. lock_step\<^sup>*\<^sup>* cores_init s \<and> pcs s 0 = Holding \<and> pcs s 1 = Spinning \<and> \<not> inside s 1"
proof -
  define s1 where "s1 = cores_init\<lparr>pcs := (pcs cores_init)(0 := Spinning)\<rparr>"
  define s2 where "s2 = s1\<lparr>taken := True, pcs := (pcs s1)(0 := Holding)\<rparr>"
  define s3 where "s3 = s2\<lparr>pcs := (pcs s2)(1 := Spinning)\<rparr>"
  have "lock_step\<^sup>*\<^sup>* cores_init cores_init" by simp
  also have "lock_step cores_init s1"
    unfolding s1_def by (rule call) (simp add: cores_init_def)
  also (rtranclp.rtrancl_into_rtrancl) have "lock_step s1 s2"
    using lock_step.attempt [of s1 0 False True] by (simp add: s1_def s2_def cores_init_def SpinLock_new_def atomic_exchange_def)
  also (rtranclp.rtrancl_into_rtrancl) have "lock_step s2 s3"
    unfolding s3_def by (rule call) (simp add: s2_def s1_def cores_init_def)
  finally (rtranclp.rtrancl_into_rtrancl) have reach: "lock_step\<^sup>*\<^sup>* cores_init s3" .
  have pc: "pcs s3 0 = Holding" "pcs s3 1 = Spinning" by (simp_all add: s3_def s2_def)
  have "\<not> inside s3 1"
    using spinlock_mutual_exclusion [OF reach] pc by (auto simp: inside_def)
  then show ?thesis using reach pc by blast
qed

text \<open>
  Taking the same spin lock twice is fatal.  Once a core that holds the lock calls
  \<^verbatim>\<open>lock()\<close> again, it spins in that call for ever, whatever the other cores do, and no other
  core ever gets the lock.
\<close>

theorem nested_lock_deadlock:
  assumes "lock_step\<^sup>*\<^sup>* cores_init s" "pcs s c = Nested" "lock_step\<^sup>*\<^sup>* s s'"
  shows "pcs s' c = Nested \<and> taken s' \<and> (\<forall>d. d \<noteq> c \<longrightarrow> \<not> inside s' d)"
proof -
  have inv: "lock_inv s" by (rule lock_inv_reach [OF assms(1) lock_inv_init])
  then have "lock_inv s'" by (rule lock_inv_reach [OF assms(3)])
  moreover have "pcs s' c = Nested" by (rule nested_stays_reach [OF assms(3) inv assms(2)])
  moreover from this have "inside s' c" by (simp add: inside_def)
  ultimately show ?thesis unfolding lock_inv_def by blast
qed

lemma nested_lock_deadlock_witness:
  "\<exists>s. lock_step\<^sup>*\<^sup>* cores_init s \<and> pcs s 0 = Nested \<and> taken s"
proof -
  define s1 where "s1 = cores_init\<lparr>pcs := (pcs cores_init)(0 := Spinning)\<rparr>"
  define s2 where "s2 = s1\<lparr>taken := True, pcs := (pcs s1)(0 := Holding)\<rparr>"
  define s3 where "s3 = s2\<lparr>pcs := (pcs s2)(0 := Nested)\<rparr>"
  have "lock_step\<^sup>*\<^sup>* cores_init cores_init" by simp
  also have "lock_step cores_init s1"
    unfolding s1_def by (rule call) (simp add: cores_init_def)
  also (rtranclp.rtrancl_into_rtrancl) have "lock_step s1 s2"
    using lock_step.attempt [of s1 0 False True] by (simp add: s1_def s2_def cores_init_def SpinLock_new_def atomic_exchange_def)
  also (rtranclp.rtrancl_into_rtrancl) have "lock_step s2 s3"
    unfolding s3_def by (rule again) (simp add: s2_def)
  finally (rtranclp.rtrancl_into_rtrancl) have reach: "lock_step\<^sup>*\<^sup>* cores_init s3" .
  moreover have "pcs s3 0 = Nested" by (simp add: s3_def)
  ultimately show ?thesis using nested_lock_deadlock [OF reach _ rtranclp.rtrancl_refl] by blast
qed

end
