(* ===== verification/Queues.thy ===== *)
theory Queues
  imports Linked_Lists Spin_Lock
begin

text \<open>
  The singly linked queue \<^verbatim>\<open>Queue<T, LockType>\<close> of \<^verbatim>\<open>kernel/queue.h\<close>, which holds
  the ready events, the waiters of every semaphore and the values of every bounded buffer.  A
  queue is a pair of pointers into a store of nodes; the lock type is given by its operations, as
  the template parameter is.  The locale \<open>lock_type\<close> is what a queue needs of its lock; the
  locale \<open>fifo\<close> is what a queue promises to its clients.  Every \<open>lock_type\<close> gives a
  \<open>fifo\<close>, and both lock types of the kernel are interpreted.
\<close>

section \<open>The code\<close>

text \<open>Every \<^verbatim>\<open>T\<close> the kernel queues has a \<^verbatim>\<open>next\<close> field and a payload.\<close>

record 'a qnode =
  qn_next :: ptr
  qn_val :: 'a

record queue =
  q_first :: ptr
  q_last :: ptr

type_synonym ('l, 'a) qstate = "'l \<times> 'a qnode store \<times> queue"

definition Queue_new :: queue where
  "Queue_new = \<lparr>q_first = 0, q_last = 0\<rparr>"

definition delete_node :: "'n store \<Rightarrow> ptr \<Rightarrow> 'n store option" where
  "delete_node h p = (if p = 0 then Some h else do { _ \<leftarrow> h p; Some (h(p := None)) })"

definition Queue_add :: "('l \<Rightarrow> 'l option) \<Rightarrow> ('l \<Rightarrow> 'l option) \<Rightarrow> ptr \<Rightarrow> ('l, 'a) qstate \<Rightarrow> (unit \<times> ('l, 'a) qstate) option" where
  "Queue_add lk ulk t = LockGuard lk ulk (\<lambda>(l, h, q). do {
     h1 \<leftarrow> field_upd h t (qn_next_update (\<lambda>_. 0));
     (h2, q2) \<leftarrow> (if q_first q = 0 then Some (h1, q\<lparr>q_first := t\<rparr>)
                  else do { h' \<leftarrow> field_upd h1 (q_last q) (qn_next_update (\<lambda>_. t)); Some (h', q) });
     Some ((), l, h2, q2\<lparr>q_last := t\<rparr>) })"

definition Queue_remove :: "('l \<Rightarrow> 'l option) \<Rightarrow> ('l \<Rightarrow> 'l option) \<Rightarrow> ('l, 'a) qstate \<Rightarrow> (ptr \<times> ('l, 'a) qstate) option" where
  "Queue_remove lk ulk = LockGuard lk ulk (\<lambda>(l, h, q).
     if q_first q = 0 then Some (0, l, h, q)
     else do {
       c \<leftarrow> deref h (q_first q);
       let q1 = q\<lparr>q_first := qn_next c\<rparr>;
       let q2 = (if q_first q1 = 0 then q1\<lparr>q_last := 0\<rparr> else q1);
       Some (q_first q, l, h, q2) })"

definition Queue_remove_all :: "('l \<Rightarrow> 'l option) \<Rightarrow> ('l \<Rightarrow> 'l option) \<Rightarrow> ('l, 'a) qstate \<Rightarrow> (ptr \<times> ('l, 'a) qstate) option" where
  "Queue_remove_all lk ulk = LockGuard lk ulk (\<lambda>(l, h, q).
     Some (q_first q, l, h, q\<lparr>q_first := 0, q_last := 0\<rparr>))"

text \<open>The loop of \<^verbatim>\<open>clear\<close>, which calls \<^verbatim>\<open>remove()\<close> and with it the lock again.\<close>

partial_function (option) clear_loop ::
    "('l \<Rightarrow> 'l option) \<Rightarrow> ('l \<Rightarrow> 'l option) \<Rightarrow> ptr \<Rightarrow> ('l, 'a) qstate \<Rightarrow> ('l, 'a) qstate option" where
  "clear_loop lk ulk current s =
     (if current = 0 then Some s
      else do {
        h \<leftarrow> delete_node (fst (snd s)) current;
        (current', s') \<leftarrow> Queue_remove lk ulk (fst s, h, snd (snd s));
        clear_loop lk ulk current' s' })"

definition Queue_clear :: "('l \<Rightarrow> 'l option) \<Rightarrow> ('l \<Rightarrow> 'l option) \<Rightarrow> ('l, 'a) qstate \<Rightarrow> (unit \<times> ('l, 'a) qstate) option" where
  "Queue_clear lk ulk = LockGuard lk ulk (\<lambda>s. do {
     (current, s1) \<leftarrow> Queue_remove lk ulk s;
     (l, h, q) \<leftarrow> clear_loop lk ulk current s1;
     h1 \<leftarrow> delete_node h (q_first q);
     h2 \<leftarrow> delete_node h1 (q_last q);
     Some ((), l, h2, q) })"

section \<open>What a queue represents\<close>

fun lseg :: "'a qnode store \<Rightarrow> ptr \<Rightarrow> ptr list \<Rightarrow> bool" where
  "lseg h p [] = (p = 0)"
| "lseg h p (x # xs) = (p = x \<and> x \<noteq> 0 \<and> (case h x of None \<Rightarrow> False | Some c \<Rightarrow> lseg h (qn_next c) xs))"

definition queue_repr :: "'a qnode store \<Rightarrow> queue \<Rightarrow> ptr list \<Rightarrow> bool" where
  "queue_repr h q ps \<longleftrightarrow> lseg h (q_first q) ps \<and> distinct ps \<and> q_last q = last_of ps"

section \<open>Lemmas on segments\<close>

lemma lseg_nonnull: "lseg h p xs \<Longrightarrow> x \<in> set xs \<Longrightarrow> x \<noteq> 0 \<and> (\<exists>c. h x = Some c)"
  by (induction xs arbitrary: p) (auto split: option.splits)

lemma lseg_cong: "(\<And>x. x \<in> set xs \<Longrightarrow> h' x = h x) \<Longrightarrow> lseg h' p xs = lseg h p xs"
  by (induction xs arbitrary: p) (auto split: option.splits)

lemma lseg_first: "lseg h p xs \<Longrightarrow> p = 0 \<longleftrightarrow> xs = []"
  by (cases xs) (auto split: option.splits)

lemma lseg_snoc:
  assumes "lseg h p xs" "distinct xs" "xs \<noteq> []" "t \<notin> set xs" "t \<noteq> 0" "h t = Some c" "qn_next c = 0"
  shows "\<exists>d. h (last xs) = Some d \<and> lseg (h(last xs \<mapsto> d\<lparr>qn_next := t\<rparr>)) p (xs @ [t])"
  using assms
proof (induction xs arbitrary: p)
  case (Cons x xs)
  then obtain e where e: "h x = Some e" "lseg h (qn_next e) xs" by (auto split: option.splits)
  show ?case
  proof (cases "xs = []")
    case True
    then show ?thesis using Cons.prems e by auto
  next
    case False
    then obtain d where d: "h (last xs) = Some d" "lseg (h(last xs \<mapsto> d\<lparr>qn_next := t\<rparr>)) (qn_next e) (xs @ [t])"
      using Cons.IH [OF e(2) _ False _ Cons.prems(5-7)] Cons.prems(2,4) by (meson distinct.simps(2) list.set_intros(2))
    have "last xs \<noteq> x" using False Cons.prems(2) by auto
    then show ?thesis using d e(1) False Cons.prems(1) by (auto simp: fun_upd_def)
  qed
qed simp

section \<open>The contract\<close>

locale lock_type =
  fixes lk :: "'l \<Rightarrow> 'l option" and ulk :: "'l \<Rightarrow> 'l option" and unlocked :: "'l \<Rightarrow> bool"
  assumes lock_unlock: "unlocked l \<Longrightarrow> \<exists>l1 l2. lk l = Some l1 \<and> ulk l1 = Some l2 \<and> unlocked l2"
begin

text \<open>A guarded body that does not touch the lock runs to the end and leaves the lock free.\<close>

lemma guard_run:
  assumes "unlocked l" "\<And>l1. body (l1, s) = Some (r, l1, s')"
  shows "\<exists>l'. LockGuard lk ulk body (l, s) = Some (r, l', s') \<and> unlocked l'"
  using lock_unlock [OF assms(1)] assms(2) by (auto simp: LockGuard_def)

end

text \<open>A client's history: \<open>Some t\<close> adds node \<open>t\<close>, \<open>None\<close> removes one node.\<close>

fun queue_run :: "(ptr \<Rightarrow> 's \<Rightarrow> (unit \<times> 's) option) \<Rightarrow> ('s \<Rightarrow> (ptr \<times> 's) option) \<Rightarrow>
    ptr option list \<Rightarrow> 's \<Rightarrow> (ptr list \<times> 's) option" where
  "queue_run add remove [] s = Some ([], s)"
| "queue_run add remove (Some t # ops) s = do { (_, s1) \<leftarrow> add t s; queue_run add remove ops s1 }"
| "queue_run add remove (None # ops) s = do {
     (p, s1) \<leftarrow> remove s;
     (out, s2) \<leftarrow> queue_run add remove ops s1;
     Some (p # out, s2) }"

text \<open>
  A first-in first-out queue of nodes.  \<open>holds s ps\<close>: the state holds the nodes \<open>ps\<close>, oldest
  first; \<open>spare s t\<close>: node \<open>t\<close> exists, and \<open>value s t\<close> is its payload.
\<close>

locale fifo =
  fixes add :: "ptr \<Rightarrow> 's \<Rightarrow> (unit \<times> 's) option" and remove :: "'s \<Rightarrow> (ptr \<times> 's) option"
    and remove_all :: "'s \<Rightarrow> (ptr \<times> 's) option"
    and holds :: "'s \<Rightarrow> ptr list \<Rightarrow> bool" and payload :: "'s \<Rightarrow> ptr \<Rightarrow> 'v option"
  assumes add_ok: "holds s ps \<Longrightarrow> t \<noteq> 0 \<Longrightarrow> t \<notin> set ps \<Longrightarrow> payload s t \<noteq> None \<Longrightarrow>
      \<exists>s'. add t s = Some ((), s') \<and> holds s' (ps @ [t]) \<and> payload s' = payload s"
    and remove_ok: "holds s ps \<Longrightarrow>
      \<exists>s'. remove s = Some (first_of ps, s') \<and> holds s' (tl ps) \<and> payload s' = payload s"
    and remove_all_ok: "holds s ps \<Longrightarrow>
      \<exists>s'. remove_all s = Some (first_of ps, s') \<and> holds s' [] \<and> payload s' = payload s"
    and holds_nonnull: "holds s ps \<Longrightarrow> 0 \<notin> set ps"
begin

text \<open>
  Nodes come out in the order they went in, none lost, none twice, and null exactly when the
  queue is empty at that moment.
\<close>

lemma run_fifo:
  assumes "holds s ps" "distinct (ps @ [t. Some t \<leftarrow> ops])"
    and "\<forall>t. Some t \<in> set ops \<longrightarrow> t \<noteq> 0 \<and> payload s t \<noteq> None"
  shows "\<exists>out s' qs. queue_run add remove ops s = Some (out, s') \<and> holds s' qs \<and> payload s' = payload s \<and>
     length out = count_list ops None \<and> filter (\<lambda>p. p \<noteq> 0) out @ qs = ps @ [t. Some t \<leftarrow> ops]"
  using assms
proof (induction ops arbitrary: s ps)
  case Nil
  then show ?case by auto
next
  case (Cons a ops)
  show ?case
  proof (cases a)
    case (Some t)
    then have t: "t \<noteq> 0" "t \<notin> set ps" "payload s t \<noteq> None" using Cons.prems by auto
    then obtain s1 where s1: "add t s = Some ((), s1)" "holds s1 (ps @ [t])" "payload s1 = payload s"
      using add_ok [OF Cons.prems(1)] by blast
    obtain out s' qs where "queue_run add remove ops s1 = Some (out, s')" "holds s' qs" "payload s' = payload s1"
       "length out = count_list ops None" "filter (\<lambda>p. p \<noteq> 0) out @ qs = (ps @ [t]) @ [t. Some t \<leftarrow> ops]"
      using Cons.IH [OF s1(2)] Cons.prems Some s1(3) by auto
    then show ?thesis using s1 Some by auto
  next
    case None
    obtain s1 where s1: "remove s = Some (first_of ps, s1)" "holds s1 (tl ps)" "payload s1 = payload s"
      using remove_ok [OF Cons.prems(1)] by blast
    have "distinct (tl ps @ [t. Some t \<leftarrow> ops])" using Cons.prems(2) None by (cases ps) auto
    then obtain out s' qs where "queue_run add remove ops s1 = Some (out, s')" "holds s' qs" "payload s' = payload s1"
       "length out = count_list ops None" "filter (\<lambda>p. p \<noteq> 0) out @ qs = tl ps @ [t. Some t \<leftarrow> ops]"
      using Cons.IH [OF s1(2)] Cons.prems(3) None s1(3) by auto
    then show ?thesis using s1 None holds_nonnull [OF Cons.prems(1)] by (cases ps) (auto simp: first_of_def)
  qed
qed

end

section \<open>The code meets it\<close>

text \<open>What the code of each operation does between \<^verbatim>\<open>lock()\<close> and \<^verbatim>\<open>unlock()\<close>.\<close>

lemma add_body_ok:
  assumes "queue_repr h q ps" "t \<noteq> 0" "t \<notin> set ps" "h t = Some c"
  shows "\<exists>h' q'. (do { h1 \<leftarrow> field_upd h t (qn_next_update (\<lambda>_. 0));
     (h2, q2) \<leftarrow> (if q_first q = 0 then Some (h1, q\<lparr>q_first := t\<rparr>)
                  else do { h' \<leftarrow> field_upd h1 (q_last q) (qn_next_update (\<lambda>_. t)); Some (h', q) });
     Some (h2, q2\<lparr>q_last := t\<rparr>) }) = Some (h', q') \<and>
     queue_repr h' q' (ps @ [t]) \<and> (\<forall>p. map_option qn_val (h' p) = map_option qn_val (h p))"
proof -
  define h1 where "h1 = h(t \<mapsto> c\<lparr>qn_next := 0\<rparr>)"
  have h1: "field_upd h t (qn_next_update (\<lambda>_. 0)) = Some h1"
    using assms(2,4) by (simp add: field_upd_def deref_def h1_def)
  have same: "lseg h1 p ps = lseg h p ps" for p using assms(3) by (intro lseg_cong) (auto simp: h1_def)
  have seg: "lseg h1 (q_first q) ps" "distinct ps" "q_last q = last_of ps"
    using assms(1) same by (simp_all add: queue_repr_def)
  have val1: "map_option qn_val (h1 p) = map_option qn_val (h p)" for p using assms(4) by (simp add: h1_def)
  show ?thesis
  proof (cases "ps = []")
    case True
    then show ?thesis
      using h1 seg assms(2) val1 by (auto simp: queue_repr_def h1_def last_of_def)
  next
    case False
    then obtain d where d: "h1 (last ps) = Some d" "lseg (h1(last ps \<mapsto> d\<lparr>qn_next := t\<rparr>)) (q_first q) (ps @ [t])"
      using lseg_snoc [OF seg(1,2) _ assms(3,2), of "c\<lparr>qn_next := 0\<rparr>"] by (auto simp: h1_def)
    have "last ps \<noteq> 0" using lseg_nonnull [OF seg(1)] False by simp
    then have "field_upd h1 (q_last q) (qn_next_update (\<lambda>_. t)) = Some (h1(last ps \<mapsto> d\<lparr>qn_next := t\<rparr>))"
      using d(1) False seg(3) by (simp add: field_upd_def deref_def last_of_def)
    moreover have "q_first q \<noteq> 0" using lseg_first [OF seg(1)] False by simp
    moreover have "map_option qn_val (h (last ps)) = Some (qn_val d)" using val1 [of "last ps"] d(1) by simp
    ultimately show ?thesis
      using h1 d seg assms(3) val1 by (auto simp: queue_repr_def last_of_def)
  qed
qed

lemma remove_body_ok:
  assumes "queue_repr h q ps"
  shows "\<exists>q'. (if q_first q = 0 then Some (0, h, q)
     else do { c \<leftarrow> deref h (q_first q);
       let q1 = q\<lparr>q_first := qn_next c\<rparr>;
       let q2 = (if q_first q1 = 0 then q1\<lparr>q_last := 0\<rparr> else q1);
       Some (q_first q, h, q2) }) = Some (first_of ps, h, q') \<and> queue_repr h q' (tl ps)"
proof (cases ps)
  case Nil
  then show ?thesis using assms by (auto simp: queue_repr_def first_of_def)
next
  case (Cons x xs)
  then obtain c where c: "q_first q = x" "x \<noteq> 0" "h x = Some c" "lseg h (qn_next c) xs" "distinct xs"
    using assms by (auto simp: queue_repr_def split: option.splits)
  then show ?thesis
    using assms Cons lseg_first [OF c(4)] by (auto simp: queue_repr_def first_of_def deref_def Let_def last_of_def)
qed

text \<open>The queue state of a client that does not hold the lock.\<close>

definition queue_holds :: "('l \<Rightarrow> bool) \<Rightarrow> ('l, 'a) qstate \<Rightarrow> ptr list \<Rightarrow> bool" where
  "queue_holds unlocked s ps \<longleftrightarrow> unlocked (fst s) \<and> queue_repr (fst (snd s)) (snd (snd s)) ps"

definition node_value :: "('l, 'a) qstate \<Rightarrow> ptr \<Rightarrow> 'a option" where
  "node_value s p = map_option qn_val (fst (snd s) p)"

sublocale lock_type \<subseteq> fifo "Queue_add lk ulk" "Queue_remove lk ulk" "Queue_remove_all lk ulk"
  "queue_holds unlocked" "node_value :: ('l, 'v) qstate \<Rightarrow> ptr \<Rightarrow> 'v option"
proof unfold_locales
  fix s :: "('l, 'v) qstate" and ps t
  obtain l h q where s: "s = (l, h, q)" by (metis prod_cases3)
  assume holds: "queue_holds unlocked s ps"
  then have u: "unlocked l" and r: "queue_repr h q ps" by (auto simp: queue_holds_def s)
  show "0 \<notin> set ps" using r lseg_nonnull by (auto simp: queue_repr_def)
  show "\<exists>s'. Queue_remove_all lk ulk s = Some (first_of ps, s') \<and> queue_holds unlocked s' [] \<and> node_value s' = node_value s"
  proof -
    have "\<exists>l'. Queue_remove_all lk ulk s = Some (q_first q, l', h, q\<lparr>q_first := 0, q_last := 0\<rparr>) \<and> unlocked l'"
      unfolding Queue_remove_all_def s by (rule guard_run [OF u]) simp
    moreover have "q_first q = first_of ps" using r by (cases ps) (auto simp: queue_repr_def first_of_def)
    ultimately show ?thesis by (auto simp: queue_holds_def queue_repr_def last_of_def node_value_def s fun_eq_iff)
  qed
  show "\<exists>s'. Queue_remove lk ulk s = Some (first_of ps, s') \<and> queue_holds unlocked s' (tl ps) \<and> node_value s' = node_value s"
  proof -
    obtain q' where q': "(if q_first q = 0 then Some (0, h, q)
       else do { c \<leftarrow> deref h (q_first q); let q1 = q\<lparr>q_first := qn_next c\<rparr>;
         let q2 = (if q_first q1 = 0 then q1\<lparr>q_last := 0\<rparr> else q1); Some (q_first q, h, q2) }) = Some (first_of ps, h, q')"
      "queue_repr h q' (tl ps)"
      using remove_body_ok [OF r] by blast
    have "\<exists>l'. Queue_remove lk ulk s = Some (first_of ps, l', h, q') \<and> unlocked l'"
      unfolding Queue_remove_def s
      by (rule guard_run [OF u]) (use q'(1) in \<open>auto simp: Let_def split: if_splits Option.bind_splits\<close>)
    then show ?thesis using q'(2) by (auto simp: queue_holds_def node_value_def s fun_eq_iff)
  qed
  assume t: "t \<noteq> 0" "t \<notin> set ps" "node_value s t \<noteq> None"
  then obtain c where "h t = Some c" by (auto simp: node_value_def s)
  from add_body_ok [OF r t(1,2) this] obtain h' q' where hq: "(do { h1 \<leftarrow> field_upd h t (qn_next_update (\<lambda>_. 0));
     (h2, q2) \<leftarrow> (if q_first q = 0 then Some (h1, q\<lparr>q_first := t\<rparr>)
                  else do { h' \<leftarrow> field_upd h1 (q_last q) (qn_next_update (\<lambda>_. t)); Some (h', q) });
     Some (h2, q2\<lparr>q_last := t\<rparr>) }) = Some (h', q')" "queue_repr h' q' (ps @ [t])"
     "\<forall>p. map_option qn_val (h' p) = map_option qn_val (h p)" by blast
  have "\<exists>l'. Queue_add lk ulk t s = Some ((), l', h', q') \<and> unlocked l'"
    unfolding Queue_add_def s
    by (rule guard_run [OF u]) (use hq(1) in \<open>auto split: if_splits Option.bind_splits\<close>)
  then show "\<exists>s'. Queue_add lk ulk t s = Some ((), s') \<and> queue_holds unlocked s' (ps @ [t]) \<and> node_value s' = node_value s"
    using hq(2,3) by (auto simp: queue_holds_def node_value_def s fun_eq_iff)
qed

interpretation spinq: lock_type SpinLock_lock SpinLock_unlock "\<lambda>l. \<not> l"
  by unfold_locales auto

interpretation plainq: lock_type NoLock_lock NoLock_unlock "\<lambda>_. True"
  by unfold_locales (simp add: NoLock_simps)

section \<open>Clearing a queue\<close>

lemma Queue_clear_spin_aux: "Queue_remove SpinLock_lock SpinLock_unlock (True, s) = None"
  by (simp add: Queue_remove_def LockGuard_def)

lemma clear_loop_free:
  assumes "queue_repr h q ps" "p = 0 \<longrightarrow> ps = []" "p \<noteq> 0 \<longrightarrow> h p \<noteq> None \<and> p \<notin> set ps"
  shows "\<exists>h' q'. clear_loop NoLock_lock NoLock_unlock p ((), h, q) = Some ((), h', q') \<and>
     q_first q' = 0 \<and> q_last q' = 0 \<and>
     (\<forall>x. h' x = (if x \<noteq> 0 \<and> x \<in> set (p # ps) then None else h x))"
  using assms
proof (induction ps arbitrary: h q p)
  case Nil
  then have "q_first q = 0" "q_last q = 0" by (auto simp: queue_repr_def last_of_def)
  moreover from this have "Queue_remove NoLock_lock NoLock_unlock ((), h(p := None), q) = Some (0, (), h(p := None), q)"
    by (simp add: Queue_remove_def LockGuard_def NoLock_simps)
  ultimately show ?case
    using Nil by (auto simp: clear_loop.simps [of _ _ p] clear_loop.simps [of _ _ 0] delete_node_def)
next
  case (Cons x xs)
  have p: "p \<noteq> 0" "h p \<noteq> None" "p \<notin> set (x # xs)" using Cons.prems by auto
  let ?h = "h(p := None)"
  have "lseg ?h (q_first q) (x # xs) = lseg h (q_first q) (x # xs)" using p(3) by (intro lseg_cong) auto
  then have r: "queue_repr ?h q (x # xs)" using Cons.prems(1) unfolding queue_repr_def by simp
  then obtain u q' where rm: "Queue_remove NoLock_lock NoLock_unlock ((), ?h, q) = Some (x, u, ?h, q')"
    and r': "queue_repr ?h q' xs"
    using remove_body_ok [OF r] by (auto simp: Queue_remove_def LockGuard_def NoLock_simps first_of_def Let_def split: if_splits Option.bind_splits)
  have x: "x \<noteq> 0" "?h x \<noteq> None" "x \<notin> set xs"
    using r lseg_nonnull [of ?h "q_first q" "x # xs" x] by (auto simp: queue_repr_def)
  then obtain h2 q2 where h2: "clear_loop NoLock_lock NoLock_unlock x ((), ?h, q') = Some ((), h2, q2)"
     "q_first q2 = 0" "q_last q2 = 0" "\<forall>y. h2 y = (if y \<noteq> 0 \<and> y \<in> set (x # xs) then None else ?h y)"
    using Cons.IH [OF r', of x] by blast
  have "clear_loop NoLock_lock NoLock_unlock p ((), h, q) = Some ((), h2, q2)"
    using p(1,2) rm h2(1) by (subst clear_loop.simps) (auto simp: delete_node_def)
  then show ?case using h2 p(1) by auto
qed

text \<open>Two queued events, and a third node to add.\<close>

definition ex_qstate :: "'l \<Rightarrow> ('l, nat) qstate" where
  "ex_qstate l = (l, [0x100 \<mapsto> \<lparr>qn_next = 0x200, qn_val = 1\<rparr>, 0x200 \<mapsto> \<lparr>qn_next = 0, qn_val = 2\<rparr>,
      0x300 \<mapsto> \<lparr>qn_next = 7, qn_val = 3\<rparr>], \<lparr>q_first = 0x100, q_last = 0x200\<rparr>)"

lemma ex_qstate_holds: "u l \<Longrightarrow> queue_holds u (ex_qstate l) [0x100, 0x200]"
  by (simp add: queue_holds_def ex_qstate_def queue_repr_def last_of_def)

section \<open>Claims\<close>

text \<open>
  The event queue is first-in first-out.  Starting from a spin-locked queue that holds
  \<open>ps\<close>, any sequence of additions of fresh nodes and removals runs to its end without touching a
  null or dangling pointer; the removed nodes followed by the nodes still queued are exactly
  \<open>ps\<close> followed by the added nodes, in order; and payloads are never changed.
\<close>

theorem Queue_fifo:
  assumes "queue_holds Not s ps" "distinct (ps @ [t. Some t \<leftarrow> ops])"
    and "\<forall>t. Some t \<in> set ops \<longrightarrow> t \<noteq> 0 \<and> node_value s t \<noteq> None"
  shows "\<exists>out s' qs. queue_run (Queue_add SpinLock_lock SpinLock_unlock) (Queue_remove SpinLock_lock SpinLock_unlock) ops s = Some (out, s') \<and> queue_holds Not s' qs \<and> node_value s' = node_value s \<and>
     length out = count_list ops None \<and> filter (\<lambda>p. p \<noteq> 0) out @ qs = ps @ [t. Some t \<leftarrow> ops]"
  by (rule spinq.run_fifo [OF assms])

lemma Queue_fifo_witness:
  "\<exists>out s' qs. queue_run (Queue_add SpinLock_lock SpinLock_unlock) (Queue_remove SpinLock_lock SpinLock_unlock)
       [None, Some 0x300, None, None, None] (ex_qstate False) = Some (out, s') \<and>
     length out = 4 \<and> filter (\<lambda>p. p \<noteq> 0) out @ qs = [0x100, 0x200, 0x300]"
  using Queue_fifo [OF ex_qstate_holds, of False "[None, Some 0x300, None, None, None]"]
  by (auto simp: ex_qstate_def node_value_def)

text \<open>
  \<^verbatim>\<open>Queue::clear\<close> on a spin-locked queue never returns, whatever the queue holds: it
  calls \<^verbatim>\<open>remove()\<close> with the lock already held.  With \<^verbatim>\<open>NoLock\<close> it empties the queue,
  frees every queued node and touches no other.
\<close>

theorem Queue_clear_correct:
  "Queue_clear SpinLock_lock SpinLock_unlock s = None \<and>
   (queue_holds (\<lambda>_. True) t ps \<longrightarrow>
     (\<exists>t'. Queue_clear NoLock_lock NoLock_unlock t = Some ((), t') \<and> queue_holds (\<lambda>_. True) t' [] \<and>
       (\<forall>x. fst (snd t') x = (if x \<in> set ps then None else fst (snd t) x))))"
proof (intro conjI impI)
  show "Queue_clear SpinLock_lock SpinLock_unlock s = None"
    by (cases s; cases "fst s") (simp_all add: Queue_clear_def LockGuard_def Queue_clear_spin_aux)
  assume "queue_holds (\<lambda>_. True) t ps"
  then obtain h q where t: "t = ((), h, q)" and r: "queue_repr h q ps" by (cases t) (auto simp: queue_holds_def)
  obtain q1 where rm: "Queue_remove NoLock_lock NoLock_unlock ((), h, q) = Some (first_of ps, (), h, q1)"
    and r1: "queue_repr h q1 (tl ps)"
    using remove_body_ok [OF r] by (auto simp: Queue_remove_def LockGuard_def NoLock_simps Let_def split: if_splits Option.bind_splits)
  have nn: "0 \<notin> set ps" "x \<in> set ps \<Longrightarrow> h x \<noteq> None" "distinct ps" for x
    using r lseg_nonnull by (fastforce simp: queue_repr_def)+
  then obtain h' q' where cl: "clear_loop NoLock_lock NoLock_unlock (first_of ps) ((), h, q1) = Some ((), h', q')"
      "q_first q' = 0" "q_last q' = 0"
      "\<forall>x. h' x = (if x \<noteq> 0 \<and> x \<in> set (first_of ps # tl ps) then None else h x)"
    using clear_loop_free [OF r1, of "first_of ps"] by (cases ps) (auto simp: first_of_def)
  have "Queue_clear NoLock_lock NoLock_unlock t = Some ((), (), h', q')"
    using rm cl by (simp add: Queue_clear_def LockGuard_def t delete_node_def NoLock_lock_def [of "()"] NoLock_unlock_def [of "()"])
  moreover have "h' x = (if x \<in> set ps then None else h x)" for x
    using cl(4) nn(1) by (cases ps) (auto simp: first_of_def)
  ultimately show "\<exists>t'. Queue_clear NoLock_lock NoLock_unlock t = Some ((), t') \<and> queue_holds (\<lambda>_. True) t' [] \<and>
      (\<forall>x. fst (snd t') x = (if x \<in> set ps then None else fst (snd t) x))"
    using cl(2,3) by (auto simp: queue_holds_def queue_repr_def last_of_def t)
qed

lemma Queue_clear_correct_witness:
  "Queue_clear SpinLock_lock SpinLock_unlock (ex_qstate False) = None \<and>
   (\<exists>t'. Queue_clear NoLock_lock NoLock_unlock (ex_qstate ()) = Some ((), t') \<and>
      fst (snd t') 0x100 = None \<and> fst (snd t') 0x300 \<noteq> None)"
  using Queue_clear_correct [of "ex_qstate False" "ex_qstate ()" "[0x100, 0x200]"]
    ex_qstate_holds [of "\<lambda>_. True" "()"]
  by (auto simp: ex_qstate_def)

end
