(* ===== verification/Shared_Ptr.thy ===== *)
theory Shared_Ptr
  imports Linked_Lists Spin_Lock
begin

text \<open>
  Reference-counted smart pointers: \<^verbatim>\<open>Counted<T>\<close> and \<^verbatim>\<open>Shared<T>\<close> of
  \<^verbatim>\<open>kernel/shared.h\<close>.  A \<^verbatim>\<open>Shared\<close> object is its one field, the pointer to the
  counted object; each member function takes it (and its right-hand side) and the store of
  counted objects, and gives the new values.  Touching a deleted object has no result.  The
  second half lets a program create, copy, move, assign and destroy \<^verbatim>\<open>Shared\<close> variables in
  any order and shows that the counts stay exact.
\<close>

section \<open>The code\<close>

record 'a counted =
  cdata :: 'a
  ref_count :: u32

definition Counted_new :: "'a \<Rightarrow> 'a counted" where
  "Counted_new d = \<lparr>cdata = d, ref_count = 0\<rparr>"

definition Shared_ref :: "ptr \<Rightarrow> 'a counted store \<Rightarrow> 'a counted store option" where
  "Shared_ref p h =
     (if p \<noteq> 0 then field_upd h p (\<lambda>c. c\<lparr>ref_count := snd (add_fetch 1 (ref_count c))\<rparr>) else Some h)"

definition Shared_unref :: "ptr \<Rightarrow> 'a counted store \<Rightarrow> 'a counted store option" where
  "Shared_unref p h =
     (if p \<noteq> 0 then do {
        c \<leftarrow> deref h p;
        let (n, rc) = add_fetch (- 1) (ref_count c);
        let h' = h(p \<mapsto> c\<lparr>ref_count := rc\<rparr>);
        Some (if n = 0 then h'(p := None) else h') }
      else Some h)"

definition Shared_of_counted :: "ptr \<Rightarrow> 'a counted store \<Rightarrow> (ptr \<times> 'a counted store) option" where
  "Shared_of_counted p h = do { h' \<leftarrow> Shared_ref p h; Some (p, h') }"

definition Shared_default :: ptr where
  "Shared_default = 0"

definition Shared_copy :: "ptr \<Rightarrow> 'a counted store \<Rightarrow> (ptr \<times> 'a counted store) option" where
  "Shared_copy rhs h = do { h' \<leftarrow> Shared_ref rhs h; Some (rhs, h') }"

text \<open>The moves give the new object and the new right-hand side.\<close>

definition Shared_move :: "ptr \<Rightarrow> ptr \<times> ptr" where
  "Shared_move rhs = (rhs, 0)"

definition Shared_assign :: "ptr \<Rightarrow> ptr \<Rightarrow> 'a counted store \<Rightarrow> (ptr \<times> 'a counted store) option" where
  "Shared_assign p rhs h =
     (if p \<noteq> rhs then do { h1 \<leftarrow> Shared_unref p h; h2 \<leftarrow> Shared_ref rhs h1; Some (rhs, h2) } else Some (p, h))"

definition Shared_assign_move :: "ptr \<Rightarrow> ptr \<Rightarrow> 'a counted store \<Rightarrow> (ptr \<times> ptr \<times> 'a counted store) option" where
  "Shared_assign_move p rhs h =
     (if p \<noteq> rhs then do { h1 \<leftarrow> Shared_unref p h; Some (rhs, 0, h1) } else Some (p, rhs, h))"

definition Shared_destroy :: "ptr \<Rightarrow> 'a counted store \<Rightarrow> 'a counted store option" where
  "Shared_destroy p h = Shared_unref p h"

definition Shared_reset :: "ptr \<Rightarrow> 'a counted store \<Rightarrow> (ptr \<times> 'a counted store) option" where
  "Shared_reset p h = do { h' \<leftarrow> Shared_unref p h; Some (0, h') }"

definition Shared_deref :: "ptr \<Rightarrow> 'a counted store \<Rightarrow> 'a option" where
  "Shared_deref p h = map_option cdata (deref h p)"

text \<open>\<^verbatim>\<open>make\<close>: the heap gives the address \<open>a\<close> of the new counted object.\<close>

definition Shared_make :: "ptr \<Rightarrow> 'a \<Rightarrow> 'a counted store \<Rightarrow> (ptr \<times> 'a counted store) option" where
  "Shared_make a d h = Shared_of_counted a (h(a \<mapsto> Counted_new d))"

definition Shared_is_null :: "ptr \<Rightarrow> bool" where
  "Shared_is_null p \<longleftrightarrow> p = 0"

section \<open>Programs over Shared variables\<close>

datatype 'a sh_op =
    Default nat
  | Make nat ptr 'a
  | Copy nat nat
  | Move nat nat
  | Assign nat nat
  | AssignMove nat nat
  | Reset nat
  | Destroy nat

type_synonym 'a sh_state = "(nat \<rightharpoonup> ptr) \<times> 'a counted store"

fun sh_step :: "'a sh_op \<Rightarrow> 'a sh_state \<Rightarrow> 'a sh_state option" where
  "sh_step (Default v) (vs, h) = Some (vs(v \<mapsto> Shared_default), h)"
| "sh_step (Make v a d) (vs, h) = do { (p, h') \<leftarrow> Shared_make a d h; Some (vs(v \<mapsto> p), h') }"
| "sh_step (Copy v w) (vs, h) = do { q \<leftarrow> vs w; (p, h') \<leftarrow> Shared_copy q h; Some (vs(v \<mapsto> p), h') }"
| "sh_step (Move v w) (vs, h) = do { q \<leftarrow> vs w; Some (vs(v \<mapsto> fst (Shared_move q), w \<mapsto> snd (Shared_move q)), h) }"
| "sh_step (Assign v w) (vs, h) = do {
     p \<leftarrow> vs v; q \<leftarrow> vs w; (p', h') \<leftarrow> Shared_assign p q h; Some (vs(v \<mapsto> p'), h') }"
| "sh_step (AssignMove v w) (vs, h) = do {
     p \<leftarrow> vs v; q \<leftarrow> vs w; (p', q', h') \<leftarrow> Shared_assign_move p q h; Some (vs(v \<mapsto> p', w \<mapsto> q'), h') }"
| "sh_step (Reset v) (vs, h) = do { p \<leftarrow> vs v; (p', h') \<leftarrow> Shared_reset p h; Some (vs(v \<mapsto> p'), h') }"
| "sh_step (Destroy v) (vs, h) = do { p \<leftarrow> vs v; h' \<leftarrow> Shared_destroy p h; Some (vs(v := None), h') }"

text \<open>
  What the language and the heap guarantee: a constructor makes a new variable, everything else
  uses existing ones, and \<^verbatim>\<open>new\<close> gives an address that is not in use.
\<close>

fun sh_scoped :: "'a sh_op \<Rightarrow> 'a sh_state \<Rightarrow> bool" where
  "sh_scoped (Default v) (vs, h) = (v \<notin> dom vs)"
| "sh_scoped (Make v a d) (vs, h) = (v \<notin> dom vs \<and> a \<noteq> 0 \<and> h a = None)"
| "sh_scoped (Copy v w) (vs, h) = (v \<notin> dom vs \<and> w \<in> dom vs)"
| "sh_scoped (Move v w) (vs, h) = (v \<notin> dom vs \<and> w \<in> dom vs)"
| "sh_scoped (Assign v w) (vs, h) = (v \<in> dom vs \<and> w \<in> dom vs)"
| "sh_scoped (AssignMove v w) (vs, h) = (v \<in> dom vs \<and> w \<in> dom vs)"
| "sh_scoped (Reset v) (vs, h) = (v \<in> dom vs)"
| "sh_scoped (Destroy v) (vs, h) = (v \<in> dom vs)"

text \<open>Programs with fewer than \<open>2^32\<close> variables at any time, from the empty state.\<close>

inductive sh_run :: "'a sh_state \<Rightarrow> bool" where
  start: "sh_run (Map.empty, Map.empty)"
| step: "sh_run s \<Longrightarrow> sh_scoped op s \<Longrightarrow> card (dom (fst s)) + 1 < 2 ^ 32 \<Longrightarrow> sh_step op s = Some s' \<Longrightarrow> sh_run s'"

definition refs :: "(nat \<rightharpoonup> ptr) \<Rightarrow> ptr \<Rightarrow> nat" where
  "refs vs p = card {v. vs v = Some p}"

text \<open>The counts are exact, and exactly the objects some variable points to exist.\<close>

definition sh_inv :: "'a sh_state \<Rightarrow> bool" where
  "sh_inv s \<longleftrightarrow> finite (dom (fst s)) \<and> snd s 0 = None \<and>
     (\<forall>p. p \<noteq> 0 \<longrightarrow> (case snd s p of None \<Rightarrow> refs (fst s) p = 0
        | Some c \<Rightarrow> 0 < refs (fst s) p \<and> ref_count c = of_nat (refs (fst s) p)))"

section \<open>Counting references\<close>

lemma refs_le: "finite (dom vs) \<Longrightarrow> refs vs p \<le> card (dom vs)"
  unfolding refs_def by (rule card_mono) auto

lemma refs_upd:
  assumes "finite (dom vs)"
  shows "refs (vs(v := x)) p + (if vs v = Some p then 1 else 0) = refs vs p + (if x = Some p then 1 else 0)"
proof -
  let ?A = "{u. vs u = Some p \<and> u \<noteq> v}"
  have "?A \<subseteq> dom vs" by auto
  then have fin: "finite ?A" using assms by (rule finite_subset)
  have "{u. vs u = Some p} = (if vs v = Some p then insert v ?A else ?A)"
    "{u. (vs(v := x)) u = Some p} = (if x = Some p then insert v ?A else ?A)" by auto
  then show ?thesis using fin by (auto simp: refs_def)
qed

lemma refs_pos:
  assumes "finite (dom vs)" "vs v = Some p"
  shows "0 < refs vs p"
proof -
  have "{u. vs u = Some p} \<subseteq> dom vs" by auto
  then have "finite {u. vs u = Some p}" using assms(1) by (rule finite_subset)
  then show ?thesis using assms(2) by (auto simp: refs_def card_gt_0_iff)
qed

text \<open>
  The counting argument, for one object at a time: \<open>p\<close> gains or loses one reference.
  \<open>exact n h p\<close>: object \<open>p\<close> exists with count \<open>n\<close>, or \<open>n\<close> is 0 and it does not.
\<close>

definition exact :: "nat \<Rightarrow> 'a counted store \<Rightarrow> ptr \<Rightarrow> bool" where
  "exact n h p \<longleftrightarrow> (case h p of None \<Rightarrow> n = 0 | Some c \<Rightarrow> 0 < n \<and> ref_count c = of_nat n)"

lemma sh_inv_exact:
  "sh_inv s \<longleftrightarrow> finite (dom (fst s)) \<and> snd s 0 = None \<and> (\<forall>p. p \<noteq> 0 \<longrightarrow> exact (refs (fst s) p) (snd s) p)"
  by (simp add: sh_inv_def exact_def)

lemma ref_exact:
  assumes "p \<noteq> 0" "exact n h p" "0 < n"
  obtains h' where "Shared_ref p h = Some h'" "exact (Suc n) h' p" "\<And>q. q \<noteq> p \<Longrightarrow> h' q = h q"
  using assms by (auto simp: exact_def Shared_ref_def field_upd_def deref_def add_fetch_def split: option.splits)

lemma unref_exact:
  assumes "p \<noteq> 0" "exact (Suc n) h p" "Suc n < 2 ^ 32"
  obtains h' where "Shared_unref p h = Some h'" "exact n h' p" "\<And>q. q \<noteq> p \<Longrightarrow> h' q = h q"
proof -
  obtain c where c: "h p = Some c" "ref_count c = of_nat (Suc n)" using assms(2) by (auto simp: exact_def split: option.splits)
  have "unat (of_nat n :: u32) = n" using assms(3) by (simp add: unat_of_nat)
  then have "(of_nat n :: u32) = 0 \<longleftrightarrow> n = 0" by (simp add: word_unat_eq_iff)
  then show thesis
    using assms c by (intro that [of "if n = 0 then h(p := None) else h(p \<mapsto> c\<lparr>ref_count := of_nat n\<rparr>)"])
      (auto simp: Shared_unref_def deref_def add_fetch_def exact_def Let_def)
qed

lemma exact_cong: "h' p = h p \<Longrightarrow> exact n h' p = exact n h p"
  by (simp add: exact_def)

section \<open>Every operation keeps the counts\<close>

lemma drop_ref:
  assumes inv: "sh_inv (vs, h)" and v: "vs v = Some p" and lt: "card (dom vs) < 2 ^ 32"
  shows "\<exists>h'. Shared_unref p h = Some h' \<and> sh_inv (vs(v := None), h')"
proof (cases "p = 0")
  case True
  have "refs (vs(v := None)) q = refs vs q" if "q \<noteq> 0" for q
    using refs_upd [of vs v None q] inv v True that by (auto simp: sh_inv_exact)
  then show ?thesis using inv True by (auto simp: sh_inv_exact Shared_unref_def)
next
  case False
  have fin: "finite (dom vs)" using inv by (simp add: sh_inv_exact)
  have n: "refs vs p = Suc (refs (vs(v := None)) p)" using refs_upd [OF fin, of v None p] v by simp
  have same: "refs (vs(v := None)) q = refs vs q" if "q \<noteq> p" for q using refs_upd [OF fin, of v None q] v that by simp
  have "Suc (refs (vs(v := None)) p) < 2 ^ 32" using refs_le [OF fin, of p] lt n by simp
  moreover have "exact (Suc (refs (vs(v := None)) p)) h p" using inv False n by (auto simp: sh_inv_exact)
  ultimately obtain h' where h': "Shared_unref p h = Some h'" "exact (refs (vs(v := None)) p) h' p"
      "\<And>q. q \<noteq> p \<Longrightarrow> h' q = h q"
    using unref_exact [OF False] by metis
  have "exact (refs (vs(v := None)) q) h' q" if "q \<noteq> 0" for q
    using h'(2,3) inv same that exact_cong [of h' q h] by (cases "q = p") (auto simp: sh_inv_exact)
  then show ?thesis using h' inv False by (auto simp: sh_inv_exact)
qed

lemma add_ref:
  assumes inv: "sh_inv (vs, h)" and v: "v \<notin> dom vs" and q: "q = 0 \<or> 0 < refs vs q"
  shows "\<exists>h'. Shared_ref q h = Some h' \<and> sh_inv (vs(v \<mapsto> q), h')"
proof (cases "q = 0")
  case True
  have "refs (vs(v \<mapsto> q)) p = refs vs p" if "p \<noteq> 0" for p
    using refs_upd [of vs v "Some q" p] inv v True that by (auto simp: sh_inv_exact domIff)
  then show ?thesis using inv True by (auto simp: sh_inv_exact Shared_ref_def)
next
  case False
  have fin: "finite (dom vs)" using inv by (simp add: sh_inv_exact)
  have r: "refs (vs(v \<mapsto> q)) p = (if p = q then Suc (refs vs p) else refs vs p)" for p
    using refs_upd [OF fin, of v "Some q" p] v by (auto simp: domIff)
  have "exact (refs vs q) h q" using inv False by (auto simp: sh_inv_exact)
  then obtain h' where h': "Shared_ref q h = Some h'" "exact (Suc (refs vs q)) h' q" "\<And>p. p \<noteq> q \<Longrightarrow> h' p = h p"
    using ref_exact [OF False] q False by metis
  have "exact (refs (vs(v \<mapsto> q)) p) h' p" if "p \<noteq> 0" for p
    using h'(2,3) inv that r exact_cong [of h' p h] by (cases "p = q") (auto simp: sh_inv_exact)
  then show ?thesis using h' inv False by (auto simp: sh_inv_exact)
qed

lemma move_ref:
  assumes inv: "sh_inv (vs, h)" and v: "v \<notin> dom vs" and w: "vs w = Some q"
  shows "sh_inv (vs(v \<mapsto> q, w \<mapsto> 0), h)"
proof -
  have fin: "finite (dom vs)" "finite (dom (vs(v \<mapsto> q)))" using inv by (auto simp: sh_inv_exact)
  have "v \<noteq> w" using v w by auto
  then have "refs (vs(v \<mapsto> q, w \<mapsto> 0)) p = refs vs p" if "p \<noteq> 0" for p
    using refs_upd [OF fin(1), of v "Some q" p] refs_upd [OF fin(2), of w "Some 0" p] v w that
    by (auto simp: domIff split: if_splits)
  then show ?thesis using inv by (auto simp: sh_inv_exact)
qed

lemma make_ref:
  assumes inv: "sh_inv (vs, h)" and v: "v \<notin> dom vs" and a: "a \<noteq> 0" "h a = None"
  shows "\<exists>h'. Shared_make a d h = Some (a, h') \<and> sh_inv (vs(v \<mapsto> a), h') \<and> Shared_deref a h' = Some d"
proof -
  let ?h = "h(a \<mapsto> \<lparr>cdata = d, ref_count = 1\<rparr>)"
  have fin: "finite (dom vs)" using inv by (simp add: sh_inv_exact)
  have r: "refs (vs(v \<mapsto> a)) p = (if p = a then Suc (refs vs p) else refs vs p)" for p
    using refs_upd [OF fin, of v "Some a" p] v by (auto simp: domIff)
  have "refs vs a = 0" using inv a by (force simp: sh_inv_exact exact_def)
  then have "exact (refs (vs(v \<mapsto> a)) p) ?h p" if "p \<noteq> 0" for p
    using inv that r exact_cong [of ?h p h] by (cases "p = a") (auto simp: sh_inv_exact exact_def)
  then have "sh_inv (vs(v \<mapsto> a), ?h)" using inv a by (auto simp: sh_inv_exact)
  moreover have "Shared_make a d h = Some (a, ?h)"
    using a by (simp add: Shared_make_def Shared_of_counted_def Shared_ref_def field_upd_def deref_def Counted_new_def add_fetch_def)
  ultimately show ?thesis using a by (simp add: Shared_deref_def deref_def)
qed

lemma sh_step_ok:
  assumes inv: "sh_inv s" and sc: "sh_scoped op s" and lt: "card (dom (fst s)) + 1 < 2 ^ 32"
  shows "\<exists>s'. sh_step op s = Some s' \<and> sh_inv s'"
proof -
  obtain vs h where s: "s = (vs, h)" by (cases s)
  have lt': "card (dom vs) < 2 ^ 32" using lt s by simp
  have fin: "finite (dom vs)" using inv by (simp add: sh_inv_exact s)
  note inv = inv [unfolded s]
  show ?thesis
  proof (cases op)
    case (Default v)
    then show ?thesis using add_ref [OF inv, of v 0] sc s by (auto simp: Shared_default_def Shared_ref_def)
  next
    case (Make v a d)
    then show ?thesis using make_ref [OF inv, of v a d] sc s by auto
  next
    case (Copy v w)
    then show ?thesis
      using add_ref [OF inv, of v "the (vs w)"] refs_pos [OF fin, of w] sc s by (auto simp: Shared_copy_def)
  next
    case (Move v w)
    then show ?thesis using move_ref [OF inv, of v w] sc s by (auto simp: Shared_move_def)
  next
    case (Assign v w)
    then obtain p q where pq: "vs v = Some p" "vs w = Some q" using sc s by auto
    show ?thesis
    proof (cases "p = q")
      case False
      obtain h1 where h1: "Shared_unref p h = Some h1" "sh_inv (vs(v := None), h1)"
        using drop_ref [OF inv pq(1) lt'] by blast
      have "(vs(v := None)) w = Some q" using pq False by auto
      then have "0 < refs (vs(v := None)) q" using refs_pos [of "vs(v := None)" w q] fin by simp
      then show ?thesis
        using add_ref [OF h1(2), of v q] h1(1) pq False Assign s by (auto simp: Shared_assign_def)
    qed (use pq inv s Assign in \<open>auto simp: Shared_assign_def fun_upd_idem\<close>)
  next
    case (AssignMove v w)
    then obtain p q where pq: "vs v = Some p" "vs w = Some q" using sc s by auto
    show ?thesis
    proof (cases "p = q")
      case False
      obtain h1 where h1: "Shared_unref p h = Some h1" "sh_inv (vs(v := None), h1)"
        using drop_ref [OF inv pq(1) lt'] by blast
      have "(vs(v := None)) w = Some q" using pq False by auto
      then show ?thesis
        using move_ref [OF h1(2), of v w q] h1(1) pq False AssignMove s by (auto simp: Shared_assign_move_def)
    qed (use pq inv s AssignMove in \<open>auto simp: Shared_assign_move_def fun_upd_idem\<close>)
  next
    case (Reset v)
    then obtain p where p: "vs v = Some p" using sc s by auto
    obtain h1 where h1: "Shared_unref p h = Some h1" "sh_inv (vs(v := None), h1)"
      using drop_ref [OF inv p lt'] by blast
    then show ?thesis using add_ref [OF h1(2), of v 0] p Reset s by (auto simp: Shared_reset_def Shared_ref_def)
  next
    case (Destroy v)
    then show ?thesis using drop_ref [OF inv _ lt', of v] sc s by (auto simp: Shared_destroy_def)
  qed
qed

lemma sh_run_inv: "sh_run s \<Longrightarrow> sh_inv s"
proof (induction rule: sh_run.induct)
  case start
  then show ?case by (simp add: sh_inv_def refs_def)
next
  case (step s op s')
  then show ?case using sh_step_ok [of s op] by auto
qed

section \<open>Claims\<close>

text \<open>
  C35. Reference counting is exact.  Whatever well-scoped sequence of constructions,
  copies, moves, assignments, resets and destructions a program has run, the next operation
  returns (no freed object is ever touched), an object exists exactly as long as some
  \<^verbatim>\<open>Shared\<close> variable points to it, and its count is the number of those variables: no use
  after free, no double free and no leak.
\<close>

theorem shared_counts_exact:
  assumes "sh_run s"
  shows "(\<forall>p. p \<noteq> 0 \<longrightarrow> (snd s p \<noteq> None \<longleftrightarrow> (\<exists>v. fst s v = Some p))) \<and>
    (\<forall>p c. snd s p = Some c \<longrightarrow> unat (ref_count c) = card {v. fst s v = Some p} mod 2 ^ 32) \<and>
    (\<forall>op. sh_scoped op s \<longrightarrow> card (dom (fst s)) + 1 < 2 ^ 32 \<longrightarrow> sh_step op s \<noteq> None)"
proof -
  have inv: "sh_inv s" by (rule sh_run_inv [OF assms])
  then have fin: "finite (dom (fst s))" and null: "snd s 0 = None"
    and ex: "\<And>p. p \<noteq> 0 \<Longrightarrow> exact (refs (fst s) p) (snd s) p" by (auto simp: sh_inv_exact)
  have "snd s p \<noteq> None \<longleftrightarrow> (\<exists>v. fst s v = Some p)" if "p \<noteq> 0" for p
  proof
    assume "snd s p \<noteq> None"
    then have "0 < refs (fst s) p" using ex [OF that] by (auto simp: exact_def)
    then show "\<exists>v. fst s v = Some p" by (auto simp: refs_def card_gt_0_iff)
  next
    assume "\<exists>v. fst s v = Some p"
    then have "0 < refs (fst s) p" using refs_pos [OF fin] by blast
    then show "snd s p \<noteq> None" using ex [OF that] by (auto simp: exact_def split: option.splits)
  qed
  moreover have "unat (ref_count c) = card {v. fst s v = Some p} mod 2 ^ 32" if "snd s p = Some c" for p c
  proof -
    have "p \<noteq> 0" using that null by auto
    then show ?thesis using ex [of p] that by (simp add: exact_def refs_def unat_of_nat)
  qed
  moreover have "sh_step op s \<noteq> None" if "sh_scoped op s" "card (dom (fst s)) + 1 < 2 ^ 32" for op
    using sh_step_ok [OF inv that] by auto
  ultimately show ?thesis by blast
qed

text \<open>Variable 0 makes an object at 0x500, variable 1 is a copy, then variable 0 is destroyed.\<close>

lemma shared_counts_exact_witness:
  "\<exists>s :: nat sh_state. sh_run s \<and> fst s 0 = None \<and> fst s 1 = Some 0x500 \<and> snd s 0x500 \<noteq> None"
proof -
  define s1 :: "nat sh_state" where "s1 = ([0 \<mapsto> 0x500], [0x500 \<mapsto> \<lparr>cdata = 42, ref_count = 1\<rparr>])"
  define s2 :: "nat sh_state" where "s2 = ([0 \<mapsto> 0x500, 1 \<mapsto> 0x500], [0x500 \<mapsto> \<lparr>cdata = 42, ref_count = 2\<rparr>])"
  define s3 :: "nat sh_state" where "s3 = ([1 \<mapsto> 0x500], [0x500 \<mapsto> \<lparr>cdata = 42, ref_count = 1\<rparr>])"
  have dom2: "dom [0 \<mapsto> x, Suc 0 \<mapsto> y] = {0, Suc 0}" for x y :: ptr by auto
  have "sh_run s1"
    by (rule step [OF start, of "Make 0 0x500 42"])
      (simp_all add: s1_def Shared_make_def Shared_of_counted_def Shared_ref_def field_upd_def deref_def Counted_new_def add_fetch_def)
  then have "sh_run s2"
    by (rule step [of _ "Copy 1 0"])
      (simp_all add: s1_def s2_def Shared_copy_def Shared_ref_def field_upd_def deref_def add_fetch_def)
  then have run: "sh_run s3"
    by (rule step [of _ "Destroy 0"])
      (simp_all add: s2_def s3_def dom2 Shared_destroy_def Shared_unref_def deref_def add_fetch_def Let_def fun_upd_twist)
  have v: "fst s3 0 = None" "fst s3 1 = Some 0x500" by (simp_all add: s3_def)
  then have "snd s3 0x500 \<noteq> None" using shared_counts_exact [OF run] by force
  then show ?thesis using run v by blast
qed

end
