(* ===== verification/Semaphores.thy ===== *)
theory Semaphores
  imports Queues "HOL-Library.Multiset" "HOL-Library.Sublist"
begin

text \<open>
  Counting semaphores: \<^verbatim>\<open>kernel/semaphore.h\<close> and \<^verbatim>\<open>kernel/semaphore.cc\<close>.  What an operation does
  while it holds the semaphore's spin lock is one step on the count and on the queue of waiting
  events; a queue is here the list of what it holds, which is what \<open>Queues\<close> shows it to be.  \<^verbatim>\<open>up\<close>
  appends to the ready queue while it holds the lock.  \<^verbatim>\<open>down\<close> gives the lock back first and appends
  then, so other cores may act in between: \<open>down_locked\<close> is the part under the lock, \<open>down_ready\<close> the
  append, and \<open>sem_down\<close> the two in sequence, as one core runs them.
\<close>

section \<open>The code\<close>

record 'e semaphore =
  sem_count :: u64
  waiting :: "'e list"

definition Semaphore_new :: "u32 \<Rightarrow> 'e semaphore" where
  "Semaphore_new n = \<lparr>sem_count = ucast n, waiting = []\<rparr>"

definition down_locked :: "'e \<Rightarrow> 'e semaphore \<Rightarrow> 'e option \<times> 'e semaphore" where
  "down_locked e s =
     (if sem_count s > 0 then (Some e, s\<lparr>sem_count := sem_count s - 1\<rparr>)
      else (None, s\<lparr>waiting := waiting s @ [e]\<rparr>))"

definition down_ready :: "'e option \<Rightarrow> 'e list \<Rightarrow> 'e list" where
  "down_ready g ready_queue = (case g of Some e \<Rightarrow> ready_queue @ [e] | None \<Rightarrow> ready_queue)"

definition sem_down :: "'e \<Rightarrow> 'e semaphore \<times> 'e list \<Rightarrow> 'e semaphore \<times> 'e list" where
  "sem_down e = (\<lambda>(s, ready_queue). let (g, s') = down_locked e s in (s', down_ready g ready_queue))"

definition sem_up :: "'e semaphore \<times> 'e list \<Rightarrow> ('e semaphore \<times> 'e list) option" where
  "sem_up = (\<lambda>(s, ready_queue).
     case waiting s of
       e # es \<Rightarrow> if sem_count s = 0 then Some (s\<lparr>waiting := es\<rparr>, ready_queue @ [e]) else None
     | [] \<Rightarrow> Some (s\<lparr>sem_count := sem_count s + 1\<rparr>, ready_queue))"

definition sem_await_ready :: "'e semaphore \<Rightarrow> bool \<times> 'e semaphore" where
  "sem_await_ready s = (if sem_count s > 0 then (True, s\<lparr>sem_count := sem_count s - 1\<rparr>) else (False, s))"

definition sem_await_suspend :: "'e \<Rightarrow> 'e semaphore \<times> 'e list \<Rightarrow> 'e semaphore \<times> 'e list" where
  "sem_await_suspend handle s = sem_down handle s"

section \<open>Histories\<close>

text \<open>
  A history of one semaphore on any number of cores: the events in the order \<^verbatim>\<open>down\<close> took the lock
  for them (\<open>asked\<close>), the events granted in the order of the grants (\<open>granted\<close>), those that had to
  wait and those woken by \<^verbatim>\<open>up\<close>, the grants of cores that are between \<^verbatim>\<open>unlock\<close> and \<^verbatim>\<open>ready_queue.add\<close>
  (\<open>adding\<close>), everything put into the ready queue, in order (\<open>readied\<close>), the number of ups and of
  successful \<^verbatim>\<open>await_ready\<close>.
\<close>

record 'e sem_log =
  asked :: "'e list"
  granted :: "'e list"
  waited :: "'e list"
  woken :: "'e list"
  adding :: "'e multiset"
  readied :: "'e list"
  ups :: nat
  taken_now :: nat

definition no_log :: "'e sem_log" where
  "no_log = \<lparr>asked = [], granted = [], waited = [], woken = [], adding = {#}, readied = [], ups = 0, taken_now = 0\<rparr>"

inductive sem_run :: "u32 \<Rightarrow> 'e semaphore \<Rightarrow> 'e sem_log \<Rightarrow> bool" for n where
  sem_start: "sem_run n (Semaphore_new n) no_log"
| sem_grants: "sem_run n s l \<Longrightarrow> down_locked e s = (Some g, s') \<Longrightarrow>
    sem_run n s' (l\<lparr>asked := asked l @ [e], granted := granted l @ [g], adding := add_mset g (adding l)\<rparr>)"
| sem_waits: "sem_run n s l \<Longrightarrow> down_locked e s = (None, s') \<Longrightarrow>
    sem_run n s' (l\<lparr>asked := asked l @ [e], waited := waited l @ [e]\<rparr>)"
| sem_adds: "sem_run n s l \<Longrightarrow> g \<in># adding l \<Longrightarrow>
    sem_run n s (l\<lparr>adding := adding l - {#g#}, readied := down_ready (Some g) (readied l)\<rparr>)"
| sem_ups: "sem_run n s l \<Longrightarrow> unat (sem_count s) + 1 < 2 ^ 64 \<Longrightarrow> sem_up (s, readied l) = Some (s', readied l @ w) \<Longrightarrow>
    sem_run n s' (l\<lparr>granted := granted l @ w, woken := woken l @ w, readied := readied l @ w, ups := ups l + 1\<rparr>)"
| sem_tries: "sem_run n s l \<Longrightarrow> sem_await_ready s = (b, s') \<Longrightarrow>
    sem_run n s' (l\<lparr>taken_now := taken_now l + (if b then 1 else 0)\<rparr>)"

text \<open>Somebody waits only when nothing is left.\<close>

definition sem_ok :: "'e semaphore \<Rightarrow> bool" where
  "sem_ok s \<longleftrightarrow> (waiting s = [] \<or> sem_count s = 0)"

section \<open>Lemmas\<close>

lemma unat_dec_64: "0 < c \<Longrightarrow> Suc (unat (c - 1 :: u64)) = unat c"
  using unat_minus_one [of c] by (simp add: word_gt_0 unat_gt_0)

lemma unat_inc_64: "unat (c :: u64) + 1 < 2 ^ 64 \<Longrightarrow> unat (c + 1) = Suc (unat c)"
  by (simp add: unat_word_ariths)

text \<open>What \<^verbatim>\<open>down\<close> and \<^verbatim>\<open>up\<close> do, seen from outside: a token is a unit of the count or a grant.\<close>

lemma down_locked_cases:
  assumes "down_locked e s = (g, s')" "sem_ok s"
  shows "sem_ok s' \<and> ((g = Some e \<and> waiting s = [] \<and> waiting s' = [] \<and> Suc (unat (sem_count s')) = unat (sem_count s)) \<or>
     (g = None \<and> waiting s' = waiting s @ [e] \<and> sem_count s = 0 \<and> sem_count s' = 0))"
  using assms unat_dec_64 [of "sem_count s"]
  by (auto simp: down_locked_def sem_ok_def word_gt_0 split: if_splits)

lemma sem_down_eq:
  "sem_down e (s, r) =
     (if sem_count s > 0 then (s\<lparr>sem_count := sem_count s - 1\<rparr>, r @ [e]) else (s\<lparr>waiting := waiting s @ [e]\<rparr>, r))"
  by (simp add: sem_down_def down_locked_def down_ready_def)

lemma sem_down_cases:
  assumes "sem_down e (s, r) = (s', r')" "sem_ok s"
  shows "sem_ok s' \<and> ((r' = r @ [e] \<and> waiting s = [] \<and> waiting s' = [] \<and> Suc (unat (sem_count s')) = unat (sem_count s)) \<or>
     (r' = r \<and> waiting s' = waiting s @ [e] \<and> sem_count s = 0 \<and> sem_count s' = 0))"
  using assms unat_dec_64 [of "sem_count s"]
  by (auto simp: sem_down_eq sem_ok_def word_gt_0 split: if_splits)

lemma sem_up_cases:
  assumes "sem_ok s" "unat (sem_count s) + 1 < 2 ^ 64"
  shows "\<exists>s' r'. sem_up (s, r) = Some (s', r') \<and> sem_ok s' \<and>
     ((waiting s = [] \<and> waiting s' = [] \<and> r' = r \<and> unat (sem_count s') = Suc (unat (sem_count s))) \<or>
      (\<exists>e. waiting s = e # waiting s' \<and> r' = r @ [e] \<and> sem_count s = 0 \<and> sem_count s' = 0))"
  using assms unat_inc_64 [of "sem_count s"] by (cases "waiting s") (auto simp: sem_up_def sem_ok_def)

lemma sem_await_ready_cases:
  assumes "sem_await_ready s = (b, s')" "sem_ok s"
  shows "sem_ok s' \<and> waiting s' = waiting s \<and> unat (sem_count s) = unat (sem_count s') + (if b then 1 else 0) \<and>
     (b \<longleftrightarrow> 0 < sem_count s)"
  using assms unat_dec_64 [of "sem_count s"] by (auto simp: sem_await_ready_def sem_ok_def word_gt_0 split: if_splits)

lemma sem_new_ok: "sem_ok (Semaphore_new n)" "unat (sem_count (Semaphore_new n)) = unat n" "waiting (Semaphore_new n) = []"
proof -
  have "unat n < 2 ^ 64" using unat_lt_32 [of n] by (rule less_trans) simp
  then show "unat (sem_count (Semaphore_new n)) = unat n"
    by (simp add: Semaphore_new_def unsigned_ucast_eq take_bit_nat_eq_self)
qed (simp_all add: sem_ok_def Semaphore_new_def)

lemma sem_run_inv:
  assumes "sem_run n s l"
  shows "sem_ok s \<and> granted l @ waiting s = asked l \<and> woken l @ waiting s = waited l \<and>
    mset (granted l) = mset (readied l) + adding l \<and> subseq (woken l) (readied l) \<and>
    length (granted l) + taken_now l + unat (sem_count s) = unat n + ups l"
  using assms
proof (induction rule: sem_run.induct)
  case sem_start
  then show ?case by (simp add: sem_new_ok no_log_def)
next
  case (sem_grants s l e g s')
  then show ?case using down_locked_cases [of e s "Some g" s'] by auto
next
  case (sem_waits s l e s')
  then show ?case using down_locked_cases [of e s None s'] by auto
next
  case (sem_adds s l g)
  then obtain m where "adding l = add_mset g m" by (auto dest: multi_member_split)
  then show ?case using sem_adds.IH by (auto simp: down_ready_def intro: subseq_rev_drop_many)
next
  case (sem_ups s l s' w)
  then show ?case using sem_up_cases [of s "readied l"] by (auto intro: list_emb_append_mono)
next
  case (sem_tries s l b s')
  then show ?case using sem_await_ready_cases [of s b s'] by auto
qed

section \<open>Claims\<close>

text \<open>
  C34. Semaphores count and are fair.  Over every history of \<^verbatim>\<open>down\<close>, \<^verbatim>\<open>up\<close> and \<^verbatim>\<open>await_ready\<close> on any
  number of cores whose count does not reach \<open>2^64\<close>: grants are made in the order \<^verbatim>\<open>down\<close> took the lock;
  grants plus immediate successes plus the present count equal the initial count plus the ups, so
  nothing is granted too often and no wake-up is lost; every grant reaches the ready queue exactly
  once, a grant of \<^verbatim>\<open>down\<close> as soon as its core, having given back the lock, appends it; events that
  had to wait are woken, and stand in the ready queue, in the order they came; events wait only when
  the count is 0; and \<^verbatim>\<open>up\<close> never fails its assertion.
\<close>

theorem semaphore_correct:
  assumes "sem_run n s l"
  shows "granted l @ waiting s = asked l \<and>
    length (granted l) + taken_now l + unat (sem_count s) = unat n + ups l \<and>
    mset (granted l) = mset (readied l) + adding l \<and>
    woken l @ waiting s = waited l \<and> subseq (woken l) (readied l) \<and>
    (waiting s = [] \<or> sem_count s = 0) \<and> sem_up (s, r) \<noteq> None"
proof -
  have "sem_up (s, r) \<noteq> None" if "sem_ok s"
    using that by (auto simp: sem_up_def sem_ok_def split: list.splits)
  then show ?thesis using sem_run_inv [OF assms] by (auto simp: sem_ok_def)
qed

text \<open>
  Two cores take the two tokens of a semaphore for the events 7 and 8, and the second is the first to
  append; a third event waits.  The ready queue gets the grants in the other order.
\<close>

lemma overtaking_run:
  "sem_run 2 \<lparr>sem_count = 0, waiting = [9 :: nat]\<rparr>
     \<lparr>asked = [7, 8, 9], granted = [7, 8], waited = [9], woken = [], adding = {#}, readied = [8, 7], ups = 0, taken_now = 0\<rparr>"
proof -
  note defs = down_locked_def Semaphore_new_def no_log_def down_ready_def
  have "sem_run 2 \<lparr>sem_count = 1, waiting = [] :: nat list\<rparr> (no_log\<lparr>asked := [7], granted := [7], adding := {#7#}\<rparr>)"
    using sem_grants [OF sem_start [of 2], of "7 :: nat" 7 "\<lparr>sem_count = 1, waiting = []\<rparr>"] by (simp add: defs)
  from sem_grants [OF this, of 8 8 "\<lparr>sem_count = 0, waiting = []\<rparr>"]
  have "sem_run 2 \<lparr>sem_count = 0, waiting = [] :: nat list\<rparr> (no_log\<lparr>asked := [7, 8], granted := [7, 8], adding := {#8, 7#}\<rparr>)"
    by (simp add: defs)
  from sem_adds [OF this, of 8]
  have "sem_run 2 \<lparr>sem_count = 0, waiting = [] :: nat list\<rparr>
     (no_log\<lparr>asked := [7, 8], granted := [7, 8], adding := {#7#}, readied := [8]\<rparr>)" by (simp add: defs)
  from sem_waits [OF sem_adds [OF this, of 7], of 9 "\<lparr>sem_count = 0, waiting = [9]\<rparr>"]
  show ?thesis by (simp add: defs)
qed

lemma semaphore_correct_witness:
  "sem_run 2 \<lparr>sem_count = 0, waiting = [9 :: nat]\<rparr>
     \<lparr>asked = [7, 8, 9], granted = [7, 8], waited = [9], woken = [], adding = {#}, readied = [8, 7], ups = 0, taken_now = 0\<rparr> \<and>
   mset [7, 8] = mset [8, 7 :: nat] \<and> sem_up (\<lparr>sem_count = 0, waiting = [9 :: nat]\<rparr>, [8, 7]) \<noteq> None"
  using overtaking_run semaphore_correct [OF overtaking_run, of "[8, 7]"] by simp

end
