(* ===== verification/Bounded_Buffer.thy ===== *)
theory Bounded_Buffer
  imports Semaphores
begin

text \<open>
  Bounded buffers, \<^verbatim>\<open>kernel/bb.h\<close>, on any number of cores.  \<^verbatim>\<open>put\<close> and
  \<^verbatim>\<open>get\<close> hand a closure to \<^verbatim>\<open>Semaphore::down\<close>; once granted, the closure is an event
  of the ready queue that some core runs.  A closure is several atomic actions, and other cores
  act between them, so a running closure is a value that says which action comes next; so is a call of
  \<^verbatim>\<open>down\<close> that was granted and has not yet appended its event to the ready queue.  The step relation
  interleaves callers and running closures in every order.
\<close>

section \<open>The code\<close>

text \<open>The two lambdas of \<^verbatim>\<open>bb.h\<close>, with what they capture.\<close>

datatype ('a, 'w) bb_work = PutWork 'a 'w | GetWork 'w

text \<open>
  What a core is doing: \<open>Adding\<close> is \<^verbatim>\<open>down\<close> after \<^verbatim>\<open>unlock\<close>, about to call \<^verbatim>\<open>ready_queue.add\<close>.  The rest are
  lambdas being run: \<open>Put1\<close> is about to add its value, \<open>Put2\<close> about to call
  \<^verbatim>\<open>n_full->up()\<close>, \<open>Put3\<close> about to call \<^verbatim>\<open>work\<close>; \<open>Get1\<close> about to remove, \<open>Get2\<close> about to call \<^verbatim>\<open>n_empty->up()\<close>,
  \<open>Get3\<close> about to read \<^verbatim>\<open>v->value\<close> and call \<^verbatim>\<open>work\<close>.  \<open>None\<close> is the null pointer.
\<close>

datatype ('a, 'w) bb_running =
    Adding "('a, 'w) bb_work"
  | Put1 'a 'w | Put2 'a 'w | Put3 'a 'w
  | Get1 'w | Get2 "'a option" 'w | Get3 "'a option" 'w

text \<open>
  The fields after \<open>bb_crashed\<close> are a log: the calls in the order \<^verbatim>\<open>down\<close> served them, the values added
  and removed, in order, what each \<^verbatim>\<open>get\<close> was given, and the calls whose \<^verbatim>\<open>work\<close> has been called.
\<close>

record ('a, 'w) bb =
  bb_queue :: "'a list"
  n_full :: "('a, 'w) bb_work semaphore"
  n_empty :: "('a, 'w) bb_work semaphore"
  bb_ready :: "('a, 'w) bb_work list"
  bb_run :: "('a, 'w) bb_running multiset"
  bb_crashed :: bool
  bb_asked :: "('a, 'w) bb_work list"
  bb_added :: "'a list"
  bb_removed :: "'a list"
  bb_delivered :: "('w \<times> 'a) list"
  bb_finished :: "('a, 'w) bb_work list"

definition BoundedBuffer_new :: "u32 \<Rightarrow> ('a, 'w) bb" where
  "BoundedBuffer_new n = \<lparr>bb_queue = [], n_full = Semaphore_new 0, n_empty = Semaphore_new n, bb_ready = [],
     bb_run = {#}, bb_crashed = False, bb_asked = [], bb_added = [], bb_removed = [], bb_delivered = [], bb_finished = []\<rparr>"

text \<open>The grant of a \<^verbatim>\<open>down\<close> leaves the core about to append it.\<close>

definition granted_add :: "('a, 'w) bb_work option \<Rightarrow> ('a, 'w) bb_running multiset" where
  "granted_add g = (case g of None \<Rightarrow> {#} | Some e \<Rightarrow> {#Adding e#})"

definition bb_put :: "'a \<Rightarrow> 'w \<Rightarrow> ('a, 'w) bb \<Rightarrow> ('a, 'w) bb" where
  "bb_put v w b = (let (g, s) = down_locked (PutWork v w) (n_empty b) in
     b\<lparr>n_empty := s, bb_run := granted_add g + bb_run b, bb_asked := bb_asked b @ [PutWork v w]\<rparr>)"

definition bb_get :: "'w \<Rightarrow> ('a, 'w) bb \<Rightarrow> ('a, 'w) bb" where
  "bb_get w b = (let (g, s) = down_locked (GetWork w) (n_full b) in
     b\<lparr>n_full := s, bb_run := granted_add g + bb_run b, bb_asked := bb_asked b @ [GetWork w]\<rparr>)"

fun bb_start :: "('a, 'w) bb_work \<Rightarrow> ('a, 'w) bb_running" where
  "bb_start (PutWork v w) = Put1 v w"
| "bb_start (GetWork w) = Get1 w"

text \<open>One action of a running closure: the new state and what is left of the closure.\<close>

fun bb_action :: "('a, 'w) bb_running \<Rightarrow> ('a, 'w) bb \<Rightarrow> ('a, 'w) bb_running option \<times> ('a, 'w) bb" where
  "bb_action (Adding e) b = (None, b\<lparr>bb_ready := down_ready (Some e) (bb_ready b)\<rparr>)"
| "bb_action (Put1 v w) b = (Some (Put2 v w), b\<lparr>bb_queue := bb_queue b @ [v], bb_added := bb_added b @ [v]\<rparr>)"
| "bb_action (Put2 v w) b =
     (case sem_up (n_full b, bb_ready b) of
        None \<Rightarrow> (None, b\<lparr>bb_crashed := True\<rparr>)
      | Some (s, r) \<Rightarrow> (Some (Put3 v w), b\<lparr>n_full := s, bb_ready := r\<rparr>))"
| "bb_action (Put3 v w) b = (None, b\<lparr>bb_finished := bb_finished b @ [PutWork v w]\<rparr>)"
| "bb_action (Get1 w) b =
     (case bb_queue b of
        [] \<Rightarrow> (Some (Get2 None w), b)
      | v # vs \<Rightarrow> (Some (Get2 (Some v) w), b\<lparr>bb_queue := vs, bb_removed := bb_removed b @ [v]\<rparr>))"
| "bb_action (Get2 v w) b =
     (case sem_up (n_empty b, bb_ready b) of
        None \<Rightarrow> (None, b\<lparr>bb_crashed := True\<rparr>)
      | Some (s, r) \<Rightarrow> (Some (Get3 v w), b\<lparr>n_empty := s, bb_ready := r\<rparr>))"
| "bb_action (Get3 v w) b =
     (case v of
        None \<Rightarrow> (None, b\<lparr>bb_crashed := True\<rparr>)
      | Some x \<Rightarrow> (None, b\<lparr>bb_delivered := bb_delivered b @ [(w, x)], bb_finished := bb_finished b @ [GetWork w]\<rparr>))"

definition bb_resume :: "('a, 'w) bb_running \<Rightarrow> ('a, 'w) bb \<Rightarrow> ('a, 'w) bb" where
  "bb_resume x b = (case bb_action x b of (y, b') \<Rightarrow>
     b'\<lparr>bb_run := (bb_run b - {#x#}) + (case y of None \<Rightarrow> {#} | Some z \<Rightarrow> {#z#})\<rparr>)"

inductive bb_step :: "('a, 'w) bb \<Rightarrow> ('a, 'w) bb \<Rightarrow> bool" where
  bb_puts: "bb_step b (bb_put v w b)"
| bb_gets: "bb_step b (bb_get w b)"
| bb_dispatch: "bb_ready b = e # r \<Longrightarrow> bb_step b (b\<lparr>bb_ready := r, bb_run := add_mset (bb_start e) (bb_run b)\<rparr>)"
| bb_resumes: "x \<in># bb_run b \<Longrightarrow> bb_step b (bb_resume x b)"

section \<open>The invariant\<close>

fun is_put :: "('a, 'w) bb_work \<Rightarrow> bool" where
  "is_put (PutWork v w) = True" | "is_put (GetWork w) = False"

text \<open>Granted and not yet at the queue: a put that holds a free slot, a get that holds a full one.\<close>

fun put_coming :: "('a, 'w) bb_running \<Rightarrow> bool" where
  "put_coming (Adding e) = is_put e" | "put_coming (Put1 v w) = True" | "put_coming _ = False"

fun get_coming :: "('a, 'w) bb_running \<Rightarrow> bool" where
  "get_coming (Adding e) = (\<not> is_put e)" | "get_coming (Get1 w) = True" | "get_coming _ = False"

fun is_put2 :: "('a, 'w) bb_running \<Rightarrow> bool" where
  "is_put2 (Put2 v w) = True" | "is_put2 _ = False"

fun is_get2 :: "('a, 'w) bb_running \<Rightarrow> bool" where
  "is_get2 (Get2 v w) = True" | "is_get2 _ = False"

text \<open>The values a running get has taken out and not delivered yet.\<close>

fun carried :: "('a, 'w) bb_running \<Rightarrow> 'a multiset" where
  "carried (Get2 (Some v) w) = {#v#}"
| "carried (Get3 (Some v) w) = {#v#}"
| "carried _ = {#}"

text \<open>The call a core is working for.\<close>

fun origin :: "('a, 'w) bb_running \<Rightarrow> ('a, 'w) bb_work" where
  "origin (Adding e) = e"
| "origin (Put1 v w) = PutWork v w" | "origin (Put2 v w) = PutWork v w" | "origin (Put3 v w) = PutWork v w"
| "origin (Get1 w) = GetWork w" | "origin (Get2 v w) = GetWork w" | "origin (Get3 v w) = GetWork w"

fun empty_handed :: "('a, 'w) bb_running \<Rightarrow> bool" where
  "empty_handed (Get2 None w) = True" | "empty_handed (Get3 None w) = True" | "empty_handed _ = False"

definition many :: "('x \<Rightarrow> bool) \<Rightarrow> 'x multiset \<Rightarrow> nat" where
  "many P m = size (filter_mset P m)"

definition bb_inv :: "nat \<Rightarrow> ('a, 'w) bb \<Rightarrow> bool" where
  "bb_inv N b \<longleftrightarrow>
     \<not> bb_crashed b \<and> sem_ok (n_full b) \<and> sem_ok (n_empty b) \<and>
     (\<forall>e \<in> set (waiting (n_full b)). \<not> is_put e) \<and> (\<forall>e \<in> set (waiting (n_empty b)). is_put e) \<and>
     length (bb_queue b) = unat (sem_count (n_full b)) + many (\<lambda>e. \<not> is_put e) (mset (bb_ready b)) +
       many get_coming (bb_run b) + many is_put2 (bb_run b) \<and>
     N = unat (sem_count (n_empty b)) + many is_put (mset (bb_ready b)) + many put_coming (bb_run b) +
       length (bb_queue b) + many is_get2 (bb_run b) \<and>
     (\<forall>x \<in># bb_run b. \<not> empty_handed x) \<and>
     bb_removed b @ bb_queue b = bb_added b \<and>
     mset (bb_removed b) = mset (map snd (bb_delivered b)) + (\<Sum>x \<in># bb_run b. carried x) \<and>
     mset (bb_asked b) = mset (waiting (n_full b)) + mset (waiting (n_empty b)) + mset (bb_ready b) +
       image_mset origin (bb_run b) + mset (bb_finished b)"

lemma many_simps [simp]:
  "many P {#} = 0" "many P (add_mset x m) = (if P x then Suc (many P m) else many P m)" "many P (m + n) = many P m + many P n"
  by (simp_all add: many_def)

lemma many_remove: "x \<in># m \<Longrightarrow> many P m = (if P x then 1 else 0) + many P (m - {#x#})"
  by (auto dest: multi_member_split)

lemma bb_inv_new: "bb_inv (unat n) (BoundedBuffer_new n)"
  by (simp add: bb_inv_def BoundedBuffer_new_def sem_new_ok)

lemma bb_inv_put:
  assumes inv: "bb_inv N b"
  shows "bb_inv N (bb_put v w b)"
proof -
  obtain g s where d: "down_locked (PutWork v w) (n_empty b) = (g, s)" by force
  then show ?thesis
    using inv down_locked_cases [OF d] by (auto simp: bb_inv_def bb_put_def granted_add_def)
qed

lemma bb_inv_get:
  assumes inv: "bb_inv N b"
  shows "bb_inv N (bb_get w b)"
proof -
  obtain g s where d: "down_locked (GetWork w) (n_full b) = (g, s)" by force
  then show ?thesis
    using inv down_locked_cases [OF d] by (auto simp: bb_inv_def bb_get_def granted_add_def)
qed

lemma bb_inv_dispatch:
  "bb_inv N b \<Longrightarrow> bb_ready b = e # r \<Longrightarrow> bb_inv N (b\<lparr>bb_ready := r, bb_run := add_mset (bb_start e) (bb_run b)\<rparr>)"
  by (cases e) (auto simp: bb_inv_def)

lemma bb_inv_resume:
  assumes inv: "bb_inv N b" and N: "N < 2 ^ 32" and x: "x \<in># bb_run b"
  shows "bb_inv N (bb_resume x b)"
proof -
  obtain m where m: "bb_run b = add_mset x m" using x by (auto dest: multi_member_split)
  have lim: "unat (sem_count (n_full b)) + 1 < 2 ^ 64" "unat (sem_count (n_empty b)) + 1 < 2 ^ 64"
    using inv N by (auto simp: bb_inv_def)
  note full = sem_up_cases [of "n_full b" "bb_ready b", OF _ lim(1)]
  note empty = sem_up_cases [of "n_empty b" "bb_ready b", OF _ lim(2)]
  show ?thesis
  proof (cases x)
    case (Put1 v w)
    then show ?thesis using inv m by (auto simp: bb_inv_def bb_resume_def)
  next
    case (Put2 v w)
    then show ?thesis using inv m full by (auto simp: bb_inv_def bb_resume_def)
  next
    case (Put3 v w)
    then show ?thesis using inv m by (auto simp: bb_inv_def bb_resume_def)
  next
    case (Adding e)
    then show ?thesis using inv m by (auto simp: bb_inv_def bb_resume_def down_ready_def)
  next
    case (Get1 w)
    then have "bb_queue b \<noteq> []" using inv m by (auto simp: bb_inv_def)
    then obtain v vs where "bb_queue b = v # vs" by (cases "bb_queue b") auto
    then show ?thesis using inv m Get1 by (auto simp: bb_inv_def bb_resume_def)
  next
    case (Get2 v w)
    then obtain y where "v = Some y" using inv m by (cases v) (auto simp: bb_inv_def)
    then show ?thesis using inv m empty Get2 by (auto simp: bb_inv_def bb_resume_def)
  next
    case (Get3 v w)
    then obtain y where "v = Some y" using inv m by (cases v) (auto simp: bb_inv_def)
    then show ?thesis using inv m Get3 by (auto simp: bb_inv_def bb_resume_def)
  qed
qed

lemma bb_inv_step: "bb_step b b' \<Longrightarrow> N < 2 ^ 32 \<Longrightarrow> bb_inv N b \<Longrightarrow> bb_inv N b'"
  by (induction rule: bb_step.induct) (auto intro: bb_inv_put bb_inv_get bb_inv_dispatch bb_inv_resume)

lemma bb_inv_reach: "bb_step\<^sup>*\<^sup>* b b' \<Longrightarrow> N < 2 ^ 32 \<Longrightarrow> bb_inv N b \<Longrightarrow> bb_inv N b'"
  by (induction rule: rtranclp_induct) (auto intro: bb_inv_step)

section \<open>Claims\<close>

text \<open>No event is ready and no closure is running: only a caller can make the next step.\<close>

definition bb_idle :: "('a, 'w) bb \<Rightarrow> bool" where
  "bb_idle b \<longleftrightarrow> bb_ready b = [] \<and> bb_run b = {#}"

text \<open>
  C33. The bounded buffer works under every interleaving of callers and cores.  The queue
  never holds more than \<open>n\<close> values; a \<^verbatim>\<open>get\<close> never finds it empty and no assertion fails;
  values leave the queue in the order they entered it, and every value taken out is handed to exactly
  one caller of \<^verbatim>\<open>get\<close>, or on its way there (calls that run on different cores may overtake each other
  before and after the queue); no call is lost or served twice.  When the system is idle,
  every value taken out has been handed over, every call has had its \<^verbatim>\<open>work\<close> called once or waits, a
  \<^verbatim>\<open>get\<close> waits only while the buffer is empty and a \<^verbatim>\<open>put\<close> only while it is full, so
  with \<open>n > 0\<close> the two never wait for each other.
\<close>

theorem bounded_buffer_correct:
  assumes "bb_step\<^sup>*\<^sup>* (BoundedBuffer_new n) b"
  shows "\<not> bb_crashed b \<and> length (bb_queue b) \<le> unat n \<and> bb_removed b @ bb_queue b = bb_added b \<and>
    mset (bb_removed b) = mset (map snd (bb_delivered b)) + (\<Sum>x \<in># bb_run b. carried x) \<and>
    mset (bb_asked b) = mset (waiting (n_full b)) + mset (waiting (n_empty b)) + mset (bb_ready b) +
      image_mset origin (bb_run b) + mset (bb_finished b) \<and>
    (bb_idle b \<longrightarrow> mset (bb_removed b) = mset (map snd (bb_delivered b)) \<and>
       mset (bb_asked b) = mset (waiting (n_full b)) + mset (waiting (n_empty b)) + mset (bb_finished b) \<and>
       (waiting (n_full b) \<noteq> [] \<longrightarrow> bb_queue b = []) \<and>
       (waiting (n_empty b) \<noteq> [] \<longrightarrow> length (bb_queue b) = unat n) \<and>
       (0 < n \<longrightarrow> waiting (n_full b) = [] \<or> waiting (n_empty b) = []))"
proof -
  have "bb_inv (unat n) b"
    using bb_inv_reach [OF assms _ bb_inv_new] by simp
  then show ?thesis by (auto simp: bb_inv_def bb_idle_def sem_ok_def word_gt_0 unat_eq_zero)
qed

text \<open>A buffer for one value: a \<^verbatim>\<open>get\<close> waits, then a \<^verbatim>\<open>put\<close> is granted and reaches the ready queue.\<close>

lemma bounded_buffer_correct_witness:
  "\<exists>b :: (nat, nat) bb. bb_step\<^sup>*\<^sup>* (BoundedBuffer_new 1) b \<and> bb_ready b = [PutWork 42 9] \<and>
     waiting (n_full b) = [GetWork 5] \<and> length (bb_queue b) \<le> 1"
proof -
  let ?b1 = "bb_put 42 9 (bb_get 5 (BoundedBuffer_new 1)) :: (nat, nat) bb"
  let ?b = "bb_resume (Adding (PutWork 42 9)) ?b1"
  note defs = bb_put_def bb_get_def BoundedBuffer_new_def down_locked_def Semaphore_new_def granted_add_def
  have "bb_step (BoundedBuffer_new 1) (bb_get 5 (BoundedBuffer_new 1) :: (nat, nat) bb)" by (rule bb_gets)
  moreover have "bb_step (bb_get 5 (BoundedBuffer_new 1)) ?b1" by (rule bb_puts)
  moreover have "bb_step ?b1 ?b" by (rule bb_resumes) (simp add: defs)
  ultimately have reach: "bb_step\<^sup>*\<^sup>* (BoundedBuffer_new 1) ?b"
    by (meson rtranclp.rtrancl_refl rtranclp.rtrancl_into_rtrancl)
  have "length (bb_queue ?b) \<le> 1" using bounded_buffer_correct [OF reach] by simp
  then show ?thesis
    using reach by (intro exI [of _ ?b]) (simp add: bb_resume_def down_ready_def defs)
qed

end
