(* ===== verification/Futures.thy ===== *)
theory Futures
  imports Semaphores
begin

text \<open>
  Futures: \<^verbatim>\<open>kernel/future.h\<close>.  A future is a value and a semaphore that starts at 0;
  \<^verbatim>\<open>set\<close> stores the value and then calls \<^verbatim>\<open>up\<close>, every closure of \<^verbatim>\<open>get\<close> passes the
  token on before it runs its work.  As in \<open>Bounded_Buffer\<close>, actions of different cores
  interleave freely.
\<close>

section \<open>The code\<close>














section \<open>The invariant\<close>















section \<open>Claims\<close>



end
