(* ===== verification/Events.thy ===== *)
theory Events
  imports Queues "HOL-Library.Multiset"
begin

text \<open>
  The event system: \<^verbatim>\<open>kernel/events.h\<close> and \<^verbatim>\<open>kernel/events.cc\<close>.  Events are
  heap objects known by their address.  \<^verbatim>\<open>PQ\<close> is the sorted chain of timed events, kept
  here as the list of its entries; the ready queue is the list its nodes form (see
  \<open>Queues\<close>).  \<open>event_loop\<close> is one round of the loop of the same name on one core; what
  an event's \<^verbatim>\<open>doit()\<close> does is a parameter, and it may leave the loop for good
  (\<^verbatim>\<open>switchToUser\<close>).
\<close>

section \<open>The timer queue\<close>

record pq_entry =
  at :: u32
  event :: ptr

text \<open>The loop of \<^verbatim>\<open>PQ::add\<close> walks past every entry that is not later than \<open>t\<close>.\<close>

fun pq_add :: "u32 \<Rightarrow> ptr \<Rightarrow> pq_entry list \<Rightarrow> pq_entry list" where
  "pq_add t e [] = [\<lparr>at = t, event = e\<rparr>]"
| "pq_add t e (p # ps) = (if at p > t then \<lparr>at = t, event = e\<rparr> # p # ps else p # pq_add t e ps)"

definition remove_if_ready :: "u32 \<Rightarrow> pq_entry list \<Rightarrow> ptr \<times> pq_entry list" where
  "remove_if_ready jiffies pq =
     (case pq of
        [] \<Rightarrow> (0, pq)
      | p # ps \<Rightarrow> if at p \<le> jiffies then (event p, ps) else (0, pq))"

section \<open>The event loop\<close>

text \<open>
  The kernel as the event loop sees it: the clock, the two queues, the addresses of the events
  that exist, and this core's \<^verbatim>\<open>last_event\<close>.
\<close>

record events =
  jiffies :: u32
  pq :: "pq_entry list"
  ready :: "ptr list"
  live :: "ptr set"
  last_event :: ptr

definition timed :: "u32 \<Rightarrow> ptr \<Rightarrow> events \<Rightarrow> events" where
  "timed t e s = s\<lparr>pq := pq_add t e (pq s)\<rparr>"

definition ready_add :: "ptr \<Rightarrow> events \<Rightarrow> events" where
  "ready_add e s = s\<lparr>ready := ready s @ [e]\<rparr>"

text \<open>\<^verbatim>\<open>go(work, delay)\<close>, with the address the heap gives to the new event.\<close>

definition go :: "ptr \<Rightarrow> u32 \<Rightarrow> events \<Rightarrow> events" where
  "go e delay s = (let s1 = s\<lparr>live := insert e (live s)\<rparr> in
     if delay = 0 then ready_add e s1 else timed (jiffies s1 + delay + 1) e s1)"

text \<open>\<^verbatim>\<open>run_at\<close> makes a new event either way: one that tries again, or one that does the work.\<close>

datatype run_at_kind = Retry | Work

definition run_at :: "u32 \<Rightarrow> ptr \<Rightarrow> events \<Rightarrow> run_at_kind \<times> events" where
  "run_at t e s = (if t > jiffies s then Retry else Work, ready_add e (s\<lparr>live := insert e (live s)\<rparr>))"

text \<open>Deleting an event that does not exist any more is an error of the program.\<close>

definition delete_event :: "ptr \<Rightarrow> events \<Rightarrow> events option" where
  "delete_event e s = (if e \<in> live s then Some (s\<lparr>live := live s - {e}\<rparr>) else None)"

text \<open>The inner loop moves every due event to the ready queue.\<close>

function drain :: "events \<Rightarrow> events" where
  "drain s = (case remove_if_ready (jiffies s) (pq s) of (e, ps) \<Rightarrow>
     if e = 0 then s else drain (ready_add e (s\<lparr>pq := ps\<rparr>)))"
  by pat_completeness auto

lemma remove_if_ready_shorter: "remove_if_ready j q = (e, ps) \<Longrightarrow> e \<noteq> 0 \<Longrightarrow> length ps < length q"
  by (auto simp: remove_if_ready_def split: list.splits if_splits)

termination drain
  by (relation "measure (\<lambda>s. length (pq s))") (auto simp: ready_add_def dest: remove_if_ready_shorter [OF sym])

declare drain.simps [simp del]

text \<open>What \<^verbatim>\<open>doit()\<close> may do: return, or enter user mode and never come back here.\<close>

datatype 's outcome = Returned 's | Left 's

definition event_loop :: "(ptr \<Rightarrow> events \<Rightarrow> events outcome) \<Rightarrow> events \<Rightarrow> events outcome option" where
  "event_loop doit s = do {
     s1 \<leftarrow> (if last_event s \<noteq> 0 then map_option (\<lambda>t. t\<lparr>last_event := 0\<rparr>) (delete_event (last_event s) s) else Some s);
     let s2 = drain s1;
     case ready s2 of
       [] \<Rightarrow> Some (Returned s2)
     | e # es \<Rightarrow>
         (case doit e (s2\<lparr>ready := es, last_event := e\<rparr>) of
            Left t \<Rightarrow> Some (Left t)
          | Returned t \<Rightarrow> map_option Returned (delete_event e t)) }"

section \<open>The timer queue is sorted and stable\<close>

abbreviation pq_sorted :: "pq_entry list \<Rightarrow> bool" where
  "pq_sorted q \<equiv> sorted (map at q)"

lemma pq_add_mset: "mset (pq_add t e q) = add_mset \<lparr>at = t, event = e\<rparr> (mset q)"
  by (induction q) auto

lemma pq_add_set: "set (pq_add t e q) = insert \<lparr>at = t, event = e\<rparr> (set q)"
  by (induction q) auto

lemma pq_add_sorted: "pq_sorted q \<Longrightarrow> pq_sorted (pq_add t e q)"
  by (induction q) (auto simp: pq_add_set)

text \<open>Among entries of one time, the new one comes last.\<close>

lemma pq_add_stable:
  "pq_sorted q \<Longrightarrow> filter (\<lambda>p. at p = k) (pq_add t e q) =
     filter (\<lambda>p. at p = k) q @ (if t = k then [\<lparr>at = t, event = e\<rparr>] else [])"
proof (induction q)
  case (Cons p q)
  have "filter (\<lambda>p. at p = k) (p # q) = []" if "at p > t" "t = k"
    using that Cons.prems by (fastforce simp: filter_empty_conv)
  then show ?case using Cons by auto
qed simp

lemma drain_spec:
  assumes "pq_sorted (pq s)" "\<forall>p \<in> set (pq s). event p \<noteq> 0"
  shows "drain s = s\<lparr>ready := ready s @ map event (filter (\<lambda>p. at p \<le> jiffies s) (pq s)),
     pq := filter (\<lambda>p. \<not> at p \<le> jiffies s) (pq s)\<rparr>"
  using assms
proof (induction s rule: drain.induct)
  case (1 s)
  show ?case
  proof (cases "pq s")
    case Nil
    then show ?thesis by (subst drain.simps) (simp add: remove_if_ready_def)
  next
    case (Cons p ps)
    show ?thesis
    proof (cases "at p \<le> jiffies s")
      case True
      then have r: "remove_if_ready (jiffies s) (pq s) = (event p, ps)" using Cons by (simp add: remove_if_ready_def)
      have nz: "event p \<noteq> 0" using "1.prems"(2) Cons by simp
      have "drain (ready_add (event p) (s\<lparr>pq := ps\<rparr>)) = (ready_add (event p) (s\<lparr>pq := ps\<rparr>))\<lparr>
          ready := ready (ready_add (event p) (s\<lparr>pq := ps\<rparr>)) @ map event (filter (\<lambda>p. at p \<le> jiffies s) ps),
          pq := filter (\<lambda>p. \<not> at p \<le> jiffies s) ps\<rparr>"
        using "1.IH" [OF r [symmetric] nz] "1.prems" Cons by (simp add: ready_add_def)
      then show ?thesis using True Cons r nz by (subst drain.simps) (simp add: ready_add_def)
    next
      case False
      have "\<not> at q \<le> jiffies s" if "q \<in> set (p # ps)" for q
        using that False "1.prems"(1) Cons by auto
      then have "filter (\<lambda>p. at p \<le> jiffies s) (pq s) = []" "filter (\<lambda>p. \<not> at p \<le> jiffies s) (pq s) = pq s"
        using Cons by (auto simp: filter_empty_conv filter_id_conv)
      then show ?thesis using False Cons by (subst drain.simps) (simp add: remove_if_ready_def)
    qed
  qed
qed

text \<open>The events that some queue holds all exist, each once, and none of them is null.\<close>

definition events_ok :: "events \<Rightarrow> bool" where
  "events_ok s \<longleftrightarrow> pq_sorted (pq s) \<and> distinct (ready s @ map event (pq s)) \<and>
     set (ready s) \<union> event ` set (pq s) \<subseteq> live s \<and> 0 \<notin> live s"

lemma drain_ok:
  assumes "events_ok s"
  shows "events_ok (drain s)"
proof -
  have ok: "pq_sorted (pq s)" "\<forall>p \<in> set (pq s). event p \<noteq> 0" "distinct (ready s @ map event (pq s))"
    "set (ready s) \<union> event ` set (pq s) \<subseteq> live s" "0 \<notin> live s"
    using assms by (auto simp: events_ok_def)
  note d = drain_spec [OF ok(1,2)]
  have "mset (map event (filter P q)) + mset (map event (filter (\<lambda>x. \<not> P x) q)) = mset (map event q)" for P q
    by (induction q) auto
  from this [of "\<lambda>p. at p \<le> jiffies s" "pq s"]
  have "mset (ready (drain s) @ map event (pq (drain s))) = mset (ready s @ map event (pq s))"
    unfolding d by (simp add: add.assoc)
  then have "distinct (ready (drain s) @ map event (pq (drain s)))" using ok(3) by (metis mset_eq_imp_distinct_iff)
  then show ?thesis
    using ok(1,4,5) unfolding events_ok_def d by (auto simp: sorted_filter)
qed

section \<open>Claims\<close>

text \<open>
  The timer queue hands out events in order of time, oldest first among equals, and
  never early.  Adding keeps it sorted and puts the entry behind those of the same time; draining
  moves exactly the entries that are due, in that order, to the end of the ready queue and keeps
  exactly the others.
\<close>

theorem timer_queue_correct:
  assumes "events_ok s"
  shows "pq_sorted (pq_add t e (pq s)) \<and>
    filter (\<lambda>p. at p = k) (pq_add t e (pq s)) =
      filter (\<lambda>p. at p = k) (pq s) @ (if t = k then [\<lparr>at = t, event = e\<rparr>] else []) \<and>
    ready (drain s) = ready s @ map event (filter (\<lambda>p. at p \<le> jiffies s) (pq s)) \<and>
    pq (drain s) = filter (\<lambda>p. \<not> at p \<le> jiffies s) (pq s) \<and>
    live (drain s) = live s \<and> events_ok (drain s)"
proof -
  have ok: "pq_sorted (pq s)" "\<forall>p \<in> set (pq s). event p \<noteq> 0"
    using assms by (auto simp: events_ok_def)
  then show ?thesis
    using pq_add_sorted [OF ok(1)] pq_add_stable [OF ok(1)] drain_ok [OF assms] by (simp add: drain_spec)
qed

definition ex_events :: events where
  "ex_events = \<lparr>jiffies = 100, pq = [\<lparr>at = 50, event = 0x20\<rparr>, \<lparr>at = 100, event = 0x30\<rparr>, \<lparr>at = 101, event = 0x40\<rparr>],
     ready = [0x10], live = {0x10, 0x20, 0x30, 0x40}, last_event = 0\<rparr>"

lemma timer_queue_correct_witness:
  "ready (drain ex_events) = [0x10, 0x20, 0x30] \<and> pq (drain ex_events) = [\<lparr>at = 101, event = 0x40\<rparr>]"
proof -
  have "events_ok ex_events" by (simp add: events_ok_def ex_events_def)
  from timer_queue_correct [OF this, of 0 0 0] show ?thesis by (simp add: ex_events_def)
qed

text \<open>
  An event whose \<^verbatim>\<open>doit()\<close> returns is deleted twice.  The loop deletes it when
  \<^verbatim>\<open>doit()\<close> returns and leaves \<^verbatim>\<open>last_event\<close> pointing to it, so the next round on that
  core deletes it again: the first of two rounds succeeds and the second has no result.
\<close>

theorem event_loop_double_delete:
  assumes "events_ok s" "last_event s = 0" "ready (drain s) \<noteq> []"
    and "\<And>e t. doit e t = Returned t"
  shows "\<exists>s'. event_loop doit s = Some (Returned s') \<and> hd (ready (drain s)) \<notin> live s' \<and>
    last_event s' = hd (ready (drain s)) \<and> event_loop doit s' = None"
proof -
  obtain e es where r: "ready (drain s) = e # es" using assms(3) by (cases "ready (drain s)") auto
  have d: "events_ok (drain s)" by (rule drain_ok [OF assms(1)])
  then have e: "e \<in> live (drain s)" "e \<noteq> 0" using r by (auto simp: events_ok_def)
  define s' where "s' = (drain s)\<lparr>ready := es, last_event := e, live := live (drain s) - {e}\<rparr>"
  have "event_loop doit s = Some (Returned s')"
    using assms(2,4) r e by (simp add: event_loop_def delete_event_def s'_def Let_def)
  moreover have "event_loop doit s' = None"
    using e by (simp add: event_loop_def delete_event_def s'_def)
  ultimately show ?thesis using r by (intro exI [of _ s']) (simp add: s'_def)
qed

lemma event_loop_double_delete_witness:
  "\<exists>s'. event_loop (\<lambda>e. Returned) ex_events = Some (Returned s') \<and> event_loop (\<lambda>e. Returned) s' = None"
proof -
  have ok: "events_ok ex_events" by (simp add: events_ok_def ex_events_def)
  moreover have "ready (drain ex_events) \<noteq> []"
    by (subst drain_spec) (simp_all add: ex_events_def)
  ultimately show ?thesis
    using event_loop_double_delete [OF ok, of "\<lambda>e. Returned"] by (auto simp: ex_events_def)
qed

end
