(* ===== verification/Heap_Alloc.thy ===== *)
theory Heap_Alloc
  imports Kernel_Prelude
begin

text \<open>
  The boundary-tag heaps: the kernel's (\<^verbatim>\<open>kernel/heap.cc\<close>, best fit among the first twenty
  candidates) and the one user programs are linked with (\<^verbatim>\<open>t0.dir/sbin/heap.c\<close>, first fit,
  with \<^verbatim>\<open>realloc\<close>).  Both keep blocks of \<^verbatim>\<open>int\<close>s in one array: the first and last word of
  a block hold its size, negative when it is taken, and words 1 and 2 of a free block link it into
  the list of free blocks.  The array is a function on indices.

  The abstraction is the list of blocks in address order; the invariant \<open>heap_inv\<close> ties it to
  the array and to the free list.  Sizes and indices stay below \<open>2^31\<close> under the invariant, so
  \<^verbatim>\<open>int\<close> is \<^typ>\<open>int\<close>; the one computation that can wrap, the one from the number of
  bytes asked for, is done on 32-bit words.
\<close>

section \<open>The kernel heap\<close>

record heap =
  base :: u32
  array :: "int \<Rightarrow> int"
  len :: int
  safe :: bool
  avail :: int
  heap_count :: u32

definition heap_size :: "heap \<Rightarrow> int \<Rightarrow> int" where
  "heap_size h i = \<bar>array h i\<bar>"

definition headerFromFooter :: "heap \<Rightarrow> int \<Rightarrow> int" where
  "headerFromFooter h i = i - heap_size h i + 1"

definition footerFromHeader :: "heap \<Rightarrow> int \<Rightarrow> int" where
  "footerFromHeader h i = i + heap_size h i - 1"

definition sanity :: "heap \<Rightarrow> int \<Rightarrow> int option" where
  "sanity h i =
     (if safe h then
        if i = 0 then Some 0
        else if i < 0 \<or> i \<ge> len h then None
        else let footer = footerFromHeader h i in
          if footer < 0 \<or> footer \<ge> len h then None
          else if array h i \<noteq> array h footer then None
          else Some i
      else Some i)"

definition left :: "heap \<Rightarrow> int \<Rightarrow> int option" where
  "left h i = sanity h (headerFromFooter h (i - 1))"

definition right :: "heap \<Rightarrow> int \<Rightarrow> int option" where
  "right h i = sanity h (i + heap_size h i)"

definition next_free :: "heap \<Rightarrow> int \<Rightarrow> int option" where
  "next_free h i = sanity h (array h (i + 1))"

definition prev_free :: "heap \<Rightarrow> int \<Rightarrow> int option" where
  "prev_free h i = sanity h (array h (i + 2))"

definition store_int :: "int \<Rightarrow> int \<Rightarrow> heap \<Rightarrow> heap" where
  "store_int i x h = h\<lparr>array := (array h)(i := x)\<rparr>"

definition setNext :: "int \<Rightarrow> int \<Rightarrow> heap \<Rightarrow> heap" where
  "setNext i x h = store_int (i + 1) x h"

definition setPrev :: "int \<Rightarrow> int \<Rightarrow> heap \<Rightarrow> heap" where
  "setPrev i x h = store_int (i + 2) x h"

definition unlink_free :: "int \<Rightarrow> heap \<Rightarrow> heap option" where
  "unlink_free i h = do {
     prevIndex \<leftarrow> prev_free h i;
     nextIndex \<leftarrow> next_free h i;
     let h1 = (if prevIndex = 0 then h\<lparr>avail := nextIndex\<rparr> else setNext prevIndex nextIndex h);
     Some (if nextIndex \<noteq> 0 then setPrev nextIndex prevIndex h1 else h1) }"

definition makeAvail :: "int \<Rightarrow> int \<Rightarrow> heap \<Rightarrow> heap" where
  "makeAvail i ints h =
     (let h1 = store_int i ints h;
          h2 = store_int (footerFromHeader h1 i) ints h1;
          h3 = setNext i (avail h2) h2;
          h4 = setPrev i 0 h3;
          h5 = (if avail h4 \<noteq> 0 then setPrev (avail h4) i h4 else h4)
      in h5\<lparr>avail := i\<rparr>)"

definition makeTaken :: "int \<Rightarrow> int \<Rightarrow> heap \<Rightarrow> heap" where
  "makeTaken i ints h =
     (let h1 = store_int i (- ints) h in store_int (footerFromHeader h1 i) (- ints) h1)"

definition isAvail :: "heap \<Rightarrow> int \<Rightarrow> bool" where
  "isAvail h i \<longleftrightarrow> array h i > 0"

definition isTaken :: "heap \<Rightarrow> int \<Rightarrow> bool" where
  "isTaken h i \<longleftrightarrow> array h i < 0"

definition ints_for :: "u32 \<Rightarrow> int" where
  "ints_for bytes = max (uint ((bytes + 3) div 4 + 2)) 4"

definition block_ptr :: "heap \<Rightarrow> int \<Rightarrow> u32" where
  "block_ptr h it = base h + 4 * of_int (it + 1)"

definition block_idx :: "heap \<Rightarrow> u32 \<Rightarrow> int" where
  "block_idx h p = uint ((p - base h) div 4) - 1"

text \<open>The search of the kernel's \<^verbatim>\<open>malloc\<close>: the smallest of the first twenty blocks that fit.\<close>

partial_function (option) best_loop :: "heap \<Rightarrow> int \<Rightarrow> int \<Rightarrow> int \<Rightarrow> int \<Rightarrow> int \<Rightarrow> (int \<times> int) option" where
  "best_loop h ints mx it countDown p =
     (if p = 0 then Some (mx, it)
      else if \<not> isAvail h p then None
      else
        let sz = heap_size h p in
        if sz \<ge> ints then
          let (mx', it') = (if sz < mx then (sz, p) else (mx, it)) in
          if countDown - 1 = 0 then Some (mx', it')
          else do { p' \<leftarrow> next_free h p; best_loop h ints mx' it' (countDown - 1) p' }
        else do { p' \<leftarrow> next_free h p; best_loop h ints mx it countDown p' })"

text \<open>Cutting \<open>ints\<close> words off the free block \<open>it\<close> of \<open>mx\<close> words, common to both heaps.\<close>

definition take_block :: "int \<Rightarrow> int \<Rightarrow> int \<Rightarrow> heap \<Rightarrow> heap option" where
  "take_block it mx ints h = do {
     h1 \<leftarrow> unlink_free it h;
     let extra = mx - ints;
     Some (if extra \<ge> 4 then makeAvail (it + ints) extra (makeTaken it ints h1) else makeTaken it mx h1) }"

definition malloc :: "u32 \<Rightarrow> heap \<Rightarrow> (u32 \<times> heap) option" where
  "malloc bytes h =
     (if bytes = 0 then Some (base h, h)
      else do {
        let ints = ints_for bytes;
        (mx, it) \<leftarrow> best_loop h ints 0x7FFFFFFF 0 20 (avail h);
        if it \<noteq> 0 then do {
          h1 \<leftarrow> take_block it mx ints h;
          Some (block_ptr h it, h1\<lparr>heap_count := heap_count h1 + 1\<rparr>) }
        else Some (0, h) })"

text \<open>Freeing block \<open>idx\<close>, with its free neighbours.\<close>

definition release_block :: "int \<Rightarrow> heap \<Rightarrow> heap option" where
  "release_block idx h = do {
     let sz = heap_size h idx;
     leftIndex \<leftarrow> left h idx;
     rightIndex \<leftarrow> right h idx;
     (h1, idx1, sz1) \<leftarrow> (if isAvail h leftIndex
        then do { h' \<leftarrow> unlink_free leftIndex h; Some (h', leftIndex, sz + heap_size h' leftIndex) }
        else Some (h, idx, sz));
     (h2, sz2) \<leftarrow> (if isAvail h1 rightIndex
        then do { h' \<leftarrow> unlink_free rightIndex h1; Some (h', sz1 + heap_size h' rightIndex) }
        else Some (h1, sz1));
     Some (makeAvail idx1 sz2 h2) }"

definition free :: "u32 \<Rightarrow> heap \<Rightarrow> heap option" where
  "free p h =
     (if p = 0 then Some h
      else if p = base h then Some h
      else do {
        let h0 = h\<lparr>heap_count := heap_count h - 1\<rparr>;
        idx \<leftarrow> sanity h0 (block_idx h0 p);
        if \<not> isTaken h0 idx then None else release_block idx h0 })"

definition operator_new :: "u32 \<Rightarrow> heap \<Rightarrow> (u32 \<times> heap) option" where
  "operator_new n h = do { (p, h') \<leftarrow> malloc n h; if p = 0 then None else Some (p, h') }"

definition operator_delete :: "u32 \<Rightarrow> heap \<Rightarrow> heap option" where
  "operator_delete p h = free p h"

text \<open>\<^verbatim>\<open>heapInit\<close> ends by allocating the heap's own lock, a one-byte object.\<close>

definition heapInit :: "u32 \<Rightarrow> u32 \<Rightarrow> heap \<Rightarrow> (u32 \<times> heap) option" where
  "heapInit b bytes h =
     (let h0 = h\<lparr>base := b, len := uint (bytes div 4)\<rparr>;
          h1 = makeTaken 0 2 h0;
          h2 = makeAvail 2 (len h1 - 4) h1;
          h3 = makeTaken (len h2 - 2) 2 h2
      in operator_new 1 h3)"

section \<open>Blocks\<close>

text \<open>A block is its size in words and whether it is free.\<close>

type_synonym block = "int \<times> bool"

definition tot :: "block list \<Rightarrow> int" where
  "tot bs = sum_list (map fst bs)"

text \<open>\<open>blocks a i bs\<close>: from index \<open>i\<close> the array holds the headers and footers of \<open>bs\<close>.\<close>

fun blocks :: "(int \<Rightarrow> int) \<Rightarrow> int \<Rightarrow> block list \<Rightarrow> bool" where
  "blocks a i [] = True"
| "blocks a i ((n, f) # bs) =
     ((if f then 4 else 2) \<le> n \<and> a i = (if f then n else - n) \<and> a (i + n - 1) = (if f then n else - n) \<and> blocks a (i + n) bs)"

text \<open>Positions of tags; first words of free blocks; words of free blocks; starts and sizes of taken ones.\<close>

fun tags :: "int \<Rightarrow> block list \<Rightarrow> int set" where
  "tags i [] = {}"
| "tags i ((n, f) # bs) = {i, i + n - 1} \<union> tags (i + n) bs"

fun frees :: "int \<Rightarrow> block list \<Rightarrow> int set" where
  "frees i [] = {}"
| "frees i ((n, f) # bs) = (if f then {i} else {}) \<union> frees (i + n) bs"

fun free_words :: "int \<Rightarrow> block list \<Rightarrow> int set" where
  "free_words i [] = {}"
| "free_words i ((n, f) # bs) = (if f then {i..<i + n} else {}) \<union> free_words (i + n) bs"

fun takens :: "int \<Rightarrow> block list \<Rightarrow> (int \<times> int) set" where
  "takens i [] = {}"
| "takens i ((n, f) # bs) = (if f then {} else {(i, n)}) \<union> takens (i + n) bs"

definition no_adjacent_free :: "block list \<Rightarrow> bool" where
  "no_adjacent_free = successively (\<lambda>b c. \<not> (snd b \<and> snd c))"

text \<open>The first and the last block are two-word sentinels that stay taken.\<close>

definition sentinels :: "block list \<Rightarrow> bool" where
  "sentinels bs \<longleftrightarrow> (\<exists>ms. bs = (2, False) # ms @ [(2, False)] \<and> (\<forall>b \<in> set ms. 4 \<le> fst b))"

text \<open>The doubly linked list of free blocks.\<close>

fun flist :: "(int \<Rightarrow> int) \<Rightarrow> int \<Rightarrow> int \<Rightarrow> int list \<Rightarrow> bool" where
  "flist a pr p [] = (p = 0)"
| "flist a pr p (x # xs) = (p = x \<and> x \<noteq> 0 \<and> a (x + 2) = pr \<and> flist a x (a (x + 1)) xs)"

text \<open>
  The heap while an operation works on it: blocks \<open>xs\<close>, then a hole of \<open>n\<close> words whose contents
  do not matter, then blocks \<open>ys\<close>; \<open>fl\<close> is the free list, all of whose members are free
  blocks of \<open>xs\<close> or \<open>ys\<close>.
\<close>

definition heap_hole :: "heap \<Rightarrow> block list \<Rightarrow> int \<Rightarrow> block list \<Rightarrow> int list \<Rightarrow> bool" where
  "heap_hole h xs n ys fl \<longleftrightarrow> \<not> safe h \<and> 0 \<le> n \<and> blocks (array h) 0 xs \<and> blocks (array h) (tot xs + n) ys \<and>
     flist (array h) 0 (avail h) fl \<and> distinct fl \<and> set fl \<subseteq> frees 0 xs \<union> frees (tot xs + n) ys"

text \<open>The invariant between operations.\<close>

definition heap_inv :: "heap \<Rightarrow> block list \<Rightarrow> int list \<Rightarrow> bool" where
  "heap_inv h bs fl \<longleftrightarrow> heap_hole h [] 0 bs fl \<and> set fl = frees 0 bs \<and> tot bs = len h \<and>
     sentinels bs \<and> no_adjacent_free bs \<and>
     base h \<noteq> 0 \<and> uint (base h) + 4 * len h \<le> 2 ^ 32"

section \<open>Lemmas on blocks\<close>

lemma tot_simps [simp]: "tot [] = 0" "tot ((n, f) # bs) = n + tot bs" "tot (xs @ ys) = tot xs + tot ys"
  by (simp_all add: tot_def)

lemma blocks_append: "blocks a i (xs @ ys) \<longleftrightarrow> blocks a i xs \<and> blocks a (i + tot xs) ys"
  by (induction a i xs rule: blocks.induct) (auto simp: ac_simps)

lemma tags_append: "tags i (xs @ ys) = tags i xs \<union> tags (i + tot xs) ys"
  by (induction i xs rule: tags.induct) (auto simp: ac_simps)

lemma frees_append: "frees i (xs @ ys) = frees i xs \<union> frees (i + tot xs) ys"
  by (induction i xs rule: frees.induct) (auto simp: ac_simps)

lemma free_words_append: "free_words i (xs @ ys) = free_words i xs \<union> free_words (i + tot xs) ys"
  by (induction i xs rule: free_words.induct) (auto simp: ac_simps)

lemma takens_append: "takens i (xs @ ys) = takens i xs \<union> takens (i + tot xs) ys"
  by (induction i xs rule: takens.induct) (auto simp: ac_simps)

lemmas append_lemmas = blocks_append tags_append frees_append free_words_append takens_append

lemma blocks_cong: "(\<And>x. x \<in> tags i bs \<Longrightarrow> a' x = a x) \<Longrightarrow> blocks a' i bs = blocks a i bs"
  by (induction a i bs rule: blocks.induct) auto

lemma tot_nonneg: "blocks a i bs \<Longrightarrow> 0 \<le> tot bs"
  by (induction a i bs rule: blocks.induct) (auto split: if_splits)

lemma tags_range: "blocks a i bs \<Longrightarrow> x \<in> tags i bs \<Longrightarrow> i \<le> x \<and> x < i + tot bs"
proof (induction a i bs rule: blocks.induct)
  case (2 a i n f bs)
  then show ?case using tot_nonneg [of a "i + n" bs] by (auto split: if_splits)
qed simp

lemma frees_range: "blocks a i bs \<Longrightarrow> x \<in> frees i bs \<Longrightarrow> i \<le> x \<and> x + 4 \<le> i + tot bs"
proof (induction a i bs rule: blocks.induct)
  case (2 a i n f bs)
  then show ?case using tot_nonneg [of a "i + n" bs] by (auto split: if_splits)
qed simp

lemma free_words_range: "blocks a i bs \<Longrightarrow> x \<in> free_words i bs \<Longrightarrow> i \<le> x \<and> x < i + tot bs"
proof (induction a i bs rule: blocks.induct)
  case (2 a i n f bs)
  then show ?case using tot_nonneg [of a "i + n" bs] by (auto split: if_splits)
qed simp

lemma takens_range: "blocks a i bs \<Longrightarrow> (j, k) \<in> takens i bs \<Longrightarrow> i \<le> j \<and> 2 \<le> k \<and> j + k \<le> i + tot bs"
proof (induction a i bs rule: blocks.induct)
  case (2 a i n f bs)
  then show ?case using tot_nonneg [of a "i + n" bs] by (auto split: if_splits)
qed simp

text \<open>The link words of a free block are neither tags nor words of another block.\<close>

lemma links_not_tags: "blocks a i bs \<Longrightarrow> x \<in> frees i bs \<Longrightarrow> x + 1 \<notin> tags i bs \<and> x + 2 \<notin> tags i bs"
proof (induction a i bs rule: blocks.induct)
  case (2 a i n f bs)
  then show ?case
    using tags_range [of a "i + n" bs "x + 1"] tags_range [of a "i + n" bs "x + 2"] frees_range [of a "i + n" bs x]
    by (auto split: if_splits)
qed simp

lemma frees_apart: "blocks a i bs \<Longrightarrow> x \<in> frees i bs \<Longrightarrow> y \<in> frees i bs \<Longrightarrow> x \<noteq> y \<Longrightarrow> x + 4 \<le> y \<or> y + 4 \<le> x"
proof (induction a i bs rule: blocks.induct)
  case (2 a i n f bs)
  then show ?case using frees_range [of a "i + n" bs] by (fastforce split: if_splits)
qed simp

lemma frees_words: "blocks a i bs \<Longrightarrow> x \<in> frees i bs \<Longrightarrow> {x..<x + 4} \<subseteq> free_words i bs"
  by (induction a i bs rule: blocks.induct) (auto split: if_splits)

lemma frees_split: "x \<in> frees i bs \<Longrightarrow> \<exists>us n vs. bs = us @ (n, True) # vs \<and> x = i + tot us"
proof (induction i bs rule: frees.induct)
  case (2 i n f bs)
  show ?case
  proof (cases "f \<and> x = i")
    case True
    then show ?thesis by (intro exI [of _ "[]"]) auto
  next
    case False
    then obtain us m vs where "bs = us @ (m, True) # vs" "x = i + n + tot us" using 2 by (auto split: if_splits)
    then show ?thesis by (intro exI [of _ "(n, f) # us"]) auto
  qed
qed simp

lemma takens_split: "(j, k) \<in> takens i bs \<Longrightarrow> \<exists>us vs. bs = us @ (k, False) # vs \<and> j = i + tot us"
proof (induction i bs rule: takens.induct)
  case (2 i n f bs)
  show ?case
  proof (cases "\<not> f \<and> (j, k) = (i, n)")
    case True
    then have "(n, f) # bs = [] @ (k, False) # bs \<and> j = i + tot []" by simp
    then show ?thesis by blast
  next
    case False
    then obtain us vs where "bs = us @ (k, False) # vs" "j = i + n + tot us" using 2 by (auto split: if_splits)
    then have "(n, f) # bs = ((n, f) # us) @ (k, False) # vs \<and> j = i + tot ((n, f) # us)" by simp
    then show ?thesis by blast
  qed
qed simp

lemma taken_not_free_word: "blocks a i bs \<Longrightarrow> (j, k) \<in> takens i bs \<Longrightarrow> j \<le> w \<Longrightarrow> w < j + k \<Longrightarrow> w \<notin> free_words i bs"
proof (induction a i bs rule: blocks.induct)
  case (2 a i n f bs)
  then show ?case
    using free_words_range [of a "i + n" bs w] takens_range [of a "i + n" bs j k] by (auto split: if_splits)
qed simp

section \<open>Lemmas on the free list\<close>

lemma flist_cong:
  "(\<And>x. x \<in> set xs \<Longrightarrow> a' (x + 1) = a (x + 1) \<and> a' (x + 2) = a (x + 2)) \<Longrightarrow> flist a' pr p xs = flist a pr p xs"
  by (induction xs arbitrary: pr p) auto

lemma flist_head: "flist a pr p xs \<Longrightarrow> p = (if xs = [] then 0 else hd xs)"
  by (cases xs) auto

lemma flist_links:
  "flist a pr p (us @ x # vs) \<Longrightarrow>
     x \<noteq> 0 \<and> a (x + 2) = (if us = [] then pr else last us) \<and> a (x + 1) = (if vs = [] then 0 else hd vs)"
proof (induction us arbitrary: pr p)
  case Nil
  then show ?case using flist_head [of a x "a (x + 1)" vs] by auto
next
  case (Cons u us)
  then show ?case using Cons.IH [of u "a (u + 1)"] by auto
qed

lemma flist_nonzero: "flist a pr p xs \<Longrightarrow> x \<in> set xs \<Longrightarrow> x \<noteq> 0"
  by (induction xs arbitrary: pr p) auto

text \<open>Giving the first node another predecessor.\<close>

lemma flist_rehead:
  assumes "flist a pr p xs" "xs \<noteq> [] \<Longrightarrow> a' (hd xs + 2) = pr'"
    and "\<And>y. y \<in> set xs \<Longrightarrow> a' (y + 1) = a (y + 1)" "\<And>y. y \<in> set (tl xs) \<Longrightarrow> a' (y + 2) = a (y + 2)"
  shows "flist a' pr' p xs"
  using assms flist_cong [of "tl xs" a' a] by (cases xs) auto

lemma flist_unlink:
  assumes "flist a pr p (us @ x # vs)"
    and "\<And>y. y \<in> set us \<Longrightarrow> a' (y + 2) = a (y + 2)" "\<And>y. y \<in> set (butlast us) \<Longrightarrow> a' (y + 1) = a (y + 1)"
    and "us \<noteq> [] \<Longrightarrow> a' (last us + 1) = a (x + 1)"
    and "\<And>y. y \<in> set vs \<Longrightarrow> a' (y + 1) = a (y + 1)" "\<And>y. y \<in> set (tl vs) \<Longrightarrow> a' (y + 2) = a (y + 2)"
    and "vs \<noteq> [] \<Longrightarrow> a' (hd vs + 2) = (if us = [] then pr else last us)"
  shows "flist a' pr (if us = [] then a (x + 1) else p) (us @ vs)"
  using assms
proof (induction us arbitrary: pr p)
  case Nil
  then have "flist a x (a (x + 1)) vs" by simp
  then show ?case using Nil.prems by (auto intro: flist_rehead)
next
  case (Cons u us)
  have fl: "flist a u (a (u + 1)) (us @ x # vs)" "p = u" "u \<noteq> 0" "a (u + 2) = pr" using Cons.prems(1) by auto
  have "flist a' u (if us = [] then a (x + 1) else a (u + 1)) (us @ vs)"
    using Cons.prems by (intro Cons.IH [OF fl(1)]) (auto split: if_splits)
  moreover have "a' (u + 1) = (if us = [] then a (x + 1) else a (u + 1))" using Cons.prems(3,4) by auto
  ultimately show ?case using fl Cons.prems(2) by auto
qed

section \<open>Working in a hole\<close>

lemma sanity_off [simp]: "\<not> safe h \<Longrightarrow> sanity h i = Some i"
  by (simp add: sanity_def)

lemma store_int_simps [simp]:
  "array (store_int i x h) = (array h)(i := x)" "base (store_int i x h) = base h" "len (store_int i x h) = len h"
  "safe (store_int i x h) = safe h" "avail (store_int i x h) = avail h" "heap_count (store_int i x h) = heap_count h"
  by (simp_all add: store_int_def)

lemma hole_member:
  assumes "heap_hole h xs n ys fl" "x \<in> set fl"
  shows "x + 1 \<notin> tags 0 xs \<union> tags (tot xs + n) ys" "x + 2 \<notin> tags 0 xs \<union> tags (tot xs + n) ys"
    "0 \<le> x \<and> (x + 4 \<le> tot xs \<or> tot xs + n \<le> x)" "{x..<x + 4} \<subseteq> free_words 0 xs \<union> free_words (tot xs + n) ys"
proof -
  have b: "blocks (array h) 0 xs" "blocks (array h) (tot xs + n) ys" "0 \<le> n"
    and x: "x \<in> frees 0 xs \<or> x \<in> frees (tot xs + n) ys" using assms by (auto simp: heap_hole_def)
  note t0 = tot_nonneg [OF b(1)]
  show "0 \<le> x \<and> (x + 4 \<le> tot xs \<or> tot xs + n \<le> x)"
    using x frees_range [OF b(1)] frees_range [OF b(2)] b(3) t0 by fastforce
  have "y \<notin> tags 0 xs \<union> tags (tot xs + n) ys" if y: "y = x + 1 \<or> y = x + 2" for y
    using x
  proof
    assume f: "x \<in> frees 0 xs"
    then have "\<not> tot xs + n \<le> y" using frees_range [OF b(1) f] b(3) y by auto
    then show ?thesis using links_not_tags [OF b(1) f] tags_range [OF b(2), of y] y by blast
  next
    assume f: "x \<in> frees (tot xs + n) ys"
    then have "\<not> y < 0 + tot xs" using frees_range [OF b(2) f] b(3) y by auto
    then show ?thesis using links_not_tags [OF b(2) f] tags_range [OF b(1), of y] y by blast
  qed
  then show "x + 1 \<notin> tags 0 xs \<union> tags (tot xs + n) ys" "x + 2 \<notin> tags 0 xs \<union> tags (tot xs + n) ys" by blast+
  show "{x..<x + 4} \<subseteq> free_words 0 xs \<union> free_words (tot xs + n) ys"
    using x frees_words [OF b(1)] frees_words [OF b(2)] by blast
qed

lemma hole_links_free:
  assumes "heap_hole h xs n ys fl" "x \<in> set fl"
  shows "x + 1 \<in> free_words 0 xs \<union> free_words (tot xs + n) ys" "x + 2 \<in> free_words 0 xs \<union> free_words (tot xs + n) ys"
  by (rule subsetD [OF hole_member(4) [OF assms]], simp)+

lemma hole_apart:
  assumes "heap_hole h xs n ys fl" "x \<in> set fl" "y \<in> set fl" "x \<noteq> y"
  shows "x + 4 \<le> y \<or> y + 4 \<le> x"
proof -
  have b: "blocks (array h) 0 xs" "blocks (array h) (tot xs + n) ys" "0 \<le> n"
    "x \<in> frees 0 xs \<union> frees (tot xs + n) ys" "y \<in> frees 0 xs \<union> frees (tot xs + n) ys"
    using assms by (auto simp: heap_hole_def)
  have "u + 4 \<le> v" if "u \<in> frees 0 xs" "v \<in> frees (tot xs + n) ys" for u v
    using frees_range [OF b(1) that(1)] frees_range [OF b(2) that(2)] b(3) by simp
  then show ?thesis
    using b(4,5) assms(4) frees_apart [OF b(1), of x y] frees_apart [OF b(2), of x y] by blast
qed

lemma hole_unlink:
  assumes hole: "heap_hole h xs n ys (us @ x # vs)"
  obtains h' where "unlink_free x h = Some h'" "heap_hole h' xs n ys (us @ vs)"
    "base h' = base h" "len h' = len h" "heap_count h' = heap_count h"
    "\<forall>w. (\<forall>y \<in> set (us @ vs). w \<noteq> y + 1 \<and> w \<noteq> y + 2) \<longrightarrow> array h' w = array h w"
proof -
  have fl: "flist (array h) 0 (avail h) (us @ x # vs)" "\<not> safe h" "distinct (us @ x # vs)" using hole by (auto simp: heap_hole_def)
  define pI where "pI = (if us = [] then 0 else last us)"
  define nI where "nI = (if vs = [] then 0 else hd vs)"
  have links: "array h (x + 2) = pI" "array h (x + 1) = nI"
    using flist_links [OF fl(1)] by (auto simp: pI_def nI_def)
  have nz: "pI = 0 \<longleftrightarrow> us = []" "nI = 0 \<longleftrightarrow> vs = []"
    using flist_nonzero [OF fl(1)] by (auto simp: pI_def nI_def)
  define h1 where "h1 = (if us = [] then h\<lparr>avail := nI\<rparr> else store_int (last us + 1) nI h)"
  define h' where "h' = (if vs = [] then h1 else store_int (hd vs + 2) pI h1)"
  have run: "unlink_free x h = Some h'"
    using fl(2) links nz by (simp add: unlink_free_def prev_free_def next_free_def setNext_def setPrev_def
      h1_def h'_def Let_def pI_def nI_def)
  have a': "array h' w = (if vs \<noteq> [] \<and> w = hd vs + 2 then pI else if us \<noteq> [] \<and> w = last us + 1 then nI else array h w)" for w
    by (simp add: h'_def h1_def)
  have off: "y + 1 \<noteq> z + 2" "y \<noteq> z \<longrightarrow> y + 1 \<noteq> z + 1 \<and> y + 2 \<noteq> z + 2" if "y \<in> set (us @ x # vs)" "z \<in> set (us @ x # vs)" for y z
    using hole_apart [OF hole that] by auto
  have mem: "us \<noteq> [] \<Longrightarrow> last us \<in> set (us @ x # vs)" "vs \<noteq> [] \<Longrightarrow> hd vs \<in> set (us @ x # vs)" by auto
  have neq: "y \<in> set (butlast us) \<Longrightarrow> y \<noteq> last us" "y \<in> set (tl vs) \<Longrightarrow> y \<noteq> hd vs"
      "us \<noteq> [] \<Longrightarrow> y \<in> set vs \<Longrightarrow> y \<noteq> last us" "vs \<noteq> [] \<Longrightarrow> y \<in> set us \<Longrightarrow> y \<noteq> hd vs" for y
    subgoal using fl(3) by (cases us rule: rev_cases) auto
    subgoal using fl(3) by (cases vs) auto
    subgoal using fl(3) by (cases us rule: rev_cases) auto
    subgoal using fl(3) by (cases vs) auto
    done
  have "flist (array h') 0 (if us = [] then array h (x + 1) else avail h) (us @ vs)"
  proof (rule flist_unlink [OF fl(1)])
    fix y assume "y \<in> set us"
    then show "array h' (y + 2) = array h (y + 2)" using off [of "last us" y] mem neq(4) by (auto simp: a')
  next
    fix y assume y: "y \<in> set (butlast us)"
    then show "array h' (y + 1) = array h (y + 1)"
      using off(1) [of y "hd vs"] neq(1) [OF y] mem in_set_butlastD [OF y] by (auto simp: a')
  next
    fix y assume "y \<in> set vs"
    then show "array h' (y + 1) = array h (y + 1)" using off(1) [of y "hd vs"] mem neq(3) by (auto simp: a')
  next
    fix y assume y: "y \<in> set (tl vs)"
    then show "array h' (y + 2) = array h (y + 2)"
      using off(1) [of "last us" y] neq(2) [OF y] mem list.set_sel(2) [of vs y] by (cases vs) (auto simp: a')
  next
    assume "us \<noteq> []"
    then show "array h' (last us + 1) = array h (x + 1)" using off(1) [of "last us" "hd vs"] mem links by (auto simp: a')
  qed (simp add: a' pI_def)
  moreover have "avail h' = (if us = [] then array h (x + 1) else avail h)" by (simp add: h'_def h1_def links)
  moreover have "array h' w = array h w" if "w \<in> tags 0 xs \<union> tags (tot xs + n) ys" for w
  proof -
    have "vs \<noteq> [] \<Longrightarrow> w \<noteq> hd vs + 2" "us \<noteq> [] \<Longrightarrow> w \<noteq> last us + 1"
      using hole_member(2) [OF hole mem(2)] hole_member(1) [OF hole mem(1)] that by auto
    then show ?thesis unfolding a' by meson
  qed
  ultimately have "heap_hole h' xs n ys (us @ vs)"
    using hole blocks_cong [of 0 xs "array h'" "array h"] blocks_cong [of "tot xs + n" ys "array h'" "array h"]
    by (auto simp: heap_hole_def h'_def h1_def)
  moreover have "\<forall>w. (\<forall>y \<in> set (us @ vs). w \<noteq> y + 1 \<and> w \<noteq> y + 2) \<longrightarrow> array h' w = array h w"
    by (auto simp: a')
  ultimately show thesis using run by (intro that) (auto simp: h'_def h1_def)
qed

text \<open>Making the first words of a hole a taken or a free block.\<close>

lemma makeTaken_array:
  "0 < m \<Longrightarrow> array (makeTaken i m h) = (array h)(i := - m, i + m - 1 := - m)"
  by (simp add: makeTaken_def footerFromHeader_def heap_size_def Let_def)

lemma makeTaken_simps [simp]:
  "base (makeTaken i m h) = base h" "len (makeTaken i m h) = len h" "safe (makeTaken i m h) = safe h"
  "avail (makeTaken i m h) = avail h" "heap_count (makeTaken i m h) = heap_count h"
  by (simp_all add: makeTaken_def Let_def)

lemma makeAvail_array:
  "4 \<le> m \<Longrightarrow> array (makeAvail i m h) =
     (let a = (array h)(i := m, i + m - 1 := m, i + 1 := avail h, i + 2 := 0) in
      if avail h \<noteq> 0 then a(avail h + 2 := i) else a)"
  by (simp add: makeAvail_def footerFromHeader_def heap_size_def Let_def setNext_def setPrev_def)

lemma makeAvail_simps [simp]:
  "base (makeAvail i m h) = base h" "len (makeAvail i m h) = len h" "safe (makeAvail i m h) = safe h"
  "avail (makeAvail i m h) = i" "heap_count (makeAvail i m h) = heap_count h"
  by (simp_all add: makeAvail_def Let_def setNext_def setPrev_def)

lemma hole_taken:
  assumes hole: "heap_hole h xs n ys fl" and m: "2 \<le> m" "m \<le> n"
  shows "heap_hole (makeTaken (tot xs) m h) (xs @ [(m, False)]) (n - m) ys fl"
proof -
  let ?a = "array (makeTaken (tot xs) m h)"
  have b: "blocks (array h) 0 xs" "blocks (array h) (tot xs + n) ys" using hole by (auto simp: heap_hole_def)
  have a: "?a = (array h)(tot xs := - m, tot xs + m - 1 := - m)" using m by (intro makeTaken_array) simp
  have "blocks ?a 0 xs = blocks (array h) 0 xs" "blocks ?a (tot xs + n) ys = blocks (array h) (tot xs + n) ys"
    using tags_range [OF b(1)] tags_range [OF b(2)] m by (intro blocks_cong; force simp: a)+
  moreover have "flist ?a 0 (avail h) fl = flist (array h) 0 (avail h) fl"
    using hole_member(3) [OF hole] m by (intro flist_cong) (force simp: a)
  moreover have "blocks ?a (tot xs) [(m, False)]" using m by (simp add: a)
  ultimately show ?thesis using hole m by (auto simp: heap_hole_def append_lemmas)
qed

lemma hole_avail:
  assumes hole: "heap_hole h xs n ys fl" and m: "4 \<le> m" "m \<le> n" and nz: "tot xs \<noteq> 0"
  shows "heap_hole (makeAvail (tot xs) m h) (xs @ [(m, True)]) (n - m) ys (tot xs # fl)"
proof -
  let ?a = "array (makeAvail (tot xs) m h)"
  have b: "blocks (array h) 0 xs" "blocks (array h) (tot xs + n) ys" "flist (array h) 0 (avail h) fl" "distinct fl"
    using hole by (auto simp: heap_hole_def)
  have av: "avail h = (if fl = [] then 0 else hd fl)" "fl \<noteq> [] \<Longrightarrow> hd fl \<noteq> 0"
    using flist_head [OF b(3)] flist_nonzero [OF b(3)] by auto
  have a: "?a w = (if fl \<noteq> [] \<and> w = hd fl + 2 then tot xs else if w = tot xs + 2 then 0 else if w = tot xs + 1 then avail h
      else if w = tot xs \<or> w = tot xs + m - 1 then m else array h w)" for w
    using makeAvail_array [OF m(1), of "tot xs" h] av m by (auto simp: Let_def)
  have out: "fl \<noteq> [] \<Longrightarrow> hd fl + 4 \<le> tot xs \<or> tot xs + n \<le> hd fl" using hole_member(3) [OF hole, of "hd fl"] by simp
  have same: "?a w = array h w" if "w < tot xs \<or> tot xs + n \<le> w" "fl \<noteq> [] \<Longrightarrow> w \<noteq> hd fl + 2" for w
    using that m unfolding a by auto
  have "blocks ?a 0 xs = blocks (array h) 0 xs"
    using tags_range [OF b(1)] hole_member(2) [OF hole, of "hd fl"] by (intro blocks_cong same) force+
  moreover have "blocks ?a (tot xs + n) ys = blocks (array h) (tot xs + n) ys"
    using tags_range [OF b(2)] hole_member(2) [OF hole, of "hd fl"] by (intro blocks_cong same) force+
  moreover have "blocks ?a (tot xs) [(m, True)]" using m out by (auto simp: a)
  moreover have "flist ?a (tot xs) (avail h) fl"
  proof (rule flist_rehead [OF b(3)])
    fix y assume y: "y \<in> set fl"
    then have "hd fl \<in> set fl" by (cases fl) auto
    then have "y + 1 \<noteq> hd fl + 2" using hole_apart [OF hole y, of "hd fl"] by (cases "y = hd fl") auto
    then show "?a (y + 1) = array h (y + 1)" using hole_member(3) [OF hole y] m by (intro same) auto
  next
    fix y assume y: "y \<in> set (tl fl)"
    then have y': "y \<in> set fl" "y \<noteq> hd fl" using b(4) by (cases fl; auto)+
    then show "?a (y + 2) = array h (y + 2)" using hole_member(3) [OF hole y'(1)] m by (intro same) auto
  qed (simp add: a)
  moreover have "?a (tot xs + 1) = avail h" "?a (tot xs + 2) = 0" using out m by (auto simp: a)
  moreover have "tot xs \<notin> set fl" using hole_member(3) [OF hole] m by force
  ultimately show ?thesis using hole m nz by (auto simp: heap_hole_def append_lemmas)
qed

text \<open>Opening and closing a hole.\<close>

lemma hole_open:
  assumes "heap_hole h xs n (ms @ ys) fl" "set fl \<inter> frees (tot xs + n) ms = {}"
  shows "heap_hole h xs (n + tot ms) ys fl"
  using assms tot_nonneg [of "array h" "tot xs + n" ms] by (auto simp: heap_hole_def append_lemmas add.assoc)

lemma hole_move: "heap_hole h xs 0 (ms @ ys) fl \<longleftrightarrow> heap_hole h (xs @ ms) 0 ys fl"
  by (auto simp: heap_hole_def append_lemmas)

section \<open>Searching\<close>

text \<open>A member of the free list is a free block and its header is its size.\<close>

lemma frees_header: "blocks a i bs \<Longrightarrow> x \<in> frees i bs \<Longrightarrow> 4 \<le> a x"
  by (induction a i bs rule: blocks.induct) (auto split: if_splits)

lemma best_loop_spec:
  assumes "flist (array h) pr p fl" "\<not> safe h" "\<forall>x \<in> set fl. 0 < array h x" "0 < cd"
  shows "\<exists>mx' it'. best_loop h ints mx it cd p = Some (mx', it') \<and>
     ((mx' = mx \<and> it' = it) \<or> (it' \<in> set fl \<and> mx' = array h it' \<and> ints \<le> array h it')) \<and>
     ((\<forall>x \<in> set fl. array h x < mx) \<longrightarrow> (\<exists>x \<in> set fl. ints \<le> array h x) \<longrightarrow> it' \<in> set fl \<and> mx' = array h it' \<and> ints \<le> array h it')"
  using assms
proof (induction fl arbitrary: pr p mx it cd)
  case Nil
  then show ?case by (simp add: best_loop.simps)
next
  case (Cons x fl)
  have p: "p = x" "x \<noteq> 0" "flist (array h) x (array h (x + 1)) fl" "isAvail h x" "heap_size h x = array h x"
    using Cons.prems by (auto simp: isAvail_def heap_size_def)
  have nx: "next_free h x = Some (array h (x + 1))" using Cons.prems(2) by (simp add: next_free_def)
  show ?case
  proof (cases "ints \<le> array h x")
    case False
    obtain mx' it' where r: "best_loop h ints mx it cd (array h (x + 1)) = Some (mx', it')"
      "(mx' = mx \<and> it' = it) \<or> (it' \<in> set fl \<and> mx' = array h it' \<and> ints \<le> array h it')"
      "(\<forall>x \<in> set fl. array h x < mx) \<longrightarrow> (\<exists>x \<in> set fl. ints \<le> array h x) \<longrightarrow> it' \<in> set fl \<and> mx' = array h it' \<and> ints \<le> array h it'"
      using Cons.IH [OF p(3) Cons.prems(2) _ Cons.prems(4), of mx it] Cons.prems(3) by auto
    then show ?thesis using False p nx by (subst best_loop.simps) auto
  next
    case True
    let ?mx = "if array h x < mx then array h x else mx"
    let ?it = "if array h x < mx then x else it"
    show ?thesis
    proof (cases "cd - 1 = 0")
      case one: True
      then have "best_loop h ints mx it cd p = Some (?mx, ?it)"
        using True p by (subst best_loop.simps) (auto simp: Let_def)
      then show ?thesis using True by auto
    next
      case False
      then have cd: "0 < cd - 1" using Cons.prems(4) by simp
      obtain mx' it' where r: "best_loop h ints ?mx ?it (cd - 1) (array h (x + 1)) = Some (mx', it')"
        "(mx' = ?mx \<and> it' = ?it) \<or> (it' \<in> set fl \<and> mx' = array h it' \<and> ints \<le> array h it')"
        using Cons.IH [OF p(3) Cons.prems(2) _ cd, of ?mx ?it] Cons.prems(3) by auto
      then have "best_loop h ints mx it cd p = Some (mx', it')"
        using True False p nx by (subst best_loop.simps) (auto split: if_splits)
      then show ?thesis using r(2) True by (auto split: if_splits)
    qed
  qed
qed

section \<open>Taking a block\<close>

lemma sentinels_mid:
  assumes "sentinels (us @ ms @ vs)" "us \<noteq> []" "vs \<noteq> []" "\<forall>b \<in> set ms'. 4 \<le> fst b"
  shows "sentinels (us @ ms' @ vs)"
proof -
  obtain ns where ns: "us @ ms @ vs = (2, False) # ns @ [(2, False)]" "\<forall>b \<in> set ns. 4 \<le> fst b"
    using assms(1) by (auto simp: sentinels_def)
  obtain us' where us: "us = (2, False) # us'" using ns(1) assms(2) by (cases us) auto
  obtain vs' where vs: "vs = vs' @ [(2, False)]"
    using ns(1) assms(3) by (cases vs rule: rev_cases) auto
  have "us' @ ms @ vs' = ns" using ns(1) us vs by simp
  then show ?thesis using ns(2) us vs assms(4) by (auto simp: sentinels_def)
qed

lemma sentinels_free:
  assumes "sentinels (us @ (n, True) # vs)"
  shows "us \<noteq> []" "vs \<noteq> []"
proof -
  obtain ns where ns: "us @ (n, True) # vs = (2, False) # ns @ [(2, False)]" using assms by (auto simp: sentinels_def)
  then show "us \<noteq> []" by (cases us) auto
  have "last (us @ (n, True) # vs) = (2, False)" by (simp add: ns)
  then show "vs \<noteq> []" by (cases vs) auto
qed

lemma sentinels_big:
  assumes "sentinels (us @ b # vs)" "us \<noteq> []" "vs \<noteq> []"
  shows "4 \<le> fst b"
proof -
  obtain ns where ns: "us @ b # vs = (2, False) # ns @ [(2, False)]" "\<forall>b \<in> set ns. 4 \<le> fst b"
    using assms(1) by (auto simp: sentinels_def)
  obtain us' where us: "us = (2, False) # us'" using ns(1) assms(2) by (cases us) auto
  obtain vs' where vs: "vs = vs' @ [(2, False)]" using ns(1) assms(3) by (cases vs rule: rev_cases) auto
  have "us' @ b # vs' = ns" using ns(1) us vs by simp
  then show ?thesis using ns(2) by auto
qed

lemma tot_pos: "blocks a i bs \<Longrightarrow> bs \<noteq> [] \<Longrightarrow> 0 < tot bs"
proof (induction a i bs rule: blocks.induct)
  case (2 a i n f bs)
  then show ?case using tot_nonneg [of a "i + n" bs] by (auto split: if_splits)
qed simp

lemma makeAvail_frame:
  "4 \<le> m \<Longrightarrow> w \<notin> {i..<i + m} \<Longrightarrow> (avail h \<noteq> 0 \<longrightarrow> w \<noteq> avail h + 2) \<Longrightarrow> array (makeAvail i m h) w = array h w"
  by (auto simp: makeAvail_array Let_def)

lemma makeTaken_frame: "2 \<le> m \<Longrightarrow> w \<notin> {i..<i + m} \<Longrightarrow> array (makeTaken i m h) w = array h w"
  by (auto simp: makeTaken_array)

lemma hole_avail_free:
  assumes "heap_hole h xs n ys fl" "avail h \<noteq> 0"
  shows "avail h + 2 \<in> free_words 0 xs \<union> free_words (tot xs + n) ys"
proof -
  have "avail h \<in> set fl" using assms flist_head [of "array h" 0 "avail h" fl] by (auto simp: heap_hole_def split: if_splits)
  then show ?thesis by (rule hole_links_free(2) [OF assms(1)])
qed

text \<open>The free block \<open>mx\<close> words long at the end of \<open>us\<close> is unlinked: a hole is left.\<close>

lemma unlink_block:
  assumes hole: "heap_hole h us n (ms @ vs) fl" and x: "x \<in> set fl" and only: "set fl \<inter> frees (tot us + n) ms \<subseteq> {x}"
  obtains h' where "unlink_free x h = Some h'" "heap_hole h' us (n + tot ms) vs (remove1 x fl)"
    "base h' = base h" "len h' = len h" "heap_count h' = heap_count h" "blocks (array h') (tot us + n) ms"
    "\<forall>w. w \<notin> free_words 0 us \<union> free_words (tot us + n) (ms @ vs) \<longrightarrow> array h' w = array h w"
proof -
  obtain ps qs where fl: "fl = ps @ x # qs" "x \<notin> set ps" "x \<notin> set qs"
    using x hole by (auto simp: heap_hole_def dest!: split_list)
  have rm: "remove1 x fl = ps @ qs" using fl by (simp add: remove1_append)
  obtain h' where h': "unlink_free x h = Some h'" "heap_hole h' us n (ms @ vs) (ps @ qs)"
    "base h' = base h" "len h' = len h" "heap_count h' = heap_count h"
    "\<forall>w. (\<forall>y \<in> set (ps @ qs). w \<noteq> y + 1 \<and> w \<noteq> y + 2) \<longrightarrow> array h' w = array h w"
    by (rule hole_unlink [OF hole [unfolded fl(1)]]) blast
  have "array h' w = array h w" if "w \<notin> free_words 0 us \<union> free_words (tot us + n) (ms @ vs)" for w
  proof -
    have "w \<noteq> y + 1 \<and> w \<noteq> y + 2" if y: "y \<in> set (ps @ qs)" for y
      using hole_links_free [OF h'(2) y] \<open>w \<notin> _\<close> by blast
    then show ?thesis using h'(6) by blast
  qed
  moreover have "heap_hole h' us (n + tot ms) vs (ps @ qs)"
    using h'(2) only fl by (intro hole_open) auto
  moreover have "blocks (array h') (tot us + n) ms" using h'(2) by (simp add: heap_hole_def blocks_append)
  ultimately show thesis using h' by (intro that [of h']) (simp_all add: rm)
qed

lemma take_block_ok:
  assumes inv: "heap_inv h bs fl" and it: "it \<in> set fl" and mx: "mx = array h it" and ints: "4 \<le> ints" "ints \<le> mx"
  shows "\<exists>h' bs' fl' m. take_block it mx ints h = Some h' \<and> heap_inv h' bs' fl' \<and> base h' = base h \<and>
     (\<forall>w. w \<notin> free_words 0 bs \<longrightarrow> array h' w = array h w) \<and> heap_count h' = heap_count h \<and>
     takens 0 bs' = insert (it, m) (takens 0 bs) \<and> {it..<it + m} \<subseteq> free_words 0 bs \<and> ints \<le> m"
proof -
  have hole: "heap_hole h [] 0 bs fl" and fr: "set fl = frees 0 bs" and sen: "sentinels bs" and adj: "no_adjacent_free bs"
    using inv by (auto simp: heap_inv_def)
  obtain us n vs where bs: "bs = us @ (n, True) # vs" "it = tot us"
    using frees_split [of it 0 bs] it fr by auto
  have b: "blocks (array h) 0 us" "blocks (array h) (tot us + n) vs" "array h (tot us) = n"
    using hole by (auto simp: heap_hole_def bs blocks_append)
  then have n: "n = mx" using mx bs(2) by simp
  note ne = sentinels_free [OF sen [unfolded bs(1)]]
  have pos: "0 < tot us" by (rule tot_pos [OF b(1) ne(1)])
  have h1: "heap_hole h us 0 ([(mx, True)] @ vs) fl" using hole hole_move [of h "[]" us "(mx, True) # vs"] by (simp add: bs n)
  obtain h' where u: "unlink_free it h = Some h'" "heap_hole h' us (0 + tot [(mx, True)]) vs (remove1 it fl)"
    "base h' = base h" "len h' = len h" "heap_count h' = heap_count h" "blocks (array h') (tot us + 0) [(mx, True)]"
    "\<forall>w. w \<notin> free_words 0 us \<union> free_words (tot us + 0) ([(mx, True)] @ vs) \<longrightarrow> array h' w = array h w"
    by (rule unlink_block [OF h1 it]) (auto simp: bs)
  have hu: "heap_hole h' us mx vs (remove1 it fl)" using u(2) by simp
  have fw: "free_words 0 bs = free_words 0 us \<union> {tot us..<tot us + mx} \<union> free_words (tot us + mx) vs"
    by (auto simp: bs n append_lemmas)
  have set': "set (remove1 it fl) = frees 0 us \<union> frees (tot us + mx) vs"
    using fr hole frees_range [OF b(1), of it] frees_range [OF b(2), of it] ints
    by (auto simp: heap_hole_def bs n append_lemmas)
  have adj': "no_adjacent_free us" "no_adjacent_free vs" "\<not> snd (hd vs)"
    using adj ne by (auto simp: no_adjacent_free_def bs successively_append_iff successively_Cons)
  have inv_mid: "heap_inv g (us @ ms @ vs) gl"
    if "heap_hole g (us @ ms) 0 vs gl" "set gl = frees 0 (us @ ms @ vs)" "tot ms = mx" "\<forall>b \<in> set ms. 4 \<le> fst b"
       "no_adjacent_free (us @ ms @ vs)" "base g = base h" "len g = len h" for g ms gl
    using that inv sentinels_mid [of us "[(mx, True)]" vs ms] ne hole_move [of g "[]" "us @ ms" vs gl]
    by (simp add: heap_inv_def bs n)
  show ?thesis
  proof (cases "4 \<le> mx - ints")
    case True
    let ?h = "makeAvail (it + ints) (mx - ints) (makeTaken it ints h')"
    let ?ms = "[(ints, False), (mx - ints, True)]"
    have t: "heap_hole (makeTaken it ints h') (us @ [(ints, False)]) (mx - ints) vs (remove1 it fl)"
      using hole_taken [OF hu, of ints] ints bs(2) by simp
    have a: "heap_hole ?h (us @ ?ms) 0 vs ((it + ints) # remove1 it fl)"
      using hole_avail [OF t True] pos ints bs(2) by simp
    have "heap_inv ?h (us @ ?ms @ vs) ((it + ints) # remove1 it fl)"
      using a adj' True ints u(3,4) set' bs(2) ne
      by (intro inv_mid) (auto simp: append_lemmas no_adjacent_free_def successively_append_iff successively_Cons)
    moreover have "array ?h w = array h w" if "w \<notin> free_words 0 bs" for w
    proof -
      have "array ?h w = array (makeTaken it ints h') w"
        using that True ints hole_avail_free [OF t] fw bs(2) by (intro makeAvail_frame) (auto simp: append_lemmas)
      also have "\<dots> = array h' w" using that ints fw bs(2) by (intro makeTaken_frame) auto
      also have "\<dots> = array h w" using u(7) that fw by auto
      finally show ?thesis .
    qed
    moreover have "takens 0 (us @ ?ms @ vs) = insert (it, ints) (takens 0 bs)"
      by (auto simp: append_lemmas bs n)
    moreover have "take_block it mx ints h = Some ?h" using u(1) True by (simp add: take_block_def Let_def)
    ultimately show ?thesis using u(3,5) True fw ints bs(2)
      by (intro exI [of _ ?h] exI [of _ "us @ ?ms @ vs"] exI [of _ "(it + ints) # remove1 it fl"] exI [of _ ints]) auto
  next
    case False
    let ?h = "makeTaken it mx h'"
    have t: "heap_hole ?h (us @ [(mx, False)]) 0 vs (remove1 it fl)"
      using hole_taken [OF hu, of mx] ints bs(2) by simp
    have "heap_inv ?h (us @ [(mx, False)] @ vs) (remove1 it fl)"
      using t adj' ints u(3,4) set' ne
      by (intro inv_mid) (auto simp: append_lemmas no_adjacent_free_def successively_append_iff successively_Cons)
    moreover have "array ?h w = array h w" if "w \<notin> free_words 0 bs" for w
    proof -
      have "array ?h w = array h' w" using that ints fw bs(2) by (intro makeTaken_frame) auto
      then show ?thesis using u(7) that fw by auto
    qed
    moreover have "takens 0 (us @ [(mx, False)] @ vs) = insert (it, mx) (takens 0 bs)"
      by (auto simp: append_lemmas bs n)
    moreover have "take_block it mx ints h = Some ?h" using u(1) False by (simp add: take_block_def Let_def)
    ultimately show ?thesis using u(3,5) fw ints bs(2)
      by (intro exI [of _ ?h] exI [of _ "us @ [(mx, False)] @ vs"] exI [of _ "remove1 it fl"] exI [of _ mx]) auto
  qed
qed

section \<open>Releasing a block\<close>

lemma left_step:
  assumes hole: "heap_hole h us 0 ((m, False) # vs) fl" and us: "us = us' @ [(k, f)]"
    and fr: "set fl = frees 0 us \<union> frees (tot us + m) vs" and m: "2 \<le> m"
  obtains h1 us1 sz1 fl1 where
    "(do { leftIndex \<leftarrow> left h (tot us);
        if isAvail h leftIndex
        then do { h' \<leftarrow> unlink_free leftIndex h; Some (h', leftIndex, m + heap_size h' leftIndex) }
        else Some (h, tot us, m) }) = Some (h1, tot us1, sz1)"
    "heap_hole h1 us1 sz1 vs fl1" "us1 = (if f then us' else us)" "sz1 = (if f then m + k else m)"
    "set fl1 = frees 0 us1 \<union> frees (tot us + m) vs" "base h1 = base h" "len h1 = len h" "heap_count h1 = heap_count h"
    "\<forall>w. w \<notin> free_words 0 us \<union> {tot us..<tot us + m} \<union> free_words (tot us + m) vs \<longrightarrow> array h1 w = array h w"
proof -
  have b: "blocks (array h) 0 us'" "blocks (array h) (tot us') [(k, f)]" "blocks (array h) (tot us + m) vs" "\<not> safe h"
    using hole by (auto simp: heap_hole_def us blocks_append)
  have k: "2 \<le> k" "array h (tot us - 1) = (if f then k else - k)" "array h (tot us') = (if f then k else - k)" "tot us = tot us' + k"
    using b(2) by (auto simp: us split: if_splits)
  have left: "left h (tot us) = Some (tot us')"
    using b(4) k by (simp add: left_def headerFromFooter_def heap_size_def split: if_splits)
  have hm: "heap_hole h us m vs fl"
    using hole_open [of h us 0 "[(m, False)]" vs fl] hole by simp
  show thesis
  proof (cases f)
    case False
    then show thesis using left hm k fr by (intro that [of h us m fl]) (auto simp: isAvail_def)
  next
    case True
    have x: "tot us' \<in> set fl" using fr True by (simp add: us append_lemmas)
    have h0: "heap_hole h us' 0 ([(k, f), (m, False)] @ vs) fl"
      using hole hole_move [of h us' "[(k, f)]" "(m, False) # vs" fl] by (simp add: us)
    obtain h1 where u: "unlink_free (tot us') h = Some h1"
      "heap_hole h1 us' (0 + tot [(k, f), (m, False)]) vs (remove1 (tot us') fl)"
      "base h1 = base h" "len h1 = len h" "heap_count h1 = heap_count h" "blocks (array h1) (tot us' + 0) [(k, f), (m, False)]"
      "\<forall>w. w \<notin> free_words 0 us' \<union> free_words (tot us' + 0) ([(k, f), (m, False)] @ vs) \<longrightarrow> array h1 w = array h w"
      by (rule unlink_block [OF h0 x]) (auto simp: True)
    have "tot us' \<notin> frees 0 us'" "tot us' \<notin> frees (tot us + m) vs"
      using frees_range [OF b(1), of "tot us'"] frees_range [OF b(3), of "tot us'"] k m by auto
    then have "set (remove1 (tot us') fl) = frees 0 us' \<union> frees (tot us + m) vs"
      using fr hole True by (auto simp: heap_hole_def us append_lemmas)
    moreover have "isAvail h (tot us')" "heap_size h1 (tot us') = k" using k u(6) True by (auto simp: isAvail_def heap_size_def)
    moreover have "\<forall>w. w \<notin> free_words 0 us \<union> {tot us..<tot us + m} \<union> free_words (tot us + m) vs \<longrightarrow> array h1 w = array h w"
      using u(7) True k by (auto simp: us append_lemmas)
    ultimately show thesis
      using left u True k by (intro that [of h1 us' "m + k" "remove1 (tot us') fl"]) (auto simp: add.commute)
  qed
qed

lemma right_step:
  assumes hole: "heap_hole h us n vs fl" and vs: "vs = (k, g) # vs'" and fr: "set fl = frees 0 us \<union> frees (tot us + n) vs"
  obtains h1 vs1 sz1 fl1 where
    "(if isAvail h (tot us + n)
      then do { h' \<leftarrow> unlink_free (tot us + n) h; Some (h', n + heap_size h' (tot us + n)) }
      else Some (h, n)) = Some (h1, sz1)"
    "heap_hole h1 us sz1 vs1 fl1" "vs1 = (if g then vs' else vs)" "sz1 = (if g then n + k else n)"
    "set fl1 = frees 0 us \<union> frees (tot us + sz1) vs1" "base h1 = base h" "len h1 = len h" "heap_count h1 = heap_count h"
    "\<forall>w. w \<notin> free_words 0 us \<union> free_words (tot us + n) vs \<longrightarrow> array h1 w = array h w"
proof -
  have b: "blocks (array h) 0 us" "blocks (array h) (tot us + n + k) vs'" "array h (tot us + n) = (if g then k else - k)" "2 \<le> k" "0 \<le> n"
    using hole by (auto simp: heap_hole_def vs split: if_splits)
  show thesis
  proof (cases g)
    case False
    then show thesis using b hole fr by (intro that [of h n vs fl]) (auto simp: isAvail_def)
  next
    case True
    have x: "tot us + n \<in> set fl" using fr True by (simp add: vs)
    have h0: "heap_hole h us n ([(k, g)] @ vs') fl" using hole by (simp add: vs)
    obtain h1 where u: "unlink_free (tot us + n) h = Some h1" "heap_hole h1 us (n + tot [(k, g)]) vs' (remove1 (tot us + n) fl)"
      "base h1 = base h" "len h1 = len h" "heap_count h1 = heap_count h" "blocks (array h1) (tot us + n) [(k, g)]"
      "\<forall>w. w \<notin> free_words 0 us \<union> free_words (tot us + n) ([(k, g)] @ vs') \<longrightarrow> array h1 w = array h w"
      by (rule unlink_block [OF h0 x]) (auto simp: True)
    have "tot us + n \<notin> frees 0 us" "tot us + n \<notin> frees (tot us + n + k) vs'"
      using frees_range [OF b(1), of "tot us + n"] frees_range [OF b(2), of "tot us + n"] b(4,5) by auto
    then have "set (remove1 (tot us + n) fl) = frees 0 us \<union> frees (tot us + n + k) vs'"
      using fr hole True by (auto simp: heap_hole_def vs)
    moreover have "isAvail h (tot us + n)" "heap_size h1 (tot us + n) = k" using b u(6) True by (auto simp: isAvail_def heap_size_def)
    ultimately show thesis
      using u True by (intro that [of h1 "n + k" vs' "remove1 (tot us + n) fl"]) (auto simp: vs add.assoc)
  qed
qed


lemma release_block_ok:
  assumes inv: "heap_inv h bs fl" and bs: "bs = us @ (m, False) # vs" and ne: "us \<noteq> []" "vs \<noteq> []"
  shows "\<exists>h' bs' fl'. release_block (tot us) h = Some h' \<and> heap_inv h' bs' fl' \<and>
     base h' = base h \<and> heap_count h' = heap_count h \<and>
     takens 0 bs' = takens 0 bs - {(tot us, m)} \<and> free_words 0 bs' = free_words 0 bs \<union> {tot us..<tot us + m} \<and>
     (\<forall>w. w \<notin> free_words 0 bs' \<longrightarrow> array h' w = array h w)"
proof -
  have hole: "heap_hole h us 0 ((m, False) # vs) fl"
    using inv hole_move [of h "[]" us "(m, False) # vs" fl] by (simp add: heap_inv_def bs)
  have fr: "set fl = frees 0 us \<union> frees (tot us + m) vs" and sen: "sentinels bs" and adj: "no_adjacent_free bs"
    using inv by (auto simp: heap_inv_def bs append_lemmas)
  have m: "4 \<le> m" using sentinels_big [OF sen [unfolded bs] ne] by simp
  obtain us' k f where us: "us = us' @ [(k, f)]" using ne(1) by (cases us rule: rev_cases) auto
  obtain k' g vs' where vs: "vs = (k', g) # vs'" using ne(2) by (cases vs) auto
  obtain h1 us1 sz1 fl1 where L: "(do { leftIndex \<leftarrow> left h (tot us);
        if isAvail h leftIndex
        then do { h' \<leftarrow> unlink_free leftIndex h; Some (h', leftIndex, m + heap_size h' leftIndex) }
        else Some (h, tot us, m) }) = Some (h1, tot us1, sz1)"
    "heap_hole h1 us1 sz1 vs fl1" "us1 = (if f then us' else us)" "sz1 = (if f then m + k else m)"
    "set fl1 = frees 0 us1 \<union> frees (tot us + m) vs" "base h1 = base h" "len h1 = len h" "heap_count h1 = heap_count h"
    "\<forall>w. w \<notin> free_words 0 us \<union> {tot us..<tot us + m} \<union> free_words (tot us + m) vs \<longrightarrow> array h1 w = array h w"
    by (rule left_step [OF hole us fr]) (use m in auto)
  have mid1: "tot us1 + sz1 = tot us + m" using L(3,4) us by auto
  have fr1: "set fl1 = frees 0 us1 \<union> frees (tot us1 + sz1) vs" using L(5) mid1 by simp
  obtain h2 vs2 sz2 fl2 where R: "(if isAvail h1 (tot us1 + sz1)
      then do { h' \<leftarrow> unlink_free (tot us1 + sz1) h1; Some (h', sz1 + heap_size h' (tot us1 + sz1)) }
      else Some (h1, sz1)) = Some (h2, sz2)"
    "heap_hole h2 us1 sz2 vs2 fl2" "vs2 = (if g then vs' else vs)" "sz2 = (if g then sz1 + k' else sz1)"
    "set fl2 = frees 0 us1 \<union> frees (tot us1 + sz2) vs2" "base h2 = base h1" "len h2 = len h1" "heap_count h2 = heap_count h1"
    "\<forall>w. w \<notin> free_words 0 us1 \<union> free_words (tot us1 + sz1) vs \<longrightarrow> array h2 w = array h1 w"
    by (rule right_step [OF L(2) vs fr1])
  define ms where "ms = (if f then [(k, f)] else []) @ [(m, False)] @ (if g then [(k', g)] else [])"
  have bs': "bs = us1 @ ms @ vs2" "tot ms = sz2" using us vs L(3,4) R(3,4) by (auto simp: bs ms_def)
  have ne1: "us1 \<noteq> []" "vs2 \<noteq> []"
    using sentinels_free [of us' k "(m, False) # vs"] sentinels_free [of "us @ [(m, False)]" k' vs'] sen ne L(3) R(3)
    by (auto simp: bs us vs)
  have k: "0 < k" "0 < k'" using hole by (auto simp: heap_hole_def us vs blocks_append split: if_splits)
  have sz2: "4 \<le> sz2" using m k L(4) R(4) by auto
  have pos: "tot us1 \<noteq> 0" using tot_pos [of "array h2" 0 us1] R(2) ne1 by (simp add: heap_hole_def)
  let ?h = "makeAvail (tot us1) sz2 h2"
  let ?bs = "us1 @ [(sz2, True)] @ vs2"
  have fin: "heap_hole ?h (us1 @ [(sz2, True)]) 0 vs2 (tot us1 # fl2)"
    using hole_avail [OF R(2) sz2 _ pos] by simp
  have adj1: "no_adjacent_free us1" "no_adjacent_free vs2" "\<not> snd (last us1)" "\<not> snd (hd vs2)"
    using adj ne1 L(3) R(3) us vs
    by (auto simp: bs no_adjacent_free_def successively_append_iff successively_Cons split: if_splits)
  have "sentinels ?bs" using sentinels_mid [of us1 ms vs2 "[(sz2, True)]"] sen ne1 sz2 by (simp add: bs'(1))
  moreover have "no_adjacent_free ?bs"
    using adj1 ne1 by (auto simp: no_adjacent_free_def successively_append_iff successively_Cons)
  moreover have "tot ?bs = len ?h" using inv L(7) R(7) bs' by (simp add: heap_inv_def)
  ultimately have inv': "heap_inv ?h ?bs (tot us1 # fl2)"
    using fin inv R(5,6) L(6,7) R(7) hole_move [of ?h "[]" "us1 @ [(sz2, True)]" vs2]
    by (auto simp: heap_inv_def append_lemmas)
  have run: "release_block (tot us) h = Some ?h"
  proof -
    have "right h (tot us) = Some (tot us1 + sz1)" "heap_size h (tot us) = m"
      using hole m mid1 by (auto simp: heap_hole_def right_def heap_size_def)
    moreover obtain li where "left h (tot us) = Some li" using hole by (simp add: heap_hole_def left_def)
    ultimately show ?thesis using L(1) R(1) by (auto simp: release_block_def Let_def split: if_splits Option.bind_splits)
  qed
  have fw: "free_words 0 ?bs = free_words 0 bs \<union> {tot us..<tot us + m}"
    using L(3,4) R(3,4) us vs k m by (auto simp: append_lemmas bs ac_simps)
  have tk: "takens 0 ?bs = takens 0 bs - {(tot us, m)}"
  proof -
    have b: "blocks (array h) 0 us" "blocks (array h) (tot us + m) vs" using hole by (auto simp: heap_hole_def)
    have "(tot us, m) \<notin> takens 0 us" "(tot us, m) \<notin> takens (tot us + m) vs"
      using takens_range [OF b(1), of "tot us" m] takens_range [OF b(2), of "tot us" m] m by auto
    then show ?thesis using L(3,4) R(3,4) us vs by (auto simp: append_lemmas bs ac_simps)
  qed
  have W: "free_words 0 ?bs = free_words 0 us \<union> {tot us..<tot us + m} \<union> free_words (tot us + m) vs"
    unfolding fw by (auto simp: bs append_lemmas)
  have sub1: "free_words 0 us1 \<subseteq> free_words 0 us" using L(3) us by (auto simp: append_lemmas)
  have "array ?h w = array h w" if w: "w \<notin> free_words 0 ?bs" for w
  proof -
    have sub: "free_words 0 us1 \<union> free_words (tot us1 + sz2) vs2 \<union> {tot us1..<tot us1 + sz2} = free_words 0 ?bs"
      by (auto simp: append_lemmas)
    have out: "w \<notin> {tot us1..<tot us1 + sz2}" "avail h2 \<noteq> 0 \<longrightarrow> w \<noteq> avail h2 + 2"
      using w hole_avail_free [OF R(2)] unfolding sub [symmetric] by blast+
    have "array ?h w = array h2 w" by (rule makeAvail_frame [OF sz2 out])
    also have "\<dots> = array h1 w" using R(9) w W sub1 unfolding mid1 by blast
    also have "\<dots> = array h w" using L(9) w W by blast
    finally show ?thesis .
  qed
  then show ?thesis
    using run inv' L(6,8) R(6,8) fw tk by (intro exI [of _ ?h] exI [of _ ?bs] exI [of _ "tot us1 # fl2"]) simp
qed

section \<open>Addresses\<close>

lemma block_ptr_ok:
  assumes "heap_inv h bs fl" "0 < i" "i + 1 < len h"
  shows "block_idx h (block_ptr h i) = i" "block_ptr h i \<noteq> 0" "block_ptr h i \<noteq> base h"
proof -
  have "uint (base h) \<noteq> 0" using assms(1) by (simp add: heap_inv_def uint_0_iff)
  then have lim: "0 < uint (base h)" using uint_ge_0 [of "base h"] by linarith
  moreover have "0 \<le> len h" "uint (base h) + 4 * len h \<le> 2 ^ 32" using assms by (auto simp: heap_inv_def)
  ultimately have lim: "0 \<le> len h" "uint (base h) + 4 * len h \<le> 2 ^ 32" "0 < uint (base h)" by auto
  have small: "4 * (i + 1) < 2 ^ 32" using lim assms(3) by simp
  have u: "uint (4 * of_int (i + 1) :: u32) = 4 * (i + 1)"
    using small assms(2) by (simp add: uint_word_ariths uint_word_of_int)
  have d: "block_ptr h i - base h = 4 * of_int (i + 1)" by (simp add: block_ptr_def)
  show "block_idx h (block_ptr h i) = i" unfolding block_idx_def d uint_div u by simp
  have "4 * of_int (i + 1) \<noteq> (0 :: u32)"
  proof
    assume "4 * of_int (i + 1) = (0 :: u32)"
    then have "4 * (i + 1) = 0" using u by (simp only: unsigned_0)
    then show False using assms(2) by simp
  qed
  then show "block_ptr h i \<noteq> base h" by (simp add: block_ptr_def)
  have "uint (block_ptr h i) = uint (base h) + 4 * (i + 1)"
    unfolding block_ptr_def uint_word_ariths(1) u using lim assms(2,3) by simp
  then show "block_ptr h i \<noteq> 0" using lim assms(2) by auto
qed

lemma ints_for_ok:
  assumes "bytes \<le> 0xFFFFFFFC"
  shows "4 \<le> ints_for bytes" "uint bytes \<le> 4 * (ints_for bytes - 2)" "ints_for bytes < 2 ^ 31"
proof -
  have "uint bytes \<le> 0xFFFFFFFC" using assms by (simp add: word_le_def)
  then have b: "uint (bytes + 3) = uint bytes + 3" by (simp add: uint_word_ariths)
  then have "uint ((bytes + 3) div 4) = (uint bytes + 3) div 4" by (simp add: uint_div)
  moreover have "0 \<le> (uint bytes + 3) div 4" by (simp add: pos_imp_zdiv_nonneg_iff)
  moreover have "(uint bytes + 3) div 4 < 2 ^ 30 + 1" using \<open>uint bytes \<le> _\<close> by simp
  ultimately have "uint ((bytes + 3) div 4 + 2) = (uint bytes + 3) div 4 + 2" by (simp add: uint_word_ariths)
  then have i: "ints_for bytes = max ((uint bytes + 3) div 4 + 2) 4" by (simp add: ints_for_def)
  show "4 \<le> ints_for bytes" "uint bytes \<le> 4 * (ints_for bytes - 2)" "ints_for bytes < 2 ^ 31"
    using \<open>uint bytes \<le> _\<close> unfolding i by (simp_all add: max_def) linarith+
qed

section \<open>The user heap\<close>

text \<open>
  The user heap differs from the kernel's in three ways: the failed checks of \<^verbatim>\<open>sanity\<close>
  just return, a block that is not free does not stop the search, and the search takes the
  first block that fits.  The rest is the same code.
\<close>

definition user_sanity :: "heap \<Rightarrow> int \<Rightarrow> int" where
  "user_sanity h i =
     (if safe h then
        if i = 0 then 0
        else if i < 0 \<or> i \<ge> len h then i
        else let footer = footerFromHeader h i in
          if footer < 0 \<or> footer \<ge> len h then i
          else if array h i \<noteq> array h footer then i
          else i
      else i)"

definition user_left :: "heap \<Rightarrow> int \<Rightarrow> int" where
  "user_left h i = user_sanity h (headerFromFooter h (i - 1))"

definition user_right :: "heap \<Rightarrow> int \<Rightarrow> int" where
  "user_right h i = user_sanity h (i + heap_size h i)"

definition next1 :: "heap \<Rightarrow> int \<Rightarrow> int" where
  "next1 h i = user_sanity h (array h (i + 1))"

definition prev1 :: "heap \<Rightarrow> int \<Rightarrow> int" where
  "prev1 h i = user_sanity h (array h (i + 2))"

definition user_remove :: "int \<Rightarrow> heap \<Rightarrow> heap" where
  "user_remove i h =
     (let prevIndex = prev1 h i;
          nextIndex = next1 h i;
          h1 = (if prevIndex = 0 then h\<lparr>avail := nextIndex\<rparr> else setNext prevIndex nextIndex h)
      in if nextIndex \<noteq> 0 then setPrev nextIndex prevIndex h1 else h1)"

text \<open>The loop of the user's \<^verbatim>\<open>malloc\<close>; its result is null when the list ends.\<close>

partial_function (option) first_loop :: "int \<Rightarrow> int \<Rightarrow> heap \<Rightarrow> (u32 \<times> heap) option" where
  "first_loop ints p h =
     (if p = 0 then Some (0, h)
      else
        let sz = heap_size h p in
        if sz \<ge> ints then
          let h1 = user_remove p h; extra = sz - ints in
          Some (block_ptr h p,
            if extra \<ge> 4 then makeAvail (p + ints) extra (makeTaken p ints h1) else makeTaken p sz h1)
        else first_loop ints (next1 h p) h)"

definition user_malloc :: "u32 \<Rightarrow> heap \<Rightarrow> (u32 \<times> heap) option" where
  "user_malloc bytes h = (if bytes = 0 then Some (base h, h) else first_loop (ints_for bytes) (avail h) h)"

definition user_free :: "u32 \<Rightarrow> heap \<Rightarrow> heap" where
  "user_free p h =
     (if p = 0 then h
      else if p = base h then h
      else let idx = block_idx h p in
        if \<not> isTaken h idx then h
        else
          let sz = heap_size h idx;
              leftIndex = user_left h idx;
              rightIndex = user_right h idx;
              (h1, idx1, sz1) = (if isAvail h leftIndex
                 then let h' = user_remove leftIndex h in (h', leftIndex, sz + heap_size h' leftIndex)
                 else (h, idx, sz));
              (h2, sz2) = (if isAvail h1 rightIndex
                 then let h' = user_remove rightIndex h1 in (h', sz1 + heap_size h' rightIndex)
                 else (h1, sz1))
          in makeAvail idx1 sz2 h2)"

text \<open>\<^verbatim>\<open>heap_init\<close> on the static array of \<^verbatim>\<open>INTS\<close> words.\<close>

definition INTS :: int where
  "INTS = 0x100000"

definition heap_init :: "heap \<Rightarrow> heap" where
  "heap_init h =
     (let h1 = makeTaken 0 2 h;
          h2 = makeAvail 2 (len h1 - 4) h1
      in makeTaken (len h2 - 2) 2 h2)"


section \<open>The user heap is the kernel heap with another search\<close>

abbreviation unsafe :: "heap \<Rightarrow> heap" where
  "unsafe h \<equiv> h\<lparr>safe := False\<rparr>"

lemma user_sanity_id [simp]: "user_sanity h i = i"
  by (simp add: user_sanity_def Let_def)

lemma unsafe_commute:
  "makeAvail i m (h\<lparr>safe := b\<rparr>) = (makeAvail i m h)\<lparr>safe := b\<rparr>"
  "makeTaken i m (h\<lparr>safe := b\<rparr>) = (makeTaken i m h)\<lparr>safe := b\<rparr>"
  "store_int i x (h\<lparr>safe := b\<rparr>) = (store_int i x h)\<lparr>safe := b\<rparr>"
  "heap_size (h\<lparr>safe := b\<rparr>) i = heap_size h i" "isAvail (h\<lparr>safe := b\<rparr>) i = isAvail h i"
  "isTaken (h\<lparr>safe := b\<rparr>) i = isTaken h i" "block_ptr (h\<lparr>safe := b\<rparr>) i = block_ptr h i"
  "block_idx (h\<lparr>safe := b\<rparr>) p = block_idx h p" "headerFromFooter (h\<lparr>safe := b\<rparr>) i = headerFromFooter h i"
  by (simp_all add: makeAvail_def makeTaken_def store_int_def setNext_def setPrev_def footerFromHeader_def
      heap_size_def Let_def isAvail_def isTaken_def block_ptr_def block_idx_def headerFromFooter_def)

lemma user_remove_eq: "unlink_free i (unsafe h) = Some (unsafe (user_remove i h))"
  by (simp add: unlink_free_def user_remove_def prev_free_def next_free_def prev1_def next1_def
      setNext_def setPrev_def unsafe_commute Let_def)

lemma take_block_user:
  "take_block x mx ints (unsafe h) = Some (unsafe
     (if mx - ints \<ge> 4 then makeAvail (x + ints) (mx - ints) (makeTaken x ints (user_remove x h)) else makeTaken x mx (user_remove x h)))"
  by (simp add: take_block_def user_remove_eq unsafe_commute Let_def)

lemma user_free_eq:
  assumes "p \<noteq> 0" "p \<noteq> base h" "isTaken h (block_idx h p)"
  shows "release_block (block_idx h p) (unsafe h) = Some (unsafe (user_free p h))"
  using assms by (simp add: user_free_def release_block_def left_def right_def user_left_def user_right_def
      user_remove_eq unsafe_commute Let_def split: prod.split)

lemma first_loop_spec:
  assumes "flist (array h) pr p fl" "\<forall>x \<in> set fl. 0 < array h x"
  shows "case filter (\<lambda>x. ints \<le> array h x) fl of
      [] \<Rightarrow> first_loop ints p h = Some (0, h)
    | x # _ \<Rightarrow> \<exists>h'. first_loop ints p h = Some (block_ptr h x, h') \<and>
        take_block x (array h x) ints (unsafe h) = Some (unsafe h')"
  using assms
proof (induction fl arbitrary: pr p)
  case Nil
  then show ?case by (simp add: first_loop.simps)
next
  case (Cons x fl)
  have p: "p = x" "x \<noteq> 0" "flist (array h) x (array h (x + 1)) fl" "heap_size h x = array h x"
    using Cons.prems by (auto simp: heap_size_def)
  show ?case
  proof (cases "ints \<le> array h x")
    case True
    then show ?thesis using p by (subst first_loop.simps) (auto simp: take_block_user Let_def)
  next
    case False
    then have eq: "first_loop ints p h = first_loop ints (array h (x + 1)) h"
      using p by (subst first_loop.simps) (simp add: next1_def)
    show ?thesis unfolding eq using Cons.IH [OF p(3)] Cons.prems(2) False by simp
  qed
qed

section \<open>Initial heaps\<close>

lemma init_blocks:
  assumes "\<not> safe h" "avail h = 0" "16 \<le> len h" "base h \<noteq> 0" "uint (base h) + 4 * len h \<le> 2 ^ 32"
  shows "heap_inv (makeTaken (len h - 2) 2 (makeAvail 2 (len h - 4) (makeTaken 0 2 h)))
     [(2, False), (len h - 4, True), (2, False)] [2]"
proof -
  have "heap_hole h [] (len h) [] []" using assms by (simp add: heap_hole_def)
  from hole_taken [OF this, of 2] assms(3)
  have "heap_hole (makeTaken 0 2 h) [(2, False)] (len h - 2) [] []" by simp
  from hole_avail [OF this, of "len h - 4"] assms(3)
  have "heap_hole (makeAvail 2 (len h - 4) (makeTaken 0 2 h)) [(2, False), (len h - 4, True)] 2 [] [2]" by simp
  from hole_taken [OF this, of 2]
  have "heap_hole (makeTaken (len h - 2) 2 (makeAvail 2 (len h - 4) (makeTaken 0 2 h)))
     [(2, False), (len h - 4, True), (2, False)] 0 [] [2]" by simp
  then show ?thesis
    using assms hole_move [of _ "[]" "[(2, False), (len h - 4, True), (2, False)]" "[]"]
    by (auto simp: heap_inv_def sentinels_def no_adjacent_free_def)
qed

lemma inv_flist: "heap_inv h bs fl \<Longrightarrow> flist (array h) 0 (avail h) fl" "heap_inv h bs fl \<Longrightarrow> \<not> safe h"
  by (simp_all add: heap_inv_def heap_hole_def)

lemma inv_member:
  assumes "heap_inv h bs fl" "x \<in> set fl"
  shows "4 \<le> array h x" "0 < x" "x + 1 < len h" "array h x < 2 ^ 30"
proof -
  have b: "blocks (array h) 0 bs" and x: "x \<in> frees 0 bs" and l: "tot bs = len h" and lim: "uint (base h) + 4 * len h \<le> 2 ^ 32"
    and nz: "base h \<noteq> 0" and sen: "sentinels bs"
    using assms by (auto simp: heap_inv_def heap_hole_def)
  show "4 \<le> array h x" by (rule frees_header [OF b x])
  obtain us n vs where bs: "bs = us @ (n, True) # vs" "x = tot us" using frees_split [OF x] by auto
  have us: "blocks (array h) 0 us" "array h (tot us) = n" "blocks (array h) (tot us + n) vs" using b by (auto simp: bs blocks_append)
  show "0 < x" using tot_pos [OF us(1)] sentinels_free(1) [OF sen [unfolded bs(1)]] bs(2) by simp
  then show "x + 1 < len h" using frees_range [OF b x] l by simp
  have "uint (base h) \<noteq> 0" using nz by (simp add: uint_0_iff)
  then have "4 * len h < 2 ^ 32" using lim uint_ge_0 [of "base h"] by linarith
  moreover have "n \<le> len h" using l tot_nonneg [OF us(1)] tot_nonneg [OF us(3)] by (simp add: bs)
  ultimately show "array h x < 2 ^ 30" using us(2) bs(2) by simp
qed

section \<open>Allocation\<close>

lemma malloc_ok:
  assumes "heap_inv h bs fl" "bytes \<noteq> 0" "bytes \<le> 0xFFFFFFFC"
  shows "\<exists>p h' bs' fl'. malloc bytes h = Some (p, h') \<and> heap_inv h' bs' fl' \<and>
     (\<forall>w. w \<notin> free_words 0 bs \<longrightarrow> array h' w = array h w) \<and>
     (if p = 0 then h' = h \<and> (\<forall>x \<in> set fl. array h x < ints_for bytes)
      else \<exists>i m. p = block_ptr h i \<and> takens 0 bs' = insert (i, m) (takens 0 bs) \<and>
        {i..<i + m} \<subseteq> free_words 0 bs \<and> uint bytes \<le> 4 * (m - 2))"
proof -
  note fl = inv_flist [OF assms(1)] and mem = inv_member [OF assms(1)]
  have pos: "\<forall>x \<in> set fl. 0 < array h x" using mem(1) by force
  obtain mx it where s: "best_loop h (ints_for bytes) 0x7FFFFFFF 0 20 (avail h) = Some (mx, it)"
    "(mx = 0x7FFFFFFF \<and> it = 0) \<or> (it \<in> set fl \<and> mx = array h it \<and> ints_for bytes \<le> array h it)"
    "(\<forall>x \<in> set fl. array h x < 0x7FFFFFFF) \<longrightarrow> (\<exists>x \<in> set fl. ints_for bytes \<le> array h x) \<longrightarrow>
       it \<in> set fl \<and> mx = array h it \<and> ints_for bytes \<le> array h it"
    using best_loop_spec [OF fl pos, of 20 "ints_for bytes" "0x7FFFFFFF" 0] by auto
  have small: "\<forall>x \<in> set fl. array h x < 0x7FFFFFFF" using mem(4) by force
  show ?thesis
  proof (cases "it = 0")
    case True
    then have "\<forall>x \<in> set fl. array h x < ints_for bytes" using s(3) small mem(2) by force
    then show ?thesis using assms(1,2) s(1) True by (auto simp: malloc_def intro!: exI [of _ bs] exI [of _ fl])
  next
    case False
    then have it: "it \<in> set fl" "mx = array h it" "ints_for bytes \<le> mx" using s(2) by auto
    obtain h' bs' fl' m where t: "take_block it mx (ints_for bytes) h = Some h'" "heap_inv h' bs' fl'"
      "\<forall>w. w \<notin> free_words 0 bs \<longrightarrow> array h' w = array h w" "takens 0 bs' = insert (it, m) (takens 0 bs)"
      "{it..<it + m} \<subseteq> free_words 0 bs" "ints_for bytes \<le> m"
      using take_block_ok [OF assms(1) it(1,2) ints_for_ok(1) [OF assms(3)] it(3)] by blast
    let ?h = "h'\<lparr>heap_count := heap_count h' + 1\<rparr>"
    have "heap_inv ?h bs' fl'" using t(2) by (simp add: heap_inv_def heap_hole_def)
    moreover have "malloc bytes h = Some (block_ptr h it, ?h)" using assms(2) s(1) t(1) False by (simp add: malloc_def)
    moreover have "uint bytes \<le> 4 * (m - 2)" using ints_for_ok(2) [OF assms(3)] t(6) by simp
    ultimately show ?thesis
      using t block_ptr_ok(2) [OF assms(1) mem(2,3) [OF it(1)]]
      by (intro exI [of _ "block_ptr h it"] exI [of _ ?h] exI [of _ bs'] exI [of _ fl']) auto
  qed
qed

text \<open>Heaps of 256 words at 0x100000, right after initialisation.\<close>

definition ex_heap :: heap where
  "ex_heap = makeTaken 254 2 (makeAvail 2 252 (makeTaken 0 2
     \<lparr>base = 0x100000, array = (\<lambda>_. 0), len = 256, safe = False, avail = 0, heap_count = 0\<rparr>))"

lemma ex_heap_inv: "heap_inv ex_heap [(2, False), (252, True), (2, False)] [2]"
  using init_blocks [of "\<lparr>base = 0x100000, array = (\<lambda>_. 0), len = 256, safe = False, avail = 0, heap_count = 0\<rparr>"]
  by (simp add: ex_heap_def)

lemma ex_heap_array: "array ex_heap 2 = 252"
  using ex_heap_inv by (simp add: heap_inv_def heap_hole_def)

text \<open>The same heap with a four-word block taken at index 2.\<close>

definition ex_heap2 :: heap where
  "ex_heap2 = the (take_block 2 252 4 ex_heap)"

lemma ex_heap2_inv: "heap_inv ex_heap2 [(2, False), (4, False), (248, True), (2, False)] [6]"
proof -
  let ?h = "\<lparr>base = 0x100000, array = (\<lambda>_. 0), len = 256, safe = False, avail = 0, heap_count = 0\<rparr>"
  have "take_block 2 252 4 ex_heap = Some ex_heap2"
    unfolding ex_heap2_def using take_block_ok [OF ex_heap_inv, of 2 252 4] ex_heap_array by auto
  have h: "heap_hole ex_heap [(2, False)] 0 ([(252, True)] @ [(2, False)]) [2]"
    using ex_heap_inv by (auto simp: heap_inv_def heap_hole_def)
  obtain h' where u: "unlink_free 2 ex_heap = Some h'" "heap_hole h' [(2, False)] 252 [(2, False)] []"
    "base h' = base ex_heap" "len h' = len ex_heap"
    by (rule unlink_block [OF h, of 2]) auto
  have e: "ex_heap2 = makeAvail 6 248 (makeTaken 2 4 h')" by (simp add: ex_heap2_def take_block_def u)
  have "heap_hole (makeTaken 2 4 h') [(2, False), (4, False)] 248 [(2, False)] []"
    using hole_taken [OF u(2), of 4] by simp
  from hole_avail [OF this, of 248] have "heap_hole ex_heap2 [(2, False), (4, False), (248, True)] 0 [(2, False)] [6]"
    by (simp add: e)
  then show ?thesis
    using hole_move [of ex_heap2 "[]" "[(2, False), (4, False), (248, True)]" "[(2, False)]" "[6]"] ex_heap_inv u(3,4)
    by (auto simp: heap_inv_def sentinels_def no_adjacent_free_def e)
qed

lemma ex_heap_base: "base ex_heap = 0x100000" "base ex_heap2 = 0x100000" "len ex_heap2 = 256"
  using ex_heap_inv ex_heap2_inv by (simp_all add: ex_heap_def heap_inv_def ex_heap2_def take_block_def Let_def unlink_free_def
      prev_free_def next_free_def setNext_def setPrev_def)

section \<open>Claims\<close>

text \<open>
  C21. The kernel's \<^verbatim>\<open>malloc\<close> is correct for every size up to 0xFFFFFFFC.  On a
  well-formed heap it returns, and the heap is well formed afterwards.  It gives null
  exactly when no free block is large enough, and then changes nothing.  Otherwise the new
  block was free, is the only block that becomes taken, has room for the bytes asked for, and no
  word outside the free blocks was written: what other blocks hold is untouched.
\<close>

theorem malloc_correct:
  assumes "heap_inv h bs fl" "bytes \<noteq> 0" "bytes \<le> 0xFFFFFFFC"
  shows "\<exists>p h' bs' fl'. malloc bytes h = Some (p, h') \<and> heap_inv h' bs' fl' \<and>
     (\<forall>w. w \<notin> free_words 0 bs \<longrightarrow> array h' w = array h w) \<and>
     (if p = 0 then h' = h \<and> (\<forall>x \<in> set fl. array h x < ints_for bytes)
      else \<exists>i m. p = block_ptr h i \<and> takens 0 bs' = insert (i, m) (takens 0 bs) \<and>
        {i..<i + m} \<subseteq> free_words 0 bs \<and> uint bytes \<le> 4 * (m - 2))"
  by (rule malloc_ok [OF assms])

lemma malloc_correct_witness:
  "\<exists>p h' bs' fl'. malloc 100 ex_heap = Some (p, h') \<and> heap_inv h' bs' fl' \<and> p \<noteq> 0 \<and>
     (\<exists>i m. takens 0 bs' = {(0, 2), (254, 2), (i, m)} \<and> 100 \<le> 4 * (m - 2))"
proof -
  have ints: "ints_for 100 = 27" by (simp add: ints_for_def)
  obtain p h' bs' fl' where r: "malloc 100 ex_heap = Some (p, h')" "heap_inv h' bs' fl'"
    "if p = 0 then h' = ex_heap \<and> (\<forall>x \<in> set [2]. array ex_heap x < ints_for 100)
      else \<exists>i m. p = block_ptr ex_heap i \<and> takens 0 bs' = insert (i, m) (takens 0 [(2, False), (252, True), (2, False)]) \<and>
        {i..<i + m} \<subseteq> free_words 0 [(2, False), (252, True), (2, False)] \<and> uint (100 :: u32) \<le> 4 * (m - 2)"
    using malloc_correct [OF ex_heap_inv, of 100] by auto
  then have "p \<noteq> 0" by (auto simp: ints ex_heap_array)
  then show ?thesis using r by (auto simp: insert_commute)
qed

text \<open>
  C22. The kernel's \<^verbatim>\<open>free\<close> is correct.  Given the address of a taken block other than
  the sentinels it returns, the heap stays well formed (in particular no two free blocks are
  adjacent, so neighbours were merged), that block and no other stops being taken, exactly its
  words join the free ones, and no word outside the free blocks is written.
\<close>

theorem free_correct:
  assumes "heap_inv h bs fl" "(i, m) \<in> takens 0 bs" "0 < i" "i + m < len h"
  shows "\<exists>h' bs' fl'. free (block_ptr h i) h = Some h' \<and> heap_inv h' bs' fl' \<and>
     takens 0 bs' = takens 0 bs - {(i, m)} \<and> free_words 0 bs' = free_words 0 bs \<union> {i..<i + m} \<and>
     (\<forall>w. w \<notin> free_words 0 bs' \<longrightarrow> array h' w = array h w)"
proof -
  obtain us vs where bs: "bs = us @ (m, False) # vs" "i = tot us" using takens_split [OF assms(2)] by auto
  have b: "blocks (array h) 0 bs" and l: "tot bs = len h" using assms(1) by (auto simp: heap_inv_def heap_hole_def)
  have ne: "us \<noteq> []" "vs \<noteq> []" using assms(3,4) bs l by auto
  have hd: "array h i = - m" "2 \<le> m" using b bs by (auto simp: blocks_append)
  let ?h = "h\<lparr>heap_count := heap_count h - 1\<rparr>"
  have inv: "heap_inv ?h bs fl" using assms(1) by (simp add: heap_inv_def heap_hole_def)
  obtain h' bs' fl' where r: "release_block i ?h = Some h'" "heap_inv h' bs' fl'"
     "takens 0 bs' = takens 0 bs - {(i, m)}" "free_words 0 bs' = free_words 0 bs \<union> {i..<i + m}"
     "\<forall>w. w \<notin> free_words 0 bs' \<longrightarrow> array h' w = array h w"
    using release_block_ok [OF inv bs(1) ne] bs(2) by auto
  have "i + 1 < len h" using assms(4) hd(2) by simp
  note p = block_ptr_ok [OF assms(1,3) this]
  have "block_idx ?h (block_ptr h i) = i" using p(1) by (simp add: block_idx_def)
  then have "free (block_ptr h i) h = Some h'"
    using p(2,3) r(1) hd inv_flist(2) [OF inv] by (simp add: free_def isTaken_def)
  then show ?thesis using r by blast
qed

lemma free_correct_witness:
  "\<exists>h' bs' fl'. free (block_ptr ex_heap2 2) ex_heap2 = Some h' \<and> heap_inv h' bs' fl' \<and> takens 0 bs' = {(0, 2), (254, 2)}"
proof -
  let ?bs = "[(2, False), (4, False), (248, True), (2, False)] :: block list"
  have "takens 0 ?bs - {(2, 4)} = {(0, 2), (254, 2)}" by auto
  moreover have "\<exists>h' bs' fl'. free (block_ptr ex_heap2 2) ex_heap2 = Some h' \<and> heap_inv h' bs' fl' \<and>
     takens 0 bs' = takens 0 ?bs - {(2, 4)} \<and> free_words 0 bs' = free_words 0 ?bs \<union> {2..<2 + 4} \<and>
     (\<forall>w. w \<notin> free_words 0 bs' \<longrightarrow> array h' w = array ex_heap2 w)"
    by (rule free_correct [OF ex_heap2_inv]) (simp_all add: ex_heap_base)
  ultimately show ?thesis by metis
qed

text \<open>
  The same holds of the heap of user programs, whose \<^verbatim>\<open>malloc\<close> takes the first block
  of the free list that is large enough and whose \<^verbatim>\<open>free\<close> merges like the kernel's.
\<close>

theorem user_heap_correct:
  assumes inv: "heap_inv (unsafe h) bs fl"
  shows "(bytes \<noteq> 0 \<and> bytes \<le> 0xFFFFFFFC \<longrightarrow>
     (\<exists>p h' bs' fl'. user_malloc bytes h = Some (p, h') \<and> heap_inv (unsafe h') bs' fl' \<and>
       (\<forall>w. w \<notin> free_words 0 bs \<longrightarrow> array h' w = array h w) \<and>
       (case filter (\<lambda>x. ints_for bytes \<le> array h x) fl of
          [] \<Rightarrow> p = 0 \<and> h' = h
        | i # _ \<Rightarrow> p = block_ptr h i \<and> p \<noteq> 0 \<and>
           (\<exists>m. takens 0 bs' = insert (i, m) (takens 0 bs) \<and> {i..<i + m} \<subseteq> free_words 0 bs \<and> uint bytes \<le> 4 * (m - 2))))) \<and>
    ((i, m) \<in> takens 0 bs \<and> 0 < i \<and> i + m < len h \<longrightarrow>
     (\<exists>bs' fl'. heap_inv (unsafe (user_free (block_ptr h i) h)) bs' fl' \<and>
       takens 0 bs' = takens 0 bs - {(i, m)} \<and> free_words 0 bs' = free_words 0 bs \<union> {i..<i + m} \<and>
       (\<forall>w. w \<notin> free_words 0 bs' \<longrightarrow> array (user_free (block_ptr h i) h) w = array h w)))"
  (is "(?A \<longrightarrow> ?M) \<and> (?B \<longrightarrow> ?F)")
proof (intro conjI impI)
  note mem = inv_member [OF inv]
  assume A: ?A
  then have i4: "4 \<le> ints_for bytes" and isz: "uint bytes \<le> 4 * (ints_for bytes - 2)" using ints_for_ok by auto
  have fl: "flist (array h) 0 (avail h) fl" using inv_flist(1) [OF inv] by simp
  have pos: "\<forall>x \<in> set fl. 0 < array h x" using mem(1) by force
  note spec = first_loop_spec [OF fl pos, of "ints_for bytes"]
  show ?M
  proof (cases "filter (\<lambda>x. ints_for bytes \<le> array h x) fl")
    case Nil
    then show ?thesis using spec A inv by (auto simp: user_malloc_def)
  next
    case (Cons x xs)
    then have x: "x \<in> set fl" "ints_for bytes \<le> array h x"
      using filter_eq_ConsD [OF Cons] by auto
    obtain h' where run: "first_loop (ints_for bytes) (avail h) h = Some (block_ptr h x, h')"
      "take_block x (array h x) (ints_for bytes) (unsafe h) = Some (unsafe h')" using spec Cons by auto
    obtain bs' fl' k where t: "heap_inv (unsafe h') bs' fl'" "\<forall>w. w \<notin> free_words 0 bs \<longrightarrow> array h' w = array h w"
      "takens 0 bs' = insert (x, k) (takens 0 bs)" "{x..<x + k} \<subseteq> free_words 0 bs" "ints_for bytes \<le> k"
      using take_block_ok [OF inv x(1) _ i4 x(2)] run(2) by auto
    have "block_ptr h x \<noteq> 0" using block_ptr_ok(2) [OF inv mem(2,3) [OF x(1)]] by (simp add: unsafe_commute)
    moreover have "uint bytes \<le> 4 * (k - 2)" using t(5) isz by simp
    moreover have "user_malloc bytes h = Some (block_ptr h x, h')" using A run(1) by (simp add: user_malloc_def)
    ultimately show ?thesis using t Cons
      by (intro exI [of _ "block_ptr h x"] exI [of _ h'] exI [of _ bs'] exI [of _ fl']) auto
  qed
next
  assume B: ?B
  then obtain us vs where bs: "bs = us @ (m, False) # vs" "i = tot us" using takens_split [of i m 0 bs] by auto
  have b: "blocks (array h) 0 bs" and l: "tot bs = len h" using inv by (auto simp: heap_inv_def heap_hole_def)
  have ne: "us \<noteq> []" "vs \<noteq> []" using B bs l by auto
  have hd: "array h i = - m" "2 \<le> m" using b bs by (auto simp: blocks_append)
  obtain h' bs' fl' where r: "release_block i (unsafe h) = Some h'" "heap_inv h' bs' fl'"
     "takens 0 bs' = takens 0 bs - {(i, m)}" "free_words 0 bs' = free_words 0 bs \<union> {i..<i + m}"
     "\<forall>w. w \<notin> free_words 0 bs' \<longrightarrow> array h' w = array h w"
    using release_block_ok [OF inv bs(1) ne] bs(2) by auto
  have "0 < i" "i + 1 < len (unsafe h)" using B hd(2) by auto
  note p = block_ptr_ok [OF inv this, unfolded unsafe_commute]
  have "release_block i (unsafe h) = Some (unsafe (user_free (block_ptr h i) h))"
    using user_free_eq [of "block_ptr h i" h] p hd by (simp add: isTaken_def)
  then show ?F using r by auto
qed

lemma user_heap_correct_witness:
  "(\<exists>p h' bs' fl'. user_malloc 8 ex_heap = Some (p, h') \<and> heap_inv (unsafe h') bs' fl' \<and> p = block_ptr ex_heap 2) \<and>
   (\<exists>bs' fl'. heap_inv (unsafe (user_free (block_ptr ex_heap2 2) ex_heap2)) bs' fl' \<and> takens 0 bs' = {(0, 2), (254, 2)})"
proof -
  have u: "unsafe ex_heap = ex_heap" "unsafe ex_heap2 = ex_heap2"
    using ex_heap_inv ex_heap2_inv by (simp_all add: heap_inv_def heap_hole_def)
  have ints: "ints_for 8 = 4" by (simp add: ints_for_def)
  have i1: "heap_inv (unsafe ex_heap) [(2, False), (252, True), (2, False)] [2]" using ex_heap_inv by (simp add: u)
  have i2: "heap_inv (unsafe ex_heap2) [(2, False), (4, False), (248, True), (2, False)] [6]" using ex_heap2_inv by (simp add: u)
  from user_heap_correct [OF i1, of 8 0 0]
  have "\<exists>p h' bs' fl'. user_malloc 8 ex_heap = Some (p, h') \<and> heap_inv (unsafe h') bs' fl' \<and> p = block_ptr ex_heap 2"
    by (auto simp: ints ex_heap_array)
  moreover from user_heap_correct [OF i2, of 0 2 4]
  have "\<exists>bs' fl'. heap_inv (unsafe (user_free (block_ptr ex_heap2 2) ex_heap2)) bs' fl' \<and> takens 0 bs' = {(0, 2), (254, 2)}"
    by (auto simp: ex_heap_base)
  ultimately show ?thesis by blast
qed

text \<open>
  The size computation wraps.  For the three largest sizes \<^verbatim>\<open>(bytes + 3) / 4\<close> is 0, so
  \<^verbatim>\<open>malloc\<close> looks for four words and, on any heap that has a free block, returns a non-null
  pointer to a block that cannot hold the bytes asked for.
\<close>

theorem malloc_size_wraps:
  assumes "heap_inv h bs fl" "fl \<noteq> []" "0xFFFFFFFD \<le> bytes"
  shows "ints_for bytes = 4 \<and> (\<exists>p h'. malloc bytes h = Some (p, h') \<and> p \<noteq> 0 \<and> 4 * len h' < uint bytes)"
proof -
  have ub: "0xFFFFFFFD \<le> uint bytes" "uint bytes < 2 ^ 32" using assms(3) uint_bounded [of bytes] by (simp_all add: word_le_def)
  define r where "r = uint bytes - 0xFFFFFFFD"
  have r: "0 \<le> r" "r < 3" "uint bytes + 3 = r + 2 ^ 32" using ub by (auto simp: r_def)
  have "uint (bytes + 3) = (uint bytes + 3) mod 2 ^ 32" by (simp add: uint_word_ariths)
  then have "uint (bytes + 3) = r" using r by simp
  then have "uint (bytes + 3) < 4" using r by simp
  then have "uint ((bytes + 3) div 4) = 0" by (simp add: uint_div div_pos_pos_trivial)
  then have "(bytes + 3) div 4 = 0" by (simp add: uint_0_iff)
  then have four: "ints_for bytes = 4" by (simp add: ints_for_def)
  note fl = inv_flist [OF assms(1)] and mem = inv_member [OF assms(1)]
  have pos: "\<forall>x \<in> set fl. 0 < array h x" "\<forall>x \<in> set fl. array h x < 0x7FFFFFFF" using mem(1,4) by force+
  obtain x where "x \<in> set fl" "4 \<le> array h x" using assms(2) mem(1) by (cases fl) auto
  then obtain it where it: "best_loop h 4 0x7FFFFFFF 0 20 (avail h) = Some (array h it, it)" "it \<in> set fl" "4 \<le> array h it"
    using best_loop_spec [OF fl pos(1), of 20 4 "0x7FFFFFFF" 0] pos(2) by fastforce
  obtain h' where h': "take_block it (array h it) 4 h = Some h'" "base h' = base h" "tot bs = len h" "\<exists>cs. tot cs = len h'"
    using take_block_ok [OF assms(1) it(2) refl _ it(3)] assms(1) by (auto simp: heap_inv_def)
  have "len h' = len h" using h'(1) by (auto simp: take_block_def unlink_free_def Let_def setNext_def setPrev_def split: Option.bind_splits if_splits)
  moreover have "bytes \<noteq> 0" using ub by auto
  moreover have "4 * len h < uint bytes"
  proof -
    have "uint (base h) \<noteq> 0" "uint (base h) + 4 * len h \<le> 2 ^ 32"
      using assms(1) by (auto simp: heap_inv_def uint_0_iff)
    then have "4 * len h < 2 ^ 32" using uint_ge_0 [of "base h"] by linarith
    then have "len h \<le> 2 ^ 30 - 1" by simp
    then show ?thesis using ub by simp
  qed
  ultimately show ?thesis using four it h'(1) block_ptr_ok(2) [OF assms(1) mem(2,3) [OF it(2)]] mem(2) [OF it(2)]
    by (auto simp: malloc_def)
qed

lemma malloc_size_wraps_witness:
  "\<exists>p h'. malloc 0xFFFFFFFF ex_heap = Some (p, h') \<and> p \<noteq> 0 \<and> 4 * len h' < 0xFFFFFFFF"
  using malloc_size_wraps [OF ex_heap_inv, of "0xFFFFFFFF"] by auto

text \<open>
  Both heaps start well formed.  \<^verbatim>\<open>heapInit\<close> on at least 64 bytes returns with a
  well-formed heap in which, besides the sentinels, exactly one block is taken, the heap's own
  lock; \<^verbatim>\<open>heap_init\<close> on the user's static array gives a well-formed heap with one free block.
\<close>

theorem heaps_start_well_formed:
  assumes "b \<noteq> 0" "64 \<le> uint bytes" "uint b + uint bytes \<le> 2 ^ 32" "\<not> safe h" "avail h = 0"
    and "base g \<noteq> 0" "len g = INTS" "avail g = 0" "uint (base g) + 4 * INTS \<le> 2 ^ 32"
  shows "(\<exists>p h' bs fl i m. heapInit b bytes h = Some (p, h') \<and> heap_inv h' bs fl \<and>
       takens 0 bs = {(0, 2), (uint bytes div 4 - 2, 2), (i, m)}) \<and>
    heap_inv (unsafe (heap_init g)) [(2, False), (INTS - 4, True), (2, False)] [2]"
proof
  define h0 where "h0 = h\<lparr>base := b, len := uint (bytes div 4)\<rparr>"
  have l: "len h0 = uint bytes div 4" by (simp add: h0_def uint_div)
  define h3 where "h3 = makeTaken (len h0 - 2) 2 (makeAvail 2 (len h0 - 4) (makeTaken 0 2 h0))"
  have inv: "heap_inv h3 [(2, False), (len h0 - 4, True), (2, False)] [2]"
    unfolding h3_def using assms(1-5) l by (intro init_blocks) (simp_all add: h0_def)
  then have a2: "array h3 2 = len h0 - 4" by (simp add: heap_inv_def heap_hole_def)
  have i1: "ints_for 1 = 4" by (simp add: ints_for_def)
  obtain p h' bs fl i m where r: "malloc 1 h3 = Some (p, h')" "heap_inv h' bs fl" "p \<noteq> 0"
      "takens 0 bs = insert (i, m) (takens 0 [(2, False), (len h0 - 4, True), (2, False)])"
    using malloc_ok [OF inv, of 1] assms(2) l a2 by (auto simp: i1 split: if_splits)
  have "heapInit b bytes h = Some (p, h')"
    using r(1,3) by (simp add: heapInit_def operator_new_def h3_def h0_def Let_def)
  moreover have "takens 0 bs = {(0, 2), (uint bytes div 4 - 2, 2), (i, m)}" using r(4) l by auto
  ultimately show "\<exists>p h' bs fl i m. heapInit b bytes h = Some (p, h') \<and> heap_inv h' bs fl \<and>
       takens 0 bs = {(0, 2), (uint bytes div 4 - 2, 2), (i, m)}"
    using r(2) by blast
  have "heap_inv (makeTaken (len (unsafe g) - 2) 2 (makeAvail 2 (len (unsafe g) - 4) (makeTaken 0 2 (unsafe g))))
     [(2, False), (len (unsafe g) - 4, True), (2, False)] [2]"
    using assms(6-9) by (intro init_blocks) (simp_all add: INTS_def)
  then show "heap_inv (unsafe (heap_init g)) [(2, False), (INTS - 4, True), (2, False)] [2]"
    using assms(7) by (simp add: heap_init_def Let_def unsafe_commute)
qed

lemma heaps_start_well_formed_witness:
  "\<exists>p h'. heapInit 0x100000 0x500000 (ex_heap\<lparr>avail := 0\<rparr>) = Some (p, h')"
  using heaps_start_well_formed [of "0x100000" "0x500000" "ex_heap\<lparr>avail := 0\<rparr>" "ex_heap\<lparr>avail := 0, len := INTS\<rparr>"]
    ex_heap_inv by (auto simp: heap_inv_def heap_hole_def ex_heap_base INTS_def)

end
