(* ===== verification/Long_Double.thy ===== *)
theory Long_Double
  imports Complex_Main Kernel_Prelude
begin

text \<open>
  The \<^verbatim>\<open>long double\<close> of the processor, as far as \<^verbatim>\<open>kernel/snprintf.cc\<close> computes with it: finite numbers
  with a significand of 64 bits, every result rounded to the nearest number, to the even one of two.
  The exponent is unbounded, which makes no difference in the range where \<^verbatim>\<open>fmtfp\<close> is defined.
\<close>

section \<open>Numbers and their arithmetic\<close>

record ldouble =
  mant :: int
  expo :: int

definition ld_ok :: "ldouble \<Rightarrow> bool" where
  "ld_ok x \<longleftrightarrow> \<bar>mant x\<bar> \<le> 2 ^ 64"

definition ld_val :: "ldouble \<Rightarrow> rat" where
  "ld_val x = of_int (mant x) * 2 powi expo x"

text \<open>The number of binary digits.\<close>

fun bits :: "nat \<Rightarrow> nat" where
  "bits n = (if n = 0 then 0 else Suc (bits (n div 2)))"

declare bits.simps [simp del]

text \<open>\<open>n / 2 ^ k\<close>, to the nearest integer, to the even one of two.\<close>

definition round_shift :: "nat \<Rightarrow> nat \<Rightarrow> nat" where
  "round_shift n k = (let q = n div 2 ^ k; r = n mod 2 ^ k in
     if 2 * r < 2 ^ k \<or> 2 * r = 2 ^ k \<and> even q then q else q + 1)"

definition ld_round :: "int \<Rightarrow> int \<Rightarrow> ldouble" where
  "ld_round m e = (let k = bits (nat \<bar>m\<bar>) - 64 in
     if k = 0 then \<lparr>mant = m, expo = e\<rparr> else \<lparr>mant = sgn m * int (round_shift (nat \<bar>m\<bar>) k), expo = e + int k\<rparr>)"

definition ld_of_long :: "int \<Rightarrow> ldouble" where
  "ld_of_long i = \<lparr>mant = i, expo = 0\<rparr>"

definition ld_neg :: "ldouble \<Rightarrow> ldouble" where
  "ld_neg x = x\<lparr>mant := - mant x\<rparr>"

definition ld_mul :: "ldouble \<Rightarrow> ldouble \<Rightarrow> ldouble" where
  "ld_mul x y = ld_round (mant x * mant y) (expo x + expo y)"

text \<open>The significands of two numbers over the smaller of their exponents.\<close>

definition ld_align :: "ldouble \<Rightarrow> ldouble \<Rightarrow> int \<times> int \<times> int" where
  "ld_align x y = (let e = min (expo x) (expo y) in
     (mant x * 2 ^ nat (expo x - e), mant y * 2 ^ nat (expo y - e), e))"

definition ld_sub :: "ldouble \<Rightarrow> ldouble \<Rightarrow> ldouble" where
  "ld_sub x y = (case ld_align x y of (a, b, e) \<Rightarrow> ld_round (a - b) e)"

definition ld_less :: "ldouble \<Rightarrow> ldouble \<Rightarrow> bool" where
  "ld_less x y = (case ld_align x y of (a, b, e) \<Rightarrow> a < b)"

text \<open>Conversion to \<^verbatim>\<open>long\<close> cuts the fraction off; it is undefined outside the range of the type.\<close>

definition ld_trunc :: "ldouble \<Rightarrow> int" where
  "ld_trunc x = (if 0 \<le> expo x then mant x * 2 ^ nat (expo x) else sgn (mant x) * (\<bar>mant x\<bar> div 2 ^ nat (- expo x)))"

definition to_long :: "int \<Rightarrow> int option" where
  "to_long i = (if - (2 ^ 31) \<le> i \<and> i < 2 ^ 31 then Some i else None)"

definition ld_to_long :: "ldouble \<Rightarrow> int option" where
  "ld_to_long x = to_long (ld_trunc x)"

section \<open>The helpers of \<^verbatim>\<open>fmtfp\<close>\<close>

definition abs_val :: "ldouble \<Rightarrow> ldouble" where
  "abs_val value = (if ld_less value (ld_of_long 0) then ld_neg value else value)"

text \<open>\<^verbatim>\<open>while (exp) { result *= 10; exp--; }\<close>\<close>

primrec pow10_loop :: "nat \<Rightarrow> ldouble \<Rightarrow> ldouble" where
  "pow10_loop 0 result = result"
| "pow10_loop (Suc ex) result = pow10_loop ex (ld_mul result (ld_of_long 10))"

definition pow10 :: "nat \<Rightarrow> ldouble" where
  "pow10 ex = pow10_loop ex (ld_of_long 1)"

definition ld_half :: ldouble where "ld_half = \<lparr>mant = 1, expo = - 1\<rparr>"

definition xround :: "ldouble \<Rightarrow> int option" where
  "xround value = do {
     intpart \<leftarrow> ld_to_long value;
     let value = ld_sub value (ld_of_long intpart);
     if \<not> ld_less value ld_half then to_long (intpart + 1) else Some intpart }"

section \<open>Rounding\<close>

lemma bits_bounds: "n \<noteq> 0 \<Longrightarrow> 2 ^ (bits n - 1) \<le> n \<and> n < 2 ^ bits n"
proof (induction n rule: bits.induct)
  case (1 n)
  show ?case
  proof (cases "n div 2 = 0")
    case True
    then have "n = 1" using 1(2) by linarith
    then show ?thesis by (simp add: bits.simps)
  next
    case False
    have b: "bits n = Suc (bits (n div 2))" "bits (n div 2) \<noteq> 0" using 1(2) False by (simp_all add: bits.simps)
    then obtain j where j: "bits (n div 2) = Suc j" using not0_implies_Suc by blast
    have "2 ^ (bits (n div 2) - 1) \<le> n div 2" "n div 2 < 2 ^ bits (n div 2)" using 1(1) [OF 1(2) False] by blast+
    then show ?thesis unfolding b(1) j by simp linarith
  qed
qed

lemma bits_small: "n < 2 ^ k \<Longrightarrow> bits n \<le> k"
proof (rule ccontr)
  assume n: "n < 2 ^ k" "\<not> bits n \<le> k"
  then have "n \<noteq> 0" by (cases "n = 0") (simp_all add: bits.simps)
  then have "(2::nat) ^ (bits n - 1) \<le> n" using bits_bounds by blast
  moreover have "(2::nat) ^ k \<le> 2 ^ (bits n - 1)" using n(2) by (intro power_increasing) simp_all
  ultimately show False using n(1) by linarith
qed

lemma round_shift_near: "2 * \<bar>int n - int (round_shift n k) * 2 ^ k\<bar> \<le> 2 ^ k"
proof -
  define q r where "q = n div 2 ^ k" and "r = n mod 2 ^ k"
  have "n = q * 2 ^ k + r" by (simp only: q_def r_def div_mult_mod_eq)
  then have "int n = int (q * 2 ^ k + r)" by simp
  then have n: "int n = int q * 2 ^ k + int r" by simp
  have cast: "int (2 ^ k) = 2 ^ k" by simp
  have "r < 2 ^ k" by (simp add: r_def)
  then have r: "int r < 2 ^ k" unfolding cast [symmetric] by (rule of_nat_less_iff [THEN iffD2])
  consider "2 * r \<le> 2 ^ k" "round_shift n k = q" | "2 * r \<ge> 2 ^ k" "round_shift n k = q + 1"
  proof (cases "2 * r < 2 ^ k \<or> 2 * r = 2 ^ k \<and> even q")
    case True
    then show thesis using that(1) by (auto simp: round_shift_def q_def r_def)
  next
    case False
    then have "round_shift n k = q + 1" by (simp only: round_shift_def Let_def q_def r_def if_False)
    then show thesis using that(2) False by linarith
  qed
  then show ?thesis
  proof cases
    case 1
    then have "int (2 * r) \<le> int (2 ^ k)" by (intro of_nat_le_iff [THEN iffD2])
    then have "2 * int r \<le> 2 ^ k" unfolding cast by simp
    then show ?thesis using 1(2) n by simp
  next
    case 2
    then have "int (2 ^ k) \<le> int (2 * r)" by (intro of_nat_le_iff [THEN iffD2])
    then have "2 ^ k \<le> 2 * int r" unfolding cast by simp
    moreover have "int n - int (round_shift n k) * 2 ^ k = int r - 2 ^ k" using 2(2) n by (simp add: distrib_right)
    ultimately show ?thesis using r by simp
  qed
qed

text \<open>A number that has at most 64 digits is kept, every other one moves by at most half a unit.\<close>

lemma ld_round_exact: "\<bar>m\<bar> < 2 ^ 64 \<Longrightarrow> ld_round m e = \<lparr>mant = m, expo = e\<rparr>"
proof -
  assume "\<bar>m\<bar> < 2 ^ 64"
  then have "nat \<bar>m\<bar> < 2 ^ 64" by simp
  then show ?thesis using bits_small [of "nat \<bar>m\<bar>" 64] by (simp add: ld_round_def)
qed

lemma ld_round_near: "\<bar>ld_val (ld_round m e) - of_int m * 2 powi e\<bar> \<le> \<bar>of_int m * 2 powi e\<bar> / 2 ^ 64"
proof (cases "bits (nat \<bar>m\<bar>) \<le> 64")
  case True
  then show ?thesis by (simp add: ld_round_def ld_val_def)
next
  case False
  define n k where "n = nat \<bar>m\<bar>" and "k = bits n - 64"
  have m: "m = sgn m * int n" by (simp add: n_def sgn_mult_abs)
  have n0: "n \<noteq> 0" using False by (cases "n = 0") (simp_all add: n_def bits.simps)
  then have sg: "\<bar>rat_of_int (sgn m)\<bar> = 1" by (cases m "0 :: int" rule: linorder_cases) (simp_all add: n_def)
  have r: "ld_round m e = \<lparr>mant = sgn m * int (round_shift n k), expo = e + int k\<rparr>"
    using False by (simp add: ld_round_def Let_def n_def k_def)
  let ?d = "int n - int (round_shift n k) * 2 ^ k"
  have pw: "(2 :: rat) powi (e + int k) = 2 powi e * 2 ^ k" by (simp add: power_int_add)
  have "ld_val (ld_round m e) - of_int m * 2 powi e = of_int (sgn m * int (round_shift n k) * 2 ^ k - m) * 2 powi e"
    unfolding r ld_val_def by (simp add: pw algebra_simps)
  also have "sgn m * int (round_shift n k) * 2 ^ k - m = - (sgn m * ?d)" using m by (simp add: algebra_simps)
  finally have "\<bar>ld_val (ld_round m e) - of_int m * 2 powi e\<bar> = of_int \<bar>?d\<bar> * 2 powi e"
    using sg by (simp add: abs_mult)
  moreover have "2 ^ (k + 63) \<le> n" using bits_bounds [OF n0] False by (simp add: k_def n_def)
  then have "int (2 ^ (k + 63)) \<le> int n" by (rule of_nat_le_iff [THEN iffD2])
  then have "2 ^ 64 * \<bar>?d\<bar> \<le> int n" using round_shift_near [of n k] by (simp add: power_add)
  then have "2 ^ 64 * \<bar>?d\<bar> \<le> \<bar>m\<bar>" by (simp add: n_def)
  then have "of_int (2 ^ 64 * \<bar>?d\<bar>) \<le> (of_int \<bar>m\<bar> :: rat)" by (rule of_int_le_iff [THEN iffD2])
  then have "(2 :: rat) ^ 64 * of_int \<bar>?d\<bar> \<le> of_int \<bar>m\<bar>" by (simp del: of_int_abs)
  then have "of_int \<bar>?d\<bar> * 2 powi e \<le> of_int \<bar>m\<bar> / 2 ^ 64 * (2 :: rat) powi e"
    by (intro mult_right_mono) (simp_all add: le_divide_eq mult.commute)
  ultimately show ?thesis by (simp add: abs_mult)
qed

lemma round_shift_le: "n < 2 ^ (k + j) \<Longrightarrow> round_shift n k \<le> 2 ^ j"
proof -
  assume "n < 2 ^ (k + j)"
  then have "n div 2 ^ k < 2 ^ j" by (simp add: div_less_iff_less_mult power_add mult.commute)
  then show ?thesis by (simp add: round_shift_def Let_def)
qed

lemma ld_round_ok: "ld_ok (ld_round m e)" "0 \<le> m \<Longrightarrow> 0 \<le> mant (ld_round m e)"
proof -
  define n where "n = nat \<bar>m\<bar>"
  have "n < 2 ^ 64" if "bits n \<le> 64"
  proof (cases "n = 0")
    case False
    then have "n < 2 ^ bits n" using bits_bounds by blast
    also have "\<dots> \<le> (2 :: nat) ^ 64" using that by (rule power_increasing) simp
    finally show ?thesis .
  qed simp
  then have small: "bits n \<le> 64 \<Longrightarrow> \<bar>m\<bar> \<le> 2 ^ 64" by (auto simp: n_def)
  have "round_shift n (bits n - 64) \<le> 2 ^ 64" if "\<not> bits n \<le> 64"
  proof (rule round_shift_le)
    have "n \<noteq> 0" using that by (cases "n = 0") (simp_all add: bits.simps)
    then show "n < 2 ^ (bits n - 64 + 64)" using bits_bounds [of n] that by simp
  qed
  then have large: "int (round_shift n (bits n - 64)) \<le> 2 ^ 64" if "\<not> bits n \<le> 64" using that by force
  show "ld_ok (ld_round m e)"
    using small large unfolding ld_round_def ld_ok_def Let_def n_def [symmetric]
    by (cases m "0 :: int" rule: linorder_cases) auto
  show "0 \<le> m \<Longrightarrow> 0 \<le> mant (ld_round m e)" by (cases "m = 0") (simp_all add: ld_round_def Let_def)
qed

lemma ld_round_val: "\<bar>m\<bar> \<le> 2 ^ 64 \<Longrightarrow> ld_val (ld_round m e) = of_int m * 2 powi e"
proof (cases "\<bar>m\<bar> = 2 ^ 64")
  case True
  have "bits (2 ^ k) = Suc k" for k by (induction k) (subst bits.simps, simp add: bits.simps)+
  from this [of 64] have b: "bits 18446744073709551616 = 65" by simp
  have "m = 2 ^ 64 \<or> m = - (2 ^ 64)" using True by linarith
  then show ?thesis by (auto simp: ld_round_def ld_val_def b round_shift_def power_int_add)
next
  case False
  moreover assume "\<bar>m\<bar> \<le> 2 ^ 64"
  ultimately have "\<bar>m\<bar> < 2 ^ 64" by linarith
  then show ?thesis by (simp add: ld_round_exact ld_val_def)
qed

section \<open>The operations on values\<close>

lemma ld_align_val:
  assumes "ld_align x y = (a, b, e)"
  shows "ld_val x = of_int a * 2 powi e" "ld_val y = of_int b * 2 powi e"
proof -
  have *: "(2 :: rat) powi n = 2 ^ nat (n - e) * 2 powi e" if "e \<le> n" for n
    using that power_int_add [of "2 :: rat" "n - e" e] by (simp add: power_int_def)
  have e: "e \<le> expo x" "e \<le> expo y" using assms by (auto simp: ld_align_def Let_def)
  then show "ld_val x = of_int a * 2 powi e" "ld_val y = of_int b * 2 powi e"
    using assms * [OF e(1)] * [OF e(2)] by (auto simp: ld_align_def Let_def ld_val_def)
qed

lemma powi_pos [simp]: "0 < (2 :: rat) powi e" "0 \<le> of_int m * (2 :: rat) powi e \<longleftrightarrow> 0 \<le> m"
proof -
  show p: "0 < (2 :: rat) powi e" by (simp add: zero_less_power_int)
  show "0 \<le> of_int m * (2 :: rat) powi e \<longleftrightarrow> 0 \<le> m" using p by (simp add: zero_le_mult_iff not_le [symmetric])
qed

lemma ld_less_val: "ld_less x y \<longleftrightarrow> ld_val x < ld_val y"
proof -
  obtain a b e where al: "ld_align x y = (a, b, e)" by (cases "ld_align x y") auto
  show ?thesis using ld_align_val [OF al] by (simp add: ld_less_def al)
qed

lemma ld_of_long_val [simp]: "ld_val (ld_of_long i) = of_int i"
  by (simp add: ld_val_def ld_of_long_def)

lemma ld_half_val [simp]: "ld_val ld_half = 1 / 2"
  by (simp add: ld_val_def ld_half_def power_int_minus)

lemma ld_nonneg: "0 \<le> mant x \<longleftrightarrow> 0 \<le> ld_val x"
  by (simp add: ld_val_def)

lemma ld_abs_val: "ld_val (abs_val x) = \<bar>ld_val x\<bar>" "ld_ok x \<Longrightarrow> ld_ok (abs_val x)" "0 \<le> mant (abs_val x)"
proof -
  have n: "ld_val (ld_neg y) = - ld_val y" for y by (simp add: ld_val_def ld_neg_def)
  show v: "ld_val (abs_val x) = \<bar>ld_val x\<bar>" by (simp add: abs_val_def ld_less_val n)
  show "ld_ok x \<Longrightarrow> ld_ok (abs_val x)" by (simp add: abs_val_def ld_neg_def ld_ok_def)
  show "0 \<le> mant (abs_val x)" by (simp add: ld_nonneg v)
qed

lemma ld_trunc_val: "0 \<le> mant x \<Longrightarrow> ld_trunc x = \<lfloor>ld_val x\<rfloor>"
proof (cases "0 \<le> expo x")
  case True
  then have "ld_val x = of_int (mant x * 2 ^ nat (expo x))" by (simp add: ld_val_def power_int_def)
  then have "\<lfloor>ld_val x\<rfloor> = mant x * 2 ^ nat (expo x)" by (simp only: floor_of_int)
  then show ?thesis using True by (simp add: ld_trunc_def)
next
  case False
  assume m: "0 \<le> mant x"
  have "(2 :: rat) powi expo x = inverse (2 ^ nat (- expo x))" by (simp only: power_int_def if_not_P [OF False] power_inverse)
  then have "ld_val x = of_int (mant x) / of_int (2 ^ nat (- expo x))" by (simp add: ld_val_def divide_inverse)
  then have "\<lfloor>ld_val x\<rfloor> = mant x div 2 ^ nat (- expo x)" by (simp only: floor_divide_of_int_eq)
  then show ?thesis using False m by (cases "mant x = 0") (simp_all add: ld_trunc_def)
qed

text \<open>The fraction of a number is a number.\<close>

lemma ld_fraction:
  assumes "ld_ok x" "0 \<le> mant x" "i = \<lfloor>ld_val x\<rfloor>"
  shows "ld_val (ld_sub x (ld_of_long i)) = frac (ld_val x)" "ld_ok (ld_sub x (ld_of_long i))"
    "0 \<le> mant (ld_sub x (ld_of_long i))"
proof -
  obtain a b e where al: "ld_align x (ld_of_long i) = (a, b, e)" by (cases "ld_align x (ld_of_long i)") auto
  note v = ld_align_val [OF al]
  have d: "of_int (a - b) * 2 powi e = frac (ld_val x)" using v assms(3) by (simp add: frac_def algebra_simps)
  have "0 \<le> of_int (a - b) * (2 :: rat) powi e" unfolding d by simp
  then have pos: "0 \<le> a - b" by (simp only: powi_pos)
  have "a - b \<le> 2 ^ 64"
  proof (cases "0 \<le> expo x")
    case True
    then have "ld_val x = of_int (mant x * 2 ^ nat (expo x))" by (simp add: ld_val_def power_int_def)
    then have "frac (ld_val x) = 0" by (simp only: frac_of_int)
    then have "of_int (a - b) * (2 :: rat) powi e = 0" using d by simp
    then have "a - b = 0" using powi_pos(1) [of e] by (metis mult_eq_0_iff of_int_eq_0_iff less_irrefl)
    then show ?thesis by simp
  next
    case False
    then have "a = mant x" "0 \<le> b"
      using al v(2) assms(2,3) by (auto simp: ld_align_def Let_def ld_of_long_def ld_nonneg)
    then show ?thesis using assms(1) by (simp add: ld_ok_def)
  qed
  then show "ld_val (ld_sub x (ld_of_long i)) = frac (ld_val x)"
    using pos d by (simp add: ld_sub_def al ld_round_val)
  show "ld_ok (ld_sub x (ld_of_long i))" "0 \<le> mant (ld_sub x (ld_of_long i))"
    using pos by (simp_all add: ld_sub_def al ld_round_ok)
qed

lemma ld_mul_near: "\<bar>ld_val (ld_mul x y) - ld_val x * ld_val y\<bar> \<le> \<bar>ld_val x * ld_val y\<bar> / 2 ^ 64"
proof -
  have "ld_val x * ld_val y = of_int (mant x * mant y) * 2 powi (expo x + expo y)"
    by (simp add: ld_val_def power_int_add)
  then show ?thesis using ld_round_near by (simp only: ld_mul_def)
qed

lemma pow10_long: "p \<le> 19 \<Longrightarrow> pow10 p = ld_of_long (10 ^ p)"
proof -
  have "pow10_loop n (ld_of_long i) = ld_of_long (i * 10 ^ n)" if "0 \<le> i" "i * 10 ^ n < 2 ^ 64" for n i
    using that
  proof (induction n arbitrary: i)
    case (Suc n)
    have "i * 10 \<le> i * 10 * 10 ^ n" using Suc.prems(1) by (simp add: mult_le_cancel_left1)
    then have "ld_mul (ld_of_long i) (ld_of_long 10) = ld_of_long (i * 10)"
      using Suc.prems by (simp add: ld_mul_def ld_of_long_def ld_round_exact)
    then show ?case using Suc.IH [of "i * 10"] Suc.prems by (simp add: mult.assoc)
  qed simp
  moreover assume "p \<le> 19"
  then have "(10 :: int) ^ p \<le> 10 ^ 19" by (rule power_increasing) simp
  then have "(10 :: int) ^ p < 2 ^ 64" by simp
  ultimately show ?thesis by (simp add: pow10_def)
qed

lemma xround_val:
  assumes "ld_ok x" "0 \<le> mant x" "ld_val x < 2 ^ 31 - 1"
  shows "xround x = Some \<lfloor>ld_val x + 1 / 2\<rfloor>"
proof -
  let ?i = "\<lfloor>ld_val x\<rfloor>"
  have v: "0 \<le> ld_val x" using assms(2) by (simp add: ld_nonneg)
  have i: "0 \<le> ?i" "?i < 2 ^ 31 - 1" using v assms(3) by (simp_all add: floor_less_iff)
  have l: "ld_to_long x = Some ?i" using i by (simp add: ld_to_long_def to_long_def ld_trunc_val [OF assms(2)])
  note f = ld_fraction [OF assms(1,2) refl]
  show ?thesis
  proof (cases "frac (ld_val x) < 1 / 2")
    case True
    moreover have "of_int ?i \<le> ld_val x + 1 / 2" using of_int_floor_le [of "ld_val x"] by linarith
    ultimately have "\<lfloor>ld_val x + 1 / 2\<rfloor> = ?i" by (intro floor_unique) (simp_all add: frac_def)
    then show ?thesis using True by (simp add: xround_def l ld_less_val f)
  next
    case False
    then have "\<lfloor>ld_val x + 1 / 2\<rfloor> = ?i + 1"
      using frac_lt_1 [of "ld_val x"] by (intro floor_unique) (simp_all add: frac_def)
    then show ?thesis using False i by (simp add: xround_def l ld_less_val f to_long_def)
  qed
qed

end
