(* ===== verification/Printf_Fmt.thy ===== *)
theory Printf_Fmt
  imports Long_Double
begin

text \<open>
  Formatted output: \<^verbatim>\<open>kernel/snprintf.cc\<close> and its twin \<^verbatim>\<open>t0.dir/sbin/printf.c\<close>, which
  differ only in where a character goes.  A format is its characters followed by the terminating
  NUL; taking a character behind it has no result.  The argument list is a list of the values the
  caller passed, so that \<^verbatim>\<open>va_arg\<close> at a wrong type, or past the last argument, has no result.
  \<^verbatim>\<open>int\<close>, \<^verbatim>\<open>long\<close> and pointers are 32 bits: the widths and precisions the code computes wrap around
  (\<open>as_int\<close>); lengths and counts of characters written are taken to stay in range.
\<close>

definition as_int :: "int \<Rightarrow> int" where
  "as_int n = sint (of_int n :: u32)"

lemma as_int_id: "- (2 ^ 31) \<le> n \<Longrightarrow> n < 2 ^ 31 \<Longrightarrow> as_int n = n"
proof -
  assume n: "- (2 ^ 31) \<le> n" "n < 2 ^ 31"
  have "as_int n = signed_take_bit 31 n" unfolding as_int_def by transfer simp
  also have "\<dots> = n" using n by (rule signed_take_bit_int_eq_self)
  finally show ?thesis .
qed

section \<open>The output and its padding\<close>

record outst =
  buffer :: string
  currlen :: int

definition dopr_outch :: "char \<Rightarrow> outst \<Rightarrow> outst" where
  "dopr_outch c o1 = o1\<lparr>currlen := currlen o1 + 1, buffer := buffer o1 @ [c]\<rparr>"

text \<open>\<^verbatim>\<open>while (n > 0) { dopr_outch(c); --n; }\<close>\<close>

primrec put_n :: "nat \<Rightarrow> char \<Rightarrow> outst \<Rightarrow> outst" where
  "put_n 0 c s = s"
| "put_n (Suc n) c s = put_n n c (dopr_outch c s)"

primrec put_all :: "string \<Rightarrow> outst \<Rightarrow> outst" where
  "put_all [] s = s"
| "put_all (c # cs) s = put_all cs (dopr_outch c s)"

section \<open>Flags\<close>

definition DP_F_MINUS :: u32 where "DP_F_MINUS = push_bit 0 1"
definition DP_F_PLUS :: u32 where "DP_F_PLUS = push_bit 1 1"
definition DP_F_SPACE :: u32 where "DP_F_SPACE = push_bit 2 1"
definition DP_F_NUM :: u32 where "DP_F_NUM = push_bit 3 1"
definition DP_F_ZERO :: u32 where "DP_F_ZERO = push_bit 4 1"
definition DP_F_UP :: u32 where "DP_F_UP = push_bit 5 1"
definition DP_F_UNSIGNED :: u32 where "DP_F_UNSIGNED = push_bit 6 1"

definition has :: "u32 \<Rightarrow> u32 \<Rightarrow> bool" where
  "has flags f \<longleftrightarrow> flags AND f \<noteq> 0"

section \<open>Strings\<close>

text \<open>
  \<^verbatim>\<open>fmtstr\<close>; a string argument is the characters before its NUL, a null pointer is \<^const>\<open>None\<close>.
  The three loops share the count \<^verbatim>\<open>cnt\<close>, which stops at \<^verbatim>\<open>max\<close>.
\<close>

definition fmtstr :: "string option \<Rightarrow> u32 \<Rightarrow> int \<Rightarrow> int \<Rightarrow> outst \<Rightarrow> outst" where
  "fmtstr v flags mn mx s =
     (let value = (case v of None \<Rightarrow> ''<NULL>'' | Some x \<Rightarrow> x);
          strln = int (length value);
          padlen0 = as_int (mn - strln);
          padlen1 = (if padlen0 < 0 then 0 else padlen0);
          padlen2 = (if has flags DP_F_MINUS then - padlen1 else padlen1);
          lead = min (nat padlen2) (nat mx);
          s1 = put_n lead CHR '' '' s;
          chars = take (nat mx - lead) value;
          s2 = put_all chars s1;
          trail = min (nat (- padlen2)) (nat mx - lead - length chars)
      in put_n trail CHR '' '' s2)"

section \<open>Integers\<close>

definition digit_char :: "bool \<Rightarrow> nat \<Rightarrow> char" where
  "digit_char caps d = (if caps then ''0123456789ABCDEF'' else ''0123456789abcdef'') ! d"

text \<open>
  The conversion loop; \<^verbatim>\<open>convert\<close> is kept in the order it is printed, last digit produced first.
\<close>

function conv_loop :: "bool \<Rightarrow> u32 \<Rightarrow> u32 \<Rightarrow> nat \<Rightarrow> string \<Rightarrow> string" where
  "conv_loop caps b uvalue place conv =
     (let conv' = digit_char caps (unat (uvalue mod b)) # conv;
          uvalue' = uvalue div b;
          place' = place + 1
      in if uvalue' \<noteq> 0 \<and> place' < 20 then conv_loop caps b uvalue' place' conv' else conv')"
  by pat_completeness auto
termination by (relation "measure (\<lambda>(_, _, _, place, _). 20 - place)") auto

declare conv_loop.simps [simp del]

definition fmtint :: "u32 \<Rightarrow> u32 \<Rightarrow> int \<Rightarrow> int \<Rightarrow> u32 \<Rightarrow> outst \<Rightarrow> outst" where
  "fmtint value b mn mx0 flags s =
     (let mx = (if mx0 < 0 then 0 else mx0);
          (signvalue, uvalue) =
            (if \<not> has flags DP_F_UNSIGNED then
               if sint value < 0 then (Some CHR ''-'', - value)
               else if has flags DP_F_PLUS then (Some CHR ''+'', value)
               else if has flags DP_F_SPACE then (Some CHR '' '', value)
               else (None, value)
             else (None, value));
          caps = has flags DP_F_UP;
          conv0 = conv_loop caps b uvalue 0 [];
          conv = (if length conv0 = 20 then tl conv0 else conv0);
          place = int (length conv);
          zpadlen0 = mx - place;
          spadlen0 = as_int (mn - max mx place - (if signvalue = None then 0 else 1));
          zpadlen1 = (if zpadlen0 < 0 then 0 else zpadlen0);
          spadlen1 = (if spadlen0 < 0 then 0 else spadlen0);
          (zpadlen, spadlen2) = (if has flags DP_F_ZERO then (max zpadlen1 spadlen1, 0) else (zpadlen1, spadlen1));
          spadlen = (if has flags DP_F_MINUS then - spadlen2 else spadlen2);
          s1 = put_n (nat spadlen) CHR '' '' s;
          s2 = (case signvalue of None \<Rightarrow> s1 | Some c \<Rightarrow> dopr_outch c s1);
          s3 = put_n (nat zpadlen) CHR ''0'' s2;
          s4 = put_all conv s3
      in put_n (nat (- spadlen)) CHR '' '' s4)"

section \<open>Floating-point numbers\<close>

text \<open>
  The printing half of \<^verbatim>\<open>fmtfp\<close>.  The two parts are never negative, so that their digits are those the
  loop of \<^verbatim>\<open>fmtint\<close> makes.
\<close>

definition fp_convert :: "int \<Rightarrow> string" where
  "fp_convert part = (let conv = conv_loop False 10 (of_int part) 0 [] in if length conv = 20 then tl conv else conv)"

definition fp_print :: "int \<Rightarrow> int \<Rightarrow> char option \<Rightarrow> int \<Rightarrow> int \<Rightarrow> u32 \<Rightarrow> outst \<Rightarrow> outst" where
  "fp_print intpart fracpart signvalue mn mx flags s =
     (let iconvert = fp_convert intpart;
          fconvert = fp_convert fracpart;
          padlen0 = as_int (mn - int (length iconvert) - mx - 1 - (if signvalue = None then 0 else 1));
          zpadlen0 = mx - int (length fconvert);
          zpadlen = (if zpadlen0 < 0 then 0 else zpadlen0);
          padlen1 = (if padlen0 < 0 then 0 else padlen0);
          padlen2 = (if has flags DP_F_MINUS then - padlen1 else padlen1);
          (s1, signvalue, padlen) =
            (if has flags DP_F_ZERO \<and> padlen2 > 0 then
               (case signvalue of
                  Some c \<Rightarrow> (put_n (nat (padlen2 - 1)) CHR ''0'' (dopr_outch c s), None, 0)
                | None \<Rightarrow> (put_n (nat padlen2) CHR ''0'' s, None, 0))
             else (s, signvalue, padlen2));
          s2 = put_n (nat padlen) CHR '' '' s1;
          s3 = (case signvalue of None \<Rightarrow> s2 | Some c \<Rightarrow> dopr_outch c s2);
          s4 = put_all iconvert s3;
          s5 = (if mx > 0 then put_all fconvert (dopr_outch CHR ''.'' s4) else s4);
          s6 = put_n (nat zpadlen) CHR ''0'' s5
      in put_n (nat (- padlen)) CHR '' '' s6)"

text \<open>The whole of it: a value whose integer part is no \<^verbatim>\<open>long\<close> has no result.\<close>

definition fmtfp :: "ldouble \<Rightarrow> int \<Rightarrow> int \<Rightarrow> u32 \<Rightarrow> outst \<Rightarrow> outst option" where
  "fmtfp fvalue mn mx0 flags s = do {
     let mx1 = (if mx0 < 0 then 6 else mx0);
     let ufvalue = abs_val fvalue;
     let signvalue = (if ld_less fvalue (ld_of_long 0) then Some CHR ''-''
       else if has flags DP_F_PLUS then Some CHR ''+''
       else if has flags DP_F_SPACE then Some CHR '' '' else None);
     intpart \<leftarrow> ld_to_long ufvalue;
     let mx = (if mx1 > 9 then 9 else mx1);
     fracpart \<leftarrow> xround (ld_mul (pow10 (nat mx)) (ld_sub ufvalue (ld_of_long intpart)));
     (intpart, fracpart) \<leftarrow>
       (if \<not> ld_less (ld_of_long fracpart) (pow10 (nat mx)) then do {
          i \<leftarrow> to_long (intpart + 1);
          f \<leftarrow> ld_to_long (ld_sub (ld_of_long fracpart) (pow10 (nat mx)));
          Some (i, f) }
        else Some (intpart, fracpart));
     Some (fp_print intpart fracpart signvalue mn mx flags s) }"

section \<open>The format interpreter\<close>

datatype dp_state = DP_S_DEFAULT | DP_S_FLAGS | DP_S_MIN | DP_S_DOT | DP_S_MAX | DP_S_MOD | DP_S_CONV | DP_S_DONE

text \<open>Arguments: an integer or a pointer, a string, a floating point number.\<close>

datatype arg = ArgInt u32 | ArgStr "string option" | ArgFp ldouble

record dopr_st =
  state :: dp_state
  ch :: char
  fmt :: string
  args :: "arg list"
  flags :: u32
  cflags :: nat
  dmin :: int
  dmax :: int
  out :: outst
  stores :: "(u32 \<times> nat \<times> int) list"

text \<open>\<^verbatim>\<open>ch = *format++\<close>\<close>

definition next_ch :: "dopr_st \<Rightarrow> dopr_st option" where
  "next_ch d = (case fmt d of [] \<Rightarrow> None | c # cs \<Rightarrow> Some (d\<lparr>ch := c, fmt := cs\<rparr>))"

definition va_int :: "dopr_st \<Rightarrow> (u32 \<times> dopr_st) option" where
  "va_int d = (case args d of ArgInt v # as \<Rightarrow> Some (v, d\<lparr>args := as\<rparr>) | _ \<Rightarrow> None)"

definition va_str :: "dopr_st \<Rightarrow> (string option \<times> dopr_st) option" where
  "va_str d = (case args d of ArgStr v # as \<Rightarrow> Some (v, d\<lparr>args := as\<rparr>) | _ \<Rightarrow> None)"

definition va_fp :: "dopr_st \<Rightarrow> (ldouble \<times> dopr_st) option" where
  "va_fp d = (case args d of ArgFp v # as \<Rightarrow> Some (v, d\<lparr>args := as\<rparr>) | _ \<Rightarrow> None)"

definition isdigit_char :: "char \<Rightarrow> bool" where
  "isdigit_char c \<longleftrightarrow> c \<in> set ''0123456789''"

definition char_to_int :: "char \<Rightarrow> int" where
  "char_to_int c = int (of_char c) - 48"

text \<open>The inner \<^verbatim>\<open>switch\<close> of \<^verbatim>\<open>DP_S_CONV\<close>: one conversion.\<close>

definition dopr_int :: "u32 \<Rightarrow> u32 \<Rightarrow> dopr_st \<Rightarrow> dopr_st option" where
  "dopr_int b fl d = do {
     (value, d1) \<leftarrow> va_int d;
     Some (d1\<lparr>flags := flags d1 OR fl, out := fmtint value b (dmin d1) (dmax d1) (flags d1 OR fl) (out d1)\<rparr>) }"

definition dopr_conv :: "int \<Rightarrow> dopr_st \<Rightarrow> dopr_st option" where
  "dopr_conv maxlen d =
     (if ch d \<in> {CHR ''d'', CHR ''i''} then dopr_int 10 0 d
      else if ch d = CHR ''o'' then dopr_int 8 DP_F_UNSIGNED d
      else if ch d = CHR ''u'' then dopr_int 10 DP_F_UNSIGNED d
      else if ch d = CHR ''X'' then dopr_int 16 (DP_F_UP OR DP_F_UNSIGNED) d
      else if ch d = CHR ''x'' then dopr_int 16 DP_F_UNSIGNED d
      else if ch d = CHR ''f'' then do {
        (v, d1) \<leftarrow> va_fp d; o1 \<leftarrow> fmtfp v (dmin d1) (dmax d1) (flags d1) (out d1); Some (d1\<lparr>out := o1\<rparr>) }
      else if ch d \<in> {CHR ''E'', CHR ''e'', CHR ''G'', CHR ''g''} then do { (v, d1) \<leftarrow> va_fp d; Some d1 }
      else if ch d = CHR ''c'' then do {
        (v, d1) \<leftarrow> va_int d; Some (d1\<lparr>out := dopr_outch (char_of (unat v)) (out d1)\<rparr>) }
      else if ch d = CHR ''s'' then do {
        (v, d1) \<leftarrow> va_str d;
        let mx = (if dmax d1 < 0 then maxlen else dmax d1);
        Some (d1\<lparr>out := fmtstr v (flags d1) (dmin d1) mx (out d1)\<rparr>) }
      else if ch d = CHR ''p'' then dopr_int 16 0 d
      else if ch d = CHR ''n'' then do {
        (p, d1) \<leftarrow> va_int d; Some (d1\<lparr>stores := stores d1 @ [(p, cflags d1, currlen (out d1))]\<rparr>) }
      else if ch d = CHR ''%'' then Some (d\<lparr>out := dopr_outch (ch d) (out d)\<rparr>)
      else if ch d = CHR ''w'' then next_ch d
      else Some d)"

text \<open>The body of the outer loop after the test for the end.\<close>

definition dopr_step :: "int \<Rightarrow> dopr_st \<Rightarrow> dopr_st option" where
  "dopr_step maxlen d =
     (case state d of
        DP_S_DEFAULT \<Rightarrow>
          if ch d = CHR ''%'' then next_ch (d\<lparr>state := DP_S_FLAGS\<rparr>)
          else next_ch (d\<lparr>out := dopr_outch (ch d) (out d)\<rparr>)
      | DP_S_FLAGS \<Rightarrow>
          if ch d = CHR ''-'' then next_ch (d\<lparr>flags := flags d OR DP_F_MINUS\<rparr>)
          else if ch d = CHR ''+'' then next_ch (d\<lparr>flags := flags d OR DP_F_PLUS\<rparr>)
          else if ch d = CHR '' '' then next_ch (d\<lparr>flags := flags d OR DP_F_SPACE\<rparr>)
          else if ch d = CHR ''#'' then next_ch (d\<lparr>flags := flags d OR DP_F_NUM\<rparr>)
          else if ch d = CHR ''0'' then next_ch (d\<lparr>flags := flags d OR DP_F_ZERO\<rparr>)
          else Some (d\<lparr>state := DP_S_MIN\<rparr>)
      | DP_S_MIN \<Rightarrow>
          if isdigit_char (ch d) then next_ch (d\<lparr>dmin := as_int (10 * dmin d + char_to_int (ch d))\<rparr>)
          else if ch d = CHR ''*'' then do {
            (v, d1) \<leftarrow> va_int d; next_ch (d1\<lparr>dmin := sint v, state := DP_S_DOT\<rparr>) }
          else Some (d\<lparr>state := DP_S_DOT\<rparr>)
      | DP_S_DOT \<Rightarrow>
          if ch d = CHR ''.'' then next_ch (d\<lparr>state := DP_S_MAX\<rparr>)
          else Some (d\<lparr>state := DP_S_MOD\<rparr>)
      | DP_S_MAX \<Rightarrow>
          if isdigit_char (ch d) then
            next_ch (d\<lparr>dmax := as_int (10 * (if dmax d < 0 then 0 else dmax d) + char_to_int (ch d))\<rparr>)
          else if ch d = CHR ''*'' then do {
            (v, d1) \<leftarrow> va_int d; next_ch (d1\<lparr>dmax := sint v, state := DP_S_MOD\<rparr>) }
          else Some (d\<lparr>state := DP_S_MOD\<rparr>)
      | DP_S_MOD \<Rightarrow> do {
          d1 \<leftarrow> (if ch d = CHR ''h'' then next_ch (d\<lparr>cflags := 1\<rparr>)
                else if ch d = CHR ''l'' then next_ch (d\<lparr>cflags := 2\<rparr>)
                else if ch d = CHR ''L'' then next_ch (d\<lparr>cflags := 3\<rparr>)
                else Some d);
          Some (d1\<lparr>state := DP_S_CONV\<rparr>) }
      | DP_S_CONV \<Rightarrow> do {
          d1 \<leftarrow> dopr_conv maxlen d;
          d2 \<leftarrow> next_ch d1;
          Some (d2\<lparr>state := DP_S_DEFAULT, flags := 0, cflags := 0, dmin := 0, dmax := - 1\<rparr>) }
      | DP_S_DONE \<Rightarrow> Some d)"

text \<open>Every round takes a character or comes closer to the conversion.\<close>

fun rank :: "dp_state \<Rightarrow> nat" where
  "rank DP_S_DEFAULT = 7" | "rank DP_S_FLAGS = 6" | "rank DP_S_MIN = 5" | "rank DP_S_DOT = 4"
| "rank DP_S_MAX = 3" | "rank DP_S_MOD = 2" | "rank DP_S_CONV = 1" | "rank DP_S_DONE = 0"

lemma next_ch_fmt: "next_ch d = Some d' \<Longrightarrow> length (fmt d) = Suc (length (fmt d'))"
  by (auto simp: next_ch_def split: list.splits)

lemma next_ch_state: "next_ch d = Some d' \<Longrightarrow> state d' = state d"
  by (auto simp: next_ch_def split: list.splits)

lemma rank_le: "rank s \<le> 7"
  by (cases s) auto

lemma dopr_conv_fmt: "dopr_conv m d = Some d' \<Longrightarrow> length (fmt d') \<le> length (fmt d)"
  by (auto simp: dopr_conv_def dopr_int_def va_int_def va_str_def va_fp_def next_ch_def Let_def
      split: if_splits list.splits arg.splits Option.bind_splits)

lemma dopr_step_measure:
  assumes "dopr_step m d = Some d'" "state d \<noteq> DP_S_DONE"
  shows "8 * length (fmt d') + rank (state d') < 8 * length (fmt d) + rank (state d)"
proof (cases "length (fmt d') < length (fmt d)")
  case True
  then show ?thesis using rank_le [of "state d'"] by simp
next
  case False
  have "length (fmt d') = length (fmt d) \<and> rank (state d') < rank (state d)"
    using assms False
    by (cases "state d") (auto simp: dopr_step_def va_int_def dest!: next_ch_fmt dopr_conv_fmt
      split: if_splits list.splits arg.splits Option.bind_splits)
  then show ?thesis by simp
qed

text \<open>The outer loop.\<close>

function dopr_loop :: "int \<Rightarrow> dopr_st \<Rightarrow> dopr_st option" where
  "dopr_loop maxlen d =
     (if state d = DP_S_DONE then Some d
      else if ch d = CHR 0x00 \<or> currlen (out d) \<ge> maxlen then Some (d\<lparr>state := DP_S_DONE\<rparr>)
      else (case dopr_step maxlen d of None \<Rightarrow> None | Some d' \<Rightarrow> dopr_loop maxlen d'))"
  by pat_completeness auto
termination
  by (relation "measure (\<lambda>(_, d). 8 * length (fmt d) + rank (state d))") (auto dest: dopr_step_measure)

declare dopr_loop.simps [simp del]

definition dopr :: "string \<Rightarrow> int \<Rightarrow> string \<Rightarrow> arg list \<Rightarrow> dopr_st option" where
  "dopr buf maxlen format as = do {
     d \<leftarrow> next_ch \<lparr>state = DP_S_DEFAULT, ch = CHR 0x00, fmt = format @ [CHR 0x00], args = as, flags = 0, cflags = 0,
        dmin = 0, dmax = - 1, out = \<lparr>buffer = buf, currlen = 0\<rparr>, stores = []\<rparr>;
     dopr_loop maxlen d }"

definition vsnprintf :: "string \<Rightarrow> int \<Rightarrow> string \<Rightarrow> arg list \<Rightarrow> string option" where
  "vsnprintf buf maxlen format as = map_option (\<lambda>d. buffer (out d)) (dopr buf maxlen format as)"

text \<open>The user's \<^verbatim>\<open>vprintf\<close> and \<^verbatim>\<open>printf\<close> write to the terminal and always give 1.\<close>

definition vprintf :: "string \<Rightarrow> string \<Rightarrow> arg list \<Rightarrow> (int \<times> string) option" where
  "vprintf buf format as = map_option (\<lambda>d. (1, buffer (out d))) (dopr buf 1000 format as)"

section \<open>What the helpers print\<close>

lemma put_n_eq: "put_n n c s = s\<lparr>buffer := buffer s @ replicate n c, currlen := currlen s + int n\<rparr>"
  by (induction n arbitrary: s) (auto simp: dopr_outch_def replicate_app_Cons_same)

lemma put_all_eq: "put_all cs s = s\<lparr>buffer := buffer s @ cs, currlen := currlen s + int (length cs)\<rparr>"
  by (induction cs arbitrary: s) (auto simp: dopr_outch_def)

text \<open>The value a string of digits denotes.\<close>

definition digit_val :: "char \<Rightarrow> nat" where
  "digit_val c = (if c \<in> set ''0123456789'' then of_char c - 48
     else if c \<in> set ''abcdef'' then of_char c - 87 else of_char c - 55)"

definition num_of :: "nat \<Rightarrow> string \<Rightarrow> nat" where
  "num_of b ds = foldl (\<lambda>n c. n * b + digit_val c) 0 ds"

text \<open>The digits of a number as one would define them.\<close>

function digits :: "bool \<Rightarrow> nat \<Rightarrow> nat \<Rightarrow> string" where
  "digits caps b n = (if n < b \<or> b < 2 then [digit_char caps n] else digits caps b (n div b) @ [digit_char caps (n mod b)])"
  by pat_completeness auto
termination by (relation "measure (\<lambda>(_, _, n). n)") auto

declare digits.simps [simp del]

lemma all_digits: "d < 16 \<Longrightarrow> P d" if "P 0" "P 1" "P 2" "P 3" "P 4" "P 5" "P 6" "P 7" "P 8" "P 9" "P 10" "P 11" "P 12" "P 13"
    "P 14" "P 15" for P :: "nat \<Rightarrow> bool"
proof -
  assume "d < 16"
  then have "d = 0 \<or> d = 1 \<or> d = 2 \<or> d = 3 \<or> d = 4 \<or> d = 5 \<or> d = 6 \<or> d = 7 \<or> d = 8 \<or> d = 9 \<or> d = 10 \<or>
      d = 11 \<or> d = 12 \<or> d = 13 \<or> d = 14 \<or> d = 15" by presburger
  then show ?thesis using that by blast
qed

lemma digit_val_char: "d < 16 \<Longrightarrow> digit_val (digit_char caps d) = d"
  by (cases caps; erule all_digits [rotated -1]) (simp_all add: digit_val_def digit_char_def)

lemma num_of_snoc: "num_of b (ds @ [c]) = num_of b ds * b + digit_val c"
  by (simp add: num_of_def)

lemma num_of_digits: "2 \<le> b \<Longrightarrow> b \<le> 16 \<Longrightarrow> num_of b (digits caps b n) = n"
proof (induction n rule: less_induct)
  case (less n)
  show ?case
  proof (cases "n < b")
    case True
    then show ?thesis using less.prems by (subst digits.simps) (simp add: num_of_def digit_val_char)
  next
    case False
    then have "n div b < n" using less.prems by simp
    then have "num_of b (digits caps b (n div b)) = n div b" by (rule less.IH [OF _ less.prems])
    moreover have "n mod b < b" using less.prems by simp
    then have "n mod b < 16" using less.prems by linarith
    ultimately show ?thesis
      using False less.prems by (subst digits.simps) (simp add: num_of_snoc digit_val_char)
  qed
qed

lemma digits_nonempty: "digits caps b n \<noteq> []"
  by (subst digits.simps) simp

lemma digits_no_leading_zero: "2 \<le> b \<Longrightarrow> b \<le> 16 \<Longrightarrow> hd (digits caps b n) = CHR ''0'' \<Longrightarrow> n = 0"
proof (induction n rule: less_induct)
  case (less n)
  have z: "digit_char caps d = CHR ''0'' \<Longrightarrow> d = 0" if "d < 16" for d
    using digit_val_char [OF that, of caps] by (simp add: digit_val_def)
  show ?case
  proof (cases "n < b")
    case True
    then have "digits caps b n = [digit_char caps n]" by (subst digits.simps) simp
    then show ?thesis using z [of n] True less.prems by simp
  next
    case False
    then have d: "digits caps b n = digits caps b (n div b) @ [digit_char caps (n mod b)]"
      using less.prems by (subst digits.simps) simp
    have "hd (digits caps b (n div b)) = CHR ''0''" using less.prems(3) by (simp add: d digits_nonempty)
    then have "n div b = 0" using less.IH [of "n div b"] less.prems False by simp
    then show ?thesis using False less.prems by (simp add: div_eq_0_iff)
  qed
qed

text \<open>Twenty places are enough for a 32-bit number in base 8 and above.\<close>

lemma conv_loop_digits:
  "2 \<le> unat b \<Longrightarrow> unat u < unat b ^ (20 - place) \<Longrightarrow> place < 20 \<Longrightarrow>
     conv_loop caps b u place conv = digits caps (unat b) (unat u) @ conv"
proof (induction caps b u place conv rule: conv_loop.induct)
  case (1 caps b u place conv)
  have ud: "unat (u div b) = unat u div unat b" and um: "unat (u mod b) = unat u mod unat b"
    by (simp_all add: unat_div unat_mod)
  show ?case
  proof (cases "unat u < unat b")
    case True
    then have "u div b = 0" using ud by (simp add: unat_eq_zero)
    then show ?thesis using True um by (subst conv_loop.simps, subst digits.simps) (simp add: Let_def)
  next
    case False
    then have "unat (u div b) \<noteq> 0" unfolding ud using 1(2) by (simp add: div_eq_0_iff)
    then have nz: "u div b \<noteq> 0" by (metis unsigned_0)
    have pl: "place + 1 < 20"
    proof (rule ccontr)
      assume "\<not> place + 1 < 20"
      then have "20 - place = 1" using 1(4) by simp
      then show False using 1(3) False by simp
    qed
    then have "20 - place = Suc (20 - (place + 1))" by simp
    then have "unat u < unat b * unat b ^ (20 - (place + 1))" using 1(3) by simp
    then have bound: "unat (u div b) < unat b ^ (20 - (place + 1))"
      using ud 1(2) by (simp add: div_less_iff_less_mult mult.commute)
    have "conv_loop caps b u place conv =
        conv_loop caps b (u div b) (place + 1) (digit_char caps (unat (u mod b)) # conv)"
      using nz pl by (subst conv_loop.simps) (simp add: Let_def)
    also have "\<dots> = digits caps (unat b) (unat (u div b)) @ digit_char caps (unat (u mod b)) # conv"
      using 1(1) [OF refl refl refl] nz pl 1(2) bound by simp
    also have "\<dots> = digits caps (unat b) (unat u) @ conv"
      using False 1(2) ud um by (subst (2) digits.simps) simp
    finally show ?thesis .
  qed
qed

lemma conv_loop_start:
  assumes "b \<in> {8, 10, 16}"
  shows "conv_loop caps b u 0 [] = digits caps (unat b) (unat u)"
proof -
  have b: "8 \<le> unat b" using assms by auto
  have "unat u < 2 ^ 32" using unsigned_less [of u] by simp
  also have "(2::nat) ^ 32 \<le> 8 ^ 20" by simp
  also have "(8::nat) ^ 20 \<le> unat b ^ 20" using b by (rule power_mono) simp
  finally show ?thesis using b conv_loop_digits [of b u 0 caps "[]"] by simp
qed

lemma digits_length:
  assumes "2 \<le> b" "n < b ^ k" "0 < k"
  shows "length (digits caps b n) \<le> k"
  using assms
proof (induction k arbitrary: n)
  case (Suc k)
  show ?case
  proof (cases "n < b")
    case True
    then show ?thesis by (subst digits.simps) simp
  next
    case False
    then have k: "0 < k" using Suc.prems by (cases k) auto
    have "n div b < b ^ k" using Suc.prems by (simp add: div_less_iff_less_mult mult.commute)
    then have "length (digits caps b (n div b)) \<le> k" using Suc.IH Suc.prems(1) k by blast
    then show ?thesis using False Suc.prems(1) by (subst digits.simps) simp
  qed
qed simp

lemma digits_fit:
  assumes "b \<in> {8, 10, 16 :: u32}"
  shows "length (digits caps (unat b) (unat (u :: u32))) \<le> 11"
proof (rule digits_length)
  have b: "8 \<le> unat b" using assms by auto
  show "2 \<le> unat b" using b by simp
  have "unat u < 2 ^ 32" using unsigned_less [of u] by simp
  also have "(2::nat) ^ 32 \<le> 8 ^ 11" by simp
  also have "(8::nat) ^ 11 \<le> unat b ^ 11" using b by (rule power_mono) simp
  finally show "unat u < unat b ^ 11" .
qed simp

text \<open>The sign and the magnitude of a value under the flags.\<close>

definition sign_of :: "u32 \<Rightarrow> u32 \<Rightarrow> string" where
  "sign_of fl v = (if has fl DP_F_UNSIGNED then [] else if sint v < 0 then ''-''
     else if has fl DP_F_PLUS then ''+'' else if has fl DP_F_SPACE then '' '' else [])"

definition value_of :: "u32 \<Rightarrow> u32 \<Rightarrow> int" where
  "value_of fl v = (if has fl DP_F_UNSIGNED then uint v else sint v)"

lemma uint_neg_of_sint: "sint (v :: u32) < 0 \<Longrightarrow> uint (- v) = - sint v"
proof -
  assume neg: "sint v < 0"
  have lo: "- (2 ^ 31) \<le> sint v" using sint_greater_eq [of v] by simp
  have "uint (- v) = - uint v mod 2 ^ 32" by (simp add: uint_word_ariths)
  also have "\<dots> = - (sint v mod 2 ^ 32) mod 2 ^ 32" by (simp add: uint_sint take_bit_eq_mod)
  also have "\<dots> = - sint v mod 2 ^ 32" by (rule mod_minus_eq)
  also have "\<dots> = - sint v" using neg lo by (intro mod_pos_pos_trivial) simp_all
  finally show ?thesis .
qed

lemma uint_of_sint: "\<not> sint (v :: u32) < 0 \<Longrightarrow> uint v = sint v"
proof -
  assume pos: "\<not> sint v < 0"
  have hi: "sint v < 2 ^ 31" using sint_less [of v] by simp
  have "uint v = sint v mod 2 ^ 32" by (simp add: uint_sint take_bit_eq_mod)
  also have "\<dots> = sint v" using pos hi by (intro mod_pos_pos_trivial) simp_all
  finally show ?thesis .
qed

text \<open>What an integer conversion prints.\<close>

definition int_text :: "u32 \<Rightarrow> nat \<Rightarrow> int \<Rightarrow> int \<Rightarrow> u32 \<Rightarrow> string" where
  "int_text fl b mn mx v =
     (let ds = digits (has fl DP_F_UP) b (nat \<bar>value_of fl v\<bar>);
          sg = sign_of fl v;
          z = nat (mx - int (length ds));
          w = nat (mn - int (length sg) - max mx (int (length ds)));
          zeros = (if has fl DP_F_ZERO then max z w else z);
          spaces = (if has fl DP_F_ZERO then 0 else w)
      in replicate (if has fl DP_F_MINUS then 0 else spaces) CHR '' '' @ sg @ replicate zeros CHR ''0'' @ ds @
         replicate (if has fl DP_F_MINUS then spaces else 0) CHR '' '')"

lemma fmtint_prints:
  assumes "b \<in> {8, 10, 16}" and mn: "0 \<le> mn" "mn < 2 ^ 31" and mx: "mx < 2 ^ 31"
  shows "fmtint v b mn mx fl s = put_all (int_text fl (unat b) mn mx v) s"
proof -
  define u where "u = (if \<not> has fl DP_F_UNSIGNED \<and> sint v < 0 then - v else v)"
  define ds where "ds = digits (has fl DP_F_UP) (unat b) (nat \<bar>value_of fl v\<bar>)"
  have uu: "unat u = nat \<bar>value_of fl v\<bar>"
  proof -
    have "uint u = \<bar>value_of fl v\<bar>"
      using uint_neg_of_sint [of v] uint_of_sint [of v] by (simp add: u_def value_of_def)
    then show ?thesis by (metis unat_eq_nat_uint)
  qed
  have conv: "conv_loop c b u 0 [] = digits c (unat b) (unat u)" for c using assms(1) by (rule conv_loop_start)
  have len: "length (digits c (unat b) (unat u)) \<le> 11" for c using assms(1) by (rule digits_fit)
  have c: "conv_loop (has fl DP_F_UP) b u 0 [] = ds" "length ds \<noteq> 20" "length ds \<noteq> 0"
    using conv len [of "has fl DP_F_UP"] by (auto simp: ds_def uu digits_nonempty)
  define sg where "sg = (case sign_of fl v of [] \<Rightarrow> None | c # _ \<Rightarrow> Some c)"
  have pair: "(if \<not> has fl DP_F_UNSIGNED then
               if sint v < 0 then (Some CHR ''-'', - v)
               else if has fl DP_F_PLUS then (Some CHR ''+'', v)
               else if has fl DP_F_SPACE then (Some CHR '' '', v)
               else (None, v)
             else (None, v)) = (sg, u)"
    by (simp add: sg_def u_def sign_of_def)
  have sg: "sign_of fl v = (case sg of None \<Rightarrow> [] | Some c \<Rightarrow> [c])"
    by (simp add: sg_def sign_of_def)
  have signlen: "int (length (sign_of fl v)) = (if sg = None then 0 else 1)" by (simp add: sg split: option.split)
  have "length ds \<le> 11" using len [of "has fl DP_F_UP"] by (simp add: ds_def uu)
  then have pad: "as_int (mn - max mx (int (length ds)) - (if sg = None then 0 else 1)) =
      mn - max mx (int (length ds)) - (if sg = None then 0 else 1)"
    using mn mx by (intro as_int_id) (auto simp: max_def)
  have mx: "max (if mx < 0 then 0 else mx) (int (length ds)) = max mx (int (length ds))" by (simp add: max_def)
  have z: "(if (if mx < 0 then 0 else mx) - int (length ds) < 0 then 0 else (if mx < 0 then 0 else mx) - int (length ds)) =
      int (nat (mx - int (length ds)))" by simp
  have w: "(if x < 0 then 0 else x) = int (nat x)" for x :: int by simp
  have put: "(case sg of None \<Rightarrow> t | Some c \<Rightarrow> dopr_outch c t) = put_all (sign_of fl v) t" for t
    by (simp add: sg split: option.split)
  show ?thesis
    unfolding fmtint_def int_text_def ds_def [symmetric] pair prod.case Let_def c(1) if_not_P [OF c(2)] mx pad z put
    by (cases "has fl DP_F_ZERO"; cases "has fl DP_F_MINUS")
      (simp_all add: put_n_eq put_all_eq signlen w diff_diff_eq add.commute of_nat_max)
qed

text \<open>What a string conversion prints: the padded string, cut at the precision.\<close>

definition str_text :: "u32 \<Rightarrow> int \<Rightarrow> int \<Rightarrow> string option \<Rightarrow> string" where
  "str_text fl mn mx v =
     (let value = (case v of None \<Rightarrow> ''<NULL>'' | Some x \<Rightarrow> x);
          pad = replicate (nat (mn - int (length value))) CHR '' ''
      in take (nat mx) (if has fl DP_F_MINUS then value @ pad else pad @ value))"

fun arg_length :: "string option \<Rightarrow> int" where
  "arg_length None = 6" | "arg_length (Some x) = int (length x)"

lemma fmtstr_prints:
  assumes "0 \<le> mn" "mn < 2 ^ 31" "arg_length v < 2 ^ 31"
  shows "fmtstr v fl mn mx s = put_all (str_text fl mn mx v) s"
proof -
  define x where "x = (case v of None \<Rightarrow> ''<NULL>'' | Some x \<Rightarrow> x)"
  have "int (length x) < 2 ^ 31" using assms(3) by (cases v) (simp_all add: x_def)
  then have pad: "as_int (mn - int (length x)) = mn - int (length x)" using assms(1,2) by (intro as_int_id) auto
  have w: "(if y < 0 then 0 else y) = int (nat y)" for y :: int by simp
  have m: "a - min a b = a - b" for a b :: nat by simp
  show ?thesis
    unfolding fmtstr_def str_text_def x_def [symmetric] Let_def pad w
    by (cases "has fl DP_F_MINUS") (simp_all add: put_n_eq put_all_eq take_replicate min.commute m add.assoc)
qed

text \<open>
  What a floating-point conversion prints.  The number that is printed is an integer, the value times
  the power of ten of the precision, rounded; the fraction is cut off its decimal digits.
\<close>

definition fp_prec :: "int \<Rightarrow> nat" where
  "fp_prec mx = (if mx < 0 then 6 else nat (min mx 9))"

lemma fp_prec_le: "fp_prec mx \<le> 9"
  by (auto simp: fp_prec_def min_def)

definition fp_number :: "nat \<Rightarrow> ldouble \<Rightarrow> nat" where
  "fp_number p v = nat (\<lfloor>\<bar>ld_val v\<bar>\<rfloor> * 10 ^ p +
     \<lfloor>ld_val (ld_mul (ld_of_long (10 ^ p)) (ld_sub (abs_val v) (ld_of_long \<lfloor>\<bar>ld_val v\<bar>\<rfloor>))) + 1 / 2\<rfloor>)"

definition fp_fraction :: "nat \<Rightarrow> nat \<Rightarrow> string" where
  "fp_fraction p n = (let ds = digits False 10 n in if p = 0 then [] else ds @ replicate (p - length ds) CHR ''0'')"

definition fp_sign :: "u32 \<Rightarrow> ldouble \<Rightarrow> string" where
  "fp_sign fl v = (if ld_val v < 0 then ''-'' else if has fl DP_F_PLUS then ''+'' else if has fl DP_F_SPACE then '' '' else [])"

text \<open>The text with \<open>w\<close> characters of padding, and the number of characters without it.\<close>

definition fp_padded :: "u32 \<Rightarrow> nat \<Rightarrow> int \<Rightarrow> ldouble \<Rightarrow> string" where
  "fp_padded fl w mx v =
     (let p = fp_prec mx; n = fp_number p v;
          ds = digits False 10 (n div 10 ^ p);
          sg = fp_sign fl v;
          zs = (if has fl DP_F_ZERO \<and> \<not> has fl DP_F_MINUS \<and> 0 < w then w - length sg else 0);
          l = (if has fl DP_F_ZERO \<or> has fl DP_F_MINUS then 0 else w);
          t = (if has fl DP_F_MINUS then w else 0)
      in replicate l CHR '' '' @ sg @ replicate zs CHR ''0'' @ ds @
         (if p = 0 then [] else CHR ''.'' # fp_fraction p (n mod 10 ^ p)) @ replicate t CHR '' '')"

definition fp_needs :: "u32 \<Rightarrow> int \<Rightarrow> ldouble \<Rightarrow> int" where
  "fp_needs fl mx v = (let p = fp_prec mx in
     int (length (digits False 10 (fp_number p v div 10 ^ p))) + int p + 1 + int (length (fp_sign fl v)))"

definition fp_text :: "u32 \<Rightarrow> int \<Rightarrow> int \<Rightarrow> ldouble \<Rightarrow> string" where
  "fp_text fl mn mx v = fp_padded fl (nat (mn - fp_needs fl mx v)) mx v"

definition fp_ok :: "ldouble \<Rightarrow> bool" where
  "fp_ok v \<longleftrightarrow> ld_ok v \<and> \<bar>ld_val v\<bar> < 2 ^ 31 - 1"

text \<open>The two parts the code computes are those of the number.\<close>

lemma nearest_near: "\<bar>y - x\<bar> \<le> d \<Longrightarrow> \<bar>of_int \<lfloor>y + 1 / 2\<rfloor> - x\<bar> \<le> 1 / 2 + (d :: rat)"
  using floor_correct [of "y + 1 / 2"] by linarith

lemma fp_parts:
  assumes v: "fp_ok v" and p: "p \<le> 9"
  obtains i f where "ld_to_long (abs_val v) = Some i" "i = \<lfloor>\<bar>ld_val v\<bar>\<rfloor>" "i < 2 ^ 31 - 1" "0 \<le> i"
    "xround (ld_mul (pow10 p) (ld_sub (abs_val v) (ld_of_long i))) = Some f" "0 \<le> f" "f \<le> 10 ^ p"
    "int (fp_number p v) = i * 10 ^ p + f" "\<bar>rat_of_nat (fp_number p v) - \<bar>ld_val v\<bar> * 10 ^ p\<bar> \<le> 1 / 2 + 1 / 2 ^ 34"
proof -
  let ?u = "abs_val v" and ?i = "\<lfloor>\<bar>ld_val v\<bar>\<rfloor>"
  have u: "ld_ok ?u" "0 \<le> mant ?u" "ld_val ?u = \<bar>ld_val v\<bar>" using v by (simp_all add: fp_ok_def ld_abs_val)
  have i: "0 \<le> ?i" "?i < 2 ^ 31 - 1" using v by (simp_all add: fp_ok_def floor_less_iff)
  have lng: "ld_to_long ?u = Some ?i" using i by (simp add: ld_to_long_def to_long_def ld_trunc_val [OF u(2)] u(3))
  define x where "x = ld_sub ?u (ld_of_long ?i)"
  have x: "ld_val x = frac \<bar>ld_val v\<bar>" "ld_ok x" "0 \<le> mant x"
    using ld_fraction [OF u(1,2), of ?i] by (simp_all add: x_def u(3))
  have pw: "pow10 p = ld_of_long (10 ^ p)" using p by (intro pow10_long) simp
  define y where "y = ld_mul (ld_of_long (10 ^ p)) x"
  have y: "ld_ok y" "0 \<le> mant y" using x(3) by (simp_all add: y_def ld_mul_def ld_round_ok ld_of_long_def)
  have t: "(10 :: rat) ^ p \<le> 10 ^ 9" using p by (intro power_increasing) simp_all
  have fr: "0 \<le> frac \<bar>ld_val v\<bar>" "frac \<bar>ld_val v\<bar> < 1" by (simp_all add: frac_lt_1)
  have e: "10 ^ p * frac \<bar>ld_val v\<bar> < 10 ^ p" "0 \<le> 10 ^ p * frac \<bar>ld_val v\<bar>" using fr by simp_all
  have near: "\<bar>ld_val y - 10 ^ p * frac \<bar>ld_val v\<bar>\<bar> \<le> 1 / 2 ^ 34"
  proof -
    have "\<bar>ld_val y - 10 ^ p * frac \<bar>ld_val v\<bar>\<bar> \<le> \<bar>10 ^ p * frac \<bar>ld_val v\<bar>\<bar> / 2 ^ 64"
      using ld_mul_near [of "ld_of_long (10 ^ p)" x] by (simp add: y_def x(1))
    also have "\<dots> \<le> 10 ^ 9 / 2 ^ 64" using e t by (intro divide_right_mono) (linarith, simp)
    also have "\<dots> \<le> 1 / 2 ^ 34" by simp
    finally show ?thesis .
  qed
  have up: "ld_val y < 10 ^ p + 1 / 2"
  proof -
    have "ld_val y - 10 ^ p * frac \<bar>ld_val v\<bar> \<le> 1 / 2 ^ 34" using near by (rule abs_le_D1)
    also have "\<dots> \<le> 1 / 2" by simp
    finally show ?thesis using e(1) by linarith
  qed
  then have "ld_val y < 2 ^ 31 - 1" using t by simp
  then have r: "xround y = Some \<lfloor>ld_val y + 1 / 2\<rfloor>" by (rule xround_val [OF y])
  let ?f = "\<lfloor>ld_val y + 1 / 2\<rfloor>"
  have y0: "0 \<le> ld_val y" using y(2) by (simp add: ld_nonneg)
  then have f0: "0 \<le> ?f" by simp
  have "ld_val y + 1 / 2 < of_int (10 ^ p + 1)" using up by simp
  then have f1: "?f \<le> 10 ^ p" by (simp add: floor_less_iff [symmetric] zless_add1_eq [symmetric] del: of_int_add)
  have num: "int (fp_number p v) = ?i * 10 ^ p + ?f" using i(1) f0 by (simp add: fp_number_def y_def [symmetric] x_def [symmetric])
  then have "rat_of_int (int (fp_number p v)) = rat_of_int (?i * 10 ^ p + ?f)" by (rule arg_cong)
  then have "rat_of_nat (fp_number p v) - \<bar>ld_val v\<bar> * 10 ^ p = of_int ?f - 10 ^ p * frac \<bar>ld_val v\<bar>"
    by (simp add: frac_def algebra_simps)
  then have "\<bar>rat_of_nat (fp_number p v) - \<bar>ld_val v\<bar> * 10 ^ p\<bar> \<le> 1 / 2 + 1 / 2 ^ 34"
    by (simp only: nearest_near [OF near])
  with lng i r f0 f1 num show thesis by (intro that [of ?i ?f]) (simp_all add: pw y_def x_def)
qed

lemma fp_convert_digits: "0 \<le> n \<Longrightarrow> n < 2 ^ 32 \<Longrightarrow> fp_convert n = digits False 10 (nat n)"
proof -
  assume n: "0 \<le> n" "n < 2 ^ 32"
  have ten: "(10 :: u32) \<in> {8, 10, 16}" by simp
  have u: "unat (of_int n :: u32) = nat n" using n by (simp add: unat_eq_nat_uint uint_word_of_int)
  show ?thesis
    using conv_loop_start [OF ten, of False "of_int n"] digits_fit [OF ten, of False "of_int n"]
    by (simp add: fp_convert_def Let_def u)
qed

lemma fp_print_text:
  assumes "0 \<le> i" "i < 2 ^ 32" "0 \<le> f" "f < 2 ^ 32" and sg: "sg = (case sv of None \<Rightarrow> [] | Some c \<Rightarrow> [c])"
  shows "fp_print i f sv mn (int p) fl s = put_all
     (let ds = digits False 10 (nat i);
          w = nat (as_int (mn - (int (length ds) + int p + 1 + int (length sg))));
          zs = (if has fl DP_F_ZERO \<and> \<not> has fl DP_F_MINUS \<and> 0 < w then w - length sg else 0);
          l = (if has fl DP_F_ZERO \<or> has fl DP_F_MINUS then 0 else w);
          t = (if has fl DP_F_MINUS then w else 0)
      in replicate l CHR '' '' @ sg @ replicate zs CHR ''0'' @ ds @
         (if p = 0 then [] else CHR ''.'' # fp_fraction p (nat f)) @ replicate t CHR '' '') s"
proof -
  let ?ds = "digits False 10 (nat i)" and ?fs = "digits False 10 (nat f)"
  have c: "fp_convert i = ?ds" "fp_convert f = ?fs" using assms(1-4) by (simp_all add: fp_convert_digits)
  have sl: "int (length sg) = (if sv = None then 0 else 1)" by (simp add: sg split: option.split)
  define w where "w = nat (as_int (mn - (int (length ?ds) + int p + 1 + int (length sg))))"
  have "as_int (mn - int (length ?ds) - int p - 1 - (if sv = None then 0 else 1)) =
      as_int (mn - (int (length ?ds) + int p + 1 + int (length sg)))" by (simp add: sl algebra_simps)
  then have pad: "(if as_int (mn - int (length ?ds) - int p - 1 - (if sv = None then 0 else 1)) < 0 then 0
      else as_int (mn - int (length ?ds) - int p - 1 - (if sv = None then 0 else 1))) = int w" by (simp only: w_def) simp
  have z: "nat (if int p - int (length ?fs) < 0 then 0 else int p - int (length ?fs)) = p - length ?fs" by auto
  have fs: "0 < length ?fs" by (simp add: digits_nonempty)
  then have pz: "p = 0 \<Longrightarrow> p - length ?fs = 0" by simp
  have w1: "nat (int w - 1) = w - 1" by simp
  show ?thesis
    unfolding fp_print_def c Let_def pad z w_def [symmetric] fp_fraction_def
    by (cases "has fl DP_F_MINUS"; cases "has fl DP_F_ZERO"; cases "w = 0"; cases sv; cases "p = 0")
      (simp_all add: sg put_n_eq put_all_eq dopr_outch_def w1 of_nat_diff)
qed

lemma fmtfp_prints:
  assumes "fp_ok v"
  shows "fmtfp v mn mx fl s = Some (put_all (fp_padded fl (nat (as_int (mn - fp_needs fl mx v))) mx v) s)"
proof -
  define p where "p = fp_prec mx"
  have p9: "p \<le> 9" unfolding p_def by (rule fp_prec_le)
  have mx: "(if (if mx < 0 then 6 else mx) > 9 then 9 else if mx < 0 then 6 else mx) = int p" by (simp add: p_def fp_prec_def)
  obtain i f where l: "ld_to_long (abs_val v) = Some i" and i: "i < 2 ^ 31 - 1" "0 \<le> i"
    and x: "xround (ld_mul (pow10 p) (ld_sub (abs_val v) (ld_of_long i))) = Some f" and f: "0 \<le> f" "f \<le> 10 ^ p"
    and n: "int (fp_number p v) = i * 10 ^ p + f"
    by (rule fp_parts [OF assms p9])
  have t: "(10 :: int) ^ p \<le> 10 ^ 9" using p9 by (intro power_increasing) simp_all
  have pw: "pow10 p = ld_of_long (10 ^ p)" using p9 by (intro pow10_long) simp
  define sv where "sv = (if ld_less v (ld_of_long 0) then Some CHR ''-'' else if has fl DP_F_PLUS then Some CHR ''+''
       else if has fl DP_F_SPACE then Some CHR '' '' else None)"
  have sg: "fp_sign fl v = (case sv of None \<Rightarrow> [] | Some c \<Rightarrow> [c])" by (simp add: sv_def fp_sign_def ld_less_val)
  define j g where "j = (if f < 10 ^ p then i else i + 1)" and "g = (if f < 10 ^ p then f else 0)"
  have jg: "0 \<le> j" "j < 2 ^ 32" "0 \<le> g" "g < 2 ^ 32" "g < 10 ^ p" using i f t by (simp_all add: j_def g_def)
  have "int (fp_number p v) = j * 10 ^ p + g" using n f by (simp add: j_def g_def algebra_simps)
  then have dm: "int (fp_number p v) div 10 ^ p = j" "int (fp_number p v) mod 10 ^ p = g" using jg by simp_all
  have N: "nat j = fp_number p v div 10 ^ p" "nat g = fp_number p v mod 10 ^ p"
    unfolding dm [symmetric] by (simp_all add: nat_div_distrib nat_mod_distrib nat_power_eq)
  have zero: "ld_to_long (ld_sub (ld_of_long (10 ^ p)) (ld_of_long (10 ^ p))) = Some 0"
    by (simp add: ld_sub_def ld_align_def ld_round_exact ld_of_long_def ld_to_long_def ld_trunc_def to_long_def)
  have "fmtfp v mn mx fl s = Some (fp_print j g sv mn (int p) fl s)"
  proof (cases "f < 10 ^ p")
    case True
    then show ?thesis using l x unfolding fmtfp_def Let_def mx sv_def [symmetric] by (simp add: ld_less_val pw j_def g_def)
  next
    case False
    then have "f = 10 ^ p" using f by simp
    then show ?thesis using l x i zero unfolding fmtfp_def Let_def mx sv_def [symmetric]
      by (simp add: ld_less_val pw j_def g_def to_long_def)
  qed
  then show ?thesis
    unfolding fp_print_text [OF jg(1-4) sg] fp_padded_def fp_needs_def p_def [symmetric] N Let_def .
qed

lemma fmtfp_text:
  assumes v: "fp_ok v" and mn: "0 \<le> mn" "mn < 2 ^ 31"
  shows "fmtfp v mn mx fl s = Some (put_all (fp_text fl mn mx v) s)"
proof -
  define p where "p = fp_prec mx"
  obtain i f where i: "i < 2 ^ 31 - 1" "0 \<le> i" and f: "0 \<le> f" "f \<le> 10 ^ p" and n: "int (fp_number p v) = i * 10 ^ p + f"
    by (rule fp_parts [OF v, of p]) (simp add: p_def fp_prec_le)
  have "f div 10 ^ p \<le> 10 ^ p div 10 ^ p" using f(2) by (intro zdiv_mono1) simp_all
  then have "int (fp_number p v div 10 ^ p) < i + 2" by (simp add: zdiv_int n)
  then have "fp_number p v div 10 ^ p < 10 ^ 10" using i by simp
  then have "length (digits False 10 (fp_number p v div 10 ^ p)) \<le> 10" by (intro digits_length) simp_all
  moreover have "length (fp_sign fl v) \<le> 1" "p \<le> 9" by (simp_all add: fp_sign_def p_def fp_prec_le)
  ultimately have "0 \<le> fp_needs fl mx v" "fp_needs fl mx v \<le> 21" by (simp_all add: fp_needs_def Let_def p_def [symmetric])
  then have "as_int (mn - fp_needs fl mx v) = mn - fp_needs fl mx v" using mn by (intro as_int_id) simp_all
  then show ?thesis by (simp add: fmtfp_prints [OF v] fp_text_def)
qed

section \<open>What a format prints\<close>

text \<open>
  A format as its author reads it: literal characters and conversions with their flags, their
  width and their precision, each with its argument.
\<close>

datatype conversion = CInt char u32 | CStr "string option" | CChr u32 | CFp ldouble | CPct

datatype directive = Lit char | Conv string nat "nat option" conversion

fun conv_char :: "conversion \<Rightarrow> char" where
  "conv_char (CInt c v) = c" | "conv_char (CStr s) = CHR ''s''" | "conv_char (CChr v) = CHR ''c''"
| "conv_char (CFp v) = CHR ''f''" | "conv_char CPct = CHR ''%''"

fun conv_args :: "conversion \<Rightarrow> arg list" where
  "conv_args (CInt c v) = [ArgInt v]" | "conv_args (CStr s) = [ArgStr s]" | "conv_args (CChr v) = [ArgInt v]"
| "conv_args (CFp v) = [ArgFp v]" | "conv_args CPct = []"

definition int_convs :: "char set" where "int_convs = {CHR ''d'', CHR ''i'', CHR ''o'', CHR ''u'', CHR ''x'', CHR ''X'', CHR ''p''}"

definition conv_base :: "char \<Rightarrow> u32" where
  "conv_base c = (if c = CHR ''o'' then 8 else if c \<in> {CHR ''x'', CHR ''X'', CHR ''p''} then 16 else 10)"

definition conv_flags :: "char \<Rightarrow> u32" where
  "conv_flags c = (if c = CHR ''X'' then DP_F_UP OR DP_F_UNSIGNED
     else if c \<in> {CHR ''o'', CHR ''u'', CHR ''x''} then DP_F_UNSIGNED else 0)"

definition flag_bit :: "char \<Rightarrow> u32" where
  "flag_bit c = (if c = CHR ''-'' then DP_F_MINUS else if c = CHR ''+'' then DP_F_PLUS else if c = CHR '' '' then DP_F_SPACE
     else if c = CHR ''#'' then DP_F_NUM else DP_F_ZERO)"

definition flag_chars :: "char set" where "flag_chars = {CHR ''-'', CHR ''+'', CHR '' '', CHR ''#'', CHR ''0''}"

definition flag_bits :: "string \<Rightarrow> u32" where
  "flag_bits fl = foldl (\<lambda>f c. f OR flag_bit c) 0 fl"

fun conv_text :: "int \<Rightarrow> u32 \<Rightarrow> int \<Rightarrow> int \<Rightarrow> conversion \<Rightarrow> string" where
  "conv_text maxlen fl w p (CInt c v) = int_text (fl OR conv_flags c) (unat (conv_base c)) w p v"
| "conv_text maxlen fl w p (CStr s) = str_text fl w (if p < 0 then maxlen else p) s"
| "conv_text maxlen fl w p (CChr v) = [char_of (unat v)]"
| "conv_text maxlen fl w p (CFp v) = fp_text fl w p v"
| "conv_text maxlen fl w p CPct = ''%''"

fun directive_fmt :: "directive \<Rightarrow> string" where
  "directive_fmt (Lit c) = [c]"
| "directive_fmt (Conv fl w p k) = CHR ''%'' # fl @ (if w = 0 then [] else digits False 10 w) @
     (case p of None \<Rightarrow> [] | Some n \<Rightarrow> CHR ''.'' # digits False 10 n) @ [conv_char k]"

fun directive_args :: "directive \<Rightarrow> arg list" where
  "directive_args (Lit c) = []" | "directive_args (Conv fl w p k) = conv_args k"

fun conv_ok :: "conversion \<Rightarrow> bool" where
  "conv_ok (CInt c v) \<longleftrightarrow> c \<in> int_convs" | "conv_ok (CFp v) \<longleftrightarrow> fp_ok v" | "conv_ok (CStr v) \<longleftrightarrow> arg_length v < 2 ^ 31"
| "conv_ok k \<longleftrightarrow> True"

fun directive_ok :: "directive \<Rightarrow> bool" where
  "directive_ok (Lit c) \<longleftrightarrow> c \<noteq> CHR ''%'' \<and> c \<noteq> CHR 0x00"
| "directive_ok (Conv fl w p k) \<longleftrightarrow> set fl \<subseteq> flag_chars \<and> w < 2 ^ 31 \<and> (case p of None \<Rightarrow> True | Some n \<Rightarrow> n < 2 ^ 31) \<and> conv_ok k"

fun directive_text :: "int \<Rightarrow> directive \<Rightarrow> string" where
  "directive_text maxlen (Lit c) = [c]"
| "directive_text maxlen (Conv fl w p k) =
     conv_text maxlen (flag_bits fl) (int w) (case p of None \<Rightarrow> - 1 | Some n \<Rightarrow> int n) k"

text \<open>The interpreter with the characters \<open>cs\<close>, at least one, still to come.\<close>

definition load :: "string \<Rightarrow> dopr_st \<Rightarrow> dopr_st" where
  "load cs d = d\<lparr>ch := hd cs, fmt := tl cs\<rparr>"

lemma load_simps [simp]:
  "state (load cs d) = state d" "ch (load (c # cs) d) = c" "out (load cs d) = out d" "args (load cs d) = args d"
  "flags (load cs d) = flags d" "dmin (load cs d) = dmin d" "dmax (load cs d) = dmax d"
  by (simp_all add: load_def)

lemma next_ch_load: "next_ch (load (c # c' # cs) d) = Some (load (c' # cs) d)"
  by (simp add: next_ch_def load_def)

lemma load_update [simp]:
  "(load cs d)\<lparr>state := s\<rparr> = load cs (d\<lparr>state := s\<rparr>)" "(load cs d)\<lparr>flags := f\<rparr> = load cs (d\<lparr>flags := f\<rparr>)"
  "(load cs d)\<lparr>dmin := i\<rparr> = load cs (d\<lparr>dmin := i\<rparr>)" "(load cs d)\<lparr>dmax := i\<rparr> = load cs (d\<lparr>dmax := i\<rparr>)"
  "(load cs d)\<lparr>out := b\<rparr> = load cs (d\<lparr>out := b\<rparr>)" "(load cs d)\<lparr>args := a\<rparr> = load cs (d\<lparr>args := a\<rparr>)"
  "(load cs d)\<lparr>cflags := n\<rparr> = load cs (d\<lparr>cflags := n\<rparr>)"
  by (simp_all add: load_def)

lemma dopr_loop_step:
  assumes "dopr_step m d = Some d'" "state d \<noteq> DP_S_DONE" "ch d \<noteq> CHR 0x00" "currlen (out d) < m"
  shows "dopr_loop m d = dopr_loop m d'"
  using assms by (subst dopr_loop.simps) simp

text \<open>The states of one conversion in turn.\<close>

lemma flags_loop:
  assumes "set fl \<subseteq> flag_chars" "c \<notin> flag_chars" "c \<noteq> CHR 0x00" "state d = DP_S_FLAGS" "currlen (out d) < m"
  shows "dopr_loop m (load (fl @ c # r) d) =
         dopr_loop m (load (c # r) (d\<lparr>flags := foldl (\<lambda>f c. f OR flag_bit c) (flags d) fl, state := DP_S_MIN\<rparr>))"
  using assms
proof (induction fl arbitrary: d)
  case Nil
  then have "dopr_step m (load (c # r) d) = Some (load (c # r) (d\<lparr>flags := flags d, state := DP_S_MIN\<rparr>))"
    by (simp add: dopr_step_def flag_chars_def)
  then show ?case using Nil by (simp add: dopr_loop_step)
next
  case (Cons f fl)
  obtain g gs where g: "fl @ c # r = g # gs" by (cases "fl @ c # r") auto
  have "dopr_step m (load (f # g # gs) d) = Some (load (g # gs) (d\<lparr>flags := flags d OR flag_bit f\<rparr>))"
    using Cons.prems by (auto simp: dopr_step_def flag_chars_def flag_bit_def next_ch_load)
  moreover have "f \<noteq> CHR 0x00" using Cons.prems by (auto simp: flag_chars_def)
  ultimately have "dopr_loop m (load (f # g # gs) d) = dopr_loop m (load (g # gs) (d\<lparr>flags := flags d OR flag_bit f\<rparr>))"
    using Cons.prems by (simp add: dopr_loop_step)
  then show ?case using Cons.IH [of "d\<lparr>flags := flags d OR flag_bit f\<rparr>"] Cons.prems by (simp add: g)
qed

lemma isdigit_not_nul: "isdigit_char f \<Longrightarrow> f \<noteq> CHR 0x00"
  by (auto simp: isdigit_char_def)

lemma isdigit_value_pos: "isdigit_char f \<Longrightarrow> 0 \<le> char_to_int f"
  by (auto simp: isdigit_char_def char_to_int_def)

text \<open>No prefix of a number is greater than the number.\<close>

lemma digits_mono: "\<forall>f \<in> set ds. isdigit_char f \<Longrightarrow> 0 \<le> a \<Longrightarrow> a \<le> foldl (\<lambda>n c. 10 * n + char_to_int c) a ds"
proof (induction ds arbitrary: a)
  case (Cons f ds)
  have "0 \<le> char_to_int f" using Cons.prems(1) by (intro isdigit_value_pos) simp
  moreover have "10 * a + char_to_int f \<le> foldl (\<lambda>n c. 10 * n + char_to_int c) (10 * a + char_to_int f) ds"
    using Cons.prems calculation by (intro Cons.IH) simp_all
  ultimately show ?case using Cons.prems by simp
qed simp

lemma min_loop:
  assumes "\<forall>f \<in> set ds. isdigit_char f" "\<not> isdigit_char c" "c \<noteq> CHR ''*''" "c \<noteq> CHR 0x00" "state d = DP_S_MIN" "currlen (out d) < m"
    "0 \<le> dmin d" "foldl (\<lambda>n c. 10 * n + char_to_int c) (dmin d) ds < 2 ^ 31"
  shows "dopr_loop m (load (ds @ c # r) d) =
         dopr_loop m (load (c # r) (d\<lparr>dmin := foldl (\<lambda>n c. 10 * n + char_to_int c) (dmin d) ds, state := DP_S_DOT\<rparr>))"
  using assms
proof (induction ds arbitrary: d)
  case Nil
  then have "dopr_step m (load (c # r) d) = Some (load (c # r) (d\<lparr>dmin := dmin d, state := DP_S_DOT\<rparr>))"
    by (simp add: dopr_step_def)
  then show ?case using Nil by (simp add: dopr_loop_step)
next
  case (Cons f ds)
  obtain g gs where g: "ds @ c # r = g # gs" by (cases "ds @ c # r") auto
  have pos: "0 \<le> char_to_int f" using Cons.prems(1) by (intro isdigit_value_pos) simp
  have "as_int (10 * dmin d + char_to_int f) = 10 * dmin d + char_to_int f"
    using digits_mono [of ds "10 * dmin d + char_to_int f"] Cons.prems pos by (intro as_int_id) simp_all
  then have "dopr_step m (load (f # g # gs) d) = Some (load (g # gs) (d\<lparr>dmin := 10 * dmin d + char_to_int f\<rparr>))"
    using Cons.prems by (simp add: dopr_step_def next_ch_load)
  then have "dopr_loop m (load (f # g # gs) d) = dopr_loop m (load (g # gs) (d\<lparr>dmin := 10 * dmin d + char_to_int f\<rparr>))"
    using Cons.prems by (simp add: dopr_loop_step isdigit_not_nul)
  then show ?case using Cons.IH [of "d\<lparr>dmin := 10 * dmin d + char_to_int f\<rparr>"] Cons.prems pos by (simp add: g)
qed

lemma max_loop:
  assumes "\<forall>f \<in> set ds. isdigit_char f" "\<not> isdigit_char c" "c \<noteq> CHR ''*''" "c \<noteq> CHR 0x00" "state d = DP_S_MAX" "currlen (out d) < m"
    "0 \<le> dmax d" "foldl (\<lambda>n c. 10 * n + char_to_int c) (dmax d) ds < 2 ^ 31"
  shows "dopr_loop m (load (ds @ c # r) d) =
         dopr_loop m (load (c # r) (d\<lparr>dmax := foldl (\<lambda>n c. 10 * n + char_to_int c) (dmax d) ds, state := DP_S_MOD\<rparr>))"
  using assms
proof (induction ds arbitrary: d)
  case Nil
  then have "dopr_step m (load (c # r) d) = Some (load (c # r) (d\<lparr>dmax := dmax d, state := DP_S_MOD\<rparr>))"
    by (simp add: dopr_step_def)
  then show ?case using Nil by (simp add: dopr_loop_step)
next
  case (Cons f ds)
  obtain g gs where g: "ds @ c # r = g # gs" by (cases "ds @ c # r") auto
  have pos: "0 \<le> char_to_int f" using Cons.prems(1) by (intro isdigit_value_pos) simp
  have "as_int (10 * dmax d + char_to_int f) = 10 * dmax d + char_to_int f"
    using digits_mono [of ds "10 * dmax d + char_to_int f"] Cons.prems pos by (intro as_int_id) simp_all
  then have "dopr_step m (load (f # g # gs) d) = Some (load (g # gs) (d\<lparr>dmax := 10 * dmax d + char_to_int f\<rparr>))"
    using Cons.prems by (simp add: dopr_step_def next_ch_load)
  then have "dopr_loop m (load (f # g # gs) d) = dopr_loop m (load (g # gs) (d\<lparr>dmax := 10 * dmax d + char_to_int f\<rparr>))"
    using Cons.prems by (simp add: dopr_loop_step isdigit_not_nul)
  then show ?case using Cons.IH [of "d\<lparr>dmax := 10 * dmax d + char_to_int f\<rparr>"] Cons.prems pos by (simp add: g)
qed

lemma decimal_digits: "f \<in> set (digits False 10 n) \<Longrightarrow> isdigit_char f"
proof (induction n rule: less_induct)
  case (less n)
  have d: "isdigit_char (digit_char False k)" if "k < 10" for k
  proof -
    have "k \<in> {0, 1, 2, 3, 4, 5, 6, 7, 8, 9}" using that by auto
    then show ?thesis by (auto simp: digit_char_def isdigit_char_def)
  qed
  have "f \<in> set (digits False 10 (n div 10)) \<Longrightarrow> \<not> n < 10 \<Longrightarrow> isdigit_char f" using less.IH [of "n div 10"] by simp
  then show ?case using less.prems d [of n] d [of "n mod 10"] by (subst (asm) (2) digits.simps) (auto split: if_splits)
qed

lemma decimal_value: "foldl (\<lambda>n c. 10 * n + char_to_int c) 0 (digits False 10 n) = int n"
proof (induction n rule: less_induct)
  case (less n)
  have d: "char_to_int (digit_char False k) = int k" if "k < 10" for k
  proof -
    have "k \<in> {0, 1, 2, 3, 4, 5, 6, 7, 8, 9}" using that by auto
    then show ?thesis by (auto simp: digit_char_def char_to_int_def)
  qed
  show ?case using less d [of n] d [of "n mod 10"] by (subst digits.simps) (auto simp: zdiv_int zmod_int)
qed

text \<open>Width and precision, from the character after the flags to the conversion.\<close>

lemma fields_loop:
  assumes c: "c \<notin> {CHR ''.'', CHR ''*'', CHR 0x00, CHR ''h'', CHR ''l'', CHR ''L''}" "\<not> isdigit_char c"
    and d: "state d = DP_S_MIN" "dmin d = 0" "dmax d = - 1" "currlen (out d) < m"
    and small: "w < 2 ^ 31" "case p of None \<Rightarrow> True | Some n \<Rightarrow> n < 2 ^ 31"
  shows "dopr_loop m (load ((if w = 0 then [] else digits False 10 w) @
           (case p of None \<Rightarrow> [] | Some n \<Rightarrow> CHR ''.'' # digits False 10 n) @ c # r) d) =
         dopr_loop m (load (c # r) (d\<lparr>dmin := int w, dmax := (case p of None \<Rightarrow> - 1 | Some n \<Rightarrow> int n), state := DP_S_CONV\<rparr>))"
    (is "dopr_loop m (load (?ws @ ?ps @ c # r) d) = _")
proof -
  let ?d1 = "d\<lparr>dmin := int w, state := DP_S_DOT\<rparr>"
  obtain g gs where g: "?ps @ c # r = g # gs" "\<not> isdigit_char g" "g \<noteq> CHR ''*''" "g \<noteq> CHR 0x00"
    using c by (cases p) (auto simp: isdigit_char_def)
  have ws: "foldl (\<lambda>n c. 10 * n + char_to_int c) 0 ?ws = int w" by (simp add: decimal_value)
  have "\<forall>f \<in> set ?ws. isdigit_char f" using decimal_digits by auto
  then have "dopr_loop m (load (?ws @ g # gs) d) = dopr_loop m (load (g # gs) ?d1)"
    using min_loop [of ?ws g d m gs] g d ws small(1) by simp
  then have 1: "dopr_loop m (load (?ws @ ?ps @ c # r) d) = dopr_loop m (load (?ps @ c # r) ?d1)" by (simp add: g)
  let ?d2 = "?d1\<lparr>dmax := (case p of None \<Rightarrow> - 1 | Some n \<Rightarrow> int n), state := DP_S_MOD\<rparr>"
  have 2: "dopr_loop m (load (?ps @ c # r) ?d1) = dopr_loop m (load (c # r) ?d2)"
  proof (cases p)
    case None
    then have "?d2 = ?d1\<lparr>state := DP_S_MOD\<rparr>" using d by (cases d) simp
    then have "dopr_step m (load (c # r) ?d1) = Some (load (c # r) ?d2)" using c d by (simp add: dopr_step_def)
    then show ?thesis using None c d by (simp add: dopr_loop_step)
  next
    case (Some n)
    obtain e es where e: "digits False 10 n = e # es" using digits_nonempty by (cases "digits False 10 n") auto
    have dig: "isdigit_char e" "\<forall>f \<in> set es. isdigit_char f" using decimal_digits [of _ n] e by auto
    obtain h hs where h: "es @ c # r = h # hs" by (cases "es @ c # r") auto
    let ?dm = "?d1\<lparr>state := DP_S_MAX\<rparr>"
    have "dopr_step m (load (CHR ''.'' # e # h # hs) ?d1) = Some (load (e # h # hs) ?dm)"
      by (simp add: dopr_step_def next_ch_load)
    then have s1: "dopr_loop m (load (CHR ''.'' # e # h # hs) ?d1) = dopr_loop m (load (e # h # hs) ?dm)"
      using d by (simp add: dopr_loop_step)
    have val: "foldl (\<lambda>n c. 10 * n + char_to_int c) (char_to_int e) es = int n"
      using decimal_value [of n] by (simp add: e)
    have "as_int (char_to_int e) = char_to_int e"
      using digits_mono [OF dig(2) isdigit_value_pos [OF dig(1)]] isdigit_value_pos [OF dig(1)] val small(2) Some
      by (intro as_int_id) simp_all
    then have "dopr_step m (load (e # h # hs) ?dm) = Some (load (h # hs) (?dm\<lparr>dmax := char_to_int e\<rparr>))"
      using dig d by (simp add: dopr_step_def next_ch_load)
    then have s2: "dopr_loop m (load (e # h # hs) ?dm) = dopr_loop m (load (h # hs) (?dm\<lparr>dmax := char_to_int e\<rparr>))"
      using dig d by (simp add: dopr_loop_step isdigit_not_nul)
    have "dopr_loop m (load (es @ c # r) (?dm\<lparr>dmax := char_to_int e\<rparr>)) = dopr_loop m (load (c # r) ?d2)"
      using max_loop [of es c "?dm\<lparr>dmax := char_to_int e\<rparr>" m r] dig c d isdigit_value_pos [OF dig(1)] Some val small(2) by simp
    then show ?thesis using s1 s2 Some by (simp add: e h)
  qed
  have "dopr_step m (load (c # r) ?d2) = Some (load (c # r) (?d2\<lparr>state := DP_S_CONV\<rparr>))"
    using c by (simp add: dopr_step_def)
  then have "dopr_loop m (load (c # r) ?d2) = dopr_loop m (load (c # r) (?d2\<lparr>state := DP_S_CONV\<rparr>))"
    using c d by (simp add: dopr_loop_step)
  then show ?thesis using 1 2 by simp
qed

text \<open>The interpreter between two directives.\<close>

definition at_default :: "dopr_st \<Rightarrow> bool" where
  "at_default d \<longleftrightarrow> state d = DP_S_DEFAULT \<and> flags d = 0 \<and> cflags d = 0 \<and> dmin d = 0 \<and> dmax d = - 1"

lemma conv_step:
  assumes "state d = DP_S_CONV" "conv_ok k" "args d = conv_args k @ as" "0 \<le> dmin d" "dmin d < 2 ^ 31" "dmax d < 2 ^ 31"
  shows "dopr_step m (load (conv_char k # e # r) d) =
    Some (load (e # r) (d\<lparr>args := as, out := put_all (conv_text m (flags d) (dmin d) (dmax d) k) (out d),
      state := DP_S_DEFAULT, flags := 0, cflags := 0, dmin := 0, dmax := - 1\<rparr>))"
proof (cases k)
  case (CInt c v)
  have "dopr_conv m (load (conv_char k # e # r) d) = dopr_int (conv_base c) (conv_flags c) (load (c # e # r) d)"
    using assms(2) CInt by (auto simp: dopr_conv_def int_convs_def conv_base_def conv_flags_def)
  moreover have "conv_base c \<in> {8, 10, 16}" by (simp add: conv_base_def)
  ultimately show ?thesis
    using assms CInt by (simp add: dopr_step_def dopr_int_def va_int_def next_ch_load fmtint_prints)
next
  case (CFp v)
  then show ?thesis using assms by (simp add: dopr_step_def dopr_conv_def va_fp_def next_ch_load fmtfp_text)
next
  case CPct
  then show ?thesis using assms by (cases d) (simp add: dopr_step_def dopr_conv_def next_ch_load)
qed (use assms in \<open>simp_all add: dopr_step_def dopr_conv_def va_int_def va_str_def Let_def next_ch_load fmtstr_prints\<close>)

lemma directive_loop:
  assumes ok: "directive_ok x" and d: "at_default d" "args d = directive_args x @ as" "currlen (out d) < m"
  shows "\<exists>d'. dopr_loop m (load (directive_fmt x @ e # r) d) = dopr_loop m (load (e # r) d') \<and>
     at_default d' \<and> args d' = as \<and> out d' = put_all (directive_text m x) (out d)"
proof (cases x)
  case (Lit c)
  have "dopr_step m (load (c # e # r) d) = Some (load (e # r) (d\<lparr>out := dopr_outch c (out d)\<rparr>))"
    using ok d Lit by (simp add: dopr_step_def at_default_def next_ch_load)
  then have "dopr_loop m (load (c # e # r) d) = dopr_loop m (load (e # r) (d\<lparr>out := dopr_outch c (out d)\<rparr>))"
    using ok d Lit by (simp add: dopr_loop_step at_default_def)
  then show ?thesis using d Lit by (intro exI [of _ "d\<lparr>out := dopr_outch c (out d)\<rparr>"]) (simp add: at_default_def)
next
  case (Conv fl w p k)
  let ?c = "conv_char k"
  let ?prec = "case p of None \<Rightarrow> - 1 | Some n \<Rightarrow> int n"
  let ?fields = "(if w = 0 then [] else digits False 10 w) @ (case p of None \<Rightarrow> [] | Some n \<Rightarrow> CHR ''.'' # digits False 10 n) @ ?c # e # r"
  let ?d1 = "d\<lparr>state := DP_S_FLAGS\<rparr>"
  let ?d2 = "?d1\<lparr>flags := flag_bits fl, state := DP_S_MIN\<rparr>"
  let ?d3 = "?d2\<lparr>dmin := int w, dmax := ?prec, state := DP_S_CONV\<rparr>"
  let ?d4 = "?d3\<lparr>args := as, out := put_all (conv_text m (flags ?d3) (dmin ?d3) (dmax ?d3) k) (out d),
      state := DP_S_DEFAULT, flags := 0, cflags := 0, dmin := 0, dmax := - 1\<rparr>"
  have c: "?c \<notin> {CHR ''.'', CHR ''*'', CHR 0x00, CHR ''h'', CHR ''l'', CHR ''L''}" "\<not> isdigit_char ?c" "?c \<notin> flag_chars"
    using ok Conv by (cases k; auto simp: int_convs_def isdigit_char_def flag_chars_def)+
  obtain g gs where g: "?fields = g # gs" "g \<notin> flag_chars" "g \<noteq> CHR 0x00"
  proof (cases "w = 0")
    case True
    then show thesis using that c by (cases p) (auto simp: flag_chars_def)
  next
    case False
    obtain f fs where f: "digits False 10 w = f # fs" using digits_nonempty by (cases "digits False 10 w") auto
    have "f \<noteq> CHR ''0''" using digits_no_leading_zero [of 10 False w] f False by auto
    moreover have "isdigit_char f" using decimal_digits [of f w] f by simp
    ultimately have "f \<notin> flag_chars" "f \<noteq> CHR 0x00" by (auto simp: flag_chars_def isdigit_char_def)
    then show thesis using that f False by simp
  qed
  obtain h hs where h: "fl @ ?fields = h # hs" by (cases "fl @ ?fields") auto
  have "dopr_step m (load (CHR ''%'' # h # hs) d) = Some (load (h # hs) ?d1)"
    using d by (simp add: dopr_step_def at_default_def next_ch_load)
  then have s1: "dopr_loop m (load (directive_fmt x @ e # r) d) = dopr_loop m (load (fl @ ?fields) ?d1)"
    using d Conv h by (simp add: dopr_loop_step at_default_def)
  have s2: "dopr_loop m (load (fl @ ?fields) ?d1) = dopr_loop m (load ?fields ?d2)"
    using flags_loop [of fl g ?d1 m gs] ok d Conv g by (simp add: at_default_def flag_bits_def)
  have s3: "dopr_loop m (load ?fields ?d2) = dopr_loop m (load (?c # e # r) ?d3)"
    using fields_loop [OF c(1,2), of ?d2 m w p "e # r"] d ok Conv by (simp add: at_default_def)
  have "dopr_step m (load (?c # e # r) ?d3) = Some (load (e # r) ?d4)"
    using conv_step [of ?d3 k as m e r] ok d Conv by (simp split: option.splits)
  then have "dopr_loop m (load (?c # e # r) ?d3) = dopr_loop m (load (e # r) ?d4)"
    using c d by (simp add: dopr_loop_step)
  then show ?thesis using s1 s2 s3 Conv by (intro exI [of _ ?d4]) (simp add: at_default_def)
qed

lemma directives_loop:
  assumes "\<forall>x \<in> set xs. directive_ok x" "at_default d" "args d = concat (map directive_args xs)"
    "currlen (out d) + int (length (concat (map (directive_text m) xs))) < m"
  shows "\<exists>d'. dopr_loop m (load (concat (map directive_fmt xs) @ e # r) d) = dopr_loop m (load (e # r) d') \<and>
     at_default d' \<and> args d' = [] \<and> out d' = put_all (concat (map (directive_text m) xs)) (out d)"
  using assms
proof (induction xs arbitrary: d)
  case Nil
  then show ?case by auto
next
  case (Cons x xs)
  obtain g gs where g: "concat (map directive_fmt xs) @ e # r = g # gs"
    by (cases "concat (map directive_fmt xs) @ e # r") auto
  obtain d' where d': "dopr_loop m (load (directive_fmt x @ g # gs) d) = dopr_loop m (load (g # gs) d')"
    "at_default d'" "args d' = concat (map directive_args xs)" "out d' = put_all (directive_text m x) (out d)"
    using directive_loop [of x d "concat (map directive_args xs)" m g gs] Cons.prems by auto
  then show ?case using Cons.IH [of d'] Cons.prems by (simp add: g put_all_eq add.assoc)
qed

definition dopr_start :: "string \<Rightarrow> string \<Rightarrow> arg list \<Rightarrow> dopr_st" where
  "dopr_start buf cs as = \<lparr>state = DP_S_DEFAULT, ch = CHR 0x00, fmt = cs, args = as, flags = 0,
    cflags = 0, dmin = 0, dmax = - 1, out = \<lparr>buffer = buf, currlen = 0\<rparr>, stores = []\<rparr>"

lemma dopr_load:
  assumes "cs @ [CHR 0x00] = c # r"
  shows "dopr buf maxlen cs as = dopr_loop maxlen (load (c # r) (dopr_start buf (cs @ [CHR 0x00]) as))"
  using assms by (simp add: dopr_def next_ch_def load_def dopr_start_def)

lemma dopr_directives:
  assumes "\<forall>x \<in> set xs. directive_ok x" "int (length (concat (map (directive_text maxlen) xs))) < maxlen"
    "tail @ [CHR 0x00] = e # r"
  shows "\<exists>d. dopr buf maxlen (concat (map directive_fmt xs) @ tail) (concat (map directive_args xs)) =
      dopr_loop maxlen (load (e # r) d) \<and> at_default d \<and>
    out d = \<lparr>buffer = buf @ concat (map (directive_text maxlen) xs),
      currlen = int (length (concat (map (directive_text maxlen) xs)))\<rparr>"
proof -
  let ?fs = "concat (map directive_fmt xs)"
  let ?d = "dopr_start buf (?fs @ e # r) (concat (map directive_args xs))"
  obtain c cs where c: "?fs @ e # r = c # cs" by (cases "?fs @ e # r") auto
  have "dopr buf maxlen (?fs @ tail) (concat (map directive_args xs)) = dopr_loop maxlen (load (?fs @ e # r) ?d)"
    using dopr_load [of "?fs @ tail" c cs] assms(3) by (simp add: c)
  then show ?thesis
    using directives_loop [of xs ?d maxlen e r] assms(1,2) by (auto simp: dopr_start_def at_default_def put_all_eq)
qed

text \<open>The digits of a fraction, followed by the zeros that fill the precision.\<close>

lemma num_of_zeros: "num_of b (ds @ replicate k CHR ''0'') = num_of b ds * b ^ k"
  by (induction k) (simp_all add: num_of_snoc replicate_append_same [symmetric] digit_val_def append_assoc [symmetric] del: append_assoc)

lemma digits_length_ge: "b ^ k \<le> n \<Longrightarrow> 2 \<le> b \<Longrightarrow> k < length (digits caps b n)"
proof (induction k arbitrary: n)
  case (Suc k)
  have "b ^ k \<le> n div b" using Suc.prems by (simp add: less_eq_div_iff_mult_less_eq mult.commute)
  moreover have "b \<le> n" using Suc.prems by (meson order.trans self_le_power Suc_le_eq zero_less_Suc le_trans one_le_numeral)
  ultimately show ?case using Suc by (subst digits.simps) simp
qed (simp add: digits_nonempty)

lemma fp_fraction_value:
  "length (fp_fraction p (n mod 10 ^ p)) = p"
  "num_of 10 (fp_fraction p (n mod 10 ^ p)) = n mod 10 ^ p \<longleftrightarrow> n mod 10 ^ p = 0 \<or> 10 ^ p \<le> 10 * (n mod 10 ^ p)"
proof -
  define f where "f = n mod 10 ^ p"
  let ?ds = "digits False 10 f"
  have f: "f < 10 ^ p" by (simp add: f_def)
  have len: "length ?ds \<le> p" if "p \<noteq> 0" using digits_length [of 10 f p False] f that by simp
  then show "length (fp_fraction p (n mod 10 ^ p)) = p" by (auto simp: fp_fraction_def Let_def f_def)
  have num: "num_of 10 ?ds = f" by (rule num_of_digits) simp_all
  show "num_of 10 (fp_fraction p (n mod 10 ^ p)) = n mod 10 ^ p \<longleftrightarrow> n mod 10 ^ p = 0 \<or> 10 ^ p \<le> 10 * (n mod 10 ^ p)"
  proof (cases p)
    case 0
    then show ?thesis by (simp add: fp_fraction_def num_of_def)
  next
    case (Suc j)
    have v: "num_of 10 (fp_fraction p f) = f * 10 ^ (p - length ?ds)"
      using Suc by (simp add: fp_fraction_def Let_def num_of_zeros num)
    have "p - length ?ds = 0 \<longleftrightarrow> 10 ^ j \<le> f" if "f \<noteq> 0"
    proof
      assume "p - length ?ds = 0"
      then have "\<not> length ?ds \<le> j" using Suc by simp
      then show "10 ^ j \<le> f" using digits_length [of 10 f j False] that by (cases "j = 0") (simp, linarith)
    next
      assume "10 ^ j \<le> f"
      then show "p - length ?ds = 0" using digits_length_ge [of 10 j f False] Suc by simp
    qed
    then show ?thesis unfolding f_def [symmetric] v by (cases "f = 0") (auto simp: Suc)
  qed
qed

section \<open>Properties\<close>


lemma replicate_small: "replicate 2 c = [c, c]" "replicate 3 c = [c, c, c]" "replicate 4 c = [c, c, c, c]"
  by (simp_all add: numeral_eq_Suc)

lemmas eval_text = int_text_def str_text_def value_of_def sign_of_def has_def flag_bits_def flag_bit_def conv_flags_def
  conv_base_def digits.simps digit_char_def DP_F_MINUS_def DP_F_ZERO_def DP_F_UNSIGNED_def DP_F_PLUS_def DP_F_SPACE_def
  DP_F_UP_def Let_def replicate_small


text \<open>
  An integer conversion in base 8, 10 or 16 prints spaces, a sign, zeros, digits and spaces:
  the digits denote the magnitude of the value and have no leading zero, there is a minus sign
  exactly for a negative value of a signed conversion, spaces are on the left or, with the minus
  flag, on the right, and there are at least as many digits and zeros as the precision asks for.
  The field is exactly as wide as the larger of the width asked for and what the value needs,
  unless a zero flag comes with a precision longer than the number.
\<close>

theorem fmtint_correct:
  assumes "b \<in> {8, 10, 16}" "0 \<le> mn" "mn < 2 ^ 31" "mx < 2 ^ 31"
  shows "\<exists>l sg z ds t. fmtint v b mn mx fl s =
      s\<lparr>buffer := buffer s @ replicate l CHR '' '' @ sg @ replicate z CHR ''0'' @ ds @ replicate t CHR '' '',
        currlen := currlen s + int (l + length sg + z + length ds + t)\<rparr> \<and>
    int (num_of (unat b) ds) = \<bar>if has fl DP_F_UNSIGNED then uint v else sint v\<bar> \<and>
    (sg = ''-'' \<longleftrightarrow> \<not> has fl DP_F_UNSIGNED \<and> sint v < 0) \<and> length sg \<le> 1 \<and>
    ds \<noteq> [] \<and> (hd ds = CHR ''0'' \<longrightarrow> v = 0) \<and>
    (if has fl DP_F_MINUS then l = 0 else t = 0) \<and> mx \<le> int (z + length ds) \<and>
    (\<not> has fl DP_F_ZERO \<or> mx \<le> int (length ds) \<longrightarrow>
      int (l + length sg + z + length ds + t) = max mn (int (length sg) + max mx (int (length ds))))"
proof -
  define ds where "ds = digits (has fl DP_F_UP) (unat b) (nat \<bar>value_of fl v\<bar>)"
  define sg where "sg = sign_of fl v"
  define z where "z = nat (mx - int (length ds))"
  define w where "w = nat (mn - int (length sg) - max mx (int (length ds)))"
  define zeros where "zeros = (if has fl DP_F_ZERO then max z w else z)"
  define spaces where "spaces = (if has fl DP_F_ZERO then 0 else w)"
  define l where "l = (if has fl DP_F_MINUS then 0 else spaces)"
  define t where "t = (if has fl DP_F_MINUS then spaces else 0)"
  have b: "2 \<le> unat b" "unat b \<le> 16" using assms by auto
  have tx: "int_text fl (unat b) mn mx v =
      replicate l CHR '' '' @ sg @ replicate zeros CHR ''0'' @ ds @ replicate t CHR '' ''"
    by (simp add: int_text_def Let_def ds_def sg_def z_def w_def zeros_def spaces_def l_def t_def)
  have otp: "fmtint v b mn mx fl s =
      s\<lparr>buffer := buffer s @ replicate l CHR '' '' @ sg @ replicate zeros CHR ''0'' @ ds @ replicate t CHR '' '',
        currlen := currlen s + int (l + length sg + zeros + length ds + t)\<rparr>"
    unfolding fmtint_prints [OF assms] tx put_all_eq by simp
  have num: "int (num_of (unat b) ds) = \<bar>if has fl DP_F_UNSIGNED then uint v else sint v\<bar>"
    using num_of_digits [OF b, of "has fl DP_F_UP" "nat \<bar>value_of fl v\<bar>"] by (simp add: ds_def value_of_def)
  have sg: "sg = ''-'' \<longleftrightarrow> \<not> has fl DP_F_UNSIGNED \<and> sint v < 0" "length sg \<le> 1"
    by (simp_all add: sg_def sign_of_def)
  have "hd ds = CHR ''0'' \<Longrightarrow> value_of fl v = 0"
    using digits_no_leading_zero [OF b, of "has fl DP_F_UP" "nat \<bar>value_of fl v\<bar>"] by (simp add: ds_def)
  then have lead: "hd ds = CHR ''0'' \<longrightarrow> v = 0"
    using uint_of_sint [of v] by (auto simp: value_of_def uint_0_iff split: if_splits)
  have prec: "mx \<le> int (zeros + length ds)" unfolding zeros_def z_def by (cases "has fl DP_F_ZERO") (simp_all add: max_def, linarith?)
  have width: "int (l + length sg + zeros + length ds + t) = max mn (int (length sg) + max mx (int (length ds)))"
    if "\<not> has fl DP_F_ZERO \<or> mx \<le> int (length ds)"
    using that by (auto simp: l_def t_def spaces_def zeros_def w_def z_def max_def)
  have ne: "ds \<noteq> []" by (simp add: ds_def digits_nonempty)
  have side: "if has fl DP_F_MINUS then l = 0 else t = 0" by (simp add: l_def t_def)
  show ?thesis using otp num sg lead prec width ne side by blast
qed

lemma fmtint_correct_witness:
  "\<exists>l sg z ds t. fmtint (- 42) 10 8 5 0 \<lparr>buffer = [], currlen = 0\<rparr> =
      \<lparr>buffer = replicate l CHR '' '' @ sg @ replicate z CHR ''0'' @ ds @ replicate t CHR '' '', currlen = 8\<rparr> \<and>
     sg = ''-'' \<and> num_of 10 ds = 42 \<and> 5 \<le> z + length ds \<and> t = 0"
proof -
  let ?s = "\<lparr>buffer = [], currlen = 0\<rparr>"
  have h: "\<not> has 0 f" for f by (simp add: has_def)
  have ten: "(10 :: u32) \<in> {8, 10, 16}" by simp
  have mm: "(0 :: int) \<le> 8" "(8 :: int) < 2 ^ 31" "(5 :: int) < 2 ^ 31" by simp_all
  obtain l sg z ds t where e: "fmtint (- 42) 10 8 5 0 ?s =
      ?s\<lparr>buffer := buffer ?s @ replicate l CHR '' '' @ sg @ replicate z CHR ''0'' @ ds @ replicate t CHR '' '',
        currlen := currlen ?s + int (l + length sg + z + length ds + t)\<rparr>"
    "int (num_of (unat (10 :: u32)) ds) = \<bar>if has 0 DP_F_UNSIGNED then uint (- 42 :: u32) else sint (- 42 :: u32)\<bar>"
    "sg = ''-'' \<longleftrightarrow> \<not> has 0 DP_F_UNSIGNED \<and> sint (- 42 :: u32) < 0"
    "if has 0 DP_F_MINUS then l = 0 else t = 0" "5 \<le> int (z + length ds)"
    using fmtint_correct [OF ten mm, of "- 42" 0 ?s] by blast
  have "fmtint (- 42) 10 8 5 0 ?s = put_all (int_text 0 10 8 5 (- 42)) ?s" by (simp add: fmtint_prints)
  also have "currlen \<dots> = 8" by (simp add: eval_text put_all_eq)
  finally have "int (l + length sg + z + length ds + t) = 8" using e(1) by simp
  then show ?thesis using e by (intro exI [of _ l] exI [of _ sg] exI [of _ z] exI [of _ ds] exI [of _ t]) (simp add: h)
qed

text \<open>
  C39.  A floating-point conversion of a value whose magnitude is below \<open>2 ^ 31 - 1\<close> prints spaces, a
  sign, zeros, the digits of a number \<open>n\<close> cut at the precision, and spaces.  The number is the
  magnitude times the power of ten of the precision, right to half a unit and \<open>2 ^ -34\<close>; there is a
  minus sign exactly for negative values.  The digits behind the point are the fraction of \<open>n\<close> exactly
  when it is zero or needs no leading zero: the code puts the missing zeros behind the digits instead
  of before them, and prints 1.0625 as 1.6250.
\<close>

theorem fmtfp_correct:
  assumes "fp_ok v"
  shows "\<exists>l sg z n t. let p = fp_prec mx; ds = digits False 10 (n div 10 ^ p); fs = fp_fraction p (n mod 10 ^ p);
      txt = replicate l CHR '' '' @ sg @ replicate z CHR ''0'' @ ds @ (if p = 0 then [] else CHR ''.'' # fs) @ replicate t CHR '' '' in
    fmtfp v mn mx fl s = Some (s\<lparr>buffer := buffer s @ txt, currlen := currlen s + int (length txt)\<rparr>) \<and>
    \<bar>rat_of_nat n - \<bar>ld_val v\<bar> * 10 ^ p\<bar> \<le> 1 / 2 + 1 / 2 ^ 34 \<and>
    length fs = p \<and> num_of 10 ds = n div 10 ^ p \<and>
    (num_of 10 fs = n mod 10 ^ p \<longleftrightarrow> n mod 10 ^ p = 0 \<or> 10 ^ p \<le> 10 * (n mod 10 ^ p)) \<and>
    (sg = ''-'' \<longleftrightarrow> ld_val v < 0) \<and> length sg \<le> 1 \<and> (if has fl DP_F_MINUS then l = 0 \<and> z = 0 else t = 0)"
proof -
  define p n where "p = fp_prec mx" and "n = fp_number p v"
  define sg where "sg = fp_sign fl v"
  define w where "w = nat (as_int (mn - fp_needs fl mx v))"
  define z where "z = (if has fl DP_F_ZERO \<and> \<not> has fl DP_F_MINUS \<and> 0 < w then w - length sg else 0)"
  define l where "l = (if has fl DP_F_ZERO \<or> has fl DP_F_MINUS then 0 else w)"
  define t where "t = (if has fl DP_F_MINUS then w else 0)"
  have tx: "fp_padded fl (nat (as_int (mn - fp_needs fl mx v))) mx v = replicate l CHR '' '' @ sg @ replicate z CHR ''0'' @ digits False 10 (n div 10 ^ p) @
      (if p = 0 then [] else CHR ''.'' # fp_fraction p (n mod 10 ^ p)) @ replicate t CHR '' ''"
    by (simp add: fp_padded_def Let_def p_def n_def sg_def w_def z_def l_def t_def)
  have "p \<le> 9" unfolding p_def by (rule fp_prec_le)
  then have "\<bar>rat_of_nat n - \<bar>ld_val v\<bar> * 10 ^ p\<bar> \<le> 1 / 2 + 1 / 2 ^ 34"
    by (rule fp_parts [OF assms]) (simp add: n_def)
  moreover have "length (fp_fraction p (n mod 10 ^ p)) = p"
    "num_of 10 (fp_fraction p (n mod 10 ^ p)) = n mod 10 ^ p \<longleftrightarrow> n mod 10 ^ p = 0 \<or> 10 ^ p \<le> 10 * (n mod 10 ^ p)"
    by (simp_all add: fp_fraction_value)
  moreover have "sg = ''-'' \<longleftrightarrow> ld_val v < 0" "length sg \<le> 1" by (simp_all add: sg_def fp_sign_def)
  moreover have "num_of 10 (digits False 10 (n div 10 ^ p)) = n div 10 ^ p" by (rule num_of_digits) simp_all
  moreover have "if has fl DP_F_MINUS then l = 0 \<and> z = 0 else t = 0" by (simp add: l_def z_def t_def)
  ultimately show ?thesis
    unfolding fmtfp_prints [OF assms] tx put_all_eq Let_def p_def [symmetric]
    by (intro exI [of _ l] exI [of _ sg] exI [of _ z] exI [of _ n] exI [of _ t] conjI refl)
qed

lemma fmtfp_correct_witness:
  "\<exists>l sg z t. fmtfp \<lparr>mant = 17, expo = - 4\<rparr> 0 4 0 \<lparr>buffer = [], currlen = 0\<rparr> =
      Some \<lparr>buffer = replicate l CHR '' '' @ sg @ replicate z CHR ''0'' @ ''1.6250'' @ replicate t CHR '' '',
        currlen = int (l + length sg + z + 6 + t)\<rparr> \<and>
     ld_val \<lparr>mant = 17, expo = - 4\<rparr> = 10625 / 10000 \<and> sg \<noteq> ''-'' \<and> num_of 10 ''6250'' \<noteq> 625"
proof -
  let ?v = "\<lparr>mant = 17, expo = - 4\<rparr>" and ?s = "\<lparr>buffer = [], currlen = 0\<rparr>"
  have v: "ld_val ?v = 10625 / 10000" by (simp add: ld_val_def power_int_minus)
  have ok: "fp_ok ?v" using v by (simp add: fp_ok_def ld_ok_def)
  have p: "fp_prec 4 = 4" by (simp add: fp_prec_def)
  obtain l sg z n t where e: "fmtfp ?v 0 4 0 ?s = Some (?s\<lparr>buffer := buffer ?s @ replicate l CHR '' '' @ sg @ replicate z CHR ''0'' @
        digits False 10 (n div 10 ^ 4) @ (if (4 :: nat) = 0 then [] else CHR ''.'' # fp_fraction 4 (n mod 10 ^ 4)) @ replicate t CHR '' '',
        currlen := currlen ?s + int (length (replicate l CHR '' '' @ sg @ replicate z CHR ''0'' @
        digits False 10 (n div 10 ^ 4) @ (if (4 :: nat) = 0 then [] else CHR ''.'' # fp_fraction 4 (n mod 10 ^ 4)) @ replicate t CHR '' ''))\<rparr>)"
      "\<bar>rat_of_nat n - \<bar>ld_val ?v\<bar> * 10 ^ 4\<bar> \<le> 1 / 2 + 1 / 2 ^ 34" "sg = ''-'' \<longleftrightarrow> ld_val ?v < 0"
    using fmtfp_correct [OF ok, of 4 0 0 ?s] unfolding p Let_def by blast
  have "\<bar>rat_of_nat n - 10625\<bar> < 1" using e(2) by (simp add: v)
  then have "rat_of_nat n < rat_of_nat 10626" "rat_of_nat 10624 < rat_of_nat n" by auto
  then have n: "n = 10625" unfolding of_nat_less_iff by simp
  have t: "digits False 10 (n div 10 ^ 4) = ''1''" "fp_fraction 4 (n mod 10 ^ 4) = ''6250''"
    by (simp_all add: n digits.simps digit_char_def fp_fraction_def)
  have "num_of 10 ''6250'' \<noteq> 625" by (simp add: num_of_def digit_val_def)
  then show ?thesis using e(1,3) v unfolding t
    by (intro exI [of _ l] exI [of _ sg] exI [of _ z] exI [of _ t]) (simp add: add.assoc)
qed

text \<open>With the zero flag the place of the sign is taken from the padding twice: seven characters for \<^verbatim>\<open>%08.2f\<close>.\<close>

lemma fmtfp_zero_flag_short:
  "fmtfp \<lparr>mant = - 3, expo = - 1\<rparr> 8 2 DP_F_ZERO \<lparr>buffer = [], currlen = 0\<rparr> = Some \<lparr>buffer = ''-001.50'', currlen = 7\<rparr>"
proof -
  let ?v = "\<lparr>mant = - 3, expo = - 1\<rparr>"
  have v: "ld_val ?v = - 3 / 2" by (simp add: ld_val_def power_int_def)
  then have ok: "fp_ok ?v" by (simp add: fp_ok_def ld_ok_def)
  have "\<bar>rat_of_nat (fp_number 2 ?v) - \<bar>ld_val ?v\<bar> * 10 ^ 2\<bar> \<le> 1 / 2 + 1 / 2 ^ 34" by (rule fp_parts [OF ok, of 2]) simp_all
  then have "\<bar>rat_of_nat (fp_number 2 ?v) - 150\<bar> < 1" by (simp add: v)
  then have "rat_of_nat (fp_number 2 ?v) < rat_of_nat 151" "rat_of_nat 149 < rat_of_nat (fp_number 2 ?v)" by auto
  then have n: "fp_number 2 ?v = 150" unfolding of_nat_less_iff by simp
  have d: "digits False 10 1 = ''1''" "fp_fraction 2 50 = ''50''" "fp_prec 2 = 2"
    by (simp_all add: digits.simps digit_char_def fp_fraction_def fp_prec_def)
  have "fp_number 2 ?v div 10 ^ 2 = 1" "fp_number 2 ?v mod 10 ^ 2 = 50" by (simp_all add: n)
  then have "fp_text DP_F_ZERO 8 2 ?v = ''-001.50''"
    unfolding fp_text_def fp_padded_def fp_needs_def d(3) Let_def by (simp only: d) (simp add: fp_sign_def v has_def DP_F_MINUS_def DP_F_ZERO_def replicate_small)
  then show ?thesis unfolding fmtfp_text [OF ok, of 8, simplified] by (simp add: put_all_eq)
qed

text \<open>
  A string conversion prints the string, or \<^verbatim>\<open><NULL>\<close> for a null pointer, padded with spaces
  on the left or, with the minus flag, on the right to the width asked for, and cut to the
  precision.  The cut is made after the padding: a precision shorter than the padding leaves
  nothing of the string.
\<close>

theorem fmtstr_correct:
  assumes "0 \<le> mn" "mn < 2 ^ 31" "arg_length v < 2 ^ 31"
  shows "fmtstr v fl mn mx s =
     (let x = (case v of None \<Rightarrow> ''<NULL>'' | Some x \<Rightarrow> x);
          pad = replicate (nat (mn - int (length x))) CHR '' '';
          txt = take (nat mx) (if has fl DP_F_MINUS then x @ pad else pad @ x)
      in s\<lparr>buffer := buffer s @ txt, currlen := currlen s + int (length txt)\<rparr>)"
  unfolding fmtstr_prints [OF assms] str_text_def Let_def put_all_eq ..

text \<open>
  A format that ends in \<^verbatim>\<open>%w\<close> makes the interpreter read past the terminating NUL of the
  format: the unsupported conversion skips a character without looking whether there is one.
\<close>

theorem trailing_w_reads_past_end:
  assumes "\<forall>x \<in> set xs. directive_ok x" "int (length (concat (map (directive_text maxlen) xs))) < maxlen"
  shows "vsnprintf buf maxlen (concat (map directive_fmt xs) @ ''%w'') (concat (map directive_args xs)) = None"
proof -
  have w: "dopr_loop maxlen (load [CHR ''%'', CHR ''w'', CHR 0x00] d) = None"
    if d: "at_default d" "currlen (out d) < maxlen" for d :: "dopr_st"
  proof -
    let ?f = "d\<lparr>state := DP_S_FLAGS\<rparr>"
    have "dopr_step maxlen (load [CHR ''%'', CHR ''w'', CHR 0x00] d) = Some (load [CHR ''w'', CHR 0x00] ?f)"
      using d by (simp add: dopr_step_def at_default_def next_ch_load)
    then have "dopr_loop maxlen (load [CHR ''%'', CHR ''w'', CHR 0x00] d) = dopr_loop maxlen (load [CHR ''w'', CHR 0x00] ?f)"
      using d by (simp add: dopr_loop_step at_default_def)
    also have "\<dots> = dopr_loop maxlen (load [CHR ''w'', CHR 0x00] (d\<lparr>state := DP_S_MIN\<rparr>))"
      using flags_loop [of "[]" "CHR ''w''" ?f maxlen "[CHR 0x00]"] d by (simp add: flag_chars_def)
    also have "\<dots> = dopr_loop maxlen (load [CHR ''w'', CHR 0x00]
        (d\<lparr>dmin := 0, dmax := - 1, state := DP_S_CONV\<rparr>))" (is "_ = dopr_loop maxlen ?w")
      using fields_loop [of "CHR ''w''" "d\<lparr>state := DP_S_MIN\<rparr>" maxlen 0 None "[CHR 0x00]"] d
      by (simp add: at_default_def isdigit_char_def)
    also have "\<dots> = None"
    proof -
      have "dopr_step maxlen ?w = None"
        by (simp add: dopr_step_def dopr_conv_def next_ch_load) (simp add: next_ch_def load_def)
      then show ?thesis using d by (subst dopr_loop.simps) simp
    qed
    finally show ?thesis .
  qed
  show ?thesis
    using dopr_directives [OF assms, of "''%w''" "CHR ''%''" "[CHR ''w'', CHR 0x00]" buf] w assms(2)
    by (auto simp: vsnprintf_def)
qed

lemma trailing_w_reads_past_end_witness:
  "vsnprintf [] 100 ''a%w'' [] = None"
  using trailing_w_reads_past_end [of "[Lit CHR ''a'']" 100 "[]"] by simp

text \<open>
  Why the numbers of a directive have to stay below \<open>2 ^ 31\<close>: a precision of \<open>2 ^ 32\<close> is taken for 0, and
  one more for 1.
\<close>

lemma precision_wraps:
  "vsnprintf [] 100 ''%.4294967296s'' [ArgStr (Some ''ok'')] = Some []"
  "vsnprintf [] 100 ''%.4294967297s'' [ArgStr (Some ''ok'')] = Some ''o''"
  by code_simp+

end
