(* ===== verification/Block_IO.thy ===== *)
theory Block_IO
  imports Kernel_Prelude
begin

text \<open>
  Block devices: \<^verbatim>\<open>kernel/block_io.h\<close>, \<^verbatim>\<open>kernel/block_io.cc\<close> and the sector device of
  \<^verbatim>\<open>kernel/ide.h\<close>.  The virtual functions of \<^verbatim>\<open>BlockIO\<close> are the fields of a record; what a
  read puts in the caller's buffer is the list of bytes it writes from the start of the buffer on.
  \<^const>\<open>None\<close> is a failed \<^verbatim>\<open>ASSERT\<close>, a panic or a division by zero.
\<close>

section \<open>The interface and its two read loops\<close>

record block_io =
  block_size :: u32
  size_in_bytes :: u32
  read_block :: "u32 \<Rightarrow> u8 list option"

definition size_in_blocks :: "block_io \<Rightarrow> u32" where
  "size_in_blocks d = (size_in_bytes d + block_size d - 1) div block_size d"

definition assert :: "bool \<Rightarrow> unit option" where
  "assert b = (if b then Some () else None)"

definition bio_read :: "block_io \<Rightarrow> u32 \<Rightarrow> u32 \<Rightarrow> (int \<times> u8 list) option" where
  "bio_read d offset desired_n =
     (let sz = size_in_bytes d in
      if offset > sz then Some (- 1, [])
      else if offset = sz then Some (0, [])
      else do {
        assert (block_size d \<noteq> 0);
        let n = min desired_n (sz - offset);
        let block_number = offset div block_size d;
        let offset_in_block = offset mod block_size d;
        let actual_n = min (block_size d - offset_in_block) n;
        assert (actual_n \<le> n);
        assert (offset + actual_n \<le> sz);
        if actual_n = block_size d then do {
          assert (offset_in_block = 0);
          bytes \<leftarrow> read_block d block_number;
          Some (uint actual_n, bytes) }
        else do {
          assert (offset_in_block + actual_n \<le> block_size d);
          temp \<leftarrow> read_block d block_number;
          Some (uint actual_n, take (unat actual_n) (drop (unat offset_in_block) temp)) } })"

lemma assert_Some [simp]: "assert b = Some x \<longleftrightarrow> b"
  by (simp add: assert_def)

lemma assert_bind [simp]: "(assert b \<bind> f) = (if b then f () else None)"
  by (simp add: assert_def)

lemma bio_read_le: "bio_read d off n = Some (cnt, bs) \<Longrightarrow> cnt \<le> uint n"
proof -
  assume "bio_read d off n = Some (cnt, bs)"
  then have c: "cnt = - 1 \<or> cnt = 0 \<or> cnt = uint (min (block_size d - off mod block_size d) (min n (size_in_bytes d - off)))"
    by (auto simp: bio_read_def Let_def split: if_splits Option.bind_splits)
  have m: "uint (min x (min n y)) \<le> uint n" for x y :: u32
    by (meson min.cobounded1 min.cobounded2 order_trans word_le_def)
  have "(0::int) \<le> uint n" by simp
  then show ?thesis using c by (elim disjE) (linarith, simp, simp add: m)
qed

function bio_read_all :: "block_io \<Rightarrow> u32 \<Rightarrow> u32 \<Rightarrow> int \<Rightarrow> u8 list \<Rightarrow> (int \<times> u8 list) option" where
  "bio_read_all d offset n total_count acc =
     (if n > 0 then
        (case bio_read d offset n of
           None \<Rightarrow> None
         | Some (cnt, bytes) \<Rightarrow>
             if cnt < 0 then Some (cnt, acc)
             else if cnt = 0 then Some (total_count, acc)
             else bio_read_all d (offset + word_of_int cnt) (n - word_of_int cnt) (total_count + cnt) (acc @ bytes))
      else Some (total_count, acc))"
  by pat_completeness auto
termination
proof (relation "measure (\<lambda>(_, _, n, _, _). unat n)")
  fix d :: block_io and offset n :: u32 and total_count acc x2 and cnt :: int and bytes :: "u8 list"
  assume *: "bio_read d offset n = Some x2" "(cnt, bytes) = x2" "\<not> cnt < 0" "cnt \<noteq> 0"
  then have le: "cnt \<le> uint n" using bio_read_le by blast
  have "cnt < 2 ^ 32" using le uint_lt2p [of n] by simp
  then have "uint (word_of_int cnt :: u32) = cnt" using * by (simp add: uint_word_of_int)
  then have "word_of_int cnt \<noteq> (0 :: u32)" "word_of_int cnt \<le> n"
    using le *(4) by (metis unsigned_0, simp add: word_le_def)
  then have "0 < unat (word_of_int cnt :: u32)" "word_of_int cnt \<le> n" by (simp_all add: unat_gt_0)
  then show "((d, offset + word_of_int cnt, n - word_of_int cnt, total_count + cnt, acc @ bytes), d, offset, n, total_count, acc)
       \<in> measure (\<lambda>(_, _, n, _, _). unat n)"
    by (simp add: unat_sub word_le_nat_alt)
qed simp

declare bio_read_all.simps [simp del]

definition read_all :: "block_io \<Rightarrow> u32 \<Rightarrow> u32 \<Rightarrow> (int \<times> u8 list) option" where
  "read_all d offset n = bio_read_all d offset n 0 []"

text \<open>The template \<^verbatim>\<open>read(offset, thing)\<close>, for a thing of \<open>n\<close> bytes.\<close>

definition read_thing :: "block_io \<Rightarrow> u32 \<Rightarrow> u32 \<Rightarrow> u8 list option" where
  "read_thing d offset n = do {
     (cnt, bytes) \<leftarrow> read_all d offset n;
     assert (cnt = uint n);
     Some bytes }"

section \<open>The contract of a block device\<close>

text \<open>One read takes what is left of the block, and no more than is wanted and left.\<close>

definition one_read :: "block_io \<Rightarrow> u32 \<Rightarrow> u32 \<Rightarrow> nat" where
  "one_read d off n = min (unat (block_size d) - unat off mod unat (block_size d)) (min (unat n) (unat (size_in_bytes d) - unat off))"

text \<open>
  A device with the bytes \<open>content\<close>: every block that holds a byte of it is read as the bytes at
  its place.
\<close>

locale block_device =
  fixes d :: block_io and content :: "nat \<Rightarrow> u8"
  assumes block_size_pos: "block_size d \<noteq> 0"
    and read_block_content: "unat k * unat (block_size d) < unat (size_in_bytes d) \<Longrightarrow>
      read_block d k = Some (map content [unat k * unat (block_size d)..<unat k * unat (block_size d) + unat (block_size d)])"
begin

lemma bs_pos: "0 < unat (block_size d)"
  using block_size_pos by (simp add: unat_gt_0)

lemma read_block_at:
  "unat off < unat (size_in_bytes d) \<Longrightarrow> read_block d (off div block_size d) =
     Some (map content [unat off - unat off mod unat (block_size d)..<unat off - unat off mod unat (block_size d) + unat (block_size d)])"
proof -
  assume off: "unat off < unat (size_in_bytes d)"
  have e: "unat (off div block_size d) * unat (block_size d) = unat off - unat off mod unat (block_size d)"
    by (simp add: unat_div minus_mod_eq_div_mult)
  also have "\<dots> < unat (size_in_bytes d)" using off by simp
  finally show ?thesis using read_block_content [of "off div block_size d"] unfolding e by simp
qed

lemma one_read_word:
  "unat off < unat (size_in_bytes d) \<Longrightarrow>
     unat (min (block_size d - off mod block_size d) (min n (size_in_bytes d - off))) = one_read d off n"
proof -
  assume off: "unat off < unat (size_in_bytes d)"
  have um: "unat (min x y) = min (unat x) (unat y)" for x y :: u32 by (simp add: min_def word_le_nat_alt)
  have "unat (off mod block_size d) < unat (block_size d)" using bs_pos by (simp add: unat_mod)
  then have "unat (block_size d - off mod block_size d) = unat (block_size d) - unat off mod unat (block_size d)"
    by (subst unat_sub) (simp_all add: word_le_nat_alt unat_mod)
  moreover have "unat (size_in_bytes d - off) = unat (size_in_bytes d) - unat off"
    using off by (subst unat_sub) (simp_all add: word_le_nat_alt)
  ultimately show ?thesis by (simp add: um one_read_def)
qed

lemma bio_read_correct:
  assumes off: "unat off < unat (size_in_bytes d)"
  shows "bio_read d off n = Some (int (one_read d off n), map content [unat off..<unat off + one_read d off n])"
proof -
  let ?bs = "unat (block_size d)"
  let ?o = "unat off mod ?bs"
  define a where "a = min (block_size d - off mod block_size d) (min n (size_in_bytes d - off))"
  have a: "unat a = one_read d off n" using one_read_word [OF off] by (simp add: a_def)
  have o: "unat (off mod block_size d) = ?o" by (simp add: unat_mod)
  have ob: "?o < ?bs" using bs_pos by simp
  have m: "one_read d off n \<le> ?bs - ?o" "one_read d off n \<le> unat (size_in_bytes d) - unat off" by (simp_all add: one_read_def)
  have 1: "a \<le> min n (size_in_bytes d - off)" unfolding a_def by (rule min.cobounded2)
  have fit: "unat off + unat a < 4294967296" using m off unat_lt_32 [of "size_in_bytes d"] a by linarith
  have 2: "off + a \<le> size_in_bytes d"
    using m off a by (simp add: word_le_nat_alt unat_add_no_wrap [OF fit])
  have fit2: "unat (off mod block_size d) + unat a < 4294967296" using m ob o a unat_lt_32 [of "block_size d"] by linarith
  have 3: "off mod block_size d + a \<le> block_size d"
    using m ob o a by (simp add: word_le_nat_alt unat_add_no_wrap [OF fit2])
  have 4: "off mod block_size d = 0" if "a = block_size d"
  proof -
    have "?bs \<le> ?bs - ?o" using m(1) a that by simp
    then have "?o = 0" using ob by simp
    then show ?thesis using o by (simp add: unat_eq_zero)
  qed
  have ua: "uint a = int (one_read d off n)" using a by (metis uint_nat)
  have slice: "take (unat a) (drop ?o (map content [unat off - ?o..<unat off - ?o + ?bs])) =
      map content [unat off..<unat off + one_read d off n]"
    using a m ob by (simp add: take_map drop_map take_upt)
  have whole: "map content [unat off - ?o..<unat off - ?o + ?bs] = map content [unat off..<unat off + one_read d off n]"
    if "a = block_size d"
  proof -
    have "?o = 0" using 4 [OF that] o by simp
    moreover have "one_read d off n = ?bs" using a that by simp
    ultimately show ?thesis by simp
  qed
  have "\<not> off > size_in_bytes d" "off \<noteq> size_in_bytes d" using off by (auto simp: word_less_nat_alt)
  then show ?thesis
    unfolding bio_read_def Let_def a_def [symmetric] read_block_at [OF off] o
    using 1 2 3 4 ua slice whole block_size_pos by (cases "a = block_size d") simp_all
qed

lemma bio_read_all_correct:
  assumes "unat off \<le> unat (size_in_bytes d)"
  shows "bio_read_all d off n t acc = Some (t + int (min (unat n) (unat (size_in_bytes d) - unat off)),
    acc @ map content [unat off..<unat off + min (unat n) (unat (size_in_bytes d) - unat off)])"
  using assms
proof (induction "unat n" arbitrary: off n t acc rule: less_induct)
  case less
  show ?case
  proof (cases "n = 0 \<or> off = size_in_bytes d")
    case True
    then show ?thesis by (subst bio_read_all.simps) (auto simp: bio_read_def Let_def word_gt_0)
  next
    case False
    let ?m = "one_read d off n"
    have off: "unat off < unat (size_in_bytes d)" using False less.prems by (metis le_neq_implies_less word_unat_eq_iff)
    have n: "0 < n" "0 < unat n" using False by (simp_all add: word_gt_0 unat_gt_0)
    have pos: "0 < ?m" using off n bs_pos by (simp add: one_read_def)
    have le: "?m \<le> unat n" "?m \<le> unat (size_in_bytes d) - unat off" by (simp_all add: one_read_def)
    have w: "unat (word_of_int (int ?m) :: u32) = ?m"
    proof -
      have "?m < 4294967296" using le(1) unat_lt_32 [of n] by linarith
      then show ?thesis by (simp add: unat_of_nat)
    qed
    let ?c = "word_of_int (int ?m) :: u32"
    have o': "unat (off + ?c) = unat off + ?m"
    proof -
      have "unat off + ?m < 4294967296" using le(2) off unat_lt_32 [of "size_in_bytes d"] by linarith
      then show ?thesis using w by (subst unat_add_no_wrap) simp_all
    qed
    have n': "unat (n - ?c) = unat n - ?m" using w le by (subst unat_sub) (simp_all add: word_le_nat_alt)
    have "bio_read_all d off n t acc =
        bio_read_all d (off + ?c) (n - ?c) (t + int ?m) (acc @ map content [unat off..<unat off + ?m])"
      using n pos by (subst bio_read_all.simps) (simp add: bio_read_correct [OF off])
    also have "\<dots> = Some (t + int ?m + int (min (unat (n - ?c)) (unat (size_in_bytes d) - unat (off + ?c))),
        (acc @ map content [unat off..<unat off + ?m]) @
        map content [unat (off + ?c)..<unat (off + ?c) + min (unat (n - ?c)) (unat (size_in_bytes d) - unat (off + ?c))])"
      using less.hyps [of "n - ?c" "off + ?c"] o' n' le pos off n by simp
    also have "\<dots> = Some (t + int (min (unat n) (unat (size_in_bytes d) - unat off)),
        acc @ map content [unat off..<unat off + min (unat n) (unat (size_in_bytes d) - unat off)])"
    proof -
      have "?m + min (unat n - ?m) (unat (size_in_bytes d) - (unat off + ?m)) = min (unat n) (unat (size_in_bytes d) - unat off)"
        using le by simp
      moreover from this have "[unat off..<unat off + min (unat n) (unat (size_in_bytes d) - unat off)] =
          [unat off..<unat off + ?m] @ [unat off + ?m..<unat off + ?m + min (unat n - ?m) (unat (size_in_bytes d) - (unat off + ?m))]"
        using upt_add_eq_append [of "unat off" "unat off + ?m"] by (metis add.assoc le_add1)
      ultimately show ?thesis unfolding o' n' by (simp add: add.assoc flip: of_nat_add)
    qed
    finally show ?thesis .
  qed
qed

lemma read_all_correct:
  "read_all d off n =
     (if n = 0 then Some (0, [])
      else if unat (size_in_bytes d) < unat off then Some (- 1, [])
      else let m = min (unat n) (unat (size_in_bytes d) - unat off) in Some (int m, map content [unat off..<unat off + m]))"
proof (cases "unat (size_in_bytes d) < unat off \<and> n \<noteq> 0")
  case True
  then show ?thesis
    by (simp add: read_all_def) (subst bio_read_all.simps, simp add: bio_read_def word_less_nat_alt word_gt_0 unat_gt_0)
next
  case False
  then show ?thesis
    using bio_read_all_correct [of off n 0 "[]"]
    by (cases "n = 0") (auto simp: read_all_def Let_def bio_read_all.simps)
qed

lemma read_thing_correct:
  assumes "unat off + unat n \<le> unat (size_in_bytes d)"
  shows "read_thing d off n = Some (map content [unat off..<unat off + unat n])"
proof -
  have "read_all d off n = Some (int (unat n), map content [unat off..<unat off + unat n])"
  proof -
    have "min (unat n) (unat (size_in_bytes d) - unat off) = unat n" "\<not> unat (size_in_bytes d) < unat off"
      using assms by linarith+
    then show ?thesis by (simp add: read_all_correct Let_def)
  qed
  then show ?thesis by (simp add: read_thing_def)
qed

end

section \<open>The disk\<close>

text \<open>
  \<^verbatim>\<open>class Ide\<close> as the rest of the kernel sees it: sectors of 512 bytes, a size that is a lie
  (\<^verbatim>\<open>~uint32_t(0)\<close>), and the bytes \<open>disk\<close> of the drive behind it.  A sector number has 28 bits
  on the bus.
\<close>

type_synonym disk = "nat \<Rightarrow> u8"

definition sector_size :: u32 where "sector_size = 512"

definition sector :: "disk \<Rightarrow> nat \<Rightarrow> u8 list" where
  "sector disk k = map disk [k * 512..<k * 512 + 512]"

definition Ide :: "disk \<Rightarrow> block_io" where
  "Ide disk = \<lparr>block_size = sector_size, size_in_bytes = NOT 0, read_block = (\<lambda>k. Some (sector disk (unat k mod 2 ^ 28)))\<rparr>"

lemma Ide_simps [simp]:
  "block_size (Ide disk) = 512" "size_in_bytes (Ide disk) = 0xFFFFFFFF"
  "read_block (Ide disk) k = Some (sector disk (unat k mod 2 ^ 28))"
  by (simp_all add: Ide_def sector_size_def)

interpretation ide: block_device "Ide disk" disk for disk
proof
  show "block_size (Ide disk) \<noteq> 0" by simp
  fix k :: u32
  assume "unat k * unat (block_size (Ide disk)) < unat (size_in_bytes (Ide disk))"
  then have "unat k mod 2 ^ 28 = unat k" by simp
  then show "read_block (Ide disk) k = Some (map disk [unat k * unat (block_size (Ide disk))..<
      unat k * unat (block_size (Ide disk)) + unat (block_size (Ide disk))])"
    by (simp add: sector_def)
qed

section \<open>Properties\<close>

text \<open>
  \<^verbatim>\<open>BlockIO::read_all\<close> on any device that reads its blocks correctly: it returns, and it puts
  in the buffer exactly the bytes from the offset on, as many as were asked for or as are left;
  it gives -1 behind the end of the device, and 0 when nothing is asked for or left.
\<close>

theorem read_all_exact:
  assumes "block_device d content"
  shows "read_all d off n =
     (if n = 0 then Some (0, [])
      else if unat (size_in_bytes d) < unat off then Some (- 1, [])
      else let m = min (unat n) (unat (size_in_bytes d) - unat off) in Some (int m, map content [unat off..<unat off + m]))"
  using block_device.read_all_correct [OF assms] .

lemma read_all_exact_witness:
  "read_all (Ide (\<lambda>i. of_nat i)) 510 4 = Some (4, [0xFE, 0xFF, 0, 1])"
  using read_all_exact [OF ide.block_device_axioms, of "\<lambda>i. of_nat i" 510 4]
  by (simp add: Let_def upt_rec)

end
