(* ===== verification/Ext2.thy ===== *)
theory Ext2
  imports Block_IO
begin

text \<open>
  The file system: \<^verbatim>\<open>kernel/ext2.h\<close> and \<^verbatim>\<open>kernel/ext2.cc\<close>, with the string helpers of
  \<^verbatim>\<open>kernel/libk.cc\<close>.  The on-disk structures are decoded from the bytes the disk returns, field
  by field at the offsets the C layout gives them (little endian).  A node is a block device over
  the disk.  The callback of \<^verbatim>\<open>Node::entries\<close> is a function on a state of its own.
\<close>

section \<open>Strings of the kernel\<close>

text \<open>A C string is the list of its bytes with the NUL; reading behind the list has no result.\<close>

fun strlen_from :: "u8 list \<Rightarrow> int \<Rightarrow> int option" where
  "strlen_from [] n = None"
| "strlen_from (c # cs) n = (if c \<noteq> 0 then strlen_from cs (n + 1) else Some n)"

definition strlen :: "u8 list \<Rightarrow> int option" where
  "strlen s = strlen_from s 0"

fun streq :: "u8 list \<Rightarrow> u8 list \<Rightarrow> bool option" where
  "streq (x # xs) (y # ys) = (if x \<noteq> y then Some False else if x = 0 then Some True else streq xs ys)"
| "streq _ _ = None"

section \<open>On-disk structures\<close>

definition le16 :: "u8 list \<Rightarrow> nat \<Rightarrow> u16" where
  "le16 bs i = ucast (bs ! i) OR push_bit 8 (ucast (bs ! (i + 1)))"

definition le32 :: "u8 list \<Rightarrow> nat \<Rightarrow> u32" where
  "le32 bs i = ucast (bs ! i) OR push_bit 8 (ucast (bs ! (i + 1))) OR push_bit 16 (ucast (bs ! (i + 2))) OR
     push_bit 24 (ucast (bs ! (i + 3)))"

record SuperBlock =
  sb_inodes_count :: u32
  sb_blocks_count :: u32
  sb_reserved_blocks_count :: u32
  sb_free_blocks_count :: u32
  sb_free_inodes_count :: u32
  sb_first_data_block :: u32
  sb_log_block_size :: u32
  sb_log_frag_size :: u32
  sb_blocks_per_group :: u32
  sb_frags_per_group :: u32
  sb_inodes_per_group :: u32
  sb_mtime :: u32
  sb_wtime :: u32
  sb_mnt_count :: u16
  sb_max_mnt_count :: u16
  sb_magic :: u16
  sb_state :: u16
  sb_errors :: u16
  sb_minor_rev_level :: u16
  sb_lastcheck :: u32
  sb_checkinterval :: u32
  sb_creator_os :: u32
  sb_rev_level :: u32
  sb_def_resuid :: u16
  sb_def_resgid :: u16
  sb_first_inode :: u32
  sb_inode_size :: u16
  sb_block_group_nr :: u16
  sb_feature_compat :: u32
  sb_feature_incompat :: u32
  sb_feature_ro_compat :: u32
  sb_uuid :: "u8 list"
  sb_volume_name :: "u8 list"
  sb_algo_bitmap :: u32

definition sizeof_SuperBlock :: u32 where "sizeof_SuperBlock = 140"

definition SuperBlock_of :: "u8 list \<Rightarrow> SuperBlock" where
  "SuperBlock_of bs = \<lparr>
    sb_inodes_count = le32 bs 0, sb_blocks_count = le32 bs 4, sb_reserved_blocks_count = le32 bs 8,
    sb_free_blocks_count = le32 bs 12, sb_free_inodes_count = le32 bs 16,
    sb_first_data_block = le32 bs 20, sb_log_block_size = le32 bs 24, sb_log_frag_size = le32 bs 28,
    sb_blocks_per_group = le32 bs 32, sb_frags_per_group = le32 bs 36, sb_inodes_per_group = le32 bs 40,
    sb_mtime = le32 bs 44, sb_wtime = le32 bs 48, sb_mnt_count = le16 bs 52,
    sb_max_mnt_count = le16 bs 54, sb_magic = le16 bs 56, sb_state = le16 bs 58, sb_errors = le16 bs 60,
    sb_minor_rev_level = le16 bs 62, sb_lastcheck = le32 bs 64, sb_checkinterval = le32 bs 68,
    sb_creator_os = le32 bs 72, sb_rev_level = le32 bs 76, sb_def_resuid = le16 bs 80,
    sb_def_resgid = le16 bs 82, sb_first_inode = le32 bs 84, sb_inode_size = le16 bs 88,
    sb_block_group_nr = le16 bs 90, sb_feature_compat = le32 bs 92, sb_feature_incompat = le32 bs 96,
    sb_feature_ro_compat = le32 bs 100, sb_uuid = take 16 (drop 104 bs),
    sb_volume_name = take 16 (drop 120 bs), sb_algo_bitmap = le32 bs 136\<rparr>"

record BlockGroup =
  bg_block_bitmap :: u32
  bg_inode_bitmap :: u32
  bg_inode_table :: u32
  bg_free_blocks_count :: u16
  bg_free_inodes_count :: u16
  bg_used_dirs_count :: u16
  bg_pad :: u16
  bg_reserved :: "u8 list"

definition sizeof_BlockGroup :: u32 where "sizeof_BlockGroup = 32"

definition BlockGroup_of :: "u8 list \<Rightarrow> BlockGroup" where
  "BlockGroup_of bs = \<lparr>
    bg_block_bitmap = le32 bs 0, bg_inode_bitmap = le32 bs 4, bg_inode_table = le32 bs 8,
    bg_free_blocks_count = le16 bs 12, bg_free_inodes_count = le16 bs 14, bg_used_dirs_count = le16 bs 16,
    bg_pad = le16 bs 18, bg_reserved = take 12 (drop 20 bs)\<rparr>"

text \<open>The twelve words \<^verbatim>\<open>direct0\<close> to \<^verbatim>\<open>direct11\<close> are read through a pointer to the first.\<close>

record NodeData =
  nd_mode :: u16
  nd_uid :: u16
  nd_size_low :: u32
  nd_atime :: u32
  nd_ctime :: u32
  nd_mtime :: u32
  nd_dtime :: u32
  nd_gid :: u16
  nd_n_links :: u16
  nd_n_sectors :: u32
  nd_flags :: u32
  nd_os1 :: u32
  nd_direct :: "u32 list"
  nd_indirect_1 :: u32
  nd_indirect_2 :: u32
  nd_indirect_3 :: u32
  nd_gen :: u32
  nd_reserved1 :: u32
  nd_reserved2 :: u32
  nd_fragment :: u32
  nd_os2 :: "u8 list"

definition sizeof_NodeData :: u32 where "sizeof_NodeData = 128"

definition NodeData_of :: "u8 list \<Rightarrow> NodeData" where
  "NodeData_of bs = \<lparr>
    nd_mode = le16 bs 0, nd_uid = le16 bs 2, nd_size_low = le32 bs 4, nd_atime = le32 bs 8,
    nd_ctime = le32 bs 12, nd_mtime = le32 bs 16, nd_dtime = le32 bs 20, nd_gid = le16 bs 24,
    nd_n_links = le16 bs 26, nd_n_sectors = le32 bs 28, nd_flags = le32 bs 32, nd_os1 = le32 bs 36,
    nd_direct = map (\<lambda>i. le32 bs (40 + 4 * i)) [0..<12], nd_indirect_1 = le32 bs 88,
    nd_indirect_2 = le32 bs 92, nd_indirect_3 = le32 bs 96, nd_gen = le32 bs 100,
    nd_reserved1 = le32 bs 104, nd_reserved2 = le32 bs 108, nd_fragment = le32 bs 112,
    nd_os2 = take 12 (drop 116 bs)\<rparr>"

definition nd_get_type :: "NodeData \<Rightarrow> u16" where
  "nd_get_type n = drop_bit 12 (nd_mode n)"

definition nd_is_dir :: "NodeData \<Rightarrow> bool" where
  "nd_is_dir n \<longleftrightarrow> nd_get_type n = 4"

definition nd_is_file :: "NodeData \<Rightarrow> bool" where
  "nd_is_file n \<longleftrightarrow> nd_get_type n = 8"

definition nd_is_symlink :: "NodeData \<Rightarrow> bool" where
  "nd_is_symlink n \<longleftrightarrow> nd_get_type n = 0xa"

section \<open>Nodes\<close>

record Node =
  node_block_size :: u32
  number :: u32
  data :: NodeData

definition node_size_in_bytes :: "Node \<Rightarrow> u32" where
  "node_size_in_bytes nd = nd_size_low (data nd)"

definition is_dir :: "Node \<Rightarrow> bool" where "is_dir nd \<longleftrightarrow> nd_is_dir (data nd)"

definition is_file :: "Node \<Rightarrow> bool" where "is_file nd \<longleftrightarrow> nd_is_file (data nd)"

definition is_symlink :: "Node \<Rightarrow> bool" where "is_symlink nd \<longleftrightarrow> nd_is_symlink (data nd)"

definition n_links :: "Node \<Rightarrow> u32" where "n_links nd = ucast (nd_n_links (data nd))"

text \<open>\<^verbatim>\<open>get_symbol\<close> is not written: it panics on every node, a symbolic link or not.\<close>

definition get_symbol :: "Node \<Rightarrow> u8 list option" where "get_symbol nd = None"

definition node_block_index :: "disk \<Rightarrow> Node \<Rightarrow> u32 \<Rightarrow> u32 option" where
  "node_block_index disk nd index =
     (let refs_per_block = node_block_size nd div 4 in
      if index < 12 then Some (nd_direct (data nd) ! unat index)
      else if index < 12 + refs_per_block then do {
        bytes \<leftarrow> read_thing (Ide disk) (nd_indirect_1 (data nd) * node_block_size nd + (index - 12) * 4) 4;
        Some (le32 bytes 0) }
      else None)"

definition node_read_block :: "disk \<Rightarrow> Node \<Rightarrow> u32 \<Rightarrow> u8 list option" where
  "node_read_block disk nd index = do {
     assert (node_block_size nd div 512 \<noteq> 0);
     assert (index < nd_n_sectors (data nd) div (node_block_size nd div 512));
     block_index \<leftarrow> node_block_index disk nd index;
     (cnt, bytes) \<leftarrow> read_all (Ide disk) (block_index * node_block_size nd) (node_block_size nd);
     assert (cnt = uint (node_block_size nd));
     Some bytes }"

definition Node_io :: "disk \<Rightarrow> Node \<Rightarrow> block_io" where
  "Node_io disk nd = \<lparr>block_size = node_block_size nd, size_in_bytes = node_size_in_bytes nd,
     read_block = node_read_block disk nd\<rparr>"

text \<open>
  The body of the loop of \<^verbatim>\<open>entries\<close>; a name comes with the NUL the code puts behind it.  A round without
  a result is a panic or a failed assertion.
\<close>

definition entries_round ::
  "disk \<Rightarrow> Node \<Rightarrow> (u32 \<Rightarrow> u8 list \<Rightarrow> 's \<Rightarrow> 's option) \<Rightarrow> u32 \<Rightarrow> 's \<Rightarrow> (u32 \<times> 's) option" where
  "entries_round disk nd work offset s = do {
     inode \<leftarrow> read_thing (Node_io disk nd) offset 4;
     total_size \<leftarrow> read_thing (Node_io disk nd) (offset + 4) 2;
     name_length \<leftarrow> read_thing (Node_io disk nd) (offset + 6) 1;
     (cnt, name) \<leftarrow> read_all (Node_io disk nd) (offset + 8) (ucast (name_length ! 0));
     assert (cnt = uint (name_length ! 0));
     s' \<leftarrow> work (le32 inode 0) (name @ [0]) s;
     Some (offset + ucast (le16 total_size 0), s') }"

text \<open>
  The loop.  No result is a round that fails or a loop that does not end; \<open>entries_after\<close> tells the two
  apart: it is the offset and the callback's state after \<open>n\<close> rounds, each entered because the test held.
\<close>

partial_function (option) entries_loop ::
  "disk \<Rightarrow> Node \<Rightarrow> (u32 \<Rightarrow> u8 list \<Rightarrow> 's \<Rightarrow> 's option) \<Rightarrow> u32 \<Rightarrow> 's \<Rightarrow> 's option" where
  "entries_loop disk nd work offset s =
     (if offset < nd_size_low (data nd) then do {
        (offset', s') \<leftarrow> entries_round disk nd work offset s;
        entries_loop disk nd work offset' s' }
      else Some s)"

primrec entries_after ::
  "nat \<Rightarrow> disk \<Rightarrow> Node \<Rightarrow> (u32 \<Rightarrow> u8 list \<Rightarrow> 's \<Rightarrow> 's option) \<Rightarrow> 's \<Rightarrow> (u32 \<times> 's) option" where
  "entries_after 0 disk nd work s = do { assert (is_dir nd); Some (0, s) }"
| "entries_after (Suc n) disk nd work s = do {
     (offset, s') \<leftarrow> entries_after n disk nd work s;
     assert (offset < nd_size_low (data nd));
     entries_round disk nd work offset s' }"

definition entries :: "disk \<Rightarrow> Node \<Rightarrow> (u32 \<Rightarrow> u8 list \<Rightarrow> 's \<Rightarrow> 's option) \<Rightarrow> 's \<Rightarrow> 's option" where
  "entries disk nd work s = do { assert (is_dir nd); entries_loop disk nd work 0 s }"

text \<open>The two callbacks.\<close>

abbreviation find_work :: "u8 list \<Rightarrow> u32 \<Rightarrow> u8 list \<Rightarrow> u32 \<Rightarrow> u32 option" where
  "find_work name \<equiv> \<lambda>num nm out. do { e \<leftarrow> streq name nm; Some (if e then num else out) }"

abbreviation count_work :: "u32 \<Rightarrow> u8 list \<Rightarrow> u32 \<Rightarrow> u32 option" where
  "count_work \<equiv> \<lambda>num nm c. Some (c + 1)"

definition node_find :: "disk \<Rightarrow> Node \<Rightarrow> u8 list \<Rightarrow> u32 option" where
  "node_find disk nd name = entries disk nd (find_work name) 0"

definition entry_count :: "disk \<Rightarrow> Node \<Rightarrow> u32 option" where
  "entry_count disk nd = do { assert (is_dir nd); entries disk nd count_work 0 }"

section \<open>The file system\<close>

record Ext2 =
  blockSize :: u32
  numberOfNodes :: u32
  numberOfBlocks :: u32
  iNodeSize :: u32
  nGroups :: u32
  iNodeTables :: "u32 list"
  iNodesPerGroup :: u32

definition get_node :: "disk \<Rightarrow> Ext2 \<Rightarrow> u32 \<Rightarrow> Node option" where
  "get_node disk fs num = do {
     assert (num > 0);
     assert (num \<le> numberOfNodes fs);
     let index = num - 1;
     assert (iNodesPerGroup fs \<noteq> 0);
     let groupIndex = index div iNodesPerGroup fs;
     assert (groupIndex < nGroups fs);
     let indexInGroup = index mod iNodesPerGroup fs;
     let iTableBase = iNodeTables fs ! unat groupIndex;
     assert (iTableBase \<le> numberOfBlocks fs);
     let nodeOffset = iTableBase * blockSize fs + indexInGroup * iNodeSize fs;
     bytes \<leftarrow> read_thing (Ide disk) nodeOffset sizeof_NodeData;
     Some \<lparr>node_block_size = blockSize fs, number = num, data = NodeData_of bytes\<rparr> }"

text \<open>
  The constructor: the file system and its root.  A shift by 32 or more has no meaning in C++ and
  no result here.
\<close>

definition Ext2_mount :: "disk \<Rightarrow> (Ext2 \<times> Node) option" where
  "Ext2_mount disk = do {
     sb_bytes \<leftarrow> read_thing (Ide disk) 1024 sizeof_SuperBlock;
     let sb = SuperBlock_of sb_bytes;
     assert (sb_log_block_size sb < 22);
     let bsize = push_bit (unat (sb_log_block_size sb + 10)) 1;
     assert (sb_blocks_per_group sb \<noteq> 0);
     let groups = (sb_blocks_count sb + sb_blocks_per_group sb - 1) div sb_blocks_per_group sb;
     assert (groups * sb_blocks_per_group sb \<ge> sb_blocks_count sb);
     let superBlockNumber = 1024 div bsize;
     let groupTableNumber = superBlockNumber + 1;
     let groupTableSize = sizeof_BlockGroup * groups;
     (cnt, groupTable) \<leftarrow> read_all (Ide disk) (groupTableNumber * bsize) groupTableSize;
     assert (cnt = uint groupTableSize);
     let fs = \<lparr>blockSize = bsize, numberOfNodes = sb_inodes_count sb, numberOfBlocks = sb_blocks_count sb,
       iNodeSize = ucast (sb_inode_size sb), nGroups = groups,
       iNodeTables = map (\<lambda>i. bg_inode_table (BlockGroup_of (drop (32 * i) groupTable))) [0..<unat groups],
       iNodesPerGroup = sb_inodes_per_group sb\<rparr>;
     root \<leftarrow> get_node disk fs 2;
     Some (fs, root) }"

text \<open>\<^verbatim>\<open>Ext2::find\<close>: the outer option is the panic, the inner one the null pointer.\<close>

definition Ext2_find :: "disk \<Rightarrow> Ext2 \<Rightarrow> Node \<Rightarrow> u8 list \<Rightarrow> Node option option" where
  "Ext2_find disk fs dir name = do {
     num \<leftarrow> node_find disk dir name;
     if num = 0 then Some None
     else do { nd \<leftarrow> get_node disk fs num; Some (Some nd) } }"

section \<open>A file is the sequence of its blocks\<close>

text \<open>The disk block of block \<open>i\<close> of a node, and byte \<open>i\<close> of its contents.\<close>

definition node_blk :: "disk \<Rightarrow> Node \<Rightarrow> nat \<Rightarrow> nat" where
  "node_blk disk nd i =
     (if i < 12 then unat (nd_direct (data nd) ! i)
      else let o1 = unat (nd_indirect_1 (data nd)) * unat (node_block_size nd) + 4 * (i - 12) in
        unat (le32 (map disk [o1..<o1 + 4]) 0))"

definition file_byte :: "disk \<Rightarrow> Node \<Rightarrow> nat \<Rightarrow> u8" where
  "file_byte disk nd i = (let bs = unat (node_block_size nd) in disk (node_blk disk nd (i div bs) * bs + i mod bs))"

text \<open>
  A node whose size fits its sectors, the twelve direct and the singly indirect blocks, and whose
  blocks lie on the disk.
\<close>

definition node_ok :: "disk \<Rightarrow> Node \<Rightarrow> bool" where
  "node_ok disk nd \<longleftrightarrow>
     (let bs = unat (node_block_size nd); sz = unat (node_size_in_bytes nd) in
      512 \<le> bs \<and>
      sz \<le> unat (nd_n_sectors (data nd)) div (bs div 512) * bs \<and>
      sz \<le> (12 + bs div 4) * bs \<and>
      (\<forall>i < 12 + bs div 4. i * bs < sz \<longrightarrow> node_blk disk nd i * bs + bs \<le> 0xFFFFFFFF) \<and>
      (12 * bs < sz \<longrightarrow> unat (nd_indirect_1 (data nd)) * bs + bs \<le> 0xFFFFFFFF))"

lemma node_okD:
  assumes "node_ok disk nd"
  shows "512 \<le> unat (node_block_size nd)"
    and "unat (node_size_in_bytes nd) \<le>
      unat (nd_n_sectors (data nd)) div (unat (node_block_size nd) div 512) * unat (node_block_size nd)"
    and "unat (node_size_in_bytes nd) \<le> (12 + unat (node_block_size nd) div 4) * unat (node_block_size nd)"
    and "i < 12 + unat (node_block_size nd) div 4 \<Longrightarrow> i * unat (node_block_size nd) < unat (node_size_in_bytes nd) \<Longrightarrow>
      node_blk disk nd i * unat (node_block_size nd) + unat (node_block_size nd) \<le> 0xFFFFFFFF"
    and "12 * unat (node_block_size nd) < unat (node_size_in_bytes nd) \<Longrightarrow>
      unat (nd_indirect_1 (data nd)) * unat (node_block_size nd) + unat (node_block_size nd) \<le> 0xFFFFFFFF"
  using assms unfolding node_ok_def Let_def by blast+

lemma Node_io_simps [simp]:
  "block_size (Node_io disk nd) = node_block_size nd" "size_in_bytes (Node_io disk nd) = node_size_in_bytes nd"
  "read_block (Node_io disk nd) = node_read_block disk nd"
  by (simp_all add: Node_io_def)

lemma unat_mult_no_wrap: "unat x * unat y < 4294967296 \<Longrightarrow> unat (x * y :: u32) = unat x * unat y"
  by (simp add: unat_word_ariths)

lemma map_shift: "map (\<lambda>i. f (i - a + b)) [a..<a + n] = map f [b..<b + n]"
  by (rule nth_equalityI) (simp_all add: add.commute)

lemma file_block:
  assumes "0 < unat (node_block_size nd)"
  defines "bs \<equiv> unat (node_block_size nd)"
  shows "map (file_byte disk nd) [k * bs..<k * bs + bs] = map disk [node_blk disk nd k * bs..<node_blk disk nd k * bs + bs]"
proof (rule nth_equalityI)
  fix i
  assume "i < length (map (file_byte disk nd) [k * bs..<k * bs + bs])"
  then have i: "i < bs" by simp
  then have "(k * bs + i) div bs = k" "(k * bs + i) mod bs = i" by simp_all
  then show "map (file_byte disk nd) [k * bs..<k * bs + bs] ! i =
      map disk [node_blk disk nd k * bs..<node_blk disk nd k * bs + bs] ! i"
    using i by (simp add: file_byte_def Let_def bs_def [symmetric])
qed simp

lemma node_block_index_correct:
  assumes ok: "node_ok disk nd" and k: "unat k * unat (node_block_size nd) < unat (node_size_in_bytes nd)"
  shows "\<exists>b. node_block_index disk nd k = Some b \<and> unat b = node_blk disk nd (unat k)"
proof (cases "k < 12")
  case True
  then have "unat k < 12" by (simp add: word_less_nat_alt)
  then show ?thesis using True by (simp add: node_block_index_def Let_def node_blk_def)
next
  case False
  let ?bs = "unat (node_block_size nd)"
  let ?ind = "nd_indirect_1 (data nd)"
  have n12: "\<not> unat k < 12" using False by (simp add: word_less_nat_alt)
  have bs: "0 < ?bs" and sz: "unat (node_size_in_bytes nd) \<le> (12 + ?bs div 4) * ?bs" using node_okD(1,3) [OF ok] by linarith+
  have "unat k * ?bs < (12 + ?bs div 4) * ?bs" using k sz by linarith
  then have kr: "unat k < 12 + ?bs div 4" by simp
  have refs: "unat (12 + node_block_size nd div 4) = 12 + ?bs div 4"
  proof -
    have d: "unat (node_block_size nd div 4) = ?bs div 4" by (simp add: unat_div)
    have "12 + ?bs div 4 < 4294967296" using unat_lt_32 [of "node_block_size nd"] by linarith
    then show ?thesis using d unat_add_no_wrap [of 12 "node_block_size nd div 4"] by simp
  qed
  have "12 * ?bs \<le> unat k * ?bs" using n12 by simp
  then have ib: "unat ?ind * ?bs + ?bs \<le> 0xFFFFFFFF" using k by (intro node_okD(5) [OF ok]) linarith
  have sub: "unat (k - 12) = unat k - 12" using False by (subst unat_sub) (simp_all add: word_le_nat_alt word_less_nat_alt)
  have in4: "4 * (unat k - 12) + 4 \<le> ?bs" using kr n12 by linarith
  have m1: "unat (?ind * node_block_size nd) = unat ?ind * ?bs" using ib by (intro unat_mult_no_wrap) linarith
  have m2: "unat ((k - 12) * 4) = 4 * (unat k - 12)"
  proof -
    have "unat k - 12 < 1073741824" using in4 unat_lt_32 [of "node_block_size nd"] by linarith
    then show ?thesis using sub by (subst unat_mult_no_wrap) simp_all
  qed
  have off: "unat (?ind * node_block_size nd + (k - 12) * 4) = unat ?ind * ?bs + 4 * (unat k - 12)" (is "unat ?o = ?p")
    using m1 m2 ib in4 by (subst unat_add_no_wrap) simp_all
  have "read_thing (Ide disk) ?o 4 = Some (map disk [?p..<?p + 4])"
  proof -
    have "unat ?o + unat (4 :: u32) \<le> unat (size_in_bytes (Ide disk))" unfolding off using ib in4 by simp
    from ide.read_thing_correct [OF this] show ?thesis unfolding off by simp
  qed
  then show ?thesis
    using False kr refs n12 by (simp add: node_block_index_def Let_def node_blk_def word_less_nat_alt)
qed

lemma node_block_device:
  assumes ok: "node_ok disk nd"
  shows "block_device (Node_io disk nd) (file_byte disk nd)"
proof
  let ?bs = "unat (node_block_size nd)"
  have bs: "512 \<le> ?bs" using node_okD(1) [OF ok] .
  then show "block_size (Node_io disk nd) \<noteq> 0" by auto
  fix k :: u32
  assume "unat k * unat (block_size (Node_io disk nd)) < unat (size_in_bytes (Node_io disk nd))"
  then have k: "unat k * ?bs < unat (node_size_in_bytes nd)" by simp
  obtain b where b: "node_block_index disk nd k = Some b" "unat b = node_blk disk nd (unat k)"
    using node_block_index_correct [OF ok k] by blast
  have "unat k * ?bs < (12 + ?bs div 4) * ?bs" using k node_okD(3) [OF ok] by linarith
  then have "unat k < 12 + ?bs div 4" by simp
  then have fit: "unat b * ?bs + ?bs \<le> 0xFFFFFFFF" using node_okD(4) [OF ok _ k] b by simp
  have m: "unat (b * node_block_size nd) = unat b * ?bs" using fit by (intro unat_mult_no_wrap) linarith
  have "unat k * ?bs < unat (nd_n_sectors (data nd)) div (?bs div 512) * ?bs" using k node_okD(2) [OF ok] by linarith
  then have sect: "k < nd_n_sectors (data nd) div (node_block_size nd div 512)" by (simp add: word_less_nat_alt unat_div)
  have "unat (node_block_size nd div 512) \<noteq> 0" using bs by (simp add: unat_div)
  then have d: "node_block_size nd div 512 \<noteq> 0" by (metis unat_0)
  have nz: "node_block_size nd \<noteq> 0" using bs by auto
  have lim: "min ?bs (0xFFFFFFFF - unat b * ?bs) = ?bs" "\<not> 0xFFFFFFFF < unat b * ?bs" using fit by linarith+
  have "read_all (Ide disk) (b * node_block_size nd) (node_block_size nd) =
      Some (int ?bs, map disk [unat b * ?bs..<unat b * ?bs + ?bs])"
    using ide.read_all_correct [of disk "b * node_block_size nd" "node_block_size nd"] m nz lim by (simp add: Let_def)
  then show "read_block (Node_io disk nd) k = Some (map (file_byte disk nd)
      [unat k * unat (block_size (Node_io disk nd))..<unat k * unat (block_size (Node_io disk nd)) + unat (block_size (Node_io disk nd))])"
    using b sect d bs file_block [of nd disk "unat k"] by (simp add: node_read_block_def)
qed

section \<open>Directories\<close>

text \<open>
  The entries of a directory, each an inode number, a name and the distance to the next entry, as
  they lie in the bytes \<open>c\<close> from \<open>off\<close> to \<open>sz\<close>.
\<close>

type_synonym dirent = "u32 \<times> u8 list \<times> nat"

fun dir_layout :: "(nat \<Rightarrow> u8) \<Rightarrow> nat \<Rightarrow> dirent list \<Rightarrow> nat \<Rightarrow> bool" where
  "dir_layout c off [] sz \<longleftrightarrow> off = sz"
| "dir_layout c off ((ino, nm, len) # es) sz \<longleftrightarrow>
     le32 (map c [off..<off + 4]) 0 = ino \<and> unat (le16 (map c [off + 4..<off + 6]) 0) = len \<and>
     unat (c (off + 6)) = length nm \<and> map c [off + 8..<off + 8 + length nm] = nm \<and>
     8 + length nm \<le> len \<and> dir_layout c (off + len) es sz"

fun each :: "(u32 \<Rightarrow> u8 list \<Rightarrow> 's \<Rightarrow> 's option) \<Rightarrow> dirent list \<Rightarrow> 's \<Rightarrow> 's option" where
  "each work [] s = Some s"
| "each work ((ino, nm, len) # es) s = do { s' \<leftarrow> work ino (nm @ [0]) s; each work es s' }"

lemma dir_layout_le: "dir_layout c off es sz \<Longrightarrow> off \<le> sz"
  by (induction c off es sz rule: dir_layout.induct) auto

lemma le32_map: "j + 4 \<le> n \<Longrightarrow> le32 (map c [a..<a + n]) j =
    ucast (c (a + j)) OR push_bit 8 (ucast (c (a + j + 1))) OR push_bit 16 (ucast (c (a + j + 2))) OR push_bit 24 (ucast (c (a + j + 3)))"
  by (simp add: le32_def add.assoc)

lemma le16_map: "j + 2 \<le> n \<Longrightarrow> le16 (map c [a..<a + n]) j = ucast (c (a + j)) OR push_bit 8 (ucast (c (a + j + 1)))"
  by (simp add: le16_def add.assoc)

abbreviation word_on :: "disk \<Rightarrow> nat \<Rightarrow> u32" where
  "word_on c a \<equiv> ucast (c a) OR push_bit 8 (ucast (c (a + 1))) OR push_bit 16 (ucast (c (a + 2))) OR push_bit 24 (ucast (c (a + 3)))"

lemma le32_at: "le32 (map c [a..<a + 4]) 0 =
    ucast (c a) OR push_bit 8 (ucast (c (a + 1))) OR push_bit 16 (ucast (c (a + 2))) OR push_bit 24 (ucast (c (a + 3)))"
  by (simp add: le32_def)

lemma le16_at: "le16 (map c [a..<a + 2]) 0 = ucast (c a) OR push_bit 8 (ucast (c (a + 1)))"
  by (simp add: le16_def)

lemma unat_ucast_8: "unat (ucast (m :: u8) :: u32) = unat m"
proof -
  have "unat m < 2 ^ 32" using unsigned_less [of m, where ?'a = nat] by simp
  then show ?thesis by (simp add: unsigned_ucast_eq take_bit_nat_eq_self)
qed

lemma unat_ucast_16: "unat (ucast (m :: u16) :: u32) = unat m"
proof -
  have "unat m < 2 ^ 32" using unsigned_less [of m, where ?'a = nat] by simp
  then show ?thesis by (simp add: unsigned_ucast_eq take_bit_nat_eq_self)
qed

lemma node_read_thing:
  assumes "node_ok disk nd" "unat off + k + unat n \<le> unat (node_size_in_bytes nd)" "k < 16"
  shows "read_thing (Node_io disk nd) (off + of_nat k) n =
    Some (map (file_byte disk nd) [unat off + k..<unat off + k + unat n])"
proof -
  have "unat (of_nat k :: u32) = k" using assms(3) by (simp add: unat_of_nat)
  moreover have "unat off + k < 4294967296" using assms(2) unat_lt_32 [of "node_size_in_bytes nd"] by linarith
  ultimately have o: "unat (off + of_nat k) = unat off + k" by (simp add: unat_add_no_wrap)
  have "unat (off + of_nat k) + unat n \<le> unat (size_in_bytes (Node_io disk nd))" using assms(2) by (simp add: o)
  from block_device.read_thing_correct [OF node_block_device [OF assms(1)] this] show ?thesis by (simp add: o)
qed

lemma node_read_name:
  assumes ok: "node_ok disk nd" and fit: "unat off + 8 + unat m \<le> unat (node_size_in_bytes nd)"
  shows "read_all (Node_io disk nd) (off + 8) (ucast (m :: u8)) =
    Some (uint m, map (file_byte disk nd) [unat off + 8..<unat off + 8 + unat m])"
proof -
  have "unat off + 8 < 4294967296" using fit unat_lt_32 [of "node_size_in_bytes nd"] by linarith
  then have o: "unat (off + 8) = unat off + 8" by (simp add: unat_add_no_wrap)
  have m: "unat (ucast m :: u32) = unat m" by (rule unat_ucast_8)
  have lim: "min (unat m) (unat (node_size_in_bytes nd) - (unat off + 8)) = unat m" "\<not> unat (node_size_in_bytes nd) < unat off + 8"
    using fit by linarith+
  have "ucast m = (0 :: u32) \<longleftrightarrow> m = 0" using m by (metis unat_eq_zero)
  then show ?thesis
    using block_device.read_all_correct [OF node_block_device [OF ok], of "off + 8" "ucast m"]
    by (cases "m = 0") (simp_all add: o m lim Let_def)
qed

text \<open>One round reads the entry at its offset, wherever the entry says the next one is.\<close>

lemma entries_round_reads:
  assumes ok: "node_ok disk nd" and fit: "unat off + 8 + unat (file_byte disk nd (unat off + 6)) \<le> unat (node_size_in_bytes nd)"
  shows "off < nd_size_low (data nd)"
    "entries_round disk nd work off s = do {
       s' \<leftarrow> work (le32 (map (file_byte disk nd) [unat off..<unat off + 4]) 0)
         (map (file_byte disk nd) [unat off + 8..<unat off + 8 + unat (file_byte disk nd (unat off + 6))] @ [0]) s;
       Some (off + ucast (le16 (map (file_byte disk nd) [unat off + 4..<unat off + 6]) 0), s') }"
proof -
  let ?c = "file_byte disk nd"
  let ?o = "unat off"
  show "off < nd_size_low (data nd)" using fit by (simp add: word_less_nat_alt node_size_in_bytes_def)
  have "read_thing (Node_io disk nd) off 4 = Some (map ?c [?o..<?o + 4])"
    using node_read_thing [OF ok, of off 0 4] fit by simp
  moreover have "read_thing (Node_io disk nd) (off + 4) 2 = Some (map ?c [?o + 4..<?o + 6])"
    using node_read_thing [OF ok, of off 4 2] fit by (simp add: add.commute)
  moreover have "read_thing (Node_io disk nd) (off + 6) 1 = Some [?c (?o + 6)]"
    using node_read_thing [OF ok, of off 6 1] fit by (simp add: upt_rec)
  ultimately show "entries_round disk nd work off s = do {
       s' \<leftarrow> work (le32 (map ?c [?o..<?o + 4]) 0) (map ?c [?o + 8..<?o + 8 + unat (?c (?o + 6))] @ [0]) s;
       Some (off + ucast (le16 (map ?c [?o + 4..<?o + 6]) 0), s') }"
    using node_read_name [OF ok fit] by (simp add: entries_round_def)
qed

text \<open>One entry is read as it is laid out.\<close>

lemma entries_entry:
  assumes ok: "node_ok disk nd" and lay: "dir_layout (file_byte disk nd) (unat off) ((ino, nm, len) # es) sz"
    and sz: "sz \<le> unat (node_size_in_bytes nd)"
  shows "entries_round disk nd work off s = do { s' \<leftarrow> work ino (nm @ [0]) s; Some (off + of_nat len, s') }"
    "off < nd_size_low (data nd)" "unat (off + of_nat len) = unat off + len"
proof -
  let ?c = "file_byte disk nd"
  let ?o = "unat off"
  have l: "le32 (map ?c [?o..<?o + 4]) 0 = ino" "unat (le16 (map ?c [?o + 4..<?o + 6]) 0) = len"
    "unat (?c (?o + 6)) = length nm" "map ?c [?o + 8..<?o + 8 + length nm] = nm" "8 + length nm \<le> len"
    and nx: "?o + len \<le> sz"
    using lay dir_layout_le by auto
  have r: "?o + len \<le> unat (node_size_in_bytes nd)" using nx sz by linarith
  have len: "len < 65536" using l(2) unsigned_less [of "le16 (map ?c [?o + 4..<?o + 6]) 0"] by auto
  have ulen: "unat (of_nat len :: u32) = len" using len by (simp add: unat_of_nat)
  show "unat (off + of_nat len) = ?o + len"
  proof -
    have "?o + len < 4294967296" using r unat_lt_32 [of "node_size_in_bytes nd"] by linarith
    then show ?thesis using ulen by (simp add: unat_add_no_wrap)
  qed
  have t: "ucast (le16 (map ?c [?o + 4..<?o + 6]) 0) = (of_nat len :: u32)"
    using l(2) by (metis unat_ucast_16 word_unat_eq_iff ulen)
  have fit: "?o + 8 + unat (?c (?o + 6)) \<le> unat (node_size_in_bytes nd)" using r l(3,5) by linarith
  show "off < nd_size_low (data nd)" by (rule entries_round_reads(1) [OF ok fit])
  show "entries_round disk nd work off s = do { s' \<leftarrow> work ino (nm @ [0]) s; Some (off + of_nat len, s') }"
    using entries_round_reads(2) [OF ok fit, of work s] by (simp add: l(1,3,4) t)
qed

lemma entries_loop_entry:
  assumes "node_ok disk nd" "dir_layout (file_byte disk nd) (unat off) ((ino, nm, len) # es) sz"
    "sz \<le> unat (node_size_in_bytes nd)"
  shows "entries_loop disk nd work off s = do { s' \<leftarrow> work ino (nm @ [0]) s; entries_loop disk nd work (off + of_nat len) s' }"
    "unat (off + of_nat len) = unat off + len"
proof -
  show "entries_loop disk nd work off s = do { s' \<leftarrow> work ino (nm @ [0]) s; entries_loop disk nd work (off + of_nat len) s' }"
    using entries_entry(1) [OF assms, of work s] entries_entry(2) [OF assms] by (subst entries_loop.simps) simp
qed (rule entries_entry(3) [OF assms])

lemma entries_loop_prefix:
  assumes "node_ok disk nd" "dir_layout (file_byte disk nd) (unat off) es (unat o')" "unat o' \<le> unat (node_size_in_bytes nd)"
  shows "entries_loop disk nd work off s = do { s' \<leftarrow> each work es s; entries_loop disk nd work o' s' }"
  using assms(2)
proof (induction es arbitrary: off s)
  case Nil
  then have "off = o'" by (simp add: word_unat_eq_iff)
  then show ?case by simp
next
  case (Cons e es)
  obtain ino nm len where e: "e = (ino, nm, len)" by (cases e)
  note step = entries_loop_entry [OF assms(1) Cons.prems [unfolded e] assms(3)]
  have "dir_layout (file_byte disk nd) (unat (off + of_nat len)) es (unat o')"
    using Cons.prems step(2) by (simp add: e)
  then have "entries_loop disk nd work (off + of_nat len) = (\<lambda>s. do { s' \<leftarrow> each work es s; entries_loop disk nd work o' s' })"
    by (intro ext Cons.IH)
  then show ?case by (simp add: e step(1))
qed

lemma streq_strings:
  "0 \<notin> set w \<Longrightarrow> 0 \<notin> set v \<Longrightarrow> streq (w @ [0]) (v @ [0]) = Some (w = v)"
proof (induction w arbitrary: v)
  case Nil
  then show ?case by (cases v) auto
next
  case (Cons x w)
  then show ?case by (cases v) auto
qed

lemma strlen_string: "0 \<notin> set w \<Longrightarrow> strlen (w @ [0]) = Some (int (length w))"
proof -
  have "0 \<notin> set w \<Longrightarrow> strlen_from (w @ [0]) n = Some (n + int (length w))" for n
    by (induction w arbitrary: n) auto
  then show "0 \<notin> set w \<Longrightarrow> strlen (w @ [0]) = Some (int (length w))" by (simp add: strlen_def)
qed

definition last_named :: "u8 list \<Rightarrow> dirent list \<Rightarrow> u32" where
  "last_named w es = (case find (\<lambda>(ino, nm, len). nm = w) (rev es) of None \<Rightarrow> 0 | Some (ino, nm, len) \<Rightarrow> ino)"

lemma each_find:
  assumes "0 \<notin> set w" "\<forall>(ino, nm, len) \<in> set es. 0 \<notin> set nm"
  shows "each (find_work (w @ [0])) es out =
    Some (case find (\<lambda>(ino, nm, len). nm = w) (rev es) of None \<Rightarrow> out | Some (ino, nm, len) \<Rightarrow> ino)"
  using assms(2)
proof (induction es arbitrary: out)
  case (Cons e es)
  obtain ino nm len where e: "e = (ino, nm, len)" by (cases e)
  have "find P (xs @ [y]) = (case find P xs of None \<Rightarrow> if P y then Some y else None | Some z \<Rightarrow> Some z)" for P xs and y :: dirent
    by (induction xs) auto
  then show ?case using Cons assms(1) by (auto simp: e streq_strings split: option.splits)
qed simp

lemma each_count: "each count_work es c = Some (c + of_nat (length es))"
  by (induction es arbitrary: c) (auto simp: algebra_simps)

lemma entries_loop_end:
  "unat o' = unat (node_size_in_bytes nd) \<Longrightarrow> entries_loop disk nd work o' s = Some s"
  by (subst entries_loop.simps) (simp add: node_size_in_bytes_def word_less_nat_alt)

lemma entries_layout:
  fixes s :: u32
  assumes "node_ok disk nd" "dir_layout (file_byte disk nd) 0 es (unat (node_size_in_bytes nd))"
  shows "entries_loop disk nd work 0 s = each work es s"
  using entries_loop_prefix [OF assms(1), of 0 es "node_size_in_bytes nd" work s] assms(2)
  by (simp add: entries_loop_end bind_rzero)

lemma node_find_layout:
  assumes "node_ok disk nd" "is_dir nd" "dir_layout (file_byte disk nd) 0 es (unat (node_size_in_bytes nd))"
    "\<forall>(ino, nm, len) \<in> set es. 0 \<notin> set nm" "0 \<notin> set w"
  shows "node_find disk nd (w @ [0]) =
    Some (case find (\<lambda>(ino, nm, len). nm = w) (rev es) of None \<Rightarrow> 0 | Some (ino, nm, len) \<Rightarrow> ino)"
  using assms(2) each_find [OF assms(5,4)] by (simp add: node_find_def entries_def entries_layout [OF assms(1,3)])

text \<open>Rounds over the entries of a layout, and rounds that stay where they are.\<close>

lemma entries_after_layout:
  assumes "node_ok disk nd" "dir_layout (file_byte disk nd) (unat off) es (unat o')" "unat o' \<le> unat (node_size_in_bytes nd)"
    "entries_after k disk nd work s0 = Some (off, s)" "each work es s = Some s'"
  shows "entries_after (k + length es) disk nd work s0 = Some (o', s')"
  using assms(2,4,5)
proof (induction es arbitrary: off s k)
  case Nil
  then show ?case by (simp add: word_unat_eq_iff)
next
  case (Cons e es)
  obtain ino nm len where e: "e = (ino, nm, len)" by (cases e)
  note step = entries_entry [OF assms(1) Cons.prems(1) [unfolded e] assms(3)]
  obtain t where t: "work ino (nm @ [0]) s = Some t" "each work es t = Some s'"
    using Cons.prems(3) by (auto simp: e split: Option.bind_splits)
  have "dir_layout (file_byte disk nd) (unat (off + of_nat len)) es (unat o')"
    using Cons.prems(1) step(3) by (simp add: e)
  moreover have "entries_after (Suc k) disk nd work s0 = Some (off + of_nat len, t)"
    using Cons.prems(2) step(1) [of work s] step(2) t(1) by simp
  ultimately show ?case using Cons.IH [of "off + of_nat len" "Suc k" t] t(2) by simp
qed

lemma entries_after_earlier: "entries_after N disk nd work s \<noteq> None \<Longrightarrow> n \<le> N \<Longrightarrow> entries_after n disk nd work s \<noteq> None"
proof (induction N)
  case (Suc N)
  then show ?case by (cases "n = Suc N") (auto split: Option.bind_splits)
qed simp

text \<open>A loop whose rounds never end returns nothing.\<close>

lemma entries_loop_returns:
  fixes work :: "u32 \<Rightarrow> u8 list \<Rightarrow> 's \<Rightarrow> 's option" and s0 :: 's
  shows "entries_loop disk nd work off s = Some r \<Longrightarrow>
   (\<forall>n. entries_after n disk nd work s0 = Some (off, s) \<longrightarrow> (\<exists>m o' s'. entries_after m disk nd work s0 = Some (o', s') \<and> \<not> o' < nd_size_low (data nd)))"
proof (rule entries_loop.raw_induct [where P = "\<lambda>disk nd work off s r.
    \<forall>n. entries_after n disk nd work s0 = Some (off, s) \<longrightarrow>
      (\<exists>m o' s'. entries_after m disk nd work s0 = Some (o', s') \<and> \<not> o' < nd_size_low (data nd))", rotated], assumption)
  fix loop :: "disk \<Rightarrow> Node \<Rightarrow> (u32 \<Rightarrow> u8 list \<Rightarrow> 's \<Rightarrow> 's option) \<Rightarrow> u32 \<Rightarrow> 's \<Rightarrow> 's option" and disk nd work off s r
  assume IH: "\<And>disk nd work off s r. loop disk nd work off s = Some r \<Longrightarrow>
      \<forall>n. entries_after n disk nd work s0 = Some (off, s) \<longrightarrow>
        (\<exists>m o' s'. entries_after m disk nd work s0 = Some (o', s') \<and> \<not> o' < nd_size_low (data nd))"
    and run: "(if off < nd_size_low (data nd) then do { (off', s') \<leftarrow> entries_round disk nd work off s; loop disk nd work off' s' }
      else Some s) = Some r"
  show "\<forall>n. entries_after n disk nd work s0 = Some (off, s) \<longrightarrow>
      (\<exists>m o' s'. entries_after m disk nd work s0 = Some (o', s') \<and> \<not> o' < nd_size_low (data nd))"
  proof (intro allI impI)
    fix n
    assume n: "entries_after n disk nd work s0 = Some (off, s)"
    show "\<exists>m o' s'. entries_after m disk nd work s0 = Some (o', s') \<and> \<not> o' < nd_size_low (data nd)"
    proof (cases "off < nd_size_low (data nd)")
      case True
      then obtain off' s' where r: "entries_round disk nd work off s = Some (off', s')" "loop disk nd work off' s' = Some r"
        using run by (auto split: Option.bind_splits)
      then have "entries_after (Suc n) disk nd work s0 = Some (off', s')" using n True by simp
      then show ?thesis using IH [OF r(2)] by blast
    qed (use n in blast)
  qed
qed

lemma entries_never_return:
  assumes "\<forall>n. \<exists>o' s'. entries_after n disk nd work s = Some (o', s') \<and> o' < nd_size_low (data nd)"
  shows "entries disk nd work s = None"
proof -
  have "entries_after 0 disk nd work s = Some (0, s)" using assms [THEN spec, of 0] by (auto split: if_splits)
  then have "entries_loop disk nd work 0 s = None"
    using entries_loop_returns [of disk nd work 0 s _ s] assms by (metis fst_conv not_Some_eq option.inject prod.inject)
  then show ?thesis by (simp add: entries_def split: Option.bind_splits)
qed

lemma streq_ends: "0 \<in> set w \<Longrightarrow> 0 \<in> set v \<Longrightarrow> streq w v \<noteq> None"
  by (induction w v rule: streq.induct) auto

lemma each_runs: "(\<And>num nm s. work num (nm @ [0]) s \<noteq> None) \<Longrightarrow> each work es s \<noteq> None"
proof (induction es arbitrary: s)
  case (Cons e es)
  obtain ino nm len where e: "e = (ino, nm, len)" by (cases e)
  obtain t where "work ino (nm @ [0]) s = Some t" using Cons.prems [of ino nm s] by auto
  then show ?case using Cons.IH [OF Cons.prems, of t] by (simp add: e)
qed simp

text \<open>An entry with the distance 0 is read again and again.\<close>

lemma zero_distance_rounds:
  assumes ok: "node_ok disk nd" and dir: "is_dir nd" and lay: "dir_layout (file_byte disk nd) 0 es (unat (off :: u32))"
    and fit: "unat off + 8 + unat (file_byte disk nd (unat off + 6)) \<le> unat (node_size_in_bytes nd)"
    and zero: "le16 (map (file_byte disk nd) [unat off + 4..<unat off + 6]) 0 = 0"
    and work: "\<And>num nm s. work num (nm @ [0]) s \<noteq> None"
  shows "\<forall>n. \<exists>o' s'. entries_after n disk nd work s = Some (o', s') \<and> o' < nd_size_low (data nd)"
proof
  fix n
  obtain s1 where s1: "each work es s = Some s1" using each_runs [of work es s] work by blast
  have start: "entries_after (length es) disk nd work s = Some (off, s1)"
    using entries_after_layout [OF ok, of 0 es off 0 work s s s1] lay fit dir s1 by simp
  have stay: "\<exists>s'. entries_after (length es + k) disk nd work s = Some (off, s')" for k
  proof (induction k)
    case (Suc k)
    then obtain s2 where s2: "entries_after (length es + k) disk nd work s = Some (off, s2)" by blast
    let ?c = "file_byte disk nd"
    obtain s3 where "work (le32 (map ?c [unat off..<unat off + 4]) 0)
        (map ?c [unat off + 8..<unat off + 8 + unat (?c (unat off + 6))] @ [0]) s2 = Some s3" using work by blast
    then have "entries_round disk nd work off s2 = Some (off, s3)"
      using entries_round_reads(2) [OF ok fit, of work s2] zero by simp
    then show ?case using s2 entries_round_reads(1) [OF ok fit] by simp
  qed (use start in simp)
  have "entries_after (length es + Suc n) disk nd work s \<noteq> None" using stay [of "Suc n"] by blast
  then have "entries_after (Suc n) disk nd work s \<noteq> None" by (rule entries_after_earlier) simp
  then show "\<exists>o' s'. entries_after n disk nd work s = Some (o', s') \<and> o' < nd_size_low (data nd)"
    by (auto split: Option.bind_splits if_splits)
qed

section \<open>Mounting\<close>

lemma get_node_at:
  assumes num: "0 < unat num" "unat num \<le> unat (numberOfNodes fs)" and ipg: "0 < unat (iNodesPerGroup fs)"
    and g: "(unat num - 1) div unat (iNodesPerGroup fs) < unat (nGroups fs)"
    and tab: "iNodeTables fs ! ((unat num - 1) div unat (iNodesPerGroup fs)) = t" "t \<le> numberOfBlocks fs"
    and o1: "unat t * unat (blockSize fs) + (unat num - 1) mod unat (iNodesPerGroup fs) * unat (iNodeSize fs) = o1"
      "o1 + 128 \<le> 0xFFFFFFFF"
  shows "get_node disk fs num =
    Some \<lparr>node_block_size = blockSize fs, number = num, data = NodeData_of (map disk [o1..<o1 + 128])\<rparr>"
proof -
  have sub: "unat (num - 1) = unat num - 1" using num by (subst unat_sub) (simp_all add: word_le_nat_alt)
  have q: "unat ((num - 1) div iNodesPerGroup fs) = (unat num - 1) div unat (iNodesPerGroup fs)" by (simp add: unat_div sub)
  have r: "unat ((num - 1) mod iNodesPerGroup fs) = (unat num - 1) mod unat (iNodesPerGroup fs)" by (simp add: unat_mod sub)
  have m1: "unat (t * blockSize fs) = unat t * unat (blockSize fs)" using o1 by (intro unat_mult_no_wrap) linarith
  have m2: "unat ((num - 1) mod iNodesPerGroup fs * iNodeSize fs) = (unat num - 1) mod unat (iNodesPerGroup fs) * unat (iNodeSize fs)"
    using o1 r by (subst unat_mult_no_wrap) simp_all
  have off: "unat (t * blockSize fs + (num - 1) mod iNodesPerGroup fs * iNodeSize fs) = o1" (is "unat ?off = _")
    using m1 m2 o1 by (subst unat_add_no_wrap) simp_all
  have "unat ?off + unat sizeof_NodeData \<le> unat (size_in_bytes (Ide disk))" using o1 by (simp add: off sizeof_NodeData_def)
  from ide.read_thing_correct [OF this] have "read_thing (Ide disk) ?off sizeof_NodeData = Some (map disk [o1..<o1 + 128])"
    by (simp add: off sizeof_NodeData_def)
  moreover have "0 < num" "num \<le> numberOfNodes fs" "iNodesPerGroup fs \<noteq> 0" "(num - 1) div iNodesPerGroup fs < nGroups fs"
    using num ipg g q by (auto simp: word_less_nat_alt word_le_nat_alt)
  ultimately show ?thesis using tab q by (simp add: get_node_def Let_def)
qed

text \<open>
  The descriptors of an image, what makes its geometry one this code can mount, and what makes it an
  ext2 file system: the constructor panics on some geometries, and never looks at the magic number.
\<close>

definition sb_on :: "disk \<Rightarrow> SuperBlock" where
  "sb_on disk = SuperBlock_of (map disk [1024..<1164])"

definition bs_on :: "disk \<Rightarrow> nat" where
  "bs_on disk = 2 ^ (unat (sb_log_block_size (sb_on disk)) + 10)"

definition groups_on :: "disk \<Rightarrow> nat" where
  "groups_on disk = (unat (sb_blocks_count (sb_on disk)) + unat (sb_blocks_per_group (sb_on disk)) - 1) div
     unat (sb_blocks_per_group (sb_on disk))"

definition table_on :: "disk \<Rightarrow> nat \<Rightarrow> u32" where
  "table_on disk g = (let o1 = (1024 div bs_on disk + 1) * bs_on disk + 32 * g + 8 in le32 (map disk [o1..<o1 + 4]) 0)"

definition inode_offset :: "disk \<Rightarrow> nat \<Rightarrow> nat" where
  "inode_offset disk num = (let ipg = unat (sb_inodes_per_group (sb_on disk)) in
     unat (table_on disk ((num - 1) div ipg)) * bs_on disk + (num - 1) mod ipg * unat (sb_inode_size (sb_on disk)))"

definition geometry_ok :: "disk \<Rightarrow> bool" where
  "geometry_ok disk \<longleftrightarrow>
     (let sb = sb_on disk in
      sb_log_block_size sb < 22 \<and> sb_blocks_per_group sb \<noteq> 0 \<and>
      unat (sb_blocks_count sb) + unat (sb_blocks_per_group sb) < 4294967296 \<and>
      (1024 div bs_on disk + 1) * bs_on disk + 32 * groups_on disk \<le> 0xFFFFFFFF \<and>
      2 \<le> unat (sb_inodes_count sb) \<and>
      unat (sb_inodes_count sb) \<le> groups_on disk * unat (sb_inodes_per_group sb) \<and>
      (\<forall>g < groups_on disk. table_on disk g \<le> sb_blocks_count sb) \<and>
      (\<forall>num \<in> {1..unat (sb_inodes_count sb)}. inode_offset disk num + 128 \<le> 0xFFFFFFFF))"

definition ext2_magic :: u16 where "ext2_magic = 0xEF53"

definition image_ok :: "disk \<Rightarrow> bool" where
  "image_ok disk \<longleftrightarrow> sb_magic (sb_on disk) = ext2_magic \<and> geometry_ok disk"

lemma geometry_okD:
  assumes "geometry_ok disk"
  shows "sb_log_block_size (sb_on disk) < 22" "sb_blocks_per_group (sb_on disk) \<noteq> 0"
    "unat (sb_blocks_count (sb_on disk)) + unat (sb_blocks_per_group (sb_on disk)) < 4294967296"
    "(1024 div bs_on disk + 1) * bs_on disk + 32 * groups_on disk \<le> 0xFFFFFFFF"
    "2 \<le> unat (sb_inodes_count (sb_on disk))"
    "unat (sb_inodes_count (sb_on disk)) \<le> groups_on disk * unat (sb_inodes_per_group (sb_on disk))"
    "g < groups_on disk \<Longrightarrow> table_on disk g \<le> sb_blocks_count (sb_on disk)"
    "0 < n \<Longrightarrow> n \<le> unat (sb_inodes_count (sb_on disk)) \<Longrightarrow> inode_offset disk n + 128 \<le> 0xFFFFFFFF"
  using assms unfolding geometry_ok_def Let_def by auto

definition mounted :: "disk \<Rightarrow> Ext2" where
  "mounted disk = \<lparr>blockSize = of_nat (bs_on disk), numberOfNodes = sb_inodes_count (sb_on disk),
     numberOfBlocks = sb_blocks_count (sb_on disk), iNodeSize = ucast (sb_inode_size (sb_on disk)),
     nGroups = of_nat (groups_on disk), iNodeTables = map (table_on disk) [0..<groups_on disk],
     iNodesPerGroup = sb_inodes_per_group (sb_on disk)\<rparr>"

lemma bs_on_word:
  assumes "geometry_ok disk"
  shows "push_bit (unat (sb_log_block_size (sb_on disk) + 10)) 1 = (of_nat (bs_on disk) :: u32)"
    "unat (of_nat (bs_on disk) :: u32) = bs_on disk" "0 < bs_on disk"
proof -
  let ?l = "sb_log_block_size (sb_on disk)"
  have l: "unat ?l < 22" using geometry_okD(1) [OF assms] by (simp add: word_less_nat_alt)
  then have u: "unat (?l + 10) = unat ?l + 10" by (simp add: unat_add_no_wrap)
  show "push_bit (unat (?l + 10)) 1 = (of_nat (bs_on disk) :: u32)" unfolding u bs_on_def by (simp add: push_bit_eq_mult)
  have "bs_on disk < 2 ^ 32" unfolding bs_on_def using l by (intro power_strict_increasing) simp_all
  then show "unat (of_nat (bs_on disk) :: u32) = bs_on disk" by (simp add: unat_of_nat)
  show "0 < bs_on disk" by (simp add: bs_on_def)
qed

lemma groups_on_word:
  assumes "geometry_ok disk"
  shows "(sb_blocks_count (sb_on disk) + sb_blocks_per_group (sb_on disk) - 1) div sb_blocks_per_group (sb_on disk) =
      (of_nat (groups_on disk) :: u32)" (is "?w = _")
    "unat (of_nat (groups_on disk) :: u32) = groups_on disk"
    "sb_blocks_count (sb_on disk) \<le> of_nat (groups_on disk) * sb_blocks_per_group (sb_on disk)"
proof -
  let ?bc = "sb_blocks_count (sb_on disk)"
  let ?bpg = "sb_blocks_per_group (sb_on disk)"
  note ok = geometry_okD(2,3) [OF assms]
  have b: "0 < unat ?bpg" using ok(1) by (simp add: unat_gt_0)
  have "unat (?bc + ?bpg) = unat ?bc + unat ?bpg" using ok(2) by (rule unat_add_no_wrap)
  moreover from this b have "1 \<le> ?bc + ?bpg" by (simp add: word_le_nat_alt)
  ultimately have "unat (?bc + ?bpg - 1) = unat ?bc + unat ?bpg - 1" by (simp add: unat_sub)
  then have w: "unat ?w = groups_on disk" by (simp add: unat_div groups_on_def)
  have lt: "groups_on disk < 4294967296" using w unat_lt_32 [of ?w] by simp
  then show u: "unat (of_nat (groups_on disk) :: u32) = groups_on disk" by (simp add: unat_of_nat)
  then show "?w = of_nat (groups_on disk)" using w by (simp add: word_unat_eq_iff)
  have up: "groups_on disk * unat ?bpg \<le> unat ?bc + unat ?bpg - 1" unfolding groups_on_def by simp
  have lo: "unat ?bc \<le> groups_on disk * unat ?bpg"
  proof -
    have "unat ?bc + unat ?bpg - 1 < (groups_on disk + 1) * unat ?bpg"
      unfolding groups_on_def using b by (simp add: div_mult_mod_eq dividend_less_times_div mult.commute)
    then show ?thesis using b by simp
  qed
  have "unat (of_nat (groups_on disk) * ?bpg) = groups_on disk * unat ?bpg"
    using u up ok(2) by (subst unat_mult_no_wrap) simp_all
  then show "?bc \<le> of_nat (groups_on disk) * ?bpg" using lo by (simp add: word_le_nat_alt)
qed

lemma mounted_simps [simp]:
  "blockSize (mounted disk) = of_nat (bs_on disk)" "numberOfNodes (mounted disk) = sb_inodes_count (sb_on disk)"
  "numberOfBlocks (mounted disk) = sb_blocks_count (sb_on disk)" "iNodeSize (mounted disk) = ucast (sb_inode_size (sb_on disk))"
  "nGroups (mounted disk) = of_nat (groups_on disk)" "iNodeTables (mounted disk) = map (table_on disk) [0..<groups_on disk]"
  "iNodesPerGroup (mounted disk) = sb_inodes_per_group (sb_on disk)"
  by (simp_all add: mounted_def)

definition inode_on :: "disk \<Rightarrow> u32 \<Rightarrow> Node" where
  "inode_on disk num = \<lparr>node_block_size = of_nat (bs_on disk), number = num,
     data = NodeData_of (map disk [inode_offset disk (unat num)..<inode_offset disk (unat num) + 128])\<rparr>"

lemma get_node_mounted:
  assumes ok: "geometry_ok disk" and num: "0 < num" "num \<le> sb_inodes_count (sb_on disk)"
  shows "get_node disk (mounted disk) num = Some (inode_on disk num)"
proof -
  let ?ipg = "unat (sb_inodes_per_group (sb_on disk))"
  let ?g = "(unat num - 1) div ?ipg"
  have n: "0 < unat num" "unat num \<le> unat (sb_inodes_count (sb_on disk))"
    using num by (simp_all add: word_less_nat_alt word_le_nat_alt)
  note cnt = geometry_okD(5,6) [OF ok]
  have ipg: "0 < ?ipg" using cnt by (cases "?ipg = 0") auto
  have "unat num - 1 < groups_on disk * ?ipg" using n cnt by linarith
  then have g: "?g < groups_on disk" using ipg by (simp add: div_less_iff_less_mult)
  have "get_node disk (mounted disk) num = Some \<lparr>node_block_size = blockSize (mounted disk), number = num,
      data = NodeData_of (map disk [inode_offset disk (unat num)..<inode_offset disk (unat num) + 128])\<rparr>"
  proof (rule get_node_at)
    show "iNodeTables (mounted disk) ! ((unat num - 1) div unat (iNodesPerGroup (mounted disk))) = table_on disk ?g"
      using g by simp
    show "table_on disk ?g \<le> numberOfBlocks (mounted disk)" using geometry_okD(7) [OF ok g] by simp
    show "unat (table_on disk ?g) * unat (blockSize (mounted disk)) +
        (unat num - 1) mod unat (iNodesPerGroup (mounted disk)) * unat (iNodeSize (mounted disk)) = inode_offset disk (unat num)"
      by (simp add: inode_offset_def Let_def bs_on_word(2) [OF ok] unat_ucast_16)
    show "inode_offset disk (unat num) + 128 \<le> 0xFFFFFFFF" using geometry_okD(8) [OF ok n] .
  qed (use n ipg g groups_on_word(2) [OF ok] in simp_all)
  then show ?thesis by (simp add: inode_on_def)
qed

lemma group_table_entry:
  assumes "i < n"
  shows "bg_inode_table (BlockGroup_of (drop (32 * i) (map disk [b..<b + 32 * n]))) =
    le32 (map disk [b + 32 * i + 8..<b + 32 * i + 8 + 4]) 0"
proof -
  have "drop (32 * i) (map disk [b..<b + 32 * n]) ! (8 + k) = map disk [b + 32 * i + 8..<b + 32 * i + 8 + 4] ! k" if "k < 4" for k
  proof -
    have "32 * i + (8 + k) < 32 * n" using assms that by linarith
    then show ?thesis using that by (simp add: add.assoc)
  qed
  from this [of 0] this [of 1] this [of 2] this [of 3] show ?thesis
    by (simp add: BlockGroup_of_def le32_def numeral_eq_Suc)
qed

lemma Ext2_mount_mounted:
  assumes ok: "geometry_ok disk"
  shows "Ext2_mount disk = Some (mounted disk, inode_on disk 2)"
proof -
  let ?sb = "sb_on disk"
  let ?bs = "of_nat (bs_on disk) :: u32"
  let ?gs = "of_nat (groups_on disk) :: u32"
  define G where "G = (1024 div bs_on disk + 1) * bs_on disk"
  note bs = bs_on_word [OF ok] and gs = groups_on_word [OF ok] and D = geometry_okD [OF ok, folded G_def]
  have sb: "read_thing (Ide disk) 1024 sizeof_SuperBlock = Some (map disk [1024..<1164])"
    using ide.read_thing_correct [of 1024 sizeof_SuperBlock disk] by (simp add: sizeof_SuperBlock_def)
  have gpos: "0 < groups_on disk" using D(5,6) by (cases "groups_on disk = 0") auto
  have q: "unat (1024 div ?bs) = 1024 div bs_on disk" by (simp add: unat_div bs(2))
  have q1: "unat (1024 div ?bs + 1) = 1024 div bs_on disk + 1"
  proof -
    have "1024 div bs_on disk + 1 < 4294967296" using div_le_dividend [of 1024 "bs_on disk"] by linarith
    then show ?thesis using unat_add_no_wrap [of "1024 div ?bs" 1] by (simp only: q unsigned_1)
  qed
  have start: "unat ((1024 div ?bs + 1) * ?bs) = G"
  proof -
    have "unat (1024 div ?bs + 1) * unat ?bs < 4294967296" unfolding q1 bs(2) G_def [symmetric] using D(4) by linarith
    then show ?thesis by (simp only: unat_mult_no_wrap q1 bs(2) G_def)
  qed
  have sz: "unat (32 * ?gs) = 32 * groups_on disk" using D(4) gs(2) by (subst unat_mult_no_wrap) simp_all
  have table: "read_all (Ide disk) ((1024 div ?bs + 1) * ?bs) (sizeof_BlockGroup * ?gs) =
      Some (int (32 * groups_on disk), map disk [G..<G + 32 * groups_on disk])"
  proof -
    have lim: "min (32 * groups_on disk) (0xFFFFFFFF - G) = 32 * groups_on disk" "\<not> 0xFFFFFFFF < G" using D(4) by linarith+
    have "32 * ?gs \<noteq> 0" using sz gpos by (metis mult_eq_0_iff neq0_conv unat_0 zero_neq_numeral)
    then show ?thesis
      using ide.read_all_correct [of disk "(1024 div ?bs + 1) * ?bs" "32 * ?gs"] lim start sz
      by (simp add: sizeof_BlockGroup_def Let_def)
  qed
  have cnt: "int (32 * groups_on disk) = uint (sizeof_BlockGroup * ?gs)"
    unfolding sizeof_BlockGroup_def using sz by (metis uint_nat)
  have tabs: "map (\<lambda>i. bg_inode_table (BlockGroup_of (drop (32 * i) (map disk [G..<G + 32 * groups_on disk])))) [0..<groups_on disk] =
      map (table_on disk) [0..<groups_on disk]"
    by (simp only: map_eq_conv) (simp add: group_table_entry table_on_def Let_def G_def)
  have "(2 :: u32) \<le> sb_inodes_count ?sb" using D(5) by (simp add: word_le_nat_alt)
  then have root: "get_node disk (mounted disk) 2 = Some (inode_on disk 2)" by (intro get_node_mounted [OF ok]) simp_all
  show ?thesis
    unfolding Ext2_mount_def sb bind.bind_lunit sb_on_def [symmetric] Let_def bs(1) gs(1)
    using D(1,2) root gs(3) cnt by (simp add: gs(2) table tabs mounted_def [symmetric])
qed

section \<open>Properties\<close>

text \<open>
  C19.  Reading a file: for a node whose blocks lie on the disk, \<^verbatim>\<open>read_all\<close> returns exactly the
  bytes of the file from the offset on, found through the direct blocks and the indirect block,
  as many as were asked for or as are left, and -1 behind the end.
\<close>

theorem file_read_exact:
  assumes "node_ok disk nd"
  shows "read_all (Node_io disk nd) off n =
     (if n = 0 then Some (0, [])
      else if unat (node_size_in_bytes nd) < unat off then Some (- 1, [])
      else let m = min (unat n) (unat (node_size_in_bytes nd) - unat off) in
        Some (int m, map (file_byte disk nd) [unat off..<unat off + m]))"
  using block_device.read_all_correct [OF node_block_device [OF assms]] by simp

text \<open>
  C20.  Looking a name up in a directory gives the inode of the last entry with that name, and 0
  when there is none, and \<^verbatim>\<open>entry_count\<close> counts the entries: the loop over the entries returns,
  and it visits exactly the entries the directory holds, in order.
\<close>

theorem directory_lookup:
  assumes "node_ok disk nd" "is_dir nd" "dir_layout (file_byte disk nd) 0 es (unat (node_size_in_bytes nd))"
    "\<forall>(ino, nm, len) \<in> set es. 0 \<notin> set nm" "0 \<notin> set w"
  shows "node_find disk nd (w @ [0]) =
      Some (case find (\<lambda>(ino, nm, len). nm = w) (rev es) of None \<Rightarrow> 0 | Some (ino, nm, len) \<Rightarrow> ino) \<and>
    entry_count disk nd = Some (of_nat (length es))"
  using node_find_layout [OF assms] entries_layout [OF assms(1,3), of count_work 0] assms(2)
  by (simp add: entry_count_def entries_def each_count)

text \<open>
  C38.  A directory with an entry whose distance to the next entry is 0, behind well-formed ones and
  with its name inside the directory, makes \<^verbatim>\<open>find\<close>, with any name, and \<^verbatim>\<open>entry_count\<close> loop for ever: for
  every \<open>n\<close>, \<open>n\<close> rounds of the loop run without a panic and its condition holds once more.  So the two
  never return.
\<close>

theorem zero_distance_loops:
  assumes "node_ok disk nd" "is_dir nd" "dir_layout (file_byte disk nd) 0 es (unat (off :: u32))"
    "unat off + 8 + unat (file_byte disk nd (unat off + 6)) \<le> unat (node_size_in_bytes nd)"
    "le16 (map (file_byte disk nd) [unat off + 4..<unat off + 6]) 0 = 0"
  shows "(\<forall>n. \<exists>o' out. entries_after n disk nd (find_work (w @ [0])) 0 = Some (o', out) \<and> o' < nd_size_low (data nd)) \<and>
    (\<forall>n. \<exists>o' c. entries_after n disk nd count_work 0 = Some (o', c) \<and> o' < nd_size_low (data nd)) \<and>
    node_find disk nd (w @ [0]) = None \<and> entry_count disk nd = None"
proof -
  have "find_work (w @ [0]) num (nm @ [0]) s \<noteq> None" for num nm s
    using streq_ends [of "w @ [0]" "nm @ [0]"] by (auto split: Option.bind_splits)
  then have f: "\<forall>n. \<exists>o' out. entries_after n disk nd (find_work (w @ [0])) 0 = Some (o', out) \<and> o' < nd_size_low (data nd)"
    by (intro zero_distance_rounds [OF assms]) blast
  have c: "\<forall>n. \<exists>o' c. entries_after n disk nd count_work 0 = Some (o', c) \<and> o' < nd_size_low (data nd)"
    by (intro zero_distance_rounds [OF assms]) simp
  show ?thesis
    using f c entries_never_return [OF f] entries_never_return [OF c] by (simp add: node_find_def entry_count_def)
qed

text \<open>
  The limits of a file: a block number that the sectors of the node do not cover, or that lies
  behind the twelve direct and the singly indirect blocks, is a panic.
\<close>

theorem read_block_limits:
  assumes "nd_n_sectors (data nd) div (node_block_size nd div 512) \<le> index \<or>
    12 + unat (node_block_size nd) div 4 \<le> unat index"
  shows "node_read_block disk nd index = None"
proof (cases "nd_n_sectors (data nd) div (node_block_size nd div 512) \<le> index")
  case True
  then have "\<not> index < nd_n_sectors (data nd) div (node_block_size nd div 512)" by simp
  then show ?thesis by (simp add: node_read_block_def del: not_less)
next
  case False
  let ?bs = "unat (node_block_size nd)"
  have k: "12 + ?bs div 4 \<le> unat index" using assms False by blast
  have d: "unat (node_block_size nd div 4) = ?bs div 4" by (simp add: unat_div)
  have "12 + ?bs div 4 < 4294967296" using unat_lt_32 [of "node_block_size nd"] by linarith
  then have "unat (12 + node_block_size nd div 4) = 12 + ?bs div 4"
    using d unat_add_no_wrap [of 12 "node_block_size nd div 4"] by simp
  then have "node_block_index disk nd index = None"
    using k by (simp add: node_block_index_def Let_def word_less_nat_alt)
  then show ?thesis by (simp add: node_read_block_def split: Option.bind_split)
qed

text \<open>
  C28.  Mounting a valid ext2 image succeeds: the constructor returns the geometry the super block and
  the group descriptors describe, and after it every inode number of the file system is read from its
  place in the inode table of its group, while 0 and numbers behind the last are a panic.  Valid means
  the magic number of ext2 and a geometry without overflow whose inode tables lie on the device; the
  code does not check the former (\<open>mount_ignores_magic\<close>).
\<close>

theorem mount_correct:
  assumes "image_ok disk"
  shows "Ext2_mount disk = Some (mounted disk, inode_on disk 2) \<and>
    (\<forall>num. get_node disk (mounted disk) num =
      (if 0 < num \<and> num \<le> sb_inodes_count (sb_on disk) then Some (inode_on disk num) else None))"
proof -
  have ok: "geometry_ok disk" using assms by (simp add: image_ok_def)
  have "get_node disk (mounted disk) num = None" if "\<not> (0 < num \<and> num \<le> sb_inodes_count (sb_on disk))" for num
    using that by (auto simp: get_node_def Let_def)
  then show ?thesis using Ext2_mount_mounted [OF ok] get_node_mounted [OF ok] by simp
qed

text \<open>
  The constructor is documented to panic on an invalid file system.  An image with any other magic
  number mounts just as well when its geometry is right.
\<close>

lemma mount_ignores_magic:
  assumes "geometry_ok disk" "sb_magic (sb_on disk) \<noteq> ext2_magic"
  shows "\<not> image_ok disk \<and> Ext2_mount disk = Some (mounted disk, inode_on disk 2)"
  using assms Ext2_mount_mounted [OF assms(1)] by (simp add: image_ok_def)

section \<open>A small image\<close>

text \<open>A file system with the directory \<^verbatim>\<open>/\<close> and in it the file \<^verbatim>\<open>init\<close>.\<close>

definition image :: "(nat \<times> u8 list) list \<Rightarrow> disk" where
  "image ps i = (case find (\<lambda>(o1, bs). o1 \<le> i \<and> i < o1 + length bs) ps of None \<Rightarrow> 0 | Some (o1, bs) \<Rightarrow> bs ! (i - o1))"

definition ex_disk :: disk where
  "ex_disk = image
     [(1024, [16, 0, 0, 0, 64]), (1024 + 33, [32]), (1024 + 40, [16]), (1024 + 56, [0x53, 0xEF]), (1024 + 88, [128]),
      (2048 + 8, [5]),
      (5 * 1024 + 128, [0xED, 0x41, 0, 0, 12]), (5 * 1024 + 128 + 28, [2]), (5 * 1024 + 128 + 40, [10]),
      (5 * 1024 + 1280, [0xA4, 0x81, 0, 0, 5]), (5 * 1024 + 1280 + 28, [2]), (5 * 1024 + 1280 + 40, [11]),
      (10 * 1024, [11, 0, 0, 0, 12, 0, 4, 1, 105, 110, 105, 116]),
      (11 * 1024, [104, 101, 108, 108, 111])]"

definition ex_entries :: "dirent list" where
  "ex_entries = [(11, [105, 110, 105, 116], 12)]"

lemma ex_super: "sb_log_block_size (sb_on ex_disk) = 0" "sb_blocks_per_group (sb_on ex_disk) = 8192"
  "sb_blocks_count (sb_on ex_disk) = 64" "sb_inodes_count (sb_on ex_disk) = 16" "sb_inodes_per_group (sb_on ex_disk) = 16"
  "sb_inode_size (sb_on ex_disk) = 128" "sb_magic (sb_on ex_disk) = ext2_magic"
proof -
  have at: "j + 4 \<le> 140 \<Longrightarrow> le32 (map c [1024..<1164]) j = word_on c (1024 + j)"
    "j + 2 \<le> 140 \<Longrightarrow> le16 (map c [1024..<1164]) j = ucast (c (1024 + j)) OR push_bit 8 (ucast (c (1024 + j + 1)))" for c j
    using le32_map [of j 140 c 1024] le16_map [of j 140 c 1024] by (simp_all del: upt_rec_numeral)
  show "sb_log_block_size (sb_on ex_disk) = 0" "sb_blocks_per_group (sb_on ex_disk) = 8192"
        "sb_blocks_count (sb_on ex_disk) = 64" "sb_inodes_count (sb_on ex_disk) = 16" "sb_inodes_per_group (sb_on ex_disk) = 16"
        "sb_inode_size (sb_on ex_disk) = 128" "sb_magic (sb_on ex_disk) = ext2_magic"
    by (simp_all add: sb_on_def SuperBlock_of_def at del: upt_rec_numeral) (simp_all add: ex_disk_def image_def ext2_magic_def)
qed

lemma ex_geometry: "bs_on ex_disk = 1024" "groups_on ex_disk = 1"
  by (simp_all add: bs_on_def groups_on_def ex_super)

lemma ex_table: "table_on ex_disk 0 = 5"
proof -
  have "ex_disk 2056 = 5" "ex_disk 2057 = 0" "ex_disk 2058 = 0" "ex_disk 2059 = 0" by (simp_all add: ex_disk_def image_def)
  moreover have "table_on ex_disk 0 = ucast (ex_disk 2056) OR push_bit 8 (ucast (ex_disk 2057)) OR
      push_bit 16 (ucast (ex_disk 2058)) OR push_bit 24 (ucast (ex_disk 2059))"
    unfolding table_on_def Let_def ex_geometry le32_at by simp
  ultimately show ?thesis by simp
qed

lemma ex_geometry_ok: "geometry_ok ex_disk"
  unfolding geometry_ok_def Let_def
proof (intro conjI ballI allI impI)
  fix n
  assume "n \<in> {1..unat (sb_inodes_count (sb_on ex_disk))}"
  then have n: "n - 1 < 16" by (auto simp: ex_super)
  then have "(n - 1) div 16 = 0" "(n - 1) mod 16 \<le> 15" by simp_all
  then show "inode_offset ex_disk n + 128 \<le> 0xFFFFFFFF" by (simp add: inode_offset_def ex_super ex_geometry ex_table Let_def)
qed (simp_all add: ex_super ex_geometry ex_table)

lemma ex_image_ok: "image_ok ex_disk"
  by (simp add: image_ok_def ex_geometry_ok ex_super)

lemma mount_correct_witness:
  "Ext2_mount ex_disk = Some (mounted ex_disk, inode_on ex_disk 2) \<and> get_node ex_disk (mounted ex_disk) 17 = None"
  using mount_correct [OF ex_image_ok] by (simp add: ex_super)

text \<open>The directory and the file of the image, and a directory with a damaged entry.\<close>

definition ex_node :: "u16 \<Rightarrow> u32 \<Rightarrow> u32 \<Rightarrow> Node" where
  "ex_node mode sz blk = \<lparr>node_block_size = 1024, number = 2, data = \<lparr>nd_mode = mode, nd_uid = 0, nd_size_low = sz, nd_atime = 0,
     nd_ctime = 0, nd_mtime = 0, nd_dtime = 0, nd_gid = 0, nd_n_links = 1, nd_n_sectors = 2, nd_flags = 0, nd_os1 = 0,
     nd_direct = blk # replicate 11 0, nd_indirect_1 = 0, nd_indirect_2 = 0, nd_indirect_3 = 0, nd_gen = 0, nd_reserved1 = 0,
     nd_reserved2 = 0, nd_fragment = 0, nd_os2 = []\<rparr>\<rparr>"

lemma ex_node_ok:
  assumes "unat sz \<le> 1024" "unat blk < 1000"
  shows "node_ok ex_disk (ex_node mode sz blk)"
proof -
  have *: "i = 0" if "i * 1024 < unat sz" for i using that assms(1) by (cases i) auto
  show ?thesis
    using assms by (auto simp: node_ok_def Let_def ex_node_def node_size_in_bytes_def node_blk_def dest!: *)
qed

lemma ex_node_byte: "i < 1024 \<Longrightarrow> file_byte ex_disk (ex_node mode sz blk) i = ex_disk (unat blk * 1024 + i)"
  by (simp add: file_byte_def Let_def ex_node_def node_blk_def)

lemma ex_hello: "ex_disk 11265 = 101" "ex_disk 11266 = 108" "ex_disk 11267 = 108" "ex_disk 11268 = 111"
  by (simp_all add: ex_disk_def image_def)

lemma file_read_exact_witness:
  "read_all (Node_io ex_disk (ex_node 0x81A4 5 11)) 1 100 = Some (4, [101, 108, 108, 111])"
proof -
  have "map (file_byte ex_disk (ex_node 0x81A4 5 11)) [1, 2, 3, 4] = [101, 108, 108, 111]"
    by (simp add: ex_node_byte ex_hello)
  moreover have u: "[Suc 0..<4] = [Suc 0, 2, 3]" by (simp add: upt_rec numeral_eq_Suc)
  moreover have "node_size_in_bytes (ex_node 0x81A4 5 11) = 5" by (simp add: ex_node_def node_size_in_bytes_def)
  ultimately show ?thesis
    using file_read_exact [OF ex_node_ok, of 5 11 "0x81A4" 1 100] by (simp add: Let_def u)
qed

lemma ex_dir_layout: "dir_layout (file_byte ex_disk (ex_node 0x41ED 12 10)) 0 ex_entries 12"
proof -
  have "file_byte ex_disk (ex_node 0x41ED 12 10) i = ex_disk (10240 + i)" if "i < 1024" for i
    using ex_node_byte [OF that] by simp
  then show ?thesis by (simp add: ex_entries_def le32_def le16_def upt_rec ex_disk_def image_def)
qed

lemma directory_lookup_witness:
  "node_find ex_disk (ex_node 0x41ED 12 10) [105, 110, 105, 116, 0] = Some 11 \<and>
   entry_count ex_disk (ex_node 0x41ED 12 10) = Some 1"
proof -
  have "is_dir (ex_node 0x41ED 12 10)"
    by (simp add: is_dir_def nd_is_dir_def nd_get_type_def ex_node_def)
  moreover have "unat (node_size_in_bytes (ex_node 0x41ED 12 10)) = 12" by (simp add: ex_node_def node_size_in_bytes_def)
  ultimately show ?thesis
    using directory_lookup [OF ex_node_ok, of 12 10 "0x41ED" ex_entries "[105, 110, 105, 116]"] ex_dir_layout
    by (simp add: ex_entries_def)
qed

lemma zero_distance_loops_witness:
  "(\<exists>o' out. entries_after 1000 ex_disk (ex_node 0x41ED 12 20) (find_work [105, 0]) 0 = Some (o', out) \<and> o' < 12) \<and>
   node_find ex_disk (ex_node 0x41ED 12 20) [105, 0] = None \<and> entry_count ex_disk (ex_node 0x41ED 12 20) = None"
proof -
  let ?nd = "ex_node 0x41ED 12 20"
  have b: "file_byte ex_disk ?nd i = 0" if "i < 8" for i
    using that ex_node_byte [of i "0x41ED" 12 20] by (simp add: ex_disk_def image_def)
  then have "le16 (map (file_byte ex_disk ?nd) [4..<6]) 0 = 0" by (simp add: le16_def)
  moreover have "unat (node_size_in_bytes ?nd) = 12" "nd_size_low (data ?nd) = 12" by (simp_all add: ex_node_def node_size_in_bytes_def)
  moreover have "is_dir ?nd" by (simp add: is_dir_def nd_is_dir_def nd_get_type_def ex_node_def)
  ultimately have L: "(\<forall>n. \<exists>o' out. entries_after n ex_disk ?nd (find_work ([105] @ [0])) 0 = Some (o', out) \<and> o' < nd_size_low (data ?nd)) \<and>
      (\<forall>n. \<exists>o' c. entries_after n ex_disk ?nd count_work 0 = Some (o', c) \<and> o' < nd_size_low (data ?nd)) \<and>
      node_find ex_disk ?nd ([105] @ [0]) = None \<and> entry_count ex_disk ?nd = None"
    using b by (intro zero_distance_loops [of _ _ "[]" 0]) (simp_all add: ex_node_ok)
  have "nd_size_low (data ?nd) = 12" by (simp add: ex_node_def)
  then show ?thesis using L by (metis append_Cons append_Nil)
qed

lemma read_block_limits_witness: "node_read_block ex_disk (ex_node 0x81A4 5 11) 1 = None"
  by (rule read_block_limits) (simp add: ex_node_def)

end
