(* ===== verification/Elf.thy ===== *)
theory Elf
  imports Ext2 Vme_Queue
begin

text \<open>
  The program loader: \<^verbatim>\<open>kernel/elf.h\<close> and \<^verbatim>\<open>kernel/elf.cc\<close>.  A file is any block device; the
  region list of the process is the list interface of \<open>Vme_Queue\<close>.  The heap cells of \<^verbatim>\<open>p_headers\<close> are
  a list.  Here are the headers, the check \<^verbatim>\<open>valid_load\<close>, and what the segments of a file say about
  regions and memory; \<^verbatim>\<open>ELF::load\<close> itself, which writes through the page tables of the process, is
  \<open>kelf_load\<close> in \<open>Sys_Calls\<close>, and its properties are in \<open>Program_Load\<close> and \<open>Kernel_Main\<close>.
\<close>

section \<open>Headers\<close>

record ElfHeader =
  eh_magic0 :: u8
  eh_magic1 :: u8
  eh_magic2 :: u8
  eh_magic3 :: u8
  eh_cls :: u8
  eh_encoding :: u8
  eh_header_version :: u8
  eh_abi :: u8
  eh_abi_version :: u8
  eh_padding :: "u8 list"
  eh_type :: u16
  eh_machine :: u16
  eh_version :: u32
  eh_entry :: u32
  eh_phoff :: u32
  eh_shoff :: u32
  eh_flags :: u32
  eh_ehsize :: u16
  eh_phentsize :: u16
  eh_phnum :: u16
  eh_shentsize :: u16
  eh_shnum :: u16
  eh_shstrndx :: u16

definition sizeof_ElfHeader :: u32 where "sizeof_ElfHeader = 52"

definition ElfHeader_of :: "u8 list \<Rightarrow> ElfHeader" where
  "ElfHeader_of bs = \<lparr>
    eh_magic0 = bs ! 0, eh_magic1 = bs ! 1, eh_magic2 = bs ! 2, eh_magic3 = bs ! 3, eh_cls = bs ! 4,
    eh_encoding = bs ! 5, eh_header_version = bs ! 6, eh_abi = bs ! 7, eh_abi_version = bs ! 8,
    eh_padding = take 7 (drop 9 bs), eh_type = le16 bs 16, eh_machine = le16 bs 18,
    eh_version = le32 bs 20, eh_entry = le32 bs 24, eh_phoff = le32 bs 28, eh_shoff = le32 bs 32,
    eh_flags = le32 bs 36, eh_ehsize = le16 bs 40, eh_phentsize = le16 bs 42, eh_phnum = le16 bs 44,
    eh_shentsize = le16 bs 46, eh_shnum = le16 bs 48, eh_shstrndx = le16 bs 50\<rparr>"

record ProgramHeader =
  ph_type :: u32
  ph_offset :: u32
  ph_vaddr :: u32
  ph_paddr :: u32
  ph_filesz :: u32
  ph_memsz :: u32
  ph_flags :: u32
  ph_align :: u32

definition sizeof_ProgramHeader :: u32 where "sizeof_ProgramHeader = 32"

definition ProgramHeader_of :: "u8 list \<Rightarrow> ProgramHeader" where
  "ProgramHeader_of bs = \<lparr>
    ph_type = le32 bs 0, ph_offset = le32 bs 4, ph_vaddr = le32 bs 8, ph_paddr = le32 bs 12,
    ph_filesz = le32 bs 16, ph_memsz = le32 bs 20, ph_flags = le32 bs 24, ph_align = le32 bs 28\<rparr>"

section \<open>The check\<close>

definition read_header :: "block_io \<Rightarrow> ElfHeader option" where
  "read_header f = map_option ElfHeader_of (read_thing f 0 sizeof_ElfHeader)"

definition read_ph :: "block_io \<Rightarrow> ElfHeader \<Rightarrow> nat \<Rightarrow> ProgramHeader option" where
  "read_ph f h i = map_option ProgramHeader_of
     (read_thing f (eh_phoff h + ucast (eh_phentsize h) * of_nat i) sizeof_ProgramHeader)"

definition ph_outside :: "ProgramHeader \<Rightarrow> bool" where
  "ph_outside p \<longleftrightarrow> ph_vaddr p < 0x80000000 \<or> ph_vaddr p + ph_memsz p \<ge> 0xF0001000 \<or>
     ph_vaddr p + ph_memsz p - 1 < ph_vaddr p - 1"

text \<open>The loop over the program headers, from header \<open>i\<close> on, \<open>n\<close> of them left.\<close>

fun valid_loop :: "block_io \<Rightarrow> ElfHeader \<Rightarrow> nat \<Rightarrow> nat \<Rightarrow> bool \<Rightarrow> u32 option" where
  "valid_loop f h i 0 valid_entry = Some (if valid_entry then 1 else - 1)"
| "valid_loop f h i (Suc n) valid_entry = do {
     p \<leftarrow> read_ph f h i;
     if ph_type p \<noteq> 1 then valid_loop f h (Suc i) n valid_entry
     else if ph_outside p then Some (- 1)
     else valid_loop f h (Suc i) n
       (if eh_entry h \<ge> ph_vaddr p \<and> eh_entry h < ph_vaddr p + ph_memsz p then True else valid_entry) }"

definition header_bad :: "ElfHeader \<Rightarrow> bool" where
  "header_bad h \<longleftrightarrow> eh_magic0 h \<noteq> 0x7f \<or> eh_magic1 h \<noteq> 69 \<or> eh_magic2 h \<noteq> 76 \<or> eh_magic3 h \<noteq> 70 \<or>
     eh_cls h \<noteq> 1 \<or> eh_machine h \<noteq> 3 \<or> eh_version h \<noteq> 1"

definition valid_load :: "block_io \<Rightarrow> u32 option" where
  "valid_load f =
     (let file_size = size_in_bytes f in
      if file_size < sizeof_ElfHeader then Some (- 1)
      else do {
        h \<leftarrow> read_header f;
        if header_bad h then Some (- 1)
        else if eh_entry h < 0x80000000 \<or> eh_entry h \<ge> 0xF0001000 then Some (- 1)
        else if eh_phoff h > file_size \<or> file_size < ucast (eh_phnum h) * ucast (eh_phentsize h) then Some (- 1)
        else valid_loop f h 0 (unat (eh_phnum h)) False })"

section \<open>The program headers of a load\<close>

fun read_phs :: "block_io \<Rightarrow> ElfHeader \<Rightarrow> nat \<Rightarrow> nat \<Rightarrow> ProgramHeader list option" where
  "read_phs f h i 0 = Some []"
| "read_phs f h i (Suc n) = do { p \<leftarrow> read_ph f h i; ps \<leftarrow> read_phs f h (Suc i) n; Some (p # ps) }"

text \<open>Writing a list of bytes to user memory; addresses wrap around.\<close>

definition write_bytes :: "u32 \<Rightarrow> u8 list \<Rightarrow> (u32 \<Rightarrow> u8) \<Rightarrow> (u32 \<Rightarrow> u8)" where
  "write_bytes a bs m = (\<lambda>x. if unat (x - a) < length bs then bs ! unat (x - a) else m x)"

definition aligned_region :: "ProgramHeader \<Rightarrow> region" where
  "aligned_region p =
     (let aligned_vaddr = push_bit 12 (drop_bit 12 (ph_vaddr p));
          aligned_vaddr_end = push_bit 12 (drop_bit 12 (ph_vaddr p + ph_memsz p - 1) + 1);
          aligned_memsz = aligned_vaddr_end - aligned_vaddr
      in new_region aligned_vaddr aligned_memsz)"

section \<open>What an accepted file is\<close>

lemma valid_loop_sound:
  assumes "valid_loop f h i n b = Some 1"
  shows "\<exists>ps. read_phs f h i n = Some ps \<and> (\<forall>p \<in> set ps. ph_type p = 1 \<longrightarrow> \<not> ph_outside p) \<and>
    (b \<or> (\<exists>p \<in> set ps. ph_type p = 1 \<and> ph_vaddr p \<le> eh_entry h \<and> eh_entry h < ph_vaddr p + ph_memsz p))"
  using assms
proof (induction f h i n b rule: valid_loop.induct)
  case (1 f h i b)
  then show ?case by (auto split: if_splits)
next
  case (2 f h i n b)
  then obtain p where p: "read_ph f h i = Some p" by (auto split: Option.bind_splits)
  show ?case using 2 p by (auto split: if_splits)
qed

lemma valid_load_sound:
  assumes "valid_load f = Some 1"
  obtains h ps where "read_header f = Some h" "\<not> header_bad h" "read_phs f h 0 (unat (eh_phnum h)) = Some ps"
    "\<And>p. p \<in> set ps \<Longrightarrow> ph_type p = 1 \<Longrightarrow> \<not> ph_outside p"
    "\<exists>p \<in> set ps. ph_type p = 1 \<and> ph_vaddr p \<le> eh_entry h \<and> eh_entry h < ph_vaddr p + ph_memsz p"
  using assms valid_loop_sound [of f _ 0 _ False]
  by (force simp: valid_load_def Let_def split: if_splits Option.bind_splits)

text \<open>
  A segment the check lets through ends below \<^verbatim>\<open>0xF0001000\<close> or exactly at the end of the
  address space, where the sum wraps around to 0 and slips through.
\<close>

lemma not_outside_nat:
  assumes "\<not> ph_outside p"
  shows "0x80000000 \<le> unat (ph_vaddr p)"
    "unat (ph_vaddr p) + unat (ph_memsz p) < 0xF0001000 \<or> unat (ph_vaddr p) + unat (ph_memsz p) = 4294967296"
proof -
  let ?v = "ph_vaddr p" and ?m = "ph_memsz p"
  have v: "0x80000000 \<le> unat ?v" and e: "unat (?v + ?m) < 0xF0001000" and w: "?v - 1 \<le> ?v + ?m - 1"
    using assms by (simp_all add: ph_outside_def word_less_nat_alt word_le_nat_alt not_le not_less)
  have v1: "unat (?v - 1) = unat ?v - 1" using v by (subst unat_sub) (simp_all add: word_le_nat_alt)
  show "0x80000000 \<le> unat ?v" by (rule v)
  show "unat ?v + unat ?m < 0xF0001000 \<or> unat ?v + unat ?m = 4294967296"
  proof (cases "unat ?v + unat ?m < 4294967296")
    case True
    then show ?thesis using e by (simp add: unat_add_no_wrap)
  next
    case False
    then obtain k where k: "unat ?v + unat ?m = 4294967296 + k" using le_Suc_ex not_less by blast
    have lt: "k < unat ?v" using k unat_lt_32 [of ?m] by linarith
    then have "k < 4294967296" using unat_lt_32 [of ?v] by linarith
    then have s: "unat (?v + ?m) = k" using k by (simp add: unat_add_32)
    have "k = 0"
    proof (rule ccontr)
      assume "k \<noteq> 0"
      then have "unat (?v + ?m - 1) = k - 1" using s by (subst unat_sub) (simp_all add: word_le_nat_alt)
      then show False using w v1 lt \<open>k \<noteq> 0\<close> by (simp add: word_le_nat_alt)
    qed
    then show ?thesis using k by simp
  qed
qed

lemma entry_segment:
  assumes "\<not> ph_outside p" "ph_vaddr p \<le> x" "x < ph_vaddr p + ph_memsz p"
  shows "unat (ph_vaddr p) \<le> unat x" "unat x < unat (ph_vaddr p) + unat (ph_memsz p)"
    "unat (ph_vaddr p) + unat (ph_memsz p) < 0xF0001000"
proof -
  have "unat (ph_vaddr p) + unat (ph_memsz p) \<noteq> 4294967296"
  proof
    assume "unat (ph_vaddr p) + unat (ph_memsz p) = 4294967296"
    then have "unat (ph_vaddr p + ph_memsz p) = 0" by (simp add: unat_add_32)
    then show False using assms(3) by (simp add: word_less_nat_alt)
  qed
  then show e: "unat (ph_vaddr p) + unat (ph_memsz p) < 0xF0001000" using not_outside_nat(2) [OF assms(1)] by blast
  then have "unat (ph_vaddr p + ph_memsz p) = unat (ph_vaddr p) + unat (ph_memsz p)" by (intro unat_add_no_wrap) linarith
  then show "unat (ph_vaddr p) \<le> unat x" "unat x < unat (ph_vaddr p) + unat (ph_memsz p)"
    using assms(2,3) by (simp_all add: word_le_nat_alt word_less_nat_alt)
qed

section \<open>What loading does\<close>

definition seg_len :: "block_io \<Rightarrow> ProgramHeader \<Rightarrow> nat" where
  "seg_len f p = min (unat (ph_filesz p)) (unat (size_in_bytes f) - unat (ph_offset p))"

text \<open>The byte of the image at address \<open>x\<close>: the last segment that has one there decides.\<close>

definition image_at :: "block_io \<Rightarrow> (nat \<Rightarrow> u8) \<Rightarrow> ProgramHeader list \<Rightarrow> u32 \<Rightarrow> u8 option" where
  "image_at f content ps x =
     map_option (\<lambda>p. content (unat (ph_offset p) + unat (x - ph_vaddr p)))
       (find (\<lambda>p. ph_type p = 1 \<and> unat (x - ph_vaddr p) < seg_len f p) (rev ps))"

lemma find_append: "find P (xs @ ys) = (case find P xs of None \<Rightarrow> find P ys | Some x \<Rightarrow> Some x)"
  by (induction xs) auto

lemma read_segment:
  assumes "block_device f content"
  shows "\<exists>cnt. read_all f (ph_offset p) (ph_filesz p) =
    Some (cnt, map content [unat (ph_offset p)..<unat (ph_offset p) + seg_len f p])"
  using block_device.read_all_correct [OF assms, of "ph_offset p" "ph_filesz p"]
  by (auto simp: seg_len_def Let_def)

lemma covered_add_region: "covered rs a \<Longrightarrow> covered (snd (add_region r rs)) a"
  by (auto simp: add_region_def Let_def covered_insert_at split: prod.splits)

lemma covered_new_region:
  assumes "r_size r \<noteq> 0" "r_start r \<noteq> 0" "r_start r \<le> a" "a < r_end r"
  shows "covered (snd (add_region r rs)) a"
  using assms by (simp add: add_region_def covered_insert_at)

lemma push_12: "unat w * 4096 < 4294967296 \<Longrightarrow> unat (push_bit 12 w :: u32) = unat w * 4096"
  by (simp add: push_bit_eq_mult unat_word_ariths mult.commute)

lemma push_drop_12: "unat (push_bit 12 (drop_bit 12 v) :: u32) = unat v div 4096 * 4096"
proof -
  have "unat v div 4096 * 4096 \<le> unat v" by simp
  then have "unat v div 4096 * 4096 < 4294967296" using unat_lt_32 [of v] by linarith
  then show ?thesis using push_12 [of "drop_bit 12 v"] by (simp add: unat_drop_bit_32)
qed

lemma segment_region:
  assumes v: "0x80000000 \<le> unat (ph_vaddr p)" and e: "unat (ph_vaddr p) + unat (ph_memsz p) < 0xF0001000"
    and x: "unat (ph_vaddr p) \<le> unat x" "unat x < unat (ph_vaddr p) + unat (ph_memsz p)"
  shows "covered (snd (add_region (aligned_region p) rs)) x"
proof -
  let ?v = "unat (ph_vaddr p)" and ?m = "unat (ph_memsz p)"
  have m: "0 < ?m" using x by linarith
  let ?s = "push_bit 12 (drop_bit 12 (ph_vaddr p)) :: u32"
  let ?e = "push_bit 12 (drop_bit 12 (ph_vaddr p + ph_memsz p - 1) + 1) :: u32"
  have last: "unat (ph_vaddr p + ph_memsz p - 1) = ?v + ?m - 1"
  proof -
    have "unat (ph_vaddr p + ph_memsz p) = ?v + ?m" using e by (intro unat_add_no_wrap) linarith
    then show ?thesis using m by (subst unat_sub) (simp_all add: word_le_nat_alt)
  qed
  have s: "unat ?s = ?v div 4096 * 4096" by (rule push_drop_12)
  have ee: "unat ?e = ((?v + ?m - 1) div 4096 + 1) * 4096"
  proof -
    have le: "(?v + ?m - 1) div 4096 * 4096 \<le> ?v + ?m - 1" by simp
    have d: "unat (drop_bit 12 (ph_vaddr p + ph_memsz p - 1) + 1) = (?v + ?m - 1) div 4096 + 1"
    proof -
      have "unat (drop_bit 12 (ph_vaddr p + ph_memsz p - 1)) = (?v + ?m - 1) div 4096" by (simp add: unat_drop_bit_32 last)
      moreover have "(?v + ?m - 1) div 4096 + 1 < 4294967296" using le e by linarith
      ultimately show ?thesis by (simp add: unat_add_no_wrap)
    qed
    have "(d + 1) * 4096 < 4294967296" if "d * 4096 \<le> n" "n < 0xF0001000" for d n :: nat using that by simp
    then have "((?v + ?m - 1) div 4096 + 1) * 4096 < 4294967296" using le e by (meson diff_le_self le_less_trans)
    then show ?thesis using push_12 [of "drop_bit 12 (ph_vaddr p + ph_memsz p - 1) + 1"] unfolding d by blast
  qed
  have lo: "?v div 4096 * 4096 \<le> ?v" by simp
  have hi: "?v + ?m - 1 < ((?v + ?m - 1) div 4096 + 1) * 4096" by (simp add: dividend_less_times_div mult.commute)
  have r: "aligned_region p = \<lparr>r_start = ?s, r_end = ?e, r_size = ?e - ?s\<rparr>"
    by (simp add: aligned_region_def new_region_def Let_def)
  have ne: "?e \<noteq> ?s"
  proof
    assume "?e = ?s"
    then have "unat ?e = unat ?s" by simp
    then show False using s ee lo hi m by linarith
  qed
  have "?v div 4096 * 4096 \<noteq> 0" using v by simp
  then have "?s \<noteq> 0" using s by (metis unat_0)
  moreover have "unat ?s \<le> unat x" unfolding s using lo x by linarith
  then have "?s \<le> x" by (simp add: word_le_nat_alt)
  moreover have "unat x < unat ?e" unfolding ee using hi x by linarith
  then have "x < ?e" by (simp add: word_less_nat_alt)
  ultimately show ?thesis using ne by (intro covered_new_region) (simp_all add: r)
qed

lemma covered_fold:
  "covered rs a \<Longrightarrow> covered (fold (\<lambda>p rs. if ph_type p = 1 then snd (add_region (aligned_region p) rs) else rs) ps rs) a"
  by (induction ps arbitrary: rs) (auto intro: covered_add_region)

lemma covered_segment:
  assumes "p \<in> set ps" "ph_type p = 1" "0x80000000 \<le> unat (ph_vaddr p)" "unat (ph_vaddr p) + unat (ph_memsz p) < 0xF0001000"
    "unat (ph_vaddr p) \<le> unat x" "unat x < unat (ph_vaddr p) + unat (ph_memsz p)"
  shows "covered (fold (\<lambda>p rs. if ph_type p = 1 then snd (add_region (aligned_region p) rs) else rs) ps rs) x"
proof -
  obtain us vs where "ps = us @ p # vs" using assms(1) by (meson split_list)
  then show ?thesis using assms by (simp add: covered_fold segment_region)
qed

section \<open>Properties\<close>

text \<open>
  C29.  A file \<^verbatim>\<open>valid_load\<close> accepts has a well-formed header, every program header can be read, every
  segment to load starts in the user range and ends below \<^verbatim>\<open>0xF0001000\<close> or, because of the
  wrap-around of the sum, exactly at the end of the address space, and the entry point lies inside
  a segment.
\<close>

theorem valid_load_accepts:
  assumes "valid_load f = Some 1"
  shows "\<exists>h ps. read_header f = Some h \<and> \<not> header_bad h \<and> read_phs f h 0 (unat (eh_phnum h)) = Some ps \<and>
    (\<forall>p \<in> set ps. ph_type p = 1 \<longrightarrow> 0x80000000 \<le> unat (ph_vaddr p) \<and>
      (unat (ph_vaddr p) + unat (ph_memsz p) < 0xF0001000 \<or> unat (ph_vaddr p) + unat (ph_memsz p) = 4294967296)) \<and>
    (\<exists>p \<in> set ps. ph_type p = 1 \<and> unat (ph_vaddr p) \<le> unat (eh_entry h) \<and>
      unat (eh_entry h) < unat (ph_vaddr p) + unat (ph_memsz p) \<and> unat (ph_vaddr p) + unat (ph_memsz p) < 0xF0001000)"
proof -
  obtain h ps where h: "read_header f = Some h" "\<not> header_bad h" "read_phs f h 0 (unat (eh_phnum h)) = Some ps"
    "\<And>p. p \<in> set ps \<Longrightarrow> ph_type p = 1 \<Longrightarrow> \<not> ph_outside p"
    and en: "\<exists>p \<in> set ps. ph_type p = 1 \<and> ph_vaddr p \<le> eh_entry h \<and> eh_entry h < ph_vaddr p + ph_memsz p"
    by (rule valid_load_sound [OF assms]) metis
  have "\<exists>p \<in> set ps. ph_type p = 1 \<and> unat (ph_vaddr p) \<le> unat (eh_entry h) \<and>
      unat (eh_entry h) < unat (ph_vaddr p) + unat (ph_memsz p) \<and> unat (ph_vaddr p) + unat (ph_memsz p) < 0xF0001000"
    using en entry_segment [OF h(4)] by blast
  then show ?thesis using h not_outside_nat by blast
qed

section \<open>A small program\<close>

definition ram_file :: "u8 list \<Rightarrow> block_io" where
  "ram_file bs = \<lparr>block_size = 1024, size_in_bytes = of_nat (length bs),
     read_block = (\<lambda>k. Some (map (\<lambda>i. if i < length bs then bs ! i else 0) [unat k * 1024..<unat k * 1024 + 1024]))\<rparr>"

interpretation ram: block_device "ram_file bs" "\<lambda>i. if i < length bs then bs ! i else 0" for bs
  by unfold_locales (simp_all add: ram_file_def)

text \<open>
  An executable with one segment of \<open>memsz\<close> bytes at \<^verbatim>\<open>0x80000000\<close>, of which the file holds
  the four bytes at offset 84.
\<close>

definition ex_elf :: "u8 \<Rightarrow> u8 list" where
  "ex_elf memsz = [0x7f, 69, 76, 70, 1, 1, 1, 0, 0, 0, 0, 0, 0, 0, 0, 0, 2, 0, 3, 0, 1, 0, 0, 0,
     2, 0, 0, 0x80, 52, 0, 0, 0, 0, 0, 0, 0, 0, 0, 0, 0, 52, 0, 32, 0, 1, 0, 0, 0, 0, 0, 0, 0,
     1, 0, 0, 0, 84, 0, 0, 0, 0, 0, 0, 0x80, 0, 0, 0, 0, 4, 0, 0, 0, memsz, 0, 0, 0, 7, 0, 0, 0, 0, 16, 0, 0,
     0x90, 0x91, 0x92, 0xC3]"

lemma ram_size [simp]: "size_in_bytes (ram_file bs) = of_nat (length bs)"
  by (simp add: ram_file_def)

lemma ex_elf_length [simp]: "length (ex_elf z) = 88"
  by (simp add: ex_elf_def)

lemma ram_slice:
  "a + n \<le> length xs \<Longrightarrow> map (\<lambda>i. if i < length xs then xs ! i else 0) [a..<a + n] = take n (drop a xs)"
  by (rule nth_equalityI) simp_all

definition ex_header :: ElfHeader where "ex_header = ElfHeader_of (take 52 (ex_elf 0))"

definition ex_ph :: "u8 \<Rightarrow> ProgramHeader" where "ex_ph memsz = ProgramHeader_of (take 32 (drop 52 (ex_elf memsz)))"

lemma ex_header: "read_header (ram_file (ex_elf z)) = Some ex_header"
proof -
  have "read_thing (ram_file (ex_elf z)) 0 52 = Some (take 52 (drop 0 (ex_elf z)))"
    using ram.read_thing_correct [of 0 52 "ex_elf z"] ram_slice [of 0 52 "ex_elf z"] by simp
  also have "take 52 (drop 0 (ex_elf z)) = take 52 (ex_elf 0)" by (simp add: ex_elf_def)
  finally show ?thesis by (simp add: read_header_def sizeof_ElfHeader_def ex_header_def)
qed

lemma ex_header_fields: "eh_phnum ex_header = 1" "eh_entry ex_header = 0x80000002" "eh_phoff ex_header = 52"
  "eh_phentsize ex_header = 32" "\<not> header_bad ex_header"
  by (simp_all add: ex_header_def ElfHeader_of_def ex_elf_def le32_def le16_def header_bad_def)

lemma ex_ph: "read_ph (ram_file (ex_elf z)) ex_header 0 = Some (ex_ph z)"
proof -
  have "read_thing (ram_file (ex_elf z)) 52 32 = Some (take 32 (drop 52 (ex_elf z)))"
    using ram.read_thing_correct [of 52 32 "ex_elf z"] ram_slice [of 52 32 "ex_elf z"] by simp
  then show ?thesis by (simp add: read_ph_def sizeof_ProgramHeader_def ex_ph_def ex_header_fields)
qed

lemma ex_ph_fields: "ph_type (ex_ph z) = 1" "ph_offset (ex_ph z) = 84" "ph_vaddr (ex_ph z) = 0x80000000"
  "ph_filesz (ex_ph z) = 4" "ph_memsz (ex_ph z) = ucast z"
  by (simp_all add: ex_ph_def ProgramHeader_of_def ex_elf_def le32_def)

lemma ex_valid: "valid_load (ram_file (ex_elf 16)) = Some 1"
  by (simp add: valid_load_def Let_def ex_header ex_header_fields ex_ph ex_ph_fields ph_outside_def sizeof_ElfHeader_def)

lemma ex_phs: "read_phs (ram_file (ex_elf z)) ex_header 0 1 = Some [ex_ph z]"
  by (simp add: ex_ph)

lemma valid_load_accepts_witness:
  "valid_load (ram_file (ex_elf 16)) = Some 1 \<and>
   (\<exists>h ps. read_header (ram_file (ex_elf 16)) = Some h \<and> read_phs (ram_file (ex_elf 16)) h 0 (unat (eh_phnum h)) = Some ps \<and>
      (\<exists>p \<in> set ps. unat (ph_vaddr p) \<le> unat (eh_entry h)))"
  using valid_load_accepts [OF ex_valid] ex_valid by blast

text \<open>
  Two gaps of the check.  A segment that ends exactly at the end of the 32-bit address space,
  across the kernel's shared page and the interrupt controllers, is not outside for it.  And the
  size of a segment in the file is not compared with its size in memory: a file is accepted whose only
  segment has four bytes to write and three bytes of memory.
\<close>

theorem valid_load_gaps:
  "\<not> ph_outside \<lparr>ph_type = 1, ph_offset = 0, ph_vaddr = 0xC0000000, ph_paddr = 0, ph_filesz = 0, ph_memsz = 0x40000000,
     ph_flags = 7, ph_align = 0\<rparr> \<and>
   valid_load (ram_file (ex_elf 3)) = Some 1 \<and> read_phs (ram_file (ex_elf 3)) ex_header 0 1 = Some [ex_ph 3] \<and>
   ph_memsz (ex_ph 3) = 3 \<and> seg_len (ram_file (ex_elf 3)) (ex_ph 3) = 4"
proof -
  have "valid_load (ram_file (ex_elf 3)) = Some 1"
    by (simp add: valid_load_def Let_def ex_header ex_header_fields ex_ph ex_ph_fields ph_outside_def sizeof_ElfHeader_def)
  then show ?thesis using ex_phs [of 3] by (simp add: ph_outside_def seg_len_def ex_ph_fields)
qed

end
