(* ===== verification/User_Mem.thy ===== *)
theory User_Mem
  imports Vmm Elf
begin

text \<open>
  How kernel code reaches user memory.  A dereference in \<^verbatim>\<open>kernel/sys.cc\<close> of a user pointer
  goes through the page tables of the running process; when the page is not there the processor
  calls \<^verbatim>\<open>vmm_pageFault\<close> (\<^verbatim>\<open>kernel/vmm.cc\<close>), which gives the page a frame if a memory
  region of the process holds the address, and the access is tried again.  \<open>load8\<close> and
  \<open>store8\<close> are one such access on the words of physical memory.

  The theorem of this theory is that all of this is invisible: the operations refine a flat
  array of bytes, zero where nothing was written yet, and what one process writes no process
  with other frames can see.  The locale \<open>flat_memory\<close> is that contract, and the accesses
  to words, blocks of bytes and strings are verified in it.
\<close>

section \<open>Bytes of a word\<close>

definition word_byte :: "nat \<Rightarrow> u32 \<Rightarrow> u8" where
  "word_byte i w = ucast (drop_bit (8 * i) w)"

definition word_put :: "nat \<Rightarrow> u8 \<Rightarrow> u32 \<Rightarrow> u32" where
  "word_put i b w = (w AND NOT (push_bit (8 * i) 0xFF)) OR push_bit (8 * i) (ucast b)"

text \<open>The byte at a physical address, and physical memory with one byte changed.\<close>

definition byte_at :: "(u32 \<Rightarrow> u32) \<Rightarrow> u32 \<Rightarrow> u8" where
  "byte_at m pa = word_byte (unat pa mod 4) (m (pa - (pa AND 3)))"

definition put_byte :: "u32 \<Rightarrow> u8 \<Rightarrow> phys \<Rightarrow> phys" where
  "put_byte pa b s = (let w = pa - (pa AND 3) in s\<lparr>mem := (mem s)(w := word_put (unat pa mod 4) b (mem s w))\<rparr>)"

section \<open>Code that may not come back\<close>

text \<open>
  Kernel code either goes on with a value and a new state, or it stops for a reason \<open>'o\<close>:
  control leaves it for good.
\<close>

datatype ('a, 's, 'o) run = Done 'a 's | Stop 'o

fun andthen :: "('a, 's, 'o) run \<Rightarrow> ('a \<Rightarrow> 's \<Rightarrow> ('b, 't, 'o) run) \<Rightarrow> ('b, 't, 'o) run" where
  "andthen (Done x s) f = f x s"
| "andthen (Stop r) f = Stop r"

lemma andthen_cong [fundef_cong]:
  "m = m' \<Longrightarrow> (\<And>x s. m' = Done x s \<Longrightarrow> f x s = g x s) \<Longrightarrow> andthen m f = andthen m' g"
  by (cases m') auto

lemma andthen_assoc: "andthen (andthen m f) g = andthen m (\<lambda>x s. andthen (f x s) g)"
  by (cases m) auto

section \<open>One access\<close>

text \<open>
  An access stops when it is a page fault that the process's regions do not cover, or when
  \<^verbatim>\<open>alloc_frame\<close> panics because no frame is left.
\<close>

datatype fault = Fault u32 phys | NoFrame

definition page_in :: "region list \<Rightarrow> u32 \<Rightarrow> u32 \<Rightarrow> phys \<Rightarrow> (u32, phys, fault) run" where
  "page_in rs pd va s =
     (case phys_addr (mem s) pd va of
        Some pa \<Rightarrow> Done pa s
      | None \<Rightarrow>
          if \<not> contains_regions rs va va then Stop (Fault va s)
          else (case map_page (pd AND 0xFFFFF000) va s of
              None \<Rightarrow> Stop NoFrame
            | Some s' \<Rightarrow> (case phys_addr (mem s') pd va of None \<Rightarrow> Stop NoFrame | Some pa \<Rightarrow> Done pa s')))"

definition load8 :: "region list \<Rightarrow> u32 \<Rightarrow> u32 \<Rightarrow> phys \<Rightarrow> (u8, phys, fault) run" where
  "load8 rs pd va s = andthen (page_in rs pd va s) (\<lambda>pa s'. Done (byte_at (mem s') pa) s')"

definition store8 :: "region list \<Rightarrow> u32 \<Rightarrow> u32 \<Rightarrow> u8 \<Rightarrow> phys \<Rightarrow> (unit, phys, fault) run" where
  "store8 rs pd va b s = andthen (page_in rs pd va s) (\<lambda>pa s'. Done () (put_byte pa b s'))"

section \<open>Words and blocks of bytes\<close>

text \<open>
  Accesses to \<^verbatim>\<open>uint32_t\<close> objects and to buffers, over any way \<open>ld\<close> and \<open>st\<close> to access a
  byte; the words are little endian.
\<close>

definition load32 :: "(u32 \<Rightarrow> 's \<Rightarrow> (u8, 's, 'o) run) \<Rightarrow> u32 \<Rightarrow> 's \<Rightarrow> (u32, 's, 'o) run" where
  "load32 ld va s =
     andthen (ld va s) (\<lambda>b0 s. andthen (ld (va + 1) s) (\<lambda>b1 s. andthen (ld (va + 2) s) (\<lambda>b2 s.
       andthen (ld (va + 3) s) (\<lambda>b3 s. Done (le32 [b0, b1, b2, b3] 0) s))))"

fun store_bytes :: "(u32 \<Rightarrow> u8 \<Rightarrow> 's \<Rightarrow> (unit, 's, 'o) run) \<Rightarrow> u32 \<Rightarrow> u8 list \<Rightarrow> 's \<Rightarrow> (unit, 's, 'o) run" where
  "store_bytes st va [] s = Done () s"
| "store_bytes st va (b # bs) s = andthen (st va b s) (\<lambda>_ s. store_bytes st (va + 1) bs s)"

definition word_bytes :: "u32 \<Rightarrow> u8 list" where
  "word_bytes w = map (\<lambda>i. word_byte i w) [0, 1, 2, 3]"

definition store32 :: "(u32 \<Rightarrow> u8 \<Rightarrow> 's \<Rightarrow> (unit, 's, 'o) run) \<Rightarrow> u32 \<Rightarrow> u32 \<Rightarrow> 's \<Rightarrow> (unit, 's, 'o) run" where
  "store32 st va w s = store_bytes st va (word_bytes w) s"

section \<open>Well-formed address spaces\<close>

definition user_va :: "u32 \<Rightarrow> bool" where
  "user_va va \<longleftrightarrow> 0x80000000 \<le> va \<and> va < 0xF0000000"

abbreviation page :: "u32 \<Rightarrow> u32" where
  "page va \<equiv> va AND 0xFFFFF000"

text \<open>
  In the private user range every mapped page has an allocated frame of its own, which is not a
  table, and may be read and written by user code.
\<close>

definition space_ok :: "u32 \<Rightarrow> ptr list \<Rightarrow> phys \<Rightarrow> u32 \<Rightarrow> bool" where
  "space_ok base fs s pd \<longleftrightarrow> phys_ok base fs s \<and> tables_ok base fs s pd \<and>
     (\<forall>i. 512 \<le> i \<longrightarrow> i < 960 \<longrightarrow> present (pt_get s pd i) \<longrightarrow> pt_get s pd i AND 6 = 6) \<and>
     (\<forall>va x. user_va va \<longrightarrow> mmu_walk (mem s) pd va = Some x \<longrightarrow>
        allocated base fs s (x_frame x) \<and> x_frame x \<noteq> pd \<and>
        (\<forall>i < 1024. present (pt_get s pd i) \<longrightarrow> x_frame x \<noteq> frame_of (pt_get s pd i))) \<and>
     (\<forall>va va' x x'. user_va va \<longrightarrow> user_va va' \<longrightarrow> mmu_walk (mem s) pd va = Some x \<longrightarrow>
        mmu_walk (mem s) pd va' = Some x' \<longrightarrow> x_frame x = x_frame x' \<longrightarrow> page va = page va')"

text \<open>The memory a process sees: bytes, zero where no page is mapped yet.\<close>

definition user_view :: "u32 \<Rightarrow> phys \<Rightarrow> u32 \<Rightarrow> u8" where
  "user_view pd s va =
     (if user_va va then (case phys_addr (mem s) pd va of None \<Rightarrow> 0 | Some pa \<Rightarrow> byte_at (mem s) pa) else 0)"

text \<open>The pages of a set of addresses that have no frame yet.\<close>

definition missing :: "phys \<Rightarrow> u32 \<Rightarrow> u32 set \<Rightarrow> u32 set" where
  "missing s pd A = page ` {va \<in> A. mmu_walk (mem s) pd va = None}"

text \<open>
  A process is ready to access the addresses \<open>A\<close>: they are in its user range, its regions
  cover those that have no frame yet, and enough frames are left for them and their tables.
\<close>

definition accessible :: "u32 \<Rightarrow> region list \<Rightarrow> u32 \<Rightarrow> ptr list \<Rightarrow> phys \<Rightarrow> u32 set \<Rightarrow> bool" where
  "accessible base rs pd fs s A \<longleftrightarrow> space_ok base fs s pd \<and>
     (\<forall>va \<in> A. user_va va \<and> (mmu_walk (mem s) pd va = None \<longrightarrow> covered rs va)) \<and>
     2 * card (missing s pd A) \<le> frames_left fs s"

text \<open>The frames of an address space: its directory, its user tables, its user pages.\<close>

definition own :: "phys \<Rightarrow> u32 \<Rightarrow> u32 set" where
  "own s pd = {pd} \<union> {frame_of (pt_get s pd i) |i. 512 \<le> i \<and> i < 960 \<and> present (pt_get s pd i)} \<union>
     {x_frame x |va x. user_va va \<and> mmu_walk (mem s) pd va = Some x}"

text \<open>What a process may do to physical memory: it writes its own frames, and takes free ones.\<close>

definition confined :: "u32 \<Rightarrow> u32 \<Rightarrow> ptr list \<Rightarrow> phys \<Rightarrow> ptr list \<Rightarrow> phys \<Rightarrow> bool" where
  "confined base pd fs s fs' s' \<longleftrightarrow>
     (\<forall>q. allocated base fs s q \<longrightarrow> allocated base fs' s' q) \<and>
     (\<forall>q j. allocated base fs s q \<longrightarrow> q \<notin> own s pd \<longrightarrow> j < 1024 \<longrightarrow> pt_get s' q j = pt_get s q j) \<and>
     own s' pd \<subseteq> own s pd \<union> {q. \<not> allocated base fs s q} \<and>
     (\<forall>i < 1024. i < 512 \<or> 960 \<le> i \<longrightarrow> pt_get s' pd i = pt_get s pd i)"

section \<open>Lemmas on bytes\<close>

lemma word_byte_put: "i < 4 \<Longrightarrow> j < 4 \<Longrightarrow> word_byte j (word_put i b w) = (if i = j then b else word_byte j w)"
proof -
  assume ij: "i < 4" "j < 4"
  show ?thesis
  proof (rule bit_word_eqI)
    fix n :: nat assume "n < LENGTH(8)"
    then have n: "n < 8" by simp
    have F: "(0xFF :: u32) = mask 8" by (simp add: mask_eq_exp_minus_1)
    have i: "8 * i \<le> 8 * j + n \<and> 8 * j + n - 8 * i < 8 \<longleftrightarrow> i = j" using n by linarith
    have "8 * j + n < 32" using n ij by linarith
    moreover have "m < 8" if "bit b m" for m using bit_imp_le_length [OF that] by simp
    ultimately show "bit (word_byte j (word_put i b w)) n = bit (if i = j then b else word_byte j w) n"
      using n i by (auto simp: word_byte_def word_put_def F bit_simps)
  qed
qed

lemma unat_and_3: "unat (x AND 3 :: u32) = unat x mod 4"
  using unat_and_mask_32 [of x 2] by (simp add: mask_eq_exp_minus_1)

lemma frame_or_offset: "page_aligned f \<Longrightarrow> unat (f OR (va AND 0xFFF)) = unat f + unat va mod 4096"
proof -
  assume f: "page_aligned f"
  have "f AND (va AND 0xFFF) = va AND (f AND 0xFFF)" by (rule and.left_commute)
  also have "\<dots> = 0" using f by (simp add: page_aligned_def)
  finally have z: "f AND (va AND 0xFFF) = 0" .
  have "f OR (va AND 0xFFF) = f + (va AND 0xFFF)"
    using word_plus_and_or [of f "va AND 0xFFF"] unfolding z by simp
  moreover have "unat va mod 4096 < 4096" by simp
  then have "unat f + unat va mod 4096 < 4294967296" using page_aligned_bound [OF f] by linarith
  ultimately show ?thesis by (simp add: unat_add_no_wrap unat_page_offset)
qed

text \<open>A byte of a page is a byte of an entry of its frame.\<close>

lemma frame_word:
  assumes "page_aligned f"
  shows "(f OR (va AND 0xFFF)) - ((f OR (va AND 0xFFF)) AND 3) = elem f (unat va mod 4096 div 4)"
    and "unat (f OR (va AND 0xFFF)) mod 4 = unat va mod 4"
proof -
  let ?pa = "f OR (va AND 0xFFF)"
  obtain k where k: "unat f = 4096 * k" using page_aligned_mult [OF assms] by blast
  note pa = frame_or_offset [OF assms, of va]
  define x where "x = unat va mod 4096"
  have "(4096 * k + x) mod 4 = (4 * (1024 * k) + x) mod 4" by simp
  then have m: "unat ?pa mod 4 = x mod 4" by (simp only: mod_mult_self4 pa k x_def)
  have "x mod 4 = unat va mod 4" by (simp add: x_def mod_mod_cancel)
  then show "unat ?pa mod 4 = unat va mod 4" using m by simp
  have "?pa AND 3 \<le> ?pa" by (rule word_and_le2)
  then have "unat (?pa - (?pa AND 3)) = unat ?pa - x mod 4" by (simp add: unat_sub unat_and_3 m)
  also have "\<dots> = unat f + 4 * (x div 4)"
    using pa mult_div_mod_eq [of 4 x] unfolding x_def by linarith
  also have "\<dots> = unat (elem f (x div 4))" using assms by (subst unat_elem) (auto simp: x_def div_less_iff_less_mult)
  finally show "?pa - (?pa AND 3) = elem f (unat va mod 4096 div 4)" by (simp add: word_unat_eq_iff x_def)
qed

lemma byte_at_frame:
  "page_aligned f \<Longrightarrow> byte_at (mem s) (f OR (va AND 0xFFF)) = word_byte (unat va mod 4) (pt_get s f (unat va mod 4096 div 4))"
  using frame_word [of f va] by (simp add: byte_at_def pt_get_def)

lemma put_byte_frame:
  "page_aligned f \<Longrightarrow> put_byte (f OR (va AND 0xFFF)) b s =
     pt_set f (unat va mod 4096 div 4) (word_put (unat va mod 4) b (pt_get s f (unat va mod 4096 div 4))) s"
  using frame_word [of f va] by (simp add: put_byte_def pt_set_def pt_get_def Let_def)

lemma word_index [simp]: "n mod 4096 div 4 < (1024 :: nat)"
  by (simp add: div_less_iff_less_mult)

text \<open>Two addresses of one page with the same word and byte are equal.\<close>

lemma same_byte:
  assumes "page va = page va'" "unat va mod 4096 div 4 = unat va' mod 4096 div 4" "unat va mod 4 = unat va' mod 4"
  shows "va = va'"
proof -
  have "unat va div 4096 * 4096 = unat va' div 4096 * 4096"
    using assms(1) unat_page_base by metis
  then have d: "unat va div 4096 = unat va' div 4096" by simp
  have m4: "n mod 4096 = 4 * (n mod 4096 div 4) + n mod 4" for n :: nat
  proof -
    have "n mod 4096 mod 4 = n mod 4" by (rule mod_mod_cancel) simp
    then show ?thesis using mult_div_mod_eq [of 4 "n mod 4096"] by simp
  qed
  have "unat va mod 4096 = unat va' mod 4096"
    by (subst m4 [of "unat va"], subst m4 [of "unat va'"]) (simp only: assms(2,3))
  then have "unat va = unat va'" using d by (metis div_mult_mod_eq)
  then show ?thesis by (simp add: word_unat_eq_iff)
qed

section \<open>Lemmas on address spaces\<close>

lemma user_va_pdi: "user_va va \<longleftrightarrow> 512 \<le> pdi_of va \<and> pdi_of va < 960"
  by (simp add: user_va_def word_le_unat word_less_unat pdi_of_div div_less_iff_less_mult less_eq_div_iff_mult_less_eq)

lemma user_va_page: "page va = page va' \<Longrightarrow> user_va va \<longleftrightarrow> user_va va'"
  using same_page_iff [of va va'] by (simp add: user_va_pdi)

text \<open>The page with the given indices.\<close>

definition page_at :: "nat \<Rightarrow> nat \<Rightarrow> u32" where
  "page_at pdi pti = of_nat (pdi * 4194304 + pti * 4096)"

lemma page_at_indices: "pdi < 1024 \<Longrightarrow> pti < 1024 \<Longrightarrow> pdi_of (page_at pdi pti) = pdi \<and> pti_of (page_at pdi pti) = pti"
proof -
  assume b: "pdi < 1024" "pti < 1024"
  then have "pdi * 4194304 + pti * 4096 < 4294967296" by simp
  then have u: "unat (page_at pdi pti) = pdi * 4194304 + pti * 4096"
    unfolding page_at_def by (simp add: unat_of_nat del: of_nat_add of_nat_mult)
  have "pdi * 4194304 + pti * 4096 = (pdi * 1024 + pti) * 4096" by simp
  then have "(pdi * 4194304 + pti * 4096) div 4096 = pdi * 1024 + pti" by (simp only: nonzero_mult_div_cancel_right)
  then show ?thesis using b by (simp add: pdi_of_div pti_of_div u)
qed

lemma page_at_page: "pdi < 1024 \<Longrightarrow> pti < 1024 \<Longrightarrow> page va = page (page_at pdi pti) \<longleftrightarrow> pdi_of va = pdi \<and> pti_of va = pti"
  using same_page_iff [of va "page_at pdi pti"] page_at_indices by metis

lemma contains_covered: "contains_regions rs va va = covered rs va"
  by (induction rs) (auto simp: covered_def)

lemma walk_page: "page va = page va' \<Longrightarrow> mmu_walk m pd va = mmu_walk m pd va'"
  using same_page_iff [of va va'] by (simp add: mmu_walk_def Let_def)

lemma walk_aligned [simp]: "mmu_walk m pd va = Some x \<Longrightarrow> page_aligned (x_frame x)"
  by (auto simp: mmu_walk_def Let_def split: if_splits)

lemma view_mapped:
  "user_va va \<Longrightarrow> mmu_walk (mem s) pd va = Some x \<Longrightarrow>
     user_view pd s va = word_byte (unat va mod 4) (pt_get s (x_frame x) (unat va mod 4096 div 4))"
  by (simp add: user_view_def phys_addr_def byte_at_frame)

lemma view_unmapped: "mmu_walk (mem s) pd va = None \<Longrightarrow> user_view pd s va = 0"
  by (simp add: user_view_def phys_addr_def)

lemma view_outside: "\<not> user_va va \<Longrightarrow> user_view pd s va = 0"
  by (simp add: user_view_def)

lemma word_byte_0 [simp]: "word_byte i 0 = 0"
  by (simp add: word_byte_def)

lemma space_okD:
  assumes "space_ok base fs s pd"
  shows "phys_ok base fs s" "tables_ok base fs s pd" "allocated base fs s pd" "page_aligned pd"
    "user_va va \<Longrightarrow> present (pt_get s pd (pdi_of va)) \<Longrightarrow> pt_get s pd (pdi_of va) AND 6 = 6"
    "user_va va \<Longrightarrow> mmu_walk (mem s) pd va = Some x \<Longrightarrow> allocated base fs s (x_frame x) \<and> x_frame x \<noteq> pd"
    "user_va va \<Longrightarrow> mmu_walk (mem s) pd va = Some x \<Longrightarrow> i < 1024 \<Longrightarrow> present (pt_get s pd i) \<Longrightarrow>
       x_frame x \<noteq> frame_of (pt_get s pd i)"
    "user_va va \<Longrightarrow> user_va va' \<Longrightarrow> mmu_walk (mem s) pd va = Some x \<Longrightarrow> mmu_walk (mem s) pd va' = Some x' \<Longrightarrow>
       x_frame x = x_frame x' \<Longrightarrow> page va = page va'"
proof -
  show ok: "phys_ok base fs s" "tables_ok base fs s pd" using assms by (simp_all add: space_ok_def)
  then show "allocated base fs s pd" by (simp add: tables_ok_def)
  then show "page_aligned pd" by (simp add: allocated_def)
  show "user_va va \<Longrightarrow> present (pt_get s pd (pdi_of va)) \<Longrightarrow> pt_get s pd (pdi_of va) AND 6 = 6"
    using assms unfolding space_ok_def user_va_pdi by blast
  show "user_va va \<Longrightarrow> mmu_walk (mem s) pd va = Some x \<Longrightarrow> allocated base fs s (x_frame x) \<and> x_frame x \<noteq> pd"
    "user_va va \<Longrightarrow> mmu_walk (mem s) pd va = Some x \<Longrightarrow> i < 1024 \<Longrightarrow> present (pt_get s pd i) \<Longrightarrow>
       x_frame x \<noteq> frame_of (pt_get s pd i)"
    using assms unfolding space_ok_def by blast+
  show "user_va va \<Longrightarrow> user_va va' \<Longrightarrow> mmu_walk (mem s) pd va = Some x \<Longrightarrow> mmu_walk (mem s) pd va' = Some x' \<Longrightarrow>
       x_frame x = x_frame x' \<Longrightarrow> page va = page va'"
    using assms unfolding space_ok_def by blast
qed

lemma space_ok_same:
  assumes ok: "space_ok base fs s pd" and "phys_ok base fs s'" and al: "\<And>q. allocated base fs s' q = allocated base fs s q"
    and dir: "\<And>i. i < 1024 \<Longrightarrow> pt_get s' pd i = pt_get s pd i"
    and walk: "\<And>va. mmu_walk (mem s') pd va = mmu_walk (mem s) pd va"
  shows "space_ok base fs s' pd"
  unfolding space_ok_def
proof (intro conjI allI impI)
  show "phys_ok base fs s'" by fact
  show "tables_ok base fs s' pd" using space_okD(2) [OF ok] by (simp add: tables_ok_def al dir)
  show "pt_get s' pd i AND 6 = 6" if "512 \<le> i" "i < 960" "present (pt_get s' pd i)" for i
    using that ok dir [of i] by (simp add: space_ok_def)
  fix va x assume va: "user_va va" and "mmu_walk (mem s') pd va = Some x"
  then have w: "mmu_walk (mem s) pd va = Some x" by (simp add: walk)
  show "allocated base fs s' (x_frame x)" "x_frame x \<noteq> pd" using space_okD(6) [OF ok va w] al by simp_all
  show "x_frame x \<noteq> frame_of (pt_get s' pd i)" if "i < 1024" "present (pt_get s' pd i)" for i
    using that space_okD(7) [OF ok va w] dir by simp
  show "page va = page va'" if "user_va va'" "mmu_walk (mem s') pd va' = Some x'" "x_frame x = x_frame x'" for va' x'
    using space_okD(8) [OF ok va that(1) w _ that(3)] that(2) by (simp add: walk)
qed

text \<open>A frame the directory uses belongs to the address space when it serves a user page.\<close>

lemma ownI:
  "pd \<in> own s pd"
  "user_va va \<Longrightarrow> present (pt_get s pd (pdi_of va)) \<Longrightarrow> frame_of (pt_get s pd (pdi_of va)) \<in> own s pd"
  "user_va va \<Longrightarrow> mmu_walk (mem s) pd va = Some x \<Longrightarrow> x_frame x \<in> own s pd"
  unfolding own_def by (auto simp: user_va_pdi)

lemma own_allocated: "space_ok base fs s pd \<Longrightarrow> q \<in> own s pd \<Longrightarrow> allocated base fs s q"
  unfolding own_def using space_okD(3,6) tables_okD(1) [OF space_okD(2)] by fastforce

section \<open>Storing a byte in a mapped page\<close>

lemma store_mapped:
  fixes b :: u8
  assumes ok: "space_ok base fs s pd" and va: "user_va va" and w: "mmu_walk (mem s) pd va = Some x"
  defines "s' \<equiv> put_byte (x_frame x OR (va AND 0xFFF)) b s"
  shows "space_ok base fs s' pd" "confined base pd fs s fs s'" "user_view pd s' = (user_view pd s)(va := b)"
    "mmu_walk (mem s') pd va' = mmu_walk (mem s) pd va'" "frames_left fs s' = frames_left fs s"
proof -
  let ?i = "unat va mod 4096 div 4"
  have al: "page_aligned (x_frame x)" "allocated base fs s (x_frame x)" "x_frame x \<noteq> pd"
    using w space_okD(6) [OF ok va w] by auto
  have s': "s' = pt_set (x_frame x) ?i (word_put (unat va mod 4) b (pt_get s (x_frame x) ?i)) s"
    by (simp add: s'_def put_byte_frame al)
  have get: "pt_get s' q j = (if q = x_frame x \<and> j = ?i then word_put (unat va mod 4) b (pt_get s q j) else pt_get s q j)"
    if "page_aligned q" "j < 1024" for q j
    using that al by (auto simp: s' pt_get_set)
  have dir: "pt_get s' pd i = pt_get s pd i" if "i < 1024" for i
    using that al get space_okD(4) [OF ok] by simp
  have tab: "pt_get s' (frame_of (pt_get s pd i)) j = pt_get s (frame_of (pt_get s pd i)) j"
    if "i < 1024" "j < 1024" "present (pt_get s pd i)" for i j
    using that get space_okD(7) [OF ok va w that(1,3)] by simp
  show walk: "mmu_walk (mem s') pd va' = mmu_walk (mem s) pd va'" for va'
    using dir tab by (intro mmu_walk_cong space_okD(4) [OF ok]) auto
  show "frames_left fs s' = frames_left fs s" by (simp add: s')
  have "phys_ok base fs s'" unfolding s' by (rule pt_set_ok [OF space_okD(1) [OF ok] al(2) word_index])
  then show "space_ok base fs s' pd"
    by (rule space_ok_same [OF ok]) (simp add: s', erule dir, rule walk)
  have "(\<exists>i. q = frame_of (pt_get s' pd i) \<and> 512 \<le> i \<and> i < 960 \<and> present (pt_get s' pd i)) =
      (\<exists>i. q = frame_of (pt_get s pd i) \<and> 512 \<le> i \<and> i < 960 \<and> present (pt_get s pd i))" for q
  proof (rule ex_cong1)
    fix i :: nat
    show "(q = frame_of (pt_get s' pd i) \<and> 512 \<le> i \<and> i < 960 \<and> present (pt_get s' pd i)) =
      (q = frame_of (pt_get s pd i) \<and> 512 \<le> i \<and> i < 960 \<and> present (pt_get s pd i))"
      using dir [of i] by (cases "i < 960") auto
  qed
  then have own: "own s' pd = own s pd" unfolding own_def by (simp add: walk)
  have "pt_get s' q j = pt_get s q j" if "allocated base fs s q" "q \<notin> own s pd" "j < 1024" for q j
    using that get ownI(3) [OF va w] by (auto simp: allocated_def)
  then show "confined base pd fs s fs s'"
    using dir own unfolding confined_def by (simp add: s')
  show "user_view pd s' = (user_view pd s)(va := b)"
  proof
    fix va'
    show "user_view pd s' va' = ((user_view pd s)(va := b)) va'"
    proof (cases "user_va va' \<and> mmu_walk (mem s) pd va' \<noteq> None")
      case True
      then obtain x' where x': "mmu_walk (mem s) pd va' = Some x'" by auto
      have "x_frame x = x_frame x' \<Longrightarrow> page va = page va'"
        using space_okD(8) [OF ok va _ w x'] True by blast
      then have "x_frame x' = x_frame x \<and> unat va' mod 4096 div 4 = ?i \<and> unat va' mod 4 = unat va mod 4 \<longleftrightarrow> va' = va"
        using same_byte [of va va'] w x' by auto
      moreover have "user_view pd s' va' = word_byte (unat va' mod 4) (pt_get s' (x_frame x') (unat va' mod 4096 div 4))"
          "user_view pd s va' = word_byte (unat va' mod 4) (pt_get s (x_frame x') (unat va' mod 4096 div 4))"
        using True x' walk by (simp_all add: view_mapped)
      moreover note get [OF walk_aligned [OF x'] word_index, of "unat va'"]
        word_byte_put [of "unat va mod 4" "unat va' mod 4" b "pt_get s (x_frame x') (unat va' mod 4096 div 4)"]
      ultimately show ?thesis by (cases "x_frame x' = x_frame x \<and> unat va' mod 4096 div 4 = ?i") auto
    next
      case False
      then show ?thesis using walk w va by (auto simp: view_unmapped view_outside)
    qed
  qed
qed

section \<open>Demand paging keeps the view\<close>

lemma fresh_mapping_space:
  assumes ok: "space_ok base fs s pd" and va: "user_va va" and w: "mmu_walk (mem s) pd va = None"
    and m: "fresh_mapping base fs s pd va fs' s' p"
  shows "space_ok base fs' s' pd" "confined base pd fs s fs' s'" "user_view pd s' = user_view pd s"
    "mmu_walk (mem s') pd va = Some \<lparr>x_frame = p, x_user = True, x_write = True\<rparr>"
    "page va' \<noteq> page va \<Longrightarrow> mmu_walk (mem s') pd va' = mmu_walk (mem s) pd va'"
    "frames_left fs s = frames_left fs' s' + (if present (pt_get s pd (pdi_of va)) then 1 else 2)"
proof -
  let ?I = "pdi_of va"
  note pd = space_okD(3,4) [OF ok]
  have f: "phys_ok base fs' s'" "tables_ok base fs' s' pd"
      "mmu_walk (mem s') pd va = Some \<lparr>x_frame = p, x_user = True, x_write = True\<rparr>"
      "\<not> allocated base fs s p" "allocated base fs' s' p" "\<And>i. i < 1024 \<Longrightarrow> pt_get s' p i = 0"
      "\<And>q. allocated base fs s q \<Longrightarrow> allocated base fs' s' q"
      "\<And>va'. page va' \<noteq> page va \<Longrightarrow> mmu_walk (mem s') pd va' = mmu_walk (mem s) pd va'"
      "\<And>q j. allocated base fs s q \<Longrightarrow> j < 1024 \<Longrightarrow> q \<noteq> pd \<Longrightarrow>
        (present (pt_get s pd ?I) \<Longrightarrow> q \<noteq> frame_of (pt_get s pd ?I)) \<Longrightarrow> pt_get s' q j = pt_get s q j"
      "frames_left fs s = frames_left fs' s' + (if present (pt_get s pd ?I) then 1 else 2)"
      "\<And>j. j < 1024 \<Longrightarrow> j \<noteq> ?I \<or> present (pt_get s pd j) \<Longrightarrow> pt_get s' pd j = pt_get s pd j"
      "\<not> present (pt_get s pd ?I) \<Longrightarrow> \<not> allocated base fs s (frame_of (pt_get s' pd ?I)) \<and>
        frame_of (pt_get s' pd ?I) \<noteq> p \<and> pt_get s' pd ?I AND 6 = 6"
    using m unfolding fresh_mapping_def by blast+
  have tables: "present (pt_get s pd i) \<and> pt_get s' pd i = pt_get s pd i \<or>
      i = ?I \<and> \<not> present (pt_get s pd ?I) \<and> \<not> allocated base fs s (frame_of (pt_get s' pd i)) \<and> frame_of (pt_get s' pd i) \<noteq> p"
    if "i < 1024" "present (pt_get s' pd i)" for i
    using that f(11) [of i] f(12) by (cases "i = ?I") auto
  have pneq: "p \<noteq> pd" "p \<noteq> frame_of (pt_get s' pd i)" if "i < 1024" "present (pt_get s' pd i)" for i
    using tables [OF that] f(4) pd(1) tables_okD(1) [OF space_okD(2) [OF ok] that(1)] by auto
  have old: "mmu_walk (mem s) pd va' = Some x" "page va' \<noteq> page va" if "mmu_walk (mem s') pd va' = Some x" "x_frame x \<noteq> p" for va' x
    using that f(3) f(8) [of va'] walk_page [of va' va "mem s'" pd] by force+
  have new: "x_frame x = p" if "mmu_walk (mem s') pd va' = Some x" "page va' = page va" for va' x
    using that f(3) walk_page [of va' va "mem s'" pd] by auto
  have olds: "mmu_walk (mem s) pd va' = Some x" if "mmu_walk (mem s') pd va' = Some x" "page va' \<noteq> page va" for va' x
    using that f(8) [of va'] by simp
  have data: "x_frame x \<noteq> p" if "user_va va'" "mmu_walk (mem s) pd va' = Some x" for va' x
    using space_okD(6) [OF ok that] f(4) by auto
  show sp: "space_ok base fs' s' pd"
    unfolding space_ok_def
  proof (intro conjI allI impI)
    show "phys_ok base fs' s'" "tables_ok base fs' s' pd" by fact+
    show "pt_get s' pd i AND 6 = 6" if "512 \<le> i" "i < 960" "present (pt_get s' pd i)" for i
      using that tables [of i] ok f(12) by (auto simp: space_ok_def)
    fix va' x assume u: "user_va va'" and w': "mmu_walk (mem s') pd va' = Some x"
    show "allocated base fs' s' (x_frame x)" "x_frame x \<noteq> pd"
      using new [OF w'] olds [OF w'] f(5,7) pneq(1) space_okD(6) [OF ok u] f(4) pd(1) by (metis)+
    show "x_frame x \<noteq> frame_of (pt_get s' pd i)" if i: "i < 1024" "present (pt_get s' pd i)" for i
      using new [OF w'] olds [OF w'] pneq(2) [OF i] tables [OF i] space_okD(6) [OF ok u] space_okD(7) [OF ok u _ i(1)] by metis
    show "page va' = page va''" if "user_va va''" "mmu_walk (mem s') pd va'' = Some x''" "x_frame x = x_frame x''" for va'' x''
      using new [OF w'] olds [OF w'] new [OF that(2)] olds [OF that(2)] data u that space_okD(8) [OF ok u that(1)] by metis
  qed
  have view: "user_view pd s' va' = user_view pd s va'" for va'
  proof (cases "user_va va'")
    case True
    show ?thesis
    proof (cases "page va' = page va")
      case True
      then have "mmu_walk (mem s) pd va' = None" "mmu_walk (mem s') pd va' = Some \<lparr>x_frame = p, x_user = True, x_write = True\<rparr>"
        using w f(3) walk_page by metis+
      then show ?thesis using \<open>user_va va'\<close> f(6) by (simp add: view_mapped view_unmapped)
    next
      case False
      then have eq: "mmu_walk (mem s') pd va' = mmu_walk (mem s) pd va'" by (rule f(8))
      show ?thesis
      proof (cases "mmu_walk (mem s) pd va'")
        case (Some x)
        have "pt_get s' (x_frame x) j = pt_get s (x_frame x) j" if "j < 1024" for j
          using that space_okD(6,7) [OF ok True Some] by (intro f(9)) auto
        then show ?thesis using Some eq True by (simp add: view_mapped)
      qed (use eq in \<open>simp add: view_unmapped\<close>)
    qed
  qed (simp add: view_outside)
  show "confined base pd fs s fs' s'"
    unfolding confined_def
  proof (intro conjI allI impI subsetI)
    show "allocated base fs' s' q" if "allocated base fs s q" for q using that by (rule f(7))
    show "pt_get s' q j = pt_get s q j" if "allocated base fs s q" "q \<notin> own s pd" "j < 1024" for q j
      using that ownI(1) [of pd s] ownI(2) [OF va, of s pd] by (intro f(9)) auto
    show "pt_get s' pd i = pt_get s pd i" if "i < 1024" "i < 512 \<or> 960 \<le> i" for i
      using that va by (intro f(11)) (auto simp: user_va_pdi)
    fix q assume "q \<in> own s' pd"
    then consider "q = pd" | i where "q = frame_of (pt_get s' pd i)" "512 \<le> i" "i < 960" "present (pt_get s' pd i)"
      | va' x where "q = x_frame x" "user_va va'" "mmu_walk (mem s') pd va' = Some x"
      unfolding own_def by blast
    then show "q \<in> own s pd \<union> {q. \<not> allocated base fs s q}"
    proof cases
      case (2 i)
      then show ?thesis using tables [of i] unfolding own_def by fastforce
    next
      case (3 va' x)
      then show ?thesis using new [OF 3(3)] olds [OF 3(3)] f(4) ownI(3) [OF 3(2)] by blast
    qed (simp add: ownI)
  qed
  show "user_view pd s' = user_view pd s" using view by blast
  show "mmu_walk (mem s') pd va = Some \<lparr>x_frame = p, x_user = True, x_write = True\<rparr>"
    "page va' \<noteq> page va \<Longrightarrow> mmu_walk (mem s') pd va' = mmu_walk (mem s) pd va'"
    "frames_left fs s = frames_left fs' s' + (if present (pt_get s pd (pdi_of va)) then 1 else 2)"
    by (fact f(3), erule f(8), fact f(10))
qed

lemma page_in_unmapped:
  assumes ok: "space_ok base fs s pd" and va: "user_va va" and w: "mmu_walk (mem s) pd va = None"
    and room: "2 \<le> frames_left fs s"
  obtains s' fs' x where "map_page pd va s = Some s'" "space_ok base fs' s' pd" "confined base pd fs s fs' s'"
    "mmu_walk (mem s') pd va = Some x" "user_view pd s' = user_view pd s"
    "frames_left fs s \<le> frames_left fs' s' + 2"
    "\<And>va'. page va' \<noteq> page va \<Longrightarrow> mmu_walk (mem s') pd va' = mmu_walk (mem s) pd va'"
proof -
  obtain s' fs' p where m: "map_page pd va s = Some s'" "fresh_mapping base fs s pd va fs' s' p"
    using map_page_fresh [OF space_okD(1,2) [OF ok] room w] space_okD(5) [OF ok va] by blast
  note f = fresh_mapping_space [OF ok va w m(2)]
  have "frames_left fs s \<le> frames_left fs' s' + 2" using f(6) by simp
  then show thesis using that [OF m(1) f(1,2,4,3)] f(5) by blast
qed

section \<open>Accesses\<close>

lemma page_in_ok:
  assumes ac: "accessible base rs pd fs s A" and va: "va \<in> A" and fin: "finite A"
  obtains s' fs' x where "page_in rs pd va s = Done (x_frame x OR (va AND 0xFFF)) s'" "accessible base rs pd fs' s' A"
    "confined base pd fs s fs' s'" "mmu_walk (mem s') pd va = Some x" "user_view pd s' = user_view pd s"
proof -
  have ok: "space_ok base fs s pd" and u: "user_va va" and c: "mmu_walk (mem s) pd va = None \<Longrightarrow> covered rs va"
    using ac va by (auto simp: accessible_def)
  show thesis
  proof (cases "mmu_walk (mem s) pd va")
    case (Some x)
    then have "page_in rs pd va s = Done (x_frame x OR (va AND 0xFFF)) s" by (simp add: page_in_def phys_addr_def)
    moreover have "confined base pd fs s fs s" by (simp add: confined_def)
    ultimately show thesis using that ac Some by blast
  next
    case None
    have mem: "page va \<in> missing s pd A" using None va by (simp add: missing_def)
    have fm: "finite (missing s pd A)" using fin by (simp add: missing_def)
    have "0 < card (missing s pd A)" using mem fm card_gt_0_iff by blast
    then have room: "2 \<le> frames_left fs s" using ac by (simp add: accessible_def)
    obtain s' fs' x where m: "map_page pd va s = Some s'" "space_ok base fs' s' pd" "confined base pd fs s fs' s'"
        "mmu_walk (mem s') pd va = Some x" "user_view pd s' = user_view pd s" "frames_left fs s \<le> frames_left fs' s' + 2"
        "\<And>va'. page va' \<noteq> page va \<Longrightarrow> mmu_walk (mem s') pd va' = mmu_walk (mem s) pd va'"
      by (rule page_in_unmapped [OF ok u None room]) blast
    have still: "mmu_walk (mem s) pd va' = None \<and> page va' \<noteq> page va" if "mmu_walk (mem s') pd va' = None" for va'
      using that m(4) m(7) [of va'] walk_page [of va' va "mem s'" pd] by force
    have "missing s' pd A \<subseteq> missing s pd A - {page va}"
    proof
      fix q assume "q \<in> missing s' pd A"
      then obtain va' where v: "va' \<in> A" "mmu_walk (mem s') pd va' = None" "q = page va'"
        unfolding missing_def by blast
      have "page va' \<in> missing s pd A"
        unfolding missing_def using v(1) still [OF v(2)] by (intro imageI CollectI conjI) simp_all
      then show "q \<in> missing s pd A - {page va}" using still [OF v(2)] v(3) by simp
    qed
    then have "card (missing s' pd A) \<le> card (missing s pd A - {page va})" using fm by (simp add: card_mono)
    then have "Suc (card (missing s' pd A)) \<le> card (missing s pd A)"
      using card_Suc_Diff1 [OF fm mem] by linarith
    then have "2 * card (missing s' pd A) \<le> frames_left fs' s'"
      using ac m(6) by (simp add: accessible_def)
    then have "accessible base rs pd fs' s' A"
      using ac m(2) still by (auto simp: accessible_def)
    moreover have "page_in rs pd va s = Done (x_frame x OR (va AND 0xFFF)) s'"
      using None m(1,4) c space_okD(4) [OF ok] by (simp add: page_in_def phys_addr_def contains_covered page_base_aligned)
    ultimately show thesis using that m(3,4,5) by blast
  qed
qed

lemma load8_ok:
  assumes "accessible base rs pd fs s A" "va \<in> A" "finite A"
  shows "\<exists>s' fs'. load8 rs pd va s = Done (user_view pd s va) s' \<and> accessible base rs pd fs' s' A \<and>
     confined base pd fs s fs' s' \<and> user_view pd s' = user_view pd s"
proof -
  obtain s' fs' x where p: "page_in rs pd va s = Done (x_frame x OR (va AND 0xFFF)) s'" "accessible base rs pd fs' s' A"
    "confined base pd fs s fs' s'" "mmu_walk (mem s') pd va = Some x" "user_view pd s' = user_view pd s"
    by (rule page_in_ok [OF assms])
  have "user_va va" using assms(1,2) by (simp add: accessible_def)
  then have "byte_at (mem s') (x_frame x OR (va AND 0xFFF)) = user_view pd s' va"
    using p(4) by (simp add: user_view_def phys_addr_def)
  then show ?thesis using p by (auto simp: load8_def)
qed

lemma confined_trans:
  assumes "confined base pd fs s fs1 s1" "confined base pd fs1 s1 fs2 s2"
  shows "confined base pd fs s fs2 s2"
  unfolding confined_def
proof (intro conjI allI impI)
  note a = assms(1) [unfolded confined_def] and b = assms(2) [unfolded confined_def]
  show "allocated base fs2 s2 q" if "allocated base fs s q" for q using a b that by blast
  show "own s2 pd \<subseteq> own s pd \<union> {q. \<not> allocated base fs s q}" using a b by blast
  show "pt_get s2 q j = pt_get s q j" if "allocated base fs s q" "q \<notin> own s pd" "j < 1024" for q j
  proof -
    have "q \<notin> own s1 pd" "allocated base fs1 s1 q" using a that by blast+
    then have "pt_get s2 q j = pt_get s1 q j" using b that(3) by blast
    also have "\<dots> = pt_get s q j" using a that by blast
    finally show ?thesis .
  qed
  show "pt_get s2 pd i = pt_get s pd i" if "i < 1024" "i < 512 \<or> 960 \<le> i" for i using a b that by metis
qed

lemma store8_ok:
  assumes "accessible base rs pd fs s A" "va \<in> A" "finite A"
  shows "\<exists>s' fs'. store8 rs pd va b s = Done () s' \<and> accessible base rs pd fs' s' A \<and>
     confined base pd fs s fs' s' \<and> user_view pd s' = (user_view pd s)(va := b)"
proof -
  obtain s' fs' x where p: "page_in rs pd va s = Done (x_frame x OR (va AND 0xFFF)) s'" "accessible base rs pd fs' s' A"
    "confined base pd fs s fs' s'" "mmu_walk (mem s') pd va = Some x" "user_view pd s' = user_view pd s"
    by (rule page_in_ok [OF assms])
  have u: "user_va va" "space_ok base fs' s' pd" using p(2) assms(2) by (simp_all add: accessible_def)
  let ?s = "put_byte (x_frame x OR (va AND 0xFFF)) b s'"
  note st = store_mapped [OF u(2,1) p(4), of b]
  have "missing ?s pd A = missing s' pd A" by (simp add: missing_def st(4))
  then have "accessible base rs pd fs' ?s A" using p(2) st by (simp add: accessible_def)
  then show ?thesis using p(1,5) st confined_trans [OF p(3) st(2)] by (auto simp: store8_def)
qed

section \<open>What other address spaces see\<close>

lemma space_kept:
  assumes ok: "space_ok base fs s pd2" and ok': "phys_ok base fs' s'"
    and keep: "\<And>q j. q \<in> own s pd2 \<Longrightarrow> j < 1024 \<Longrightarrow> pt_get s' q j = pt_get s q j"
    and al: "\<And>q. allocated base fs s q \<Longrightarrow> allocated base fs' s' q"
  shows "space_ok base fs' s' pd2" "user_view pd2 s' = user_view pd2 s" "own s' pd2 \<subseteq> own s pd2"
proof -
  have dir: "pt_get s' pd2 i = pt_get s pd2 i" if "i < 1024" for i using keep ownI(1) that by blast
  have walk: "mmu_walk (mem s') pd2 va = mmu_walk (mem s) pd2 va" if "user_va va" for va
    using that dir keep ownI(2) by (intro mmu_walk_cong space_okD(4) [OF ok]) auto
  have t: "tables_ok base fs' s' pd2"
    using space_okD(2) [OF ok] al dir by (simp add: tables_ok_def)
  show "space_ok base fs' s' pd2"
    unfolding space_ok_def
  proof (intro conjI allI impI ok' t)
    show "pt_get s' pd2 i AND 6 = 6" if "512 \<le> i" "i < 960" "present (pt_get s' pd2 i)" for i
      using that ok dir [of i] by (simp add: space_ok_def)
    fix va x assume va: "user_va va" and "mmu_walk (mem s') pd2 va = Some x"
    then have w: "mmu_walk (mem s) pd2 va = Some x" by (simp add: walk)
    show "allocated base fs' s' (x_frame x)" "x_frame x \<noteq> pd2" using space_okD(6) [OF ok va w] al by simp_all
    show "x_frame x \<noteq> frame_of (pt_get s' pd2 i)" if "i < 1024" "present (pt_get s' pd2 i)" for i
      using that space_okD(7) [OF ok va w] dir by simp
    show "page va = page va'" if "user_va va'" "mmu_walk (mem s') pd2 va' = Some x'" "x_frame x = x_frame x'" for va' x'
      using space_okD(8) [OF ok va that(1) w _ that(3)] that(1,2) by (simp add: walk)
  qed
  show "user_view pd2 s' = user_view pd2 s"
  proof
    fix va
    show "user_view pd2 s' va = user_view pd2 s va"
    proof (cases "user_va va")
      case True
      show ?thesis
      proof (cases "mmu_walk (mem s) pd2 va")
        case (Some x)
        then show ?thesis using True walk [OF True] keep [OF ownI(3) [OF True Some]] by (simp add: view_mapped)
      qed (use walk [OF True] in \<open>simp add: view_unmapped\<close>)
    qed (simp add: view_outside)
  qed
  show "own s' pd2 \<subseteq> own s pd2"
  proof
    fix q assume "q \<in> own s' pd2"
    then consider "q = pd2" | i where "q = frame_of (pt_get s' pd2 i)" "512 \<le> i" "i < 960" "present (pt_get s' pd2 i)"
      | va' x where "q = x_frame x" "user_va va'" "mmu_walk (mem s') pd2 va' = Some x"
      unfolding own_def by blast
    then show "q \<in> own s pd2"
    proof cases
      case (2 i)
      then show ?thesis using dir [of i] unfolding own_def by fastforce
    next
      case (3 va' x)
      then show ?thesis using walk ownI(3) by metis
    qed (simp add: ownI)
  qed
qed

lemma confined_other:
  assumes co: "confined base pd fs s fs' s'" and ok': "phys_ok base fs' s'"
    and ok: "space_ok base fs s pd2" and dis: "own s pd \<inter> own s pd2 = {}"
  shows "space_ok base fs' s' pd2" "user_view pd2 s' = user_view pd2 s" "own s' pd \<inter> own s' pd2 = {}"
proof -
  note c = co [unfolded confined_def]
  have keep: "pt_get s' q j = pt_get s q j" if "q \<in> own s pd2" "j < 1024" for q j
    using that c dis own_allocated [OF ok] by blast
  have al: "allocated base fs' s' q" if "allocated base fs s q" for q using that c by blast
  show "space_ok base fs' s' pd2" by (rule space_kept(1) [OF ok ok']) (erule (1) keep, erule al)
  show "user_view pd2 s' = user_view pd2 s" by (rule space_kept(2) [OF ok ok']) (erule (1) keep, erule al)
  have "own s' pd2 \<subseteq> own s pd2" by (rule space_kept(3) [OF ok ok']) (erule (1) keep, erule al)
  then show "own s' pd \<inter> own s' pd2 = {}" using c dis own_allocated [OF ok] by blast
qed

section \<open>Flat memory\<close>

lemma write_bytes_Cons:
  assumes "length bs < 4294967296"
  shows "write_bytes (va + 1) bs (m(va := b)) = write_bytes va (b # bs) m"
proof
  fix x :: u32
  show "write_bytes (va + 1) bs (m(va := b)) x = write_bytes va (b # bs) m x"
  proof (cases "x = va")
    case True
    have "unat (x - (va + 1)) = 4294967295" using True by (simp add: unsigned_minus_1_eq_mask mask_eq_exp_minus_1)
    then show ?thesis using assms True by (simp add: write_bytes_def)
  next
    case False
    then have "unat (x - va) \<noteq> 0" by (simp add: unat_eq_zero)
    then obtain n where n: "unat (x - va) = Suc n" using not0_implies_Suc by blast
    moreover have "unat (x - va - 1) = unat (x - va) - 1" using False by (intro unat_minus_one) simp
    then have "unat (x - (va + 1)) = n" using n by (simp add: diff_diff_eq)
    ultimately show ?thesis using False by (simp add: write_bytes_def)
  qed
qed

text \<open>
  The contract: after \<open>ready\<close> for a set of addresses, loads and stores in the set return and
  act on the bytes of \<open>view\<close> as on an array; \<open>hist\<close> relates the states they pass through.
\<close>

locale flat_memory =
  fixes ld :: "u32 \<Rightarrow> 's \<Rightarrow> (u8, 's, 'o) run" and st :: "u32 \<Rightarrow> u8 \<Rightarrow> 's \<Rightarrow> (unit, 's, 'o) run"
    and view :: "'s \<Rightarrow> u32 \<Rightarrow> u8" and ready :: "'f \<Rightarrow> 's \<Rightarrow> u32 set \<Rightarrow> bool"
    and hist :: "'f \<Rightarrow> 's \<Rightarrow> 'f \<Rightarrow> 's \<Rightarrow> bool"
  assumes ld_ok: "ready f s A \<Longrightarrow> va \<in> A \<Longrightarrow>
      \<exists>s' f'. ld va s = Done (view s va) s' \<and> ready f' s' A \<and> hist f s f' s' \<and> view s' = view s"
    and st_ok: "ready f s A \<Longrightarrow> va \<in> A \<Longrightarrow>
      \<exists>s' f'. st va b s = Done () s' \<and> ready f' s' A \<and> hist f s f' s' \<and> view s' = (view s)(va := b)"
    and hist_refl: "ready f s A \<Longrightarrow> hist f s f s"
    and hist_trans: "hist f s f1 s1 \<Longrightarrow> hist f1 s1 f2 s2 \<Longrightarrow> hist f s f2 s2"
begin

lemma ld_then:
  assumes "ready f s A" "va \<in> A"
    and "\<And>s' f'. ready f' s' A \<Longrightarrow> hist f s f' s' \<Longrightarrow> view s' = view s \<Longrightarrow> P (g (view s va) s')"
  shows "P (andthen (ld va s) g)"
  using ld_ok [OF assms(1,2)] assms(3) by auto

lemma load32_ok:
  assumes "ready f s A" "{va, va + 1, va + 2, va + 3} \<subseteq> A"
  shows "\<exists>s' f'. load32 ld va s = Done (le32 [view s va, view s (va + 1), view s (va + 2), view s (va + 3)] 0) s' \<and>
     ready f' s' A \<and> hist f s f' s' \<and> view s' = view s"
proof -
  obtain s1 f1 where 1: "ld va s = Done (view s va) s1" "ready f1 s1 A" "hist f s f1 s1" "view s1 = view s"
    using ld_ok [OF assms(1)] assms(2) by blast
  obtain s2 f2 where 2: "ld (va + 1) s1 = Done (view s (va + 1)) s2" "ready f2 s2 A" "hist f s f2 s2" "view s2 = view s"
    using ld_ok [OF 1(2), of "va + 1"] assms(2) 1(4) hist_trans [OF 1(3)] by auto
  obtain s3 f3 where 3: "ld (va + 2) s2 = Done (view s (va + 2)) s3" "ready f3 s3 A" "hist f s f3 s3" "view s3 = view s"
    using ld_ok [OF 2(2), of "va + 2"] assms(2) 2(4) hist_trans [OF 2(3)] by auto
  obtain s4 f4 where "ld (va + 3) s3 = Done (view s (va + 3)) s4" "ready f4 s4 A" "hist f s f4 s4" "view s4 = view s"
    using ld_ok [OF 3(2), of "va + 3"] assms(2) 3(4) hist_trans [OF 3(3)] by auto
  then show ?thesis using 1(1) 2(1) 3(1) by (auto simp: load32_def)
qed

lemma store_bytes_ok:
  assumes "ready f s A" "\<forall>i < length bs. va + of_nat i \<in> A" "length bs \<le> 4294967296"
  shows "\<exists>s' f'. store_bytes st va bs s = Done () s' \<and> ready f' s' A \<and> hist f s f' s' \<and> view s' = write_bytes va bs (view s)"
  using assms
proof (induction bs arbitrary: va s f)
  case Nil
  then show ?case using hist_refl by (auto simp: write_bytes_def)
next
  case (Cons b bs)
  have "va \<in> A" using Cons.prems(2) [rule_format, of 0] by simp
  then obtain s1 f1 where 1: "st va b s = Done () s1" "ready f1 s1 A" "hist f s f1 s1" "view s1 = (view s)(va := b)"
    using st_ok [OF Cons.prems(1)] by blast
  have "va + 1 + of_nat i \<in> A" if "i < length bs" for i
    using Cons.prems(2) [rule_format, of "Suc i"] that by (simp add: algebra_simps)
  then obtain s2 f2 where 2: "store_bytes st (va + 1) bs s1 = Done () s2" "ready f2 s2 A" "hist f1 s1 f2 s2"
      "view s2 = write_bytes (va + 1) bs (view s1)"
    using Cons.IH [OF 1(2), of "va + 1"] Cons.prems(3) by auto
  have "write_bytes (va + 1) bs ((view s)(va := b)) = write_bytes va (b # bs) (view s)"
    by (rule write_bytes_Cons) (use Cons.prems(3) in simp)
  then show ?case using 1 2 hist_trans by auto
qed

end

interpretation paged: flat_memory "load8 rs pd" "store8 rs pd" "user_view pd"
  "\<lambda>fs s A. finite A \<and> accessible base rs pd fs s A" "confined base pd" for base rs pd
proof
  show "\<exists>s' f'. load8 rs pd va s = Done (user_view pd s va) s' \<and> (finite A \<and> accessible base rs pd f' s' A) \<and>
      confined base pd f s f' s' \<and> user_view pd s' = user_view pd s"
    if "finite A \<and> accessible base rs pd f s A" "va \<in> A" for f s A va
    using load8_ok [of base rs pd f s A va] that by auto
  show "\<exists>s' f'. store8 rs pd va b s = Done () s' \<and> (finite A \<and> accessible base rs pd f' s' A) \<and>
      confined base pd f s f' s' \<and> user_view pd s' = (user_view pd s)(va := b)"
    if "finite A \<and> accessible base rs pd f s A" "va \<in> A" for f s A va b
    using store8_ok [of base rs pd f s A va b] that by auto
  show "confined base pd f s f s" for f s by (simp add: confined_def)
  show "confined base pd f s f2 s2" if "confined base pd f s f1 s1" "confined base pd f1 s1 f2 s2" for f s f1 s1 f2 s2
    using that by (rule confined_trans)
qed

section \<open>Claims\<close>

text \<open>A program that loads and stores bytes, on paged memory and on a flat array.\<close>

datatype mem_op = Load u32 | Store u32 u8

fun mem_addr :: "mem_op \<Rightarrow> u32" where
  "mem_addr (Load va) = va" | "mem_addr (Store va b) = va"

fun run_ops :: "region list \<Rightarrow> u32 \<Rightarrow> mem_op list \<Rightarrow> phys \<Rightarrow> (u8 list, phys, fault) run" where
  "run_ops rs pd [] s = Done [] s"
| "run_ops rs pd (Load va # ops) s =
     andthen (load8 rs pd va s) (\<lambda>b s. andthen (run_ops rs pd ops s) (\<lambda>bs s. Done (b # bs) s))"
| "run_ops rs pd (Store va b # ops) s = andthen (store8 rs pd va b s) (\<lambda>_ s. run_ops rs pd ops s)"

fun flat_ops :: "mem_op list \<Rightarrow> (u32 \<Rightarrow> u8) \<Rightarrow> u8 list \<times> (u32 \<Rightarrow> u8)" where
  "flat_ops [] m = ([], m)"
| "flat_ops (Load va # ops) m = (let (bs, m') = flat_ops ops m in (m va # bs, m'))"
| "flat_ops (Store va b # ops) m = flat_ops ops (m(va := b))"

lemma run_ops_flat:
  assumes "finite A" "accessible base rs pd fs s A" "mem_addr ` set ops \<subseteq> A"
  shows "\<exists>s' fs'. run_ops rs pd ops s = Done (fst (flat_ops ops (user_view pd s))) s' \<and>
     accessible base rs pd fs' s' A \<and> confined base pd fs s fs' s' \<and> user_view pd s' = snd (flat_ops ops (user_view pd s))"
  using assms(2,3)
proof (induction ops arbitrary: s fs)
  case Nil
  then show ?case using paged.hist_refl [of A base rs pd fs s] assms(1) by auto
next
  case (Cons op ops)
  show ?case
  proof (cases op)
    case (Load va)
    obtain s1 fs1 where 1: "load8 rs pd va s = Done (user_view pd s va) s1" "accessible base rs pd fs1 s1 A"
        "confined base pd fs s fs1 s1" "user_view pd s1 = user_view pd s"
      using load8_ok [OF Cons.prems(1) _ assms(1), of va] Cons.prems(2) Load by auto
    then show ?thesis
      using Cons.IH [OF 1(2)] Cons.prems(2) confined_trans [OF 1(3)] Load by (fastforce simp: split_beta Let_def)
  next
    case (Store va b)
    obtain s1 fs1 where 1: "store8 rs pd va b s = Done () s1" "accessible base rs pd fs1 s1 A"
        "confined base pd fs s fs1 s1" "user_view pd s1 = (user_view pd s)(va := b)"
      using store8_ok [OF Cons.prems(1) _ assms(1), of va b] Cons.prems(2) Store by auto
    then show ?thesis
      using Cons.IH [OF 1(2)] Cons.prems(2) confined_trans [OF 1(3)] Store by fastforce
  qed
qed

text \<open>
  C1.  Paged memory is flat memory.  Any sequence of byte loads and stores at addresses that the
  process's regions cover, whether or not their pages have frames yet, returns; it reads what the
  same sequence reads from an array of bytes that starts as the process's view, zero where no page
  is mapped, and it leaves the view that sequence leaves.  The view of every other address space
  with frames of its own does not change, and the two keep disjoint frames.
\<close>

theorem paged_memory_refines_flat:
  assumes "accessible base rs pd fs s (mem_addr ` set ops)"
  shows "\<exists>s' fs'. run_ops rs pd ops s = Done (fst (flat_ops ops (user_view pd s))) s' \<and>
     user_view pd s' = snd (flat_ops ops (user_view pd s)) \<and> space_ok base fs' s' pd \<and>
     (\<forall>pd2. space_ok base fs s pd2 \<longrightarrow> own s pd \<inter> own s pd2 = {} \<longrightarrow>
        user_view pd2 s' = user_view pd2 s \<and> space_ok base fs' s' pd2 \<and> own s' pd \<inter> own s' pd2 = {})"
proof -
  obtain s' fs' where 1: "run_ops rs pd ops s = Done (fst (flat_ops ops (user_view pd s))) s'"
      "accessible base rs pd fs' s' (mem_addr ` set ops)" "confined base pd fs s fs' s'"
      "user_view pd s' = snd (flat_ops ops (user_view pd s))"
    using run_ops_flat [OF _ assms, of ops] by auto
  have ok: "space_ok base fs' s' pd" using 1(2) by (simp add: accessible_def)
  show ?thesis using 1 ok confined_other [OF 1(3) space_okD(1) [OF ok]] by blast
qed

lemma ex_space_space: "space_ok 0x600000 [] ex_space 0x600000"
proof -
  have "mmu_walk (mem ex_space) 0x600000 va = None" for va
    by (simp add: mmu_walk_def ex_space_def)
  then show ?thesis by (simp add: space_ok_def ex_space_ok ex_space_tables)
qed

lemma paged_memory_refines_flat_witness:
  "\<exists>s'. run_ops [new_region 0x80000000 0x4000] 0x600000 [Store 0x80001FFF 7, Load 0x80001FFF, Load 0x80001000] ex_space = Done [7, 0] s' \<and>
     user_view 0x600000 s' 0x80001FFF = 7"
proof -
  let ?rs = "[new_region 0x80000000 0x4000]" and ?ops = "[Store 0x80001FFF 7, Load 0x80001FFF, Load 0x80001000]"
  have none: "mmu_walk (mem ex_space) 0x600000 va = None" for va
    by (simp add: mmu_walk_def ex_space_def)
  have view: "user_view 0x600000 ex_space va = 0" for va by (simp add: view_unmapped none)
  have "{va \<in> mem_addr ` set ?ops. mmu_walk (mem ex_space) 0x600000 va = None} = {0x80001FFF, 0x80001000}"
    by (auto simp: none)
  then have "missing ex_space 0x600000 (mem_addr ` set ?ops) = {0x80001000}"
    unfolding missing_def by simp
  then have "accessible 0x600000 ?rs 0x600000 [] ex_space (mem_addr ` set ?ops)"
    using ex_space_space
    by (simp add: accessible_def user_va_def covered_def new_region_def none) (simp add: frames_left_def ex_space_def)
  from paged_memory_refines_flat [OF this] show ?thesis by (auto simp: view)
qed

end
