(* ===== verification/Processes.thy ===== *)
theory Processes
  imports User_Mem Shared_Ptr Semaphores
begin

text \<open>
  Processes: the process control block of \<^verbatim>\<open>kernel/pcb.h\<close>, the state of the kernel as one core
  sees it, and the ways a process gives up the processor and gets it back: \<^verbatim>\<open>switch_processes\<close>,
  \<^verbatim>\<open>exit\<close> and \<^verbatim>\<open>sigreturn\<close> of \<^verbatim>\<open>kernel/sys.cc\<close>, \<^verbatim>\<open>vmm_pageFault\<close> of
  \<^verbatim>\<open>kernel/vmm.cc\<close> and \<^verbatim>\<open>apitHandler\<close> of \<^verbatim>\<open>kernel/pit.cc\<close>.

  Heap objects that code shares (processes, file descriptors, semaphores, pipes) live in stores
  under their addresses.  The memory regions of a process are the list that \<open>Vme_Queue\<close> shows
  its \<^verbatim>\<open>VMEQueue\<close> to be.  A closure given to \<^verbatim>\<open>go\<close>, \<^verbatim>\<open>down\<close>, \<^verbatim>\<open>put\<close> or \<^verbatim>\<open>get\<close>
  is a value of \<open>kevent\<close> that names its captured variables; \<open>run_event\<close> is its body.
\<close>

section \<open>Data\<close>

record Registers =
  edi :: u32
  esi :: u32
  ebp :: u32
  scratch :: u32
  ebx :: u32
  edx :: u32
  ecx :: u32
  eax :: u32

record IFrame =
  eip :: u32
  cs :: u32
  eflags :: u32
  esp :: u32
  ss :: u32

record UserContext =
  regs :: Registers
  iFrame :: IFrame

text \<open>
  The closures of the kernel: of \<^verbatim>\<open>switch_processes\<close>, of \<^verbatim>\<open>fork\<close>, of \<^verbatim>\<open>execl\<close>, of \<^verbatim>\<open>down\<close>, of
  \<^verbatim>\<open>BoundedBuffer::put\<close> and \<^verbatim>\<open>get\<close> with the work of \<^verbatim>\<open>write\<close> and \<^verbatim>\<open>read\<close> on a pipe, and of
  \<^verbatim>\<open>Future::get\<close> with the work of \<^verbatim>\<open>join\<close>.
\<close>

datatype kevent =
    ResumeEv ptr
  | ForkEv u32 ptr u32 u32
  | ExecEv u32 u32 ptr u32
  | DownEv ptr
  | PutEv ptr u8 ptr
  | GetEv ptr ptr u32
  | JoinEv ptr ptr

record FileDescriptor =
  vnode :: "Node option"
  fd_offset :: u32
  readable :: bool
  writable :: bool
  pipe :: ptr

record PCB =
  pcb_directory :: u32
  exit_value :: u32
  exit_sem :: "kevent semaphore"
  user_context :: UserContext
  child_count :: u32
  capacity :: u32
  children :: "ptr list"
  semaphores :: "ptr list"
  in_handler :: bool
  handler_eip :: u32
  handler_user_context :: UserContext
  queue :: "region list"
  file_descriptor :: "ptr list"
  cwd_node :: "Node option"
  killed :: bool
  killed_v :: u32
  handled :: bool

record pipe_buffer =
  pipe_queue :: "u8 list"
  pipe_full :: "kevent semaphore"
  pipe_empty :: "kevent semaphore"

text \<open>Uninitialised memory reads as zero in the model.\<close>

definition no_context :: UserContext where
  "no_context = \<lparr>regs = \<lparr>edi = 0, esi = 0, ebp = 0, scratch = 0, ebx = 0, edx = 0, ecx = 0, eax = 0\<rparr>,
     iFrame = \<lparr>eip = 0, cs = 0, eflags = 0, esp = 0, ss = 0\<rparr>\<rparr>"

definition FileDescriptor_node :: "Node option \<Rightarrow> u32 \<Rightarrow> FileDescriptor" where
  "FileDescriptor_node node off = \<lparr>vnode = node, fd_offset = off, readable = True, writable = False, pipe = 0\<rparr>"

definition FileDescriptor_flags :: "bool \<Rightarrow> bool \<Rightarrow> FileDescriptor" where
  "FileDescriptor_flags r w = \<lparr>vnode = None, fd_offset = 0, readable = r, writable = w, pipe = 0\<rparr>"

definition FileDescriptor_pipe :: "bool \<Rightarrow> bool \<Rightarrow> ptr \<Rightarrow> FileDescriptor" where
  "FileDescriptor_pipe r w p = \<lparr>vnode = None, fd_offset = 0, readable = r, writable = w, pipe = p\<rparr>"

definition PCB_new :: "u32 \<Rightarrow> PCB" where
  "PCB_new pd = \<lparr>pcb_directory = pd, exit_value = 0, exit_sem = Semaphore_new 0, user_context = no_context,
     child_count = 0, capacity = 1, children = [0], semaphores = replicate 100 Shared_default,
     in_handler = False, handler_eip = 0, handler_user_context = no_context,
     queue = snd (add_region (new_region (0xF0000000 - 0x100000) 0x100000) []),
     file_descriptor = replicate 10 Shared_default, cwd_node = None, killed = False, killed_v = 0, handled = False\<rparr>"

section \<open>The stack of children\<close>

definition resize :: "PCB \<Rightarrow> PCB" where
  "resize p = (let n = push_bit 1 (capacity p) in
     p\<lparr>children := map (\<lambda>i. if i < unat (capacity p) then children p ! i else 0) [0..<unat n], capacity := n\<rparr>)"

definition is_empty :: "PCB \<Rightarrow> bool" where
  "is_empty p \<longleftrightarrow> child_count p = 0"

definition add_child :: "ptr \<Rightarrow> PCB \<Rightarrow> PCB" where
  "add_child c p = (let q = (if child_count p = capacity p then resize p else p) in
     q\<lparr>children := (children q)[unat (child_count q) := c], child_count := child_count q + 1\<rparr>)"

definition peek_child :: "PCB \<Rightarrow> ptr" where
  "peek_child p = (if child_count p = 0 then 0 else children p ! unat (child_count p - 1))"

text \<open>No value when the array is read outside its bounds.\<close>

definition remove_child :: "PCB \<Rightarrow> (ptr \<times> PCB) option" where
  "remove_child p = (let n = child_count p - 1 in
     if unat n < length (children p) then Some (children p ! unat n, p\<lparr>child_count := n\<rparr>) else None)"

section \<open>Removing a memory region\<close>

definition clear_ptes :: "u32 \<Rightarrow> nat \<Rightarrow> nat \<Rightarrow> phys \<Rightarrow> phys option" where
  "clear_ptes page_table start fin s =
     for_loop start (fin - start) (\<lambda>pti s.
       if present (pt_get s page_table pti) then do {
         s' \<leftarrow> dealloc_frame (frame_of (pt_get s page_table pti)) s;
         Some (pt_set page_table pti 0 s') }
       else Some s) s"

definition free_region :: "u32 \<Rightarrow> region \<Rightarrow> phys \<Rightarrow> phys option" where
  "free_region pd r s =
     for_loop (pdi_of (r_start r)) (Suc (pdi_of (r_end r)) - pdi_of (r_start r)) (\<lambda>pdi s.
       if present (pt_get s pd pdi) then do {
         let page_table = frame_of (pt_get s pd pdi);
         let start = (if pdi = pdi_of (r_start r) then pti_of (r_start r) else 0);
         let fin = (if pdi = pdi_of (r_end r) then pti_of (r_end r) else 1024);
         s1 \<leftarrow> clear_ptes page_table start fin s;
         if start = 0 \<and> fin = 1024 then do {
           s2 \<leftarrow> dealloc_frame page_table s1;
           Some (pt_set pd pdi 0 s2) }
         else Some s1 }
       else Some s) s"

definition remove_from_vmequeue :: "u32 \<Rightarrow> PCB \<Rightarrow> phys \<Rightarrow> (bool \<times> PCB \<times> phys) option" where
  "remove_from_vmequeue addr p s =
     (case remove_region addr (queue p) of
        None \<Rightarrow> Some (False, p, s)
      | Some (r, rs) \<Rightarrow> do { s' \<leftarrow> free_region (pcb_directory p) r s; Some (True, p\<lparr>queue := rs\<rparr>, s') })"

section \<open>The kernel\<close>

text \<open>
  The state as one core sees it: memory and \<^verbatim>\<open>%cr3\<close>, the mounted file system, the stores of
  shared objects, the ready queue, this core's \<^verbatim>\<open>active_pcbs.mine()\<close> and \<^verbatim>\<open>interrupts.mine()\<close>,
  what was printed on the terminal, \<^verbatim>\<open>Pit::jiffies\<close>, and the addresses the heap will give to
  the next objects.
\<close>

record kernel =
  vmm :: vm
  kConfig :: config
  disk_image :: disk
  fs :: Ext2
  fs_root :: Node
  pcbs :: "PCB store"
  fds :: "FileDescriptor counted store"
  sems :: "kevent semaphore counted store"
  pipes :: "pipe_buffer store"
  ready_queue :: "kevent list"
  active :: ptr
  interrupts :: bool
  terminal :: "u8 list"
  ticks :: u32
  heap_new :: "ptr list"

text \<open>
  How control leaves kernel code: into the event loop, back to a saved user context, to fresh
  user code at an address with a stack and a value in \<^verbatim>\<open>%eax\<close>, to the end of the machine, into
  a panic, or into behaviour the language leaves undefined.
\<close>

datatype outcome =
    Loop kernel
  | Resume UserContext kernel
  | Enter u32 u32 u32 kernel
  | Halted kernel
  | Panic
  | Wild

type_synonym 'a code = "('a, kernel, outcome) run"

definition need :: "outcome \<Rightarrow> 'a option \<Rightarrow> ('a \<Rightarrow> 'b code) \<Rightarrow> 'b code" where
  "need r x f = (case x of None \<Rightarrow> Stop r | Some y \<Rightarrow> f y)"

lemma need_cong [fundef_cong]:
  "r = r' \<Longrightarrow> x = x' \<Longrightarrow> (\<And>y. x' = Some y \<Longrightarrow> f y = g y) \<Longrightarrow> need r x f = need r' x' g"
  by (cases x') (auto simp: need_def)

lemma need_simps [simp]: "need r None f = Stop r" "need r (Some y) f = f y"
  by (simp_all add: need_def)

definition pm_of :: "kernel \<Rightarrow> phys" where
  "pm_of k = pm (vmm k)"

definition set_pm :: "phys \<Rightarrow> kernel \<Rightarrow> kernel" where
  "set_pm s k = k\<lparr>vmm := (vmm k)\<lparr>pm := s\<rparr>\<rparr>"

definition getCR3 :: "kernel \<Rightarrow> u32" where
  "getCR3 k = cr3 (vmm k)"

definition vmm_on :: "u32 \<Rightarrow> kernel \<Rightarrow> kernel" where
  "vmm_on pd k = k\<lparr>vmm := (vmm k)\<lparr>cr3 := pd\<rparr>\<rparr>"

definition mine :: "kernel \<Rightarrow> PCB option" where
  "mine k = pcbs k (active k)"

definition put_pcb :: "ptr \<Rightarrow> PCB \<Rightarrow> kernel \<Rightarrow> kernel" where
  "put_pcb p pcb k = k\<lparr>pcbs := (pcbs k)(p \<mapsto> pcb)\<rparr>"

definition go :: "kevent \<Rightarrow> kernel \<Rightarrow> kernel" where
  "go e k = k\<lparr>ready_queue := ready_queue k @ [e]\<rparr>"

definition event_loop :: "kernel \<Rightarrow> 'a code" where
  "event_loop k = Stop (Loop k)"

section \<open>Giving up the processor\<close>

definition switch_processes :: "UserContext \<Rightarrow> kernel \<Rightarrow> 'a code" where
  "switch_processes uc k = need Wild (mine k) (\<lambda>pcb.
     let pcb' = pcb\<lparr>pcb_directory := getCR3 k AND 0xFFFFF000, user_context := uc\<rparr> in
     event_loop ((go (ResumeEv (active k)) (put_pcb (active k) pcb' k))\<lparr>interrupts := False\<rparr>))"

definition exit :: "u32 \<Rightarrow> kernel \<Rightarrow> 'a code" where
  "exit v k = need Panic (VMM_free (getCR3 k AND 0xFFFFF000) (pm_of k)) (\<lambda>s.
     need Wild (mine k) (\<lambda>pcb.
     need Panic (sem_up (exit_sem pcb, ready_queue k)) (\<lambda>(sem, rq).
     event_loop ((put_pcb (active k) (pcb\<lparr>exit_value := v, exit_sem := sem\<rparr>) (set_pm s k))
       \<lparr>ready_queue := rq, interrupts := False\<rparr>))))"

definition switch_interrupt :: "UserContext \<Rightarrow> u32 \<Rightarrow> kernel \<Rightarrow> unit code" where
  "switch_interrupt uc v k =
     (if interrupts k then switch_processes (uc\<lparr>regs := (regs uc)\<lparr>eax := v\<rparr>\<rparr>) (k\<lparr>interrupts := False\<rparr>)
      else Done () k)"

definition sigreturn :: "kernel \<Rightarrow> u32 code" where
  "sigreturn k = need Wild (mine k) (\<lambda>pcb.
     if \<not> in_handler pcb then Done (- 1) k
     else switch_processes (handler_user_context pcb) (put_pcb (active k) (pcb\<lparr>in_handler := False\<rparr>) k))"

section \<open>Page faults\<close>

text \<open>\<^verbatim>\<open>*fault = va_; exit(139);\<close> The word is in the page all processes share.\<close>

definition fault_exit :: "u32 \<Rightarrow> kernel \<Rightarrow> 'a code" where
  "fault_exit va k =
     (case phys_addr (mem (pm_of k)) (getCR3 k) 0xF0000800 of
        None \<Rightarrow> Stop Wild
      | Some pa \<Rightarrow> exit 139 (set_pm ((pm_of k)\<lparr>mem := (mem (pm_of k))(pa := va)\<rparr>) k))"

text \<open>
  A fault of kernel code at an address no region covers.  When the process has a handler and is
  not in it, \<^verbatim>\<open>vmm_pageFault\<close> takes the user stack from an interrupt frame that the processor
  does not fill in for a fault in kernel mode.
\<close>

definition bad_access :: "u32 \<Rightarrow> kernel \<Rightarrow> 'a code" where
  "bad_access va k = need Wild (mine k) (\<lambda>pcb.
     if in_handler pcb \<and> va = 0x2000 then andthen (sigreturn k) (\<lambda>_ _. Stop Wild)
     else if handler_eip pcb = 0 \<or> in_handler pcb then fault_exit va k
     else Stop Wild)"

definition user_access :: "(region list \<Rightarrow> u32 \<Rightarrow> phys \<Rightarrow> ('a, phys, fault) run) \<Rightarrow> kernel \<Rightarrow> 'a code" where
  "user_access f k = need Wild (mine k) (\<lambda>pcb.
     (case f (queue pcb) (getCR3 k) (pm_of k) of
        Done x s \<Rightarrow> Done x (set_pm s k)
      | Stop (Fault va s) \<Rightarrow> bad_access va (set_pm s k)
      | Stop NoFrame \<Rightarrow> Stop Panic))"

definition kload8 :: "u32 \<Rightarrow> kernel \<Rightarrow> u8 code" where
  "kload8 va k = user_access (\<lambda>rs pd. load8 rs pd va) k"

definition kstore8 :: "u32 \<Rightarrow> u8 \<Rightarrow> kernel \<Rightarrow> unit code" where
  "kstore8 va b k = user_access (\<lambda>rs pd. store8 rs pd va b) k"

abbreviation kload32 :: "u32 \<Rightarrow> kernel \<Rightarrow> u32 code" where
  "kload32 \<equiv> load32 kload8"

abbreviation kstore32 :: "u32 \<Rightarrow> u32 \<Rightarrow> kernel \<Rightarrow> unit code" where
  "kstore32 \<equiv> store32 kstore8"

text \<open>Entering the process's signal handler: its arguments and a return address below the red zone.\<close>

definition enter_handler :: "UserContext \<Rightarrow> u32 \<Rightarrow> u32 \<Rightarrow> PCB \<Rightarrow> kernel \<Rightarrow> 'a code" where
  "enter_handler uc sig v pcb k =
     (let sp = esp (iFrame uc);
          k1 = put_pcb (active k) (pcb\<lparr>handler_user_context := uc, in_handler := True\<rparr>) k in
      andthen (kstore32 (sp - 128 - 4) v k1) (\<lambda>_ k.
      andthen (kstore32 (sp - 128 - 8) sig k) (\<lambda>_ k.
      andthen (kstore32 (sp - 128 - 12) 0x2000 k) (\<lambda>_ k.
        Stop (Enter (handler_eip pcb) (sp - 128 - 12) 0 k)))))"

text \<open>A fault of user code.\<close>

definition vmm_pageFault :: "u32 \<Rightarrow> UserContext \<Rightarrow> kernel \<Rightarrow> unit code" where
  "vmm_pageFault va uc k = need Wild (mine k) (\<lambda>pcb.
     if in_handler pcb \<and> va = 0x2000 then andthen (sigreturn k) (\<lambda>_ k. Done () k)
     else if \<not> contains_regions (queue pcb) va va then
       (if handler_eip pcb = 0 \<or> in_handler pcb then fault_exit va k else enter_handler uc 1 va pcb k)
     else need Panic (map_page (getCR3 k AND 0xFFFFF000) va (pm_of k)) (\<lambda>s. Done () (set_pm s k)))"

section \<open>The timer interrupt\<close>

definition apitHandler :: "u32 \<Rightarrow> UserContext \<Rightarrow> kernel \<Rightarrow> unit code" where
  "apitHandler me uc k0 =
     (let k = (if me = 0 then k0\<lparr>ticks := ticks k0 + 1\<rparr> else k0) in
      if cs (iFrame uc) AND 0x3 = 0 then Done () (k\<lparr>interrupts := True\<rparr>)
      else need Wild (mine k) (\<lambda>pcb.
        if killed pcb \<and> \<not> handled pcb \<and> \<not> in_handler pcb then
          (let pcb' = pcb\<lparr>handled := True\<rparr>; k' = put_pcb (active k) pcb' k in
           if handler_eip pcb = 0 then exit (killed_v pcb) k' else enter_handler uc 2 (killed_v pcb) pcb' k')
        else switch_processes uc k))"

section \<open>Running an event\<close>

definition resume_with :: "ptr \<Rightarrow> u32 option \<Rightarrow> kernel \<Rightarrow> 'a code" where
  "resume_with p v k = need Wild (pcbs k p) (\<lambda>pcb.
     let uc = (case v of None \<Rightarrow> user_context pcb
                | Some x \<Rightarrow> (user_context pcb)\<lparr>regs := (regs (user_context pcb))\<lparr>eax := x\<rparr>\<rparr>);
         k1 = vmm_on (pcb_directory pcb) (put_pcb p (pcb\<lparr>user_context := uc\<rparr>) k) in
     Stop (Resume uc (k1\<lparr>active := p\<rparr>)))"

definition pipe_put_body :: "ptr \<Rightarrow> u8 \<Rightarrow> kernel \<Rightarrow> unit code" where
  "pipe_put_body b v k = need Wild (pipes k b) (\<lambda>pb.
     let pb1 = pb\<lparr>pipe_queue := pipe_queue pb @ [v]\<rparr> in
     need Panic (sem_up (pipe_full pb1, ready_queue k)) (\<lambda>(sem, rq).
       Done () (k\<lparr>pipes := (pipes k)(b \<mapsto> pb1\<lparr>pipe_full := sem\<rparr>), ready_queue := rq\<rparr>)))"

definition pipe_get_body :: "ptr \<Rightarrow> kernel \<Rightarrow> u8 code" where
  "pipe_get_body b k = need Wild (pipes k b) (\<lambda>pb.
     need Panic (sem_up (pipe_empty pb, ready_queue k)) (\<lambda>(sem, rq).
     (case pipe_queue pb of
        [] \<Rightarrow> Stop Wild
      | v # vs \<Rightarrow> Done v (k\<lparr>pipes := (pipes k)(b \<mapsto> pb\<lparr>pipe_queue := vs, pipe_empty := sem\<rparr>), ready_queue := rq\<rparr>))))"

fun run_event :: "kevent \<Rightarrow> kernel \<Rightarrow> unit code" where
  "run_event (ResumeEv p) k = resume_with p None k"
| "run_event (ForkEv pd p ip sp) k = Stop (Enter ip sp 0 ((vmm_on pd k)\<lparr>active := p\<rparr>))"
| "run_event (ExecEv ip sp p pd) k = need Wild (pcbs k p) (\<lambda>pcb.
     Stop (Enter ip sp 0 ((vmm_on pd (put_pcb p (pcb\<lparr>pcb_directory := pd\<rparr>) k))\<lparr>active := p\<rparr>)))"
| "run_event (DownEv p) k = resume_with p (Some 0) k"
| "run_event (PutEv b v p) k = andthen (pipe_put_body b v k) (\<lambda>_ k. resume_with p (Some 1) k)"
| "run_event (GetEv b p buf) k = andthen (pipe_get_body b k) (\<lambda>v k. need Wild (pcbs k p) (\<lambda>pcb.
     let uc = (user_context pcb)\<lparr>regs := (regs (user_context pcb))\<lparr>eax := 1\<rparr>\<rparr>;
         k1 = vmm_on (pcb_directory pcb) (put_pcb p (pcb\<lparr>user_context := uc\<rparr>) k) in
     andthen (kstore8 buf v k1) (\<lambda>_ k. Stop (Resume uc (k\<lparr>active := p\<rparr>)))))"
| "run_event (JoinEv c p) k = need Wild (pcbs k c) (\<lambda>child.
     need Panic (sem_up (exit_sem child, ready_queue k)) (\<lambda>(sem, rq).
     let k1 = (put_pcb c (child\<lparr>exit_sem := sem\<rparr>) k)\<lparr>ready_queue := rq\<rparr> in
     need Wild (pcbs k1 p) (\<lambda>pcb. need Wild (remove_child pcb) (\<lambda>(_, pcb').
       resume_with p (Some (exit_value child)) (put_pcb p pcb' k1)))))"

end
