(* ===== verification/Fork.thy ===== *)
theory Fork
  imports User_Mem
begin

text \<open>
  The part of \<^verbatim>\<open>fork\<close> (\<^verbatim>\<open>kernel/sys.cc\<close>) that makes the child's address space: a new page
  directory that shares the kernel's tables and has its own copy of every user table and of
  every user page.  \<open>Vmm\<close> and \<open>User_Mem\<close> say what an address space is; that the child sees the
  parent's memory and that the two share no frame is shown in \<open>Fork_Space\<close>.
\<close>

section \<open>The code\<close>

definition copy_frame :: "u32 \<Rightarrow> u32 \<Rightarrow> phys \<Rightarrow> phys option" where
  "copy_frame parent_data_frame child_data_frame s =
     for_loop 0 1024 (\<lambda>data_index s. Some (pt_set child_data_frame data_index (pt_get s parent_data_frame data_index) s)) s"

definition fork_pte :: "u32 \<Rightarrow> u32 \<Rightarrow> nat \<Rightarrow> phys \<Rightarrow> phys option" where
  "fork_pte parent_page_table child_page_table pti s =
     (if present (pt_get s parent_page_table pti) then do {
        (p, s1) \<leftarrow> alloc_frame s;
        let s2 = pt_set child_page_table pti (p OR 0x107) s1;
        copy_frame (frame_of (pt_get s2 parent_page_table pti)) (frame_of (pt_get s2 child_page_table pti)) s2 }
      else Some s)"

definition fork_pde :: "u32 \<Rightarrow> u32 \<Rightarrow> nat \<Rightarrow> phys \<Rightarrow> phys option" where
  "fork_pde parent child pdi s =
     (if present (pt_get s parent pdi) then do {
        (p, s1) \<leftarrow> alloc_frame s;
        let s2 = pt_set child pdi (p OR 0x7) s1;
        for_loop 0 1024 (fork_pte (frame_of (pt_get s2 parent pdi)) (frame_of (pt_get s2 child pdi))) s2 }
      else Some s)"

definition fork_space :: "config \<Rightarrow> u32 \<Rightarrow> phys \<Rightarrow> (u32 \<times> phys) option" where
  "fork_space cfg parent s = do {
     (child, s1) \<leftarrow> alloc_frame s;
     s2 \<leftarrow> for_loop (pdi_of 0x00001000) (pdi_of (memSize cfg) - pdi_of 0x00001000) (\<lambda>pdi s.
        Some (if present (pt_get s parent pdi) then pt_set child pdi (pt_get s parent pdi) s else s)) s1;
     s3 \<leftarrow> for_loop (pdi_of 0x80000000) (pdi_of 0xF0000000 - pdi_of 0x80000000) (fork_pde parent child) s2;
     let s4 = pt_set child (pdi_of (ioAPIC cfg)) (pt_get s3 parent (pdi_of (ioAPIC cfg))) s3;
     let s5 = pt_set child (pdi_of 0xF0000000) (pt_get s4 parent (pdi_of 0xF0000000)) s4;
     Some (child, s5) }"

end
