(* ===== verification/Sys_Calls.thy ===== *)
theory Sys_Calls
  imports Processes Fork
begin

text \<open>
  The system calls: \<^verbatim>\<open>sysHandler\<close> of \<^verbatim>\<open>kernel/sys.cc\<close>, one definition for each case.  A handler
  runs on the state of the kernel as its core sees it and is one step: other cores act before or
  after it.  Every dereference of a user pointer is a \<open>kload8\<close> or \<open>kstore8\<close>, so it can page in a
  page or end the process.

  A \<^verbatim>\<open>Shared\<close> local variable takes a reference when it is made and gives it back when the
  handler returns; a handler that calls \<^verbatim>\<open>event_loop\<close> never returns and keeps it.
\<close>

section \<open>Common parts\<close>

definition arg :: "nat \<Rightarrow> UserContext \<Rightarrow> kernel \<Rightarrow> u32 code" where
  "arg i uc k = kload32 (esp (iFrame uc) + 4 * of_nat i) k"

definition new_object :: "kernel \<Rightarrow> (ptr \<times> kernel) option" where
  "new_object k = (case heap_new k of [] \<Rightarrow> None | a # as \<Rightarrow> Some (a, k\<lparr>heap_new := as\<rparr>))"

text \<open>The loop that looks for the first empty slot of a table.\<close>

fun free_slot :: "nat \<Rightarrow> ptr list \<Rightarrow> nat option" where
  "free_slot i [] = None"
| "free_slot i (p # ps) = (if Shared_is_null p then Some i else free_slot (Suc i) ps)"

definition bad_buffer :: "u32 \<Rightarrow> u32 \<Rightarrow> bool" where
  "bad_buffer buffer n \<longleftrightarrow> buffer < 0x80000000 \<or> buffer + n \<ge> 0xF0000000 \<or> buffer + n < n"

definition drop_fd :: "ptr \<Rightarrow> u32 \<Rightarrow> kernel \<Rightarrow> u32 code" where
  "drop_fd p v k = need Wild (Shared_destroy p (fds k)) (\<lambda>h. Done v (k\<lparr>fds := h\<rparr>))"

definition drop_sem :: "ptr \<Rightarrow> u32 \<Rightarrow> kernel \<Rightarrow> u32 code" where
  "drop_sem p v k = need Wild (Shared_destroy p (sems k)) (\<lambda>h. Done v (k\<lparr>sems := h\<rparr>))"

text \<open>Assigning a new descriptor, or the empty one, to a slot of the table.\<close>

definition set_fd :: "nat \<Rightarrow> ptr \<Rightarrow> u32 \<Rightarrow> kernel \<Rightarrow> u32 code" where
  "set_fd i p v k = need Wild (mine k) (\<lambda>pcb.
     need Wild (Shared_assign_move (file_descriptor pcb ! i) p (fds k)) (\<lambda>(q, _, h).
     Done v ((put_pcb (active k) (pcb\<lparr>file_descriptor := (file_descriptor pcb)[i := q]\<rparr>) k)\<lparr>fds := h\<rparr>)))"

definition make_fd :: "nat \<Rightarrow> FileDescriptor \<Rightarrow> u32 \<Rightarrow> kernel \<Rightarrow> u32 code" where
  "make_fd i d v k = need Panic (new_object k) (\<lambda>(a, k).
     need Wild (Shared_make a d (fds k)) (\<lambda>(p, h). set_fd i p v (k\<lparr>fds := h\<rparr>)))"

fun load_bytes :: "u32 \<Rightarrow> nat \<Rightarrow> kernel \<Rightarrow> u8 list code" where
  "load_bytes a 0 k = Done [] k"
| "load_bytes a (Suc n) k = andthen (kload8 a k) (\<lambda>b k. andthen (load_bytes (a + 1) n k) (\<lambda>bs k. Done (b # bs) k))"

section \<open>Path names\<close>

function skip_slashes :: "u32 \<Rightarrow> nat \<Rightarrow> kernel \<Rightarrow> nat code" where
  "skip_slashes path i k = (if 4294967296 \<le> i then Stop Wild
     else andthen (kload8 (path + of_nat i) k) (\<lambda>c k. if c = 47 then skip_slashes path (Suc i) k else Done i k))"
  by pat_completeness auto
termination by (relation "measure (\<lambda>(path, i, k). 4294967296 - i)") auto

function scan_name :: "u32 \<Rightarrow> nat \<Rightarrow> kernel \<Rightarrow> nat code" where
  "scan_name path i k = (if 4294967296 \<le> i then Stop Wild
     else andthen (kload8 (path + of_nat i) k) (\<lambda>c k.
       if c \<noteq> 47 then
         andthen (kload8 (path + of_nat i) k) (\<lambda>c k. if c \<noteq> 0 then scan_name path (Suc i) k else Done i k)
       else Done i k))"
  by pat_completeness auto
termination by (relation "measure (\<lambda>(path, i, k). 4294967296 - i)") auto

declare skip_slashes.simps [simp del] scan_name.simps [simp del]

lemma andthen_Done: "andthen m f = Done x s \<Longrightarrow> \<exists>y t. m = Done y t \<and> f y t = Done x s"
  by (cases m) auto

lemma skip_slashes_ge: "skip_slashes path i k = Done j k' \<Longrightarrow> i \<le> j \<and> i < 4294967296"
proof (induction path i k rule: skip_slashes.induct)
  case (1 path i k)
  show ?case
    using 1(2) 1(1) by (subst (asm) skip_slashes.simps) (force dest!: andthen_Done split: if_splits)
qed

lemma scan_name_ge: "scan_name path i k = Done j k' \<Longrightarrow> i \<le> j \<and> i < 4294967296"
proof (induction path i k rule: scan_name.induct)
  case (1 path i k)
  show ?case
    using 1(2) 1(1) by (subst (asm) scan_name.simps) (force dest!: andthen_Done split: if_splits)
qed

definition path_end :: "u32 \<Rightarrow> nat \<Rightarrow> Node option \<Rightarrow> kernel \<Rightarrow> Node option code" where
  "path_end path i node k =
     (if path + of_nat i - 1 \<ge> 0xF0000000 \<or> path + of_nat i - 1 < of_nat i - 1 then Done None k else Done node k)"

definition path_step :: "u32 \<Rightarrow> nat \<Rightarrow> nat \<Rightarrow> Node \<Rightarrow> kernel \<Rightarrow> Node option code" where
  "path_step path i fin node k =
     (if fin - i \<noteq> 0 then andthen (load_bytes (path + of_nat i) (fin - i) k) (\<lambda>current_name k.
        need Panic (Ext2_find (disk_image k) (fs k) node (current_name @ [0])) (\<lambda>node. Done node k))
      else Done (Some node) k)"

function path_loop :: "u32 \<Rightarrow> Node option \<Rightarrow> nat \<Rightarrow> kernel \<Rightarrow> Node option code" where
  "path_loop path node i k = (if 4294967296 \<le> i then Stop Wild
     else andthen (kload8 (path + of_nat i) k) (\<lambda>c k.
       if c = 0 then path_end path i node k
       else (case node of
           None \<Rightarrow> Done None k
         | Some nd \<Rightarrow>
             if \<not> is_dir nd then Done None k
             else andthen (skip_slashes path i k) (\<lambda>i1 k. andthen (scan_name path i1 k) (\<lambda>fin k.
               andthen (path_step path i1 fin nd k) (\<lambda>node' k.
               andthen (kload8 (path + of_nat fin) k) (\<lambda>c k.
                 if c = 0 then path_end path fin node' k else path_loop path node' (fin + 1) k)))))))"
  by pat_completeness auto
termination
  by (relation "measure (\<lambda>(path, node, i, k). 4294967296 - i)") (auto dest!: skip_slashes_ge scan_name_ge)

declare path_loop.simps [simp del]

definition find_path_node :: "u32 \<Rightarrow> kernel \<Rightarrow> Node option code" where
  "find_path_node path k = need Wild (mine k) (\<lambda>pcb.
     if path < 0x80000000 \<or> path \<ge> 0xF0000000 then Done None k
     else andthen (kload8 path k) (\<lambda>c k.
       path_loop path (if c \<noteq> 47 then cwd_node pcb else Some (fs_root k)) 0 k))"

section \<open>Processes\<close>

text \<open>\<^verbatim>\<open>child->table[i] = current->table[i]\<close> for every slot of a table of \<^verbatim>\<open>Shared\<close> pointers.\<close>

fun copy_shared :: "ptr list \<Rightarrow> ptr list \<Rightarrow> 'a counted store \<Rightarrow> (ptr list \<times> 'a counted store) option" where
  "copy_shared (p # ps) (q # qs) h = do {
     (p', h1) \<leftarrow> Shared_assign p q h;
     (ps', h2) \<leftarrow> copy_shared ps qs h1;
     Some (p' # ps', h2) }"
| "copy_shared _ _ h = Some ([], h)"

definition sys_fork :: "UserContext \<Rightarrow> kernel \<Rightarrow> u32 code" where
  "sys_fork uc k =
     need Panic (fork_space (kConfig k) (getCR3 k AND 0xFFFFF000) (pm_of k)) (\<lambda>(child_page_directory, s).
     need Panic (new_object (set_pm s k)) (\<lambda>(child, k).
     need Wild (mine k) (\<lambda>pcb.
     let child_pcb = PCB_new child_page_directory;
         current = add_child child pcb in
     need Wild (copy_shared (semaphores child_pcb) (semaphores current) (sems k)) (\<lambda>(ss, hs).
     need Wild (copy_shared (file_descriptor child_pcb) (file_descriptor current) (fds k)) (\<lambda>(ds, hd).
     let child_pcb = child_pcb\<lparr>semaphores := ss, queue := copy_regions (queue current),
           handler_eip := handler_eip current, in_handler := in_handler current,
           handler_user_context := handler_user_context current,
           file_descriptor := ds, cwd_node := cwd_node current\<rparr>;
         k = (put_pcb child child_pcb (put_pcb (active k) current k))\<lparr>sems := hs, fds := hd\<rparr> in
     Done 1 (go (ForkEv child_page_directory child (eip (iFrame uc)) (esp (iFrame uc))) k))))))"

definition sys_shutdown :: "kernel \<Rightarrow> u32 code" where
  "sys_shutdown k = need Panic (VMM_free (getCR3 k AND 0xFFFFF000) (pm_of k)) (\<lambda>s.
     Stop (Halted ((set_pm s k)\<lparr>pcbs := (pcbs k)(active k := None)\<rparr>)))"

definition sys_join :: "UserContext \<Rightarrow> kernel \<Rightarrow> u32 code" where
  "sys_join uc k = need Wild (mine k) (\<lambda>pcb.
     let pcb = pcb\<lparr>user_context := uc\<rparr>; k = put_pcb (active k) pcb k in
     if is_empty pcb then Done (- 1) k
     else (let child = peek_child pcb in
       if child \<noteq> 0 then need Wild (pcbs k child) (\<lambda>c.
         let (sem, rq) = sem_down (JoinEv child (active k)) (exit_sem c, ready_queue k) in
         event_loop ((put_pcb child (c\<lparr>exit_sem := sem\<rparr>) k)\<lparr>ready_queue := rq, interrupts := False\<rparr>))
       else event_loop (k\<lparr>interrupts := False\<rparr>)))"

definition sys_kill :: "UserContext \<Rightarrow> kernel \<Rightarrow> u32 code" where
  "sys_kill uc k = andthen (arg 1 uc k) (\<lambda>v k. need Wild (mine k) (\<lambda>pcb.
     let child = peek_child pcb in
     if child = 0 then Done (- 1) k
     else need Wild (pcbs k child) (\<lambda>c.
       if killed c \<or> handled c then Done (- 1) k
       else Done 0 (put_pcb child (c\<lparr>killed := True, killed_v := v\<rparr>) k))))"

definition sys_simple_signal :: "UserContext \<Rightarrow> kernel \<Rightarrow> u32 code" where
  "sys_simple_signal uc k = andthen (arg 1 uc k) (\<lambda>h k. need Wild (mine k) (\<lambda>pcb.
     Done 1 (put_pcb (active k) (pcb\<lparr>handler_eip := h\<rparr>) k)))"

section \<open>Loading a program\<close>

function count_args :: "u32 \<Rightarrow> nat \<Rightarrow> kernel \<Rightarrow> nat code" where
  "count_args sp n k = (if 4294967296 \<le> n then Stop Wild
     else andthen (kload32 (sp + 4 * of_nat (n + 2)) k) (\<lambda>w k. if w \<noteq> 0 then count_args sp (Suc n) k else Done n k))"
  by pat_completeness auto
termination by (relation "measure (\<lambda>(sp, n, k). 4294967296 - n)") auto

function cstr_len :: "u32 \<Rightarrow> nat \<Rightarrow> kernel \<Rightarrow> nat code" where
  "cstr_len a n k = (if 4294967296 \<le> n then Stop Wild
     else andthen (kload8 (a + of_nat n) k) (\<lambda>c k. if c \<noteq> 0 then cstr_len a (Suc n) k else Done n k))"
  by pat_completeness auto
termination by (relation "measure (\<lambda>(a, n, k). 4294967296 - n)") auto

declare count_args.simps [simp del] cstr_len.simps [simp del]

text \<open>
  The arguments from number \<open>j\<close> on: copies of the strings and where they go below the user's
  stack pointer.  On an argument outside user space the code frees \<^verbatim>\<open>args\<close> entries it has not
  written yet.
\<close>

fun parse_args :: "u32 \<Rightarrow> nat \<Rightarrow> nat \<Rightarrow> u32 \<Rightarrow> kernel \<Rightarrow> ((u8 list \<times> u32) list \<times> u32) code" where
  "parse_args sp j 0 total_length k = Done ([], total_length) k"
| "parse_args sp j (Suc n) total_length k =
     andthen (kload32 (sp + 4 * of_nat (j + 2)) k) (\<lambda>a k.
     andthen (cstr_len a 0 k) (\<lambda>len k.
     let string_length = of_nat len + 1; total_length = total_length + string_length in
     if a < 0x80000000 \<or> a + string_length > 0xF0000000 \<or> a + string_length < string_length then Stop Wild
     else andthen (load_bytes a (len + 1) k) (\<lambda>bs k.
       andthen (parse_args sp (Suc j) n total_length k) (\<lambda>(rest, total) k.
         Done ((bs, sp - total_length) # rest, total) k))))"

fun kload_loop :: "block_io \<Rightarrow> ProgramHeader list \<Rightarrow> kernel \<Rightarrow> unit code" where
  "kload_loop f [] k = Done () k"
| "kload_loop f (p # ps) k =
     (if ph_type p \<noteq> 1 then kload_loop f ps k
      else need Wild (mine k) (\<lambda>pcb.
        let k = put_pcb (active k) (pcb\<lparr>queue := snd (add_region (aligned_region p) (queue pcb))\<rparr>) k in
        need Panic (read_all f (ph_offset p) (ph_filesz p)) (\<lambda>(n, bs).
        andthen (store_bytes kstore8 (ph_vaddr p) bs k) (\<lambda>_ k. kload_loop f ps k))))"

definition kelf_load :: "Node \<Rightarrow> kernel \<Rightarrow> u32 code" where
  "kelf_load node k = (let f = Node_io (disk_image k) node in
     need Panic (read_header f) (\<lambda>h. need Panic (read_phs f h 0 (unat (eh_phnum h))) (\<lambda>ps.
     andthen (kload_loop f ps k) (\<lambda>_ k. Done (eh_entry h) k))))"

fun push_strings :: "(u8 list \<times> u32) list \<Rightarrow> kernel \<Rightarrow> unit code" where
  "push_strings [] k = Done () k"
| "push_strings ((bs, p) # rest) k = andthen (store_bytes kstore8 p bs k) (\<lambda>_ k. push_strings rest k)"

text \<open>Words pushed below \<^verbatim>\<open>userEsp[t]\<close>; the result is the index of the last.\<close>

fun push_words :: "u32 \<Rightarrow> u32 \<Rightarrow> u32 list \<Rightarrow> kernel \<Rightarrow> u32 code" where
  "push_words sp t [] k = Done t k"
| "push_words sp t (w # ws) k = andthen (kstore32 (sp + 4 * (t - 1)) w k) (\<lambda>_ k. push_words sp (t - 1) ws k)"

definition push_args :: "u32 \<Rightarrow> (u8 list \<times> u32) list \<Rightarrow> u32 \<Rightarrow> kernel \<Rightarrow> u32 code" where
  "push_args sp args total_length k =
     andthen (push_strings args k) (\<lambda>_ k.
     andthen (push_words sp (- signed_drop_bit 2 (total_length + 3)) (0 # rev (map snd args)) k) (\<lambda>t k.
     andthen (push_words sp t [sp + push_bit 2 (t - 1 + 1), of_nat (length args)] k) (\<lambda>t k.
       Done (sp + 4 * t) k)))"

definition sys_execl :: "UserContext \<Rightarrow> kernel \<Rightarrow> u32 code" where
  "sys_execl uc k = (let sp = esp (iFrame uc) in
     andthen (arg 1 uc k) (\<lambda>path_name k.
     andthen (find_path_node path_name k) (\<lambda>node k.
     (case node of
        None \<Rightarrow> Done (- 1) k
      | Some current_node \<Rightarrow>
          if \<not> is_file current_node then Done (- 1) k
          else andthen (count_args sp 0 k) (\<lambda>n k.
            andthen (parse_args sp 0 n 0 k) (\<lambda>(args, total_length) k.
            need Panic (valid_load (Node_io (disk_image k) current_node)) (\<lambda>e.
            if e = - 1 then Done (- 1) k
            else need Panic (VMM_free (getCR3 k AND 0xFFFFF000) (pm_of k)) (\<lambda>s.
              need Panic (per_core_init (kConfig k) (vmm (set_pm s k))) (\<lambda>v.
              need Wild (mine k) (\<lambda>pcb.
              let new_page_directory = cr3 v AND 0xFFFFF000;
                  k = put_pcb (active k) (pcb\<lparr>pcb_directory := new_page_directory\<rparr>) (k\<lparr>vmm := v\<rparr>) in
              andthen (kelf_load current_node k) (\<lambda>e k.
              andthen (push_args sp args total_length k) (\<lambda>new_sp k.
                if interrupts k then need Wild (mine k) (\<lambda>pcb.
                  event_loop (go (ExecEv e new_sp (active k) new_page_directory)
                    (put_pcb (active k) (pcb\<lparr>user_context := uc\<rparr>) (k\<lparr>interrupts := False\<rparr>))))
                else Stop (Enter e new_sp 0 k)))))))))))))"

section \<open>Semaphores\<close>

definition set_sem :: "nat \<Rightarrow> ptr \<Rightarrow> u32 \<Rightarrow> kernel \<Rightarrow> u32 code" where
  "set_sem i p v k = need Wild (mine k) (\<lambda>pcb.
     need Wild (Shared_assign_move (semaphores pcb ! i) p (sems k)) (\<lambda>(q, _, h).
     Done v ((put_pcb (active k) (pcb\<lparr>semaphores := (semaphores pcb)[i := q]\<rparr>) k)\<lparr>sems := h\<rparr>)))"

definition bad_sem :: "u32 \<Rightarrow> PCB \<Rightarrow> bool" where
  "bad_sem i pcb \<longleftrightarrow> i \<ge> 100 \<or> Shared_is_null (semaphores pcb ! unat i)"

definition sys_sem :: "UserContext \<Rightarrow> kernel \<Rightarrow> u32 code" where
  "sys_sem uc k = andthen (arg 1 uc k) (\<lambda>n k. need Wild (mine k) (\<lambda>pcb.
     (case free_slot 0 (semaphores pcb) of
        None \<Rightarrow> Done (- 1) k
      | Some i \<Rightarrow> need Panic (new_object k) (\<lambda>(a, k).
          need Wild (Shared_make a (Semaphore_new n) (sems k)) (\<lambda>(p, h). set_sem i p (of_nat i) (k\<lparr>sems := h\<rparr>))))))"

definition sys_up :: "UserContext \<Rightarrow> kernel \<Rightarrow> u32 code" where
  "sys_up uc k = andthen (arg 1 uc k) (\<lambda>i k. need Wild (mine k) (\<lambda>pcb.
     if bad_sem i pcb then Done (- 1) k
     else need Wild (Shared_copy (semaphores pcb ! unat i) (sems k)) (\<lambda>(p, h).
       need Wild (h p) (\<lambda>c.
       need Panic (sem_up (cdata c, ready_queue k)) (\<lambda>(sem, rq).
       drop_sem p 0 (k\<lparr>sems := h(p \<mapsto> c\<lparr>cdata := sem\<rparr>), ready_queue := rq\<rparr>))))))"

definition sys_down :: "UserContext \<Rightarrow> kernel \<Rightarrow> u32 code" where
  "sys_down uc k = andthen (arg 1 uc k) (\<lambda>i k. need Wild (mine k) (\<lambda>pcb.
     if bad_sem i pcb then Done (- 1) k
     else need Wild (Shared_copy (semaphores pcb ! unat i) (sems k)) (\<lambda>(p, h).
       need Wild (h p) (\<lambda>c.
       let k = put_pcb (active k) (pcb\<lparr>user_context := uc\<rparr>) k;
           (sem, rq) = sem_down (DownEv (active k)) (cdata c, ready_queue k) in
       event_loop (k\<lparr>sems := h(p \<mapsto> c\<lparr>cdata := sem\<rparr>), ready_queue := rq, interrupts := False\<rparr>)))))"

definition sys_sem_close :: "UserContext \<Rightarrow> kernel \<Rightarrow> u32 code" where
  "sys_sem_close uc k = andthen (arg 1 uc k) (\<lambda>i k. need Wild (mine k) (\<lambda>pcb.
     if bad_sem i pcb then Done (- 1) k else set_sem (unat i) Shared_default 0 k))"

section \<open>Files\<close>

definition bad_fd :: "u32 \<Rightarrow> PCB \<Rightarrow> bool" where
  "bad_fd fd pcb \<longleftrightarrow> fd \<ge> 10 \<or> Shared_is_null (file_descriptor pcb ! unat fd)"

definition sys_chdir :: "UserContext \<Rightarrow> kernel \<Rightarrow> u32 code" where
  "sys_chdir uc k = andthen (arg 1 uc k) (\<lambda>path_name k. andthen (find_path_node path_name k) (\<lambda>node k.
     (case node of
        None \<Rightarrow> Done (- 1) k
      | Some nd \<Rightarrow> need Wild (mine k) (\<lambda>pcb. Done 0 (put_pcb (active k) (pcb\<lparr>cwd_node := Some nd\<rparr>) k)))))"

definition sys_open :: "UserContext \<Rightarrow> kernel \<Rightarrow> u32 code" where
  "sys_open uc k = andthen (arg 1 uc k) (\<lambda>path_name k. andthen (find_path_node path_name k) (\<lambda>node k.
     (case node of
        None \<Rightarrow> Done (- 1) k
      | Some nd \<Rightarrow> need Wild (mine k) (\<lambda>pcb.
          (case free_slot 0 (file_descriptor pcb) of
             None \<Rightarrow> Done (- 1) k
           | Some i \<Rightarrow> make_fd i (FileDescriptor_node (Some nd) 0) (of_nat i) k)))))"

definition sys_close :: "UserContext \<Rightarrow> kernel \<Rightarrow> u32 code" where
  "sys_close uc k = andthen (arg 1 uc k) (\<lambda>fd k. need Wild (mine k) (\<lambda>pcb.
     if bad_fd fd pcb then Done (- 1) k else set_fd (unat fd) Shared_default 0 k))"

text \<open>Reading \<^verbatim>\<open>node->data.mode\<close> through a null pointer is an access to address 16.\<close>

definition sys_len :: "UserContext \<Rightarrow> kernel \<Rightarrow> u32 code" where
  "sys_len uc k = andthen (arg 1 uc k) (\<lambda>fd k. need Wild (mine k) (\<lambda>pcb.
     if bad_fd fd pcb then Done (- 1) k
     else need Wild (Shared_deref (file_descriptor pcb ! unat fd) (fds k)) (\<lambda>d.
       if pipe d \<noteq> 0 then Done (- 1) k
       else (case vnode d of
           None \<Rightarrow> bad_access 16 k
         | Some node \<Rightarrow> if \<not> is_file node then Done (- 1) k else Done (node_size_in_bytes node) k))))"

definition dir_or_file :: "Node option \<Rightarrow> bool" where
  "dir_or_file v \<longleftrightarrow> (case v of None \<Rightarrow> False | Some nd \<Rightarrow> is_dir nd \<or> is_file nd)"

definition a_dir :: "Node option \<Rightarrow> bool" where
  "a_dir v \<longleftrightarrow> (case v of None \<Rightarrow> False | Some nd \<Rightarrow> is_dir nd)"

definition read_pipe :: "ptr \<Rightarrow> u32 \<Rightarrow> UserContext \<Rightarrow> PCB \<Rightarrow> kernel \<Rightarrow> u32 code" where
  "read_pipe b buffer uc pcb k =
     (let k = put_pcb (active k) (pcb\<lparr>pcb_directory := getCR3 k AND 0xFFFFF000, user_context := uc\<rparr>) k in
      need Wild (pipes k b) (\<lambda>pb.
      let (sem, rq) = sem_down (GetEv b (active k) buffer) (pipe_full pb, ready_queue k) in
      event_loop (k\<lparr>pipes := (pipes k)(b \<mapsto> pb\<lparr>pipe_full := sem\<rparr>), ready_queue := rq, interrupts := False\<rparr>)))"

definition read_file :: "ptr \<Rightarrow> FileDescriptor \<Rightarrow> Node \<Rightarrow> u32 \<Rightarrow> u32 \<Rightarrow> kernel \<Rightarrow> u32 code" where
  "read_file p d node buffer n k =
     (let left = node_size_in_bytes node - fd_offset d;
          n = (if n > left then left else n) in
      need Wild (fds k p) (\<lambda>c.
      let k = k\<lparr>fds := (fds k)(p \<mapsto> c\<lparr>cdata := d\<lparr>fd_offset := fd_offset d + n\<rparr>\<rparr>)\<rparr> in
      need Panic (read_all (Node_io (disk_image k) node) (fd_offset d) n) (\<lambda>(m, bs).
      andthen (store_bytes kstore8 buffer bs k) (\<lambda>_ k.
        drop_fd p (if word_of_int m = (- 1 :: u32) then 0 else word_of_int m) k))))"

definition sys_read :: "UserContext \<Rightarrow> kernel \<Rightarrow> u32 code" where
  "sys_read uc k =
     andthen (arg 1 uc k) (\<lambda>fd k. andthen (arg 2 uc k) (\<lambda>buffer k. andthen (arg 3 uc k) (\<lambda>n k.
     if n = 0 then Done 0 k
     else need Wild (mine k) (\<lambda>pcb.
       if bad_fd fd pcb then Done (- 1) k
       else if bad_buffer buffer n then Done (- 1) k
       else need Wild (Shared_copy (file_descriptor pcb ! unat fd) (fds k)) (\<lambda>(p, h).
         let k = k\<lparr>fds := h\<rparr> in
         need Wild (Shared_deref p h) (\<lambda>d.
         if \<not> readable d \<or> a_dir (vnode d) then drop_fd p (- 1) k
         else if pipe d \<noteq> 0 then read_pipe (pipe d) buffer uc pcb k
         else need Wild (vnode d) (\<lambda>node. read_file p d node buffer n k)))))))"

fun print_bytes :: "u32 \<Rightarrow> nat \<Rightarrow> kernel \<Rightarrow> unit code" where
  "print_bytes a 0 k = Done () k"
| "print_bytes a (Suc n) k = andthen (kload8 a k) (\<lambda>c k. print_bytes (a + 1) n (k\<lparr>terminal := terminal k @ [c]\<rparr>))"

definition write_pipe :: "ptr \<Rightarrow> u32 \<Rightarrow> UserContext \<Rightarrow> PCB \<Rightarrow> kernel \<Rightarrow> u32 code" where
  "write_pipe b buffer uc pcb k =
     (let k = put_pcb (active k) (pcb\<lparr>pcb_directory := getCR3 k AND 0xFFFFF000, user_context := uc\<rparr>) k in
      andthen (kload8 buffer k) (\<lambda>c k. need Wild (pipes k b) (\<lambda>pb.
      let (sem, rq) = sem_down (PutEv b c (active k)) (pipe_empty pb, ready_queue k) in
      event_loop (k\<lparr>pipes := (pipes k)(b \<mapsto> pb\<lparr>pipe_empty := sem\<rparr>), ready_queue := rq, interrupts := False\<rparr>))))"

definition sys_write :: "UserContext \<Rightarrow> kernel \<Rightarrow> u32 code" where
  "sys_write uc k =
     andthen (arg 1 uc k) (\<lambda>fd k. andthen (arg 2 uc k) (\<lambda>buffer k. andthen (arg 3 uc k) (\<lambda>n k.
     if n = 0 then Done 0 k
     else need Wild (mine k) (\<lambda>pcb.
       if bad_fd fd pcb then Done (- 1) k
       else if bad_buffer buffer n then Done (- 1) k
       else need Wild (Shared_copy (file_descriptor pcb ! unat fd) (fds k)) (\<lambda>(p, h).
         let k = k\<lparr>fds := h\<rparr> in
         need Wild (Shared_deref p h) (\<lambda>d.
         if \<not> writable d \<or> dir_or_file (vnode d) then drop_fd p (- 1) k
         else if pipe d \<noteq> 0 then write_pipe (pipe d) buffer uc pcb k
         else andthen (print_bytes buffer (unat n) k) (\<lambda>_ k. drop_fd p n k)))))))"

definition sys_dup :: "UserContext \<Rightarrow> kernel \<Rightarrow> u32 code" where
  "sys_dup uc k = andthen (arg 1 uc k) (\<lambda>fd k. need Wild (mine k) (\<lambda>pcb.
     if bad_fd fd pcb then Done (- 1) k
     else (case free_slot 0 (file_descriptor pcb) of
         None \<Rightarrow> Done (- 1) k
       | Some i \<Rightarrow>
           need Wild (Shared_assign (file_descriptor pcb ! i) (file_descriptor pcb ! unat fd) (fds k)) (\<lambda>(q, h).
           Done (of_nat i) ((put_pcb (active k) (pcb\<lparr>file_descriptor := (file_descriptor pcb)[i := q]\<rparr>) k)\<lparr>fds := h\<rparr>)))))"

text \<open>The loop of \<^verbatim>\<open>pipe\<close> over the slots; the numbers it found are kept in user memory.\<close>

fun pipe_loop :: "nat \<Rightarrow> nat \<Rightarrow> u32 \<Rightarrow> u32 \<Rightarrow> ptr \<Rightarrow> kernel \<Rightarrow> u32 code" where
  "pipe_loop i 0 write_fd read_fd b k = Done (- 1) k"
| "pipe_loop i (Suc n) write_fd read_fd b k = need Wild (mine k) (\<lambda>pcb.
     if Shared_is_null (file_descriptor pcb ! i) then
       andthen (kload32 write_fd k) (\<lambda>w k.
       if w = 20 then
         andthen (kstore32 write_fd (of_nat i) k) (\<lambda>_ k.
         andthen (make_fd i (FileDescriptor_pipe False True b) 0 k) (\<lambda>_ k.
           pipe_loop (Suc i) n write_fd read_fd b k))
       else
         andthen (kstore32 read_fd (of_nat i) k) (\<lambda>_ k. make_fd i (FileDescriptor_pipe True False b) 0 k))
     else pipe_loop (Suc i) n write_fd read_fd b k)"

definition sys_pipe :: "UserContext \<Rightarrow> kernel \<Rightarrow> u32 code" where
  "sys_pipe uc k =
     andthen (arg 1 uc k) (\<lambda>write_fd k. andthen (arg 2 uc k) (\<lambda>read_fd k. need Wild (mine k) (\<lambda>pcb.
     if length (filter Shared_is_null (file_descriptor pcb)) < 2 then Done (- 1) k
     else need Panic (new_object k) (\<lambda>(b, k).
       let k = k\<lparr>pipes := (pipes k)(b \<mapsto> \<lparr>pipe_queue = [], pipe_full = Semaphore_new 0, pipe_empty = Semaphore_new 100\<rparr>)\<rparr> in
       andthen (kstore32 write_fd 20 k) (\<lambda>_ k. andthen (kstore32 read_fd 20 k) (\<lambda>_ k.
         pipe_loop 0 10 write_fd read_fd b k))))))"

section \<open>Memory regions\<close>

function zero_fill :: "u32 \<Rightarrow> u32 \<Rightarrow> kernel \<Rightarrow> unit code" where
  "zero_fill i fin k = (if i < fin then andthen (kstore8 i 0 k) (\<lambda>_ k. zero_fill (i + 1) fin k) else Done () k)"
  by pat_completeness auto
termination
proof (relation "measure (\<lambda>(i, fin, k). unat fin - unat i)")
  fix i fin :: u32 and k k' :: kernel
  assume lt: "i < fin"
  then have "unat i + 1 < 4294967296" using unat_lt_32 [of fin] unfolding word_less_unat by linarith
  then have "unat (i + 1) = unat i + 1" using unat_add_no_wrap [of i 1] by simp
  then show "((i + 1, fin, k'), i, fin, k) \<in> measure (\<lambda>(i, fin, k). unat fin - unat i)"
    using lt by (simp add: word_less_unat)
qed simp

declare zero_fill.simps [simp del]

text \<open>
  The file a mapping is backed by: \<open>Some None\<close> for none, \<open>None\<close> when the request is refused.  The
  descriptor is signed: a negative one other than -1 is used as an index below the table.
\<close>

definition mmap_node :: "u32 \<Rightarrow> u32 \<Rightarrow> PCB \<Rightarrow> kernel \<Rightarrow> Node option option code" where
  "mmap_node fd off pcb k =
     (if fd = - 1 then Done (Some None) k
      else if off AND 0xFFF \<noteq> 0 then Done None k
      else if sint fd \<ge> 10 then Done None k
      else if sint fd < 0 then Stop Wild
      else if Shared_is_null (file_descriptor pcb ! unat fd) then Done None k
      else need Wild (Shared_deref (file_descriptor pcb ! unat fd) (fds k)) (\<lambda>d.
        (case vnode d of
           None \<Rightarrow> Done None k
         | Some node \<Rightarrow> if is_dir node then Done None k else Done (Some (Some node)) k)))"

definition sys_mmap :: "UserContext \<Rightarrow> kernel \<Rightarrow> u32 code" where
  "sys_mmap uc k =
     andthen (arg 1 uc k) (\<lambda>addr k. andthen (arg 2 uc k) (\<lambda>sz k. andthen (arg 3 uc k) (\<lambda>fd k. andthen (arg 4 uc k) (\<lambda>off k.
     need Wild (mine k) (\<lambda>pcb.
     if sz = 0 then Done 0 k
     else if addr AND 0xFFF \<noteq> 0 then Done 0 k
     else if sz AND 0xFFF \<noteq> 0 then Done 0 k
     else if addr \<noteq> 0 \<and> (addr < 0x80000000 \<or> addr + sz \<ge> 0xF0000000 \<or> addr + sz < addr) then Done 0 k
     else if addr \<noteq> 0 \<and> intersects_regions addr sz (queue pcb) then Done 0 k
     else andthen (mmap_node fd off pcb k) (\<lambda>file k.
       (case file of
          None \<Rightarrow> Done 0 k
        | Some f \<Rightarrow>
            (let (va, rs) = add_region (new_region addr sz) (queue pcb);
                 k = put_pcb (active k) (pcb\<lparr>queue := rs\<rparr>) k in
             case f of
               None \<Rightarrow> Done va k
             | Some node \<Rightarrow>
                 (let left = node_size_in_bytes node - off;
                      read_size = (if sz < left then sz else left) in
                  need Panic (read_all (Node_io (disk_image k) node) off read_size) (\<lambda>(n, bs).
                  andthen (store_bytes kstore8 va bs k) (\<lambda>_ k.
                  andthen (zero_fill (va + word_of_int n) (va + sz) k) (\<lambda>_ k. Done va k))))))))))))"

definition sys_munmap :: "UserContext \<Rightarrow> kernel \<Rightarrow> u32 code" where
  "sys_munmap uc k = andthen (arg 1 uc k) (\<lambda>addr k. need Wild (mine k) (\<lambda>pcb.
     if addr < 0x80000000 \<or> addr \<ge> 0xF0000000 then Done (- 1) k
     else need Panic (remove_from_vmequeue addr pcb (pm_of k)) (\<lambda>(done, pcb', s).
       Done (if done then 0 else - 1) (put_pcb (active k) pcb' (set_pm s k)))))"

section \<open>The handler\<close>

definition sysHandler :: "UserContext \<Rightarrow> kernel \<Rightarrow> u32 code" where
  "sysHandler uc k = (let n = eax (regs uc) in
     if n = 0 then andthen (arg 1 uc k) (\<lambda>v k. exit v k)
     else if n = 1 then sys_write uc k
     else if n = 2 then sys_fork uc k
     else if n = 7 then sys_shutdown k
     else if n = 998 then switch_processes uc k
     else if n = 999 then sys_join uc k
     else if n = 1000 then sys_execl uc k
     else if n = 1001 then sys_sem uc k
     else if n = 1002 then sys_up uc k
     else if n = 1003 then sys_down uc k
     else if n = 1004 then sys_simple_signal uc k
     else if n = 1005 then sys_mmap uc k
     else if n = 1006 then sigreturn k
     else if n = 1007 then sys_sem_close uc k
     else if n = 1008 then sys_munmap uc k
     else if n = 1020 then sys_chdir uc k
     else if n = 1021 then sys_open uc k
     else if n = 1022 then sys_close uc k
     else if n = 1023 then sys_len uc k
     else if n = 1024 then sys_read uc k
     else if n = 1025 then sys_write uc k
     else if n = 1026 then sys_pipe uc k
     else if n = 1027 then sys_kill uc k
     else if n = 1028 then sys_dup uc k
     else Stop Panic)"

definition sysHandlerWrap :: "UserContext \<Rightarrow> kernel \<Rightarrow> u32 code" where
  "sysHandlerWrap uc k = andthen (sysHandler uc k) (\<lambda>v k. andthen (switch_interrupt uc v k) (\<lambda>_ k. Done v k))"

end
