(* ===== verification/Sys_Memory.thy ===== *)
theory Sys_Memory
  imports Sys_Calls
begin

text \<open>
  System calls and user memory.  The accesses of \<open>Processes\<close> satisfy the contract
  \<open>flat_memory\<close> on the state of the kernel, so a handler reads its arguments and buffers as from
  an array; all that paging may change is physical memory, and never what the process sees there.
\<close>

section \<open>The view of the running process\<close>

definition kview :: "kernel \<Rightarrow> u32 \<Rightarrow> u8" where
  "kview k = user_view (getCR3 k) (pm_of k)"

definition kready :: "u32 \<Rightarrow> ptr list \<Rightarrow> kernel \<Rightarrow> u32 set \<Rightarrow> bool" where
  "kready base f k A \<longleftrightarrow> finite A \<and>
     (case mine k of None \<Rightarrow> False | Some pcb \<Rightarrow> accessible base (queue pcb) (getCR3 k) f (pm_of k) A)"

definition paged_in :: "u32 \<Rightarrow> ptr list \<Rightarrow> kernel \<Rightarrow> ptr list \<Rightarrow> kernel \<Rightarrow> bool" where
  "paged_in base f k f' k' \<longleftrightarrow>
     k' = set_pm (pm_of k') k \<and> confined base (getCR3 k) f (pm_of k) f' (pm_of k')"

definition kword :: "kernel \<Rightarrow> u32 \<Rightarrow> u32" where
  "kword k va = le32 [kview k va, kview k (va + 1), kview k (va + 2), kview k (va + 3)] 0"

text \<open>Addresses: \<open>n\<close> bytes from \<open>a\<close> on.\<close>

definition span :: "u32 \<Rightarrow> nat \<Rightarrow> u32 set" where
  "span a n = (\<lambda>i. a + of_nat i) ` {..<n}"

lemma set_pm_simps [simp]:
  "pm_of (set_pm s k) = s" "getCR3 (set_pm s k) = getCR3 k" "mine (set_pm s k) = mine k"
  "set_pm s (set_pm t k) = set_pm s k" "set_pm (pm_of k) k = k" "active (set_pm s k) = active k"
  "fds (set_pm s k) = fds k" "sems (set_pm s k) = sems k" "pipes (set_pm s k) = pipes k"
  "ready_queue (set_pm s k) = ready_queue k" "terminal (set_pm s k) = terminal k" "pcbs (set_pm s k) = pcbs k"
  "heap_new (set_pm s k) = heap_new k" "disk_image (set_pm s k) = disk_image k" "fs (set_pm s k) = fs k"
  "fs_root (set_pm s k) = fs_root k" "interrupts (set_pm s k) = interrupts k" "kConfig (set_pm s k) = kConfig k"
  by (simp_all add: set_pm_def pm_of_def getCR3_def mine_def)

lemma put_pcb_simps [simp]:
  "pm_of (put_pcb p q k) = pm_of k" "getCR3 (put_pcb p q k) = getCR3 k" "active (put_pcb p q k) = active k"
  "mine (put_pcb (active k) q k) = Some q" "put_pcb p q (set_pm s k) = set_pm s (put_pcb p q k)"
  "fds (put_pcb p q k) = fds k" "sems (put_pcb p q k) = sems k" "pipes (put_pcb p q k) = pipes k"
  "ready_queue (put_pcb p q k) = ready_queue k" "pcbs (put_pcb p q k) = (pcbs k)(p \<mapsto> q)"
  "heap_new (put_pcb p q k) = heap_new k" "disk_image (put_pcb p q k) = disk_image k" "fs (put_pcb p q k) = fs k"
  "terminal (put_pcb p q k) = terminal k" "interrupts (put_pcb p q k) = interrupts k"
  by (simp_all add: put_pcb_def pm_of_def getCR3_def mine_def set_pm_def)

text \<open>What the other fields of the kernel have nothing to do with.\<close>

lemma pm_of_fields [simp]:
  "pm_of (k\<lparr>fds := x_fds\<rparr>) = pm_of k"
  "pm_of (k\<lparr>sems := x_sems\<rparr>) = pm_of k"
  "pm_of (k\<lparr>pipes := x_pipes\<rparr>) = pm_of k"
  "pm_of (k\<lparr>ready_queue := x_ready_queue\<rparr>) = pm_of k"
  "pm_of (k\<lparr>interrupts := x_interrupts\<rparr>) = pm_of k"
  "pm_of (k\<lparr>terminal := x_terminal\<rparr>) = pm_of k"
  "pm_of (k\<lparr>heap_new := x_heap_new\<rparr>) = pm_of k"
  by (simp_all add: pm_of_def getCR3_def mine_def)

lemma getCR3_fields [simp]:
  "getCR3 (k\<lparr>fds := x_fds\<rparr>) = getCR3 k"
  "getCR3 (k\<lparr>sems := x_sems\<rparr>) = getCR3 k"
  "getCR3 (k\<lparr>pipes := x_pipes\<rparr>) = getCR3 k"
  "getCR3 (k\<lparr>ready_queue := x_ready_queue\<rparr>) = getCR3 k"
  "getCR3 (k\<lparr>interrupts := x_interrupts\<rparr>) = getCR3 k"
  "getCR3 (k\<lparr>terminal := x_terminal\<rparr>) = getCR3 k"
  "getCR3 (k\<lparr>heap_new := x_heap_new\<rparr>) = getCR3 k"
  by (simp_all add: pm_of_def getCR3_def mine_def)

lemma mine_fields [simp]:
  "mine (k\<lparr>fds := x_fds\<rparr>) = mine k"
  "mine (k\<lparr>sems := x_sems\<rparr>) = mine k"
  "mine (k\<lparr>pipes := x_pipes\<rparr>) = mine k"
  "mine (k\<lparr>ready_queue := x_ready_queue\<rparr>) = mine k"
  "mine (k\<lparr>interrupts := x_interrupts\<rparr>) = mine k"
  "mine (k\<lparr>terminal := x_terminal\<rparr>) = mine k"
  "mine (k\<lparr>heap_new := x_heap_new\<rparr>) = mine k"
  by (simp_all add: pm_of_def getCR3_def mine_def)

lemma set_pm_fields [simp]:
  "set_pm s (k\<lparr>fds := x_fds\<rparr>) = (set_pm s k)\<lparr>fds := x_fds\<rparr>"
  "set_pm s (k\<lparr>sems := x_sems\<rparr>) = (set_pm s k)\<lparr>sems := x_sems\<rparr>"
  "set_pm s (k\<lparr>pipes := x_pipes\<rparr>) = (set_pm s k)\<lparr>pipes := x_pipes\<rparr>"
  "set_pm s (k\<lparr>ready_queue := x_ready_queue\<rparr>) = (set_pm s k)\<lparr>ready_queue := x_ready_queue\<rparr>"
  "set_pm s (k\<lparr>interrupts := x_interrupts\<rparr>) = (set_pm s k)\<lparr>interrupts := x_interrupts\<rparr>"
  "set_pm s (k\<lparr>terminal := x_terminal\<rparr>) = (set_pm s k)\<lparr>terminal := x_terminal\<rparr>"
  "set_pm s (k\<lparr>heap_new := x_heap_new\<rparr>) = (set_pm s k)\<lparr>heap_new := x_heap_new\<rparr>"
  by (simp_all add: set_pm_def)

lemma kview_fields [simp]:
  "kview (k\<lparr>fds := x_fds\<rparr>) = kview k"
  "kview (k\<lparr>sems := x_sems\<rparr>) = kview k"
  "kview (k\<lparr>pipes := x_pipes\<rparr>) = kview k"
  "kview (k\<lparr>ready_queue := x_ready_queue\<rparr>) = kview k"
  "kview (k\<lparr>interrupts := x_interrupts\<rparr>) = kview k"
  "kview (k\<lparr>terminal := x_terminal\<rparr>) = kview k"
  "kview (k\<lparr>heap_new := x_heap_new\<rparr>) = kview k"
  by (simp_all add: kview_def kready_def fun_eq_iff split: option.split)

lemma kready_fields [simp]:
  "kready base f (k\<lparr>fds := x_fds\<rparr>) = kready base f k"
  "kready base f (k\<lparr>sems := x_sems\<rparr>) = kready base f k"
  "kready base f (k\<lparr>pipes := x_pipes\<rparr>) = kready base f k"
  "kready base f (k\<lparr>ready_queue := x_ready_queue\<rparr>) = kready base f k"
  "kready base f (k\<lparr>interrupts := x_interrupts\<rparr>) = kready base f k"
  "kready base f (k\<lparr>terminal := x_terminal\<rparr>) = kready base f k"
  "kready base f (k\<lparr>heap_new := x_heap_new\<rparr>) = kready base f k"
  by (simp_all add: kview_def kready_def fun_eq_iff split: option.split)

lemma user_access_Done:
  "mine k = Some pcb \<Longrightarrow> f (queue pcb) (getCR3 k) (pm_of k) = Done x s \<Longrightarrow> user_access f k = Done x (set_pm s k)"
  by (simp add: user_access_def)

interpretation kmem: flat_memory kload8 kstore8 kview "kready base" "paged_in base" for base
proof
  fix f k A va
  assume "kready base f k A" and va: "va \<in> A"
  then obtain pcb where p: "mine k = Some pcb" "finite A" "accessible base (queue pcb) (getCR3 k) f (pm_of k) A"
    by (auto simp: kready_def split: option.splits)
  obtain s f' where "load8 (queue pcb) (getCR3 k) va (pm_of k) = Done (kview k va) s"
      "accessible base (queue pcb) (getCR3 k) f' s A" "confined base (getCR3 k) f (pm_of k) f' s"
      "user_view (getCR3 k) s = kview k"
    using load8_ok [OF p(3) va p(2)] by (auto simp: kview_def)
  then show "\<exists>k' f'. kload8 va k = Done (kview k va) k' \<and> kready base f' k' A \<and> paged_in base f k f' k' \<and> kview k' = kview k"
    using p user_access_Done [OF p(1), of "\<lambda>rs pd. load8 rs pd va"]
    by (intro exI [of _ "set_pm s k"] exI [of _ f']) (simp add: kload8_def kready_def paged_in_def kview_def)
  fix b
  obtain s f' where "store8 (queue pcb) (getCR3 k) va b (pm_of k) = Done () s"
      "accessible base (queue pcb) (getCR3 k) f' s A" "confined base (getCR3 k) f (pm_of k) f' s"
      "user_view (getCR3 k) s = (kview k)(va := b)"
    using store8_ok [OF p(3) va p(2), of b] by (auto simp: kview_def)
  then show "\<exists>k' f'. kstore8 va b k = Done () k' \<and> kready base f' k' A \<and> paged_in base f k f' k' \<and> kview k' = (kview k)(va := b)"
    using p user_access_Done [OF p(1), of "\<lambda>rs pd. store8 rs pd va b"]
    by (intro exI [of _ "set_pm s k"] exI [of _ f']) (simp add: kstore8_def kready_def paged_in_def kview_def)
next
  show "paged_in base f k f k" for f k by (simp add: paged_in_def confined_def)
  show "paged_in base f k f2 k2" if "paged_in base f k f1 k1" "paged_in base f1 k1 f2 k2" for f k f1 k1 f2 k2
    using that confined_trans [of base "getCR3 k" f "pm_of k" f1 "pm_of k1" f2 "pm_of k2"]
    by (metis paged_in_def set_pm_simps(2,4))
qed

section \<open>Running a handler\<close>

lemma paged_inE:
  assumes "paged_in base f k f' k'"
  obtains s where "k' = set_pm s k" "confined base (getCR3 k) f (pm_of k) f' s"
  using assms unfolding paged_in_def by (metis set_pm_simps(1))

lemma span_4: "span a 4 = {a, a + 1, a + 2, a + 3}"
proof -
  have "{..<4 :: nat} = {0, 1, 2, 3}" by auto
  then show ?thesis by (simp add: span_def)
qed

lemma span_mem: "i < n \<Longrightarrow> a + of_nat i \<in> span a n"
  by (simp add: span_def)

lemma span_sub: "i + m \<le> n \<Longrightarrow> span (a + of_nat i) m \<subseteq> span a n"
  unfolding span_def by (force simp: add.assoc simp flip: of_nat_add)

lemma span_finite [simp]: "finite (span a n)"
  by (simp add: span_def)

text \<open>What paging may do between two steps of a handler; the process cannot see it.\<close>

definition unseen :: "u32 \<Rightarrow> ptr list \<Rightarrow> kernel \<Rightarrow> u32 set \<Rightarrow> ptr list \<Rightarrow> phys \<Rightarrow> bool" where
  "unseen base f k A f' s \<longleftrightarrow> kready base f' (set_pm s k) A \<and> kview (set_pm s k) = kview k \<and>
     confined base (getCR3 k) f (pm_of k) f' s"

lemma unseenD:
  assumes "unseen base f k A f' s"
  shows "kready base f' (set_pm s k) A" "kview (set_pm s k) = kview k" "confined base (getCR3 k) f (pm_of k) f' s"
  using assms by (simp_all add: unseen_def)

lemma unseen_refl: "kready base f k A \<Longrightarrow> unseen base f k A f (pm_of k)"
  by (simp add: unseen_def confined_def)

lemma unseen_trans: "unseen base f k A f1 s1 \<Longrightarrow> unseen base f1 (set_pm s1 k) A f2 s2 \<Longrightarrow> unseen base f k A f2 s2"
  using confined_trans [of base "getCR3 k" f "pm_of k" f1 s1 f2 s2] by (auto simp: unseen_def)

lemma loadE:
  assumes "kready base f k A" "va \<in> A"
  obtains s f' where "kload8 va k = Done (kview k va) (set_pm s k)" "unseen base f k A f' s"
  using kmem.ld_ok [OF assms] by (auto simp: unseen_def elim!: paged_inE)

lemma load32E:
  assumes "kready base f k A" "span va 4 \<subseteq> A"
  obtains s f' where "kload32 va k = Done (kword k va) (set_pm s k)" "unseen base f k A f' s"
  using kmem.load32_ok [OF assms(1), of va] assms(2) by (auto simp: unseen_def kword_def span_4 elim!: paged_inE)

lemma store_bytesE:
  assumes "kready base f k A" "span va (length bs) \<subseteq> A" "length bs \<le> 4294967296"
  obtains s f' where "store_bytes kstore8 va bs k = Done () (set_pm s k)" "kready base f' (set_pm s k) A"
    "kview (set_pm s k) = write_bytes va bs (kview k)" "confined base (getCR3 k) f (pm_of k) f' s"
proof -
  have "\<forall>i < length bs. va + of_nat i \<in> A" using assms(2) span_mem by blast
  then show thesis using that kmem.store_bytes_ok [OF assms(1), of bs va] assms(3) by (auto elim!: paged_inE)
qed

text \<open>The arguments of a call: \<open>n\<close> words above the return address, all of them accessible.\<close>

definition args_ready :: "u32 \<Rightarrow> ptr list \<Rightarrow> kernel \<Rightarrow> UserContext \<Rightarrow> nat \<Rightarrow> u32 set \<Rightarrow> bool" where
  "args_ready base f k uc n A \<longleftrightarrow> kready base f k A \<and> span (esp (iFrame uc)) (4 * Suc n) \<subseteq> A"

definition argv :: "kernel \<Rightarrow> UserContext \<Rightarrow> nat \<Rightarrow> u32" where
  "argv k uc i = kword k (esp (iFrame uc) + 4 * of_nat i)"

lemma argv_same [simp]: "kview (set_pm s k) = kview k \<Longrightarrow> argv (set_pm s k) uc i = argv k uc i"
  by (simp add: argv_def kword_def)

lemma argE:
  assumes "args_ready base f k uc n A" "i \<le> n"
  obtains s f' where "arg i uc k = Done (argv k uc i) (set_pm s k)" "unseen base f k A f' s"
    "args_ready base f' (set_pm s k) uc n A" "kview (set_pm s k) = kview k"
proof -
  have "span (esp (iFrame uc) + of_nat (4 * i)) 4 \<subseteq> span (esp (iFrame uc)) (4 * Suc n)"
    using assms(2) by (intro span_sub) simp
  then have a: "span (esp (iFrame uc) + 4 * of_nat i) 4 \<subseteq> A" using assms(1) by (auto simp: args_ready_def)
  have "kready base f k A" using assms(1) by (simp add: args_ready_def)
  then obtain s f' where u: "kload32 (esp (iFrame uc) + 4 * of_nat i) k = Done (argv k uc i) (set_pm s k)"
      "unseen base f k A f' s"
    unfolding argv_def by (rule load32E [OF _ a])
  then show thesis using that [of s f'] assms(1) unseenD [OF u(2)] by (simp add: args_ready_def arg_def)
qed

lemma load_bytesE:
  assumes "kready base f k A" "span va n \<subseteq> A"
  obtains s f' where "load_bytes va n k = Done (map (\<lambda>i. kview k (va + of_nat i)) [0..<n]) (set_pm s k)" "unseen base f k A f' s"
  using assms
proof (induction n arbitrary: va k f thesis)
  case 0
  then show ?case using unseen_refl [OF 0(2)] by (intro 0(1) [of "pm_of k" f]) simp_all
next
  case (Suc n)
  have a: "va \<in> A" using Suc.prems(3) span_mem [of 0 "Suc n" va] by auto
  have b: "span (va + 1) n \<subseteq> A" using Suc.prems(3) span_sub [of 1 n "Suc n" va] by auto
  obtain s1 f1 where 1: "kload8 va k = Done (kview k va) (set_pm s1 k)" "unseen base f k A f1 s1"
    by (rule loadE [OF Suc.prems(2) a])
  obtain s2 f2 where 2: "load_bytes (va + 1) n (set_pm s1 k) = Done (map (\<lambda>i. kview k (va + 1 + of_nat i)) [0..<n]) (set_pm s2 k)"
      "unseen base f1 (set_pm s1 k) A f2 s2"
    by (rule Suc.IH [OF _ unseenD(1) [OF 1(2)] b]) (simp add: unseenD(2) [OF 1(2)])
  have "[0..<Suc n] = 0 # map Suc [0..<n]" by (simp only: upt_conv_Cons zero_less_Suc map_Suc_upt)
  then have "map (\<lambda>i. kview k (va + of_nat i)) [0..<Suc n] = kview k va # map (\<lambda>i. kview k (va + 1 + of_nat i)) [0..<n]"
    by (simp add: add.assoc del: upt_Suc)
  then show ?case using 1(1) 2(1) unseen_trans [OF 1(2) 2(2)] by (intro Suc.prems(1) [of s2 f2]) (simp_all del: upt_Suc)
qed

section \<open>A small machine\<close>

text \<open>
  One process whose only user page is the last one of its stack, at 0xEFFFF000; the words \<open>ws\<close> are
  at its start, the rest is zero.
\<close>

definition ex_page :: "u32 list \<Rightarrow> phys" where
  "ex_page ws = \<lparr>mem = (\<lambda>a. if a = 0x600EFC then 0x601007 else if a = 0x601FFC then 0x602107
       else if unat a div 4096 = 0x602 \<and> unat a mod 4096 div 4 < length ws then ws ! (unat a mod 4096 div 4) else 0),
     firstFree = 0, avail = 0x603000, limit = 0x700000\<rparr>"

definition ex_kernel :: "u32 list \<Rightarrow> PCB \<Rightarrow> FileDescriptor counted store \<Rightarrow> kernel" where
  "ex_kernel ws pcb h = \<lparr>vmm = \<lparr>pm = ex_page ws, the_shared_frame = 0, page_directory = 0x600000, kernel_pt = [],
       apic_pt = 0, shared_pt = 0, cr3 = 0x600000\<rparr>,
     kConfig = \<lparr>memSize = 0x8000000, localAPIC = 0xFEE00000, ioAPIC = 0xFEC00000\<rparr>,
     disk_image = ex_disk, fs = mounted ex_disk, fs_root = inode_on ex_disk 2,
     pcbs = [0x1000 \<mapsto> pcb], fds = h, sems = Map.empty, pipes = Map.empty, ready_queue = [], active = 0x1000,
     interrupts = False, terminal = [], ticks = 0, heap_new = [0x2000, 0x3000]\<rparr>"

definition ex_context :: UserContext where
  "ex_context = no_context\<lparr>iFrame := (iFrame no_context)\<lparr>esp := 0xEFFFF000\<rparr>\<rparr>"

lemma le32_word_bytes: "le32 [word_byte 0 w, word_byte 1 w, word_byte 2 w, word_byte 3 w] 0 = w"
proof (rule bit_word_eqI)
  fix n :: nat assume "n < LENGTH(32)"
  then have "n < 8 \<or> (8 \<le> n \<and> n < 16) \<or> (16 \<le> n \<and> n < 24) \<or> (24 \<le> n \<and> n < 32)" by auto
  then show "bit (le32 [word_byte 0 w, word_byte 1 w, word_byte 2 w, word_byte 3 w] 0) n = bit w n"
    by (auto simp: le32_def word_byte_def bit_simps)
qed

lemma ex_page_frames:
  assumes "i < 1024"
  shows "pt_get (ex_page ws) 0x600000 i = (if i = 959 then 0x601007 else 0)"
    "pt_get (ex_page ws) 0x601000 i = (if i = 1023 then 0x602107 else 0)"
    "pt_get (ex_page ws) 0x602000 i = (if i < length ws then ws ! i else 0)"
proof -
  have al: "page_aligned 0x600000" "page_aligned 0x601000" "page_aligned 0x602000" by (simp_all add: page_aligned_def)
  note u = unat_elem [OF al(1) assms] unat_elem [OF al(2) assms] unat_elem [OF al(3) assms]
  have eq: "(elem p i = (a :: u32)) = (unat (elem p i) = unat a)" for p a by (simp add: word_unat_eq_iff)
  have "(4096 * 0x602 + 4 * i) mod 4096 = 4 * i mod 4096" by (rule mod_mult_self4)
  then have m: "(0x602000 + 4 * i) mod 4096 = 4 * i" using assms by simp
  have div: "(0x600000 + 4 * i) div 4096 = 0x600" "(0x601000 + 4 * i) div 4096 = 0x601" "(0x602000 + 4 * i) div 4096 = 0x602"
      "(0x602000 + 4 * i) mod 4096 div 4 = i"
    using assms m by auto
  show "pt_get (ex_page ws) 0x600000 i = (if i = 959 then 0x601007 else 0)"
    using u(1) div(1) by (auto simp: pt_get_def ex_page_def eq)
  show "pt_get (ex_page ws) 0x601000 i = (if i = 1023 then 0x602107 else 0)"
    using u(2) div(2) by (auto simp: pt_get_def ex_page_def eq)
  show "pt_get (ex_page ws) 0x602000 i = (if i < length ws then ws ! i else 0)"
    using u(3) div(3,4) by (auto simp: pt_get_def ex_page_def eq)
qed

lemma ex_page_walk:
  "mmu_walk (mem (ex_page ws)) 0x600000 va =
     (if page va = 0xEFFFF000 then Some \<lparr>x_frame = 0x602000, x_user = True, x_write = True\<rparr> else None)"
proof -
  have "page va = page 0xEFFFF000 \<longleftrightarrow> pdi_of va = pdi_of 0xEFFFF000 \<and> pti_of va = pti_of 0xEFFFF000"
    using same_page_iff [of va "0xEFFFF000"] by blast
  then have pg: "page va = 0xEFFFF000 \<longleftrightarrow> pdi_of va = 959 \<and> pti_of va = 1023" by (simp add: pdi_of_div pti_of_div)
  have al: "page_aligned (0x600000 :: u32)" by (simp add: page_aligned_def)
  show ?thesis
    unfolding mmu_walk_pt_get [OF al] pg Let_def ex_page_frames(1) [OF pdi_of_less]
    by (simp add: present_def frame_of_def ex_page_frames(2))
qed

lemma ex_page_ok: "space_ok 0x600000 [] (ex_page ws) 0x600000"
proof -
  have al: "allocated 0x600000 [] (ex_page ws) p" if "p \<in> {0x600000, 0x601000, 0x602000}" for p
    using that by (auto simp: allocated_def ex_page_def page_aligned_def)
  have ok: "phys_ok 0x600000 [] (ex_page ws)" by (simp add: phys_ok_def ex_page_def page_aligned_def)
  have t: "tables_ok 0x600000 [] (ex_page ws) 0x600000"
    using al by (auto simp: tables_ok_def ex_page_frames frame_of_def)
  show ?thesis
    unfolding space_ok_def ex_page_walk
    using ok t al by (auto simp: ex_page_frames frame_of_def split: if_splits)
qed

lemma ex_page_view:
  assumes "i < 4096"
  shows "user_view 0x600000 (ex_page ws) (0xEFFFF000 + of_nat i) =
    (if i div 4 < length ws then word_byte (i mod 4) (ws ! (i div 4)) else 0)"
proof -
  have "unat (0xEFFFF000 + of_nat i :: u32) = 0xEFFFF000 + i"
    using assms by (subst unat_add_no_wrap) (simp_all add: unat_of_nat)
  moreover have "(4096 * 0xEFFFF + i) mod 4096 = i mod 4096" by (rule mod_mult_self4)
  moreover have "(4 * 0x3BFFFC00 + i) mod 4 = i mod 4" by (rule mod_mult_self4)
  moreover have "(4096 * 0xEFFFF + i) div 4096 = 0xEFFFF" using assms by simp
  ultimately have u: "unat (0xEFFFF000 + of_nat i :: u32) = 0xEFFFF000 + i" "(0xEFFFF000 + i) mod 4096 = i"
      "(0xEFFFF000 + i) mod 4 = i mod 4" "(0xEFFFF000 + i) div 4096 = 0xEFFFF"
    using assms by simp_all
  have pg: "page (0xEFFFF000 + of_nat i) = 0xEFFFF000"
    by (simp add: word_unat_eq_iff unat_page_base u)
  have va: "user_va (0xEFFFF000 + of_nat i)"
    using assms by (simp add: user_va_def word_le_unat word_less_unat u)
  show ?thesis
    using view_mapped [OF va, of "ex_page ws" "0x600000" "\<lparr>x_frame = 0x602000, x_user = True, x_write = True\<rparr>"]
      ex_page_frames(3) [of "i div 4" ws] assms
    by (simp add: ex_page_walk pg u)
qed

lemma ex_ready:
  "mine (ex_kernel ws pcb h) = Some pcb" "getCR3 (ex_kernel ws pcb h) = 0x600000"
  "kready 0x600000 [] (ex_kernel ws pcb h) (span 0xEFFFF000 4096)"
  "args_ready 0x600000 [] (ex_kernel ws pcb h) ex_context 4 (span 0xEFFFF000 4096)"
proof -
  show 1: "mine (ex_kernel ws pcb h) = Some pcb" "getCR3 (ex_kernel ws pcb h) = 0x600000"
    by (simp_all add: mine_def getCR3_def ex_kernel_def)
  have pm: "pm_of (ex_kernel ws pcb h) = ex_page ws" by (simp add: pm_of_def ex_kernel_def)
  have in_page: "user_va va \<and> page va = 0xEFFFF000" if v: "va \<in> span 0xEFFFF000 4096" for va
  proof -
    obtain i where i: "i < 4096" "va = 0xEFFFF000 + of_nat i" using v by (auto simp: span_def)
    then have u: "unat va = 0xEFFFF000 + i" by (simp only: i(2)) (subst unat_add_no_wrap, simp_all add: unat_of_nat)
    have "(4096 * 0xEFFFF + i) div 4096 = 0xEFFFF" using i(1) by simp
    then show ?thesis using i(1) by (simp add: user_va_def word_le_unat word_less_unat word_unat_eq_iff unat_page_base u)
  qed
  then have "missing (ex_page ws) 0x600000 (span 0xEFFFF000 4096) = {}" by (auto simp: missing_def ex_page_walk)
  then show r: "kready 0x600000 [] (ex_kernel ws pcb h) (span 0xEFFFF000 4096)"
    using in_page ex_page_ok by (simp add: kready_def 1 pm accessible_def ex_page_walk)
  have "span 0xEFFFF000 20 \<subseteq> span (0xEFFFF000 :: u32) 4096" using span_sub [of 0 20 4096 "0xEFFFF000"] by simp
  then show "args_ready 0x600000 [] (ex_kernel ws pcb h) ex_context 4 (span 0xEFFFF000 4096)"
    using r by (simp add: args_ready_def ex_context_def)
qed

lemma args_ready_less: "args_ready base f k uc n A \<Longrightarrow> m \<le> n \<Longrightarrow> args_ready base f k uc m A"
  using span_sub [of 0 "4 * Suc m" "4 * Suc n" "esp (iFrame uc)"] by (auto simp: args_ready_def)

lemma ex_view:
  "i < 4096 \<Longrightarrow> kview (ex_kernel ws pcb h) (0xEFFFF000 + of_nat i) =
     (if i div 4 < length ws then word_byte (i mod 4) (ws ! (i div 4)) else 0)"
  by (simp add: kview_def ex_ready pm_of_def ex_page_view) (simp add: ex_kernel_def ex_page_view)

lemma ex_argv:
  assumes "i < length ws" "i < 1024"
  shows "argv (ex_kernel ws pcb h) ex_context i = ws ! i"
proof -
  have "esp (iFrame ex_context) + 4 * of_nat i + of_nat j = 0xEFFFF000 + of_nat (4 * i + j)" for j
    by (simp add: ex_context_def)
  note v = this [of 0] this [of 1] this [of 2] this [of 3]
  have "kview (ex_kernel ws pcb h) (0xEFFFF000 + of_nat (4 * i + j)) = word_byte j (ws ! i)" if "j < 4" for j
    using ex_view [of "4 * i + j" ws pcb h] assms that by simp
  from this [of 0] this [of 1] this [of 2] this [of 3] show ?thesis
    using le32_word_bytes [of "ws ! i"] v by (simp add: argv_def kword_def add.assoc)
qed

end
