(* ===== verification/File_Calls.thy ===== *)
theory File_Calls
  imports Sys_Memory
begin

text \<open>
  What the system call \<^verbatim>\<open>read\<close> (\<^verbatim>\<open>kernel/sys.cc\<close>) promises on a file: the descriptor, the blocks of
  the file system and the memory of the process together.
\<close>

section \<open>Shared descriptors\<close>

lemma Shared_copy_live: "p \<noteq> 0 \<Longrightarrow> h p = Some c \<Longrightarrow> Shared_copy p h = Some (p, h(p \<mapsto> c\<lparr>ref_count := ref_count c + 1\<rparr>))"
  by (simp add: Shared_copy_def Shared_ref_def field_upd_def deref_def add_fetch_def)

lemma Shared_destroy_copied:
  "p \<noteq> 0 \<Longrightarrow> h p = Some c \<Longrightarrow> ref_count c = n + 1 \<Longrightarrow> n \<noteq> 0 \<Longrightarrow> Shared_destroy p h = Some (h(p \<mapsto> c\<lparr>ref_count := n\<rparr>))"
  by (simp add: Shared_destroy_def Shared_unref_def deref_def add_fetch_def)

text \<open>A process has an open descriptor: slot \<open>fd\<close> points to a live object with content \<open>d\<close>.\<close>

definition has_fd :: "kernel \<Rightarrow> PCB \<Rightarrow> u32 \<Rightarrow> ptr \<Rightarrow> FileDescriptor \<Rightarrow> u32 \<Rightarrow> bool" where
  "has_fd k pcb fd p d n \<longleftrightarrow> mine k = Some pcb \<and> fd < 10 \<and> file_descriptor pcb ! unat fd = p \<and> p \<noteq> 0 \<and>
     fds k p = Some \<lparr>cdata = d, ref_count = n\<rparr> \<and> n \<noteq> 0"

lemma has_fdD:
  assumes "has_fd k pcb fd p d n"
  shows "mine k = Some pcb" "\<not> bad_fd fd pcb" "file_descriptor pcb ! unat fd = p" "p \<noteq> 0"
    "fds k p = Some \<lparr>cdata = d, ref_count = n\<rparr>" "n \<noteq> 0"
  using assms by (auto simp: has_fd_def bad_fd_def Shared_is_null_def)

section \<open>Reading a file\<close>

lemma good_buffer:
  assumes "\<not> bad_buffer buffer n"
  shows "unat n < 0x70000000" "unat buffer + unat n < 0xF0000000" "0x80000000 \<le> unat buffer"
proof -
  have b: "0x80000000 \<le> unat buffer" using assms by (simp add: bad_buffer_def word_less_unat not_less)
  have "n \<le> n + buffer" using assms by (simp add: bad_buffer_def add.commute not_less)
  then have "unat buffer + unat n < 4294967296" by (simp add: add_no_wrap_iff)
  then have "unat (buffer + n) = unat buffer + unat n" by (rule unat_add_no_wrap)
  then show s: "unat buffer + unat n < 0xF0000000" using assms by (simp add: bad_buffer_def word_le_unat not_le)
  show "unat n < 0x70000000" "0x80000000 \<le> unat buffer" using s b by linarith+
qed

lemma read_file_ok:
  assumes r: "kready base f k A" "span buffer (unat n) \<subseteq> A" and n: "unat n < 0x70000000"
    and p: "p \<noteq> 0" "fds k p = Some \<lparr>cdata = d, ref_count = c + 1\<rparr>" "c \<noteq> 0"
    and nd: "node_ok (disk_image k) nd" "fd_offset d \<le> node_size_in_bytes nd"
  defines "m \<equiv> min (unat n) (unat (node_size_in_bytes nd) - unat (fd_offset d))"
  shows "\<exists>s f'. read_file p d nd buffer n k =
       Done (of_nat m) ((set_pm s k)\<lparr>fds := (fds k)(p \<mapsto> \<lparr>cdata = d\<lparr>fd_offset := fd_offset d + of_nat m\<rparr>, ref_count = c\<rparr>)\<rparr>) \<and>
     kready base f' (set_pm s k) A \<and>
     kview (set_pm s k) = write_bytes buffer (map (file_byte (disk_image k) nd) [unat (fd_offset d)..<unat (fd_offset d) + m]) (kview k)"
proof -
  let ?left = "node_size_in_bytes nd - fd_offset d"
  let ?n = "if n > ?left then ?left else n"
  have left: "unat ?left = unat (node_size_in_bytes nd) - unat (fd_offset d)" using nd(2) by (rule unat_sub)
  have m: "unat ?n = m" unfolding m_def left [symmetric] by (auto simp: word_less_unat min_def)
  have "of_nat (unat x) = x" for x :: u32 by simp
  then have mw: "?n = of_nat m" by (metis m)
  have m_le: "m \<le> unat n" "m \<le> unat (node_size_in_bytes nd) - unat (fd_offset d)" by (simp_all add: m_def)
  let ?bs = "map (file_byte (disk_image k) nd) [unat (fd_offset d)..<unat (fd_offset d) + m]"
  have "\<not> unat (node_size_in_bytes nd) < unat (fd_offset d)" using nd(2) by (simp add: word_le_unat)
  then have rd: "read_all (Node_io (disk_image k) nd) (fd_offset d) ?n = Some (int m, ?bs)"
    using block_device.read_all_correct [OF node_block_device [OF nd(1)], of "fd_offset d" ?n] m m_le
    by (auto simp: Let_def min_absorb1)
  let ?d = "d\<lparr>fd_offset := fd_offset d + of_nat m\<rparr>"
  let ?k = "k\<lparr>fds := (fds k)(p \<mapsto> \<lparr>cdata = ?d, ref_count = c + 1\<rparr>)\<rparr>"
  have k: "kready base f ?k A" using r(1) by simp
  have "span buffer (length ?bs) \<subseteq> A" using r(2) m_le(1) span_sub [of 0 m "unat n" buffer] by auto
  moreover have "length ?bs \<le> 4294967296" using m_le(1) n by simp
  ultimately obtain s f' where s: "store_bytes kstore8 buffer ?bs ?k = Done () (set_pm s ?k)"
      "kready base f' (set_pm s ?k) A" "kview (set_pm s ?k) = write_bytes buffer ?bs (kview ?k)"
    by (rule store_bytesE [OF k])
  have "m < 4294967295" using m_le(1) n by simp
  then have "unat (of_nat m :: u32) \<noteq> unat (- 1 :: u32)"
    by (simp add: unat_of_nat unsigned_minus_1_eq_mask mask_eq_exp_minus_1)
  then have "(of_nat m :: u32) \<noteq> - 1" by auto
  moreover have "Shared_destroy p (fds (set_pm s ?k)) = Some ((fds k)(p \<mapsto> \<lparr>cdata = ?d, ref_count = c\<rparr>))"
    using Shared_destroy_copied [OF p(1), of "fds ?k" _ c] p(3) by simp
  ultimately have "read_file p d nd buffer n k =
       Done (of_nat m) ((set_pm s k)\<lparr>fds := (fds k)(p \<mapsto> \<lparr>cdata = ?d, ref_count = c\<rparr>)\<rparr>)"
    using s(1) rd p(2) by (simp add: read_file_def Let_def mw drop_fd_def)
  then show ?thesis using s(2,3) by auto
qed

text \<open>Three arguments, read one after the other.\<close>

lemma args3E:
  assumes "args_ready base f k uc 3 A"
  obtains s1 s2 s f' where "arg 1 uc k = Done (argv k uc 1) (set_pm s1 k)"
    "arg 2 uc (set_pm s1 k) = Done (argv k uc 2) (set_pm s2 k)" "arg 3 uc (set_pm s2 k) = Done (argv k uc 3) (set_pm s k)"
    "unseen base f k A f' s"
proof -
  obtain s1 f1 where 1: "arg 1 uc k = Done (argv k uc 1) (set_pm s1 k)" "unseen base f k A f1 s1"
      "args_ready base f1 (set_pm s1 k) uc 3 A" "kview (set_pm s1 k) = kview k"
    by (rule argE [OF assms, of 1]) auto
  obtain s2 f2 where 2: "arg 2 uc (set_pm s1 k) = Done (argv k uc 2) (set_pm s2 k)" "unseen base f1 (set_pm s1 k) A f2 s2"
      "args_ready base f2 (set_pm s2 k) uc 3 A" "kview (set_pm s2 k) = kview k"
    using 1(4) by (rule_tac argE [OF 1(3), of 2]) auto
  obtain s3 f3 where 3: "arg 3 uc (set_pm s2 k) = Done (argv k uc 3) (set_pm s3 k)" "unseen base f2 (set_pm s2 k) A f3 s3"
    using 2(4) by (rule_tac argE [OF 2(3), of 3]) auto
  have "unseen base f k A f3 s3"
    using unseen_trans [OF unseen_trans [OF 1(2) 2(2)]] 3(2) by simp
  then show thesis using 1(1) 2(1) 3(1) by (intro that)
qed

lemma arg1E:
  assumes "args_ready base f k uc 1 A"
  obtains s f' where "arg 1 uc k = Done (argv k uc 1) (set_pm s k)" "unseen base f k A f' s"
  by (rule argE [OF assms, of 1]) simp_all

lemma has_fd_set_pm [simp]: "has_fd (set_pm s k) pcb fd p d n = has_fd k pcb fd p d n"
  by (simp add: has_fd_def)

text \<open>
  C3.  \<^verbatim>\<open>read\<close> on a file.  When the descriptor is open for reading on a file, the buffer lies in user
  space and its pages can be had, the call returns the number of bytes asked for or left in the
  file, whichever is less; the buffer then holds exactly these bytes of the file from the offset of
  the descriptor on and no other byte of the process's memory changes; the offset has advanced by
  that number, so that the next read continues there, and the descriptor has as many references as
  before.
\<close>

theorem sys_read_correct:
  assumes args: "args_ready base f k uc 3 A" and buf: "span (argv k uc 2) (unat (argv k uc 3)) \<subseteq> A"
    and n: "argv k uc 3 \<noteq> 0" "\<not> bad_buffer (argv k uc 2) (argv k uc 3)"
    and fd: "has_fd k pcb (argv k uc 1) p d c" "readable d" "vnode d = Some nd" "pipe d = 0"
    and nd: "\<not> is_dir nd" "node_ok (disk_image k) nd" "fd_offset d \<le> node_size_in_bytes nd"
  shows "\<exists>s. let m = min (unat (argv k uc 3)) (unat (node_size_in_bytes nd) - unat (fd_offset d)) in
     sys_read uc k = Done (of_nat m) ((set_pm s k)\<lparr>fds := (fds k)(p \<mapsto>
       \<lparr>cdata = d\<lparr>fd_offset := fd_offset d + of_nat m\<rparr>, ref_count = c\<rparr>)\<rparr>) \<and>
     kview (set_pm s k) = write_bytes (argv k uc 2)
       (map (file_byte (disk_image k) nd) [unat (fd_offset d)..<unat (fd_offset d) + m]) (kview k)"
proof -
  obtain s1 s2 s f1 where 1: "arg 1 uc k = Done (argv k uc 1) (set_pm s1 k)"
      "arg 2 uc (set_pm s1 k) = Done (argv k uc 2) (set_pm s2 k)" "arg 3 uc (set_pm s2 k) = Done (argv k uc 3) (set_pm s k)"
      "unseen base f k A f1 s"
    by (rule args3E [OF args])
  note u = unseenD [OF 1(4)] and h = has_fdD [OF fd(1)]
  let ?k = "(set_pm s k)\<lparr>fds := (fds k)(p \<mapsto> \<lparr>cdata = d, ref_count = c + 1\<rparr>)\<rparr>"
  have run: "sys_read uc k = read_file p d nd (argv k uc 2) (argv k uc 3) ?k"
    using 1(1-3) n h fd(2-4) nd(1) Shared_copy_live [of p "fds k", OF h(4,5)]
    by (simp add: sys_read_def Let_def a_dir_def Shared_deref_def deref_def)
  have r: "kready base f1 ?k A" and "kview ?k = kview k" using u by simp_all
  moreover note read_file_ok [OF r buf good_buffer(1) [OF n(2)] h(4) _ h(6), of d nd] nd(2,3)
  ultimately show ?thesis using run by (auto simp: Let_def)
qed

text \<open>Descriptor 0 of the small machine is open on the file \<^verbatim>\<open>hello\<close>, at offset 1.\<close>

definition ex_fd :: FileDescriptor where
  "ex_fd = FileDescriptor_node (Some (ex_node 0x81A4 5 11)) 1"

definition ex_file_kernel :: "u32 list \<Rightarrow> kernel" where
  "ex_file_kernel ws = ex_kernel ws ((PCB_new 0x600000)\<lparr>file_descriptor := 0x5000 # replicate 9 0\<rparr>) [0x5000 \<mapsto> \<lparr>cdata = ex_fd, ref_count = 1\<rparr>]"

lemma ex_file_has_fd:
  "has_fd (ex_file_kernel ws) ((PCB_new 0x600000)\<lparr>file_descriptor := 0x5000 # replicate 9 0\<rparr>) 0 0x5000 ex_fd 1"
  by (simp add: has_fd_def ex_file_kernel_def ex_ready) (simp add: ex_kernel_def)

lemma sys_read_correct_witness:
  "\<exists>k'. sys_read ex_context (ex_file_kernel [0, 0, 0xEFFFF800, 9]) = Done 4 k' \<and>
     kview k' 0xEFFFF800 = 101 \<and> kview k' 0xEFFFF803 = 111"
proof -
  let ?k = "ex_file_kernel [0, 0, 0xEFFFF800, 9]"
  have argv: "argv ?k ex_context 1 = 0" "argv ?k ex_context 2 = 0xEFFFF800" "argv ?k ex_context 3 = 9"
    by (simp_all add: ex_file_kernel_def ex_argv)
  have a: "args_ready 0x600000 [] ?k ex_context 3 (span 0xEFFFF000 4096)"
    unfolding ex_file_kernel_def by (rule args_ready_less [OF ex_ready(4)]) simp
  have b: "span (argv ?k ex_context 2) (unat (argv ?k ex_context 3)) \<subseteq> span 0xEFFFF000 4096"
    using span_sub [of 2048 9 4096 "0xEFFFF000"] by (simp add: argv)
  have n: "argv ?k ex_context 3 \<noteq> 0" "\<not> bad_buffer (argv ?k ex_context 2) (argv ?k ex_context 3)" by (simp_all add: argv bad_buffer_def)
  have nd: "\<not> is_dir (ex_node 0x81A4 5 11)" "node_ok (disk_image ?k) (ex_node 0x81A4 5 11)"
      "fd_offset ex_fd \<le> node_size_in_bytes (ex_node 0x81A4 5 11)"
    using ex_node_ok [of 5 11 "0x81A4"]
    by (simp_all add: is_dir_def nd_is_dir_def nd_get_type_def ex_fd_def FileDescriptor_node_def node_size_in_bytes_def
        ex_node_def ex_file_kernel_def ex_kernel_def)
  have fd: "has_fd ?k ((PCB_new 0x600000)\<lparr>file_descriptor := 0x5000 # replicate 9 0\<rparr>) (argv ?k ex_context 1) 0x5000 ex_fd 1"
    unfolding argv by (rule ex_file_has_fd)
  have *: "\<exists>s. let m = min (unat (argv ?k ex_context 3)) (unat (node_size_in_bytes (ex_node 0x81A4 5 11)) - unat (fd_offset ex_fd)) in
     sys_read ex_context ?k = Done (of_nat m) ((set_pm s ?k)\<lparr>fds := (fds ?k)(0x5000 \<mapsto>
       \<lparr>cdata = ex_fd\<lparr>fd_offset := fd_offset ex_fd + of_nat m\<rparr>, ref_count = 1\<rparr>)\<rparr>) \<and>
     kview (set_pm s ?k) = write_bytes (argv ?k ex_context 2)
       (map (file_byte (disk_image ?k) (ex_node 0x81A4 5 11)) [unat (fd_offset ex_fd)..<unat (fd_offset ex_fd) + m]) (kview ?k)"
    by (rule sys_read_correct [OF a b n fd _ _ _ nd]) (simp_all add: ex_fd_def FileDescriptor_node_def)
  have sz: "node_size_in_bytes (ex_node 0x81A4 5 11) = 5" by (simp add: node_size_in_bytes_def ex_node_def)
  have off: "unat (fd_offset ex_fd) = 1" by (simp add: ex_fd_def FileDescriptor_node_def)
  have b: "file_byte (disk_image ?k) (ex_node 0x81A4 5 11) (Suc 0) = 101" "file_byte (disk_image ?k) (ex_node 0x81A4 5 11) 2 = 108"
      "file_byte (disk_image ?k) (ex_node 0x81A4 5 11) 3 = 108" "file_byte (disk_image ?k) (ex_node 0x81A4 5 11) 4 = 111"
    by (simp_all add: ex_node_byte ex_hello ex_file_kernel_def ex_kernel_def)
  have u: "[Suc 0..<4] = [Suc 0, 2, 3]" by (simp add: upt_rec numeral_eq_Suc)
  from * obtain s where "sys_read ex_context ?k = Done 4 ((set_pm s ?k)\<lparr>fds := (fds ?k)(0x5000 \<mapsto>
       \<lparr>cdata = ex_fd\<lparr>fd_offset := fd_offset ex_fd + 4\<rparr>, ref_count = 1\<rparr>)\<rparr>)"
     "kview (set_pm s ?k) = write_bytes 0xEFFFF800 [101, 108, 108, 111] (kview ?k)"
    by (auto simp: Let_def argv sz off b u)
  then show ?thesis by (simp add: write_bytes_def)
qed

section \<open>Writing to the terminal\<close>

lemma print_bytes_ok:
  assumes "kready base f k A" "span va n \<subseteq> A"
  obtains s f' where "print_bytes va n k = Done () ((set_pm s k)\<lparr>terminal := terminal k @ map (\<lambda>i. kview k (va + of_nat i)) [0..<n]\<rparr>)"
    "unseen base f k A f' s"
  using assms
proof (induction n arbitrary: va k f thesis)
  case 0
  have "k\<lparr>terminal := terminal k\<rparr> = k" by simp
  then show ?case using unseen_refl [OF 0(2)] by (intro 0(1) [of "pm_of k" f]) simp_all
next
  case (Suc n)
  have a: "va \<in> A" using Suc.prems(3) span_mem [of 0 "Suc n" va] by auto
  have b: "span (va + 1) n \<subseteq> A" using Suc.prems(3) span_sub [of 1 n "Suc n" va] by auto
  obtain s1 f1 where 1: "kload8 va k = Done (kview k va) (set_pm s1 k)" "unseen base f k A f1 s1"
    by (rule loadE [OF Suc.prems(2) a])
  let ?k1 = "(set_pm s1 k)\<lparr>terminal := terminal k @ [kview k va]\<rparr>"
  note u = unseenD [OF 1(2)]
  have r: "kready base f1 ?k1 A" and v: "kview ?k1 = kview k" using u by simp_all
  obtain s2 f2 where 2: "print_bytes (va + 1) n ?k1 =
        Done () ((set_pm s2 ?k1)\<lparr>terminal := terminal ?k1 @ map (\<lambda>i. kview ?k1 (va + 1 + of_nat i)) [0..<n]\<rparr>)" "unseen base f1 ?k1 A f2 s2"
    by (rule Suc.IH [OF _ r b])
  have up: "[0..<Suc n] = 0 # map Suc [0..<n]" by (simp only: upt_conv_Cons zero_less_Suc map_Suc_upt)
  have m: "map (\<lambda>i. kview k (va + of_nat i)) [0..<Suc n] = kview k va # map (\<lambda>i. kview k (va + 1 + of_nat i)) [0..<n]"
    unfolding up by (simp add: add.assoc)
  have "print_bytes va (Suc n) k = Done () ((set_pm s2 k)\<lparr>terminal := terminal k @ map (\<lambda>i. kview k (va + of_nat i)) [0..<Suc n]\<rparr>)"
    unfolding m using 1(1) 2(1) unfolding v by simp
  moreover have "unseen base f1 (set_pm s1 k) A f2 s2" using 2(2) by (simp add: unseen_def)
  ultimately show ?case using unseen_trans [OF 1(2)] by (intro Suc.prems(1))
qed

text \<open>
  C13.  \<^verbatim>\<open>write\<close> to the terminal.  When the descriptor is open for writing and is neither a file nor a
  pipe, the buffer lies in user space and its pages can be had, the call returns the number of bytes
  asked for and the terminal shows exactly these bytes of the buffer, in order, behind what it showed
  before.  The memory of the process does not change, and no reference to the descriptor is kept.
\<close>

theorem sys_write_terminal:
  assumes args: "args_ready base f k uc 3 A" and buf: "span (argv k uc 2) (unat (argv k uc 3)) \<subseteq> A"
    and n: "argv k uc 3 \<noteq> 0" "\<not> bad_buffer (argv k uc 2) (argv k uc 3)"
    and fd: "has_fd k pcb (argv k uc 1) p d c" "writable d" "vnode d = None" "pipe d = 0"
  shows "\<exists>s. sys_write uc k = Done (argv k uc 3)
       ((set_pm s k)\<lparr>terminal := terminal k @ map (\<lambda>i. kview k (argv k uc 2 + of_nat i)) [0..<unat (argv k uc 3)]\<rparr>) \<and>
     kview (set_pm s k) = kview k"
proof -
  obtain s1 s2 s f1 where 1: "arg 1 uc k = Done (argv k uc 1) (set_pm s1 k)"
      "arg 2 uc (set_pm s1 k) = Done (argv k uc 2) (set_pm s2 k)" "arg 3 uc (set_pm s2 k) = Done (argv k uc 3) (set_pm s k)"
      "unseen base f k A f1 s"
    by (rule args3E [OF args])
  note u = unseenD [OF 1(4)] and h = has_fdD [OF fd(1)]
  let ?h = "(fds k)(p \<mapsto> \<lparr>cdata = d, ref_count = c + 1\<rparr>)"
  let ?k = "(set_pm s k)\<lparr>fds := ?h\<rparr>"
  have r: "kready base f1 ?k A" and v: "kview ?k = kview k" using u by simp_all
  obtain s4 f4 where 4: "print_bytes (argv k uc 2) (unat (argv k uc 3)) ?k =
        Done () ((set_pm s4 ?k)\<lparr>terminal := terminal ?k @ map (\<lambda>i. kview ?k (argv k uc 2 + of_nat i)) [0..<unat (argv k uc 3)]\<rparr>)"
      "unseen base f1 ?k A f4 s4"
    by (rule print_bytes_ok [OF r buf])
  have restore: "Shared_destroy p ?h = Some (fds k)"
    using Shared_destroy_copied [OF h(4), of ?h _ c] h(5,6) by (simp add: fun_upd_idem)
  let ?t = "terminal k @ map (\<lambda>i. kview k (argv k uc 2 + of_nat i)) [0..<unat (argv k uc 3)]"
  have "sys_write uc k = Done (argv k uc 3) ((set_pm s4 k)\<lparr>terminal := ?t, fds := fds (set_pm s4 k)\<rparr>)"
    using 1(1-3) n h fd(2-4) 4(1) Shared_copy_live [of p "fds k", OF h(4,5)] restore
    by (simp add: sys_write_def Let_def dir_or_file_def Shared_deref_def deref_def u(2) drop_fd_def)
  moreover have "x\<lparr>terminal := t, fds := fds x\<rparr> = x\<lparr>terminal := t\<rparr>" for x :: kernel and t by (cases x) simp
  ultimately have "sys_write uc k = Done (argv k uc 3) ((set_pm s4 k)\<lparr>terminal := ?t\<rparr>)" by metis
  moreover have "kview (set_pm s4 k) = kview k" using unseenD(2) [OF 4(2)] v by (simp add: kview_def)
  ultimately show ?thesis by blast
qed

lemma sys_write_terminal_witness:
  "\<exists>k'. sys_write ex_context (ex_kernel [0, 1, 0xEFFFF010, 2, 0x6968]
       ((PCB_new 0x600000)\<lparr>file_descriptor := 0 # 0x5000 # replicate 8 0\<rparr>) [0x5000 \<mapsto> \<lparr>cdata = FileDescriptor_flags False True, ref_count = 1\<rparr>]) =
     Done 2 k' \<and> terminal k' = [104, 105]"
proof -
  let ?pcb = "(PCB_new 0x600000)\<lparr>file_descriptor := 0 # 0x5000 # replicate 8 0\<rparr>" and ?h = "[0x5000 \<mapsto> \<lparr>cdata = FileDescriptor_flags False True, ref_count = 1\<rparr>]"
  let ?k = "ex_kernel [0, 1, 0xEFFFF010, 2, 0x6968] ?pcb ?h"
  have argv: "argv ?k ex_context 1 = 1" "argv ?k ex_context 2 = 0xEFFFF010" "argv ?k ex_context 3 = 2" by (simp_all add: ex_argv)
  have a: "args_ready 0x600000 [] ?k ex_context 3 (span 0xEFFFF000 4096)" by (rule args_ready_less [OF ex_ready(4)]) simp
  have b: "span (argv ?k ex_context 2) (unat (argv ?k ex_context 3)) \<subseteq> span 0xEFFFF000 4096"
    using span_sub [of 16 2 4096 "0xEFFFF000"] by (simp add: argv)
  have n: "argv ?k ex_context 3 \<noteq> 0" "\<not> bad_buffer (argv ?k ex_context 2) (argv ?k ex_context 3)" by (simp_all add: argv bad_buffer_def)
  have fd: "has_fd ?k ?pcb (argv ?k ex_context 1) 0x5000 (FileDescriptor_flags False True) 1"
    unfolding argv by (simp add: has_fd_def ex_ready) (simp add: ex_kernel_def)
  have d: "writable (FileDescriptor_flags False True)" "vnode (FileDescriptor_flags False True) = None" "pipe (FileDescriptor_flags False True) = 0"
    by (simp_all add: FileDescriptor_flags_def)
  from sys_write_terminal [OF a b n fd d] obtain s where s: "sys_write ex_context ?k = Done 2
       ((set_pm s ?k)\<lparr>terminal := terminal ?k @ map (\<lambda>i. kview ?k (0xEFFFF010 + of_nat i)) [0..<2]\<rparr>)"
    unfolding argv by auto
  have "kview ?k 0xEFFFF010 = 104" "kview ?k 0xEFFFF011 = 105"
    using ex_view [of 16 "[0, 1, 0xEFFFF010, 2, 0x6968]" ?pcb ?h] ex_view [of 17 "[0, 1, 0xEFFFF010, 2, 0x6968]" ?pcb ?h]
    by (simp_all add: word_byte_def)
  then have "map (\<lambda>i. kview ?k (0xEFFFF010 + of_nat i)) [0..<2] = [104, 105]"
    by (simp add: upt_rec)
  then show ?thesis using s by (simp add: ex_kernel_def)
qed

end
