(* ===== verification/Path_Names.thy ===== *)
theory Path_Names
  imports Sys_Memory
begin

text \<open>
  \<^verbatim>\<open>find_path_node\<close> resolves a path name in user memory as a walk over its components.
\<close>

section \<open>Strings in user memory\<close>

definition str_at :: "kernel \<Rightarrow> u32 \<Rightarrow> u8 list \<Rightarrow> bool" where
  "str_at k a w \<longleftrightarrow> 0 \<notin> set w \<and> (\<forall>i < length w. kview k (a + of_nat i) = w ! i) \<and> kview k (a + of_nat (length w)) = 0"

lemma str_at_same [simp]: "kview (set_pm s k) = kview k \<Longrightarrow> str_at (set_pm s k) a w = str_at k a w"
  by (simp add: str_at_def)

lemma str_at_char:
  assumes "str_at k a w" "i \<le> length w"
  shows "kview k (a + of_nat i) = (if i < length w then w ! i else 0)"
  using assms by (cases "i = length w") (simp_all add: str_at_def)

lemma str_at_nz: "str_at k a w \<Longrightarrow> i < length w \<Longrightarrow> w ! i \<noteq> 0"
  unfolding str_at_def by (metis nth_mem)

lemma drop_takeWhile_next:
  assumes "i < length w"
  shows "length (takeWhile P (drop i w)) = (if P (w ! i) then Suc (length (takeWhile P (drop (Suc i) w))) else 0)"
  using Cons_nth_drop_Suc [OF assms] by (metis length_Cons list.size(3) takeWhile.simps(2))

text \<open>The path name at \<open>path\<close> is \<open>w\<close>, it lies in user space and can be read.\<close>

definition path_at :: "u32 \<Rightarrow> ptr list \<Rightarrow> kernel \<Rightarrow> u32 set \<Rightarrow> u32 \<Rightarrow> u8 list \<Rightarrow> bool" where
  "path_at base f k A path w \<longleftrightarrow> kready base f k A \<and> span path (Suc (length w)) \<subseteq> A \<and> str_at k path w \<and>
     0x80000000 \<le> path \<and> unat path + length w < 0xF0000000"

lemma path_at_unseen: "path_at base f k A path w \<Longrightarrow> unseen base f k A f' s \<Longrightarrow> path_at base f' (set_pm s k) A path w"
  by (auto simp: path_at_def unseen_def)

lemma path_at_load:
  assumes "path_at base f k A path w" "i \<le> length w"
  obtains s f' where "kload8 (path + of_nat i) k = Done (if i < length w then w ! i else 0) (set_pm s k)"
    "unseen base f k A f' s" "path_at base f' (set_pm s k) A path w"
proof -
  have r: "kready base f k A" and m: "path + of_nat i \<in> A"
    using assms span_mem [of i "Suc (length w)" path] by (auto simp: path_at_def)
  obtain s f' where "kload8 (path + of_nat i) k = Done (kview k (path + of_nat i)) (set_pm s k)" "unseen base f k A f' s"
    by (rule loadE [OF r m])
  then show thesis
    using that str_at_char [of k path w i] assms path_at_unseen [OF assms(1)] by (auto simp: path_at_def)
qed

lemma path_at_short: "path_at base f k A path w \<Longrightarrow> length w < 0x70000000"
  by (auto simp: path_at_def word_le_unat)

section \<open>The inner loops\<close>

lemma skip_slashes_ok:
  assumes "path_at base f k A path w" "i \<le> length w"
  shows "\<exists>s f'. skip_slashes path i k = Done (i + length (takeWhile (\<lambda>c. c = 47) (drop i w))) (set_pm s k) \<and>
     unseen base f k A f' s"
  using assms
proof (induction "length w - i" arbitrary: i k f)
  case 0
  then have i: "i = length w" by simp
  obtain s f' where "kload8 (path + of_nat i) k = Done (if i < length w then w ! i else 0) (set_pm s k)" "unseen base f k A f' s"
    by (rule path_at_load [OF 0(2,3)])
  then show ?case using path_at_short [OF 0(2)] i by (subst skip_slashes.simps) auto
next
  case (Suc n)
  then have i: "i < length w" "n = length w - Suc i" by simp_all
  obtain s f' where l: "kload8 (path + of_nat i) k = Done (w ! i) (set_pm s k)" "unseen base f k A f' s"
      "path_at base f' (set_pm s k) A path w"
    by (rule path_at_load [OF Suc.prems]) (simp add: i)
  show ?case
  proof (cases "w ! i = 47")
    case True
    obtain s2 f2 where "skip_slashes path (Suc i) (set_pm s k) =
        Done (Suc i + length (takeWhile (\<lambda>c. c = 47) (drop (Suc i) w))) (set_pm s2 k)" "unseen base f' (set_pm s k) A f2 s2"
      using Suc.hyps(1) [OF i(2) l(3)] i by auto
    then show ?thesis
      using l(1) True path_at_short [OF Suc.prems(1)] i drop_takeWhile_next [OF i(1), of "\<lambda>c. c = 47"] unseen_trans [OF l(2)]
      by (subst skip_slashes.simps) auto
  next
    case False
    then show ?thesis
      using l(1,2) path_at_short [OF Suc.prems(1)] i drop_takeWhile_next [OF i(1), of "\<lambda>c. c = 47"]
      by (subst skip_slashes.simps) auto
  qed
qed

lemma scan_name_ok:
  assumes "path_at base f k A path w" "i \<le> length w"
  shows "\<exists>s f'. scan_name path i k = Done (i + length (takeWhile (\<lambda>c. c \<noteq> 47) (drop i w))) (set_pm s k) \<and>
     unseen base f k A f' s"
  using assms
proof (induction "length w - i" arbitrary: i k f)
  case 0
  then have i: "i = length w" by simp
  obtain s f' where 1: "kload8 (path + of_nat i) k = Done (if i < length w then w ! i else 0) (set_pm s k)" "unseen base f k A f' s"
      "path_at base f' (set_pm s k) A path w"
    by (rule path_at_load [OF 0(2,3)])
  obtain s2 f2 where 2: "kload8 (path + of_nat i) (set_pm s k) = Done (if i < length w then w ! i else 0) (set_pm s2 (set_pm s k))"
      "unseen base f' (set_pm s k) A f2 s2"
    by (rule path_at_load [OF 1(3) 0(3)])
  show ?case using 1(1) 2(1) path_at_short [OF 0(2)] i unseen_trans [OF 1(2) 2(2)] by (subst scan_name.simps) auto
next
  case (Suc n)
  then have i: "i < length w" "n = length w - Suc i" by simp_all
  obtain s f' where l: "kload8 (path + of_nat i) k = Done (w ! i) (set_pm s k)" "unseen base f k A f' s"
      "path_at base f' (set_pm s k) A path w"
    by (rule path_at_load [OF Suc.prems]) (simp add: i)
  have nz: "w ! i \<noteq> 0" using Suc.prems(1) i(1) by (auto simp: path_at_def dest: str_at_nz)
  show ?case
  proof (cases "w ! i = 47")
    case False
    obtain s1 f1 where l1: "kload8 (path + of_nat i) (set_pm s k) = Done (w ! i) (set_pm s1 k)" "unseen base f' (set_pm s k) A f1 s1"
        "path_at base f1 (set_pm s1 k) A path w"
      by (rule path_at_load [OF l(3) Suc.prems(2)]) (simp add: i)
    obtain s2 f2 where "scan_name path (Suc i) (set_pm s1 k) =
        Done (Suc i + length (takeWhile (\<lambda>c. c \<noteq> 47) (drop (Suc i) w))) (set_pm s2 k)" "unseen base f1 (set_pm s1 k) A f2 s2"
      using Suc.hyps(1) [OF i(2) l1(3)] i by auto
    then show ?thesis
      using l(1) l1(1) nz False path_at_short [OF Suc.prems(1)] i drop_takeWhile_next [OF i(1), of "\<lambda>c. c \<noteq> 47"]
        unseen_trans [OF unseen_trans [OF l(2) l1(2)]]
      by (subst scan_name.simps) auto
  next
    case True
    then show ?thesis
      using l(1,2) path_at_short [OF Suc.prems(1)] i drop_takeWhile_next [OF i(1), of "\<lambda>c. c \<noteq> 47"]
      by (subst scan_name.simps) auto
  qed
qed

section \<open>The whole path\<close>

text \<open>
  What the loop computes, on the characters themselves: skip slashes, take a name, look it up; stop
  at the end, or go on behind the slash.  \<open>None\<close> is a panic of the file system.
\<close>

function resolve :: "disk \<Rightarrow> Ext2 \<Rightarrow> Node option \<Rightarrow> u8 list \<Rightarrow> Node option option" where
  "resolve dsk f node chs = (if chs = [] then Some node
     else (case node of
         None \<Rightarrow> Some None
       | Some nd \<Rightarrow>
           if \<not> is_dir nd then Some None
           else (let rest = dropWhile (\<lambda>c. c = 47) chs;
                     name = takeWhile (\<lambda>c. c \<noteq> 47) rest;
                     more = dropWhile (\<lambda>c. c \<noteq> 47) rest in do {
             node' \<leftarrow> (if name = [] then Some (Some nd) else Ext2_find dsk f nd (name @ [0]));
             if more = [] then Some node' else resolve dsk f node' (tl more) })))"
  by pat_completeness auto
termination
proof (relation "measure (\<lambda>(dsk, f, node, chs). length chs)")
  fix chs :: "u8 list" and rest more :: "u8 list"
  assume "more \<noteq> []" "rest = dropWhile (\<lambda>c. c = 47) chs" "more = dropWhile (\<lambda>c. c \<noteq> 47) rest"
  then have "0 < length more" "length more \<le> length rest" "length rest \<le> length chs"
    by (simp_all add: length_dropWhile_le)
  then have "length (tl more) < length chs" by (simp only: length_tl)
  then show "((dsk, f, node', tl more), (dsk, f, node, chs)) \<in> measure (\<lambda>(dsk, f, node, chs). length chs)"
    for dsk :: disk and f :: Ext2 and node' node :: "Node option" by simp
qed auto

declare resolve.simps [simp del]

lemma resolve_dir:
  assumes "is_dir nd" "chs \<noteq> []"
  shows "resolve dsk f (Some nd) chs = do {
     node' \<leftarrow> (if takeWhile (\<lambda>c. c \<noteq> 47) (dropWhile (\<lambda>c. c = 47) chs) = [] then Some (Some nd)
       else Ext2_find dsk f nd (takeWhile (\<lambda>c. c \<noteq> 47) (dropWhile (\<lambda>c. c = 47) chs) @ [0]));
     if dropWhile (\<lambda>c. c \<noteq> 47) (dropWhile (\<lambda>c. c = 47) chs) = [] then Some node'
     else resolve dsk f node' (tl (dropWhile (\<lambda>c. c \<noteq> 47) (dropWhile (\<lambda>c. c = 47) chs))) }"
  using assms by (simp only: resolve.simps [of dsk f "Some nd" chs] Let_def option.case if_False not_True_eq_False)

lemma path_step_ok:
  assumes "path_at base f k A path w" "i + length name \<le> length w" "take (length name) (drop i w) = name"
  shows "\<exists>s f'. unseen base f k A f' s \<and> path_step path i (i + length name) nd k =
     need Panic (if name = [] then Some (Some nd) else Ext2_find (disk_image k) (fs k) nd (name @ [0])) (\<lambda>n. Done n (set_pm s k))"
proof (cases "name = []")
  case True
  have "kready base f k A" using assms(1) by (simp add: path_at_def)
  then have "unseen base f k A f (pm_of k)" by (rule unseen_refl)
  then show ?thesis using True by (intro exI [of _ "pm_of k"] exI [of _ f]) (simp add: path_step_def)
next
  case False
  have r: "kready base f k A" "str_at k path w" using assms(1) by (simp_all add: path_at_def)
  have "span (path + of_nat i) (length name) \<subseteq> span path (Suc (length w))" using assms(2) by (intro span_sub) simp
  then have sp: "span (path + of_nat i) (length name) \<subseteq> A" using assms(1) by (auto simp: path_at_def)
  obtain s f' where l: "load_bytes (path + of_nat i) (length name) k =
      Done (map (\<lambda>j. kview k (path + of_nat i + of_nat j)) [0..<length name]) (set_pm s k)" "unseen base f k A f' s"
    by (rule load_bytesE [OF r(1) sp])
  have "kview k (path + of_nat i + of_nat j) = name ! j" if "j < length name" for j
  proof -
    have "kview k (path + of_nat (i + j)) = w ! (i + j)"
      using str_at_char [OF r(2), of "i + j"] that assms(2) by simp
    moreover have "name ! j = w ! (i + j)"
      using that assms(2) by (subst assms(3) [symmetric]) simp
    ultimately show ?thesis by (simp add: add.assoc)
  qed
  then have "map (\<lambda>j. kview k (path + of_nat i + of_nat j)) [0..<length name] = name"
    by (intro nth_equalityI) simp_all
  then show ?thesis using l False by (auto simp: path_step_def)
qed

lemma path_end_ok:
  assumes "path_at base f k A path w" "w \<noteq> []"
  shows "path_end path (length w) node k = Done node k"
proof -
  obtain n where n: "length w = Suc n" using assms(2) by (cases w) auto
  have p: "unat path + n < 0xF0000000" using assms(1) n by (simp add: path_at_def)
  have u: "unat (of_nat n :: u32) = n" using p by (simp add: unat_of_nat)
  have s: "unat (path + of_nat n) = unat path + n" using p u by (subst unat_add_no_wrap) simp_all
  have "path + of_nat (length w) - 1 = path + of_nat n" "of_nat (length w) - 1 = (of_nat n :: u32)" using n by simp_all
  then show ?thesis using p s u by (simp only: path_end_def word_le_unat word_less_unat) simp
qed

lemma path_loop_round:
  assumes "i < 4294967296" "kload8 (path + of_nat i) k = Done c k1" "c \<noteq> 0" "is_dir nd"
    and "skip_slashes path i k1 = Done i1 k2" "scan_name path i1 k2 = Done fin k3"
    and "path_step path i1 fin nd k3 = need Panic found (\<lambda>n. Done n k4)" "kload8 (path + of_nat fin) k4 = Done c2 k5"
  shows "path_loop path (Some nd) i k =
    need Panic found (\<lambda>n. if c2 = 0 then path_end path fin n k5 else path_loop path n (fin + 1) k5)"
  using assms by (subst path_loop.simps) (cases found; simp)

lemma path_loop_ok:
  assumes "path_at base f k A path w" "i \<le> length w" "w \<noteq> []"
  shows "\<exists>s f'. unseen base f k A f' s \<and>
     path_loop path node i k = need Panic (resolve (disk_image k) (fs k) node (drop i w)) (\<lambda>n. Done n (set_pm s k))"
  using assms
proof (induction "length w - i" arbitrary: i k f node rule: less_induct)
  case less
  note pa = less.prems(1) and short = path_at_short [OF less.prems(1)]
  obtain s1 f1 where 1: "kload8 (path + of_nat i) k = Done (if i < length w then w ! i else 0) (set_pm s1 k)"
      "unseen base f k A f1 s1" "path_at base f1 (set_pm s1 k) A path w"
    by (rule path_at_load [OF pa less.prems(2)])
  show ?case
  proof (cases "i < length w")
    case False
    then have i: "i = length w" using less.prems(2) by simp
    have "path_loop path node i k = Done node (set_pm s1 k)"
      using 1(1) i short path_end_ok [OF 1(3) less.prems(3)] by (subst path_loop.simps) simp
    then show ?thesis using 1(2) i by (subst resolve.simps) auto
  next
    case True
    let ?chs = "drop i w"
    have nz: "w ! i \<noteq> 0" using pa True by (auto simp: path_at_def dest: str_at_nz)
    have ne: "?chs \<noteq> []" using True by simp
    consider "node = None \<or> (\<exists>nd. node = Some nd \<and> \<not> is_dir nd)" | nd where "node = Some nd" "is_dir nd"
      by (cases node) auto
    then show ?thesis
    proof cases
      case 1
      then have "path_loop path node i k = Done None (set_pm s1 k)"
        using \<open>kload8 (path + of_nat i) k = _\<close> True nz short by (subst path_loop.simps) auto
      moreover have "resolve (disk_image k) (fs k) node ?chs = Some None" using 1 ne by (subst resolve.simps) auto
      ultimately show ?thesis using \<open>unseen base f k A f1 s1\<close> by auto
    next
      case (2 nd)
      define rest where "rest = dropWhile (\<lambda>c. c = 47) ?chs"
      define i1 where "i1 = i + length (takeWhile (\<lambda>c. c = 47) ?chs)"
      define name where "name = takeWhile (\<lambda>c. c \<noteq> 47) rest"
      define more where "more = dropWhile (\<lambda>c. c \<noteq> 47) rest"
      define fin where "fin = i1 + length name"
      have rest: "drop i1 w = rest" by (simp add: i1_def rest_def dropWhile_eq_drop add.commute)
      have ile: "i1 \<le> length w" using length_takeWhile_le [of "\<lambda>c. c = 47" ?chs] True by (simp add: i1_def)
      have more: "drop fin w = more" by (simp add: fin_def more_def name_def rest [symmetric] dropWhile_eq_drop add.commute)
      have finle: "fin \<le> length w" using length_takeWhile_le [of "\<lambda>c. c \<noteq> 47" rest] rest ile
        unfolding fin_def name_def by (metis le_diff_conv2 length_drop add.commute)
      obtain s2 f2 where a: "skip_slashes path i (set_pm s1 k) = Done i1 (set_pm s2 k)" "unseen base f1 (set_pm s1 k) A f2 s2"
        using skip_slashes_ok [OF 1(3) less.prems(2)] by (auto simp: i1_def)
      have pa2: "path_at base f2 (set_pm s2 k) A path w" using path_at_unseen [OF 1(3) a(2)] by simp
      obtain s3 f3 where b: "scan_name path i1 (set_pm s2 k) = Done fin (set_pm s3 k)" "unseen base f2 (set_pm s2 k) A f3 s3"
        using scan_name_ok [OF pa2 ile] by (auto simp: rest fin_def name_def)
      have pa3: "path_at base f3 (set_pm s3 k) A path w" using path_at_unseen [OF pa2 b(2)] by simp
      have tk: "take (length name) (drop i1 w) = name" by (simp add: rest name_def takeWhile_eq_take [symmetric])
      obtain s4 f4 where c: "unseen base f3 (set_pm s3 k) A f4 s4" "path_step path i1 fin nd (set_pm s3 k) =
          need Panic (if name = [] then Some (Some nd) else Ext2_find (disk_image k) (fs k) nd (name @ [0])) (\<lambda>n. Done n (set_pm s4 k))"
        using path_step_ok [OF pa3 finle [unfolded fin_def] tk, of nd] unfolding fin_def by auto
      have pa4: "path_at base f4 (set_pm s4 k) A path w" using path_at_unseen [OF pa3 c(1)] by simp
      obtain s5 f5 where d: "kload8 (path + of_nat fin) (set_pm s4 k) = Done (if fin < length w then w ! fin else 0) (set_pm s5 k)"
          "unseen base f4 (set_pm s4 k) A f5 s5" "path_at base f5 (set_pm s5 k) A path w"
        by (rule path_at_load [OF pa4 finle]) simp
      have un: "unseen base f k A f5 s5"
        using unseen_trans [OF unseen_trans [OF unseen_trans [OF unseen_trans [OF 1(2) a(2)]]]] b(2) c(1) d(2) by simp
      let ?found = "if name = [] then Some (Some nd) else Ext2_find (disk_image k) (fs k) nd (name @ [0])"
      have run: "path_loop path node i k = need Panic ?found (\<lambda>n.
          if more = [] then Done n (set_pm s5 k) else path_loop path n (fin + 1) (set_pm s5 k))"
      proof -
        have c0: "(if fin < length w then w ! fin else 0) = 0 \<longleftrightarrow> more = []"
          using more finle d(3) by (metis drop_eq_Nil linorder_not_less path_at_def str_at_nz)
        have "path_end path fin n (set_pm s5 k) = Done n (set_pm s5 k)" if "more = []" for n
        proof -
          have "fin = length w" using that more finle by (metis drop_eq_Nil le_antisym)
          then show ?thesis using path_end_ok [OF d(3) less.prems(3)] by simp
        qed
        then show ?thesis
          using path_loop_round [OF _ 1(1) _ 2(2) a(1) b(1) c(2) d(1)] True nz short c0
          by (simp add: 2(1) cong: if_cong)
      qed
      have res: "resolve (disk_image k) (fs k) node ?chs = do { n \<leftarrow> ?found; if more = [] then Some n else resolve (disk_image k) (fs k) n (tl more) }"
        by (simp only: 2(1) resolve_dir [OF 2(2) ne] rest_def name_def more_def)
      show ?thesis
      proof (cases "?found")
        case None
        then show ?thesis using run res un by auto
      next
        case (Some n)
        show ?thesis
        proof (cases "more = []")
          case True
          then show ?thesis using run res Some un by auto
        next
          case False
          have "fin < length w" using False more by (metis drop_all linorder_not_less)
          then have lt: "length w - (fin + 1) < length w - i" "fin + 1 \<le> length w" by (simp_all add: fin_def i1_def)
          obtain s6 f6 where e: "unseen base f5 (set_pm s5 k) A f6 s6" "path_loop path n (fin + 1) (set_pm s5 k) =
              need Panic (resolve (disk_image k) (fs k) n (drop (fin + 1) w)) (\<lambda>n. Done n (set_pm s6 k))"
            using less.hyps [OF lt(1) d(3) lt(2) less.prems(3), of n] by auto
          have "drop (fin + 1) w = tl more" by (metis more Suc_eq_plus1 drop_Suc tl_drop)
          then show ?thesis using run res Some False e unseen_trans [OF un e(1)] by auto
        qed
      qed
    qed
  qed
qed

section \<open>Components\<close>

text \<open>
  The reference: a walk over the components of a path.  A path is written as its components, each
  after some number of slashes; only the first may have none, and then the path is relative.
\<close>

fun walk :: "disk \<Rightarrow> Ext2 \<Rightarrow> Node option \<Rightarrow> u8 list list \<Rightarrow> Node option option" where
  "walk dsk f node [] = Some node"
| "walk dsk f None (n # ns) = Some None"
| "walk dsk f (Some nd) (n # ns) =
     (if is_dir nd then do { node' \<leftarrow> Ext2_find dsk f nd (n @ [0]); walk dsk f node' ns } else Some None)"

definition render :: "(nat \<times> u8 list) list \<Rightarrow> u8 list" where
  "render segs = concat (map (\<lambda>(j, n). replicate j 47 @ n) segs)"

definition segs_ok :: "(nat \<times> u8 list) list \<Rightarrow> bool" where
  "segs_ok segs \<longleftrightarrow> segs \<noteq> [] \<and> (\<forall>(j, n) \<in> set segs. n \<noteq> [] \<and> 47 \<notin> set n) \<and> (\<forall>(j, n) \<in> set (tl segs). 0 < j)"

lemma dropWhile_slashes: "n \<noteq> [] \<Longrightarrow> 47 \<notin> set n \<Longrightarrow> dropWhile (\<lambda>c. c = 47) (replicate j 47 @ n @ r) = n @ (r :: u8 list)"
  by (induction j) (cases n; auto)+

lemma name_part:
  assumes "47 \<notin> set n" "r = [] \<or> (\<exists>q. r = 47 # q)"
  shows "takeWhile (\<lambda>c. c \<noteq> 47) (n @ r) = n" "dropWhile (\<lambda>c. c \<noteq> 47) (n @ r) = (r :: u8 list)"
  using assms by (induction n) auto

lemma resolve_segment:
  assumes "segs_ok ((j, n) # segs)" "is_dir nd"
  shows "resolve dsk f (Some nd) (render ((j, n) # segs)) = do { node' \<leftarrow> Ext2_find dsk f nd (n @ [0]);
     if segs = [] then Some node' else resolve dsk f node' (tl (render segs)) }"
proof -
  have n: "n \<noteq> []" "47 \<notin> set n" using assms(1) by (auto simp: segs_ok_def)
  let ?chs = "replicate j 47 @ n @ render segs"
  have r: "render ((j, n) # segs) = ?chs" by (simp add: render_def)
  have ne: "?chs \<noteq> []" using n by simp
  have e: "render segs = [] \<longleftrightarrow> segs = []" "render segs = [] \<or> (\<exists>q. render segs = 47 # q)"
    using assms(1) by (cases segs; auto simp: segs_ok_def render_def gr0_conv_Suc)+
  show ?thesis
    unfolding r resolve_dir [OF assms(2) ne] dropWhile_slashes [OF n] name_part [OF n(2) e(2)] using n(1) e(1) by simp
qed

lemma resolve_stuck:
  assumes "node = None \<or> (\<exists>nd. node = Some nd \<and> \<not> is_dir nd)" "chs \<noteq> []"
  shows "resolve dsk f node chs = Some None"
  using assms by (subst resolve.simps) auto

lemma walk_stuck: "node = None \<or> (\<exists>nd. node = Some nd \<and> \<not> is_dir nd) \<Longrightarrow> walk dsk f node (n # ns) = Some None"
  by auto

lemma resolve_render:
  "segs_ok ((j, n) # segs) \<Longrightarrow> resolve dsk f node (render ((j, n) # segs)) = walk dsk f node (n # map snd segs)"
proof (induction segs arbitrary: j n node)
  case Nil
  show ?case
  proof (cases "node = None \<or> (\<exists>nd. node = Some nd \<and> \<not> is_dir nd)")
    case True
    have "render [(j, n)] \<noteq> []" using Nil by (auto simp: segs_ok_def render_def)
    from resolve_stuck [OF True this] walk_stuck [OF True] show ?thesis by simp
  next
    case False
    then obtain nd where nd: "node = Some nd" "is_dir nd" by (cases node) auto
    show ?thesis unfolding nd(1) resolve_segment [OF Nil nd(2)] using nd(2) by simp
  qed
next
  case (Cons sg segs)
  obtain j2 n2 where sg: "sg = (Suc j2, n2)" using Cons.prems by (cases sg) (auto simp: segs_ok_def gr0_conv_Suc)
  have "segs_ok ((j2, n2) # segs)" using Cons.prems by (auto simp: segs_ok_def sg)
  note ih = Cons.IH [OF this]
  have tl: "tl (render (sg # segs)) = render ((j2, n2) # segs)" by (simp add: sg render_def)
  show ?case
  proof (cases "node = None \<or> (\<exists>nd. node = Some nd \<and> \<not> is_dir nd)")
    case True
    have "render ((j, n) # sg # segs) \<noteq> []" using Cons.prems by (auto simp: segs_ok_def render_def)
    from resolve_stuck [OF True this] walk_stuck [OF True] show ?thesis by simp
  next
    case False
    then obtain nd where nd: "node = Some nd" "is_dir nd" by (cases node) auto
    show ?thesis unfolding nd(1) resolve_segment [OF Cons.prems nd(2)] tl ih using nd(2) by (simp add: sg)
  qed
qed

text \<open>
  C9.  Path names.  For a path in readable user memory that consists of components separated by one
  or more slashes, \<^verbatim>\<open>find_path_node\<close> returns, and its result is the walk that starts at the root
  when the path begins with a slash and at the current directory when it does not, and looks up one
  component after the other, as long as each node on the way is a directory; a node that is none,
  or a name that is not there, gives the null pointer.  The call panics exactly when one of these
  lookups does, and the process's memory looks as before.
\<close>

theorem path_resolution:
  assumes "path_at base f k A path (render segs)" "segs_ok segs" "mine k = Some pcb"
  shows "\<exists>s. kview (set_pm s k) = kview k \<and>
    find_path_node path k =
      (case walk (disk_image k) (fs k) (if 0 < fst (hd segs) then Some (fs_root k) else cwd_node pcb) (map snd segs) of
         None \<Rightarrow> Stop Panic | Some r \<Rightarrow> Done r (set_pm s k))"
proof -
  obtain j n segs' where sg: "segs = (j, n) # segs'" using assms(2) by (cases segs) (auto simp: segs_ok_def)
  let ?w = "render segs"
  have n: "n \<noteq> []" "47 \<notin> set n" using assms(2) by (auto simp: segs_ok_def sg)
  have w: "?w \<noteq> []" "?w ! 0 = 47 \<longleftrightarrow> 0 < j"
    using n by (cases n; cases j; auto simp: render_def sg nth_append)+
  obtain s1 f1 where 1: "kload8 path k = Done (?w ! 0) (set_pm s1 k)" "unseen base f k A f1 s1"
      "path_at base f1 (set_pm s1 k) A path ?w"
    using path_at_load [OF assms(1), of 0] w(1) by auto
  let ?node = "if 0 < j then Some (fs_root k) else cwd_node pcb"
  obtain s2 f2 where 2: "unseen base f1 (set_pm s1 k) A f2 s2" "path_loop path ?node 0 (set_pm s1 k) =
      need Panic (resolve (disk_image k) (fs k) ?node ?w) (\<lambda>n. Done n (set_pm s2 k))"
    using path_loop_ok [OF 1(3) _ w(1), of 0 ?node] by auto
  have "unat path < 0xF0000000" "0x80000000 \<le> path" using assms(1) by (simp_all add: path_at_def)
  then have "find_path_node path k = path_loop path ?node 0 (set_pm s1 k)"
    using 1(1) w(2) assms(3) by (simp add: find_path_node_def word_le_unat word_less_unat)
  moreover have "resolve (disk_image k) (fs k) ?node ?w = walk (disk_image k) (fs k) ?node (map snd segs)"
    using resolve_render [OF assms(2) [unfolded sg]] by (simp add: sg)
  moreover have "kview (set_pm s2 k) = kview k" using unseenD(2) [OF 1(2)] unseenD(2) [OF 2(1)] by simp
  ultimately show ?thesis using 2(2) by (auto simp: sg need_def)
qed

text \<open>The relative path \<^verbatim>\<open>init\<close> on the stack of the small machine, in its root directory.\<close>

definition ex_path_kernel :: kernel where
  "ex_path_kernel = ex_kernel [0x74696E69] ((PCB_new 0x600000)\<lparr>cwd_node := Some (ex_node 0x41ED 12 10)\<rparr>) Map.empty"

lemma ex_path_at: "path_at 0x600000 [] ex_path_kernel (span 0xEFFFF000 4096) 0xEFFFF000 (render [(0, [105, 110, 105, 116])])"
proof -
  have r: "render [(0, [105, 110, 105, 116])] = [105, 110, 105, 116]" by (simp add: render_def)
  have v: "kview ex_path_kernel (0xEFFFF000 + of_nat i) =
      (if i div 4 < 1 then word_byte (i mod 4) ([0x74696E69] ! (i div 4)) else 0)" if "i < 4096" for i
    using ex_view [OF that, of "[0x74696E69]"] by (simp add: ex_path_kernel_def)
  have b: "word_byte 0 0x74696E69 = 105" "word_byte (Suc 0) 0x74696E69 = 110" "word_byte 2 0x74696E69 = 105" "word_byte 3 0x74696E69 = 116"
    by (simp_all add: word_byte_def)
  have "kview ex_path_kernel (0xEFFFF000 + of_nat i) = [105, 110, 105, 116] ! i" if i: "i < 4" for i
  proof -
    consider "i = 0" | "i = 1" | "i = 2" | "i = 3" using i by linarith
    then show ?thesis using v [of i] b by cases (simp_all del: unsigned_of_nat)
  qed
  then have "str_at ex_path_kernel 0xEFFFF000 [105, 110, 105, 116]"
    using v [of 4] by (auto simp: str_at_def)
  then show ?thesis
    using ex_ready(3) span_sub [of 0 "Suc (Suc (Suc (Suc (Suc 0))))" 4096 "0xEFFFF000"] by (simp add: r path_at_def ex_path_kernel_def)
qed

lemma path_resolution_witness:
  "\<exists>s. find_path_node 0xEFFFF000 ex_path_kernel = Done (Some (inode_on ex_disk 11)) (set_pm s ex_path_kernel)"
proof -
  let ?root = "ex_node 0x41ED 12 10"
  have d: "is_dir ?root" by (simp add: is_dir_def nd_is_dir_def nd_get_type_def ex_node_def)
  have "unat (node_size_in_bytes ?root) = 12" by (simp add: ex_node_def node_size_in_bytes_def)
  then have "node_find ex_disk ?root ([105, 110, 105, 116] @ [0]) = Some 11"
    using node_find_layout [OF ex_node_ok d, of ex_entries "[105, 110, 105, 116]"] ex_dir_layout by (simp add: ex_entries_def)
  moreover have "get_node ex_disk (mounted ex_disk) 11 = Some (inode_on ex_disk 11)"
    by (rule get_node_mounted [OF ex_geometry_ok]) (simp_all add: ex_super)
  ultimately have "walk ex_disk (mounted ex_disk) (Some ?root) [[105, 110, 105, 116]] = Some (Some (inode_on ex_disk 11))"
    using d by (simp add: Ext2_find_def)
  moreover have "mine ex_path_kernel = Some ((PCB_new 0x600000)\<lparr>cwd_node := Some ?root\<rparr>)"
      "disk_image ex_path_kernel = ex_disk" "fs ex_path_kernel = mounted ex_disk"
    by (simp_all add: ex_path_kernel_def ex_ready) (simp_all add: ex_kernel_def)
  ultimately show ?thesis
    using path_resolution [OF ex_path_at _ \<open>mine ex_path_kernel = _\<close>] by (auto simp: segs_ok_def)
qed

end
