(* ===== verification/Signals.thy ===== *)
theory Signals
  imports Sys_Memory
begin

text \<open>
  Signals: \<^verbatim>\<open>simple_signal\<close>, \<^verbatim>\<open>kill\<close>, the fault and timer handlers that enter a handler in
  user mode, and \<^verbatim>\<open>sigreturn\<close>.  A handler starts on a stack that holds its arguments and the
  return address 0x2000; the fault at that address, or the system call, ends it, and the process
  goes on in the context it was interrupted in.
\<close>

section \<open>Writing words\<close>

lemma write_bytes_append:
  assumes "length xs + length ys \<le> 4294967296"
  shows "write_bytes a xs (write_bytes (a + of_nat (length xs)) ys m) = write_bytes a (xs @ ys) m"
proof
  fix x :: u32
  show "write_bytes a xs (write_bytes (a + of_nat (length xs)) ys m) x = write_bytes a (xs @ ys) m x"
  proof (cases "unat (x - a) < length xs")
    case True
    then show ?thesis by (simp add: write_bytes_def nth_append)
  next
    case False
    have lt: "unat (x - a) < 4294967296" by (rule unat_lt_32)
    then have "length xs < 4294967296" using False by linarith
    then have u: "unat (of_nat (length xs) :: u32) = length xs" by (simp add: unat_of_nat)
    have "x - (a + of_nat (length xs)) = (x - a) - of_nat (length xs)" by simp
    also have "unat \<dots> = unat (x - a) - length xs"
      using False u by (subst unat_sub) (simp_all add: word_le_nat_alt)
    finally show ?thesis using False by (simp add: write_bytes_def nth_append less_diff_conv2)
  qed
qed

lemma word_bytes_length [simp]: "length (word_bytes w) = 4"
  by (simp add: word_bytes_def)

lemma store32E:
  assumes "kready base f k A" "span va 4 \<subseteq> A"
  obtains s f' where "kstore32 va w k = Done () (set_pm s k)" "kready base f' (set_pm s k) A"
    "kview (set_pm s k) = write_bytes va (word_bytes w) (kview k)" "confined base (getCR3 k) f (pm_of k) f' s"
proof -
  have "span va (length (word_bytes w)) \<subseteq> A" "length (word_bytes w) \<le> 4294967296" using assms(2) by simp_all
  from store_bytesE [OF assms(1) this] show thesis using that by (metis store32_def)
qed

section \<open>Entering a handler\<close>

lemma kready_put_pcb:
  assumes "mine k = Some pcb" "queue pcb' = queue pcb"
  shows "kready base f (put_pcb (active k) pcb' k) A = kready base f k A"
  using assms by (simp add: kready_def)

lemma kview_put_pcb [simp]: "kview (put_pcb p pcb k) = kview k"
  by (simp add: kview_def)

text \<open>The context of a process that is in its handler.\<close>

abbreviation handling :: "UserContext \<Rightarrow> PCB \<Rightarrow> PCB" where
  "handling uc pcb \<equiv> pcb\<lparr>handler_user_context := uc, in_handler := True\<rparr>"

lemma enter_handler_ok:
  assumes "kready base f k A" "mine k = Some pcb" "span (esp (iFrame uc) - 140) 12 \<subseteq> A"
  shows "\<exists>s. enter_handler uc sig v pcb k =
      Stop (Enter (handler_eip pcb) (esp (iFrame uc) - 140) 0 (set_pm s (put_pcb (active k) (handling uc pcb) k))) \<and>
    kview (set_pm s k) = write_bytes (esp (iFrame uc) - 140) (word_bytes 0x2000 @ word_bytes sig @ word_bytes v) (kview k)"
proof -
  let ?b = "esp (iFrame uc) - 140"
  let ?k = "put_pcb (active k) (handling uc pcb) k"
  have sub: "span (?b + 8) 4 \<subseteq> A" "span (?b + 4) 4 \<subseteq> A" "span ?b 4 \<subseteq> A"
    using assms(3) span_sub [of 8 4 12 ?b] span_sub [of 4 4 12 ?b] span_sub [of 0 4 12 ?b] by auto
  have r: "kready base f ?k A" using assms(1) kready_put_pcb [OF assms(2)] by simp
  obtain s1 f1 where 1: "kstore32 (?b + 8) v ?k = Done () (set_pm s1 ?k)" "kready base f1 (set_pm s1 ?k) A"
      "kview (set_pm s1 ?k) = write_bytes (?b + 8) (word_bytes v) (kview ?k)"
    by (rule store32E [OF r sub(1)])
  obtain s2 f2 where 2: "kstore32 (?b + 4) sig (set_pm s1 ?k) = Done () (set_pm s2 ?k)" "kready base f2 (set_pm s2 ?k) A"
      "kview (set_pm s2 ?k) = write_bytes (?b + 4) (word_bytes sig) (kview (set_pm s1 ?k))"
    by (rule store32E [OF 1(2) sub(2), of sig]) simp
  obtain s3 f3 where 3: "kstore32 ?b 0x2000 (set_pm s2 ?k) = Done () (set_pm s3 ?k)" "kready base f3 (set_pm s3 ?k) A"
      "kview (set_pm s3 ?k) = write_bytes ?b (word_bytes 0x2000) (kview (set_pm s2 ?k))"
    by (rule store32E [OF 2(2) sub(3), of "0x2000"]) simp
  have "write_bytes (?b + 4) (word_bytes sig) (write_bytes (?b + 4 + of_nat (length (word_bytes sig))) (word_bytes v) (kview k)) =
      write_bytes (?b + 4) (word_bytes sig @ word_bytes v) (kview k)" by (rule write_bytes_append) simp
  moreover have "write_bytes ?b (word_bytes 0x2000) (write_bytes (?b + of_nat (length (word_bytes 0x2000)))
        (word_bytes sig @ word_bytes v) (kview k)) =
      write_bytes ?b (word_bytes 0x2000 @ word_bytes sig @ word_bytes v) (kview k)" by (rule write_bytes_append) simp
  moreover have "kview (set_pm s ?k) = kview (set_pm s k)" for s by (simp add: kview_def)
  ultimately have "kview (set_pm s3 k) = write_bytes ?b (word_bytes 0x2000 @ word_bytes sig @ word_bytes v) (kview k)"
    using 1(3) 2(3) 3(3) by (simp add: add.assoc)
  then show ?thesis
    using 1(1) 2(1) 3(1) by (intro exI [of _ s3]) (simp add: enter_handler_def Let_def)
qed

section \<open>Going on\<close>

text \<open>A process that waits to be resumed is resumed in exactly the context that was saved.\<close>

lemma resume_ok:
  assumes "pcbs k p = Some pcb"
  shows "run_event (ResumeEv p) k = Stop (Resume (user_context pcb) ((vmm_on (pcb_directory pcb) k)\<lparr>active := p\<rparr>))"
proof -
  have "(pcbs k)(p \<mapsto> pcb) = pcbs k" using assms by auto
  then show ?thesis using assms by (simp add: resume_with_def put_pcb_def vmm_on_def)
qed

lemma switch_processes_ok:
  assumes "mine k = Some pcb"
  shows "\<exists>k'. switch_processes uc k = Stop (Loop k') \<and> ready_queue k' = ready_queue k @ [ResumeEv (active k)] \<and>
    pcbs k' = (pcbs k)(active k \<mapsto> pcb\<lparr>pcb_directory := getCR3 k AND 0xFFFFF000, user_context := uc\<rparr>) \<and>
    pm_of k' = pm_of k"
  using assms by (simp add: switch_processes_def event_loop_def Processes.go_def Let_def put_pcb_def pm_of_def)

lemma sigreturn_ok:
  assumes "mine k = Some pcb" "in_handler pcb"
  shows "\<exists>k'. sigreturn k = Stop (Loop k') \<and> ready_queue k' = ready_queue k @ [ResumeEv (active k)] \<and>
    pcbs k' = (pcbs k)(active k \<mapsto> pcb\<lparr>in_handler := False, pcb_directory := getCR3 k AND 0xFFFFF000,
      user_context := handler_user_context pcb\<rparr>) \<and> pm_of k' = pm_of k"
  using switch_processes_ok [of "put_pcb (active k) (pcb\<lparr>in_handler := False\<rparr>) k" _ "handler_user_context pcb"] assms
  by (auto simp: sigreturn_def)

section \<open>Properties\<close>

text \<open>
  C10.  Signals, there and back.  A fault of user code at an address outside its regions enters the
  handler the process registered, on a stack 140 bytes lower whose words are the return address
  0x2000, the signal number 1 and the address; no other byte of the process's memory changes.  When
  the handler returns, the fault at 0x2000 puts the process at the end of the ready queue, and the
  event that waits there resumes it, whatever the kernel did in between, in the very context of the
  fault, with every register and the stack pointer as they were, and out of the handler.
\<close>

theorem signal_roundtrip:
  assumes "kready base f k A" "mine k = Some pcb" "span (esp (iFrame uc) - 140) 12 \<subseteq> A"
    "handler_eip pcb \<noteq> 0" "\<not> in_handler pcb" "\<not> covered (queue pcb) va"
  shows "\<exists>k1. vmm_pageFault va uc k = Stop (Enter (handler_eip pcb) (esp (iFrame uc) - 140) 0 k1) \<and>
    kview k1 = write_bytes (esp (iFrame uc) - 140) (word_bytes 0x2000 @ word_bytes 1 @ word_bytes va) (kview k) \<and>
    mine k1 = Some (handling uc pcb) \<and>
    (\<forall>k2 pcb2 uc2. mine k2 = Some pcb2 \<and> in_handler pcb2 \<and> handler_user_context pcb2 = uc \<longrightarrow>
      (\<exists>k3. vmm_pageFault 0x2000 uc2 k2 = Stop (Loop k3) \<and> ready_queue k3 = ready_queue k2 @ [ResumeEv (active k2)] \<and>
        (\<forall>k4. pcbs k4 (active k2) = pcbs k3 (active k2) \<longrightarrow>
          (\<exists>k5. run_event (ResumeEv (active k2)) k4 = Stop (Resume uc k5) \<and> active k5 = active k2 \<and>
            getCR3 k5 = getCR3 k2 AND 0xFFFFF000 \<and> pm_of k5 = pm_of k4 \<and>
            mine k5 = Some (pcb2\<lparr>in_handler := False, pcb_directory := getCR3 k2 AND 0xFFFFF000, user_context := uc\<rparr>)))))"
proof -
  obtain s where s: "(enter_handler uc 1 va pcb k :: unit code) =
        Stop (Enter (handler_eip pcb) (esp (iFrame uc) - 140) 0 (set_pm s (put_pcb (active k) (handling uc pcb) k)))"
      "kview (set_pm s k) = write_bytes (esp (iFrame uc) - 140) (word_bytes 0x2000 @ word_bytes 1 @ word_bytes va) (kview k)"
    using enter_handler_ok [OF assms(1-3)] by blast
  let ?k1 = "set_pm s (put_pcb (active k) (handling uc pcb) k)"
  have "vmm_pageFault va uc k = Stop (Enter (handler_eip pcb) (esp (iFrame uc) - 140) 0 ?k1)"
    using assms(2,4,5,6) s(1) by (simp add: vmm_pageFault_def contains_covered)
  moreover have "kview ?k1 = kview (set_pm s k)" by (simp add: kview_def)
  moreover have "\<exists>k3. vmm_pageFault 0x2000 uc2 k2 = Stop (Loop k3) \<and> ready_queue k3 = ready_queue k2 @ [ResumeEv (active k2)] \<and>
        (\<forall>k4. pcbs k4 (active k2) = pcbs k3 (active k2) \<longrightarrow>
          (\<exists>k5. run_event (ResumeEv (active k2)) k4 = Stop (Resume uc k5) \<and> active k5 = active k2 \<and>
            getCR3 k5 = getCR3 k2 AND 0xFFFFF000 \<and> pm_of k5 = pm_of k4 \<and>
            mine k5 = Some (pcb2\<lparr>in_handler := False, pcb_directory := getCR3 k2 AND 0xFFFFF000, user_context := uc\<rparr>)))"
    if h: "mine k2 = Some pcb2" "in_handler pcb2" "handler_user_context pcb2 = uc" for k2 pcb2 uc2
  proof -
    obtain k3 where k3: "sigreturn k2 = Stop (Loop k3)" "ready_queue k3 = ready_queue k2 @ [ResumeEv (active k2)]"
        "pcbs k3 (active k2) = Some (pcb2\<lparr>in_handler := False, pcb_directory := getCR3 k2 AND 0xFFFFF000, user_context := uc\<rparr>)"
      using sigreturn_ok [OF h(1,2)] h(3) by auto
    then show ?thesis
      using h resume_ok by (intro exI [of _ k3]) (simp add: vmm_pageFault_def vmm_on_def getCR3_def pm_of_def mine_def)
  qed
  ultimately show ?thesis using s(2) by (intro exI [of _ ?k1]) simp
qed

text \<open>
  A killed process.  The timer interrupt that finds a process killed with the value \<open>v\<close>, in user
  mode and outside its handler, takes notice once: it enters the handler with signal number 2 and
  \<open>v\<close>, or ends the process with exit value \<open>v\<close> when there is no handler.  In all other cases the
  process goes to the end of the ready queue with its context saved, and an interrupt of kernel code
  only leaves a note.
\<close>

theorem timer_delivers_kill:
  assumes "kready base f k A" "mine k = Some pcb" "span (esp (iFrame uc) - 140) 12 \<subseteq> A"
  shows "if cs (iFrame uc) AND 3 = 0 then \<exists>k'. apitHandler me uc k = Done () k' \<and> interrupts k' \<and> pcbs k' = pcbs k
    else if killed pcb \<and> \<not> handled pcb \<and> \<not> in_handler pcb then
      if handler_eip pcb = 0
      then \<exists>k'. apitHandler me uc k = exit (killed_v pcb) k' \<and> mine k' = Some (pcb\<lparr>handled := True\<rparr>) \<and> pm_of k' = pm_of k
      else \<exists>k'. apitHandler me uc k = Stop (Enter (handler_eip pcb) (esp (iFrame uc) - 140) 0 k') \<and>
        mine k' = Some (handling uc (pcb\<lparr>handled := True\<rparr>)) \<and>
        kview k' = write_bytes (esp (iFrame uc) - 140) (word_bytes 0x2000 @ word_bytes 2 @ word_bytes (killed_v pcb)) (kview k)
    else \<exists>k'. apitHandler me uc k = Stop (Loop k') \<and> ready_queue k' = ready_queue k @ [ResumeEv (active k)] \<and>
      pcbs k' = (pcbs k)(active k \<mapsto> pcb\<lparr>pcb_directory := getCR3 k AND 0xFFFFF000, user_context := uc\<rparr>)"
proof -
  define k0 where "k0 = (if me = 0 then k\<lparr>ticks := ticks k + 1\<rparr> else k)"
  have same: "mine k0 = mine k" "active k0 = active k" "pcbs k0 = pcbs k" "pm_of k0 = pm_of k" "getCR3 k0 = getCR3 k"
      "ready_queue k0 = ready_queue k" "kview k0 = kview k"
    by (auto simp: k0_def mine_def pm_of_def getCR3_def kview_def)
  then have m: "mine k0 = Some pcb" and r: "kready base f k0 A" using assms(1,2) by (auto simp: kready_def)
  let ?pcb = "pcb\<lparr>handled := True\<rparr>"
  let ?k = "put_pcb (active k) ?pcb k0"
  have m': "mine ?k = Some ?pcb" by (simp add: mine_def same)
  have r': "kready base f ?k A" using r kready_put_pcb [OF m, of ?pcb] by (simp add: same)
  obtain s where s: "(enter_handler uc 2 (killed_v pcb) ?pcb ?k :: unit code) =
        Stop (Enter (handler_eip ?pcb) (esp (iFrame uc) - 140) 0 (set_pm s (put_pcb (active ?k) (handling uc ?pcb) ?k)))"
      "kview (set_pm s ?k) = write_bytes (esp (iFrame uc) - 140) (word_bytes 0x2000 @ word_bytes 2 @ word_bytes (killed_v pcb)) (kview ?k)"
    using enter_handler_ok [OF r' m' assms(3)] by blast
  let ?k1 = "set_pm s (put_pcb (active ?k) (handling uc ?pcb) ?k)"
  have k1: "kview ?k1 = kview (set_pm s ?k)" "mine ?k1 = Some (handling uc ?pcb)" by (simp_all add: kview_def mine_def)
  show ?thesis
    using m m' s k1 switch_processes_ok [where 'a = unit, OF m, of uc]
    by (auto simp: apitHandler_def Let_def same k0_def [symmetric])
qed

section \<open>Witnesses\<close>

definition ex_stack_context :: UserContext where
  "ex_stack_context = no_context\<lparr>iFrame := \<lparr>eip = 0x80000000, cs = 0x1B, eflags = 0x200, esp = 0xEFFFF800, ss = 0x23\<rparr>\<rparr>"

definition ex_handled :: PCB where
  "ex_handled = (PCB_new 0x600000)\<lparr>handler_eip := 0x80000100, killed := True, killed_v := 9\<rparr>"

lemma ex_handler_room: "span (esp (iFrame ex_stack_context) - 140) 12 \<subseteq> span 0xEFFFF000 4096"
  using span_sub [of 1908 12 4096 "0xEFFFF000"] by (simp add: ex_stack_context_def)

lemma signal_roundtrip_witness:
  "\<exists>k1. vmm_pageFault 0x100 ex_stack_context (ex_kernel [] ex_handled Map.empty) = Stop (Enter 0x80000100 0xEFFFF774 0 k1) \<and>
     kview k1 0xEFFFF775 = 0x20 \<and> kview k1 0xEFFFF778 = 1 \<and> kview k1 0xEFFFF77D = 1 \<and>
     (\<exists>k3. vmm_pageFault 0x2000 no_context k1 = Stop (Loop k3) \<and>
       (\<exists>k5. run_event (ResumeEv (active k1)) k3 = Stop (Resume ex_stack_context k5)))"
proof -
  let ?k = "ex_kernel [] ex_handled Map.empty"
  have h: "handler_eip ex_handled \<noteq> 0" "\<not> in_handler ex_handled" "\<not> covered (queue ex_handled) 0x100"
    by (simp_all add: ex_handled_def PCB_new_def covered_def new_region_def add_region_def insert_at_def)
  have e: "esp (iFrame ex_stack_context) - 140 = 0xEFFFF774" "handler_eip ex_handled = 0x80000100"
    by (simp_all add: ex_stack_context_def ex_handled_def)
  note * = signal_roundtrip [OF ex_ready(3) ex_ready(1) [of "[]" ex_handled Map.empty] ex_handler_room h, unfolded e]
  then show ?thesis
  proof (elim exE conjE, goal_cases)
    case (1 k1)
    have "mine k1 = Some (handling ex_stack_context ex_handled) \<and> in_handler (handling ex_stack_context ex_handled) \<and>
        handler_user_context (handling ex_stack_context ex_handled) = ex_stack_context"
      using 1(3) by simp
    from 1(4) [rule_format, OF this, of no_context] obtain k3 where "vmm_pageFault 0x2000 no_context k1 = Stop (Loop k3)"
        "\<exists>k5. run_event (ResumeEv (active k1)) k3 = Stop (Resume ex_stack_context k5)"
      by blast
    then have "\<exists>k3. vmm_pageFault 0x2000 no_context k1 = Stop (Loop k3) \<and>
        (\<exists>k5. run_event (ResumeEv (active k1)) k3 = Stop (Resume ex_stack_context k5))" by blast
    then show ?case
      using 1(1,2) by (intro exI [of _ k1]) (simp add: write_bytes_def word_bytes_def word_byte_def)
  qed
qed

lemma timer_delivers_kill_witness:
  "\<exists>k'. apitHandler 0 ex_stack_context (ex_kernel [] ex_handled Map.empty) = Stop (Enter 0x80000100 0xEFFFF774 0 k') \<and>
     kview k' 0xEFFFF778 = 2 \<and> kview k' 0xEFFFF77C = 9"
proof -
  let ?k = "ex_kernel [] ex_handled Map.empty"
  have h: "killed ex_handled" "\<not> handled ex_handled" "\<not> in_handler ex_handled" "handler_eip ex_handled = 0x80000100"
      "killed_v ex_handled = 9" "cs (iFrame ex_stack_context) AND 3 \<noteq> 0" "esp (iFrame ex_stack_context) - 140 = 0xEFFFF774"
    by (simp_all add: ex_handled_def PCB_new_def ex_stack_context_def)
  obtain k' where "apitHandler 0 ex_stack_context ?k = Stop (Enter 0x80000100 0xEFFFF774 0 k')"
      "kview k' = write_bytes 0xEFFFF774 (word_bytes 0x2000 @ word_bytes 2 @ word_bytes 9) (kview ?k)"
    using timer_delivers_kill [OF ex_ready(3) ex_ready(1) [of "[]" ex_handled Map.empty] ex_handler_room, where me = 0] h by auto
  then show ?thesis by (intro exI [of _ k']) (simp add: write_bytes_def word_bytes_def word_byte_def)
qed

end
