(* ===== verification/Exec_Args.thy ===== *)
theory Exec_Args
  imports Path_Names Signals
begin

text \<open>
  The arguments of \<^verbatim>\<open>execl\<close> (\<^verbatim>\<open>kernel/sys.cc\<close>): they are collected from the memory of the old
  program and built again on the stack of the new one, strings first, then the pointers to them,
  then \<^verbatim>\<open>argv\<close> and \<^verbatim>\<open>argc\<close>.
\<close>

section \<open>Where the strings go\<close>

fun layout :: "u32 \<Rightarrow> u32 \<Rightarrow> u8 list list \<Rightarrow> (u8 list \<times> u32) list" where
  "layout sp t [] = []"
| "layout sp t (w # ws) = (let t' = t + (of_nat (length w) + 1) in (w @ [0], sp - t') # layout sp t' ws)"

definition room :: "u8 list list \<Rightarrow> nat" where
  "room ws = sum_list (map (\<lambda>w. length w + 1) ws)"

lemma room_simps [simp]: "room [] = 0" "room (w # ws) = length w + 1 + room ws"
  by (simp_all add: room_def)

lemma layout_length [simp]: "length (layout sp t ws) = length ws"
  by (induction ws arbitrary: t) (simp_all add: Let_def)

section \<open>Collecting the arguments\<close>

lemma cstr_len_ok:
  assumes "path_at base f k A a w" "n \<le> length w"
  shows "\<exists>s f'. cstr_len a n k = Done (length w) (set_pm s k) \<and> unseen base f k A f' s"
  using assms
proof (induction "length w - n" arbitrary: n k f rule: less_induct)
  case less
  obtain s f' where 1: "kload8 (a + of_nat n) k = Done (if n < length w then w ! n else 0) (set_pm s k)"
      "unseen base f k A f' s" "path_at base f' (set_pm s k) A a w"
    by (rule path_at_load [OF less.prems])
  have short: "n < 4294967296" using path_at_short [OF less.prems(1)] less.prems(2) by simp
  show ?case
  proof (cases "n < length w")
    case True
    have "w ! n \<noteq> 0" using less.prems(1) True by (auto simp: path_at_def dest: str_at_nz)
    then have run: "cstr_len a n k = cstr_len a (Suc n) (set_pm s k)"
      using 1(1) True short by (subst cstr_len.simps) simp
    obtain s2 f2 where "cstr_len a (Suc n) (set_pm s k) = Done (length w) (set_pm s2 k)" "unseen base f' (set_pm s k) A f2 s2"
      using less.hyps [of "Suc n", OF _ 1(3)] True by fastforce
    then show ?thesis using run unseen_trans [OF 1(2)] by auto
  next
    case False
    then have "cstr_len a n k = Done (length w) (set_pm s k)"
      using 1(1) less.prems(2) short by (subst cstr_len.simps) simp
    then show ?thesis using 1(2) by auto
  qed
qed

text \<open>
  The call \<^verbatim>\<open>execl(path, a_0, ..., 0)\<close>: from word \<open>j + 2\<close> on, the stack at \<open>sp\<close> has pointers to the
  strings \<open>ws\<close> and then a null pointer.
\<close>

fun args_at :: "u32 \<Rightarrow> ptr list \<Rightarrow> kernel \<Rightarrow> u32 set \<Rightarrow> u32 \<Rightarrow> nat \<Rightarrow> u8 list list \<Rightarrow> bool" where
  "args_at base f k A sp j [] \<longleftrightarrow> kready base f k A \<and> span (sp + 4 * of_nat (j + 2)) 4 \<subseteq> A \<and> kword k (sp + 4 * of_nat (j + 2)) = 0"
| "args_at base f k A sp j (w # ws) \<longleftrightarrow> span (sp + 4 * of_nat (j + 2)) 4 \<subseteq> A \<and> kword k (sp + 4 * of_nat (j + 2)) \<noteq> 0 \<and>
     path_at base f k A (kword k (sp + 4 * of_nat (j + 2))) w \<and> args_at base f k A sp (Suc j) ws"

lemma kword_same [simp]: "kview (set_pm s k) = kview k \<Longrightarrow> kword (set_pm s k) a = kword k a"
  by (simp add: kword_def)

lemma args_at_ready: "args_at base f k A sp j ws \<Longrightarrow> kready base f k A"
  by (cases ws) (auto simp: path_at_def)

lemma args_at_unseen:
  assumes "args_at base f k A sp j ws" and u: "unseen base f k A f' s"
  shows "args_at base f' (set_pm s k) A sp j ws"
  using assms(1) unseenD(1,2) [OF u] by (induction ws arbitrary: j) (simp_all add: path_at_unseen [OF _ u])

lemma arg_wordE:
  assumes "args_at base f k A sp j ws"
  obtains s f' where "kload32 (sp + 4 * of_nat (j + 2)) k = Done (kword k (sp + 4 * of_nat (j + 2))) (set_pm s k)"
    "unseen base f k A f' s" "args_at base f' (set_pm s k) A sp j ws"
proof -
  have "span (sp + 4 * of_nat (j + 2)) 4 \<subseteq> A" using assms by (cases ws) auto
  then obtain s f' where "kload32 (sp + 4 * of_nat (j + 2)) k = Done (kword k (sp + 4 * of_nat (j + 2))) (set_pm s k)"
      "unseen base f k A f' s"
    by (rule load32E [OF args_at_ready [OF assms]])
  then show thesis using that args_at_unseen [OF assms] by blast
qed

lemma count_args_ok:
  assumes "args_at base f k A sp j ws" "j + length ws < 4294967296"
  shows "\<exists>s f'. count_args sp j k = Done (j + length ws) (set_pm s k) \<and> unseen base f k A f' s"
  using assms
proof (induction ws arbitrary: j k f)
  case Nil
  obtain s f' where "kload32 (sp + 4 * of_nat (j + 2)) k = Done (kword k (sp + 4 * of_nat (j + 2))) (set_pm s k)" "unseen base f k A f' s"
    by (rule arg_wordE [OF Nil(1)])
  then show ?case using Nil by (subst count_args.simps) (auto simp del: of_nat_add)
next
  case (Cons w ws)
  obtain s f' where 1: "kload32 (sp + 4 * of_nat (j + 2)) k = Done (kword k (sp + 4 * of_nat (j + 2))) (set_pm s k)"
      "unseen base f k A f' s" "args_at base f' (set_pm s k) A sp j (w # ws)"
    by (rule arg_wordE [OF Cons.prems(1)])
  obtain s2 f2 where 2: "count_args sp (Suc j) (set_pm s k) = Done (Suc j + length ws) (set_pm s2 k)" "unseen base f' (set_pm s k) A f2 s2"
    using Cons.IH [of f' "set_pm s k" "Suc j"] 1(3) Cons.prems(2) by auto
  then have "count_args sp j k = Done (j + length (w # ws)) (set_pm s2 k)"
    using 1(1) Cons.prems by (subst count_args.simps) (simp del: of_nat_add)
  then show ?case using unseen_trans [OF 1(2) 2(2)] by blast
qed

lemma parse_args_ok:
  assumes "args_at base f k A sp j ws"
  shows "\<exists>s f'. parse_args sp j (length ws) t k = Done (layout sp t ws, t + of_nat (room ws)) (set_pm s k) \<and> unseen base f k A f' s"
  using assms
proof (induction ws arbitrary: j t k f)
  case Nil
  then show ?case using unseen_refl [OF args_at_ready [OF Nil]] by (intro exI [of _ "pm_of k"] exI [of _ f]) simp
next
  case (Cons w ws)
  let ?a = "kword k (sp + 4 * of_nat (j + 2))"
  let ?n = "of_nat (length w) + 1 :: u32"
  obtain s1 f1 where 1: "kload32 (sp + 4 * of_nat (j + 2)) k = Done ?a (set_pm s1 k)"
      "unseen base f k A f1 s1" "args_at base f1 (set_pm s1 k) A sp j (w # ws)"
    by (rule arg_wordE [OF Cons.prems])
  have p1: "path_at base f1 (set_pm s1 k) A ?a w" using 1(3) unseenD(2) [OF 1(2)] by (simp del: of_nat_add)
  obtain s2 f2 where 2: "cstr_len ?a 0 (set_pm s1 k) = Done (length w) (set_pm s2 k)" "unseen base f1 (set_pm s1 k) A f2 s2"
    using cstr_len_ok [OF p1, of 0] by auto
  have p2: "path_at base f2 (set_pm s2 k) A ?a w" using path_at_unseen [OF p1 2(2)] by simp
  have bnd: "0x80000000 \<le> ?a" "unat ?a + length w < 0xF0000000" using p2 by (simp_all add: path_at_def)
  have n: "unat ?n = length w + 1" using bnd by (simp add: unat_word_ariths unat_of_nat)
  then have "unat (?a + ?n) = unat ?a + length w + 1" using bnd by (subst unat_add_no_wrap) simp_all
  then have ok: "\<not> (?a < 0x80000000 \<or> ?a + ?n > 0xF0000000 \<or> ?a + ?n < ?n)"
    using bnd n by (simp add: word_less_unat word_le_unat)
  have r: "kready base f2 (set_pm s2 k) A" "span ?a (length w + 1) \<subseteq> A" "str_at (set_pm s2 k) ?a w" using p2 by (simp_all add: path_at_def)
  obtain s3 f3 where 3: "load_bytes ?a (length w + 1) (set_pm s2 k) =
      Done (map (\<lambda>i. kview (set_pm s2 k) (?a + of_nat i)) [0..<length w + 1]) (set_pm s3 k)" "unseen base f2 (set_pm s2 k) A f3 s3"
    by (rule load_bytesE [OF r(1,2)]) simp
  have str: "map (\<lambda>i. kview (set_pm s2 k) (?a + of_nat i)) [0..<length w + 1] = w @ [0]"
    using str_at_char [OF r(3)] by (intro nth_equalityI) (auto simp: nth_append simp del: upt_Suc)
  have "args_at base f3 (set_pm s3 k) A sp (Suc j) ws"
    using args_at_unseen [OF args_at_unseen [OF 1(3) 2(2)], of f3 s3] 3(2) by simp
  from Cons.IH [OF this, of "t + ?n"] obtain s4 f4 where 4: "parse_args sp (Suc j) (length ws) (t + ?n) (set_pm s3 k) =
      Done (layout sp (t + ?n) ws, t + ?n + of_nat (room ws)) (set_pm s4 k)" "unseen base f3 (set_pm s3 k) A f4 s4"
    by auto
  have "unseen base f k A f4 s4"
    using unseen_trans [OF unseen_trans [OF unseen_trans [OF 1(2)]]] 2(2) 3(2) 4(2) by simp
  moreover have "parse_args sp j (length (w # ws)) t k = Done (layout sp t (w # ws), t + of_nat (room (w # ws))) (set_pm s4 k)"
    using 1(1) 2(1) 3(1) 4(1) ok str by (simp add: Let_def add.assoc)
  ultimately show ?case by blast
qed

section \<open>Building the stack\<close>

abbreviation strings_image :: "u8 list list \<Rightarrow> u8 list" where
  "strings_image ws \<equiv> concat (rev (map (\<lambda>w. w @ [0]) ws))"

abbreviation words_image :: "u32 list \<Rightarrow> u8 list" where
  "words_image vs \<equiv> concat (map word_bytes vs)"

lemma strings_image_length: "length (strings_image ws) = room ws"
  by (induction ws) simp_all

lemma words_image_length: "length (words_image vs) = 4 * length vs"
  by (induction vs) simp_all

lemma push_strings_ok:
  assumes "kready base f k A" "span (sp - of_nat (t + room ws)) (room ws) \<subseteq> A" "room ws \<le> 4294967296"
  shows "\<exists>s f'. push_strings (layout sp (of_nat t) ws) k = Done () (set_pm s k) \<and> kready base f' (set_pm s k) A \<and>
    kview (set_pm s k) = write_bytes (sp - of_nat (t + room ws)) (strings_image ws) (kview k)"
  using assms
proof (induction ws arbitrary: t k f)
  case Nil
  then show ?case by (intro exI [of _ "pm_of k"] exI [of _ f]) (simp add: write_bytes_def)
next
  case (Cons w ws)
  let ?t = "t + (length w + 1)"
  have eq: "t + room (w # ws) = ?t + room ws" by simp
  have up: "sp - of_nat (?t + room ws) + of_nat (room ws) = sp - of_nat ?t" by simp
  have sub: "span (sp - of_nat (?t + room ws)) (room ws) \<subseteq> A" "span (sp - of_nat ?t) (length (w @ [0])) \<subseteq> A"
    using subset_trans [OF span_sub Cons.prems(2), of 0 "room ws"] subset_trans [OF span_sub Cons.prems(2), of "room ws" "length (w @ [0])"]
    unfolding eq up by simp_all
  obtain s1 f1 where 1: "store_bytes kstore8 (sp - of_nat ?t) (w @ [0]) k = Done () (set_pm s1 k)" "kready base f1 (set_pm s1 k) A"
      "kview (set_pm s1 k) = write_bytes (sp - of_nat ?t) (w @ [0]) (kview k)"
    by (rule store_bytesE [OF Cons.prems(1) sub(2)]) (use Cons.prems(3) in simp)
  have "room ws \<le> 4294967296" using Cons.prems(3) by simp
  from Cons.IH [OF 1(2) sub(1) this] obtain s2 f2 where 2: "push_strings (layout sp (of_nat ?t) ws) (set_pm s1 k) = Done () (set_pm s2 k)"
      "kready base f2 (set_pm s2 k) A"
      "kview (set_pm s2 k) = write_bytes (sp - of_nat (?t + room ws)) (strings_image ws) (kview (set_pm s1 k))"
    by auto
  have "write_bytes (sp - of_nat (?t + room ws)) (strings_image ws)
      (write_bytes (sp - of_nat (?t + room ws) + of_nat (length (strings_image ws))) (w @ [0]) (kview k)) =
      write_bytes (sp - of_nat (?t + room ws)) (strings_image ws @ w @ [0]) (kview k)"
    by (rule write_bytes_append) (unfold strings_image_length, use Cons.prems(3) in simp)
  then have "kview (set_pm s2 k) = write_bytes (sp - of_nat (?t + room ws)) (strings_image ws @ w @ [0]) (kview k)"
    unfolding strings_image_length 2(3) 1(3) up .
  then have "kview (set_pm s2 k) = write_bytes (sp - of_nat (t + room (w # ws))) (strings_image (w # ws)) (kview k)"
    unfolding eq by simp
  moreover have "push_strings (layout sp (of_nat t) (w # ws)) k = Done () (set_pm s2 k)"
    using 1(1) 2(1) by (simp add: Let_def ac_simps)
  ultimately show ?case using 2(2) by blast
qed

lemma push_words_ok:
  assumes "kready base f k A" "span (sp + 4 * (t - of_nat (length vs))) (4 * length vs) \<subseteq> A" "4 * length vs \<le> 4294967296"
  shows "\<exists>s f'. push_words sp t vs k = Done (t - of_nat (length vs)) (set_pm s k) \<and> kready base f' (set_pm s k) A \<and>
    kview (set_pm s k) = write_bytes (sp + 4 * (t - of_nat (length vs))) (words_image (rev vs)) (kview k)"
  using assms
proof (induction vs arbitrary: t k f)
  case Nil
  then show ?case by (intro exI [of _ "pm_of k"] exI [of _ f]) (simp add: write_bytes_def)
next
  case (Cons v vs)
  let ?b = "sp + 4 * (t - of_nat (length (v # vs)))"
  have b: "sp + 4 * (t - 1 - of_nat (length vs)) = ?b" "sp + 4 * (t - 1) = ?b + of_nat (4 * length vs)"
    by (simp_all add: algebra_simps)
  have sub: "span (sp + 4 * (t - 1 - of_nat (length vs))) (4 * length vs) \<subseteq> A" "span (sp + 4 * (t - 1)) 4 \<subseteq> A"
    using Cons.prems(2) span_sub [of 0 "4 * length vs" "4 * length (v # vs)" ?b]
      span_sub [of "4 * length vs" 4 "4 * length (v # vs)" ?b] unfolding b by auto
  obtain s1 f1 where 1: "kstore32 (sp + 4 * (t - 1)) v k = Done () (set_pm s1 k)" "kready base f1 (set_pm s1 k) A"
      "kview (set_pm s1 k) = write_bytes (sp + 4 * (t - 1)) (word_bytes v) (kview k)"
    by (rule store32E [OF Cons.prems(1) sub(2)])
  have "4 * length vs \<le> 4294967296" using Cons.prems(3) by simp
  from Cons.IH [OF 1(2) sub(1) this] obtain s2 f2 where 2: "push_words sp (t - 1) vs (set_pm s1 k) = Done (t - 1 - of_nat (length vs)) (set_pm s2 k)"
      "kready base f2 (set_pm s2 k) A"
      "kview (set_pm s2 k) = write_bytes ?b (words_image (rev vs)) (kview (set_pm s1 k))"
    unfolding b(1) by auto
  have "write_bytes ?b (words_image (rev vs)) (write_bytes (?b + of_nat (length (words_image (rev vs)))) (word_bytes v) (kview k)) =
      write_bytes ?b (words_image (rev vs) @ word_bytes v) (kview k)"
    by (rule write_bytes_append) (use Cons.prems(3) in \<open>simp add: words_image_length\<close>)
  then have "kview (set_pm s2 k) = write_bytes ?b (words_image (rev (v # vs))) (kview k)"
    unfolding 2(3) 1(3) b(2) by (simp add: words_image_length)
  moreover have "push_words sp t (v # vs) k = Done (t - of_nat (length (v # vs))) (set_pm s2 k)"
    using 1(1) 2(1) by (simp add: diff_diff_eq)
  ultimately show ?case using 2(2) by blast
qed

lemma signed_drop_bit_small: "m < 2147483648 \<Longrightarrow> signed_drop_bit 2 (of_nat m :: u32) = of_nat (m div 4)"
proof -
  assume m: "m < 2147483648"
  then have "\<not> bit m 31" by (simp add: bit_iff_odd)
  then have "\<not> bit (of_nat m :: u32) 31" by (simp add: bit_of_nat_iff)
  then have "signed_drop_bit 2 (of_nat m :: u32) = drop_bit 2 (of_nat m)"
    by (intro bit_word_eqI) (auto simp: bit_signed_drop_bit_iff bit_drop_bit_eq dest: bit_imp_le_length)
  also have "\<dots> = of_nat (m div 4)"
    using m unat_drop_bit_eq [of 2 "of_nat m :: u32"] by (simp only: word_unat_eq_iff) (simp add: drop_bit_eq_div unat_of_nat)
  finally show ?thesis .
qed

lemma push_args_run:
  assumes "push_strings args k = Done () k1" "push_words sp (- signed_drop_bit 2 (T + 3)) (0 # rev (map snd args)) k1 = Done t k2"
    "push_words sp t [sp + push_bit 2 (t - 1 + 1), of_nat (length args)] k2 = Done t' k3"
  shows "push_args sp args T k = Done (sp + 4 * t') k3"
  using assms by (simp add: push_args_def del: push_words.simps)

text \<open>The new stack pointer.\<close>

definition new_sp :: "u32 \<Rightarrow> u8 list list \<Rightarrow> u32" where
  "new_sp sp ws = sp - of_nat (4 * ((room ws + 3) div 4 + length ws + 3))"

lemma push_args_ok:
  assumes "kready base f k A" "span (new_sp sp ws) (4 * ((room ws + 3) div 4 + length ws + 3)) \<subseteq> A"
    and "4 * ((room ws + 3) div 4 + length ws + 3) < 2147483648"
  shows "\<exists>s. push_args sp (layout sp 0 ws) (of_nat (room ws)) k = Done (new_sp sp ws) (set_pm s k) \<and>
    kview (set_pm s k) =
      write_bytes (new_sp sp ws) (words_image ([of_nat (length ws), new_sp sp ws + 8] @ map snd (layout sp 0 ws) @ [0]))
        (write_bytes (sp - of_nat (room ws)) (strings_image ws) (kview k))"
proof -
  let ?q = "(room ws + 3) div 4" and ?n = "length ws"
  let ?N = "4 * (?q + ?n + 3)"
  let ?b = "new_sp sp ws"
  let ?ps = "0 # rev (map snd (layout sp 0 ws))"
  have R: "room ws \<le> 4 * ?q" "?N < 2147483648" "room ws < 2147483648"
  proof -
    show le: "room ws \<le> 4 * ?q" by linarith
    show lt: "?N < 2147483648" by (rule assms(3))
    have "4 * ?q \<le> ?N" by simp
    from le_less_trans [OF le le_less_trans [OF this lt]] show "room ws < 2147483648" .
  qed
  have sd: "signed_drop_bit 2 (of_nat (room ws) + 3 :: u32) = of_nat ?q"
    using signed_drop_bit_small [of "room ws + 3"] assms(3) by simp
  have t1: "sp + 4 * (- of_nat ?q - of_nat (length ?ps)) = ?b + 8" by (simp add: new_sp_def algebra_simps)
  have t2: "sp + 4 * (- of_nat ?q - of_nat (length ?ps) - 2) = ?b" by (simp add: new_sp_def algebra_simps)
  have str: "sp - of_nat (0 + room ws) = ?b + of_nat (?N - room ws)" using R by (simp add: new_sp_def of_nat_diff)
  have sub: "span (sp - of_nat (0 + room ws)) (room ws) \<subseteq> A" "span (?b + 8) (4 * length ?ps) \<subseteq> A" "span ?b 8 \<subseteq> A"
    using subset_trans [OF span_sub assms(2), of "?N - room ws" "room ws"] subset_trans [OF span_sub assms(2), of 8 "4 * length ?ps"]
      subset_trans [OF span_sub assms(2), of 0 8] R unfolding str by auto
  obtain s1 f1 where 1: "push_strings (layout sp 0 ws) k = Done () (set_pm s1 k)" "kready base f1 (set_pm s1 k) A"
      "kview (set_pm s1 k) = write_bytes (sp - of_nat (room ws)) (strings_image ws) (kview k)"
    using push_strings_ok [OF assms(1) sub(1)] R(3) by auto
  obtain s2 f2 where 2: "push_words sp (- of_nat ?q) ?ps (set_pm s1 k) = Done (- of_nat ?q - of_nat (length ?ps)) (set_pm s2 k)"
      "kready base f2 (set_pm s2 k) A" "kview (set_pm s2 k) = write_bytes (?b + 8) (words_image (rev ?ps)) (kview (set_pm s1 k))"
    using push_words_ok [OF 1(2), of sp "- of_nat ?q" ?ps, unfolded t1] sub(2) R(2) by auto
  let ?t = "- of_nat ?q - of_nat (length ?ps) :: u32"
  obtain s3 f3 where 3: "push_words sp ?t [?b + 8, of_nat ?n] (set_pm s2 k) = Done (?t - 2) (set_pm s3 k)"
      "kview (set_pm s3 k) = write_bytes ?b (words_image [of_nat ?n, ?b + 8]) (kview (set_pm s2 k))"
    using push_words_ok [OF 2(2), of sp ?t "[?b + 8, of_nat ?n]"] sub(3) t2 by auto
  have "write_bytes ?b (words_image [of_nat ?n, ?b + 8])
      (write_bytes (?b + of_nat (length (words_image [of_nat ?n, ?b + 8]))) (words_image (rev ?ps)) (kview (set_pm s1 k))) =
      write_bytes ?b (words_image [of_nat ?n, ?b + 8] @ words_image (rev ?ps)) (kview (set_pm s1 k))"
    by (rule write_bytes_append) (unfold words_image_length, use R(2) in simp)
  then have view: "kview (set_pm s3 k) = write_bytes ?b (words_image ([of_nat ?n, ?b + 8] @ map snd (layout sp 0 ws) @ [0])) (kview (set_pm s1 k))"
    unfolding 3(2) 2(3) by simp
  have "push_bit 2 (?t - 1 + 1) = 4 * ?t" by (simp add: push_bit_eq_mult)
  then have ap: "sp + push_bit 2 (?t - 1 + 1) = ?b + 8" using t1 by simp
  have "push_args sp (layout sp 0 ws) (of_nat (room ws)) k = Done (sp + 4 * (?t - 2)) (set_pm s3 k)"
    by (rule push_args_run [OF 1(1)], unfold sd, rule 2(1), unfold ap layout_length, rule 3(1))
  then have "push_args sp (layout sp 0 ws) (of_nat (room ws)) k = Done ?b (set_pm s3 k)" unfolding t2 .
  then show ?thesis using view 1(3) by auto
qed

section \<open>What the new program finds\<close>

lemma write_bytes_inside: "i < length bs \<Longrightarrow> i < 4294967296 \<Longrightarrow> write_bytes a bs m (a + of_nat i) = bs ! i"
  by (simp add: write_bytes_def unat_of_nat)

lemma write_bytes_beyond: "length bs \<le> i \<Longrightarrow> i < 4294967296 \<Longrightarrow> write_bytes a bs m (a + of_nat i) = m (a + of_nat i)"
  by (simp add: write_bytes_def unat_of_nat)

lemma words_image_nth: "i < length vs \<Longrightarrow> j < 4 \<Longrightarrow> words_image vs ! (4 * i + j) = word_byte j (vs ! i)"
proof (induction vs arbitrary: i)
  case (Cons v vs)
  have "j = 0 \<or> j = 1 \<or> j = 2 \<or> j = 3" using Cons.prems(2) by linarith
  then have "word_bytes v ! j = word_byte j v" by (auto simp: word_bytes_def)
  then show ?case using Cons by (cases i) (simp_all add: nth_append)
qed simp

lemma kword_words_image:
  assumes "kview k = write_bytes a (words_image vs) m" "i < length vs" "4 * length vs < 4294967296"
  shows "kword k (a + 4 * of_nat i) = vs ! i"
proof -
  have "kview k (a + of_nat (4 * i + j)) = word_byte j (vs ! i)" if "j < 4" for j
    using write_bytes_inside [of "4 * i + j" "words_image vs" a m] words_image_nth [OF assms(2) that] assms that
    by (simp add: words_image_length)
  from this [of 0] this [of 1] this [of 2] this [of 3] show ?thesis
    using le32_word_bytes [of "vs ! i"] by (simp add: kword_def ac_simps)
qed

lemma layout_ptr: "i < length ws \<Longrightarrow> snd (layout sp (of_nat t) ws ! i) = sp - of_nat (t + room (take (Suc i) ws))"
proof (induction ws arbitrary: i t)
  case (Cons w ws)
  show ?case using Cons.IH [of "i - 1" "t + (length w + 1)"] Cons.prems by (cases i) (simp_all add: Let_def ac_simps)
qed simp

lemma room_take_le: "room (take n ws) \<le> room ws"
  by (induction ws arbitrary: n) (auto simp: take_Cons split: nat.split)

lemma strings_image_nth:
  "i < length ws \<Longrightarrow> j \<le> length (ws ! i) \<Longrightarrow>
     strings_image ws ! (room ws - room (take (Suc i) ws) + j) = (ws ! i @ [0]) ! j"
proof (induction ws arbitrary: i)
  case (Cons w ws)
  show ?case
  proof (cases i)
    case 0
    have "(strings_image ws @ w @ [0]) ! (length (strings_image ws) + j) = (w @ [0]) ! j" by (rule nth_append_length_plus)
    then show ?thesis unfolding strings_image_length using 0 by simp
  next
    case (Suc i')
    have lt: "room ws - room (take (Suc i') ws) + j < room ws"
    proof -
      have "take (Suc i') ws = take i' ws @ [ws ! i']" using Cons.prems Suc by (simp add: take_Suc_conv_app_nth)
      then have "j < room (take (Suc i') ws)" using Cons.prems Suc by (simp add: room_def)
      then show ?thesis using room_take_le [of "Suc i'" ws] by linarith
    qed
    then have "strings_image (w # ws) ! (room (w # ws) - room (take (Suc i) (w # ws)) + j) =
        strings_image ws ! (room ws - room (take (Suc i') ws) + j)"
      using strings_image_length [of ws] by (simp add: Suc nth_append)
    then show ?thesis using Cons.IH [of i'] Cons.prems Suc by simp
  qed
qed simp

definition stack_words :: "u32 \<Rightarrow> u8 list list \<Rightarrow> u32 list" where
  "stack_words sp ws = [of_nat (length ws), new_sp sp ws + 8] @ map snd (layout sp 0 ws) @ [0]"

lemma new_stack:
  assumes view: "kview k = write_bytes (new_sp sp ws) (words_image (stack_words sp ws))
      (write_bytes (sp - of_nat (room ws)) (strings_image ws) m)"
    and N: "N = 4 * ((room ws + 3) div 4 + length ws + 3)" "N < 2147483648"
  shows "i < length ws + 3 \<Longrightarrow> kword k (new_sp sp ws + 4 * of_nat i) = stack_words sp ws ! i"
    and "i < length ws \<Longrightarrow> 0 \<notin> set (ws ! i) \<Longrightarrow> str_at k (stack_words sp ws ! (i + 2)) (ws ! i)"
    and "a \<notin> span (new_sp sp ws) N \<Longrightarrow> kview k a = m a"
proof -
  let ?b = "new_sp sp ws" and ?vs = "stack_words sp ws"
  have len: "length ?vs = length ws + 3" by (simp add: stack_words_def)
  have R: "room ws \<le> 4 * ((room ws + 3) div 4)" by linarith
  then have NR: "4 * length ?vs + room ws \<le> N" using N(1) by (simp only: len) simp
  have b: "sp - of_nat j = ?b + of_nat (N - j)" if "j \<le> N" for j using that by (simp add: new_sp_def N(1) of_nat_diff)
  show "i < length ws + 3 \<Longrightarrow> kword k (?b + 4 * of_nat i) = ?vs ! i"
    using kword_words_image [OF view] NR N(2) by (simp add: len)
  have out: "kview k (?b + of_nat j) = write_bytes (sp - of_nat (room ws)) (strings_image ws) m (?b + of_nat j)"
    if "4 * length ?vs \<le> j" "j < 4294967296" for j
    unfolding view using that by (intro write_bytes_beyond) (simp_all only: words_image_length)
  have sp: "?b + of_nat j = (sp - of_nat (room ws)) + of_nat (j - (N - room ws))" if "N - room ws \<le> j" for j
  proof -
    have "?b + of_nat j = ?b + of_nat ((N - room ws) + (j - (N - room ws)))" using that by simp
    also have "\<dots> = (?b + of_nat (N - room ws)) + of_nat (j - (N - room ws))" by (simp only: of_nat_add add.assoc)
    finally show ?thesis using b [of "room ws"] NR by simp
  qed
  show "str_at k (?vs ! (i + 2)) (ws ! i)" if i: "i < length ws" "0 \<notin> set (ws ! i)"
  proof -
    let ?r = "room (take (Suc i) ws)"
    have r: "?r \<le> room ws" by (rule room_take_le)
    have "?r \<le> N" using r NR by linarith
    then have ptr: "?vs ! (i + 2) = ?b + of_nat (N - ?r)"
      using layout_ptr [OF i(1), of sp 0] i(1) b [of ?r] by (simp add: stack_words_def nth_append)
    have "take (Suc i) ws = take i ws @ [ws ! i]" using i(1) by (rule take_Suc_conv_app_nth)
    then have lr: "length (ws ! i) < ?r" by (simp add: room_def)
    have ch: "kview k (?vs ! (i + 2) + of_nat j) = (ws ! i @ [0]) ! j" if j: "j \<le> length (ws ! i)" for j
    proof -
      let ?x = "N - ?r + j"
      have x: "4 * length ?vs \<le> ?x" "?x < 4294967296" "N - room ws \<le> ?x" "?x - (N - room ws) = room ws - ?r + j"
          "room ws - ?r + j < room ws"
        using r NR N(2) lr j by linarith+
      note out [OF x(1,2)]
      also have "write_bytes (sp - of_nat (room ws)) (strings_image ws) m (?b + of_nat ?x) = strings_image ws ! (room ws - ?r + j)"
        unfolding sp [OF x(3)] x(4) by (rule write_bytes_inside) (use x(5) NR N(2) in \<open>simp_all only: strings_image_length\<close>)
      also have "\<dots> = (ws ! i @ [0]) ! j" by (rule strings_image_nth [OF i(1) j])
      finally show ?thesis unfolding ptr by (simp add: add.assoc)
    qed
    have "kview k (?vs ! (i + 2) + of_nat j) = ws ! i ! j" if "j < length (ws ! i)" for j
      using ch [of j] that by (simp add: nth_append)
    then show ?thesis using ch [of "length (ws ! i)"] i(2) by (simp add: str_at_def)
  qed
  show "kview k a = m a" if a: "a \<notin> span ?b N"
  proof -
    let ?d = "unat (a - ?b)"
    have d: "?b + of_nat ?d = a" "?d < 4294967296" using unat_lt_32 [of "a - ?b"] by simp_all
    have ge: "N \<le> ?d" using a d(1) by (metis not_le span_mem)
    have x: "4 * length ?vs \<le> ?d" "N - room ws \<le> ?d" "room ws \<le> ?d - (N - room ws)" "?d - (N - room ws) < 4294967296"
      using ge NR d(2) by linarith+
    note out [OF x(1) d(2)]
    also have "write_bytes (sp - of_nat (room ws)) (strings_image ws) m (?b + of_nat ?d) = m (?b + of_nat ?d)"
      unfolding sp [OF x(2)] by (rule write_bytes_beyond) (use x(3,4) in \<open>simp_all only: strings_image_length\<close>)
    finally show ?thesis unfolding d(1) .
  qed
qed

section \<open>Properties\<close>

text \<open>
  C8.  The arguments of \<^verbatim>\<open>execl\<close>, there and back.  When the stack of the old program holds the
  pointers to the strings \<open>ws\<close> and a null pointer behind them, \<^verbatim>\<open>execl\<close> collects exactly these
  strings, without changing what the program sees.  Pushed on the stack of the new program they give
  what \<^verbatim>\<open>main\<close> expects: at the new stack pointer the number of arguments and the address of the
  vector behind it, in the vector a pointer to each string, in order, and a null pointer at its end;
  and no byte outside this block below the old stack pointer changes.
\<close>

theorem execl_arguments_roundtrip:
  assumes "args_at base f k A sp 0 ws" "4 * ((room ws + 3) div 4 + length ws + 3) < 2147483648"
    and "kready base2 f2 k2 A2" "span (new_sp sp ws) (4 * ((room ws + 3) div 4 + length ws + 3)) \<subseteq> A2"
    and "\<forall>w \<in> set ws. 0 \<notin> set w"
  shows "\<exists>s1 s2 args total. count_args sp 0 k = Done (length ws) (set_pm s1 k) \<and>
    parse_args sp 0 (length ws) 0 (set_pm s1 k) = Done (args, total) (set_pm s2 k) \<and> kview (set_pm s2 k) = kview k \<and>
    (\<exists>s. push_args sp args total k2 = Done (new_sp sp ws) (set_pm s k2) \<and>
      (let k3 = set_pm s k2 in
        kword k3 (new_sp sp ws) = of_nat (length ws) \<and> kword k3 (new_sp sp ws + 4) = new_sp sp ws + 8 \<and>
        (\<forall>i < length ws. str_at k3 (kword k3 (new_sp sp ws + 8 + 4 * of_nat i)) (ws ! i)) \<and>
        kword k3 (new_sp sp ws + 8 + 4 * of_nat (length ws)) = 0 \<and>
        (\<forall>a. a \<notin> span (new_sp sp ws) (4 * ((room ws + 3) div 4 + length ws + 3)) \<longrightarrow> kview k3 a = kview k2 a)))"
proof -
  let ?N = "4 * ((room ws + 3) div 4 + length ws + 3)" and ?b = "new_sp sp ws"
  let ?vs = "[of_nat (length ws), ?b + 8] @ map snd (layout sp 0 ws) @ [0]"
  have len: "length ws < 4294967296" "4 * length ?vs \<le> ?N" "?N < 4294967296" using assms(2) by simp_all
  obtain s1 f1 where 1: "count_args sp 0 k = Done (length ws) (set_pm s1 k)" "unseen base f k A f1 s1"
    using count_args_ok [OF assms(1)] len by auto
  obtain s2 f2 where 2: "parse_args sp 0 (length ws) 0 (set_pm s1 k) = Done (layout sp 0 ws, of_nat (room ws)) (set_pm s2 k)"
      "unseen base f1 (set_pm s1 k) A f2 s2"
    using parse_args_ok [OF args_at_unseen [OF assms(1) 1(2)], of 0] by auto
  have v: "kview (set_pm s2 k) = kview k" using unseenD(2) [OF 1(2)] unseenD(2) [OF 2(2)] by simp
  obtain s where s: "push_args sp (layout sp 0 ws) (of_nat (room ws)) k2 = Done ?b (set_pm s k2)"
      "kview (set_pm s k2) = write_bytes ?b (words_image ?vs) (write_bytes (sp - of_nat (room ws)) (strings_image ws) (kview k2))"
    using push_args_ok [OF assms(3,4,2)] by blast
  note st = new_stack [OF s(2) [folded stack_words_def] refl assms(2)]
  let ?k = "set_pm s k2"
  have w: "kword ?k (?b + 8 + 4 * of_nat i) = stack_words sp ws ! (i + 2)" if "i \<le> length ws" for i
    using st(1) [of "i + 2"] that by (simp add: add.assoc)
  have "stack_words sp ws ! (length ws + 2) = 0" "stack_words sp ws ! 0 = of_nat (length ws)" "stack_words sp ws ! 1 = ?b + 8"
    by (simp_all add: stack_words_def nth_append)
  then have "kword ?k (?b + 8 + 4 * of_nat (length ws)) = 0" "kword ?k ?b = of_nat (length ws)" "kword ?k (?b + 4) = ?b + 8"
    using w [of "length ws"] st(1) [of 0] st(1) [of 1] by simp_all
  moreover have "\<forall>i < length ws. str_at ?k (kword ?k (?b + 8 + 4 * of_nat i)) (ws ! i)" using w st(2) assms(5) by simp
  ultimately have "kword ?k ?b = of_nat (length ws) \<and> kword ?k (?b + 4) = ?b + 8 \<and>
        (\<forall>i < length ws. str_at ?k (kword ?k (?b + 8 + 4 * of_nat i)) (ws ! i)) \<and>
        kword ?k (?b + 8 + 4 * of_nat (length ws)) = 0 \<and> (\<forall>a. a \<notin> span ?b ?N \<longrightarrow> kview ?k a = kview k2 a)"
    using st(3) by blast
  then show ?thesis using 1(1) 2(1) v s(1) unfolding Let_def by blast
qed

text \<open>The call \<^verbatim>\<open>execl(p, "ab", 0)\<close> on the small machine.\<close>

definition ex_exec_kernel :: kernel where
  "ex_exec_kernel = ex_kernel (replicate 512 0 @ [0, 0, 0xEFFFF810, 0, 0x6261]) (PCB_new 0x600000) Map.empty"

lemma ex_exec_view:
  assumes "i < 5" "j < 4"
  shows "kview ex_exec_kernel (0xEFFFF800 + of_nat (4 * i + j)) = word_byte j ([0, 0, 0xEFFFF810, 0, 0x6261] ! i)"
proof -
  have "(4 * (512 + i) + j) div 4 = 512 + i" "(4 * (512 + i) + j) mod 4 = j" using assms(2) by (simp_all only: div_mult_self4 mod_mult_self4) simp_all
  moreover have "0xEFFFF800 + of_nat (4 * i + j) = (0xEFFFF000 + of_nat (4 * (512 + i) + j) :: u32)" by simp
  then have "kview ex_exec_kernel (0xEFFFF800 + of_nat (4 * i + j)) = kview ex_exec_kernel (0xEFFFF000 + of_nat (4 * (512 + i) + j))"
    by (simp only:)
  ultimately show ?thesis
    using ex_view [of "4 * (512 + i) + j" "replicate 512 0 @ [0, 0, 0xEFFFF810, 0, 0x6261]" "PCB_new 0x600000" Map.empty] assms
    by (simp add: ex_exec_kernel_def nth_append del: of_nat_add)
qed

lemma ex_args_at: "args_at 0x600000 [] ex_exec_kernel (span 0xEFFFF000 4096) 0xEFFFF800 0 [[97, 98]]"
proof -
  let ?k = ex_exec_kernel
  have r: "kready 0x600000 [] ?k (span 0xEFFFF000 4096)" unfolding ex_exec_kernel_def by (rule ex_ready(3))
  have w: "kword ?k (0xEFFFF800 + of_nat (4 * i)) = [0, 0, 0xEFFFF810, 0, 0x6261] ! i" if "i < 5" for i
    using ex_exec_view [OF that, of 0] ex_exec_view [OF that, of 1] ex_exec_view [OF that, of 2] ex_exec_view [OF that, of 3]
      le32_word_bytes [of "[0, 0, 0xEFFFF810, 0, 0x6261] ! i"] by (simp add: kword_def ac_simps)
  have "kview ?k 0xEFFFF810 = 97" "kview ?k 0xEFFFF811 = 98" "kview ?k 0xEFFFF812 = 0"
    using ex_exec_view [of 4 0] ex_exec_view [of 4 1] ex_exec_view [of 4 2] by (simp_all add: word_byte_def)
  then have "str_at ?k 0xEFFFF810 [97, 98]" by (auto simp: str_at_def less_Suc_eq)
  then have "path_at 0x600000 [] ?k (span 0xEFFFF000 4096) 0xEFFFF810 [97, 98]"
    using r span_sub [of 2064 "Suc (Suc (Suc 0))" 4096 "0xEFFFF000"] by (simp add: path_at_def)
  moreover have "span 0xEFFFF808 4 \<subseteq> span (0xEFFFF000 :: u32) 4096" "span 0xEFFFF80C 4 \<subseteq> span (0xEFFFF000 :: u32) 4096"
    using span_sub [of 2056 4 4096 "0xEFFFF000"] span_sub [of 2060 4 4096 "0xEFFFF000"] by simp_all
  ultimately show ?thesis using r w [of 2] w [of 3] by simp
qed

lemma execl_arguments_roundtrip_witness:
  "\<exists>s1 s2 args total. count_args 0xEFFFF800 0 ex_exec_kernel = Done 1 (set_pm s1 ex_exec_kernel) \<and>
     parse_args 0xEFFFF800 0 1 0 (set_pm s1 ex_exec_kernel) = Done (args, total) (set_pm s2 ex_exec_kernel) \<and>
     (\<exists>k3. push_args 0xEFFFF800 args total (ex_kernel [] (PCB_new 0x600000) Map.empty) = Done 0xEFFFF7EC k3 \<and>
       kword k3 0xEFFFF7EC = 1 \<and> str_at k3 (kword k3 0xEFFFF7F4) [97, 98])"
proof -
  let ?k2 = "ex_kernel [] (PCB_new 0x600000) Map.empty"
  have n: "new_sp 0xEFFFF800 [[97, 98]] = 0xEFFFF7EC" by (simp add: new_sp_def)
  have sub: "span 0xEFFFF7EC 20 \<subseteq> span (0xEFFFF000 :: u32) 4096" using span_sub [of 2028 20 4096 "0xEFFFF000"] by simp
  have "\<exists>s1 s2 args total. count_args 0xEFFFF800 0 ex_exec_kernel = Done (length [[97, 98 :: u8]]) (set_pm s1 ex_exec_kernel) \<and>
    parse_args 0xEFFFF800 0 (length [[97, 98 :: u8]]) 0 (set_pm s1 ex_exec_kernel) = Done (args, total) (set_pm s2 ex_exec_kernel) \<and>
    kview (set_pm s2 ex_exec_kernel) = kview ex_exec_kernel \<and>
    (\<exists>s. push_args 0xEFFFF800 args total ?k2 = Done (new_sp 0xEFFFF800 [[97, 98]]) (set_pm s ?k2) \<and>
      (let k3 = set_pm s ?k2 in
        kword k3 (new_sp 0xEFFFF800 [[97, 98]]) = of_nat (length [[97, 98 :: u8]]) \<and>
        kword k3 (new_sp 0xEFFFF800 [[97, 98]] + 4) = new_sp 0xEFFFF800 [[97, 98]] + 8 \<and>
        (\<forall>i < length [[97, 98 :: u8]]. str_at k3 (kword k3 (new_sp 0xEFFFF800 [[97, 98]] + 8 + 4 * of_nat i)) ([[97, 98]] ! i)) \<and>
        kword k3 (new_sp 0xEFFFF800 [[97, 98]] + 8 + 4 * of_nat (length [[97, 98 :: u8]])) = 0 \<and>
        (\<forall>a. a \<notin> span (new_sp 0xEFFFF800 [[97, 98]]) (4 * ((room [[97, 98]] + 3) div 4 + length [[97, 98 :: u8]] + 3)) \<longrightarrow>
          kview k3 a = kview ?k2 a)))"
    by (rule execl_arguments_roundtrip [OF ex_args_at _ ex_ready(3)]) (simp_all add: n sub)
  then obtain s1 s2 args total s where
      "count_args 0xEFFFF800 0 ex_exec_kernel = Done 1 (set_pm s1 ex_exec_kernel)"
      "parse_args 0xEFFFF800 0 1 0 (set_pm s1 ex_exec_kernel) = Done (args, total) (set_pm s2 ex_exec_kernel)"
      "push_args 0xEFFFF800 args total ?k2 = Done 0xEFFFF7EC (set_pm s ?k2)"
      "kword (set_pm s ?k2) 0xEFFFF7EC = 1" "str_at (set_pm s ?k2) (kword (set_pm s ?k2) 0xEFFFF7F4) [97, 98]"
    unfolding n Let_def by auto
  then show ?thesis by blast
qed

end
