(* ===== verification/Fork_Space.thy ===== *)
theory Fork_Space
  imports Sys_Memory
begin

text \<open>
  The address space \<^verbatim>\<open>fork\<close> makes: the child sees the memory the parent had, in frames of its
  own, and the parent keeps its own.
\<close>

section \<open>Writing a whole page\<close>

lemma copy_frame_ok:
  assumes "page_aligned src" "page_aligned dst" "src \<noteq> dst" "phys_ok base f s" "allocated base f s dst"
  obtains s' where "copy_frame src dst s = Some s'" "phys_ok base f s'" "avail s' = avail s" "limit s' = limit s"
    "\<forall>q j. page_aligned q \<longrightarrow> j < 1024 \<longrightarrow> pt_get s' q j = (if q = dst then pt_get s src j else pt_get s q j)"
proof -
  define I where "I n t \<longleftrightarrow> phys_ok base f t \<and> avail t = avail s \<and> limit t = limit s \<and>
     (\<forall>q j. page_aligned q \<longrightarrow> j < 1024 \<longrightarrow> pt_get t q j = (if q = dst \<and> j < n then pt_get s src j else pt_get s q j))" for n t
  have "\<exists>t. for_loop 0 1024 (\<lambda>i s. Some (pt_set dst i (pt_get s src i) s)) s = Some t \<and> I (0 + 1024) t"
  proof (rule for_loop_total)
    show "I 0 s" using assms by (simp add: I_def)
    fix k t assume k: "0 \<le> k" "k < 0 + (1024 :: nat)" and I: "I k t"
    have "phys_ok base f (pt_set dst k (pt_get t src k) t)"
      using I k assms(5) allocated_same [of t s base f] by (intro pt_set_ok) (simp_all add: I_def)
    moreover have "pt_get (pt_set dst k (pt_get t src k) t) q j = (if q = dst \<and> j < Suc k then pt_get s src j else pt_get s q j)"
      if "page_aligned q" "j < 1024" for q j
      using that I k assms(1-3) by (auto simp: pt_get_set I_def less_Suc_eq)
    ultimately show "\<exists>t'. Some (pt_set dst k (pt_get t src k) t) = Some t' \<and> I (Suc k) t'"
      using I by (simp add: I_def)
  qed
  then obtain t where t: "for_loop 0 1024 (\<lambda>i s. Some (pt_set dst i (pt_get s src i) s)) s = Some t" "I 1024 t" by auto
  show thesis using t by (intro that [of t]) (simp_all add: copy_frame_def I_def)
qed

lemma page_rewritten:
  assumes ok: "space_ok base f s pd" and va: "user_va va" and w: "mmu_walk (mem s) pd va = Some x"
    and ok': "phys_ok base f s'" and av: "avail s' = avail s" "limit s' = limit s"
    and get: "\<And>q j. page_aligned q \<Longrightarrow> j < 1024 \<Longrightarrow> q \<noteq> x_frame x \<Longrightarrow> pt_get s' q j = pt_get s q j"
  shows "space_ok base f s' pd" "confined base pd f s f s'" "mmu_walk (mem s') pd va' = mmu_walk (mem s) pd va'"
    "user_view pd s' va' = (if page va' = page va
       then word_byte (unat va' mod 4) (pt_get s' (x_frame x) (unat va' mod 4096 div 4)) else user_view pd s va')"
proof -
  have fr: "x_frame x \<noteq> pd" using space_okD(6) [OF ok va w] by simp
  have dir: "pt_get s' pd i = pt_get s pd i" if "i < 1024" for i
    using that fr get space_okD(4) [OF ok] by simp
  have tab: "pt_get s' (frame_of (pt_get s pd i)) j = pt_get s (frame_of (pt_get s pd i)) j"
    if "i < 1024" "j < 1024" "present (pt_get s pd i)" for i j
    using that get space_okD(7) [OF ok va w that(1,3)] by auto
  show walk: "mmu_walk (mem s') pd va' = mmu_walk (mem s) pd va'" for va'
    using dir tab by (intro mmu_walk_cong space_okD(4) [OF ok]) auto
  show "space_ok base f s' pd"
    by (rule space_ok_same [OF ok ok']) (simp add: allocated_same [OF av(1)], erule dir, rule walk)
  have "own s' pd = own s pd" unfolding own_def walk
  proof (intro arg_cong2 [where f = "(\<union>)"] refl Collect_cong ex_cong1)
    show "(q = frame_of (pt_get s' pd i) \<and> 512 \<le> i \<and> i < 960 \<and> present (pt_get s' pd i)) =
        (q = frame_of (pt_get s pd i) \<and> 512 \<le> i \<and> i < 960 \<and> present (pt_get s pd i))" for q i
      using dir [of i] by (cases "i < 960") auto
  qed
  moreover have "pt_get s' q j = pt_get s q j" if "allocated base f s q" "q \<notin> own s pd" "j < 1024" for q j
    using that get ownI(3) [OF va w] by (auto simp: allocated_def)
  ultimately show "confined base pd f s f s'"
    using dir unfolding confined_def by (simp add: allocated_same [OF av(1)])
  show "user_view pd s' va' = (if page va' = page va
       then word_byte (unat va' mod 4) (pt_get s' (x_frame x) (unat va' mod 4096 div 4)) else user_view pd s va')"
  proof (cases "user_va va'")
    case u: True
    show ?thesis
    proof (cases "page va' = page va")
      case True
      then have "mmu_walk (mem s') pd va' = Some x" using w walk walk_page [OF True] by simp
      then show ?thesis using True u by (simp add: view_mapped)
    next
      case False
      show ?thesis
      proof (cases "mmu_walk (mem s) pd va'")
        case (Some y)
        have "x_frame y \<noteq> x_frame x" using space_okD(8) [OF ok u va Some w] False by blast
        then show ?thesis using Some False u walk get [of "x_frame y"] by (simp add: view_mapped)
      qed (use walk False in \<open>simp add: view_unmapped\<close>)
    qed
  next
    case False
    then have "page va' \<noteq> page va" using user_va_page va by blast
    then show ?thesis using False by (simp add: view_outside)
  qed
qed

section \<open>New entries of a directory\<close>

text \<open>A new, empty table for user pages.\<close>

lemma new_table:
  assumes ok: "space_ok base f s pd" and i: "512 \<le> i" "i < 960" and np: "\<not> present (pt_get s pd i)" and room: "0 < frames_left f s"
  obtains p s1 f' where "alloc_frame s = Some (p, s1)" "page_aligned p" "space_ok base f' (pt_set pd i (p OR 7) s1) pd"
    "confined base pd f s f' (pt_set pd i (p OR 7) s1)" "user_view pd (pt_set pd i (p OR 7) s1) = user_view pd s"
    "Suc (frames_left f' (pt_set pd i (p OR 7) s1)) = frames_left f s"
    "\<And>j. j < 1024 \<Longrightarrow> pt_get (pt_set pd i (p OR 7) s1) pd j = (if j = i then p OR 7 else pt_get s pd j)"
    "\<And>j. j < 1024 \<Longrightarrow> pt_get (pt_set pd i (p OR 7) s1) p j = 0"
proof -
  have i': "i < 1024" using i by simp
  obtain p s1 where al: "alloc_frame s = Some (p, s1)" using pm.alloc_ok [OF space_okD(1) [OF ok] room] by blast
  let ?s = "pt_set pd i (p OR 7) s1"
  obtain f' where 1: "phys_ok base f' ?s" "tables_ok base f' ?s pd" "Suc (frames_left f' ?s) = frames_left f s"
      "\<forall>q. allocated base f' ?s q \<longleftrightarrow> allocated base f s q \<or> q = p" "\<not> allocated base f s p" "page_aligned p" "p \<noteq> pd"
      "\<forall>q j. page_aligned q \<longrightarrow> j < 1024 \<longrightarrow> pt_get ?s q j = (if q = pd \<and> j = i then p OR 7 else if q = p then 0 else pt_get s q j)"
      "\<forall>va. mmu_walk (mem ?s) pd va = mmu_walk (mem s) pd va"
    by (rule set_pde_walk [OF space_okD(2) [OF ok] al space_okD(1) [OF ok] np i'])
  have pd: "page_aligned pd" "allocated base f s pd" by (rule space_okD(4) [OF ok], rule space_okD(3) [OF ok])
  have dir: "pt_get ?s pd j = (if j = i then p OR 7 else pt_get s pd j)" if "j < 1024" for j
    using 1(7,8) that pd(1) by auto
  have flags: "(p OR 7) AND 6 = 6" using entry_flags [OF 1(6), of 6 7] by simp
  have data: "x_frame x \<noteq> p" if "user_va va" "mmu_walk (mem s) pd va = Some x" for va x
    using space_okD(6) [OF ok that] 1(5) by auto
  have sp: "space_ok base f' ?s pd"
    unfolding space_ok_def
  proof (intro conjI allI impI)
    show "phys_ok base f' ?s" "tables_ok base f' ?s pd" by fact+
    show "pt_get ?s pd j AND 6 = 6" if "512 \<le> j" "j < 960" "present (pt_get ?s pd j)" for j
      using that dir [of j] flags ok by (auto simp: space_ok_def split: if_splits)
    fix va x assume u: "user_va va" and "mmu_walk (mem ?s) pd va = Some x"
    then have w: "mmu_walk (mem s) pd va = Some x" using 1(9) by simp
    show "allocated base f' ?s (x_frame x)" "x_frame x \<noteq> pd" using space_okD(6) [OF ok u w] 1(4) by blast+
    show "x_frame x \<noteq> frame_of (pt_get ?s pd j)" if j: "j < 1024" "present (pt_get ?s pd j)" for j
      using j dir [OF j(1)] data [OF u w] 1(6) space_okD(7) [OF ok u w j(1)] by (auto split: if_splits)
    show "page va = page va'" if "user_va va'" "mmu_walk (mem ?s) pd va' = Some x'" "x_frame x = x_frame x'" for va' x'
      using space_okD(8) [OF ok u that(1) w _ that(3)] that(2) 1(9) by simp
  qed
  have view: "user_view pd ?s va = user_view pd s va" for va
  proof (cases "user_va va")
    case u: True
    show ?thesis
    proof (cases "mmu_walk (mem s) pd va")
      case (Some x)
      have "pt_get ?s (x_frame x) j = pt_get s (x_frame x) j" if "j < 1024" for j
        using 1(8) that data [OF u Some] space_okD(6) [OF ok u Some] walk_aligned [OF Some] by auto
      then show ?thesis using Some u 1(9) by (simp add: view_mapped)
    qed (use 1(9) in \<open>simp add: view_unmapped\<close>)
  qed (simp add: view_outside)
  have "confined base pd f s f' ?s"
    unfolding confined_def
  proof (intro conjI allI impI subsetI)
    show "allocated base f' ?s q" if "allocated base f s q" for q using that 1(4) by blast
    show "pt_get ?s q j = pt_get s q j" if "allocated base f s q" "q \<notin> own s pd" "j < 1024" for q j
      using that 1(5,8) ownI(1) [of pd s] by (auto simp: allocated_def)
    show "pt_get ?s pd j = pt_get s pd j" if "j < 1024" "j < 512 \<or> 960 \<le> j" for j using that dir [of j] i by auto
    fix q assume "q \<in> own ?s pd"
    then show "q \<in> own s pd \<union> {q. \<not> allocated base f s q}"
      using 1(5,6,9) dir unfolding own_def by (fastforce split: if_splits)
  qed
  then show thesis using that [OF al 1(6) sp] view 1(3,8) dir 1(6,7) by (simp add: fun_eq_iff)
qed

text \<open>An entry outside the user range: the child shares the tables of the kernel.\<close>

lemma kernel_entry:
  assumes ok: "space_ok base f s pd" and i: "i < 1024" "i < 512 \<or> 960 \<le> i"
    and e: "present e \<Longrightarrow> allocated base f s (frame_of e)" "present e \<Longrightarrow> frame_of e \<notin> own s pd"
      "\<And>j. j < 1024 \<Longrightarrow> j \<noteq> i \<Longrightarrow> present e \<Longrightarrow> present (pt_get s pd j) \<Longrightarrow> frame_of e \<noteq> frame_of (pt_get s pd j)"
  defines "s' \<equiv> pt_set pd i e s"
  shows "space_ok base f s' pd" "user_view pd s' = user_view pd s" "own s' pd = own s pd"
    "\<And>q j. page_aligned q \<Longrightarrow> j < 1024 \<Longrightarrow> pt_get s' q j = (if q = pd \<and> j = i then e else pt_get s q j)"
proof -
  have pd: "page_aligned pd" "allocated base f s pd" by (rule space_okD(4) [OF ok], rule space_okD(3) [OF ok])
  show get: "pt_get s' q j = (if q = pd \<and> j = i then e else pt_get s q j)" if "page_aligned q" "j < 1024" for q j
    using that pd(1) i(1) by (auto simp: s'_def pt_get_set)
  have notpd: "present e \<Longrightarrow> frame_of e \<noteq> pd" using e(2) ownI(1) by metis
  have tab: "frame_of (pt_get s pd j) \<noteq> pd" if "j < 1024" "present (pt_get s pd j)" for j
    using that tables_okD(2) [OF space_okD(2) [OF ok]] by blast
  have walk: "mmu_walk (mem s') pd va = mmu_walk (mem s) pd va" if u: "user_va va" for va
  proof (rule mmu_walk_cong [OF pd(1)])
    have ne: "pdi_of va \<noteq> i" using u i(2) by (auto simp: user_va_pdi)
    then show "pt_get s' pd (pdi_of va) = pt_get s pd (pdi_of va)" by (simp add: get pd)
    assume "present (pt_get s pd (pdi_of va))"
    then show "pt_get s' (frame_of (pt_get s pd (pdi_of va))) (pti_of va) = pt_get s (frame_of (pt_get s pd (pdi_of va))) (pti_of va)"
      using tab by (simp add: get)
  qed
  have t: "tables_ok base f s' pd"
    using space_okD(2) [OF ok] e(1,3) notpd pd(1) unfolding tables_ok_def s'_def
    by (auto simp: get [unfolded s'_def]) metis+
  have p: "phys_ok base f s'" unfolding s'_def by (rule pt_set_ok [OF space_okD(1) [OF ok] pd(2) i(1)])
  have own: "x_frame x \<in> own s pd" if "user_va va" "mmu_walk (mem s) pd va = Some x" for va x using ownI(3) [OF that] .
  show "space_ok base f s' pd"
    unfolding space_ok_def
  proof (intro conjI allI impI)
    show "phys_ok base f s'" "tables_ok base f s' pd" by fact+
    show "pt_get s' pd j AND 6 = 6" if "512 \<le> j" "j < 960" "present (pt_get s' pd j)" for j
      using that get [OF pd(1), of j] i(2) ok by (auto simp: space_ok_def)
    fix va x assume u: "user_va va" and "mmu_walk (mem s') pd va = Some x"
    then have w: "mmu_walk (mem s) pd va = Some x" using walk [OF u] by simp
    show "allocated base f s' (x_frame x)" "x_frame x \<noteq> pd" using space_okD(6) [OF ok u w] by (simp_all add: s'_def)
    show "x_frame x \<noteq> frame_of (pt_get s' pd j)" if j: "j < 1024" "present (pt_get s' pd j)" for j
      using j get [OF pd(1) j(1)] own [OF u w] e(2) space_okD(7) [OF ok u w j(1)] by (auto split: if_splits)
    show "page va = page va'" if "user_va va'" "mmu_walk (mem s') pd va' = Some x'" "x_frame x = x_frame x'" for va' x'
      using space_okD(8) [OF ok u that(1) w _ that(3)] that(2) walk [OF that(1)] by simp
  qed
  have "user_view pd s' va = user_view pd s va" for va
  proof (cases "user_va va")
    case u: True
    show ?thesis
    proof (cases "mmu_walk (mem s) pd va")
      case (Some x)
      have "pt_get s' (x_frame x) j = pt_get s (x_frame x) j" if "j < 1024" for j
        using get that space_okD(6) [OF ok u Some] walk_aligned [OF Some] by auto
      then show ?thesis using Some u walk [OF u] by (simp add: view_mapped)
    qed (use walk [OF u] in \<open>simp add: view_unmapped\<close>)
  qed (simp add: view_outside)
  then show "user_view pd s' = user_view pd s" by blast
  have "{frame_of (pt_get s' pd j) |j. 512 \<le> j \<and> j < 960 \<and> present (pt_get s' pd j)} =
      {frame_of (pt_get s pd j) |j. 512 \<le> j \<and> j < 960 \<and> present (pt_get s pd j)}"
  proof (intro Collect_cong ex_cong1)
    show "(q = frame_of (pt_get s' pd j) \<and> 512 \<le> j \<and> j < 960 \<and> present (pt_get s' pd j)) =
        (q = frame_of (pt_get s pd j) \<and> 512 \<le> j \<and> j < 960 \<and> present (pt_get s pd j))" for q j
      using get [OF pd(1), of j] i(2) by (cases "512 \<le> j \<and> j < 960") auto
  qed
  then show "own s' pd = own s pd" using walk unfolding own_def by auto
qed

section \<open>While the copy is made\<close>

text \<open>
  Forking the space of \<open>parent\<close> as it is in \<open>s0\<close>: the child's space is well formed all the time and
  uses only new frames, and no frame in use before is written.  \<open>K\<close> are the child's entries for the
  kernel's tables.
\<close>

definition forking :: "u32 \<Rightarrow> ptr list \<Rightarrow> phys \<Rightarrow> u32 \<Rightarrow> (nat \<Rightarrow> u32) \<Rightarrow> ptr list \<Rightarrow> phys \<Rightarrow> bool" where
  "forking base f0 s0 child K f t \<longleftrightarrow> space_ok base f t child \<and>
     (\<forall>q. allocated base f0 s0 q \<longrightarrow> allocated base f t q) \<and>
     (\<forall>q j. allocated base f0 s0 q \<longrightarrow> j < 1024 \<longrightarrow> pt_get t q j = pt_get s0 q j) \<and>
     own t child \<inter> {q. allocated base f0 s0 q} = {} \<and>
     (\<forall>i < 1024. i < 512 \<or> 960 \<le> i \<longrightarrow> pt_get t child i = K i)"

lemma forking_confined:
  assumes F: "forking base f0 s0 child K f t" and "confined base child f t f' t'" "space_ok base f' t' child"
  shows "forking base f0 s0 child K f' t'"
proof -
  have c: "\<And>q. allocated base f t q \<Longrightarrow> allocated base f' t' q"
      "\<And>q j. allocated base f t q \<Longrightarrow> q \<notin> own t child \<Longrightarrow> j < 1024 \<Longrightarrow> pt_get t' q j = pt_get t q j"
      "own t' child \<subseteq> own t child \<union> {q. \<not> allocated base f t q}"
      "\<And>i. i < 1024 \<Longrightarrow> i < 512 \<or> 960 \<le> i \<Longrightarrow> pt_get t' child i = pt_get t child i"
    using assms(2) unfolding confined_def by blast+
  have f: "\<And>q. allocated base f0 s0 q \<Longrightarrow> allocated base f t q" "\<And>q. allocated base f0 s0 q \<Longrightarrow> q \<notin> own t child"
    using F unfolding forking_def by blast+
  show ?thesis
    unfolding forking_def
  proof (intro conjI allI impI)
    show "pt_get t' q j = pt_get s0 q j" if "allocated base f0 s0 q" "j < 1024" for q j
      using that c(2) [OF f(1) f(2)] F by (simp add: forking_def)
    show "own t' child \<inter> {q. allocated base f0 s0 q} = {}" using c(3) f by blast
    show "pt_get t' child i = K i" if "i < 1024" "i < 512 \<or> 960 \<le> i" for i
      using c(4) [OF that] that F unfolding forking_def by auto
  qed (use assms(3) c(1) f(1) in auto)
qed

lemma forkingD:
  assumes "forking base f0 s0 child K f t"
  shows "space_ok base f t child" "allocated base f0 s0 q \<Longrightarrow> allocated base f t q"
    "allocated base f0 s0 q \<Longrightarrow> j < 1024 \<Longrightarrow> pt_get t q j = pt_get s0 q j" "allocated base f0 s0 q \<Longrightarrow> q \<notin> own t child"
  using assms unfolding forking_def by blast+

text \<open>One page: a new frame as for a page fault, filled with what the parent's page holds.\<close>

lemma fork_pte_run:
  assumes "page_aligned ct" "pt_get t child pdi = ct OR 7" "\<not> present (pt_get t ct pti)" "pdi < 1024" "pti < 1024"
  shows "map_page child (page_at pdi pti) t = do { (p, s1) \<leftarrow> alloc_frame t; Some (pt_set ct pti (p OR 0x107) s1) }"
    "present (pt_get t pt pti) \<Longrightarrow> fork_pte pt ct pti t = do { s2 \<leftarrow> map_page child (page_at pdi pti) t;
       copy_frame (frame_of (pt_get s2 pt pti)) (frame_of (pt_get s2 ct pti)) s2 }"
  using assms page_at_indices [OF assms(4,5)]
  by (simp_all add: map_page_def fork_pte_def Let_def) (cases "alloc_frame t"; auto)

lemma fork_pte_ok:
  assumes F: "forking base f0 s0 child K f t" and parent: "space_ok base f0 s0 parent"
    and i: "512 \<le> pdi" "pdi < 960" "pti < 1024" "present (pt_get s0 parent pdi)"
    and ct: "page_aligned ct" "pt_get t child pdi = ct OR 7" "pt_get t ct pti = 0"
    and room: "present (pt_get s0 (frame_of (pt_get s0 parent pdi)) pti) \<Longrightarrow> 0 < frames_left f t"
  defines "pt \<equiv> frame_of (pt_get s0 parent pdi)"
  obtains t' f' where "fork_pte pt ct pti t = Some t'" "forking base f0 s0 child K f' t'"
    "\<And>j. j < 1024 \<Longrightarrow> pt_get t' child j = pt_get t child j" "\<And>j. j < 1024 \<Longrightarrow> j \<noteq> pti \<Longrightarrow> pt_get t' ct j = pt_get t ct j"
    "\<And>va. user_view child t' va = (if pdi_of va = pdi \<and> pti_of va = pti then user_view parent s0 va else user_view child t va)"
    "frames_left f t = frames_left f' t' + (if present (pt_get s0 pt pti) then 1 else 0)"
proof -
  let ?va = "page_at pdi pti"
  have i': "pdi < 1024" using i by simp
  note ix = page_at_indices [OF i' i(3)] and pg = page_at_page [OF i' i(3)]
  have u: "user_va ?va" using ix i by (simp add: user_va_pdi)
  have ptal: "allocated base f0 s0 pt" using tables_okD(1) [OF space_okD(2) [OF parent] i' i(4)] by (simp add: pt_def)
  have pte: "pt_get t pt pti = pt_get s0 pt pti" using forkingD(3) [OF F ptal i(3)] .
  have wp: "mmu_walk (mem s0) parent va = (if present (pt_get s0 pt pti) then Some \<lparr>x_frame = frame_of (pt_get s0 pt pti),
      x_user = (pt_get s0 parent pdi AND 4 \<noteq> 0 \<and> pt_get s0 pt pti AND 4 \<noteq> 0),
      x_write = (pt_get s0 parent pdi AND 2 \<noteq> 0 \<and> pt_get s0 pt pti AND 2 \<noteq> 0)\<rparr> else None)"
    if "pdi_of va = pdi" "pti_of va = pti" for va
    using that i(4) by (simp add: mmu_walk_pt_get [OF space_okD(4) [OF parent]] Let_def pt_def)
  note sp = forkingD(1) [OF F]
  have wc: "mmu_walk (mem t) child ?va = None"
    using ct by (simp add: mmu_walk_pt_get [OF space_okD(4) [OF sp]] Let_def ix)
  show thesis
  proof (cases "present (pt_get s0 pt pti)")
    case False
    have "user_view child t va = user_view parent s0 va" if "pdi_of va = pdi" "pti_of va = pti" for va
      using wp [OF that] wc walk_page [of va ?va "mem t" child] pg [of va] that False by (simp add: view_unmapped)
    then show thesis using that [of t f] F False pte by (simp add: fork_pte_def)
  next
    case True
    have "pt_get t child (pdi_of ?va) AND 6 = 6" using ct(1,2) entry_flags [of ct 6 7] by (simp add: ix)
    then obtain s2 f2 p where m: "map_page child ?va t = Some s2" "fresh_mapping base f t child ?va f2 s2 p"
      using map_page_in_table [OF space_okD(1,2) [OF sp] _ _ _ wc] room True ct(1,2) ix by (auto simp: pt_def)
    note fm = fresh_mapping_space [OF sp u wc m(2)]
    have F2: "forking base f0 s0 child K f2 s2" by (rule forking_confined [OF F fm(2,1)])
    have np: "\<not> present (pt_get t ct pti)" using ct(3) by simp
    obtain p' s1 where al: "alloc_frame t = Some (p', s1)" "s2 = pt_set ct pti (p' OR 0x107) s1"
      using m(1) fork_pte_run(1) [OF ct(1,2) np i' i(3)] by (auto split: Option.bind_splits)
    have "0 < frames_left f t" using room True by (simp add: pt_def)
    then obtain f1 where a: "page_aligned p'" "\<not> allocated base f t p'"
        "\<forall>q j. page_aligned q \<longrightarrow> j < 1024 \<longrightarrow> pt_get s1 q j = (if q = p' then 0 else pt_get t q j)"
      using al(1) by (auto elim!: alloc_entry [OF space_okD(1) [OF sp]])
    have ctal: "allocated base f t ct" "ct \<noteq> child"
      using tables_okD(1,2) [OF space_okD(2) [OF sp] i'] ct(1,2) by simp_all
    have get2: "pt_get s2 q j = (if q = ct \<and> j = pti then p' OR 0x107 else if q = p' then 0 else pt_get t q j)"
      if "page_aligned q" "j < 1024" for q j
      using that a(3) ct(1) i(3) by (auto simp: al(2) pt_get_set)
    have p: "p' = p"
      using fm(4) get2 ct(1,2) i(3) i' a(1,2) ctal space_okD(3,4) [OF sp] by (auto simp: mmu_walk_pt_get [OF space_okD(4) [OF sp]] Let_def ix split: if_splits)
    let ?src = "frame_of (pt_get s0 pt pti)"
    have src: "allocated base f0 s0 ?src" using space_okD(6) [OF parent u] wp [of ?va] True ix by simp
    have ne: "?src \<noteq> p" using forkingD(2) [OF F src] a(2) p by auto
    have pal: "allocated base f2 s2 p" using space_okD(6) [OF fm(1) u fm(4)] by simp
    have e2: "frame_of (pt_get s2 pt pti) = ?src" "frame_of (pt_get s2 ct pti) = p"
      using forkingD(3) [OF F2 ptal i(3)] get2 [OF ct(1) i(3)] a(1) p by simp_all
    obtain t' where t': "copy_frame ?src p s2 = Some t'" "phys_ok base f2 t'" "avail t' = avail s2" "limit t' = limit s2"
        "\<forall>q j. page_aligned q \<longrightarrow> j < 1024 \<longrightarrow> pt_get t' q j = (if q = p then pt_get s2 ?src j else pt_get s2 q j)"
      by (rule copy_frame_ok [OF frame_of_aligned a(1) [unfolded p] ne space_okD(1) [OF fm(1)] pal])
    have g: "\<And>q j. page_aligned q \<Longrightarrow> j < 1024 \<Longrightarrow> q \<noteq> x_frame \<lparr>x_frame = p, x_user = True, x_write = True\<rparr> \<Longrightarrow> pt_get t' q j = pt_get s2 q j"
      using t'(5) by simp
    note rw = page_rewritten [OF fm(1) u fm(4) t'(2-4) g]
    have F3: "forking base f0 s0 child K f2 t'" by (rule forking_confined [OF F2 rw(2,1)])
    have "user_view child t' va = (if pdi_of va = pdi \<and> pti_of va = pti then user_view parent s0 va else user_view child t va)" for va
    proof (cases "pdi_of va = pdi \<and> pti_of va = pti")
      case eq: True
      have "user_va va" using eq i by (simp add: user_va_pdi)
      then have "user_view parent s0 va = word_byte (unat va mod 4) (pt_get s0 ?src (unat va mod 4096 div 4))"
        using wp [of va] eq True by (simp add: view_mapped)
      moreover have "pt_get t' p (unat va mod 4096 div 4) = pt_get s0 ?src (unat va mod 4096 div 4)"
        using t'(5) a(1) p forkingD(3) [OF F2 src] by simp
      ultimately show ?thesis using rw(4) [of va] pg [of va] eq by simp
    next
      case False
      then show ?thesis using rw(4) [of va] pg [of va] fm(3) by auto
    qed
    moreover have "fork_pte pt ct pti t = Some t'"
      using fork_pte_run(2) [OF ct(1,2) np i' i(3)] True pte m(1) e2 t'(1) by simp
    moreover have "p \<noteq> child" "p \<noteq> ct" using a(2) p space_okD(3) [OF sp] ctal by auto
    then have "pt_get t' child j = pt_get t child j" "j \<noteq> pti \<Longrightarrow> pt_get t' ct j = pt_get t ct j" if "j < 1024" for j
      using that t'(5) get2 space_okD(4) [OF sp] ct(1) ctal(2) p by auto
    moreover have "frames_left f t = frames_left f2 t' + 1"
      using fm(6) ix ct(1,2) frames_left_same [OF t'(3,4)] by simp
    ultimately show thesis using that F3 True by auto
  qed
qed

section \<open>The loops\<close>

lemma fork_table_ok:
  assumes F: "forking base f0 s0 child K f t" and parent: "space_ok base f0 s0 parent"
    and i: "512 \<le> pdi" "pdi < 960" "present (pt_get s0 parent pdi)"
    and ct: "page_aligned ct" "pt_get t child pdi = ct OR 7" "\<forall>j < 1024. pt_get t ct j = 0"
    and room: "length (table_frames s0 (frame_of (pt_get s0 parent pdi))) \<le> frames_left f t"
  shows "\<exists>t' f'. for_loop 0 1024 (fork_pte (frame_of (pt_get s0 parent pdi)) ct) t = Some t' \<and> forking base f0 s0 child K f' t' \<and>
    (\<forall>j < 1024. pt_get t' child j = pt_get t child j) \<and>
    (\<forall>va. user_view child t' va = (if pdi_of va = pdi then user_view parent s0 va else user_view child t va)) \<and>
    frames_left f t = frames_left f' t' + length (table_frames s0 (frame_of (pt_get s0 parent pdi)))"
proof -
  let ?pt = "frame_of (pt_get s0 parent pdi)"
  define c where "c n = length (filter (\<lambda>j. present (pt_get s0 ?pt j)) [0..<n])" for n
  have cS: "c (Suc n) = c n + (if present (pt_get s0 ?pt n) then 1 else 0)" for n by (simp add: c_def)
  have c_le: "c n \<le> c m" if "n \<le> m" for n m using that by (induction m rule: dec_induct) (simp_all add: cS)
  have tot: "c 1024 = length (table_frames s0 ?pt)" by (simp add: c_def table_frames_def)
  define I where "I n u \<longleftrightarrow> (\<exists>f'. forking base f0 s0 child K f' u \<and> (\<forall>j < 1024. pt_get u child j = pt_get t child j) \<and>
     (\<forall>j < 1024. n \<le> j \<longrightarrow> pt_get u ct j = 0) \<and>
     (\<forall>va. user_view child u va = (if pdi_of va = pdi \<and> pti_of va < n then user_view parent s0 va else user_view child t va)) \<and>
     frames_left f t = frames_left f' u + c n)" for n u
  have "\<exists>u. for_loop 0 1024 (fork_pte ?pt ct) t = Some u \<and> I (0 + 1024) u"
  proof (rule for_loop_total)
    show "I 0 t" using F ct by (auto simp: I_def c_def)
    fix n u assume n: "0 \<le> n" "n < 0 + (1024 :: nat)" and "I n u"
    then obtain f' where h: "forking base f0 s0 child K f' u" "\<forall>j < 1024. pt_get u child j = pt_get t child j"
        "\<forall>j < 1024. n \<le> j \<longrightarrow> pt_get u ct j = 0" "frames_left f t = frames_left f' u + c n"
        "\<forall>va. user_view child u va = (if pdi_of va = pdi \<and> pti_of va < n then user_view parent s0 va else user_view child t va)"
      by (auto simp: I_def)
    have n': "n < 1024" using n by simp
    have e: "pt_get u child pdi = ct OR 7" "pt_get u ct n = 0" using h(2,3) ct(2) i n' by auto
    have r: "0 < frames_left f' u" if "present (pt_get s0 ?pt n)"
      using that c_le [of "Suc n" 1024] n' room h(4) by (simp add: cS tot)
    obtain u' f'' where u': "fork_pte ?pt ct n u = Some u'" "forking base f0 s0 child K f'' u'"
        "\<And>j. j < 1024 \<Longrightarrow> pt_get u' child j = pt_get u child j" "\<And>j. j < 1024 \<Longrightarrow> j \<noteq> n \<Longrightarrow> pt_get u' ct j = pt_get u ct j"
        "\<And>va. user_view child u' va = (if pdi_of va = pdi \<and> pti_of va = n then user_view parent s0 va else user_view child u va)"
        "frames_left f' u = frames_left f'' u' + (if present (pt_get s0 ?pt n) then 1 else 0)"
      by (rule fork_pte_ok [OF h(1) parent i(1,2) n' i(3) ct(1) e r]) blast+
    have "I (Suc n) u'"
      unfolding I_def
    proof (intro exI [of _ f''] conjI allI impI)
      show "user_view child u' va = (if pdi_of va = pdi \<and> pti_of va < Suc n then user_view parent s0 va else user_view child t va)" for va
        using u'(5) [of va] h(5) by (auto simp: less_Suc_eq)
      show "frames_left f t = frames_left f'' u' + c (Suc n)" using h(4) u'(6) by (simp add: cS)
    qed (use u' h in auto)
    then show "\<exists>t'. fork_pte ?pt ct n u = Some t' \<and> I (Suc n) t'" using u'(1) by blast
  qed
  then show ?thesis using tot by (auto simp: I_def)
qed

lemma fork_pde_ok:
  assumes F: "forking base f0 s0 child K f t" and parent: "space_ok base f0 s0 parent"
    and i: "512 \<le> pdi" "pdi < 960" and empty: "pt_get t child pdi = 0"
    and room: "length (pde_frames s0 parent pdi) \<le> frames_left f t"
  shows "\<exists>t' f'. fork_pde parent child pdi t = Some t' \<and> forking base f0 s0 child K f' t' \<and>
    (\<forall>j < 1024. j \<noteq> pdi \<longrightarrow> pt_get t' child j = pt_get t child j) \<and>
    (\<forall>va. user_view child t' va = (if pdi_of va = pdi then user_view parent s0 va else user_view child t va)) \<and>
    frames_left f t = frames_left f' t' + length (pde_frames s0 parent pdi)"
proof -
  have i': "pdi < 1024" using i by simp
  note sp = forkingD(1) [OF F]
  have pal: "allocated base f0 s0 parent" by (rule space_okD(3) [OF parent])
  have pde: "pt_get t parent pdi = pt_get s0 parent pdi" by (rule forkingD(3) [OF F pal i'])
  have unm: "mmu_walk (mem t) child va = None" if "pdi_of va = pdi" for va
    using that empty by (simp add: mmu_walk_pt_get [OF space_okD(4) [OF sp]] Let_def)
  show ?thesis
  proof (cases "present (pt_get s0 parent pdi)")
    case False
    have "user_view child t va = user_view parent s0 va" if "pdi_of va = pdi" for va
      using that False unm [OF that] by (simp add: view_unmapped mmu_walk_pt_get [OF space_okD(4) [OF parent]] Let_def)
    then show ?thesis using F False pde by (intro exI [of _ t] exI [of _ f]) (simp add: fork_pde_def pde_frames_def)
  next
    case True
    let ?pt = "frame_of (pt_get s0 parent pdi)"
    have len: "length (pde_frames s0 parent pdi) = Suc (length (table_frames s0 ?pt))" using True by (simp add: pde_frames_def)
    have np: "\<not> present (pt_get t child pdi)" using empty by simp
    have "0 < frames_left f t" using room len by simp
    then obtain p s1 f1 where n: "alloc_frame t = Some (p, s1)" "page_aligned p" "space_ok base f1 (pt_set child pdi (p OR 7) s1) child"
        "confined base child f t f1 (pt_set child pdi (p OR 7) s1)" "user_view child (pt_set child pdi (p OR 7) s1) = user_view child t"
        "Suc (frames_left f1 (pt_set child pdi (p OR 7) s1)) = frames_left f t"
        "\<And>j. j < 1024 \<Longrightarrow> pt_get (pt_set child pdi (p OR 7) s1) child j = (if j = pdi then p OR 7 else pt_get t child j)"
        "\<And>j. j < 1024 \<Longrightarrow> pt_get (pt_set child pdi (p OR 7) s1) p j = 0"
      by (rule new_table [OF sp i np]) blast+
    let ?t = "pt_set child pdi (p OR 7) s1"
    have F1: "forking base f0 s0 child K f1 ?t" by (rule forking_confined [OF F n(4,3)])
    have e: "pt_get ?t child pdi = p OR 7" "\<forall>j < 1024. pt_get ?t p j = 0" using n(7) [OF i'] n(8) by simp_all
    have "length (table_frames s0 ?pt) \<le> frames_left f1 ?t" using room len n(6) by simp
    from fork_table_ok [OF F1 parent i True n(2) e this] obtain t' f' where
        t': "for_loop 0 1024 (fork_pte ?pt p) ?t = Some t'" "forking base f0 s0 child K f' t'"
        "\<forall>j < 1024. pt_get t' child j = pt_get ?t child j"
        "\<forall>va. user_view child t' va = (if pdi_of va = pdi then user_view parent s0 va else user_view child ?t va)"
        "frames_left f1 ?t = frames_left f' t' + length (table_frames s0 ?pt)"
      by blast
    have "fork_pde parent child pdi t = Some t'"
      using True pde n(1,2) t'(1) e(1) forkingD(3) [OF F1 pal i'] by (simp add: fork_pde_def)
    then show ?thesis using t' n(5,6,7) len by (intro exI [of _ t'] exI [of _ f']) simp
  qed
qed

lemma fork_user_ok:
  assumes F: "forking base f0 s0 child K f t" and parent: "space_ok base f0 s0 parent"
    and empty: "\<forall>j < 1024. 512 \<le> j \<longrightarrow> j < 960 \<longrightarrow> pt_get t child j = 0" and zero: "\<forall>va. user_view child t va = 0"
    and room: "length (user_frames s0 parent) \<le> frames_left f t"
  shows "\<exists>t' f'. for_loop 512 448 (fork_pde parent child) t = Some t' \<and> forking base f0 s0 child K f' t' \<and>
    user_view child t' = user_view parent s0 \<and> frames_left f t = frames_left f' t' + length (user_frames s0 parent)"
proof -
  define c where "c n = length (concat (map (pde_frames s0 parent) [512..<n]))" for n
  have cS: "c (Suc n) = c n + length (pde_frames s0 parent n)" if "512 \<le> n" for n using that by (simp add: c_def)
  have c_le: "c n \<le> c m" if "n \<le> m" "512 \<le> n" for n m using that by (induction m rule: dec_induct) (simp_all add: cS)
  have tot: "c 960 = length (user_frames s0 parent)" by (simp add: c_def user_frames_def)
  define I where "I n u \<longleftrightarrow> (\<exists>f'. forking base f0 s0 child K f' u \<and>
     (\<forall>j < 1024. n \<le> j \<longrightarrow> j < 960 \<longrightarrow> pt_get u child j = 0) \<and>
     (\<forall>va. user_view child u va = (if pdi_of va < n then user_view parent s0 va else 0)) \<and>
     frames_left f t = frames_left f' u + c n)" for n u
  have low: "user_view pd u va = 0" if "pdi_of va < 512 \<or> 960 \<le> pdi_of va" for pd u va
    using that by (intro view_outside) (auto simp: user_va_pdi)
  have "\<exists>u. for_loop 512 448 (fork_pde parent child) t = Some u \<and> I (512 + 448) u"
  proof (rule for_loop_total)
    show "I 512 t" using F empty zero low by (auto simp: I_def c_def)
    fix n u assume n: "512 \<le> n" "n < 512 + (448 :: nat)" and "I n u"
    then obtain f' where h: "forking base f0 s0 child K f' u" "\<forall>j < 1024. n \<le> j \<longrightarrow> j < 960 \<longrightarrow> pt_get u child j = 0"
        "\<forall>va. user_view child u va = (if pdi_of va < n then user_view parent s0 va else 0)" "frames_left f t = frames_left f' u + c n"
      by (auto simp: I_def)
    have n': "n < 960" using n by simp
    have e: "pt_get u child n = 0" using h(2) n' by simp
    have r: "length (pde_frames s0 parent n) \<le> frames_left f' u"
      using c_le [of "Suc n" 960] n n' room h(4) by (simp add: cS tot)
    from fork_pde_ok [OF h(1) parent n(1) n' e r] obtain u' f'' where
        u': "fork_pde parent child n u = Some u'" "forking base f0 s0 child K f'' u'"
        "\<forall>j < 1024. j \<noteq> n \<longrightarrow> pt_get u' child j = pt_get u child j"
        "\<forall>va. user_view child u' va = (if pdi_of va = n then user_view parent s0 va else user_view child u va)"
        "frames_left f' u = frames_left f'' u' + length (pde_frames s0 parent n)"
      by blast
    have "I (Suc n) u'"
      unfolding I_def
    proof (intro exI [of _ f''] conjI allI impI)
      show "user_view child u' va = (if pdi_of va < Suc n then user_view parent s0 va else 0)" for va
        using u'(4) h(3) by (auto simp: less_Suc_eq)
      show "frames_left f t = frames_left f'' u' + c (Suc n)" using h(4) u'(5) n by (simp add: cS)
    qed (use u' h in auto)
    then show "\<exists>t'. fork_pde parent child n u = Some t' \<and> I (Suc n) t'" using u'(1) by blast
  qed
  then obtain u f' where u: "for_loop 512 448 (fork_pde parent child) t = Some u" "forking base f0 s0 child K f' u"
      "\<forall>va. user_view child u va = (if pdi_of va < 960 then user_view parent s0 va else 0)" "frames_left f t = frames_left f' u + c 960"
    by (auto simp: I_def)
  have "user_view child u = user_view parent s0" using u(3) low by (auto simp: fun_eq_iff not_less)
  then show ?thesis using u tot by auto
qed

text \<open>The entries for the kernel: they are the parent's.\<close>

lemma forking_entry:
  assumes F: "forking base f0 s0 child K f t" and parent: "space_ok base f0 s0 parent"
    and K: "\<forall>j < 1024. K j = 0 \<or> K j = pt_get s0 parent j" and i: "i < 1024" "i < 512 \<or> 960 \<le> i"
  shows "forking base f0 s0 child (K(i := pt_get s0 parent i)) f (pt_set child i (pt_get s0 parent i) t)"
    "user_view child (pt_set child i (pt_get s0 parent i) t) = user_view child t"
    "\<And>j. j < 1024 \<Longrightarrow> j \<noteq> i \<Longrightarrow> pt_get (pt_set child i (pt_get s0 parent i) t) child j = pt_get t child j"
proof -
  let ?e = "pt_get s0 parent i"
  note sp = forkingD(1) [OF F]
  have al: "allocated base f0 s0 (frame_of ?e)" if "present ?e"
    using tables_okD(1) [OF space_okD(2) [OF parent] i(1) that] .
  have ne: "frame_of ?e \<noteq> frame_of (pt_get t child j)" if j: "j < 1024" "j \<noteq> i" "present ?e" "present (pt_get t child j)" for j
  proof (cases "j < 512 \<or> 960 \<le> j")
    case True
    then have "pt_get t child j = K j" using F j(1) by (auto simp: forking_def)
    then have "pt_get t child j = pt_get s0 parent j" using K j(1,4) by auto
    then show ?thesis using j tables_okD(3) [OF space_okD(2) [OF parent] i(1) j(3,1,2)] by simp
  next
    case False
    then have "frame_of (pt_get t child j) \<in> own t child" using j(4) unfolding own_def by auto
    then show ?thesis using forkingD(4) [OF F al [OF j(3)]] by auto
  qed
  note k = kernel_entry [OF sp i forkingD(2) [OF F al] forkingD(4) [OF F al] ne]
  have c: "\<not> allocated base f0 s0 child" using forkingD(4) [OF F] ownI(1) by blast
  have "pt_get (pt_set child i ?e t) q j = pt_get s0 q j" if "allocated base f0 s0 q" "j < 1024" for q j
  proof -
    have "page_aligned q" "q \<noteq> child" using that(1) c by (auto simp: allocated_def)
    then show ?thesis using k(4) [of q j] that forkingD(3) [OF F] by simp
  qed
  moreover have "pt_get (pt_set child i ?e t) child j = (if j = i then ?e else pt_get t child j)" if "j < 1024" for j
    using k(4) that space_okD(4) [OF sp] by simp
  ultimately show "forking base f0 s0 child (K(i := ?e)) f (pt_set child i ?e t)"
    using F k(1,3) unfolding forking_def by auto
  show "user_view child (pt_set child i ?e t) = user_view child t" using k(2) by simp
  show "pt_get (pt_set child i ?e t) child j = pt_get t child j" if "j < 1024" "j \<noteq> i" for j
    using k(4) that space_okD(4) [OF sp] by simp
qed

lemma empty_directory:
  assumes "phys_ok base f s" "allocated base f s pd" "\<And>j. j < 1024 \<Longrightarrow> pt_get s pd j = 0"
  shows "space_ok base f s pd" "own s pd = {pd}" "user_view pd s va = 0"
proof -
  have al: "page_aligned pd" using assms(2) by (simp add: allocated_def)
  have walk: "mmu_walk (mem s) pd va = None" for va using assms(3) by (simp add: mmu_walk_pt_get [OF al] Let_def)
  show "space_ok base f s pd" using assms walk by (simp add: space_ok_def tables_ok_def)
  show "own s pd = {pd}" using assms(3) walk unfolding own_def by auto
  show "user_view pd s va = 0" using walk by (simp add: view_unmapped)
qed

lemma fork_start:
  assumes ok: "phys_ok base f s" and room: "0 < frames_left f s"
  obtains child s1 f1 where "alloc_frame s = Some (child, s1)" "forking base f s child (\<lambda>_. 0) f1 s1"
    "\<forall>j < 1024. pt_get s1 child j = 0" "\<forall>va. user_view child s1 va = 0" "Suc (frames_left f1 s1) = frames_left f s"
proof -
  obtain child s1 f1 where a: "alloc_frame s = Some (child, s1)" "phys_ok base f1 s1" "page_aligned child"
      "\<not> allocated base f s child" "\<forall>q. allocated base f1 s1 q \<longleftrightarrow> allocated base f s q \<or> q = child"
      "Suc (frames_left f1 s1) = frames_left f s"
      "\<forall>q j. page_aligned q \<longrightarrow> j < 1024 \<longrightarrow> pt_get s1 q j = (if q = child then 0 else pt_get s q j)"
    using room by (auto elim: alloc_entry [OF ok])
  have z: "pt_get s1 child j = 0" if "j < 1024" for j using that a(3,7) by simp
  have c: "allocated base f1 s1 child" using a(5) by simp
  note e = empty_directory [OF a(2) c z]
  have "pt_get s1 q j = pt_get s q j" if "allocated base f s q" "j < 1024" for q j
    using that a(4,7) by (auto simp: allocated_def)
  then have "forking base f s child (\<lambda>_. 0) f1 s1"
    unfolding forking_def using e(1,2) a(4,5) z by auto
  then show thesis using that a(1,6) z e(3) by blast
qed

lemma fork_kernel_ok:
  assumes F: "forking base f0 s0 child (\<lambda>_. 0) f t" and parent: "space_ok base f0 s0 parent" and n: "n \<le> 512"
    and z: "\<forall>j < 1024. pt_get t child j = 0"
  defines "K \<equiv> \<lambda>j. if j < n \<and> present (pt_get s0 parent j) then pt_get s0 parent j else 0"
  shows "\<exists>t'. for_loop 0 n (\<lambda>pdi s. Some (if present (pt_get s parent pdi) then pt_set child pdi (pt_get s parent pdi) s else s)) t = Some t' \<and>
    forking base f0 s0 child K f t' \<and> user_view child t' = user_view child t \<and>
    (\<forall>j < 1024. 512 \<le> j \<longrightarrow> j < 960 \<longrightarrow> pt_get t' child j = 0) \<and> frames_left f t' = frames_left f t"
proof -
  define L where "L m j = (if j < m \<and> present (pt_get s0 parent j) then pt_get s0 parent j else 0)" for m j
  define I where "I m u \<longleftrightarrow> forking base f0 s0 child (L m) f u \<and> user_view child u = user_view child t \<and>
     (\<forall>j < 1024. 512 \<le> j \<longrightarrow> j < 960 \<longrightarrow> pt_get u child j = 0) \<and> frames_left f u = frames_left f t" for m u
  let ?body = "\<lambda>pdi s. Some (if present (pt_get s parent pdi) then pt_set child pdi (pt_get s parent pdi) s else s)"
  have L0: "L 0 = (\<lambda>_. 0)" by (simp add: L_def fun_eq_iff)
  have "\<exists>u. for_loop 0 n ?body t = Some u \<and> I (0 + n) u"
  proof (rule for_loop_total)
    show "I 0 t" using F z by (simp add: I_def L0)
    fix m u assume m: "0 \<le> m" "m < 0 + n" and I: "I m u"
    have m': "m < 1024" "m < 512 \<or> 960 \<le> m" using m n by auto
    have Fm: "forking base f0 s0 child (L m) f u" using I by (simp add: I_def)
    have e: "pt_get u parent m = pt_get s0 parent m" by (rule forkingD(3) [OF Fm space_okD(3) [OF parent] m'(1)])
    have "I (Suc m) (if present (pt_get u parent m) then pt_set child m (pt_get u parent m) u else u)"
    proof (cases "present (pt_get s0 parent m)")
      case True
      have "\<forall>j < 1024. L m j = 0 \<or> L m j = pt_get s0 parent j" by (simp add: L_def)
      note fe = forking_entry [OF Fm parent this m']
      have "(L m)(m := pt_get s0 parent m) = L (Suc m)" using True by (auto simp: L_def fun_eq_iff less_Suc_eq)
      then show ?thesis using fe I True m n by (auto simp: I_def e)
    next
      case False
      have "L (Suc m) = L m" using False by (auto simp: L_def fun_eq_iff less_Suc_eq)
      then show ?thesis using I False by (simp add: I_def e)
    qed
    then show "\<exists>u'. ?body m u = Some u' \<and> I (Suc m) u'" by blast
  qed
  moreover have "L n = K" by (simp add: L_def K_def fun_eq_iff)
  ultimately show ?thesis by (auto simp: I_def)
qed

section \<open>The theorem\<close>

text \<open>The parent does not notice.\<close>

lemma forking_parent:
  assumes F: "forking base f s child K f' s'" and parent: "space_ok base f s parent"
  shows "space_ok base f' s' parent" "user_view parent s' = user_view parent s" "own s' child \<inter> own s' parent = {}"
proof -
  have kept: "pt_get s' q j = pt_get s q j" if "q \<in> own s parent" "j < 1024" for q j
    using forkingD(3) [OF F own_allocated [OF parent that(1)] that(2)] .
  note al = forkingD(2) [OF F] and pk = space_kept [OF parent space_okD(1) [OF forkingD(1) [OF F]]]
  show "space_ok base f' s' parent" by (rule pk(1)) (erule (1) kept, erule al)
  show "user_view parent s' = user_view parent s" by (rule pk(2)) (erule (1) kept, erule al)
  have "own s' parent \<subseteq> own s parent" by (rule pk(3)) (erule (1) kept, erule al)
  then show "own s' child \<inter> own s' parent = {}" using own_allocated [OF parent] forkingD(4) [OF F] by blast
qed

text \<open>The whole copy.\<close>

definition kernel_entries :: "config \<Rightarrow> phys \<Rightarrow> u32 \<Rightarrow> nat \<Rightarrow> u32" where
  "kernel_entries cfg s parent i =
     (if i = 960 \<or> i = pdi_of (ioAPIC cfg) \<or> i < pdi_of (memSize cfg) \<and> present (pt_get s parent i) then pt_get s parent i else 0)"

lemma fork_space_ok:
  assumes parent: "space_ok base f s parent" and room: "length (user_frames s parent) < frames_left f s"
    and cfg: "pdi_of (memSize cfg) \<le> 512" "960 \<le> pdi_of (ioAPIC cfg)"
  obtains child s' f' where "fork_space cfg parent s = Some (child, s')"
    "forking base f s child (kernel_entries cfg s parent) f' s'" "user_view child s' = user_view parent s"
    "frames_left f s = frames_left f' s' + length (user_frames s parent) + 1"
proof -
  have "0 < frames_left f s" using room by simp
  then obtain child s1 f1 where 1: "alloc_frame s = Some (child, s1)" "forking base f s child (\<lambda>_. 0) f1 s1"
      "\<forall>j < 1024. pt_get s1 child j = 0" "\<forall>va. user_view child s1 va = 0" "Suc (frames_left f1 s1) = frames_left f s"
    by (rule fork_start [OF space_okD(1) [OF parent]])
  let ?n = "pdi_of (memSize cfg)" and ?io = "pdi_of (ioAPIC cfg)"
  let ?K = "\<lambda>j. if j < ?n \<and> present (pt_get s parent j) then pt_get s parent j else 0"
  let ?body = "\<lambda>pdi s. Some (if present (pt_get s parent pdi) then pt_set child pdi (pt_get s parent pdi) s else s)"
  obtain s2 where 2: "for_loop 0 ?n ?body s1 = Some s2"
      "forking base f s child ?K f1 s2" "user_view child s2 = user_view child s1"
      "\<forall>j < 1024. 512 \<le> j \<longrightarrow> j < 960 \<longrightarrow> pt_get s2 child j = 0" "frames_left f1 s2 = frames_left f1 s1"
    using fork_kernel_ok [OF 1(2) parent cfg(1) 1(3)] by auto
  have "length (user_frames s parent) \<le> frames_left f1 s2" "\<forall>va. user_view child s2 va = 0" using room 1(4,5) 2(3,5) by auto
  from fork_user_ok [OF 2(2) parent 2(4) this(2,1)] obtain s3 f3 where 3: "for_loop 512 448 (fork_pde parent child) s2 = Some s3"
      "forking base f s child ?K f3 s3" "user_view child s3 = user_view parent s"
      "frames_left f1 s2 = frames_left f3 s3 + length (user_frames s parent)"
    by blast
  have K: "\<forall>j < 1024. ?K j = 0 \<or> ?K j = pt_get s parent j" by simp
  have io: "?io < 1024" "?io < 512 \<or> 960 \<le> ?io" using cfg(2) by simp_all
  let ?s4 = "pt_set child ?io (pt_get s parent ?io) s3"
  note e4 = forking_entry [OF 3(2) parent K io]
  let ?K4 = "?K(?io := pt_get s parent ?io)"
  have K4: "\<forall>j < 1024. ?K4 j = 0 \<or> ?K4 j = pt_get s parent j" by simp
  have i960: "960 < (1024 :: nat)" "960 < (512 :: nat) \<or> 960 \<le> (960 :: nat)" by simp_all
  let ?s5 = "pt_set child 960 (pt_get s parent 960) ?s4"
  note e5 = forking_entry [OF e4(1) parent K4 i960]
  have pal: "allocated base f s parent" by (rule space_okD(3) [OF parent])
  have "pt_get s3 parent ?io = pt_get s parent ?io" "pt_get ?s4 parent 960 = pt_get s parent 960"
    using forkingD(3) [OF 3(2) pal io(1)] forkingD(3) [OF e4(1) pal i960(1)] by simp_all
  then have run: "fork_space cfg parent s = Some (child, ?s5)"
    using 1(1) 2(1) 3(1) by (simp add: fork_space_def pdi_of_div [of "0x1000"])
  have "?K4(960 := pt_get s parent 960) = kernel_entries cfg s parent" by (auto simp: kernel_entries_def fun_eq_iff)
  note F = e5(1) [unfolded this]
  have left: "frames_left f s = frames_left f3 ?s5 + length (user_frames s parent) + 1" using 1(5) 2(5) 3(4) by simp
  have "user_view child ?s5 = user_view parent s" using e5(2) e4(2) 3(3) by simp
  from that [OF run F this left] show thesis .
qed

text \<open>
  C2.  Fork copies the address space.  For a parent with a well-formed address space, when memory ends
  below \<^verbatim>\<open>0x80400000\<close>, the I/O APIC lies at or above \<^verbatim>\<open>0xF0000000\<close>, and enough frames are free, one for
  the directory and one for every user table and user page of the parent, the copy succeeds and uses
  exactly so many frames.  The child then sees in user space byte for byte what
  the parent saw, the parent still sees it too, both spaces are well formed, they share no directory,
  user table or user page, so that no later write of one is seen by the other, and no frame that was in
  use before has been written.  Of the addresses outside user space, exactly three groups are
  translated in the child, and as in the parent: those below \<^verbatim>\<open>memSize\<close> rounded down to 4 MB, the 4 MB
  of the shared page, and the 4 MB of the I/O APIC.  The kernel's map of the 4 MB in which \<^verbatim>\<open>memSize\<close>
  lies, and of everything the parent has above, is missing in the child.
\<close>

theorem fork_copies_memory:
  assumes parent: "space_ok base f s parent" and room: "length (user_frames s parent) < frames_left f s"
    and cfg: "pdi_of (memSize cfg) \<le> 512" "960 \<le> pdi_of (ioAPIC cfg)"
  shows "\<exists>child s' f'. fork_space cfg parent s = Some (child, s') \<and>
    space_ok base f' s' child \<and> space_ok base f' s' parent \<and>
    user_view child s' = user_view parent s \<and> user_view parent s' = user_view parent s \<and>
    own s' child \<inter> own s' parent = {} \<and>
    (\<forall>q j. allocated base f s q \<longrightarrow> j < 1024 \<longrightarrow> pt_get s' q j = pt_get s q j) \<and>
    (\<forall>va. pdi_of va < pdi_of (memSize cfg) \<or> pdi_of va = 960 \<or> pdi_of va = pdi_of (ioAPIC cfg) \<longrightarrow>
       mmu_walk (mem s') child va = mmu_walk (mem s') parent va) \<and>
    (\<forall>va. (pdi_of va < 512 \<or> 960 \<le> pdi_of va) \<and>
       \<not> (pdi_of va < pdi_of (memSize cfg) \<or> pdi_of va = 960 \<or> pdi_of va = pdi_of (ioAPIC cfg)) \<longrightarrow>
       mmu_walk (mem s') child va = None) \<and>
    frames_left f s = frames_left f' s' + length (user_frames s parent) + 1"
proof -
  obtain child s' f' where r: "fork_space cfg parent s = Some (child, s')"
      "forking base f s child (kernel_entries cfg s parent) f' s'" "user_view child s' = user_view parent s"
      "frames_left f s = frames_left f' s' + length (user_frames s parent) + 1"
    by (rule fork_space_ok [OF assms])
  note F = r(2) and p = forking_parent [OF r(2) parent]
  have walk: "mmu_walk (mem s') child va = mmu_walk (mem s') parent va"
    if va: "pdi_of va < pdi_of (memSize cfg) \<or> pdi_of va = 960 \<or> pdi_of va = pdi_of (ioAPIC cfg)" for va
  proof -
    let ?i = "pdi_of va"
    have "?i < 512 \<or> 960 \<le> ?i" using va cfg by auto
    then have "pt_get s' child ?i = kernel_entries cfg s parent ?i" using F unfolding forking_def by auto
    moreover have "pt_get s' parent ?i = pt_get s parent ?i" by (rule forkingD(3) [OF F space_okD(3) [OF parent] pdi_of_less])
    ultimately have "pt_get s' child ?i = pt_get s' parent ?i \<or> \<not> present (pt_get s' child ?i) \<and> \<not> present (pt_get s' parent ?i)"
      using va by (auto simp: kernel_entries_def)
    then show ?thesis
      unfolding mmu_walk_pt_get [OF space_okD(4) [OF p(1)]] mmu_walk_pt_get [OF space_okD(4) [OF forkingD(1) [OF F]]] Let_def by auto
  qed
  have lost: "mmu_walk (mem s') child va = None"
    if va: "pdi_of va < 512 \<or> 960 \<le> pdi_of va" "\<not> (pdi_of va < pdi_of (memSize cfg) \<or> pdi_of va = 960 \<or> pdi_of va = pdi_of (ioAPIC cfg))" for va
  proof -
    have "pt_get s' child (pdi_of va) = kernel_entries cfg s parent (pdi_of va)" using F va(1) unfolding forking_def by auto
    then have "\<not> present (pt_get s' child (pdi_of va))" using va(2) by (simp add: kernel_entries_def)
    then show ?thesis unfolding mmu_walk_pt_get [OF space_okD(4) [OF forkingD(1) [OF F]]] Let_def by simp
  qed
  have "\<forall>q j. allocated base f s q \<longrightarrow> j < 1024 \<longrightarrow> pt_get s' q j = pt_get s q j" using forkingD(3) [OF F] by blast
  then show ?thesis
    using r(1,3,4) forkingD(1) [OF F] p walk lost by (intro exI [of _ child] exI [of _ s'] exI [of _ f']) blast
qed

section \<open>A witness\<close>

lemma ex_page_frames_list: "user_frames (ex_page ws) 0x600000 = [0x602000, 0x601000]"
proof -
  have "filter (\<lambda>i. present (pt_get (ex_page ws) 0x601000 i)) [0..<1024] = filter (\<lambda>i. i = 1023) [0..<1024]"
    by (rule filter_cong) (auto simp: ex_page_frames present_def)
  also have "\<dots> = [1023]" by (rule filter_eq_upt) simp
  finally have "table_frames (ex_page ws) 0x601000 = [0x602000]"
    by (simp add: table_frames_def ex_page_frames frame_of_def)
  then have "pde_frames (ex_page ws) 0x600000 959 = [0x602000, 0x601000]"
    by (simp add: pde_frames_def ex_page_frames present_def frame_of_def)
  moreover have "concat (map (pde_frames (ex_page ws) 0x600000) [512..<959]) = []"
    by (rule concat_map_upt_nil) (simp add: pde_frames_def ex_page_frames)
  moreover have "[512..<960] = [512..<959] @ [959]" using upt_Suc_append [of 512 959] by simp
  ultimately show ?thesis by (simp only: user_frames_def map_append concat_append list.map concat.simps append_Nil append_Nil2)
qed

lemma fork_copies_memory_witness:
  "\<exists>child s'. fork_space \<lparr>memSize = 0x8000000, localAPIC = 0xFEE00000, ioAPIC = 0xFEC00000\<rparr> 0x600000 (ex_page [7]) = Some (child, s') \<and>
     user_view child s' 0xEFFFF000 = 7 \<and> own s' child \<inter> own s' 0x600000 = {}"
proof -
  let ?cfg = "\<lparr>memSize = 0x8000000, localAPIC = 0xFEE00000, ioAPIC = 0xFEC00000\<rparr>"
  have "length (user_frames (ex_page [7]) 0x600000) < frames_left [] (ex_page [7])"
    unfolding ex_page_frames_list by (simp add: frames_left_def ex_page_def)
  then obtain child s' where c: "fork_space ?cfg 0x600000 (ex_page [7]) = Some (child, s')"
      "user_view child s' = user_view 0x600000 (ex_page [7])" "own s' child \<inter> own s' 0x600000 = {}"
    using fork_copies_memory [OF ex_page_ok, of "[7]" ?cfg] by (auto simp: pdi_of_div)
  have "user_view 0x600000 (ex_page [7]) 0xEFFFF000 = 7" using ex_page_view [of 0 "[7]"] by (simp add: word_byte_def)
  then show ?thesis using c by auto
qed

end
