(* ===== verification/Process_Life.thy ===== *)
theory Process_Life
  imports Signals
begin

text \<open>
  Parents and children: the stack of children a process keeps (\<^verbatim>\<open>kernel/pcb.h\<close>), \<^verbatim>\<open>exit\<close>, and
  \<^verbatim>\<open>join\<close> (\<^verbatim>\<open>kernel/sys.cc\<close>), which waits on the semaphore of the youngest child for the
  value it exits with.
\<close>

section \<open>The stack of children\<close>

definition children_ok :: "PCB \<Rightarrow> bool" where
  "children_ok p \<longleftrightarrow> length (children p) = unat (capacity p) \<and> child_count p \<le> capacity p \<and> 0 < capacity p"

definition kids :: "PCB \<Rightarrow> ptr list" where
  "kids p = take (unat (child_count p)) (children p)"

lemma kids_length: "children_ok p \<Longrightarrow> length (kids p) = unat (child_count p)"
  by (simp add: children_ok_def kids_def word_le_nat_alt)

lemma resize_ok:
  assumes "children_ok p" "capacity p < 0x80000000"
  shows "children_ok (resize p)" "kids (resize p) = kids p" "child_count (resize p) = child_count p"
    "unat (capacity (resize p)) = 2 * unat (capacity p)"
proof -
  have "push_bit 1 (capacity p) = 2 * capacity p" by (simp add: push_bit_eq_mult mult.commute)
  moreover have "unat (2 * capacity p) = 2 * unat (capacity p)"
    using assms(2) by (simp add: unat_word_ariths word_less_nat_alt)
  ultimately have c: "unat (push_bit 1 (capacity p)) = 2 * unat (capacity p)" by (simp only:)
  then show cap: "unat (capacity (resize p)) = 2 * unat (capacity p)" by (simp add: resize_def Let_def)
  show cnt: "child_count (resize p) = child_count p" by (simp add: resize_def Let_def)
  have len: "length (children (resize p)) = unat (capacity (resize p))" by (simp add: resize_def Let_def)
  show "children_ok (resize p)"
    using assms len cap by (auto simp: children_ok_def cnt word_le_nat_alt word_less_nat_alt)
  have ch: "children (resize p) = map (\<lambda>i. if i < unat (capacity p) then children p ! i else 0) [0..<unat (push_bit 1 (capacity p))]"
    by (simp add: resize_def Let_def)
  show "kids (resize p) = kids p"
    using assms(1) c by (intro nth_equalityI)
      (auto simp: kids_def cnt ch children_ok_def word_le_nat_alt)
qed

lemma add_child_ok:
  assumes "children_ok p" "child_count p < 0x80000000"
  shows "children_ok (add_child c p)" "kids (add_child c p) = kids p @ [c]"
proof -
  let ?q = "if child_count p = capacity p then resize p else p"
  have q: "children_ok ?q" "kids ?q = kids p" "child_count ?q = child_count p" "child_count p < capacity ?q"
    using assms resize_ok [OF assms(1)]
    by (auto simp: children_ok_def word_less_nat_alt word_le_nat_alt word_unat_eq_iff)
  have n: "unat (child_count p + 1) = Suc (unat (child_count p))"
    using assms(2) unat_add_no_wrap [of "child_count p" 1] by (simp add: word_less_nat_alt)
  have a: "add_child c p = ?q\<lparr>children := (children ?q)[unat (child_count p) := c], child_count := child_count p + 1\<rparr>"
    using q(3) by (simp add: add_child_def Let_def del: if_split split del: if_split)
  have lt: "unat (child_count p) < length (children ?q)"
    using q(1,4) by (simp add: children_ok_def word_less_nat_alt split del: if_split)
  show "children_ok (add_child c p)"
    using q(1,4) n unfolding a by (simp add: children_ok_def word_less_nat_alt word_le_nat_alt split del: if_split)
  have "kids (add_child c p) = take (unat (child_count p)) (children ?q) @ [c]"
    unfolding a using n lt by (simp add: kids_def take_Suc_conv_app_nth split del: if_split)
  also have "take (unat (child_count p)) (children ?q) = kids p" using q(2,3) by (simp add: kids_def split del: if_split)
  finally show "kids (add_child c p) = kids p @ [c]" .
qed

lemma pop_child_ok:
  assumes "children_ok p" "kids p = older @ [c]"
  obtains p' where "is_empty p = False" "peek_child p = c" "remove_child p = Some (c, p')" "children_ok p'" "kids p' = older"
    "p' = p\<lparr>child_count := child_count p - 1\<rparr>"
proof -
  have len: "unat (child_count p) = Suc (length older)" using kids_length [OF assms(1)] assms(2) by simp
  then have nz: "child_count p \<noteq> 0" by auto
  then have n: "unat (child_count p - 1) = length older" using len by (simp add: unat_minus_one)
  have "length (kids p) \<le> length (children p)" by (simp add: kids_def)
  then have lt: "length older < length (children p)" using assms(2) by simp
  have "kids p ! length older = children p ! length older" using len by (simp add: kids_def)
  then have "children p ! length older = c" using assms(2) by simp
  moreover have "take (length older) (children p) = take (length older) (kids p)" using len by (simp add: kids_def)
  then have "take (length older) (children p) = older" using assms(2) by simp
  moreover have "child_count p - 1 \<le> capacity p" using assms(1) n len by (simp add: children_ok_def word_le_nat_alt)
  ultimately show thesis
    using that [of "p\<lparr>child_count := child_count p - 1\<rparr>"] assms(1) nz n lt
    by (simp add: is_empty_def peek_child_def remove_child_def children_ok_def kids_def)
qed

section \<open>Exit and join\<close>

abbreviation returning :: "u32 \<Rightarrow> UserContext \<Rightarrow> UserContext" where
  "returning v uc \<equiv> uc\<lparr>regs := (regs uc)\<lparr>eax := v\<rparr>\<rparr>"

lemma exit_ok:
  assumes "phys_ok base fr (pm_of k)" "user_space_ok base fr (pm_of k) (getCR3 k AND 0xFFFFF000)"
    and "mine k = Some pcb" "sem_up (exit_sem pcb, ready_queue k) = Some (sem, rq)"
  shows "\<exists>k'. exit v k = Stop (Loop k') \<and> ready_queue k' = rq \<and>
    pcbs k' = (pcbs k)(active k \<mapsto> pcb\<lparr>exit_value := v, exit_sem := sem\<rparr>) \<and>
    phys_ok base (rev (user_frames (pm_of k) (getCR3 k AND 0xFFFFF000)) @ fr) (pm_of k')"
proof -
  obtain s where "VMM_free (getCR3 k AND 0xFFFFF000) (pm_of k) = Some s"
      "phys_ok base (rev (user_frames (pm_of k) (getCR3 k AND 0xFFFFF000)) @ fr) s"
    using VMM_free_ok [OF assms(1,2)] by blast
  then show ?thesis using assms(3,4) by (simp add: exit_def event_loop_def)
qed

lemma join_ok:
  assumes "mine k = Some pcb" "children_ok pcb" "kids pcb = older @ [c]" "c \<noteq> 0" "c \<noteq> active k" "pcbs k c = Some child"
    and "sem_down (JoinEv c (active k)) (exit_sem child, ready_queue k) = (sem, rq)"
  shows "\<exists>k'. sys_join uc k = Stop (Loop k') \<and> ready_queue k' = rq \<and>
    pcbs k' = (pcbs k)(active k \<mapsto> pcb\<lparr>user_context := uc\<rparr>, c \<mapsto> child\<lparr>exit_sem := sem\<rparr>)"
proof -
  have "is_empty (pcb\<lparr>user_context := uc\<rparr>) = False" "peek_child (pcb\<lparr>user_context := uc\<rparr>) = c"
    using pop_child_ok [OF assms(2,3)] by (auto simp: is_empty_def peek_child_def)
  then show ?thesis using assms by (simp add: sys_join_def Let_def event_loop_def)
qed

lemma join_event_ok:
  assumes "pcbs k c = Some child" "sem_up (exit_sem child, ready_queue k) = Some (sem, rq)" "c \<noteq> p"
    and "pcbs k p = Some pcb" "children_ok pcb" "kids pcb = older @ [c]"
  shows "\<exists>k' pcb'. run_event (JoinEv c p) k = Stop (Resume (returning (exit_value child) (user_context pcb)) k') \<and>
    active k' = p \<and> mine k' = Some pcb' \<and> children_ok pcb' \<and> kids pcb' = older"
proof -
  obtain pcb1 where "remove_child pcb = Some (c, pcb1)" "children_ok pcb1" "kids pcb1 = older"
      "pcb1 = pcb\<lparr>child_count := child_count pcb - 1\<rparr>"
    by (rule pop_child_ok [OF assms(5,6)])
  then show ?thesis
    using assms(1-4) by (simp add: resume_with_def Let_def mine_def vmm_on_def children_ok_def kids_def)
qed

section \<open>Properties\<close>

text \<open>The child is unborn to its parent: nobody has waited for it and it has not ended.\<close>

definition running_child :: "PCB \<Rightarrow> bool" where
  "running_child child \<longleftrightarrow> exit_sem child = Semaphore_new 0"

lemma fresh_sem:
  "sem_up (Semaphore_new 0, rq) = Some (\<lparr>sem_count = 1, waiting = []\<rparr>, rq)"
  "sem_down e (Semaphore_new 0, rq) = (\<lparr>sem_count = 0, waiting = [e]\<rparr>, rq)"
  "sem_up (\<lparr>sem_count = 0, waiting = [e]\<rparr>, rq) = Some (\<lparr>sem_count = 0, waiting = []\<rparr>, rq @ [e])"
  "sem_down e (\<lparr>sem_count = 1, waiting = []\<rparr>, rq) = (\<lparr>sem_count = 0, waiting = []\<rparr>, rq @ [e])"
  "sem_up (\<lparr>sem_count = 0, waiting = []\<rparr>, rq) = Some (\<lparr>sem_count = 1, waiting = []\<rparr>, rq)"
  by (simp_all add: sem_up_def sem_down_eq Semaphore_new_def)

lemma join_event_fresh:
  assumes "pcbs k c = Some child" "exit_sem child = \<lparr>sem_count = 0, waiting = []\<rparr>" "exit_value child = v" "c \<noteq> p"
    and "pcbs k p = Some (pcb\<lparr>user_context := uc\<rparr>)" "children_ok pcb" "kids pcb = older @ [c]"
  shows "\<exists>k' pcb'. run_event (JoinEv c p) k = Stop (Resume (returning v uc) k') \<and>
    active k' = p \<and> mine k' = Some pcb' \<and> children_ok pcb' \<and> kids pcb' = older"
proof -
  let ?pcb = "pcb\<lparr>user_context := uc\<rparr>"
  have "children_ok ?pcb" "kids ?pcb = older @ [c]" using assms(6,7) by (simp_all add: children_ok_def kids_def)
  from join_event_ok [OF assms(1) _ assms(4,5) this] show ?thesis
    using assms(2,3) fresh_sem(5) [of "ready_queue k"] by simp
qed

text \<open>
  C11.  Join before exit.  A parent that joins waits: it is nowhere in the ready queue.  When its
  youngest child, whatever it did since then, ends with the value \<open>v\<close>, the address space of the child
  is freed and exactly one event joins the ready queue; that event resumes the parent behind its
  call with \<open>v\<close> as the result, and takes the child, and no other, off the parent's stack.
\<close>

theorem join_waits_for_exit:
  assumes "mine k = Some pcb" "children_ok pcb" "kids pcb = older @ [c]" "c \<noteq> 0" "c \<noteq> active k"
    and "pcbs k c = Some child" "running_child child"
  shows "\<exists>k1 child1. sys_join uc k = Stop (Loop k1) \<and> ready_queue k1 = ready_queue k \<and> pcbs k1 c = Some child1 \<and>
    (\<forall>k2 child2 base fr v. active k2 = c \<and> mine k2 = Some child2 \<and> exit_sem child2 = exit_sem child1 \<and>
        phys_ok base fr (pm_of k2) \<and> user_space_ok base fr (pm_of k2) (getCR3 k2 AND 0xFFFFF000) \<longrightarrow>
      (\<exists>k3. exit v k2 = (Stop (Loop k3) :: u32 code) \<and> ready_queue k3 = ready_queue k2 @ [JoinEv c (active k)] \<and>
        phys_ok base (rev (user_frames (pm_of k2) (getCR3 k2 AND 0xFFFFF000)) @ fr) (pm_of k3) \<and>
        (\<forall>k4. pcbs k4 c = pcbs k3 c \<and> pcbs k4 (active k) = pcbs k1 (active k) \<longrightarrow>
          (\<exists>k5 pcb5. run_event (JoinEv c (active k)) k4 = Stop (Resume (returning v uc) k5) \<and> active k5 = active k \<and>
            mine k5 = Some pcb5 \<and> children_ok pcb5 \<and> kids pcb5 = older))))"
proof -
  let ?p = "active k"
  let ?child1 = "child\<lparr>exit_sem := \<lparr>sem_count = 0, waiting = [JoinEv c ?p]\<rparr>\<rparr>"
  obtain k1 where k1: "sys_join uc k = Stop (Loop k1)" "ready_queue k1 = ready_queue k"
      "pcbs k1 = (pcbs k)(?p \<mapsto> pcb\<lparr>user_context := uc\<rparr>, c \<mapsto> ?child1)"
    using join_ok [OF assms(1-6)] assms(7) fresh_sem(2) [of "JoinEv c ?p" "ready_queue k"] by (auto simp: running_child_def)
  have "\<exists>k3. exit v k2 = (Stop (Loop k3) :: u32 code) \<and> ready_queue k3 = ready_queue k2 @ [JoinEv c ?p] \<and>
        phys_ok base (rev (user_frames (pm_of k2) (getCR3 k2 AND 0xFFFFF000)) @ fr) (pm_of k3) \<and>
        (\<forall>k4. pcbs k4 c = pcbs k3 c \<and> pcbs k4 ?p = pcbs k1 ?p \<longrightarrow>
          (\<exists>k5 pcb5. run_event (JoinEv c ?p) k4 = Stop (Resume (returning v uc) k5) \<and> active k5 = ?p \<and>
            mine k5 = Some pcb5 \<and> children_ok pcb5 \<and> kids pcb5 = older))"
    if h: "active k2 = c" "mine k2 = Some child2" "exit_sem child2 = exit_sem ?child1" "phys_ok base fr (pm_of k2)"
      "user_space_ok base fr (pm_of k2) (getCR3 k2 AND 0xFFFFF000)" for k2 child2 base fr v
  proof -
    let ?child3 = "child2\<lparr>exit_value := v, exit_sem := \<lparr>sem_count = 0, waiting = []\<rparr>\<rparr>"
    obtain k3 where k3: "exit v k2 = (Stop (Loop k3) :: u32 code)" "ready_queue k3 = ready_queue k2 @ [JoinEv c ?p]"
        "pcbs k3 c = Some ?child3" "phys_ok base (rev (user_frames (pm_of k2) (getCR3 k2 AND 0xFFFFF000)) @ fr) (pm_of k3)"
      using exit_ok [where 'a = u32, OF h(4,5,2), of _ _ v] h(1,3) fresh_sem(3) [of "JoinEv c ?p"] by auto
    have "\<exists>k5 pcb5. run_event (JoinEv c ?p) k4 = Stop (Resume (returning v uc) k5) \<and> active k5 = ?p \<and>
            mine k5 = Some pcb5 \<and> children_ok pcb5 \<and> kids pcb5 = older"
      if k4: "pcbs k4 c = pcbs k3 c" "pcbs k4 ?p = pcbs k1 ?p" for k4
      by (rule join_event_fresh [of k4 c ?child3 v ?p uc pcb]) (use k4 k1(3) k3(3) assms(2,3,5) in simp_all)
    then show ?thesis using k3(1,2,4) by blast
  qed
  then show ?thesis using k1 by (intro exI [of _ k1] exI [of _ ?child1]) simp
qed

text \<open>
  C12.  Exit before join.  A child that ends while nobody waits leaves the ready queue alone and keeps
  its value; a later join by its parent puts one event into the ready queue at once, and that event
  resumes the parent with the value the child ended with.
\<close>

theorem exit_waits_for_join:
  assumes "mine k2 = Some child2" "active k2 = c" "running_child child2" "phys_ok base fr (pm_of k2)"
    and "user_space_ok base fr (pm_of k2) (getCR3 k2 AND 0xFFFFF000)"
  shows "\<exists>k3. exit v k2 = (Stop (Loop k3) :: u32 code) \<and> ready_queue k3 = ready_queue k2 \<and>
    (\<forall>k pcb older uc. mine k = Some pcb \<and> children_ok pcb \<and> kids pcb = older @ [c] \<and> c \<noteq> 0 \<and> c \<noteq> active k \<and>
        pcbs k c = pcbs k3 c \<longrightarrow>
      (\<exists>k1. sys_join uc k = Stop (Loop k1) \<and> ready_queue k1 = ready_queue k @ [JoinEv c (active k)] \<and>
        (\<forall>k4. pcbs k4 c = pcbs k1 c \<and> pcbs k4 (active k) = pcbs k1 (active k) \<longrightarrow>
          (\<exists>k5 pcb5. run_event (JoinEv c (active k)) k4 = Stop (Resume (returning v uc) k5) \<and> active k5 = active k \<and>
            mine k5 = Some pcb5 \<and> children_ok pcb5 \<and> kids pcb5 = older))))"
proof -
  let ?child3 = "child2\<lparr>exit_value := v, exit_sem := \<lparr>sem_count = 1, waiting = []\<rparr>\<rparr>"
  obtain k3 where k3: "exit v k2 = (Stop (Loop k3) :: u32 code)" "ready_queue k3 = ready_queue k2" "pcbs k3 c = Some ?child3"
    using exit_ok [where 'a = u32, OF assms(4,5,1), of _ _ v] assms(2,3) fresh_sem(1) [of "ready_queue k2"] by (auto simp: running_child_def)
  have "\<exists>k1. sys_join uc k = Stop (Loop k1) \<and> ready_queue k1 = ready_queue k @ [JoinEv c (active k)] \<and>
        (\<forall>k4. pcbs k4 c = pcbs k1 c \<and> pcbs k4 (active k) = pcbs k1 (active k) \<longrightarrow>
          (\<exists>k5 pcb5. run_event (JoinEv c (active k)) k4 = Stop (Resume (returning v uc) k5) \<and> active k5 = active k \<and>
            mine k5 = Some pcb5 \<and> children_ok pcb5 \<and> kids pcb5 = older))"
    if h: "mine k = Some pcb" "children_ok pcb" "kids pcb = older @ [c]" "c \<noteq> 0" "c \<noteq> active k" "pcbs k c = pcbs k3 c"
    for k pcb older uc
  proof -
    let ?child1 = "?child3\<lparr>exit_sem := \<lparr>sem_count = 0, waiting = []\<rparr>\<rparr>"
    obtain k1 where k1: "sys_join uc k = Stop (Loop k1)" "ready_queue k1 = ready_queue k @ [JoinEv c (active k)]"
        "pcbs k1 = (pcbs k)(active k \<mapsto> pcb\<lparr>user_context := uc\<rparr>, c \<mapsto> ?child1)"
      using join_ok [OF h(1-5) h(6) [unfolded k3(3)]] fresh_sem(4) [of "JoinEv c (active k)" "ready_queue k"] by auto
    have "\<exists>k5 pcb5. run_event (JoinEv c (active k)) k4 = Stop (Resume (returning v uc) k5) \<and> active k5 = active k \<and>
            mine k5 = Some pcb5 \<and> children_ok pcb5 \<and> kids pcb5 = older"
      if k4: "pcbs k4 c = pcbs k1 c" "pcbs k4 (active k) = pcbs k1 (active k)" for k4
      by (rule join_event_fresh [of k4 c ?child1 v "active k" uc pcb]) (use k4 k1(3) h(2,3,5) in simp_all)
    then show ?thesis using k1(1,2) by blast
  qed
  then show ?thesis using k3(1,2) by blast
qed

section \<open>Witnesses\<close>

text \<open>A parent at 0x1000 and its child at 0x4000; on another core the child runs.\<close>

definition ex_parent :: PCB where
  "ex_parent = add_child 0x4000 (PCB_new 0x605000)"

definition ex_family :: kernel where
  "ex_family = (ex_kernel [] ex_parent Map.empty)\<lparr>pcbs := [0x1000 \<mapsto> ex_parent, 0x4000 \<mapsto> PCB_new 0x600000]\<rparr>"

definition ex_child_core :: "PCB store \<Rightarrow> kernel" where
  "ex_child_core ps = ex_family\<lparr>pcbs := ps, active := 0x4000, vmm := (vmm ex_family)\<lparr>pm := ex_user\<rparr>\<rparr>"

lemma ex_parent_kids: "children_ok ex_parent" "kids ex_parent = [] @ [0x4000]"
proof -
  have "children_ok (PCB_new 0x605000)" "kids (PCB_new 0x605000) = []" by (simp_all add: children_ok_def kids_def PCB_new_def)
  then show "children_ok ex_parent" "kids ex_parent = [] @ [0x4000]"
    using add_child_ok [of "PCB_new 0x605000" "0x4000"] unfolding ex_parent_def by (simp_all add: PCB_new_def)
qed

lemma ex_family_state:
  "mine ex_family = Some ex_parent" "active ex_family = 0x1000" "pcbs ex_family 0x4000 = Some (PCB_new 0x600000)"
  "running_child (PCB_new 0x600000)"
  "active (ex_child_core ps) = 0x4000" "mine (ex_child_core ps) = ps 0x4000"
  "phys_ok 0x600000 [] (pm_of (ex_child_core ps))"
  "user_space_ok 0x600000 [] (pm_of (ex_child_core ps)) (getCR3 (ex_child_core ps) AND 0xFFFFF000)"
  using ex_user_ok by (simp_all add: mine_def ex_family_def ex_child_core_def ex_kernel_def running_child_def PCB_new_def pm_of_def getCR3_def)

lemma join_waits_for_exit_witness:
  "\<exists>k1. sys_join ex_context ex_family = Stop (Loop k1) \<and>
     (\<exists>k3. exit 42 (ex_child_core (pcbs k1)) = (Stop (Loop k3) :: u32 code) \<and>
       ready_queue k3 = ready_queue (ex_child_core (pcbs k1)) @ [JoinEv 0x4000 0x1000])"
proof -
  have "(0x4000 :: ptr) \<noteq> 0" "0x4000 \<noteq> active ex_family" by (simp_all add: ex_family_state)
  from join_waits_for_exit [OF ex_family_state(1) ex_parent_kids this ex_family_state(3,4), of ex_context] show ?thesis
  proof (elim exE conjE, goal_cases)
    case (1 k1 child1)
    then show ?case
      using 1(4) [rule_format, of "ex_child_core (pcbs k1)" child1 "0x600000" "[]" 42] by (auto simp: ex_family_state)
  qed
qed

lemma exit_waits_for_join_witness:
  "\<exists>k3. exit 42 (ex_child_core (pcbs ex_family)) = (Stop (Loop k3) :: u32 code) \<and>
     (\<exists>k1. sys_join ex_context (ex_family\<lparr>pcbs := (pcbs ex_family)(0x4000 := pcbs k3 0x4000)\<rparr>) = Stop (Loop k1) \<and>
       (\<exists>k5. run_event (JoinEv 0x4000 0x1000) k1 = Stop (Resume (returning 42 ex_context) k5)))"
proof -
  have a: "mine (ex_child_core (pcbs ex_family)) = Some (PCB_new 0x600000)" by (simp add: ex_family_state)
  from exit_waits_for_join [OF a ex_family_state(5,4,7,8), of 42] show ?thesis
  proof (elim exE conjE, goal_cases)
    case (1 k3)
    let ?k = "ex_family\<lparr>pcbs := (pcbs ex_family)(0x4000 := pcbs k3 0x4000)\<rparr>"
    have "mine ?k = Some ex_parent \<and> children_ok ex_parent \<and> kids ex_parent = [] @ [0x4000] \<and> (0x4000 :: ptr) \<noteq> 0 \<and>
        0x4000 \<noteq> active ?k \<and> pcbs ?k 0x4000 = pcbs k3 0x4000"
      using ex_family_state(1,2) ex_parent_kids by (simp add: mine_def)
    from 1(3) [rule_format, OF this, of ex_context] show ?case
      using 1(1) ex_family_state(2) by auto
  qed
qed

end
