(* ===== verification/Fork_Call.thy ===== *)
theory Fork_Call
  imports Fork_Space Process_Life
begin

text \<open>
  The system call \<^verbatim>\<open>fork\<close> as a whole (\<^verbatim>\<open>kernel/sys.cc\<close>): the child's process control block, the
  references it takes on the descriptors and semaphores of its parent, and the event that starts it.
\<close>

section \<open>Copying a table of shared pointers\<close>

definition taken :: "ptr list \<Rightarrow> 'a counted store \<Rightarrow> 'a counted store" where
  "taken qs h p = (if p = 0 then h p else map_option (\<lambda>c. c\<lparr>ref_count := ref_count c + of_nat (count_list qs p)\<rparr>) (h p))"

definition live_table :: "ptr list \<Rightarrow> 'a counted store \<Rightarrow> bool" where
  "live_table qs h \<longleftrightarrow> (\<forall>q \<in> set qs. q = 0 \<or> h q \<noteq> None)"

lemma taken_Nil [simp]: "taken [] h = h"
  by (auto simp: taken_def fun_eq_iff option.map_ident_strong)

lemma Shared_assign_take:
  assumes "q = 0 \<or> h q \<noteq> None"
  shows "Shared_assign 0 q h = Some (q, taken [q] h)"
proof (cases "q = 0")
  case True
  then have "taken [q] h = h" by (auto simp: taken_def fun_eq_iff option.map_ident_strong)
  then show ?thesis using True by (simp add: Shared_assign_def)
next
  case False
  then obtain c where "h q = Some c" using assms by auto
  then have "h(q \<mapsto> c\<lparr>ref_count := ref_count c + 1\<rparr>) = taken [q] h"
    using False by (auto simp: taken_def fun_eq_iff option.map_ident_strong)
  then show ?thesis
    using False \<open>h q = Some c\<close> by (simp add: Shared_assign_def Shared_unref_def Shared_ref_def field_upd_def deref_def add_fetch_def)
qed

lemma taken_taken: "taken qs (taken [q] h) = taken (q # qs) h"
  by (auto simp: taken_def fun_eq_iff option.map_comp comp_def add.assoc intro!: option.map_cong)

lemma copy_shared_ok: "live_table qs h \<Longrightarrow> copy_shared (replicate (length qs) Shared_default) qs h = Some (qs, taken qs h)"
proof (induction qs arbitrary: h)
  case (Cons q qs)
  have "live_table qs (taken [q] h)" using Cons.prems by (auto simp: live_table_def taken_def)
  then show ?case
    using Cons.IH Cons.prems by (simp add: Shared_assign_take Shared_default_def taken_taken live_table_def)
qed simp

section \<open>The call\<close>

lemma PCB_new_tables: "semaphores (PCB_new pd) = replicate 100 Shared_default" "file_descriptor (PCB_new pd) = replicate 10 Shared_default"
  by (simp_all add: PCB_new_def)

lemma add_child_fields:
  "semaphores (add_child c p) = semaphores p" "file_descriptor (add_child c p) = file_descriptor p" "queue (add_child c p) = queue p"
  "handler_eip (add_child c p) = handler_eip p" "in_handler (add_child c p) = in_handler p" "cwd_node (add_child c p) = cwd_node p"
  "handler_user_context (add_child c p) = handler_user_context p"
  by (simp_all add: add_child_def resize_def Let_def)

text \<open>What \<^verbatim>\<open>fork\<close> leaves in the child's process control block.\<close>

definition inherits :: "PCB \<Rightarrow> PCB \<Rightarrow> bool" where
  "inherits child pcb \<longleftrightarrow> queue child = queue pcb \<and> file_descriptor child = file_descriptor pcb \<and>
     semaphores child = semaphores pcb \<and> cwd_node child = cwd_node pcb \<and> handler_eip child = handler_eip pcb \<and>
     in_handler child = in_handler pcb \<and> handler_user_context child = handler_user_context pcb \<and>
     running_child child \<and> kids child = [] \<and> children_ok child \<and> \<not> killed child \<and> \<not> handled child"

text \<open>
  C5.  The call \<^verbatim>\<open>fork\<close>.  When the kernel has the memory for it, the call returns 1 in the parent,
  whose memory looks as before and whose youngest child is now the new process.  The child has the
  same regions, descriptors, semaphores, working directory and handler; every descriptor and every
  semaphore has one more reference for each slot of the tables that points to it.  One event joins
  the ready queue, and when it runs, at any time before the child's memory is changed, the child
  starts behind the call with result 0, on a memory that holds what the parent's memory held at the
  time of the call, in frames the two do not share.
\<close>

theorem fork_call:
  assumes m: "mine k = Some pcb" and parent: "space_ok base f (pm_of k) (getCR3 k)"
    and room: "length (user_frames (pm_of k) (getCR3 k)) < frames_left f (pm_of k)"
    and cfg: "pdi_of (memSize (kConfig k)) \<le> 512" "960 \<le> pdi_of (ioAPIC (kConfig k))"
    and new: "heap_new k = c # cs'" "c \<noteq> active k"
    and tables: "length (file_descriptor pcb) = 10" "length (semaphores pcb) = 100"
      "live_table (file_descriptor pcb) (fds k)" "live_table (semaphores pcb) (sems k)"
    and kids: "children_ok pcb" "child_count pcb < 0x80000000" and rs: "regions_ok (queue pcb)"
  shows "\<exists>k' child pd. sys_fork uc k = Done 1 k' \<and> kview k' = kview k \<and>
    pcbs k' = (pcbs k)(active k \<mapsto> add_child c pcb, c \<mapsto> child) \<and> kids (add_child c pcb) = kids pcb @ [c] \<and>
    inherits child pcb \<and> fds k' = taken (file_descriptor pcb) (fds k) \<and> sems k' = taken (semaphores pcb) (sems k) \<and>
    ready_queue k' = ready_queue k @ [ForkEv pd c (eip (iFrame uc)) (esp (iFrame uc))] \<and>
    own (pm_of k') pd \<inter> own (pm_of k') (getCR3 k') = {} \<and>
    (\<forall>k2. user_view pd (pm_of k2) = user_view pd (pm_of k') \<longrightarrow>
      (\<exists>k3. run_event (ForkEv pd c (eip (iFrame uc)) (esp (iFrame uc))) k2 =
         Stop (Enter (eip (iFrame uc)) (esp (iFrame uc)) 0 k3) \<and> active k3 = c \<and> kview k3 = kview k))"
proof -
  have al: "getCR3 k AND 0xFFFFF000 = getCR3 k" using space_okD(4) [OF parent] by (simp add: page_base_aligned)
  obtain pd s' f' where fs: "fork_space (kConfig k) (getCR3 k) (pm_of k) = Some (pd, s')"
      "forking base f (pm_of k) pd (kernel_entries (kConfig k) (pm_of k) (getCR3 k)) f' s'"
      "user_view pd s' = user_view (getCR3 k) (pm_of k)"
    by (rule fork_space_ok [OF parent room cfg])
  note p = forking_parent [OF fs(2) parent]
  let ?cur = "add_child c pcb"
  let ?child = "(PCB_new pd)\<lparr>semaphores := semaphores pcb, queue := queue pcb, handler_eip := handler_eip pcb,
    in_handler := in_handler pcb, handler_user_context := handler_user_context pcb, file_descriptor := file_descriptor pcb,
    cwd_node := cwd_node pcb\<rparr>"
  let ?e = "ForkEv pd c (eip (iFrame uc)) (esp (iFrame uc))"
  let ?k1 = "(set_pm s' k)\<lparr>heap_new := cs'\<rparr>"
  let ?k2 = "(put_pcb c ?child (put_pcb (active k) ?cur ?k1))\<lparr>sems := taken (semaphores pcb) (sems k), fds := taken (file_descriptor pcb) (fds k)\<rparr>"
  have sh: "copy_shared (semaphores (PCB_new pd)) (semaphores pcb) (sems k) = Some (semaphores pcb, taken (semaphores pcb) (sems k))"
      "copy_shared (file_descriptor (PCB_new pd)) (file_descriptor pcb) (fds k) = Some (file_descriptor pcb, taken (file_descriptor pcb) (fds k))"
    using copy_shared_ok [OF tables(3)] copy_shared_ok [OF tables(4)] tables(1,2) by (simp_all add: PCB_new_tables)
  have run: "sys_fork uc k = Done 1 (Processes.go ?e ?k2)"
    using fs(1) al m new sh copy_regions_id [OF rs]
    by (simp add: sys_fork_def new_object_def mine_def Let_def add_child_fields)
  have "inherits ?child pcb"
    by (simp add: inherits_def running_child_def kids_def children_ok_def PCB_new_def)
  moreover have "kview (Processes.go ?e ?k2) = kview k" "pm_of (Processes.go ?e ?k2) = s'" "getCR3 (Processes.go ?e ?k2) = getCR3 k"
    using p(2) by (simp_all add: Processes.go_def kview_def)
  moreover have "\<exists>k3. run_event ?e k4 = Stop (Enter (eip (iFrame uc)) (esp (iFrame uc)) 0 k3) \<and> active k3 = c \<and> kview k3 = kview k"
    if "user_view pd (pm_of k4) = user_view pd s'" for k4
    using that fs(3) by (simp add: kview_def vmm_on_def getCR3_def pm_of_def)
  ultimately show ?thesis
    using run p(3) add_child_ok(2) [OF kids]
    by (intro exI [of _ "Processes.go ?e ?k2"] exI [of _ ?child] exI [of _ pd]) (simp add: Processes.go_def)
qed

text \<open>A process with the terminal as descriptor 1 forks; the stack's first word is 7.\<close>

definition ex_fork_pcb :: PCB where
  "ex_fork_pcb = (PCB_new 0x600000)\<lparr>file_descriptor := [0, 0x5000, 0, 0, 0, 0, 0, 0, 0, 0]\<rparr>"

definition ex_fork_kernel :: kernel where
  "ex_fork_kernel = ex_kernel [7] ex_fork_pcb [0x5000 \<mapsto> \<lparr>cdata = FileDescriptor_flags False True, ref_count = 1\<rparr>]"

lemma fork_call_witness:
  "\<exists>k' child. sys_fork ex_context ex_fork_kernel = Done 1 k' \<and> pcbs k' 0x2000 = Some child \<and> inherits child ex_fork_pcb \<and>
     fds k' 0x5000 = Some \<lparr>cdata = FileDescriptor_flags False True, ref_count = 2\<rparr>"
proof -
  let ?k = ex_fork_kernel and ?p = ex_fork_pcb
  have m: "mine ?k = Some ?p" "getCR3 ?k = 0x600000" unfolding ex_fork_kernel_def by (rule ex_ready(1), rule ex_ready(2))
  have pm: "pm_of ?k = ex_page [7]" by (simp add: pm_of_def ex_fork_kernel_def ex_kernel_def)
  have sp: "space_ok 0x600000 [] (pm_of ?k) (getCR3 ?k)" unfolding pm m(2) by (rule ex_page_ok)
  have room: "length (user_frames (pm_of ?k) (getCR3 ?k)) < frames_left [] (pm_of ?k)"
    unfolding pm m(2) ex_page_frames_list by (simp add: frames_left_def ex_page_def)
  have cfg: "pdi_of (memSize (kConfig ?k)) \<le> 512" "960 \<le> pdi_of (ioAPIC (kConfig ?k))"
    by (simp_all add: ex_fork_kernel_def ex_kernel_def pdi_of_div)
  have new: "heap_new ?k = 0x2000 # [0x3000]" "0x2000 \<noteq> active ?k" by (simp_all add: ex_fork_kernel_def ex_kernel_def)
  have tables: "length (file_descriptor ?p) = 10" "length (semaphores ?p) = 100" "live_table (file_descriptor ?p) (fds ?k)"
      "live_table (semaphores ?p) (sems ?k)"
    by (simp_all add: ex_fork_pcb_def PCB_new_def live_table_def ex_fork_kernel_def ex_kernel_def Shared_default_def)
  have kids: "children_ok ?p" "child_count ?p < 0x80000000" by (simp_all add: ex_fork_pcb_def PCB_new_def children_ok_def)
  have rs: "regions_ok (queue ?p)"
    by (simp add: ex_fork_pcb_def PCB_new_def add_region_def new_region_def insert_at_def regions_ok_def region_ok_def)
  from fork_call [OF m(1) sp room cfg new tables kids rs, of ex_context] show ?thesis
  proof (elim exE conjE, goal_cases)
    case (1 k' child pd)
    have "fds k' 0x5000 = Some \<lparr>cdata = FileDescriptor_flags False True, ref_count = 2\<rparr>"
      unfolding 1(6) by (simp add: taken_def ex_fork_pcb_def ex_fork_kernel_def ex_kernel_def)
    then show ?case using 1(1,3,5) by auto
  qed
qed

end
