(* ===== verification/Kernel_Steps.thy ===== *)
theory Kernel_Steps
  imports Sys_Memory
begin

text \<open>
  The kernel as a whole: any sequence of system calls, page faults, timer interrupts and events on
  any number of cores, with user code running in between.  The invariant says that the tables of
  every process keep their sizes, that every semaphore is in one of its two modes, and that every
  event, waiting in the ready queue or on a semaphore, belongs to a process, and to a pipe, that
  exists.
\<close>

section \<open>The invariant\<close>

fun event_ok :: "ptr set \<Rightarrow> ptr set \<Rightarrow> kevent \<Rightarrow> bool" where
  "event_ok P B (ResumeEv p) \<longleftrightarrow> p \<in> P"
| "event_ok P B (ForkEv pd p ip sp) \<longleftrightarrow> p \<in> P"
| "event_ok P B (ExecEv ip sp p pd) \<longleftrightarrow> p \<in> P"
| "event_ok P B (DownEv p) \<longleftrightarrow> p \<in> P"
| "event_ok P B (PutEv b v p) \<longleftrightarrow> b \<in> B \<and> p \<in> P"
| "event_ok P B (GetEv b p buf) \<longleftrightarrow> b \<in> B \<and> p \<in> P"
| "event_ok P B (JoinEv c p) \<longleftrightarrow> c \<in> P \<and> p \<in> P"

definition sem_good :: "ptr set \<Rightarrow> ptr set \<Rightarrow> kevent semaphore \<Rightarrow> bool" where
  "sem_good P B s \<longleftrightarrow> sem_ok s \<and> (\<forall>e \<in> set (waiting s). event_ok P B e)"

definition pcb_good :: "ptr set \<Rightarrow> ptr set \<Rightarrow> PCB \<Rightarrow> bool" where
  "pcb_good P B p \<longleftrightarrow> length (file_descriptor p) = 10 \<and> length (semaphores p) = 100 \<and>
     length (children p) = unat (capacity p) \<and> sem_good P B (exit_sem p)"

definition stores_good :: "ptr set \<Rightarrow> ptr set \<Rightarrow> kernel \<Rightarrow> bool" where
  "stores_good P B k \<longleftrightarrow> (\<forall>p pcb. pcbs k p = Some pcb \<longrightarrow> pcb_good P B pcb) \<and>
     (\<forall>p c. sems k p = Some c \<longrightarrow> sem_good P B (cdata c)) \<and>
     (\<forall>b pb. pipes k b = Some pb \<longrightarrow> sem_good P B (pipe_full pb) \<and> sem_good P B (pipe_empty pb)) \<and>
     (\<forall>e \<in> set (ready_queue k). event_ok P B e)"

definition kernel_ok :: "kernel \<Rightarrow> bool" where
  "kernel_ok k \<longleftrightarrow> active k \<in> dom (pcbs k) \<and> stores_good (dom (pcbs k)) (dom (pipes k)) k"

section \<open>Semaphores\<close>

lemma event_ok_mono: "event_ok P B e \<Longrightarrow> P \<subseteq> P' \<Longrightarrow> B \<subseteq> B' \<Longrightarrow> event_ok P' B' e"
  by (cases e) auto

lemma sem_good_mono: "sem_good P B s \<Longrightarrow> P \<subseteq> P' \<Longrightarrow> B \<subseteq> B' \<Longrightarrow> sem_good P' B' s"
  by (auto simp: sem_good_def intro: event_ok_mono)

lemma pcb_good_mono: "pcb_good P B p \<Longrightarrow> P \<subseteq> P' \<Longrightarrow> B \<subseteq> B' \<Longrightarrow> pcb_good P' B' p"
  by (auto simp: pcb_good_def intro: sem_good_mono)

lemma sem_good_new [simp]: "sem_good P B (Semaphore_new n)"
  by (simp add: sem_good_def sem_ok_def Semaphore_new_def)

lemma sem_good_up:
  "sem_good P B s \<Longrightarrow> sem_up (s, rq) = Some (s', rq') \<Longrightarrow> \<forall>e \<in> set rq. event_ok P B e \<Longrightarrow>
     sem_good P B s' \<and> (\<forall>e \<in> set rq'. event_ok P B e)"
  by (auto simp: sem_good_def sem_up_def sem_ok_def split: list.splits if_splits)

lemma sem_good_up_runs: "sem_good P B s \<Longrightarrow> sem_up (s, rq) \<noteq> None"
  by (auto simp: sem_good_def sem_up_def sem_ok_def split: list.splits)

lemma sem_good_down:
  "sem_good P B s \<Longrightarrow> sem_down e (s, rq) = (s', rq') \<Longrightarrow> event_ok P B e \<Longrightarrow> \<forall>e \<in> set rq. event_ok P B e \<Longrightarrow>
     sem_good P B s' \<and> (\<forall>e \<in> set rq'. event_ok P B e)"
  by (auto simp: sem_good_def sem_down_eq sem_ok_def word_gt_0 split: if_splits)

section \<open>Changing the state\<close>

lemma kernel_ok_fields [simp]:
  "kernel_ok (set_pm s k) = kernel_ok k" "kernel_ok (k\<lparr>fds := h\<rparr>) = kernel_ok k"
  "kernel_ok (k\<lparr>terminal := tm\<rparr>) = kernel_ok k" "kernel_ok (k\<lparr>heap_new := hn\<rparr>) = kernel_ok k"
  "kernel_ok (k\<lparr>interrupts := i\<rparr>) = kernel_ok k" "kernel_ok (k\<lparr>ticks := ti\<rparr>) = kernel_ok k"
  "kernel_ok (k\<lparr>vmm := v\<rparr>) = kernel_ok k" "kernel_ok (vmm_on pd k) = kernel_ok k"
  by (simp_all add: kernel_ok_def stores_good_def set_pm_def vmm_on_def)

lemma kernel_okD:
  assumes "kernel_ok k"
  shows "active k \<in> dom (pcbs k)" "pcbs k p = Some pcb \<Longrightarrow> pcb_good (dom (pcbs k)) (dom (pipes k)) pcb"
    "mine k = Some pcb \<Longrightarrow> pcb_good (dom (pcbs k)) (dom (pipes k)) pcb"
    "sems k q = Some c \<Longrightarrow> sem_good (dom (pcbs k)) (dom (pipes k)) (cdata c)"
    "pipes k b = Some pb \<Longrightarrow> sem_good (dom (pcbs k)) (dom (pipes k)) (pipe_full pb) \<and> sem_good (dom (pcbs k)) (dom (pipes k)) (pipe_empty pb)"
    "\<forall>e \<in> set (ready_queue k). event_ok (dom (pcbs k)) (dom (pipes k)) e"
  using assms by (auto simp: kernel_ok_def stores_good_def mine_def)

lemma stores_good_mono: "stores_good P B k \<Longrightarrow> P \<subseteq> P' \<Longrightarrow> B \<subseteq> B' \<Longrightarrow> stores_good P' B' k"
  unfolding stores_good_def by (blast intro: pcb_good_mono sem_good_mono event_ok_mono)

lemma ok_put_pcb:
  assumes "kernel_ok k" "pcb_good (insert p (dom (pcbs k))) (dom (pipes k)) pcb"
  shows "kernel_ok (put_pcb p pcb k)"
proof -
  have "stores_good (insert p (dom (pcbs k))) (dom (pipes k)) k"
    using assms(1) by (auto simp: kernel_ok_def intro: stores_good_mono)
  then show ?thesis using assms by (auto simp: kernel_ok_def stores_good_def put_pcb_def)
qed

lemma ok_ready_queue:
  "kernel_ok k \<Longrightarrow> \<forall>e \<in> set rq. event_ok (dom (pcbs k)) (dom (pipes k)) e \<Longrightarrow> kernel_ok (k\<lparr>ready_queue := rq\<rparr>)"
  by (auto simp: kernel_ok_def stores_good_def)

lemma ok_sems:
  "kernel_ok k \<Longrightarrow> \<forall>p c. h p = Some c \<longrightarrow> sem_good (dom (pcbs k)) (dom (pipes k)) (cdata c) \<Longrightarrow> kernel_ok (k\<lparr>sems := h\<rparr>)"
  by (auto simp: kernel_ok_def stores_good_def)

lemma ok_pipe:
  assumes "kernel_ok k" "sem_good (dom (pcbs k)) (insert b (dom (pipes k))) (pipe_full pb)"
    "sem_good (dom (pcbs k)) (insert b (dom (pipes k))) (pipe_empty pb)"
  shows "kernel_ok (k\<lparr>pipes := (pipes k)(b \<mapsto> pb)\<rparr>)"
proof -
  have "stores_good (dom (pcbs k)) (insert b (dom (pipes k))) k"
    using assms(1) by (auto simp: kernel_ok_def intro: stores_good_mono)
  then show ?thesis using assms by (auto simp: kernel_ok_def stores_good_def)
qed

lemma ok_active: "kernel_ok k \<Longrightarrow> pcbs k p \<noteq> None \<Longrightarrow> kernel_ok (k\<lparr>active := p\<rparr>)"
  by (auto simp: kernel_ok_def stores_good_def)

section \<open>Code that keeps the invariant\<close>

text \<open>Wherever the code leaves the kernel, it leaves a good state; \<open>leaves r k\<close> are these states.\<close>

fun leaves :: "'a code \<Rightarrow> kernel \<Rightarrow> bool" where
  "leaves (Done x k') k \<longleftrightarrow> k = k'"
| "leaves (Stop (Loop k')) k \<longleftrightarrow> k = k'"
| "leaves (Stop (Resume uc k')) k \<longleftrightarrow> k = k'"
| "leaves (Stop (Enter ip sp v k')) k \<longleftrightarrow> k = k'"
| "leaves (Stop (Halted k')) k \<longleftrightarrow> False"
| "leaves (Stop Panic) k \<longleftrightarrow> False"
| "leaves (Stop Wild) k \<longleftrightarrow> False"

definition keeps :: "'a code \<Rightarrow> bool" where
  "keeps r \<longleftrightarrow> (\<forall>k. leaves r k \<longrightarrow> kernel_ok k)"

named_theorems keep

lemma keeps_Done [simp]: "keeps (Done x k) \<longleftrightarrow> kernel_ok k"
  by (simp add: keeps_def)

lemma keeps_Stop [simp]:
  "keeps (Stop (Loop k)) \<longleftrightarrow> kernel_ok k" "keeps (Stop (Resume uc k)) \<longleftrightarrow> kernel_ok k"
  "keeps (Stop (Enter ip sp v k)) \<longleftrightarrow> kernel_ok k" "keeps (Stop (Halted k))" "keeps (Stop Panic)" "keeps (Stop Wild)"
  by (simp_all add: keeps_def)

lemma keeps_event_loop [simp]: "keeps (event_loop k) \<longleftrightarrow> kernel_ok k"
  by (simp add: event_loop_def)

lemma keeps_andthen [keep]: "keeps m \<Longrightarrow> (\<And>x k. m = Done x k \<Longrightarrow> kernel_ok k \<Longrightarrow> keeps (f x k)) \<Longrightarrow> keeps (andthen m f)"
proof (cases m)
  case (Stop r)
  assume "keeps m"
  then show ?thesis using Stop by (cases r) simp_all
qed simp

lemma keeps_need [keep]: "(\<And>y. x = Some y \<Longrightarrow> keeps (f y)) \<Longrightarrow> keeps (need Panic x f)"
  "(\<And>y. x = Some y \<Longrightarrow> keeps (f y)) \<Longrightarrow> keeps (need Wild x f)"
  by (simp_all add: need_def split: option.split)

lemma keeps_if [keep]: "(b \<Longrightarrow> keeps m) \<Longrightarrow> (\<not> b \<Longrightarrow> keeps n) \<Longrightarrow> keeps (if b then m else n)"
  by simp

lemma keeps_option [keep]: "(x = None \<Longrightarrow> keeps m) \<Longrightarrow> (\<And>y. x = Some y \<Longrightarrow> keeps (f y)) \<Longrightarrow> keeps (case x of None \<Rightarrow> m | Some y \<Rightarrow> f y)"
  by (cases x) simp_all

lemma keeps_prod [keep]: "(\<And>a b. x = (a, b) \<Longrightarrow> keeps (f a b)) \<Longrightarrow> keeps (case x of (a, b) \<Rightarrow> f a b)"
  by (cases x) simp

lemma keeps_prod_app [keep]: "(\<And>a b. x = (a, b) \<Longrightarrow> keeps (f a b k)) \<Longrightarrow> keeps ((case x of (a, b) \<Rightarrow> f a b) k)"
  by (cases x) simp

text \<open>Changes of a process control block that the invariant does not see.\<close>

lemma pcb_good_fields [simp]:
  "pcb_good P B (p\<lparr>pcb_directory := a1\<rparr>) = pcb_good P B p" "pcb_good P B (p\<lparr>user_context := a2\<rparr>) = pcb_good P B p"
  "pcb_good P B (p\<lparr>exit_value := a3\<rparr>) = pcb_good P B p" "pcb_good P B (p\<lparr>in_handler := a4\<rparr>) = pcb_good P B p"
  "pcb_good P B (p\<lparr>handler_eip := a5\<rparr>) = pcb_good P B p" "pcb_good P B (p\<lparr>handler_user_context := a6\<rparr>) = pcb_good P B p"
  "pcb_good P B (p\<lparr>queue := a7\<rparr>) = pcb_good P B p" "pcb_good P B (p\<lparr>cwd_node := a8\<rparr>) = pcb_good P B p"
  "pcb_good P B (p\<lparr>killed := a9\<rparr>) = pcb_good P B p" "pcb_good P B (p\<lparr>killed_v := a10\<rparr>) = pcb_good P B p"
  "pcb_good P B (p\<lparr>handled := a11\<rparr>) = pcb_good P B p" "pcb_good P B (p\<lparr>child_count := a12\<rparr>) = pcb_good P B p"
  by (simp_all add: pcb_good_def)

lemma ok_step:
  assumes "kernel_ok k" "dom (pcbs k') = dom (pcbs k)" "dom (pipes k') = dom (pipes k)" "active k' \<in> dom (pcbs k)"
    and "\<And>p pcb. pcbs k' p = Some pcb \<Longrightarrow> pcbs k p = Some pcb \<or> pcb_good (dom (pcbs k)) (dom (pipes k)) pcb"
    and "\<And>p c. sems k' p = Some c \<Longrightarrow> sems k p = Some c \<or> sem_good (dom (pcbs k)) (dom (pipes k)) (cdata c)"
    and "\<And>b pb. pipes k' b = Some pb \<Longrightarrow> pipes k b = Some pb \<or>
      sem_good (dom (pcbs k)) (dom (pipes k)) (pipe_full pb) \<and> sem_good (dom (pcbs k)) (dom (pipes k)) (pipe_empty pb)"
    and "\<And>e. e \<in> set (ready_queue k') \<Longrightarrow> e \<in> set (ready_queue k) \<or> event_ok (dom (pcbs k)) (dom (pipes k)) e"
  shows "kernel_ok k'"
proof -
  note old = kernel_okD [OF assms(1)]
  have "\<forall>p pcb. pcbs k' p = Some pcb \<longrightarrow> pcb_good (dom (pcbs k)) (dom (pipes k)) pcb" using old(2) assms(5) by blast
  moreover have "\<forall>p c. sems k' p = Some c \<longrightarrow> sem_good (dom (pcbs k)) (dom (pipes k)) (cdata c)" using old(4) assms(6) by blast
  moreover have "\<forall>b pb. pipes k' b = Some pb \<longrightarrow>
      sem_good (dom (pcbs k)) (dom (pipes k)) (pipe_full pb) \<and> sem_good (dom (pcbs k)) (dom (pipes k)) (pipe_empty pb)"
    using old(5) assms(7) by blast
  moreover have "\<forall>e \<in> set (ready_queue k'). event_ok (dom (pcbs k)) (dom (pipes k)) e" using old(6) assms(8) by blast
  ultimately show ?thesis using assms(2-4) by (simp add: kernel_ok_def stores_good_def)
qed

lemma ok_update: "kernel_ok k \<Longrightarrow> pcbs k p \<noteq> None \<Longrightarrow> pcb_good (dom (pcbs k)) (dom (pipes k)) pcb \<Longrightarrow> kernel_ok (put_pcb p pcb k)"
  by (rule ok_step [of k]) (auto dest: kernel_okD(1) split: if_splits)

lemma ok_same: "kernel_ok k \<Longrightarrow> mine k = Some pcb \<Longrightarrow> (\<And>P B. pcb_good P B pcb' = pcb_good P B pcb) \<Longrightarrow> kernel_ok (put_pcb (active k) pcb' k)"
  by (rule ok_update) (simp_all add: mine_def kernel_okD)

lemma mine_dom: "mine k = Some pcb \<Longrightarrow> \<exists>pcb. pcbs k (active k) = Some pcb"
  by (simp add: mine_def)

lemma keeps_switch_processes [keep]: "kernel_ok k \<Longrightarrow> keeps (switch_processes uc k)"
  unfolding switch_processes_def Let_def
  by (rule keep, simp) (rule ok_step [of k]; auto simp: Processes.go_def mine_def kernel_okD split: if_splits)

lemma keeps_exit [keep]:
  assumes ok: "kernel_ok k"
  shows "keeps (exit v k)"
  unfolding exit_def
proof (intro keep, simp, goal_cases)
  case (1 s pcb x sem rq)
  have g: "pcb_good (dom (pcbs k)) (dom (pipes k)) pcb" using kernel_okD(3) [OF ok] 1 by simp
  have u: "sem_good (dom (pcbs k)) (dom (pipes k)) sem \<and> (\<forall>e \<in> set rq. event_ok (dom (pcbs k)) (dom (pipes k)) e)"
    using sem_good_up [OF _ _ kernel_okD(6) [OF ok]] g 1 by (auto simp: pcb_good_def)
  show ?case
    by (rule ok_step [OF ok]) (use u g mine_dom [OF 1(2)] in \<open>auto simp: pcb_good_def split: if_splits\<close>)
qed

lemma keeps_switch_interrupt [keep]: "kernel_ok k \<Longrightarrow> keeps (switch_interrupt uc v k)"
  by (simp add: switch_interrupt_def keep)

lemma keeps_sigreturn [keep]: "kernel_ok k \<Longrightarrow> keeps (sigreturn k)"
  unfolding sigreturn_def by (intro keep) (auto intro!: keep ok_same)

lemma keeps_fault_exit [keep]: "kernel_ok k \<Longrightarrow> keeps (fault_exit va k)"
  by (simp add: fault_exit_def keep split: option.split)

lemma keeps_bad_access [keep]: "kernel_ok k \<Longrightarrow> keeps (bad_access va k)"
  unfolding bad_access_def by (intro keep) auto

lemma keeps_user_access [keep]: "kernel_ok k \<Longrightarrow> keeps (user_access f k)"
  unfolding user_access_def by (intro keep) (simp add: keep split: run.split fault.split)

lemma keeps_kload8 [keep]: "kernel_ok k \<Longrightarrow> keeps (kload8 va k)"
  by (simp add: kload8_def keep)

lemma keeps_kstore8 [keep]: "kernel_ok k \<Longrightarrow> keeps (kstore8 va b k)"
  by (simp add: kstore8_def keep)

lemma keeps_kload32 [keep]: "kernel_ok k \<Longrightarrow> keeps (kload32 va k)"
  unfolding load32_def by (intro keep) auto

lemma keeps_store_bytes [keep]: "kernel_ok k \<Longrightarrow> keeps (store_bytes kstore8 va bs k)"
  by (induction bs arbitrary: va k) (auto intro: keep)

lemma keeps_kstore32 [keep]: "kernel_ok k \<Longrightarrow> keeps (kstore32 va w k)"
  by (simp add: store32_def keep)

lemma keeps_enter_handler [keep]:
  assumes "kernel_ok k" "mine k = Some pcb"
  shows "keeps (enter_handler uc sig v pcb k)"
  unfolding enter_handler_def Let_def by (intro keep ok_same [OF assms]) simp_all

lemma keeps_vmm_pageFault [keep]: "kernel_ok k \<Longrightarrow> keeps (vmm_pageFault va uc k)"
  unfolding vmm_pageFault_def by (intro keep) simp_all

lemma keeps_apitHandler [keep]:
  assumes "kernel_ok k"
  shows "keeps (apitHandler me uc k)"
proof -
  define k0 where "k0 = (if me = 0 then k\<lparr>ticks := ticks k + 1\<rparr> else k)"
  have ok: "kernel_ok k0" using assms by (simp add: k0_def)
  show ?thesis
    unfolding apitHandler_def Let_def k0_def [symmetric] using ok
    by (intro keep) (simp_all, (intro keep ok_same | simp)+)
qed

section \<open>System calls\<close>

lemma keeps_arg [keep]: "kernel_ok k \<Longrightarrow> keeps (Sys_Calls.arg i uc k)"
  by (simp add: Sys_Calls.arg_def keep)

lemma keeps_load_bytes [keep]: "kernel_ok k \<Longrightarrow> keeps (load_bytes a n k)"
  by (induction n arbitrary: a k) (auto intro!: keep)

lemma keeps_skip_slashes [keep]: "kernel_ok k \<Longrightarrow> keeps (skip_slashes path i k)"
proof (induction path i k rule: skip_slashes.induct)
  case (1 path i k)
  then show ?case by (subst skip_slashes.simps) (auto intro!: keep)
qed

lemma keeps_scan_name [keep]: "kernel_ok k \<Longrightarrow> keeps (scan_name path i k)"
proof (induction path i k rule: scan_name.induct)
  case (1 path i k)
  then show ?case by (subst scan_name.simps) (auto intro!: keep)
qed

lemma keeps_path_step [keep]: "kernel_ok k \<Longrightarrow> keeps (path_step path i fin nd k)"
  unfolding path_step_def by (intro keep) simp_all

lemma keeps_path_end [keep]: "kernel_ok k \<Longrightarrow> keeps (path_end path i node k)"
  by (simp add: path_end_def)

lemma keeps_path_loop [keep]: "kernel_ok k \<Longrightarrow> keeps (path_loop path node i k)"
proof (induction "4294967296 - i" arbitrary: node i k rule: less_induct)
  case less
  have ih: "keeps (path_loop path n (Suc fin) k')" if "i < 4294967296" "i \<le> fin" "kernel_ok k'" for n fin k'
    using less.hyps [of "Suc fin" k' n] that by auto
  show ?case
    using less.prems
    by (subst path_loop.simps) (intro keep; auto dest!: skip_slashes_ge scan_name_ge intro!: ih)
qed

lemma keeps_find_path_node [keep]: "kernel_ok k \<Longrightarrow> keeps (find_path_node path k)"
  unfolding find_path_node_def by (intro keep) simp_all

lemma Shared_unref_data: "Shared_unref p h = Some h' \<Longrightarrow> h' q = Some c \<Longrightarrow> \<exists>c0. h q = Some c0 \<and> cdata c = cdata c0"
  by (auto simp: Shared_unref_def deref_def add_fetch_def Let_def split: if_splits Option.bind_splits)

lemma Shared_ref_data: "Shared_ref p h = Some h' \<Longrightarrow> h' q = Some c \<Longrightarrow> \<exists>c0. h q = Some c0 \<and> cdata c = cdata c0"
  by (auto simp: Shared_ref_def field_upd_def deref_def split: if_splits Option.bind_splits)

lemma Shared_assign_move_data:
  "Shared_assign_move p r h = Some (a, b, h') \<Longrightarrow> h' q = Some c \<Longrightarrow> \<exists>c0. h q = Some c0 \<and> cdata c = cdata c0"
  by (auto simp: Shared_assign_move_def split: if_splits Option.bind_splits dest: Shared_unref_data)

lemma Shared_copy_data: "Shared_copy p h = Some (a, h') \<Longrightarrow> a = p \<and> (h' q = Some c \<longrightarrow> (\<exists>c0. h q = Some c0 \<and> cdata c = cdata c0))"
  by (auto simp: Shared_copy_def split: Option.bind_splits dest: Shared_ref_data)

lemma Shared_assign_data:
  "Shared_assign p r h = Some (a, h') \<Longrightarrow> h' q = Some c \<Longrightarrow> \<exists>c0. h q = Some c0 \<and> cdata c = cdata c0"
  unfolding Shared_assign_def by (fastforce split: if_splits Option.bind_splits dest: Shared_unref_data Shared_ref_data)

lemma copy_shared_data:
  "copy_shared ps qs h = Some (rs, h') \<Longrightarrow> h' q = Some c \<Longrightarrow> \<exists>c0. h q = Some c0 \<and> cdata c = cdata c0"
proof (induction ps qs h arbitrary: rs h' c rule: copy_shared.induct)
  case (1 p ps q' qs h)
  then obtain p' h1 rs' where a: "Shared_assign p q' h = Some (p', h1)" "copy_shared ps qs h1 = Some (rs', h')"
    by (auto split: Option.bind_splits)
  obtain c1 where "h1 q = Some c1" "cdata c = cdata c1" using 1(1) [OF a(1) refl a(2) 1(3)] by auto
  then show ?case using Shared_assign_data [OF a(1)] by fastforce
qed auto

lemma copy_shared_length: "copy_shared ps qs h = Some (rs, h') \<Longrightarrow> length rs = min (length ps) (length qs)"
  by (induction ps qs h arbitrary: rs h' rule: copy_shared.induct) (auto split: Option.bind_splits)

lemma keeps_drop_fd [keep]: "kernel_ok k \<Longrightarrow> keeps (drop_fd p v k)"
  unfolding drop_fd_def by (intro keep) simp

lemma ok_sems_data:
  "kernel_ok k \<Longrightarrow> (\<And>q c. h q = Some c \<Longrightarrow> \<exists>c0. sems k q = Some c0 \<and> cdata c = cdata c0) \<Longrightarrow> kernel_ok (k\<lparr>sems := h\<rparr>)"
  by (rule ok_sems) (metis kernel_okD(4))+

lemma keeps_drop_sem [keep]: "kernel_ok k \<Longrightarrow> keeps (drop_sem p v k)"
  unfolding drop_sem_def Shared_destroy_def by (intro keep) (auto intro!: ok_sems_data dest: Shared_unref_data)

lemma keeps_set_fd [keep]: "kernel_ok k \<Longrightarrow> keeps (set_fd i p v k)"
  unfolding set_fd_def
  by (intro keep) (auto intro!: ok_update simp: mine_def pcb_good_def dest: kernel_okD(2))

lemma keeps_make_fd [keep]: "kernel_ok k \<Longrightarrow> keeps (make_fd i d v k)"
  unfolding make_fd_def by (intro keep) (auto simp: new_object_def split: list.splits)

lemma keeps_set_sem [keep]: "kernel_ok k \<Longrightarrow> keeps (set_sem i p v k)"
  unfolding set_sem_def
proof (intro keep, simp, goal_cases)
  case (1 pcb x q y z h)
  have "kernel_ok (put_pcb (active k) (pcb\<lparr>semaphores := (semaphores pcb)[i := q]\<rparr>) k)"
    using 1 by (intro ok_update) (auto simp: mine_def pcb_good_def dest: kernel_okD(2))
  then show ?case by (rule ok_sems_data) (use 1 Shared_assign_move_data in auto)
qed

lemma up_good:
  assumes "kernel_ok k" "sem_good (dom (pcbs k)) (dom (pipes k)) s" "sem_up (s, ready_queue k) = Some (s', rq)"
  shows "sem_good (dom (pcbs k)) (dom (pipes k)) s'" "e \<in> set rq \<Longrightarrow> event_ok (dom (pcbs k)) (dom (pipes k)) e"
  using sem_good_up [OF assms(2,3) kernel_okD(6) [OF assms(1)]] by auto

lemma down_good:
  assumes "kernel_ok k" "sem_good (dom (pcbs k)) (dom (pipes k)) s" "sem_down ev (s, ready_queue k) = (s', rq)"
    "event_ok (dom (pcbs k)) (dom (pipes k)) ev"
  shows "sem_good (dom (pcbs k)) (dom (pipes k)) s'" "e \<in> set rq \<Longrightarrow> event_ok (dom (pcbs k)) (dom (pipes k)) e"
  using sem_good_down [OF assms(2,3,4) kernel_okD(6) [OF assms(1)]] by auto

lemma resize_good: "pcb_good P B p \<Longrightarrow> pcb_good P B (resize p)"
  by (simp add: pcb_good_def resize_def Let_def)

lemma add_child_good: "pcb_good P B p \<Longrightarrow> pcb_good P B (add_child c p)"
  using resize_good [of P B p] by (auto simp: pcb_good_def add_child_def Let_def)

lemma PCB_new_good [simp]: "pcb_good P B (PCB_new pd)"
  by (simp add: pcb_good_def PCB_new_def)

lemma keeps_sys_fork [keep]:
  assumes "kernel_ok k"
  shows "keeps (sys_fork uc k)"
  unfolding sys_fork_def Let_def
proof (intro keep, simp, goal_cases)
  case (1 x pd s y c k1 pcb z ss hs w ds hd)
  let ?P = "insert c (dom (pcbs k))" and ?B = "dom (pipes k)"
  have k1: "pcbs k1 = pcbs k" "pipes k1 = pipes k" "sems k1 = sems k" "ready_queue k1 = ready_queue k" "active k1 = active k" "kernel_ok k1"
    using 1(3,4) assms by (auto simp: new_object_def split: list.splits)
  have m: "mine k = Some pcb" "pcbs k (active k) = Some pcb" using 1(5) k1 by (auto simp: mine_def)
  note cp = 1(6) [unfolded 1(7)] 1(8) [unfolded 1(9)]
  have st: "stores_good ?P ?B k" using assms by (auto simp: kernel_ok_def intro: stores_good_mono)
  then have "pcb_good ?P ?B pcb" using m(2) by (auto simp: stores_good_def)
  then have cur: "pcb_good ?P ?B (add_child c pcb)" by (rule add_child_good)
  have len: "length ss = 100" "length ds = 10"
    using copy_shared_length [OF cp(1)] copy_shared_length [OF cp(2)] cur by (simp_all add: pcb_good_def PCB_new_def)
  then have child: "pcb_good ?P ?B ((PCB_new pd)\<lparr>semaphores := ss, queue := q, handler_eip := he, in_handler := ih,
      handler_user_context := hu, file_descriptor := ds, cwd_node := cw\<rparr>)" for q he ih hu cw
    by (simp add: pcb_good_def PCB_new_def)
  have sems: "sem_good ?P ?B (cdata c')" if "hs q = Some c'" for q c'
    using copy_shared_data [OF cp(1) that] st k1(3) by (auto simp: stores_good_def)
  show ?case
    using st cur child sems m(2) k1
    by (auto simp: kernel_ok_def stores_good_def Processes.go_def insert_absorb domI)
qed

lemma keeps_sys_join [keep]:
  assumes ok: "kernel_ok k"
  shows "keeps (sys_join uc k)"
  unfolding sys_join_def Let_def
proof (intro keep, goal_cases)
  case (1 pcb)
  then show ?case using ok_same [OF ok 1(1)] by simp
next
  case (2 pcb c sem rq)
  let ?c = "peek_child (pcb\<lparr>user_context := uc\<rparr>)"
  have k: "kernel_ok (put_pcb (active k) (pcb\<lparr>user_context := uc\<rparr>) k)" (is "kernel_ok ?k") by (rule ok_same [OF ok 2(1)]) simp
  have g: "pcb_good (dom (pcbs ?k)) (dom (pipes ?k)) c" using kernel_okD(2) [OF k 2(4)] .
  have d: "?c \<in> dom (pcbs ?k)" using 2(4) by (rule domI)
  have "event_ok (dom (pcbs ?k)) (dom (pipes ?k)) (JoinEv ?c (active ?k))" using d kernel_okD(1) [OF k] by simp
  note dg = down_good [OF k _ 2(5) this]
  have s: "sem_good (dom (pcbs ?k)) (dom (pipes ?k)) (exit_sem c)" using g by (simp add: pcb_good_def)
  have "kernel_ok ((put_pcb ?c (c\<lparr>exit_sem := sem\<rparr>) ?k)\<lparr>ready_queue := rq, interrupts := False\<rparr>)"
    by (rule ok_step [OF k]) (use g d kernel_okD(1) [OF k] dg [OF s] in \<open>auto simp: pcb_good_def split: if_splits\<close>)
  then show ?case by simp
next
  case (3 pcb)
  then show ?case using ok_same [OF ok 3(1)] by simp
qed

lemma keeps_sys_kill [keep]: "kernel_ok k \<Longrightarrow> keeps (sys_kill uc k)"
  unfolding sys_kill_def Let_def by (intro keep) (auto intro!: ok_update dest: kernel_okD(2))

lemma keeps_sys_simple_signal [keep]: "kernel_ok k \<Longrightarrow> keeps (sys_simple_signal uc k)"
  unfolding sys_simple_signal_def by (intro keep) (auto intro!: ok_same)

lemma keeps_sys_shutdown [keep]: "keeps (sys_shutdown k)"
  unfolding sys_shutdown_def by (intro keep) simp

lemma keeps_count_args [keep]: "kernel_ok k \<Longrightarrow> keeps (count_args sp n k)"
proof (induction sp n k rule: count_args.induct)
  case (1 sp n k)
  then show ?case by (subst count_args.simps) (auto intro!: keep simp del: of_nat_add)
qed

lemma keeps_cstr_len [keep]: "kernel_ok k \<Longrightarrow> keeps (cstr_len a n k)"
proof (induction a n k rule: cstr_len.induct)
  case (1 a n k)
  then show ?case by (subst cstr_len.simps) (auto intro!: keep)
qed

lemma keeps_parse_args [keep]: "kernel_ok k \<Longrightarrow> keeps (parse_args sp j n t k)"
proof (induction n arbitrary: j t k)
  case (Suc n)
  show ?case unfolding parse_args.simps Let_def by (intro keep Suc) simp_all
qed simp

lemma keeps_kload_loop [keep]: "kernel_ok k \<Longrightarrow> keeps (kload_loop io ps k)"
proof (induction ps arbitrary: k)
  case (Cons p ps)
  show ?case unfolding kload_loop.simps Let_def by (intro keep Cons ok_same) simp_all
qed simp

lemma keeps_kelf_load [keep]: "kernel_ok k \<Longrightarrow> keeps (kelf_load node k)"
  unfolding kelf_load_def Let_def by (intro keep) simp_all

lemma keeps_push_strings [keep]: "kernel_ok k \<Longrightarrow> keeps (push_strings args k)"
  by (induction args arbitrary: k) (auto intro!: keep)

lemma keeps_push_words [keep]: "kernel_ok k \<Longrightarrow> keeps (push_words sp t ws k)"
  by (induction ws arbitrary: t k) (auto intro!: keep)

lemma keeps_push_args [keep]: "kernel_ok k \<Longrightarrow> keeps (push_args sp args t k)"
  unfolding push_args_def by (intro keep) simp_all

lemma ok_same_at:
  "kernel_ok k \<Longrightarrow> p = active k \<Longrightarrow> mine k = Some pcb \<Longrightarrow> (\<And>P B. pcb_good P B pcb' = pcb_good P B pcb) \<Longrightarrow> kernel_ok (put_pcb p pcb' k)"
  using ok_same by simp

lemma ok_go: "kernel_ok k \<Longrightarrow> event_ok (dom (pcbs k)) (dom (pipes k)) e \<Longrightarrow> kernel_ok (Processes.go e k)"
  unfolding Processes.go_def by (rule ok_ready_queue) (auto dest: kernel_okD(6))

lemma keeps_sys_execl [keep]: "kernel_ok k \<Longrightarrow> keeps (sys_execl uc k)"
  unfolding sys_execl_def Let_def
  by (intro keep) (simp_all, auto intro!: ok_go ok_same_at simp: mine_def)

lemma keeps_sys_sem [keep]: "kernel_ok k \<Longrightarrow> keeps (sys_sem uc k)"
  unfolding sys_sem_def
proof (intro keep, simp_all, goal_cases)
  case (1 n k1 pcb i y a k2 z p h)
  have k2: "kernel_ok k2" "sems k2 = sems k1" "pcbs k2 = pcbs k1" "pipes k2 = pipes k1"
    using 1 by (auto simp: new_object_def split: list.splits)
  have "sem_good (dom (pcbs k2)) (dom (pipes k2)) (cdata c)" if "h q = Some c" for q c
    using 1 that k2 kernel_okD(4) [OF k2(1)] unfolding Shared_make_def Shared_of_counted_def
    by (fastforce split: Option.bind_splits if_splits dest!: Shared_ref_data simp: Counted_new_def)
  then show ?case using k2(1) by (intro ok_sems) auto
qed

lemma keeps_sys_up [keep]: "kernel_ok k \<Longrightarrow> keeps (sys_up uc k)"
  unfolding sys_up_def
proof (intro keep, simp_all, goal_cases)
  case (1 i k1 pcb y p h c z sem rq)
  have h: "\<exists>c0. sems k1 q = Some c0 \<and> cdata c' = cdata c0" if "h q = Some c'" for q c'
    using Shared_copy_data [of _ "sems k1" p h q c'] 1 that by auto
  then have "sem_good (dom (pcbs k1)) (dom (pipes k1)) (cdata c)" using kernel_okD(4) [of k1] 1 by metis
  note u = up_good [OF \<open>kernel_ok k1\<close> this]
  show ?case
    by (rule ok_step [of k1])
      (use 1 u h kernel_okD(1,4) [of k1] in \<open>(force split: if_splits)+\<close>)
qed

lemma ok_sem_down:
  assumes k: "kernel_ok k" and h: "\<And>q c. h q = Some c \<Longrightarrow> \<exists>c0. sems k q = Some c0 \<and> cdata c = cdata c0" and c: "h p = Some c"
    and d: "sem_down e (cdata c, ready_queue k) = (sem, rq)" and e: "event_ok (dom (pcbs k)) (dom (pipes k)) e"
  shows "kernel_ok (k\<lparr>sems := h(p \<mapsto> c\<lparr>cdata := sem\<rparr>), ready_queue := rq, interrupts := False\<rparr>)"
proof -
  have old: "sem_good (dom (pcbs k)) (dom (pipes k)) (cdata c')" if "h q = Some c'" for q c'
    using h [OF that] kernel_okD(4) [OF k] by metis
  note dg = down_good [OF k old [OF c] d e]
  have "kernel_ok (k\<lparr>sems := h(p \<mapsto> c\<lparr>cdata := sem\<rparr>)\<rparr>)" using k old dg(1) by (intro ok_sems) auto
  then have "kernel_ok ((k\<lparr>sems := h(p \<mapsto> c\<lparr>cdata := sem\<rparr>)\<rparr>)\<lparr>ready_queue := rq\<rparr>)" by (rule ok_ready_queue) (use dg(2) in simp)
  then show ?thesis by simp
qed

lemma keeps_sys_down [keep]: "kernel_ok k \<Longrightarrow> keeps (sys_down uc k)"
  unfolding sys_down_def Let_def
proof (intro keep, simp_all only: keeps_Done keeps_event_loop, goal_cases)
  case (1 i k1 pcb y p h c sem rq)
  have k: "kernel_ok (put_pcb (active k1) (pcb\<lparr>user_context := uc\<rparr>) k1)" (is "kernel_ok ?k") by (rule ok_same) (use 1 in simp_all)
  have "Shared_copy (semaphores pcb ! unat i) (sems ?k) = Some (p, h)" using 1 by simp
  note sc = Shared_copy_data [OF this]
  have "kernel_ok (?k\<lparr>sems := h(p \<mapsto> c\<lparr>cdata := sem\<rparr>), ready_queue := rq, interrupts := False\<rparr>)"
    by (rule ok_sem_down [OF k]) (use sc 1 kernel_okD(1) [OF k] in auto)
  then show ?case by simp
qed

lemma keeps_sys_sem_close [keep]: "kernel_ok k \<Longrightarrow> keeps (sys_sem_close uc k)"
  unfolding sys_sem_close_def by (intro keep) simp_all

lemma keeps_sys_chdir [keep]: "kernel_ok k \<Longrightarrow> keeps (sys_chdir uc k)"
  unfolding sys_chdir_def by (intro keep) (simp_all, auto intro!: ok_same)

lemma keeps_sys_open [keep]: "kernel_ok k \<Longrightarrow> keeps (sys_open uc k)"
  unfolding sys_open_def by (intro keep) simp_all

lemma keeps_sys_close [keep]: "kernel_ok k \<Longrightarrow> keeps (sys_close uc k)"
  unfolding sys_close_def by (intro keep) simp_all

lemma keeps_sys_len [keep]: "kernel_ok k \<Longrightarrow> keeps (sys_len uc k)"
  unfolding sys_len_def by (intro keep) simp_all

lemma ok_pipe_down:
  assumes "kernel_ok k" "pipes k b = Some pb" "event_ok (dom (pcbs k)) (dom (pipes k)) e"
  shows "sem_down e (pipe_full pb, ready_queue k) = (sem, rq) \<Longrightarrow>
      kernel_ok (k\<lparr>pipes := (pipes k)(b \<mapsto> pb\<lparr>pipe_full := sem\<rparr>), ready_queue := rq, interrupts := False\<rparr>)"
    "sem_down e (pipe_empty pb, ready_queue k) = (sem, rq) \<Longrightarrow>
      kernel_ok (k\<lparr>pipes := (pipes k)(b \<mapsto> pb\<lparr>pipe_empty := sem\<rparr>), ready_queue := rq, interrupts := False\<rparr>)"
proof -
  note p = kernel_okD(5) [OF assms(1,2)]
  show "kernel_ok (k\<lparr>pipes := (pipes k)(b \<mapsto> pb\<lparr>pipe_full := sem\<rparr>), ready_queue := rq, interrupts := False\<rparr>)"
    if d: "sem_down e (pipe_full pb, ready_queue k) = (sem, rq)"
    by (rule ok_step [OF assms(1)])
      (use p down_good [OF assms(1) _ d assms(3)] assms(2) kernel_okD(1) [OF assms(1)] in \<open>auto split: if_splits\<close>)
  show "kernel_ok (k\<lparr>pipes := (pipes k)(b \<mapsto> pb\<lparr>pipe_empty := sem\<rparr>), ready_queue := rq, interrupts := False\<rparr>)"
    if d: "sem_down e (pipe_empty pb, ready_queue k) = (sem, rq)"
    by (rule ok_step [OF assms(1)])
      (use p down_good [OF assms(1) _ d assms(3)] assms(2) kernel_okD(1) [OF assms(1)] in \<open>auto split: if_splits\<close>)
qed

lemma keeps_read_pipe [keep]:
  assumes "kernel_ok k" "mine k = Some pcb"
  shows "keeps (read_pipe b buffer uc pcb k)"
proof -
  let ?k = "put_pcb (active k) (pcb\<lparr>pcb_directory := page (getCR3 k), user_context := uc\<rparr>) k"
  have "kernel_ok ?k" by (rule ok_same [OF assms]) simp
  then show ?thesis
    unfolding read_pipe_def Let_def using kernel_okD(1) [of ?k]
    by (intro keep) (simp only: keeps_event_loop, rule ok_pipe_down(1), auto)
qed

lemma keeps_write_pipe [keep]:
  assumes "kernel_ok k" "mine k = Some pcb"
  shows "keeps (write_pipe b buffer uc pcb k)"
proof -
  have "kernel_ok (put_pcb (active k) (pcb\<lparr>pcb_directory := page (getCR3 k), user_context := uc\<rparr>) k)" by (rule ok_same [OF assms]) simp
  then show ?thesis
    unfolding write_pipe_def Let_def using kernel_okD(1)
    by (intro keep) (simp_all only: keeps_event_loop, (rule ok_pipe_down(2), auto)+)
qed

lemma keeps_read_file [keep]: "kernel_ok k \<Longrightarrow> keeps (read_file p d node buffer n k)"
  unfolding read_file_def Let_def by (intro keep) simp_all

lemma keeps_sys_read [keep]: "kernel_ok k \<Longrightarrow> keeps (sys_read uc k)"
  unfolding sys_read_def Let_def by (intro keep) simp_all

lemma keeps_print_bytes [keep]: "kernel_ok k \<Longrightarrow> keeps (print_bytes a n k)"
  by (induction n arbitrary: a k) (auto intro!: keep)

lemma keeps_sys_write [keep]: "kernel_ok k \<Longrightarrow> keeps (sys_write uc k)"
  unfolding sys_write_def Let_def by (intro keep) simp_all

lemma keeps_sys_dup [keep]: "kernel_ok k \<Longrightarrow> keeps (sys_dup uc k)"
  unfolding sys_dup_def
  by (intro keep) (simp_all, auto intro!: ok_update simp: mine_def pcb_good_def dest: kernel_okD(2))

lemma keeps_pipe_loop [keep]: "kernel_ok k \<Longrightarrow> keeps (pipe_loop i n w r b k)"
proof (induction n arbitrary: i k)
  case (Suc n)
  show ?case unfolding pipe_loop.simps by (intro keep Suc) simp_all
qed simp

lemma keeps_sys_pipe [keep]: "kernel_ok k \<Longrightarrow> keeps (sys_pipe uc k)"
  unfolding sys_pipe_def Let_def
  by (intro keep) (simp_all, auto intro!: ok_pipe simp: new_object_def split: list.splits)

lemma keeps_zero_fill [keep]: "kernel_ok k \<Longrightarrow> keeps (zero_fill i fin k)"
proof (induction i fin k rule: zero_fill.induct)
  case (1 i fin k)
  then show ?case by (subst zero_fill.simps) (auto intro!: keep)
qed

lemma keeps_mmap_node [keep]: "kernel_ok k \<Longrightarrow> keeps (mmap_node fd off pcb k)"
  unfolding mmap_node_def by (intro keep) simp_all

lemma mmap_node_state: "mmap_node fd off pcb k = Done x k' \<Longrightarrow> k' = k"
  by (auto simp: mmap_node_def need_def split: if_splits option.splits)

lemma keeps_sys_mmap [keep]: "kernel_ok k \<Longrightarrow> keeps (sys_mmap uc k)"
  unfolding sys_mmap_def Let_def
  by (intro keep) (simp_all, auto intro!: ok_same dest!: mmap_node_state)

lemma keeps_sys_munmap [keep]: "kernel_ok k \<Longrightarrow> keeps (sys_munmap uc k)"
  unfolding sys_munmap_def
  by (intro keep)
    (simp_all, auto intro!: ok_same simp: remove_from_vmequeue_def split: option.splits Option.bind_splits)

lemma keeps_sysHandler [keep]: "kernel_ok k \<Longrightarrow> keeps (sysHandler uc k)"
  unfolding sysHandler_def Let_def by (intro keep) simp_all

lemma keeps_sysHandlerWrap [keep]: "kernel_ok k \<Longrightarrow> keeps (sysHandlerWrap uc k)"
  unfolding sysHandlerWrap_def by (intro keep) simp_all

section \<open>Events\<close>

lemma ok_context: "kernel_ok k \<Longrightarrow> pcbs k p = Some pcb \<Longrightarrow> kernel_ok (put_pcb p (pcb\<lparr>user_context := uc\<rparr>) k)"
  by (rule ok_update) (auto simp: kernel_okD(2))

lemma keeps_resume_with [keep]: "kernel_ok k \<Longrightarrow> keeps (resume_with p v k)"
  unfolding resume_with_def Let_def
  by (intro keep) (auto intro!: ok_active ok_context simp: vmm_on_def)

lemma ok_pipe_up:
  assumes "kernel_ok k" "pipes k b = Some pb"
  shows "sem_up (pipe_full pb, ready_queue k) = Some (sem, rq) \<Longrightarrow>
      kernel_ok (k\<lparr>pipes := (pipes k)(b \<mapsto> pb\<lparr>pipe_queue := q, pipe_full := sem\<rparr>), ready_queue := rq\<rparr>)"
    "sem_up (pipe_empty pb, ready_queue k) = Some (sem, rq) \<Longrightarrow>
      kernel_ok (k\<lparr>pipes := (pipes k)(b \<mapsto> pb\<lparr>pipe_queue := q, pipe_empty := sem\<rparr>), ready_queue := rq\<rparr>)"
proof -
  note p = kernel_okD(5) [OF assms]
  show "kernel_ok (k\<lparr>pipes := (pipes k)(b \<mapsto> pb\<lparr>pipe_queue := q, pipe_full := sem\<rparr>), ready_queue := rq\<rparr>)"
    if d: "sem_up (pipe_full pb, ready_queue k) = Some (sem, rq)"
    by (rule ok_step [OF assms(1)])
      (use p up_good [OF assms(1) _ d] assms(2) kernel_okD(1) [OF assms(1)] in \<open>auto split: if_splits\<close>)
  show "kernel_ok (k\<lparr>pipes := (pipes k)(b \<mapsto> pb\<lparr>pipe_queue := q, pipe_empty := sem\<rparr>), ready_queue := rq\<rparr>)"
    if d: "sem_up (pipe_empty pb, ready_queue k) = Some (sem, rq)"
    by (rule ok_step [OF assms(1)])
      (use p up_good [OF assms(1) _ d] assms(2) kernel_okD(1) [OF assms(1)] in \<open>auto split: if_splits\<close>)
qed

lemma keeps_pipe_put_body [keep]: "kernel_ok k \<Longrightarrow> keeps (pipe_put_body b v k)"
  unfolding pipe_put_body_def Let_def by (intro keep) (auto dest: ok_pipe_up(1))

lemma keeps_pipe_get_body [keep]: "kernel_ok k \<Longrightarrow> keeps (pipe_get_body b k)"
  unfolding pipe_get_body_def by (intro keep) (auto dest: ok_pipe_up(2) split: list.split)

text \<open>An access that returns has at most paged something in.\<close>

lemma not_back [simp]: "exit v k \<noteq> Done x k'" "fault_exit va k \<noteq> Done x k'" "bad_access va k \<noteq> Done x k'"
proof -
  show e: "exit v k \<noteq> Done x k'" for v k
    by (auto simp: exit_def need_def event_loop_def split: option.splits)
  show f: "fault_exit va k \<noteq> Done x k'" for k by (simp add: fault_exit_def e split: option.splits)
  show "bad_access va k \<noteq> Done x k'"
    by (auto simp: bad_access_def need_def f dest!: andthen_Done split: option.splits if_splits)
qed

lemma kstore8_pages: "kstore8 va b k = Done x k' \<Longrightarrow> \<exists>s. k' = set_pm s k"
  by (auto simp: kstore8_def user_access_def need_def split: option.splits run.splits fault.splits)

lemma keeps_run_event [keep]:
  assumes ok: "kernel_ok k" and e: "event_ok (dom (pcbs k)) (dom (pipes k)) e"
  shows "keeps (run_event e k)"
proof (cases e)
  case (GetEv b p buf)
  show ?thesis
    unfolding GetEv run_event.simps Let_def using ok
    by (intro keep) (auto intro!: ok_context ok_active dest!: kstore8_pages simp: vmm_on_def)
next
  case (JoinEv c p)
  show ?thesis
    unfolding JoinEv run_event.simps Let_def
  proof (intro keep, goal_cases)
    case (1 child y sem rq pcb z w pcb')
    have g: "pcb_good (dom (pcbs k)) (dom (pipes k)) child" by (rule kernel_okD(2) [OF ok 1(1)])
    then have s: "sem_good (dom (pcbs k)) (dom (pipes k)) (exit_sem child)" by (simp add: pcb_good_def)
    have u: "sem_up (exit_sem child, ready_queue k) = Some (sem, rq)" using 1 by simp
    have k1: "kernel_ok ((put_pcb c (child\<lparr>exit_sem := sem\<rparr>) k)\<lparr>ready_queue := rq\<rparr>)" (is "kernel_ok ?k1")
      by (rule ok_step [OF ok]) (use g 1(1) up_good [OF ok s u] kernel_okD(1) [OF ok] in \<open>auto simp: pcb_good_def split: if_splits\<close>)
    have p: "pcbs ?k1 p = Some pcb" "pcb' = pcb\<lparr>child_count := child_count pcb - 1\<rparr>"
      using 1 by (auto simp: remove_child_def Let_def split: if_splits)
    show ?case by (rule ok_update [OF k1]) (use p kernel_okD(2) [OF k1 p(1)] in simp_all)
  qed
next
  case (ExecEv ip sp p pd)
  show ?thesis
    unfolding ExecEv run_event.simps using ok
    by (intro keep) (auto intro!: ok_active ok_update simp: vmm_on_def kernel_okD(2))
qed (use ok e in \<open>auto intro!: keep ok_active simp: vmm_on_def\<close>)

section \<open>Runs\<close>

text \<open>
  A step of the machine: the attention moves to a core where some process runs; user code changes
  memory; a process makes a system call or faults; a timer interrupt comes; a core in the event loop
  takes the first event and runs it.
\<close>

inductive kstep :: "kernel \<Rightarrow> kernel \<Rightarrow> bool" where
  core: "pcbs k p \<noteq> None \<Longrightarrow> kstep k ((vmm_on pd k)\<lparr>active := p, interrupts := i\<rparr>)"
| user: "kstep k (set_pm s k)"
| call: "leaves (sysHandlerWrap uc k) k' \<Longrightarrow> kstep k k'"
| fault: "leaves (vmm_pageFault va uc k) k' \<Longrightarrow> kstep k k'"
| timer: "leaves (apitHandler me uc k) k' \<Longrightarrow> kstep k k'"
| event: "ready_queue k = e # es \<Longrightarrow> leaves (run_event e (k\<lparr>ready_queue := es\<rparr>)) k' \<Longrightarrow> kstep k k'"

inductive_cases kstepE: "kstep k k'"

inductive kernel_run :: "kernel \<Rightarrow> kernel \<Rightarrow> bool" where
  start: "kernel_run k k"
| step: "kernel_run k k1 \<Longrightarrow> kstep k1 k2 \<Longrightarrow> kernel_run k k2"

lemma kstep_ok: "kstep k k' \<Longrightarrow> kernel_ok k \<Longrightarrow> kernel_ok k'"
proof (induction rule: kstep.induct)
  case (core k p i pd)
  then have "kernel_ok ((vmm_on pd k)\<lparr>active := p\<rparr>)" by (intro ok_active) (simp_all add: vmm_on_def)
  then show ?case by simp
next
  case (event k e es k')
  have "kernel_ok (k\<lparr>ready_queue := es\<rparr>)" "event_ok (dom (pcbs k)) (dom (pipes k)) e"
    using kernel_okD(6) [OF event(3)] event(1,3) by (auto intro: ok_ready_queue)
  then show ?case using keeps_run_event [of "k\<lparr>ready_queue := es\<rparr>" e] event(2) by (simp add: keeps_def)
next
  case (call uc k k')
  then show ?case using keeps_sysHandlerWrap [of k uc] by (simp add: keeps_def)
next
  case (fault va uc k k')
  then show ?case using keeps_vmm_pageFault [of k va uc] by (simp add: keeps_def)
next
  case (timer me uc k k')
  then show ?case using keeps_apitHandler [of k me uc] by (simp add: keeps_def)
qed simp

lemma kernel_run_ok: "kernel_run k k' \<Longrightarrow> kernel_ok k \<Longrightarrow> kernel_ok k'"
  by (induction rule: kernel_run.induct) (auto intro: kstep_ok)

text \<open>
  C4.  In every run of the kernel, of any length, over all cores and all processes, and whatever user
  code does to its memory: the running process exists, every process has its ten descriptor slots, its
  hundred semaphore slots and an array of children of the size it records, so that the checks of the
  handlers keep every access to them in bounds; the assertion in \<^verbatim>\<open>Semaphore::up\<close> holds on every
  semaphore of every process, table and pipe; and every event in the ready queue belongs to processes
  and pipes that exist.
\<close>

theorem kernel_well_formed:
  assumes "kernel_ok k" "kernel_run k k'"
  shows "mine k' \<noteq> None \<and>
    (\<forall>p pcb rq. pcbs k' p = Some pcb \<longrightarrow> length (file_descriptor pcb) = 10 \<and> length (semaphores pcb) = 100 \<and>
       length (children pcb) = unat (capacity pcb) \<and> sem_up (exit_sem pcb, rq) \<noteq> None) \<and>
    (\<forall>p c rq. sems k' p = Some c \<longrightarrow> sem_up (cdata c, rq) \<noteq> None) \<and>
    (\<forall>b pb rq. pipes k' b = Some pb \<longrightarrow> sem_up (pipe_full pb, rq) \<noteq> None \<and> sem_up (pipe_empty pb, rq) \<noteq> None) \<and>
    (\<forall>e \<in> set (ready_queue k'). event_ok (dom (pcbs k')) (dom (pipes k')) e)"
proof -
  note ok = kernel_run_ok [OF assms(2,1)]
  note d = kernel_okD [OF ok]
  have "mine k' \<noteq> None" using d(1) by (auto simp: mine_def)
  moreover have "length (file_descriptor pcb) = 10 \<and> length (semaphores pcb) = 100 \<and>
       length (children pcb) = unat (capacity pcb) \<and> sem_up (exit_sem pcb, rq) \<noteq> None" if "pcbs k' p = Some pcb" for p pcb rq
    using d(2) [OF that] sem_good_up_runs [of _ _ "exit_sem pcb" rq] by (auto simp: pcb_good_def)
  moreover have "sem_up (cdata c, rq) \<noteq> None" if "sems k' p = Some c" for p c rq using sem_good_up_runs [OF d(4) [OF that]] .
  moreover have "sem_up (pipe_full pb, rq) \<noteq> None \<and> sem_up (pipe_empty pb, rq) \<noteq> None" if "pipes k' b = Some pb" for b pb rq
    using d(5) [OF that] sem_good_up_runs by blast
  ultimately show ?thesis using d(6) by blast
qed

text \<open>The small machine is a good start; a timer interrupt, then its process is resumed.\<close>

lemma ex_kernel_ok: "kernel_ok (ex_kernel ws (PCB_new pd) h)"
  by (simp add: kernel_ok_def stores_good_def ex_kernel_def)

lemma kernel_well_formed_witness:
  "\<exists>k1 k2. apitHandler 0 (ex_context\<lparr>iFrame := (iFrame ex_context)\<lparr>cs := 0x1B\<rparr>\<rparr>) (ex_kernel [] (PCB_new 0x600000) Map.empty) =
       (Stop (Loop k1) :: unit code) \<and> kstep k1 k2 \<and> ready_queue k2 = [] \<and> mine k2 \<noteq> None"
proof -
  let ?uc = "ex_context\<lparr>iFrame := (iFrame ex_context)\<lparr>cs := 0x1B\<rparr>\<rparr>" and ?k = "ex_kernel [] (PCB_new 0x600000) Map.empty"
  let ?pcb = "(PCB_new 0x600000)\<lparr>pcb_directory := 0x600000, user_context := ?uc\<rparr>"
  let ?k1 = "?k\<lparr>ticks := 1, pcbs := [0x1000 \<mapsto> ?pcb], ready_queue := [ResumeEv 0x1000], interrupts := False\<rparr>"
  have 1: "apitHandler 0 ?uc ?k = (Stop (Loop ?k1) :: unit code)"
    by (simp add: apitHandler_def switch_processes_def event_loop_def Processes.go_def put_pcb_def mine_def getCR3_def
        ex_kernel_def ex_context_def no_context_def PCB_new_def)
  obtain k2 where 2: "run_event (ResumeEv 0x1000) (?k1\<lparr>ready_queue := []\<rparr>) = Stop (Resume ?uc k2)" "ready_queue k2 = []"
    by (simp add: resume_with_def Let_def vmm_on_def put_pcb_def ex_kernel_def)
  have s1: "kstep ?k ?k1" by (rule kstep.timer [of 0 ?uc]) (simp only: 1 leaves.simps)
  have s2: "kstep ?k1 k2" by (rule kstep.event [of _ "ResumeEv 0x1000" "[]"]) (simp, simp only: 2(1) leaves.simps)
  have "kernel_run ?k k2" by (rule kernel_run.step [OF kernel_run.step [OF kernel_run.start s1] s2])
  from kernel_well_formed [OF ex_kernel_ok this] show ?thesis using 1 2(2) s2 by blast
qed

end
