(* ===== verification/Unmap.thy ===== *)
theory Unmap
  imports Sys_Memory
begin

text \<open>
  Giving memory back: \<^verbatim>\<open>remove_from_vmequeue\<close> (\<^verbatim>\<open>kernel/pcb.h\<close>) and \<^verbatim>\<open>munmap\<close>
  (\<^verbatim>\<open>kernel/sys.cc\<close>).  The pages of the region, and the tables that lie in it as a whole, go back
  to the frame allocator; nothing else of the address space changes, and no other process notices.
  What the translation look-aside buffer may still hold is not part of the model.
\<close>

section \<open>What unmapping may do\<close>

text \<open>
  From \<open>s\<close> to \<open>t\<close> the address space loses its user pages in \<open>V\<close>, and maybe tables; exactly the
  frames it no longer has are free again, and every other frame in use is as it was.
\<close>

definition unmapped :: "u32 \<Rightarrow> u32 \<Rightarrow> u32 set \<Rightarrow> ptr list \<Rightarrow> phys \<Rightarrow> ptr list \<Rightarrow> phys \<Rightarrow> bool" where
  "unmapped base pd V f s f' t \<longleftrightarrow> space_ok base f' t pd \<and> own t pd \<subseteq> own s pd \<and>
     (\<forall>q. allocated base f' t q \<longleftrightarrow> allocated base f s q \<and> q \<notin> own s pd - own t pd) \<and>
     (\<forall>q. allocated base f s q \<longrightarrow> q \<notin> own s pd \<longrightarrow> (\<forall>j < 1024. pt_get t q j = pt_get s q j)) \<and>
     frames_left f' t = frames_left f s + card (own s pd - own t pd) \<and>
     (\<forall>va. user_va va \<longrightarrow> mmu_walk (mem t) pd va = (if va \<in> V then None else mmu_walk (mem s) pd va)) \<and>
     user_view pd t = (\<lambda>va. if va \<in> V then 0 else user_view pd s va) \<and>
     (\<forall>i < 1024. i < 512 \<or> 960 \<le> i \<longrightarrow> pt_get t pd i = pt_get s pd i)"

lemma unmappedD:
  assumes "unmapped base pd V f s f' t"
  shows "space_ok base f' t pd" "own t pd \<subseteq> own s pd"
    "allocated base f' t q \<longleftrightarrow> allocated base f s q \<and> q \<notin> own s pd - own t pd"
    "allocated base f s q \<Longrightarrow> q \<notin> own s pd \<Longrightarrow> j < 1024 \<Longrightarrow> pt_get t q j = pt_get s q j"
    "frames_left f' t = frames_left f s + card (own s pd - own t pd)"
    "user_va va \<Longrightarrow> mmu_walk (mem t) pd va = (if va \<in> V then None else mmu_walk (mem s) pd va)"
    "user_view pd t = (\<lambda>va. if va \<in> V then 0 else user_view pd s va)"
    "i < 1024 \<Longrightarrow> i < 512 \<or> 960 \<le> i \<Longrightarrow> pt_get t pd i = pt_get s pd i"
  using assms unfolding unmapped_def by blast+

text \<open>Nothing is done to pages that were not mapped.\<close>

lemma unmapped_refl:
  assumes "space_ok base f s pd" "\<And>va. va \<in> V \<Longrightarrow> user_va va \<Longrightarrow> mmu_walk (mem s) pd va = None"
  shows "unmapped base pd V f s f s"
proof -
  have "user_view pd s va = 0" if "va \<in> V" for va
    using assms(2) [OF that] by (cases "user_va va") (simp_all add: view_unmapped view_outside)
  then show ?thesis using assms by (auto simp: unmapped_def)
qed

lemma unmapped_trans:
  assumes 1: "unmapped base pd V f s f1 s1" and 2: "unmapped base pd U f1 s1 f2 s2"
  shows "unmapped base pd (V \<union> U) f s f2 s2"
  unfolding unmapped_def
proof (intro conjI allI impI)
  note d = unmappedD [OF 1] and e = unmappedD [OF 2]
  show "space_ok base f2 s2 pd" "own s2 pd \<subseteq> own s pd" using e(1,2) d(2) by auto
  have "own s pd - own s2 pd = (own s pd - own s1 pd) \<union> (own s1 pd - own s2 pd)" using d(2) e(2) by blast
  then have "card (own s pd - own s2 pd) = card (own s pd - own s1 pd) + card (own s1 pd - own s2 pd)"
    by (simp add: card_Un_disjoint disjoint_iff)
  then show "frames_left f2 s2 = frames_left f s + card (own s pd - own s2 pd)" using d(5) e(5) by simp
  show "allocated base f2 s2 q \<longleftrightarrow> allocated base f s q \<and> q \<notin> own s pd - own s2 pd" for q
    using d(2,3) e(2,3) by blast
  show "pt_get s2 q j = pt_get s q j" if "allocated base f s q" "q \<notin> own s pd" "j < 1024" for q j
    using d(4) [OF that] d(2,3) e(4) [of q j] that by auto
  show "mmu_walk (mem s2) pd va = (if va \<in> V \<union> U then None else mmu_walk (mem s) pd va)" if "user_va va" for va
    using d(6) [OF that] e(6) [OF that] by auto
  show "user_view pd s2 = (\<lambda>va. if va \<in> V \<union> U then 0 else user_view pd s va)" by (simp add: d(7) e(7) fun_eq_iff)
  show "pt_get s2 pd i = pt_get s pd i" if "i < 1024" "i < 512 \<or> 960 \<le> i" for i using d(8) e(8) that by simp
qed

text \<open>Another process keeps its memory.\<close>

lemma unmapped_other:
  assumes r: "unmapped base pd V f s f' t" and ok: "space_ok base f s pd2" and dis: "own s pd \<inter> own s pd2 = {}"
  shows "user_view pd2 t = user_view pd2 s"
proof
  fix va
  have keep: "pt_get t q j = pt_get s q j" if "q \<in> own s pd2" "j < 1024" for q j
    using unmappedD(4) [OF r own_allocated [OF ok that(1)] _ that(2)] dis that(1) by blast
  show "user_view pd2 t va = user_view pd2 s va"
  proof (cases "user_va va")
    case u: True
    have walk: "mmu_walk (mem t) pd2 va = mmu_walk (mem s) pd2 va"
      using keep ownI(1) ownI(2) [OF u] by (intro mmu_walk_cong space_okD(4) [OF ok]) auto
    show ?thesis
    proof (cases "mmu_walk (mem s) pd2 va")
      case (Some x)
      then show ?thesis using u walk keep [OF ownI(3) [OF u Some]] by (simp add: view_mapped)
    qed (use walk in \<open>simp add: view_unmapped\<close>)
  qed (simp add: view_outside)
qed

section \<open>Giving back one frame\<close>

text \<open>
  The frame \<open>F\<close> goes back and the entry \<open>j\<close> of \<open>q\<close>, the directory or a user table, is cleared; then
  \<open>F\<close> must have been the frame of the pages \<open>V\<close>, or an empty table.
\<close>

lemma drop_frame:
  assumes ok: "space_ok base f s pd" and F: "F \<in> own s pd" "F \<noteq> pd" "F \<noteq> q"
    and q: "q = pd \<and> 512 \<le> j \<and> j < 960 \<or> (\<exists>i. q = frame_of (pt_get s pd i) \<and> 512 \<le> i \<and> i < 960 \<and> present (pt_get s pd i))" "j < 1024"
    and s1: "dealloc_frame F s = Some s1" and t: "t = pt_set q j 0 s1"
    and dir: "\<And>i. i < 1024 \<Longrightarrow> pt_get t pd i = (if present (pt_get s pd i) \<and> frame_of (pt_get s pd i) = F then 0 else pt_get s pd i)"
    and walk: "\<And>va. user_va va \<Longrightarrow> mmu_walk (mem t) pd va = (if va \<in> V then None else mmu_walk (mem s) pd va)"
    and pages: "\<And>va x. user_va va \<Longrightarrow> mmu_walk (mem s) pd va = Some x \<Longrightarrow> va \<in> V \<longleftrightarrow> x_frame x = F"
  shows "unmapped base pd V f s (F # f) t"
proof -
  note pd = space_okD(3,4) [OF ok]
  have qo: "q \<in> own s pd" using q unfolding own_def by blast
  note Fa = own_allocated [OF ok F(1)] and qa = own_allocated [OF ok qo]
  obtain d: "phys_ok base (F # f) s1" "avail s1 = avail s" "limit s1 = limit s"
      "\<And>r i. page_aligned r \<Longrightarrow> i < 1024 \<Longrightarrow> r \<noteq> F \<Longrightarrow> pt_get s1 r i = pt_get s r i"
    using dealloc_entry [OF space_okD(1) [OF ok] Fa] s1 by (metis option.inject)
  have al: "allocated base (F # f) t r \<longleftrightarrow> allocated base f s r \<and> r \<noteq> F" for r
    using d(2) by (auto simp: allocated_def t)
  have get: "pt_get t r i = (if r = q \<and> i = j then 0 else pt_get s r i)" if "page_aligned r" "i < 1024" "r \<noteq> F" for r i
    using that d(4) qa q(2) by (auto simp: t pt_get_set allocated_def)
  have dir': "present (pt_get t pd i) \<longleftrightarrow> present (pt_get s pd i) \<and> frame_of (pt_get s pd i) \<noteq> F"
      "present (pt_get t pd i) \<Longrightarrow> pt_get t pd i = pt_get s pd i" if "i < 1024" for i
    using dir [OF that] by (auto split: if_splits)
  have sp: "space_ok base (F # f) t pd"
    unfolding space_ok_def
  proof (intro conjI allI impI)
    have "allocated base (F # f) s1 q" using qa F(3) d(2) by (auto simp: allocated_def)
    then show "phys_ok base (F # f) t" unfolding t by (rule pt_set_ok [OF d(1) _ q(2)])
    show "tables_ok base (F # f) t pd"
      unfolding tables_ok_def al
    proof (intro conjI allI impI)
      note tb = tables_okD [OF space_okD(2) [OF ok]]
      show "allocated base f s pd" "pd \<noteq> F" using pd(1) F(2) by simp_all
      fix i assume i: "i < 1024" "present (pt_get t pd i)"
      then have o: "pt_get t pd i = pt_get s pd i" "present (pt_get s pd i)" "frame_of (pt_get s pd i) \<noteq> F" using dir'(1) [OF i(1)] dir'(2) [OF i] by simp_all
      show "allocated base f s (frame_of (pt_get t pd i))" "frame_of (pt_get t pd i) \<noteq> F" "frame_of (pt_get t pd i) \<noteq> pd"
        using tb(1,2) [OF i(1) o(2)] o by simp_all
      show "frame_of (pt_get t pd i) \<noteq> frame_of (pt_get t pd i')" if "i' < 1024" "i \<noteq> i'" "present (pt_get t pd i')" for i'
        using tb(3) [OF i(1) o(2) that(1) that(2) [symmetric]] dir'(1) [OF that(1)] dir'(2) [OF that(1,3)] that(2,3) o(1) by simp
    qed
    show "pt_get t pd i AND 6 = 6" if "512 \<le> i" "i < 960" "present (pt_get t pd i)" for i
      using that ok dir'(1) [of i] dir'(2) [of i, OF _ that(3)] by (simp add: space_ok_def)
    fix va y assume u: "user_va va" and "mmu_walk (mem t) pd va = Some y"
    then have o: "va \<notin> V" "mmu_walk (mem s) pd va = Some y" using walk [OF u] by (auto split: if_splits)
    show "allocated base (F # f) t (x_frame y)" "x_frame y \<noteq> pd" using al space_okD(6) [OF ok u o(2)] pages [OF u o(2)] o(1) by auto
    show "x_frame y \<noteq> frame_of (pt_get t pd i)" if "i < 1024" "present (pt_get t pd i)" for i
      using that dir'(1) [of i] dir'(2) [OF that] space_okD(7) [OF ok u o(2), of i] by simp
    show "page va = page va'" if "user_va va'" "mmu_walk (mem t) pd va' = Some z" "x_frame y = x_frame z" for va' z
      using space_okD(8) [OF ok u that(1) o(2) _ that(3)] that(2) walk [OF that(1)] by (auto split: if_splits)
  qed
  have own: "own t pd = own s pd - {F}"
  proof -
    have e: "y = frame_of (pt_get t pd i) \<and> 512 \<le> i \<and> i < 960 \<and> present (pt_get t pd i) \<longleftrightarrow>
        (y = frame_of (pt_get s pd i) \<and> 512 \<le> i \<and> i < 960 \<and> present (pt_get s pd i)) \<and> y \<noteq> F" for y i
      using dir [of i] by (cases "i < 960") auto
    have w: "x_frame x = y \<and> user_va va \<and> mmu_walk (mem t) pd va = Some x \<longleftrightarrow>
        (x_frame x = y \<and> user_va va \<and> mmu_walk (mem s) pd va = Some x) \<and> y \<noteq> F" for x y va
      using walk [of va] pages [of va x] by (cases "user_va va") auto
    have "{frame_of (pt_get t pd i) |i. 512 \<le> i \<and> i < 960 \<and> present (pt_get t pd i)} =
        {frame_of (pt_get s pd i) |i. 512 \<le> i \<and> i < 960 \<and> present (pt_get s pd i)} - {F}"
      using e by blast
    moreover have "{x_frame x |va x. user_va va \<and> mmu_walk (mem t) pd va = Some x} =
        {x_frame x |va x. user_va va \<and> mmu_walk (mem s) pd va = Some x} - {F}"
      using w by blast
    ultimately show ?thesis using F(2) unfolding own_def by auto
  qed
  have view: "user_view pd t va = (if va \<in> V then 0 else user_view pd s va)" for va
  proof (cases "user_va va")
    case u: True
    show ?thesis
    proof (cases "mmu_walk (mem t) pd va")
      case None
      then show ?thesis using walk [OF u] by (auto simp: view_unmapped split: if_splits)
    next
      case (Some y)
      then have y: "user_va va" "mmu_walk (mem s) pd va = Some y" "va \<notin> V" using walk [OF u] u by (auto split: if_splits)
    have "x_frame y \<noteq> q" using q(1) space_okD(6,7) [OF ok y(1,2)] less_trans [of _ 960 "1024 :: nat"] by (metis numeral_less_iff semiring_norm(76,78,80,81))
    then have "pt_get t (x_frame y) j = pt_get s (x_frame y) j" if "j < 1024" for j
      using get [OF walk_aligned [OF y(2)] that] pages [OF y(1,2)] y(3) by auto
    then show ?thesis using y walk [of va] by (simp add: view_mapped)
    qed
  qed (simp add: view_outside)
  have diff: "own s pd - own t pd = {F}" using own F(1) by auto
  have left: "frames_left (F # f) t = Suc (frames_left f s)" by (simp add: frames_left_def d(2,3) t)
  have "pt_get t r i = pt_get s r i" if "allocated base f s r" "r \<notin> own s pd" "i < 1024" for r i
  proof -
    have "r \<noteq> F" "r \<noteq> q" using that(2) F(1) qo by auto
    then show ?thesis using that(1,3) get [of r i] by (simp add: allocated_def)
  qed
  moreover have "pt_get t pd i = pt_get s pd i" if "i < 1024" "i < 512 \<or> 960 \<le> i" for i
  proof -
    have "\<not> (pd = q \<and> i = j)"
    proof
      assume e: "pd = q \<and> i = j"
      from q(1) show False
      proof (elim disjE exE conjE)
        fix n assume "q = frame_of (pt_get s pd n)" "n < 960" "present (pt_get s pd n)"
        then show False using e tables_okD(2) [OF space_okD(2) [OF ok], of n] by simp
      qed (use e that in simp)
    qed
    then show ?thesis using get [OF pd(2) that(1)] F(2) by auto
  qed
  ultimately show ?thesis unfolding unmapped_def diff al
    using sp own walk view left by (auto simp: fun_eq_iff)
qed

text \<open>A page, and an empty table.\<close>

lemma drop_page:
  assumes ok: "space_ok base f s pd" and i: "512 \<le> i" "i < 960" "present (pt_get s pd i)" and T: "T = frame_of (pt_get s pd i)"
    and j: "j < 1024" "present (pt_get s T j)"
  obtains s1 where "dealloc_frame (frame_of (pt_get s T j)) s = Some s1"
    "unmapped base pd {va. pdi_of va = i \<and> pti_of va = j} f s (frame_of (pt_get s T j) # f) (pt_set T j 0 s1)"
    "\<forall>i < 1024. pt_get (pt_set T j 0 s1) pd i = pt_get s pd i"
proof -
  let ?F = "frame_of (pt_get s T j)"
  let ?va = "page_at i j"
  have va: "pdi_of ?va = i" "pti_of ?va = j" "user_va ?va" using page_at_indices [of i j] i(1,2) j(1) by (simp_all add: user_va_pdi)
  obtain x where w: "mmu_walk (mem s) pd ?va = Some x" "x_frame x = ?F"
    using i(3) j(2) by (simp add: mmu_walk_pt_get [OF space_okD(4) [OF ok]] Let_def T va)
  have own: "?F \<in> own s pd" "T \<in> own s pd" "?F \<noteq> pd"
    using ownI(3) [OF va(3) w(1)] ownI(2) [OF va(3)] w(2) va(1) i(3) T space_okD(6) [OF ok va(3) w(1)] by auto
  have ta: "allocated base f s T" "page_aligned T" "T \<noteq> pd" "?F \<noteq> T"
    using own_allocated [OF ok own(2)] tables_okD(2) [OF space_okD(2) [OF ok] _ i(3)] i(2) T
      space_okD(7) [OF ok va(3) w(1) _ i(3)] w(2) by (simp_all add: allocated_def)
  obtain s1 where s1: "dealloc_frame ?F s = Some s1" "\<forall>q j. page_aligned q \<longrightarrow> j < 1024 \<longrightarrow> q \<noteq> ?F \<longrightarrow> pt_get s1 q j = pt_get s q j"
    by (rule dealloc_entry [OF space_okD(1) [OF ok] own_allocated [OF ok own(1)]])
  let ?t = "pt_set T j 0 s1"
  have get: "pt_get ?t q n = (if q = T \<and> n = j then 0 else pt_get s q n)" if "page_aligned q" "n < 1024" "q \<noteq> ?F" for q n
    using that s1(2) ta(2) j(1) by (auto simp: pt_get_set)
  have dir: "pt_get ?t pd n = pt_get s pd n" if "n < 1024" for n
    using get [OF space_okD(4) [OF ok] that] own(3) ta(3) by auto
  have tab: "frame_of (pt_get s pd n) \<noteq> ?F" if "n < 1024" "present (pt_get s pd n)" for n
    using space_okD(7) [OF ok va(3) w(1) that] w(2) by simp
  have walk: "mmu_walk (mem ?t) pd v = (if pdi_of v = i \<and> pti_of v = j then None else mmu_walk (mem s) pd v)" for v
  proof (cases "present (pt_get s pd (pdi_of v))")
    case pr: True
    let ?S = "frame_of (pt_get s pd (pdi_of v))"
    have "pt_get ?t ?S (pti_of v) = (if pdi_of v = i \<and> pti_of v = j then 0 else pt_get s ?S (pti_of v))"
      using get [OF _ pti_of_less tab [OF pdi_of_less pr]] tables_okD(3) [OF space_okD(2) [OF ok] pdi_of_less pr _ _ i(3)] i(2) T by auto
    then show ?thesis using pr by (simp add: mmu_walk_pt_get [OF space_okD(4) [OF ok]] Let_def dir)
  qed (simp add: mmu_walk_pt_get [OF space_okD(4) [OF ok]] Let_def dir)
  have "unmapped base pd {va. pdi_of va = i \<and> pti_of va = j} f s (?F # f) ?t"
  proof (rule drop_frame [OF ok own(1,3) ta(4) _ j(1) s1(1) refl])
    show "T = pd \<and> 512 \<le> j \<and> j < 960 \<or> (\<exists>i. T = frame_of (pt_get s pd i) \<and> 512 \<le> i \<and> i < 960 \<and> present (pt_get s pd i))"
      using i T by blast
    show "v \<in> {va. pdi_of va = i \<and> pti_of va = j} \<longleftrightarrow> x_frame y = ?F" if "user_va v" "mmu_walk (mem s) pd v = Some y" for v y
      using space_okD(8) [OF ok that(1) va(3) that(2) w(1)] w that(2) walk_page [of v ?va] page_at_page [of i j v] i(2) j(1) by auto
  qed (use dir tab walk in auto)
  with that s1(1) dir show thesis by blast
qed

lemma drop_table:
  assumes ok: "space_ok base f s pd" and i: "512 \<le> i" "i < 960" "present (pt_get s pd i)" and T: "T = frame_of (pt_get s pd i)"
    and empty: "\<And>va. pdi_of va = i \<Longrightarrow> mmu_walk (mem s) pd va = None"
  obtains s1 where "dealloc_frame T s = Some s1" "unmapped base pd {} f s (T # f) (pt_set pd i 0 s1)"
proof -
  have i': "i < 1024" using i(2) by simp
  have ta: "T \<in> own s pd" "T \<noteq> pd" using i tables_okD(2) [OF space_okD(2) [OF ok] i' i(3)] T by (auto simp: own_def)
  obtain s1 where s1: "dealloc_frame T s = Some s1" "\<forall>q j. page_aligned q \<longrightarrow> j < 1024 \<longrightarrow> q \<noteq> T \<longrightarrow> pt_get s1 q j = pt_get s q j"
    by (rule dealloc_entry [OF space_okD(1) [OF ok] own_allocated [OF ok ta(1)]])
  let ?t = "pt_set pd i 0 s1"
  note al = space_okD(4) [OF ok]
  have get: "pt_get ?t q n = (if q = pd \<and> n = i then 0 else pt_get s q n)" if "page_aligned q" "n < 1024" "q \<noteq> T" for q n
    using that s1(2) al i' by (auto simp: pt_get_set)
  have tab: "n = i \<longleftrightarrow> frame_of (pt_get s pd n) = T" if "n < 1024" "present (pt_get s pd n)" for n
    using tables_okD(3) [OF space_okD(2) [OF ok] that i' _ i(3)] T by auto
  have walk: "mmu_walk (mem ?t) pd v = mmu_walk (mem s) pd v" for v
  proof (cases "pdi_of v = i")
    case True
    then show ?thesis using empty [OF True] get [OF al i'] ta(2) by (simp add: mmu_walk_pt_get [OF al] Let_def)
  next
    case False
    have "frame_of (pt_get s pd (pdi_of v)) \<noteq> T \<and> frame_of (pt_get s pd (pdi_of v)) \<noteq> pd" if "present (pt_get s pd (pdi_of v))"
      using tab [OF pdi_of_less that] False tables_okD(2) [OF space_okD(2) [OF ok] pdi_of_less that] by simp
    then show ?thesis using False get ta(2) al by (intro mmu_walk_cong al) auto
  qed
  have "unmapped base pd {} f s (T # f) ?t"
  proof (rule drop_frame [OF ok ta ta(2) _ i' s1(1) refl])
    show "pt_get ?t pd n = (if present (pt_get s pd n) \<and> frame_of (pt_get s pd n) = T then 0 else pt_get s pd n)" if "n < 1024" for n
      using get [OF al that] ta(2) tab [OF that] i(3) T by auto
    show "v \<in> {} \<longleftrightarrow> x_frame y = T" if "user_va v" "mmu_walk (mem s) pd v = Some y" for v y
      using space_okD(7) [OF ok that i' i(3)] T by simp
  qed (use i walk in auto)
  with that s1(1) show thesis by blast
qed

section \<open>The pages of a region\<close>

lemma clear_ptes_ok:
  assumes ok: "space_ok base f s pd" and i: "512 \<le> i" "i < 960" "present (pt_get s pd i)" and T: "T = frame_of (pt_get s pd i)"
    and n: "fin \<le> 1024"
  obtains t f' where "clear_ptes T start fin s = Some t"
    "unmapped base pd {va. pdi_of va = i \<and> start \<le> pti_of va \<and> pti_of va < fin} f s f' t"
    "\<forall>n < 1024. pt_get t pd n = pt_get s pd n"
proof -
  let ?V = "\<lambda>j. {va. pdi_of va = i \<and> start \<le> pti_of va \<and> pti_of va < j}"
  let ?I = "\<lambda>j t. (\<exists>f'. unmapped base pd (?V j) f s f' t) \<and> (\<forall>n < 1024. pt_get t pd n = pt_get s pd n)"
  have "unmapped base pd (?V start) f s f s" by (rule unmapped_refl [OF ok]) auto
  then have "?I start s" by blast
  then have "\<exists>t. clear_ptes T start fin s = Some t \<and> ?I (start + (fin - start)) t"
    unfolding clear_ptes_def
  proof (rule for_loop_total)
    fix j t assume j: "start \<le> j" "j < start + (fin - start)" and "?I j t"
    then obtain f1 where u: "unmapped base pd (?V j) f s f1 t" and dir: "\<forall>n < 1024. pt_get t pd n = pt_get s pd n" by blast
    have j': "j < 1024" and e: "present (pt_get t pd i)" "T = frame_of (pt_get t pd i)" using j n i dir T by simp_all
    have V: "?V j \<union> {va. pdi_of va = i \<and> pti_of va = j} = ?V (Suc j)" using j(1) by auto
    show "\<exists>t'. (if present (pt_get t T j) then do {
        s' \<leftarrow> dealloc_frame (frame_of (pt_get t T j)) t; Some (pt_set T j 0 s') } else Some t) = Some t' \<and> ?I (Suc j) t'"
    proof (cases "present (pt_get t T j)")
      case True
      obtain s1 where 1: "dealloc_frame (frame_of (pt_get t T j)) t = Some s1"
          "unmapped base pd {va. pdi_of va = i \<and> pti_of va = j} f1 t (frame_of (pt_get t T j) # f1) (pt_set T j 0 s1)"
          "\<forall>n < 1024. pt_get (pt_set T j 0 s1) pd n = pt_get t pd n"
        by (rule drop_page [OF unmappedD(1) [OF u] i(1,2) e j' True])
      then show ?thesis using True unmapped_trans [OF u 1(2)] dir V by auto
    next
      case False
      then have "mmu_walk (mem t) pd va = None" if "pdi_of va = i" "pti_of va = j" for va
        using that e by (simp add: mmu_walk_pt_get [OF space_okD(4) [OF ok]] Let_def)
      then have "unmapped base pd {va. pdi_of va = i \<and> pti_of va = j} f1 t f1 t"
        by (intro unmapped_refl unmappedD(1) [OF u]) simp
      from unmapped_trans [OF u this, unfolded V] show ?thesis using False dir by auto
    qed
  qed
  moreover have "?V (start + (fin - start)) = ?V fin" by auto
  ultimately show thesis using that by auto
qed

text \<open>A region of whole pages, table by table.\<close>

abbreviation addresses :: "region \<Rightarrow> u32 set" where
  "addresses r \<equiv> {va. r_start r \<le> va \<and> va < r_end r}"

definition user_region :: "region \<Rightarrow> bool" where
  "user_region r \<longleftrightarrow> page_aligned (r_start r) \<and> page_aligned (r_end r) \<and> 0x80000000 \<le> r_start r \<and>
     r_start r < r_end r \<and> r_end r \<le> 0xF0000000"

lemma user_region_va: "user_region r \<Longrightarrow> va \<in> addresses r \<Longrightarrow> user_va va"
  unfolding user_region_def user_va_def using order_trans less_le_trans by blast

lemma le_digits: "(m :: nat) \<le> n \<longleftrightarrow> m div c < n div c \<or> m div c = n div c \<and> m mod c \<le> n mod c"
proof (cases "m div c = n div c")
  case True
  then show ?thesis using div_mult_mod_eq [of m c] div_mult_mod_eq [of n c] by (metis add_le_cancel_left less_irrefl)
next
  case False
  then show ?thesis by (metis div_le_mono le_neq_implies_less linorder_not_le nle_le)
qed

lemma aligned_le_iff:
  assumes "page_aligned a"
  shows "a \<le> va \<longleftrightarrow> pdi_of a < pdi_of va \<or> pdi_of a = pdi_of va \<and> pti_of a \<le> pti_of va"
proof -
  have a: "unat a = 4096 * (unat a div 4096)" using assms by (metis page_aligned_unat add.right_neutral mult_div_mod_eq)
  have p: "pdi_of v = unat v div 4096 div 1024" for v by (simp add: pdi_of_div flip: div_mult2_eq)
  have "a \<le> va \<longleftrightarrow> unat a div 4096 \<le> unat va div 4096"
    unfolding word_le_nat_alt by (subst a) (simp add: less_eq_div_iff_mult_less_eq mult.commute)
  also have "\<dots> \<longleftrightarrow> pdi_of a < pdi_of va \<or> pdi_of a = pdi_of va \<and> pti_of a \<le> pti_of va"
    unfolding p pti_of_div by (rule le_digits)
  finally show ?thesis .
qed

lemma slice_arith:
  fixes a b c d i p q :: nat
  assumes "q < 1024"
  shows "((a < p \<or> a = p \<and> b \<le> q) \<and> \<not> (c < p \<or> c = p \<and> d \<le> q)) \<and> p = i \<longleftrightarrow>
    p = i \<and> a \<le> i \<and> i \<le> c \<and> (if i = a then b else 0) \<le> q \<and> q < (if i = c then d else 1024)"
  using assms by (cases "i = a"; cases "i = c") auto

text \<open>What the loops of \<^verbatim>\<open>remove_from_vmequeue\<close> take at one entry of the directory.\<close>

lemma region_slice:
  assumes "user_region r"
  shows "va \<in> addresses r \<and> pdi_of va = i \<longleftrightarrow> pdi_of va = i \<and> pdi_of (r_start r) \<le> i \<and> i \<le> pdi_of (r_end r) \<and>
    (if i = pdi_of (r_start r) then pti_of (r_start r) else 0) \<le> pti_of va \<and>
    pti_of va < (if i = pdi_of (r_end r) then pti_of (r_end r) else 1024)"
proof -
  have a: "page_aligned (r_start r)" "page_aligned (r_end r)" using assms by (simp_all add: user_region_def)
  have e: "va < r_end r \<longleftrightarrow> \<not> r_end r \<le> va" by auto
  show ?thesis
    unfolding mem_Collect_eq e aligned_le_iff [OF a(1)] aligned_le_iff [OF a(2)] by (rule slice_arith [OF pti_of_less])
qed

lemma user_region_pdi:
  assumes "user_region r"
  shows "512 \<le> pdi_of (r_start r)" "pdi_of (r_start r) \<le> pdi_of (r_end r)" "pdi_of (r_end r) \<le> 960"
    "pdi_of (r_end r) = 960 \<Longrightarrow> pti_of (r_end r) = 0"
proof -
  have u: "0x80000000 \<le> unat (r_start r)" "unat (r_start r) \<le> unat (r_end r)" "unat (r_end r) \<le> 0xF0000000"
    using assms by (simp_all add: user_region_def word_le_nat_alt word_less_nat_alt)
  show "512 \<le> pdi_of (r_start r)" "pdi_of (r_start r) \<le> pdi_of (r_end r)" "pdi_of (r_end r) \<le> 960"
    using div_le_mono [OF u(1), of 4194304] div_le_mono [OF u(2), of 4194304] div_le_mono [OF u(3), of 4194304]
    by (simp_all add: pdi_of_div)
  assume "pdi_of (r_end r) = 960"
  then have "r_end r = 0xF0000000" using u(3) div_mult_mod_eq [of "unat (r_end r)" 4194304] by (simp add: pdi_of_div word_unat_eq_iff)
  then show "pti_of (r_end r) = 0" by (simp add: pti_of_div)
qed

lemma free_region_ok:
  assumes ok: "space_ok base f s pd" and r: "user_region r"
  obtains t f' where "free_region pd r s = Some t" "unmapped base pd (addresses r) f s f' t"
proof -
  let ?a = "pdi_of (r_start r)" and ?b = "pdi_of (r_end r)"
  let ?V = "\<lambda>i. {va \<in> addresses r. pdi_of va < i}"
  let ?I = "\<lambda>i t. \<exists>f'. unmapped base pd (?V i) f s f' t"
  note b = user_region_pdi [OF r]
  have sl: "{va \<in> addresses r. pdi_of va = i} = {va. pdi_of va = i \<and> (if i = ?a then pti_of (r_start r) else 0) \<le> pti_of va \<and>
      pti_of va < (if i = ?b then pti_of (r_end r) else 1024)}" if "?a \<le> i" "i \<le> ?b" for i
    using region_slice [OF r] that by blast
  have ab: "?a \<le> pdi_of va \<and> pdi_of va \<le> ?b" if "va \<in> addresses r" for va using region_slice [OF r, of va "pdi_of va"] that by simp
  then have "unmapped base pd (?V ?a) f s f s" by (intro unmapped_refl [OF ok]) fastforce
  then have "?I ?a s" by blast
  then have "\<exists>t. free_region pd r s = Some t \<and> ?I (?a + (Suc ?b - ?a)) t"
    unfolding free_region_def
  proof (rule for_loop_total)
    fix i t assume i: "?a \<le> i" "i < ?a + (Suc ?b - ?a)" and "?I i t"
    then obtain f1 where u: "unmapped base pd (?V i) f s f1 t" by blast
    have i': "512 \<le> i" "i \<le> ?b" using i b by simp_all
    let ?start = "if i = ?a then pti_of (r_start r) else 0" and ?fin = "if i = ?b then pti_of (r_end r) else 1024"
    let ?S = "{va \<in> addresses r. pdi_of va = i}"
    let ?B = "if present (pt_get t pd i) then do {
        let page_table = frame_of (pt_get t pd i);
        let start = ?start;
        let fin = ?fin;
        s1 \<leftarrow> clear_ptes page_table start fin t;
        if start = 0 \<and> fin = 1024 then do { s2 \<leftarrow> dealloc_frame page_table s1; Some (pt_set pd i 0 s2) }
        else Some s1 } else Some t"
    have V: "?V i \<union> ?S = ?V (Suc i)" by auto
    have step: "?I (Suc i) t'" if "unmapped base pd ?S f1 t f' t'" for f' t'
      using unmapped_trans [OF u that] unfolding V by blast
    note ok1 = unmappedD(1) [OF u] and S = sl [OF i(1) i'(2)]
    have "\<exists>t' f'. ?B = Some t' \<and> unmapped base pd ?S f1 t f' t'"
    proof (cases "present (pt_get t pd i) \<and> i < 960")
      case pr: True
      let ?T = "frame_of (pt_get t pd i)"
      have f: "?fin \<le> 1024" using less_imp_le [OF pti_of_less [of "r_end r"]] by simp
      have p: "i < 960" "present (pt_get t pd i)" using pr by simp_all
      obtain t1 f2 where 1: "clear_ptes ?T ?start ?fin t = Some t1" "unmapped base pd ?S f1 t f2 t1"
          "\<forall>n < 1024. pt_get t1 pd n = pt_get t pd n"
        unfolding S by (rule clear_ptes_ok [OF ok1 i'(1) p refl f])
      show ?thesis
      proof (cases "?start = 0 \<and> ?fin = 1024")
        case True
        have d: "present (pt_get t1 pd i)" "frame_of (pt_get t1 pd i) = ?T" using 1(3) pr by simp_all
        have "mmu_walk (mem t1) pd va = None" if "pdi_of va = i" for va
        proof -
          have "va \<in> ?S" unfolding S using that True by simp
          then show ?thesis using that unmappedD(6) [OF 1(2), of va] pr i'(1) by (simp add: user_va_pdi)
        qed
        then obtain s2 where 2: "dealloc_frame ?T t1 = Some s2" "unmapped base pd {} f2 t1 (?T # f2) (pt_set pd i 0 s2)"
          using drop_table [OF unmappedD(1) [OF 1(2)] i'(1) _ d(1)] pr d(2) by metis
        show ?thesis using True pr 1(1) 2(1) unmapped_trans [OF 1(2) 2(2)] by auto
      qed (use pr 1(1,2) in auto)
    next
      case False
      then consider "\<not> present (pt_get t pd i)" | "present (pt_get t pd i)" "i = 960" using i'(2) b(3) by linarith
      then show ?thesis
      proof cases
        case 1
        then have "unmapped base pd ?S f1 t f1 t"
          by (intro unmapped_refl [OF ok1]) (simp add: mmu_walk_pt_get [OF space_okD(4) [OF ok1]] Let_def)
        then show ?thesis using 1 by auto
      next
        case 2
        then have "?b = 960" "?fin = 0" using i'(2) b by auto
        then have "?S = {}" unfolding S by simp
        then have "unmapped base pd ?S f1 t f1 t" by (intro unmapped_refl [OF ok1]) blast
        moreover have "clear_ptes (frame_of (pt_get t pd i)) ?start ?fin t = Some t" by (simp add: \<open>?fin = 0\<close> clear_ptes_def)
        ultimately show ?thesis using 2(1) \<open>?fin = 0\<close> by (simp add: Let_def del: mem_Collect_eq) blast
      qed
    qed
    then show "\<exists>t'. ?B = Some t' \<and> ?I (Suc i) t'"
      using step by blast
  qed
  moreover have "?V (?a + (Suc ?b - ?a)) = addresses r" using ab b(2) by (auto simp: less_Suc_eq_le)
  ultimately show thesis using that by auto
qed

section \<open>Properties\<close>

text \<open>
  C16.  \<^verbatim>\<open>simple_munmap\<close>.  The call fails, and changes nothing the process can see, exactly when no
  region of the process holds the address.  Otherwise it returns 0 and takes out the one region that
  does: no address of it is mapped or covered by a region any more; every other byte reads as before,
  and every other address is covered as before.  Exactly the frames the process no longer has, its
  pages there and the tables that lie in the region as a whole, are free again; every process with
  frames of its own sees what it saw.
\<close>

theorem munmap_correct:
  assumes args: "args_ready base f k uc 1 A" and m: "mine k = Some pcb" "pcb_directory pcb = getCR3 k"
    and rs: "regions_ok (queue pcb)" "\<forall>r \<in> set (queue pcb). user_region r"
  shows "if covered (queue pcb) (argv k uc 1)
    then \<exists>s1 f1 s f' r rs'. sys_munmap uc k = Done 0 (put_pcb (active k) (pcb\<lparr>queue := rs'\<rparr>) (set_pm s k)) \<and>
      r \<in> set (queue pcb) \<and> argv k uc 1 \<in> addresses r \<and> regions_ok rs' \<and>
      (\<forall>a. covered rs' a \<longleftrightarrow> covered (queue pcb) a \<and> a \<notin> addresses r) \<and>
      space_ok base f' s (getCR3 k) \<and> (\<forall>a \<in> addresses r. mmu_walk (mem s) (getCR3 k) a = None) \<and>
      kview (set_pm s k) = (\<lambda>a. if a \<in> addresses r then 0 else kview k a) \<and>
      confined base (getCR3 k) f (pm_of k) f1 s1 \<and>
      frames_left f' s = frames_left f1 s1 + card (own s1 (getCR3 k) - own s (getCR3 k)) \<and>
      (\<forall>pd2. space_ok base f (pm_of k) pd2 \<and> own (pm_of k) (getCR3 k) \<inter> own (pm_of k) pd2 = {} \<longrightarrow>
         user_view pd2 s = user_view pd2 (pm_of k))
    else \<exists>s. sys_munmap uc k = Done (- 1) (set_pm s k) \<and> kview (set_pm s k) = kview k"
proof -
  let ?pd = "getCR3 k" and ?a = "argv k uc 1"
  obtain s1 f1 where 1: "arg 1 uc k = Done ?a (set_pm s1 k)" "unseen base f k A f1 s1"
    by (rule argE [OF args, of 1]) simp_all
  note u = unseenD [OF 1(2)]
  have ok1: "space_ok base f1 s1 ?pd" using u(1) m(1) by (simp add: kready_def accessible_def)
  have put: "put_pcb (active k) pcb (set_pm s1 k) = set_pm s1 k" using m(1) by (auto simp: put_pcb_def mine_def set_pm_def fun_upd_idem)
  have cov: "0x80000000 \<le> ?a \<and> ?a < 0xF0000000" if c: "covered (queue pcb) ?a"
  proof -
    obtain r where "r \<in> set (queue pcb)" "r_start r \<le> ?a" "?a < r_end r" using c by (auto simp: covered_def list_ex_iff)
    then show ?thesis using rs(2) user_region_va [of r ?a] by (simp add: user_va_def)
  qed
  show ?thesis
  proof (cases "remove_region ?a (queue pcb)")
    case None
    then have "sys_munmap uc k = Done (- 1) (set_pm s1 k)"
      using 1(1) m put by (simp add: sys_munmap_def remove_from_vmequeue_def)
    moreover have "\<not> covered (queue pcb) ?a" using remove_region_correct [OF rs(1), of ?a] None by simp
    ultimately show ?thesis using u(2) by auto
  next
    case (Some p)
    then obtain r rs' where "remove_region ?a (queue pcb) = Some (r, rs')" by (cases p) simp
    then have r: "remove_region ?a (queue pcb) = Some (r, rs')" "r \<in> set (queue pcb)" "?a \<in> addresses r" "regions_ok rs'"
        "\<forall>a. covered rs' a \<longleftrightarrow> covered (queue pcb) a \<and> a \<notin> addresses r"
      using remove_region_correct [OF rs(1), of ?a] by simp_all
    have True: "covered (queue pcb) ?a" using r(2,3) by (auto simp: covered_def list_ex_iff)
    have ur: "user_region r" using rs(2) r(2) by blast
    obtain s f' where s: "free_region ?pd r s1 = Some s" "unmapped base ?pd (addresses r) f1 s1 f' s"
      by (rule free_region_ok [OF ok1 ur])
    note d = unmappedD [OF s(2)]
    have run: "sys_munmap uc k = Done 0 (put_pcb (active k) (pcb\<lparr>queue := rs'\<rparr>) (set_pm s k))"
      using 1(1) m r(1) s(1) cov [OF True] by (simp add: sys_munmap_def remove_from_vmequeue_def not_less not_le)
    have view: "kview (set_pm s k) = (\<lambda>a. if a \<in> addresses r then 0 else kview k a)" using d(7) u(2) by (simp add: kview_def fun_eq_iff)
    have other: "user_view pd2 s = user_view pd2 (pm_of k)"
      if "space_ok base f (pm_of k) pd2" "own (pm_of k) ?pd \<inter> own (pm_of k) pd2 = {}" for pd2
      using confined_other [OF u(3) space_okD(1) [OF ok1] that] unmapped_other [OF s(2)] by metis
    have none: "\<forall>a \<in> addresses r. mmu_walk (mem s) ?pd a = None" using d(6) user_region_va [OF ur] by simp
    show ?thesis unfolding if_P [OF True]
      by (rule exI [of _ s1], rule exI [of _ f1], rule exI [of _ s], rule exI [of _ f'], rule exI [of _ r], rule exI [of _ rs'])
        (use run r view other none d(1,5) u(3) in blast)
  qed
qed

text \<open>The small machine gives back its stack, with the page the argument was read from.\<close>

lemma munmap_correct_witness:
  "\<exists>k'. sys_munmap ex_context (ex_kernel [0, 0xEFFFF123] (PCB_new 0x600000) Map.empty) = Done 0 k' \<and>
     kview k' 0xEFFFF004 = 0 \<and> kview (ex_kernel [0, 0xEFFFF123] (PCB_new 0x600000) Map.empty) 0xEFFFF004 = 0x23"
proof -
  let ?k = "ex_kernel [0, 0xEFFFF123] (PCB_new 0x600000) Map.empty"
  have q: "queue (PCB_new 0x600000) = [new_region 0xEFF00000 0x100000]" by (simp add: PCB_new_def add_region_def insert_at_def new_region_def)
  have argv: "argv ?k ex_context 1 = 0xEFFFF123" by (simp add: ex_argv)
  have a: "args_ready 0x600000 [] ?k ex_context 1 (span 0xEFFFF000 4096)" by (rule args_ready_less [OF ex_ready(4)]) simp
  have r: "regions_ok (queue (PCB_new 0x600000))" "\<forall>r \<in> set (queue (PCB_new 0x600000)). user_region r"
    by (simp_all add: q regions_ok_def region_ok_def user_region_def new_region_def page_aligned_def)
  have c: "covered (queue (PCB_new 0x600000)) (argv ?k ex_context 1)" unfolding q argv by (simp add: covered_def new_region_def)
  have v: "kview ?k 0xEFFFF004 = 0x23"
    using ex_page_view [of 4 "[0, 0xEFFFF123]"] by (simp add: kview_def ex_ready pm_of_def word_byte_def) (simp add: ex_kernel_def)
  have d: "pcb_directory (PCB_new 0x600000) = getCR3 ?k" by (simp add: PCB_new_def ex_ready)
  obtain s rs' r where m: "sys_munmap ex_context ?k = Done 0 (put_pcb (active ?k) ((PCB_new 0x600000)\<lparr>queue := rs'\<rparr>) (set_pm s ?k))"
      "r \<in> set (queue (PCB_new 0x600000))" "kview (set_pm s ?k) = (\<lambda>a. if a \<in> addresses r then 0 else kview ?k a)"
    using munmap_correct [OF a ex_ready(1) d r, unfolded if_P [OF c]] by blast
  have "kview (put_pcb p x (set_pm s ?k)) = kview (set_pm s ?k)" for p x by (simp add: kview_def)
  then show ?thesis using m v by (auto simp: q new_region_def)
qed

end
