(* ===== verification/Program_Load.thy ===== *)
theory Program_Load
  imports Sys_Memory
begin

text \<open>
  \<^verbatim>\<open>ELF::load\<close> as \<^verbatim>\<open>execl\<close> and \<^verbatim>\<open>kernelMain\<close> run it (\<^verbatim>\<open>kernel/elf.cc\<close>): each segment adds a region to the
  process and then writes the bytes of the file through the page tables, which takes the page faults
  that give the region its pages.  The result is the image \<open>image_at\<close> of \<open>Elf\<close>.
\<close>

section \<open>Stores under a growing list of regions\<close>

abbreviation with_regions :: "region list \<Rightarrow> PCB \<Rightarrow> kernel \<Rightarrow> kernel" where
  "with_regions Q pcb k \<equiv> put_pcb (active k) (pcb\<lparr>queue := Q\<rparr>) k"

text \<open>
  The memory \<open>B\<close> will be accessible once the process has the regions \<open>Q\<close>; the addresses \<open>A\<close> of it
  are covered by the regions it has now.
\<close>

definition filling :: "u32 \<Rightarrow> region list \<Rightarrow> u32 set \<Rightarrow> ptr list \<Rightarrow> kernel \<Rightarrow> u32 set \<Rightarrow> bool" where
  "filling base Q B f k A \<longleftrightarrow> A \<subseteq> B \<and>
     (case mine k of None \<Rightarrow> False
      | Some pcb \<Rightarrow> kready base f (with_regions Q pcb k) B \<and> (\<forall>va \<in> A. covered (queue pcb) va))"

lemma fillingE:
  assumes "filling base Q B f k A"
  obtains pcb where "mine k = Some pcb" "A \<subseteq> B" "finite B" "accessible base Q (getCR3 k) f (pm_of k) B"
    "\<forall>va \<in> A. covered (queue pcb) va"
  using assms by (auto simp: filling_def kready_def split: option.splits)

lemma page_in_regions:
  "covered rs va \<Longrightarrow> mmu_walk (mem s) pd va = None \<longrightarrow> covered Q va \<Longrightarrow> page_in rs pd va s = page_in Q pd va s"
  by (auto simp: page_in_def contains_covered phys_addr_def split: option.splits)

interpretation fill: flat_memory kload8 kstore8 kview "filling base Q B" "paged_in base" for base Q B
proof
  fix f k A va
  assume fl: "filling base Q B f k A" and va: "va \<in> A"
  obtain pcb where p: "mine k = Some pcb" "A \<subseteq> B" "finite B" "accessible base Q (getCR3 k) f (pm_of k) B"
      "\<forall>va \<in> A. covered (queue pcb) va"
    using fl by (rule fillingE)
  have eq: "page_in (queue pcb) (getCR3 k) va (pm_of k) = page_in Q (getCR3 k) va (pm_of k)"
    using p(2,4,5) va by (intro page_in_regions) (auto simp: accessible_def)
  have B: "va \<in> B" using p(2) va by blast
  have rd: "filling base Q B f' (set_pm s k) A" if "accessible base Q (getCR3 k) f' s B" for f' s
    using that p by (simp add: filling_def kready_def)
  obtain s f' where "load8 Q (getCR3 k) va (pm_of k) = Done (kview k va) s"
      "accessible base Q (getCR3 k) f' s B" "confined base (getCR3 k) f (pm_of k) f' s"
      "user_view (getCR3 k) s = kview k"
    using load8_ok [OF p(4) B p(3)] by (auto simp: kview_def)
  then show "\<exists>k' f'. kload8 va k = Done (kview k va) k' \<and> filling base Q B f' k' A \<and> paged_in base f k f' k' \<and> kview k' = kview k"
    using p(1) user_access_Done [OF p(1), of "\<lambda>rs pd. load8 rs pd va"] rd
    by (intro exI [of _ "set_pm s k"] exI [of _ f']) (simp add: kload8_def load8_def eq paged_in_def kview_def)
  fix b
  obtain s f' where "store8 Q (getCR3 k) va b (pm_of k) = Done () s"
      "accessible base Q (getCR3 k) f' s B" "confined base (getCR3 k) f (pm_of k) f' s"
      "user_view (getCR3 k) s = (kview k)(va := b)"
    using store8_ok [OF p(4) B p(3), of b] by (auto simp: kview_def)
  then show "\<exists>k' f'. kstore8 va b k = Done () k' \<and> filling base Q B f' k' A \<and> paged_in base f k f' k' \<and> kview k' = (kview k)(va := b)"
    using p(1) user_access_Done [OF p(1), of "\<lambda>rs pd. store8 rs pd va b"] rd
    by (intro exI [of _ "set_pm s k"] exI [of _ f']) (simp add: kstore8_def store8_def eq paged_in_def kview_def)
next
  show "paged_in base f k f k" for f k by (simp add: paged_in_def confined_def)
qed (rule kmem.hist_trans)

section \<open>The segments\<close>

abbreviation regions_after :: "ProgramHeader list \<Rightarrow> region list \<Rightarrow> region list" where
  "regions_after ps rs \<equiv> fold (\<lambda>p rs. if ph_type p = 1 then snd (add_region (aligned_region p) rs) else rs) ps rs"

text \<open>A segment \<open>load\<close> can put in place: in the user range, and no longer in the file than in memory.\<close>

definition loadable :: "ProgramHeader \<Rightarrow> bool" where
  "loadable p \<longleftrightarrow> 0x80000000 \<le> unat (ph_vaddr p) \<and> unat (ph_vaddr p) + unat (ph_memsz p) < 0xF0001000 \<and>
     ph_filesz p \<le> ph_memsz p"

lemma loadable_covered:
  assumes "loadable p" "va \<in> span (ph_vaddr p) (unat (ph_filesz p))"
  shows "covered (snd (add_region (aligned_region p) rs)) va"
proof -
  obtain i where i: "i < unat (ph_filesz p)" "va = ph_vaddr p + of_nat i" using assms(2) by (auto simp: span_def)
  have b: "unat (ph_vaddr p) + unat (ph_memsz p) < 0xF0001000" "unat (ph_filesz p) \<le> unat (ph_memsz p)"
    using assms(1) by (simp_all add: loadable_def word_le_nat_alt)
  then have "unat (of_nat i :: u32) = i" using i(1) by (simp add: unat_of_nat)
  then have "unat va = unat (ph_vaddr p) + i" using b i by (simp only: i(2)) (subst unat_add_no_wrap, simp_all)
  then show ?thesis using assms(1) b i(1) by (intro segment_region) (simp_all add: loadable_def)
qed

lemma kload_loop_ok:
  assumes "block_device io content" "mine k = Some pcb" "kready base f (with_regions (regions_after ps (queue pcb)) pcb k) B"
    and "\<And>p. p \<in> set ps \<Longrightarrow> ph_type p = 1 \<Longrightarrow> loadable p \<and> span (ph_vaddr p) (unat (ph_filesz p)) \<subseteq> B"
  shows "\<exists>s f'. kload_loop io ps k = Done () (set_pm s (with_regions (regions_after ps (queue pcb)) pcb k)) \<and>
    kready base f' (set_pm s (with_regions (regions_after ps (queue pcb)) pcb k)) B \<and>
    kview (set_pm s k) = (\<lambda>x. case image_at io content ps x of None \<Rightarrow> kview k x | Some b \<Rightarrow> b) \<and>
    confined base (getCR3 k) f (pm_of k) f' s"
  using assms(2-4)
proof (induction ps arbitrary: k pcb f)
  case Nil
  have "put_pcb (active k) pcb k = k" using Nil.prems(1) by (auto simp: put_pcb_def mine_def fun_upd_idem)
  then show ?case using Nil.prems
    by (intro exI [of _ "pm_of k"] exI [of _ f]) (auto simp: image_at_def confined_def kview_def)
next
  case (Cons p ps)
  show ?case
  proof (cases "ph_type p = 1")
    case False
    then have "image_at io content (p # ps) = image_at io content ps" by (auto simp: image_at_def find_append fun_eq_iff split: option.splits)
    then show ?thesis using Cons.IH [OF Cons.prems(1), of f] Cons.prems(2,3) False by simp
  next
    case True
    let ?n = "unat (ph_offset p)"
    let ?bs = "map content [?n..<?n + seg_len io p]"
    define pcb1 where "pcb1 = pcb\<lparr>queue := snd (add_region (aligned_region p) (queue pcb))\<rparr>"
    define k1 where "k1 = put_pcb (active k) pcb1 k"
    let ?Q = "regions_after ps (queue pcb1)"
    obtain cnt where r: "read_all io (ph_offset p) (ph_filesz p) = Some (cnt, ?bs)" using read_segment [OF assms(1)] by blast
    have k1: "mine k1 = Some pcb1" "pm_of k1 = pm_of k" "getCR3 k1 = getCR3 k" "active k1 = active k" by (simp_all add: k1_def)
    have Q: "regions_after (p # ps) (queue pcb) = ?Q" using True by (simp add: pcb1_def)
    have wr: "with_regions R pcb1 (set_pm s k1) = set_pm s (with_regions R pcb k)" for R s
      by (simp add: k1_def pcb1_def put_pcb_def set_pm_def)
    have ld: "loadable p" "span (ph_vaddr p) (unat (ph_filesz p)) \<subseteq> B" using Cons.prems(3) [of p] True by simp_all
    have len: "length ?bs \<le> unat (ph_filesz p)" by (simp add: seg_len_def)
    have sp: "span (ph_vaddr p) (length ?bs) \<subseteq> span (ph_vaddr p) (unat (ph_filesz p))"
      using span_sub [of 0 "length ?bs" "unat (ph_filesz p)" "ph_vaddr p"] len by simp
    have wr1: "with_regions ?Q pcb1 k1 = with_regions ?Q pcb k" by (simp add: k1_def pcb1_def put_pcb_def)
    have "filling base ?Q B f k1 (span (ph_vaddr p) (length ?bs))"
      using k1(1) Cons.prems(2) [unfolded Q] ld sp loadable_covered [OF ld(1)]
      unfolding filling_def k1(1) option.case wr1 by (auto simp: pcb1_def)
    moreover have "\<forall>i < length ?bs. ph_vaddr p + of_nat i \<in> span (ph_vaddr p) (length ?bs)" using span_mem by blast
    moreover have "length ?bs \<le> 4294967296" using len unat_lt_32 [of "ph_filesz p"] by linarith
    ultimately obtain k2 f1 where 2: "store_bytes kstore8 (ph_vaddr p) ?bs k1 = Done () k2" "filling base ?Q B f1 k2 (span (ph_vaddr p) (length ?bs))"
        "paged_in base f k1 f1 k2" "kview k2 = write_bytes (ph_vaddr p) ?bs (kview k1)"
      using fill.store_bytes_ok by blast
    obtain s1 where s1: "k2 = set_pm s1 k1" "confined base (getCR3 k) f (pm_of k) f1 s1" using paged_inE [OF 2(3)] k1 by metis
    have m: "mine (set_pm s1 k1) = Some pcb1" using k1(1) by simp
    have "kready base f1 (with_regions ?Q pcb1 (set_pm s1 k1)) B" using 2(2) m unfolding s1(1) filling_def by simp
    from Cons.IH [OF m this] Cons.prems(3) obtain s2 f2 where
      3: "kload_loop io ps (set_pm s1 k1) = Done () (set_pm s2 (with_regions ?Q pcb k))"
        "kready base f2 (set_pm s2 (with_regions ?Q pcb k)) B" "confined base (getCR3 k) f1 s1 f2 s2"
        "kview (set_pm s2 k) = (\<lambda>x. case image_at io content ps x of None \<Rightarrow> kview (set_pm s1 k1) x | Some b \<Rightarrow> b)"
      unfolding wr by (auto simp: k1(3) kview_def)
    have "kload_loop io (p # ps) k = Done () (set_pm s2 (with_regions ?Q pcb k))"
      using True Cons.prems(1) r 2(1) 3(1) by (simp add: pcb1_def [symmetric] k1_def [symmetric] s1(1) Let_def)
    moreover have "(case image_at io content ps x of None \<Rightarrow> kview (set_pm s1 k1) x | Some b \<Rightarrow> b) =
        (case image_at io content (p # ps) x of None \<Rightarrow> kview k x | Some b \<Rightarrow> b)" for x
      using True 2(4) by (simp add: s1(1) image_at_def find_append write_bytes_def kview_def k1(2,3) split: option.splits)
    ultimately show ?thesis unfolding Q using 3(2,4) confined_trans [OF s1(2) 3(3)] by (intro exI [of _ s2] exI [of _ f2]) simp
  qed
qed

text \<open>The memory the bytes of a program go to, and that its regions cover it.\<close>

definition file_memory :: "ProgramHeader list \<Rightarrow> u32 set" where
  "file_memory ps = (\<Union>p \<in> {p \<in> set ps. ph_type p = 1}. span (ph_vaddr p) (unat (ph_filesz p)))"

lemma finite_file_memory: "finite (file_memory ps)"
  by (simp add: file_memory_def)

lemma file_memory_covered:
  assumes "va \<in> file_memory ps" "\<forall>p \<in> set ps. ph_type p = 1 \<longrightarrow> loadable p"
  shows "covered (regions_after ps rs) va"
proof -
  obtain q where q: "q \<in> set ps" "ph_type q = 1" "va \<in> span (ph_vaddr q) (unat (ph_filesz q))"
    using assms(1) by (auto simp: file_memory_def)
  then obtain us vs where "ps = us @ q # vs" by (auto dest: split_list)
  then show ?thesis using q assms(2) by (simp add: covered_fold loadable_covered)
qed

text \<open>The program as a whole.\<close>

lemma kelf_load_ok:
  assumes f: "node_ok (disk_image k) node" "read_header (Node_io (disk_image k) node) = Some h"
      "read_phs (Node_io (disk_image k) node) h 0 (unat (eh_phnum h)) = Some ps"
    and k: "mine k = Some pcb" "kready base f (with_regions (regions_after ps (queue pcb)) pcb k) B"
    and ld: "\<And>p. p \<in> set ps \<Longrightarrow> ph_type p = 1 \<Longrightarrow> loadable p \<and> span (ph_vaddr p) (unat (ph_filesz p)) \<subseteq> B"
  obtains s f' where "kelf_load node k = Done (eh_entry h) (set_pm s (with_regions (regions_after ps (queue pcb)) pcb k))"
    "kready base f' (set_pm s (with_regions (regions_after ps (queue pcb)) pcb k)) B"
    "kview (set_pm s k) = (\<lambda>x. case image_at (Node_io (disk_image k) node) (file_byte (disk_image k) node) ps x of None \<Rightarrow> kview k x | Some b \<Rightarrow> b)"
    "confined base (getCR3 k) f (pm_of k) f' s"
proof -
  note kload_loop_ok [OF node_block_device [OF f(1)] k ld]
  then show thesis using that f(2,3) by (auto simp: kelf_load_def Let_def)
qed

end
