(* ===== verification/Kernel_Main.thy ===== *)
theory Kernel_Main
  imports Program_Load Path_Names Signals
begin

text \<open>
  \<^verbatim>\<open>kernelMain\<close> (\<^verbatim>\<open>kernel/kernel.cc\<close>): mount the disk, find \<^verbatim>\<open>/sbin/init\<close>, make the first process, load the
  program into its memory, put its argument vector on the stack and enter user mode.  What it reports
  on the serial line is left out.
\<close>

section \<open>The code\<close>

definition checkFile :: "Node option \<Rightarrow> Node option" where
  "checkFile node = (case node of None \<Rightarrow> None | Some nd \<Rightarrow> if is_file nd then Some nd else None)"

definition getFile :: "disk \<Rightarrow> Ext2 \<Rightarrow> Node \<Rightarrow> u8 list \<Rightarrow> Node option" where
  "getFile dsk f node name = do { found \<leftarrow> Ext2_find dsk f node name; checkFile found }"

definition checkDir :: "Node option \<Rightarrow> Node option" where
  "checkDir node = (case node of None \<Rightarrow> None | Some nd \<Rightarrow> if is_dir nd then Some nd else None)"

definition getDir :: "disk \<Rightarrow> Ext2 \<Rightarrow> Node \<Rightarrow> u8 list \<Rightarrow> Node option" where
  "getDir dsk f node name = do { found \<leftarrow> Ext2_find dsk f node name; checkDir found }"

text \<open>Three descriptors; the address each \<^verbatim>\<open>make\<close> gets is the next one of the heap.\<close>

definition init_file_descriptor :: "kernel \<Rightarrow> unit code" where
  "init_file_descriptor k =
     andthen (make_fd 0 (FileDescriptor_flags False False) 0 k) (\<lambda>_ k.
     andthen (make_fd 1 (FileDescriptor_flags False True) 0 k) (\<lambda>_ k.
     andthen (make_fd 2 (FileDescriptor_flags False True) 0 k) (\<lambda>_ k.
     need Wild (mine k) (\<lambda>pcb. Done () (put_pcb (active k) (pcb\<lparr>cwd_node := Some (fs_root k)\<rparr>) k)))))"

definition sbin_name :: "u8 list" where "sbin_name = [115, 98, 105, 110]"
definition init_name :: "u8 list" where "init_name = [105, 110, 105, 116]"
definition init_path :: "u8 list" where "init_path = [47] @ sbin_name @ [47] @ init_name"

definition kernelMain :: "kernel \<Rightarrow> unit code" where
  "kernelMain k = need Panic (Ext2_mount (disk_image k)) (\<lambda>(f, fs_rt).
     let k = k\<lparr>fs := f, fs_root := fs_rt\<rparr> in
     need Panic (checkDir (Some (fs_root k))) (\<lambda>root.
     need Panic (getDir (disk_image k) (fs k) root (sbin_name @ [0])) (\<lambda>sbin.
     need Panic (getFile (disk_image k) (fs k) sbin (init_name @ [0])) (\<lambda>init.
     need Panic (new_object k) (\<lambda>(p, k).
     let k = (put_pcb p (PCB_new (getCR3 k AND 0xFFFFF000)) k)\<lparr>active := p\<rparr> in
     andthen (init_file_descriptor k) (\<lambda>_ k.
     andthen (kelf_load init k) (\<lambda>e k.
     let userEsp = 0xF0000000 - 4 in
     andthen (store_bytes kstore8 (userEsp - 12) (init_path @ [0]) k) (\<lambda>_ k.
     andthen (kstore32 (userEsp - 16) 0 k) (\<lambda>_ k.
     andthen (kstore32 (userEsp - 20) (userEsp - 12) k) (\<lambda>_ k.
     andthen (kstore32 (userEsp - 24) (userEsp - 20) k) (\<lambda>_ k.
     andthen (kstore32 (userEsp - 28) 1 k) (\<lambda>_ k.
       Stop (Enter e (userEsp - 28) 0 k)))))))))))))"

section \<open>The steps\<close>

lemma make_fd_fresh:
  assumes "mine k = Some pcb" "heap_new k = a # as" "a \<noteq> 0" "file_descriptor pcb ! i = 0"
  shows "make_fd i d v k = Done v ((put_pcb (active k) (pcb\<lparr>file_descriptor := (file_descriptor pcb)[i := a]\<rparr>) k)
    \<lparr>heap_new := as, fds := (fds k)(a \<mapsto> \<lparr>cdata = d, ref_count = 1\<rparr>)\<rparr>)"
  using assms
  by (simp add: make_fd_def new_object_def Shared_make_def Shared_of_counted_def Shared_ref_def Counted_new_def field_upd_def
      set_fd_def Shared_assign_move_def Shared_unref_def add_fetch_def mine_def put_pcb_def)

definition first_pcb :: "u32 \<Rightarrow> Node \<Rightarrow> ptr list \<Rightarrow> PCB" where
  "first_pcb pd root ds = (PCB_new pd)\<lparr>file_descriptor := ds @ replicate 7 0, cwd_node := Some root\<rparr>"

definition terminal_fds :: "ptr list \<Rightarrow> FileDescriptor counted store \<Rightarrow> FileDescriptor counted store" where
  "terminal_fds ds h = h(ds ! 0 \<mapsto> \<lparr>cdata = FileDescriptor_flags False False, ref_count = 1\<rparr>,
     ds ! 1 \<mapsto> \<lparr>cdata = FileDescriptor_flags False True, ref_count = 1\<rparr>,
     ds ! 2 \<mapsto> \<lparr>cdata = FileDescriptor_flags False True, ref_count = 1\<rparr>)"

lemma init_file_descriptor_ok:
  assumes "mine k = Some (PCB_new pd)" "heap_new k = d0 # d1 # d2 # hs" "d0 \<noteq> 0" "d1 \<noteq> 0" "d2 \<noteq> 0"
  shows "init_file_descriptor k = Done () ((put_pcb (active k) (first_pcb pd (fs_root k) [d0, d1, d2]) k)
    \<lparr>heap_new := hs, fds := terminal_fds [d0, d1, d2] (fds k)\<rparr>)"
proof -
  have r: "replicate 10 (0 :: u32) = 0 # 0 # 0 # replicate 7 0" by (simp add: numeral_eq_Suc)
  have fd: "file_descriptor (PCB_new pd) = 0 # 0 # 0 # replicate 7 0" unfolding r [symmetric] by (simp add: PCB_new_def Shared_default_def)
  let ?F = "\<lambda>b. \<lparr>cdata = FileDescriptor_flags False b, ref_count = 1\<rparr>"
  let ?P = "\<lambda>ds. (PCB_new pd)\<lparr>file_descriptor := ds @ replicate 7 0\<rparr>"
  define k1 where "k1 = (put_pcb (active k) (?P [d0, 0, 0]) k)\<lparr>heap_new := d1 # d2 # hs, fds := (fds k)(d0 \<mapsto> ?F False)\<rparr>"
  define k2 where "k2 = (put_pcb (active k) (?P [d0, d1, 0]) k)\<lparr>heap_new := d2 # hs, fds := (fds k)(d0 \<mapsto> ?F False, d1 \<mapsto> ?F True)\<rparr>"
  define k3 where "k3 = (put_pcb (active k) (?P [d0, d1, d2]) k)\<lparr>heap_new := hs, fds := terminal_fds [d0, d1, d2] (fds k)\<rparr>"
  have m: "mine k1 = Some (?P [d0, 0, 0])" "mine k2 = Some (?P [d0, d1, 0])" "mine k3 = Some (?P [d0, d1, d2])"
    by (simp_all add: k1_def k2_def k3_def)
  have "make_fd 0 (FileDescriptor_flags False False) 0 k = Done 0 k1"
    using make_fd_fresh [OF assms(1,2,3), of 0] fd by (simp add: k1_def)
  moreover have "make_fd 1 (FileDescriptor_flags False True) 0 k1 = Done 0 k2"
    using make_fd_fresh [OF m(1), of d1 "d2 # hs" 1] assms(4) by (simp add: k1_def k2_def put_pcb_def)
  moreover have "make_fd 2 (FileDescriptor_flags False True) 0 k2 = Done 0 k3"
    using make_fd_fresh [OF m(2), of d2 hs 2] assms(5) by (simp add: k2_def k3_def put_pcb_def terminal_fds_def)
  ultimately show ?thesis
    using m(3) by (simp add: init_file_descriptor_def) (simp add: k3_def first_pcb_def put_pcb_def)
qed

section \<open>The argument vector\<close>

definition init_stack :: "u8 list" where
  "init_stack = word_bytes 1 @ word_bytes 0xEFFFFFE8 @ word_bytes 0xEFFFFFF0 @ word_bytes 0 @ init_path @ [0]"

lemma init_stack_length: "length init_stack = 27"
  by (simp add: init_stack_def init_path_def sbin_name_def init_name_def)

lemma init_stack_read:
  assumes "kview k = write_bytes 0xEFFFFFE0 init_stack m"
  shows "kword k 0xEFFFFFE0 = 1" "kword k 0xEFFFFFE4 = 0xEFFFFFE8" "kword k 0xEFFFFFE8 = 0xEFFFFFF0" "kword k 0xEFFFFFEC = 0"
    "str_at k 0xEFFFFFF0 init_path" "a \<notin> span 0xEFFFFFE0 27 \<Longrightarrow> kview k a = m a"
proof -
  show "kword k 0xEFFFFFE0 = 1" "kword k 0xEFFFFFE4 = 0xEFFFFFE8" "kword k 0xEFFFFFE8 = 0xEFFFFFF0" "kword k 0xEFFFFFEC = 0"
    by (simp_all add: kword_def assms write_bytes_def init_stack_length)
      (simp_all add: init_stack_def word_bytes_def word_byte_def le32_def)
  have ten: "(\<forall>i < 10. P i) \<longleftrightarrow> P 0 \<and> P 1 \<and> P 2 \<and> P 3 \<and> P 4 \<and> P 5 \<and> P 6 \<and> P 7 \<and> P 8 \<and> P 9" for P :: "nat \<Rightarrow> bool"
    by (simp add: numeral_eq_Suc All_less_Suc conj_ac)
  have p: "length init_path = 10" "0 \<notin> set init_path" by (simp_all add: init_path_def sbin_name_def init_name_def)
  show "str_at k 0xEFFFFFF0 init_path"
    unfolding str_at_def p(1) ten assms write_bytes_def init_stack_length
    by (simp add: p(2)) (simp add: init_stack_def word_bytes_def init_path_def sbin_name_def init_name_def)
  assume "a \<notin> span 0xEFFFFFE0 27"
  then have "\<not> unat (a - 0xEFFFFFE0) < 27" using span_mem [of "unat (a - 0xEFFFFFE0)" 27 "0xEFFFFFE0"] by auto
  then show "kview k a = m a" by (simp add: assms write_bytes_def init_stack_length)
qed

definition push_init :: "(unit \<Rightarrow> kernel \<Rightarrow> unit code) \<Rightarrow> kernel \<Rightarrow> unit code" where
  "push_init g k = andthen (store_bytes kstore8 0xEFFFFFF0 (init_path @ [0]) k) (\<lambda>_ k.
     andthen (kstore32 0xEFFFFFEC 0 k) (\<lambda>_ k. andthen (kstore32 0xEFFFFFE8 0xEFFFFFF0 k) (\<lambda>_ k.
     andthen (kstore32 0xEFFFFFE4 0xEFFFFFE8 k) (\<lambda>_ k. andthen (kstore32 0xEFFFFFE0 1 k) g))))"

lemma init_stack_ok:
  assumes r: "kready base f k A" and A: "span 0xEFFFFFE0 27 \<subseteq> A"
  obtains s f' where "\<forall>g :: unit \<Rightarrow> kernel \<Rightarrow> unit code. push_init g k = g () (set_pm s k)"
    "kview (set_pm s k) = write_bytes 0xEFFFFFE0 init_stack (kview k)" "kready base f' (set_pm s k) A"
    "confined base (getCR3 k) f (pm_of k) f' s"
proof -
  have sub: "span (0xEFFFFFE0 + of_nat i) n \<subseteq> A" if "i + n \<le> 27" for i n using span_sub [OF that] A by blast
  have len: "length (init_path @ [0]) = 11" by (simp add: init_path_def sbin_name_def init_name_def)
  have m: "span 0xEFFFFFF0 (length (init_path @ [0])) \<subseteq> A" unfolding len using sub [of 16 11] by simp
  have le: "length (init_path @ [0]) \<le> 4294967296" unfolding len by simp
  obtain s1 f1 where 1: "store_bytes kstore8 0xEFFFFFF0 (init_path @ [0]) k = Done () (set_pm s1 k)" "kready base f1 (set_pm s1 k) A"
      "kview (set_pm s1 k) = write_bytes 0xEFFFFFF0 (init_path @ [0]) (kview k)" "confined base (getCR3 k) f (pm_of k) f1 s1"
    by (rule store_bytesE [OF r m le])
  have sp: "span 0xEFFFFFEC 4 \<subseteq> A" "span 0xEFFFFFE8 4 \<subseteq> A" "span 0xEFFFFFE4 4 \<subseteq> A" "span 0xEFFFFFE0 4 \<subseteq> A"
    using sub [of 12 4] sub [of 8 4] sub [of 4 4] sub [of 0 4] by simp_all
  obtain s2 f2 where 2: "kstore32 0xEFFFFFEC 0 (set_pm s1 k) = Done () (set_pm s2 k)" "kready base f2 (set_pm s2 k) A"
      "kview (set_pm s2 k) = write_bytes 0xEFFFFFEC (word_bytes 0) (kview (set_pm s1 k))" "confined base (getCR3 k) f1 s1 f2 s2"
    by (rule store32E [OF 1(2) sp(1)]) auto
  obtain s3 f3 where 3: "kstore32 0xEFFFFFE8 0xEFFFFFF0 (set_pm s2 k) = Done () (set_pm s3 k)" "kready base f3 (set_pm s3 k) A"
      "kview (set_pm s3 k) = write_bytes 0xEFFFFFE8 (word_bytes 0xEFFFFFF0) (kview (set_pm s2 k))" "confined base (getCR3 k) f2 s2 f3 s3"
    by (rule store32E [OF 2(2) sp(2)]) auto
  obtain s4 f4 where 4: "kstore32 0xEFFFFFE4 0xEFFFFFE8 (set_pm s3 k) = Done () (set_pm s4 k)" "kready base f4 (set_pm s4 k) A"
      "kview (set_pm s4 k) = write_bytes 0xEFFFFFE4 (word_bytes 0xEFFFFFE8) (kview (set_pm s3 k))" "confined base (getCR3 k) f3 s3 f4 s4"
    by (rule store32E [OF 3(2) sp(3)]) auto
  obtain s5 f5 where 5: "kstore32 0xEFFFFFE0 1 (set_pm s4 k) = Done () (set_pm s5 k)" "kready base f5 (set_pm s5 k) A"
      "kview (set_pm s5 k) = write_bytes 0xEFFFFFE0 (word_bytes 1) (kview (set_pm s4 k))" "confined base (getCR3 k) f4 s4 f5 s5"
    by (rule store32E [OF 4(2) sp(4)]) auto
  have w: "write_bytes a (word_bytes v) (write_bytes b xs m) = write_bytes a (word_bytes v @ xs) m" if "b = a + 4" "length xs < 100" for a b v xs m
    using write_bytes_append [of "word_bytes v" xs a m] that by (simp add: word_bytes_def)
  have view: "kview (set_pm s5 k) = write_bytes 0xEFFFFFE0 init_stack (kview k)"
    unfolding 5(3) 4(3) 3(3) 2(3) 1(3) init_stack_def using len by (simp add: w)
  have run: "\<forall>g. push_init g k = g () (set_pm s5 k)" using 1(1) 2(1) 3(1) 4(1) 5(1) by (simp add: push_init_def)
  have "confined base (getCR3 k) f (pm_of k) f5 s5"
    using confined_trans [OF confined_trans [OF confined_trans [OF confined_trans [OF 1(4) 2(4)] 3(4)] 4(4)] 5(4)] .
  from that [OF run view 5(2) this] show thesis .
qed

section \<open>Properties\<close>

text \<open>What the first process has to be able to reach: the end of its stack and the segments of its program.\<close>

definition boot_memory :: "ProgramHeader list \<Rightarrow> u32 set" where
  "boot_memory ps = span 0xEFFFFFE0 27 \<union> (\<Union>p \<in> {p \<in> set ps. ph_type p = 1}. span (ph_vaddr p) (unat (ph_filesz p)))"

lemma stack_covered: "va \<in> span 0xEFFFFFE0 27 \<Longrightarrow> covered (queue (first_pcb pd root ds)) va"
proof -
  have q: "queue (first_pcb pd root ds) = [new_region 0xEFF00000 0x100000]"
    by (simp add: first_pcb_def PCB_new_def add_region_def insert_at_def new_region_def)
  assume "va \<in> span 0xEFFFFFE0 27"
  then obtain i where i: "i < 27" "va = 0xEFFFFFE0 + of_nat i" by (auto simp: span_def)
  have "unat va = 0xEFFFFFE0 + i" using i(1) by (simp only: i(2)) (subst unat_add_no_wrap, simp_all add: unat_of_nat)
  then show ?thesis unfolding q using i(1) by (simp add: covered_def new_region_def word_le_nat_alt word_less_nat_alt)
qed

lemma boot_covered:
  assumes "va \<in> boot_memory ps" "\<forall>p \<in> set ps. ph_type p = 1 \<longrightarrow> loadable p"
  shows "covered (regions_after ps (queue (first_pcb pd root ds))) va"
  using assms(1) unfolding boot_memory_def
proof (elim UnE UN_E)
  assume "va \<in> span 0xEFFFFFE0 27"
  then show ?thesis by (intro covered_fold) (simp add: stack_covered)
next
  fix q assume q: "q \<in> {p \<in> set ps. ph_type p = 1}" "va \<in> span (ph_vaddr q) (unat (ph_filesz q))"
  then obtain us vs where "ps = us @ q # vs" by (auto dest: split_list)
  then show ?thesis using q assms(2) by (simp add: covered_fold loadable_covered)
qed

text \<open>The kernel when the program is about to be loaded: the file system mounted, the first process active.\<close>

definition first_kernel :: "ptr \<Rightarrow> ptr list \<Rightarrow> ptr list \<Rightarrow> kernel \<Rightarrow> kernel" where
  "first_kernel p ds hs k = (put_pcb p (first_pcb (getCR3 k) (inode_on (disk_image k) 2) ds) k)
     \<lparr>fs := mounted (disk_image k), fs_root := inode_on (disk_image k) 2, active := p, heap_new := hs,
      fds := terminal_fds ds (fds k)\<rparr>"

lemma first_kernel_fields:
  "mine (first_kernel p ds hs k) = Some (first_pcb (getCR3 k) (inode_on (disk_image k) 2) ds)"
  "pm_of (first_kernel p ds hs k) = pm_of k" "getCR3 (first_kernel p ds hs k) = getCR3 k"
  "disk_image (first_kernel p ds hs k) = disk_image k" "active (first_kernel p ds hs k) = p"
  "kview (first_kernel p ds hs k) = kview k" "fs (first_kernel p ds hs k) = mounted (disk_image k)"
  "fds (first_kernel p ds hs k) = terminal_fds ds (fds k)"
  by (simp_all add: first_kernel_def mine_def put_pcb_def pm_of_def getCR3_def kview_def)

lemma kernelMain_loads:
  assumes img: "geometry_ok (disk_image k)"
    and path: "walk (disk_image k) (mounted (disk_image k)) (Some (inode_on (disk_image k) 2)) [sbin_name, init_name] = Some (Some init)"
      "is_file init"
    and heap: "heap_new k = p # d0 # d1 # d2 # hs" "0 \<notin> {d0, d1, d2}"
    and pd: "getCR3 k AND 0xFFFFF000 = getCR3 k"
  shows "kernelMain k = andthen (kelf_load init (first_kernel p [d0, d1, d2] hs k))
    (\<lambda>e. push_init (\<lambda>_ k'. Stop (Enter e 0xEFFFFFE0 0 k')))"
proof -
  let ?dsk = "disk_image k"
  let ?root = "inode_on ?dsk 2"
  obtain sbin where look: "is_dir ?root" "Ext2_find ?dsk (mounted ?dsk) ?root (sbin_name @ [0]) = Some (Some sbin)"
      "is_dir sbin" "Ext2_find ?dsk (mounted ?dsk) sbin (init_name @ [0]) = Some (Some init)"
    using path(1) by (auto split: if_splits Option.bind_splits elim!: walk.elims)
  define k0 where "k0 = k\<lparr>fs := mounted ?dsk, fs_root := ?root, heap_new := d0 # d1 # d2 # hs\<rparr>"
  define k1 where "k1 = (put_pcb p (PCB_new (getCR3 k)) k0)\<lparr>active := p\<rparr>"
  have init: "init_file_descriptor k1 = Done () (first_kernel p [d0, d1, d2] hs k)"
    using init_file_descriptor_ok [of k1 "getCR3 k" d0 d1 d2 hs] heap(2)
    by (simp add: k1_def k0_def first_kernel_def mine_def put_pcb_def)
  have cr: "getCR3 (k\<lparr>fs := a, fs_root := b\<rparr>) = getCR3 k" for a b by (simp add: getCR3_def)
  show ?thesis
    using Ext2_mount_mounted [OF img] look path(2) heap(1) init unfolding kernelMain_def
    by (simp add: Let_def checkDir_def getDir_def getFile_def checkFile_def new_object_def cr pd push_init_def [abs_def]
        k1_def [symmetric] k0_def [symmetric])
qed

text \<open>
  C6.  The first process.  On a well-formed disk with an executable \<^verbatim>\<open>/sbin/init\<close> whose segments lie in
  user memory, and with enough frames, \<^verbatim>\<open>kernelMain\<close> enters user mode at the entry point of the program.
  The stack is the one \<^verbatim>\<open>main\<close> expects: one argument, the vector with the string \<^verbatim>\<open>/sbin/init\<close> and a null
  pointer; every other byte of user memory is the byte of the file the last segment there prescribes,
  or as it was.  The process has the regions of its stack and its segments, works in the root
  directory, and its descriptors 0 to 2 are open, the last two for the terminal.
\<close>

theorem boot_enters_init:
  assumes img: "geometry_ok (disk_image k)"
    and path: "walk (disk_image k) (mounted (disk_image k)) (Some (inode_on (disk_image k) 2)) [sbin_name, init_name] = Some (Some init)"
      "is_file init" "node_ok (disk_image k) init"
    and prog: "read_header (Node_io (disk_image k) init) = Some h"
      "read_phs (Node_io (disk_image k) init) h 0 (unat (eh_phnum h)) = Some ps"
      "\<forall>p \<in> set ps. ph_type p = 1 \<longrightarrow> loadable p"
    and heap: "heap_new k = p # d0 # d1 # d2 # hs" "0 \<notin> {d0, d1, d2}"
    and mem: "space_ok base f (pm_of k) (getCR3 k)" "\<forall>va \<in> boot_memory ps. user_va va"
      "2 * card (missing (pm_of k) (getCR3 k) (boot_memory ps)) \<le> frames_left f (pm_of k)"
  shows "\<exists>k'. kernelMain k = Stop (Enter (eh_entry h) 0xEFFFFFE0 0 k') \<and>
    kword k' 0xEFFFFFE0 = 1 \<and> kword k' 0xEFFFFFE4 = 0xEFFFFFE8 \<and> kword k' 0xEFFFFFE8 = 0xEFFFFFF0 \<and>
    kword k' 0xEFFFFFEC = 0 \<and> str_at k' 0xEFFFFFF0 init_path \<and>
    (\<forall>x. x \<notin> span 0xEFFFFFE0 27 \<longrightarrow>
      kview k' x = (case image_at (Node_io (disk_image k) init) (file_byte (disk_image k) init) ps x of None \<Rightarrow> kview k x | Some b \<Rightarrow> b)) \<and>
    active k' = p \<and> fs k' = mounted (disk_image k) \<and> fds k' = terminal_fds [d0, d1, d2] (fds k) \<and>
    mine k' = Some ((first_pcb (getCR3 k) (inode_on (disk_image k) 2) [d0, d1, d2])
      \<lparr>queue := regions_after ps [new_region 0xEFF00000 0x100000]\<rparr>)"
proof -
  let ?dsk = "disk_image k" and ?B = "boot_memory ps"
  let ?pcb = "first_pcb (getCR3 k) (inode_on ?dsk 2) [d0, d1, d2]"
  let ?Q = "regions_after ps (queue ?pcb)"
  let ?img = "\<lambda>x. case image_at (Node_io ?dsk init) (file_byte ?dsk init) ps x of None \<Rightarrow> kview k x | Some b \<Rightarrow> b"
  have pd: "getCR3 k AND 0xFFFFF000 = getCR3 k" using space_okD(4) [OF mem(1)] by (simp add: page_base_aligned)
  define k2 where "k2 = first_kernel p [d0, d1, d2] hs k"
  note k2 = first_kernel_fields [of p "[d0, d1, d2]" hs k, folded k2_def]
  have stk: "finite ?B" "span 0xEFFFFFE0 27 \<subseteq> ?B" by (simp_all add: boot_memory_def)
  have ld: "loadable q \<and> span (ph_vaddr q) (unat (ph_filesz q)) \<subseteq> ?B" if "q \<in> set ps" "ph_type q = 1" for q
    using prog(3) that by (auto simp: boot_memory_def)
  have q: "queue ?pcb = [new_region 0xEFF00000 0x100000]"
    by (simp add: first_pcb_def PCB_new_def add_region_def insert_at_def new_region_def)
  have r2: "kready base f (with_regions ?Q ?pcb k2) ?B"
    using mem boot_covered [OF _ prog(3)] stk(1) k2(1-3) by (simp add: kready_def accessible_def)
  have io: "node_ok (disk_image k2) init" "read_header (Node_io (disk_image k2) init) = Some h"
      "read_phs (Node_io (disk_image k2) init) h 0 (unat (eh_phnum h)) = Some ps"
    using path(3) prog(1,2) k2(4) by simp_all
  obtain s3 f3 where 3: "kelf_load init k2 = Done (eh_entry h) (set_pm s3 (with_regions ?Q ?pcb k2))"
      "kready base f3 (set_pm s3 (with_regions ?Q ?pcb k2)) ?B" "kview (set_pm s3 k2) = ?img"
  proof (rule kelf_load_ok [OF io k2(1) r2])
    show "loadable q \<and> span (ph_vaddr q) (unat (ph_filesz q)) \<subseteq> ?B" if "q \<in> set ps" "ph_type q = 1" for q using ld that .
  qed (unfold k2(4,6), rule that)
  let ?k3 = "set_pm s3 (with_regions ?Q ?pcb k2)"
  obtain s4 where 4: "\<forall>g :: unit \<Rightarrow> kernel \<Rightarrow> unit code. push_init g ?k3 = g () (set_pm s4 ?k3)"
      "kview (set_pm s4 ?k3) = write_bytes 0xEFFFFFE0 init_stack (kview ?k3)"
    by (rule init_stack_ok [OF 3(2) stk(2)])
  define k4 where "k4 = set_pm s4 ?k3"
  have "kernelMain k = Stop (Enter (eh_entry h) 0xEFFFFFE0 0 k4)"
    unfolding kernelMain_loads [OF img path(1,2) heap pd] k2_def [symmetric] 3(1) by (simp add: 4(1) k4_def)
  moreover have "mine k4 = Some (?pcb\<lparr>queue := ?Q\<rparr>)" by (simp add: k4_def)
  moreover have "active k4 = p" "fs k4 = mounted ?dsk" "fds k4 = terminal_fds [d0, d1, d2] (fds k)"
    using k2(5,7,8) by (simp_all add: k4_def set_pm_def put_pcb_def)
  moreover have "kview ?k3 = ?img" unfolding 3(3) [symmetric] by (simp add: kview_def)
  note st = init_stack_read [OF 4(2) [folded k4_def, unfolded this]]
  ultimately show ?thesis unfolding q [symmetric] using st by blast
qed

text \<open>
  C18.  \<^verbatim>\<open>ELF::load\<close> of an accepted file, through the page tables of the process.  When no segment has more
  bytes in the file than in memory, every segment ends below 0xF0001000, its bytes from the file go to
  user memory, and frames are left for the pages they need, it returns the entry point.  Afterwards the
  entry point lies in a region of the process, so does every address of every segment, no region is
  lost; user memory holds at each address the byte of the file the last segment there prescribes and is
  unchanged elsewhere; the address space is well formed, and nothing is written outside it.
\<close>

theorem kelf_load_correct:
  assumes elf: "node_ok (disk_image k) node" "valid_load (Node_io (disk_image k) node) = Some 1"
      "read_header (Node_io (disk_image k) node) = Some h"
      "read_phs (Node_io (disk_image k) node) h 0 (unat (eh_phnum h)) = Some ps"
    and seg: "\<forall>p \<in> set ps. ph_type p = 1 \<longrightarrow> ph_filesz p \<le> ph_memsz p \<and> unat (ph_vaddr p) + unat (ph_memsz p) < 0xF0001000"
    and k: "mine k = Some pcb" "space_ok base f (pm_of k) (getCR3 k)" "\<forall>va \<in> file_memory ps. user_va va"
      "2 * card (missing (pm_of k) (getCR3 k) (file_memory ps)) \<le> frames_left f (pm_of k)"
  shows "\<exists>s f'. let rs = regions_after ps (queue pcb); k' = set_pm s (put_pcb (active k) (pcb\<lparr>queue := rs\<rparr>) k) in
    kelf_load node k = Done (eh_entry h) k' \<and>
    kview k' = (\<lambda>x. case image_at (Node_io (disk_image k) node) (file_byte (disk_image k) node) ps x of None \<Rightarrow> kview k x | Some b \<Rightarrow> b) \<and>
    covered rs (eh_entry h) \<and> (\<forall>a. covered (queue pcb) a \<longrightarrow> covered rs a) \<and>
    (\<forall>p \<in> set ps. \<forall>x. ph_type p = 1 \<and> unat (ph_vaddr p) \<le> unat x \<and> unat x < unat (ph_vaddr p) + unat (ph_memsz p) \<longrightarrow> covered rs x) \<and>
    space_ok base f' s (getCR3 k) \<and> confined base (getCR3 k) f (pm_of k) f' s"
proof -
  let ?Q = "regions_after ps (queue pcb)"
  obtain h' ps' where v: "read_header (Node_io (disk_image k) node) = Some h'"
      "read_phs (Node_io (disk_image k) node) h' 0 (unat (eh_phnum h')) = Some ps'"
      "\<And>p. p \<in> set ps' \<Longrightarrow> ph_type p = 1 \<Longrightarrow> \<not> ph_outside p"
      "\<exists>p \<in> set ps'. ph_type p = 1 \<and> ph_vaddr p \<le> eh_entry h' \<and> eh_entry h' < ph_vaddr p + ph_memsz p"
    by (rule valid_load_sound [OF elf(2)]) metis
  have hp: "h' = h" "ps' = ps" using v(1,2) elf(3,4) by simp_all
  have in_user: "\<not> ph_outside p" if "p \<in> set ps" "ph_type p = 1" for p using v(3) that hp by simp
  have entry: "\<exists>p \<in> set ps. ph_type p = 1 \<and> ph_vaddr p \<le> eh_entry h \<and> eh_entry h < ph_vaddr p + ph_memsz p"
    using v(4) hp by simp
  have ld: "\<forall>p \<in> set ps. ph_type p = 1 \<longrightarrow> loadable p" using seg in_user not_outside_nat(1) by (simp add: loadable_def)
  have cov: "covered ?Q x" if "p \<in> set ps" "ph_type p = 1" "unat (ph_vaddr p) \<le> unat x"
      "unat x < unat (ph_vaddr p) + unat (ph_memsz p)" for p x
    using that seg not_outside_nat(1) [OF in_user [OF that(1,2)]] by (intro covered_segment) auto
  have ready: "kready base f (with_regions ?Q pcb k) (file_memory ps)"
    using k(2-4) file_memory_covered [OF _ ld] finite_file_memory by (simp add: kready_def accessible_def)
  have sp: "span (ph_vaddr p) (unat (ph_filesz p)) \<subseteq> file_memory ps" if "p \<in> set ps" "ph_type p = 1" for p
    using that by (auto simp: file_memory_def)
  obtain s f' where l: "kelf_load node k = Done (eh_entry h) (set_pm s (with_regions ?Q pcb k))"
      "kready base f' (set_pm s (with_regions ?Q pcb k)) (file_memory ps)"
      "kview (set_pm s k) = (\<lambda>x. case image_at (Node_io (disk_image k) node) (file_byte (disk_image k) node) ps x of None \<Rightarrow> kview k x | Some b \<Rightarrow> b)"
      "confined base (getCR3 k) f (pm_of k) f' s"
    by (rule kelf_load_ok [OF elf(1,3,4) k(1) ready]) (use ld sp in auto)
  have "space_ok base f' s (getCR3 k)" using l(2) by (simp add: kready_def accessible_def)
  moreover have "covered ?Q (eh_entry h)" using entry entry_segment [OF in_user] cov by blast
  moreover have "kview (set_pm s (with_regions ?Q pcb k)) = kview (set_pm s k)" by (simp add: kview_def)
  ultimately show ?thesis
    unfolding Let_def using l(1,3,4) cov by (intro exI [of _ s] exI [of _ f']) (auto intro: covered_fold)
qed

section \<open>A bootable disk\<close>

text \<open>The file system of \<open>Ext2\<close> with the directory \<^verbatim>\<open>/sbin\<close> and in it the small program of \<open>Elf\<close>.\<close>

definition disk_front :: "(nat \<times> u8 list) list" where
  "disk_front = [(1024, [16, 0, 0, 0, 64]), (1024 + 33, [32]), (1024 + 40, [16]), (1024 + 56, [0x53, 0xEF]), (1024 + 88, [128]),
     (2048 + 8, [5])]"

definition boot_files :: "(nat \<times> u8 list) list" where
  "boot_files =
     [(5 * 1024 + 128, [0xED, 0x41, 0, 0, 12]), (5 * 1024 + 128 + 28, [2]), (5 * 1024 + 128 + 40, [10]),
      (5 * 1024 + 1280, [0xED, 0x41, 0, 0, 12]), (5 * 1024 + 1280 + 28, [2]), (5 * 1024 + 1280 + 40, [13]),
      (5 * 1024 + 1408, [0xA4, 0x81, 0, 0, 88]), (5 * 1024 + 1408 + 28, [2]), (5 * 1024 + 1408 + 40, [14]),
      (10 * 1024, [11, 0, 0, 0, 12, 0, 4, 1, 115, 98, 105, 110]),
      (13 * 1024, [12, 0, 0, 0, 12, 0, 4, 1, 105, 110, 105, 116]),
      (14 * 1024, ex_elf 16)]"

definition boot_disk :: disk where
  "boot_disk = image (disk_front @ boot_files)"

lemma image_front: "\<forall>(o1, bs) \<in> set ys. i < o1 \<Longrightarrow> image (xs @ ys) i = image xs i"
proof -
  assume "\<forall>(o1, bs) \<in> set ys. i < o1"
  then have "find (\<lambda>(o1, bs). o1 \<le> i \<and> i < o1 + length bs) ys = None" by (auto simp: find_None_iff)
  then show ?thesis by (simp add: image_def find_append split: option.splits)
qed

lemma image_back: "\<forall>(o1, bs) \<in> set xs. o1 + length bs \<le> i \<Longrightarrow> image (xs @ ys) i = image ys i"
proof -
  assume "\<forall>(o1, bs) \<in> set xs. o1 + length bs \<le> i"
  then have "find (\<lambda>(o1, bs). o1 \<le> i \<and> i < o1 + length bs) xs = None" by (auto simp: find_None_iff)
  then show ?thesis by (simp add: image_def find_append)
qed

lemma boot_disk_front: "i < 5000 \<Longrightarrow> boot_disk i = ex_disk i"
proof -
  assume i: "i < 5000"
  let ?rest = "[(5 * 1024 + 128 :: nat, [0xED, 0x41, 0, 0, 12 :: u8]), (5 * 1024 + 128 + 28, [2]), (5 * 1024 + 128 + 40, [10]),
      (5 * 1024 + 1280, [0xA4, 0x81, 0, 0, 5]), (5 * 1024 + 1280 + 28, [2]), (5 * 1024 + 1280 + 40, [11]),
      (10 * 1024, [11, 0, 0, 0, 12, 0, 4, 1, 105, 110, 105, 116]), (11 * 1024, [104, 101, 108, 108, 111])]"
  have e: "ex_disk = image (disk_front @ ?rest)" unfolding ex_disk_def disk_front_def by simp
  have "\<forall>(o1, bs) \<in> set boot_files. i < o1" "\<forall>(o1, bs) \<in> set ?rest. i < o1" using i by (simp_all add: boot_files_def)
  from this [THEN image_front [where xs = disk_front]] show ?thesis unfolding e boot_disk_def by (rule trans [OF _ sym])
qed

lemma boot_disk_back: "3000 \<le> i \<Longrightarrow> boot_disk i = image boot_files i"
  unfolding boot_disk_def by (rule image_back) (auto simp: disk_front_def)

lemma boot_super: "sb_log_block_size (sb_on boot_disk) = 0" "sb_blocks_per_group (sb_on boot_disk) = 8192"
  "sb_blocks_count (sb_on boot_disk) = 64" "sb_inodes_count (sb_on boot_disk) = 16" "sb_inodes_per_group (sb_on boot_disk) = 16"
  "sb_inode_size (sb_on boot_disk) = 128"
proof -
  have "map boot_disk [1024..<1164] = map ex_disk [1024..<1164]" by (intro map_cong refl boot_disk_front) (simp del: upt_rec_numeral)
  then have e: "sb_on boot_disk = sb_on ex_disk" by (simp only: sb_on_def)
  show "sb_log_block_size (sb_on boot_disk) = 0" "sb_blocks_per_group (sb_on boot_disk) = 8192"
    "sb_blocks_count (sb_on boot_disk) = 64" "sb_inodes_count (sb_on boot_disk) = 16" "sb_inodes_per_group (sb_on boot_disk) = 16"
    "sb_inode_size (sb_on boot_disk) = 128"
    unfolding e by (rule ex_super)+
qed

lemma boot_geometry: "bs_on boot_disk = 1024" "groups_on boot_disk = 1"
  by (simp_all add: bs_on_def groups_on_def boot_super)

lemma boot_table: "table_on boot_disk 0 = 5"
proof -
  have "map boot_disk [2056..<2060] = map ex_disk [2056..<2060]" by (intro map_cong refl boot_disk_front) (simp del: upt_rec_numeral)
  then have "table_on boot_disk 0 = table_on ex_disk 0" by (simp add: table_on_def boot_geometry ex_geometry Let_def)
  then show ?thesis by (simp add: ex_table)
qed

lemma boot_geometry_ok: "geometry_ok boot_disk"
  unfolding geometry_ok_def Let_def
proof (intro conjI ballI allI impI)
  fix n
  assume "n \<in> {1..unat (sb_inodes_count (sb_on boot_disk))}"
  then have n: "n - 1 < 16" by (auto simp: boot_super)
  then have "(n - 1) div 16 = 0" "(n - 1) mod 16 \<le> 15" by simp_all
  then show "inode_offset boot_disk n + 128 \<le> 0xFFFFFFFF" by (simp add: inode_offset_def boot_super boot_geometry boot_table Let_def)
qed (simp_all add: boot_super boot_geometry boot_table)

text \<open>A node of one block.\<close>

lemma one_block:
  assumes "node_block_size nd = 1024" "nd_n_sectors (data nd) = 2" "unat (node_size_in_bytes nd) \<le> 1024"
    and "unat (nd_direct (data nd) ! 0) = b" "b < 1000"
  shows "node_ok dsk nd" "i < 1024 \<Longrightarrow> file_byte dsk nd i = dsk (b * 1024 + i)"
proof -
  have *: "i = 0" if "i * 1024 < unat (node_size_in_bytes nd)" for i using that assms(3) by (cases i) auto
  show "node_ok dsk nd" using assms by (auto simp: node_ok_def Let_def node_blk_def dest!: *)
  show "i < 1024 \<Longrightarrow> file_byte dsk nd i = dsk (b * 1024 + i)" using assms by (simp add: file_byte_def Let_def node_blk_def)
qed

lemma boot_inode:
  assumes "off = inode_offset boot_disk (unat num)"
  shows "node_block_size (inode_on boot_disk num) = 1024"
    "nd_mode (data (inode_on boot_disk num)) = ucast (boot_disk off) OR push_bit 8 (ucast (boot_disk (off + 1)))"
    "nd_size_low (data (inode_on boot_disk num)) = word_on boot_disk (off + 4)"
    "nd_n_sectors (data (inode_on boot_disk num)) = word_on boot_disk (off + 28)"
    "nd_direct (data (inode_on boot_disk num)) ! 0 = word_on boot_disk (off + 40)"
  by (simp_all add: inode_on_def NodeData_of_def boot_geometry assms le16_map le32_map)

lemma boot_offsets: "inode_offset boot_disk 2 = 5248" "inode_offset boot_disk 11 = 6400" "inode_offset boot_disk 12 = 6528"
  by (simp_all add: inode_offset_def boot_super boot_geometry boot_table Let_def)

lemmas boot_disk_eval = boot_offsets node_size_in_bytes_def boot_inode [OF refl]

lemma boot_nodes:
  "node_ok boot_disk (inode_on boot_disk 2)" "is_dir (inode_on boot_disk 2)" "node_size_in_bytes (inode_on boot_disk 2) = 12"
  "node_ok boot_disk (inode_on boot_disk 11)" "is_dir (inode_on boot_disk 11)" "node_size_in_bytes (inode_on boot_disk 11) = 12"
  "node_ok boot_disk (inode_on boot_disk 12)" "is_file (inode_on boot_disk 12)" "node_size_in_bytes (inode_on boot_disk 12) = 88"
  "i < 1024 \<Longrightarrow> file_byte boot_disk (inode_on boot_disk 2) i = boot_disk (10240 + i)"
  "i < 1024 \<Longrightarrow> file_byte boot_disk (inode_on boot_disk 11) i = boot_disk (13312 + i)"
  "i < 1024 \<Longrightarrow> file_byte boot_disk (inode_on boot_disk 12) i = boot_disk (14336 + i)"
proof -
  show sz: "node_size_in_bytes (inode_on boot_disk 2) = 12" "node_size_in_bytes (inode_on boot_disk 11) = 12"
      "node_size_in_bytes (inode_on boot_disk 12) = 88"
    by (simp_all add: boot_disk_eval) (simp_all add: boot_disk_back boot_files_def image_def)
  have sec: "nd_n_sectors (data (inode_on boot_disk 2)) = 2" "nd_n_sectors (data (inode_on boot_disk 11)) = 2"
      "nd_n_sectors (data (inode_on boot_disk 12)) = 2"
    by (simp_all add: boot_disk_eval) (simp_all add: boot_disk_back boot_files_def image_def)
  have blk: "unat (nd_direct (data (inode_on boot_disk 2)) ! 0) = 10" "unat (nd_direct (data (inode_on boot_disk 11)) ! 0) = 13"
      "unat (nd_direct (data (inode_on boot_disk 12)) ! 0) = 14"
    by (simp_all add: boot_disk_eval) (simp_all add: boot_disk_back boot_files_def image_def)
  note ob = one_block [OF boot_inode(1) [OF refl]]
  show "node_ok boot_disk (inode_on boot_disk 2)" "node_ok boot_disk (inode_on boot_disk 11)" "node_ok boot_disk (inode_on boot_disk 12)"
    using ob(1) [OF sec(1) _ blk(1)] ob(1) [OF sec(2) _ blk(2)] ob(1) [OF sec(3) _ blk(3)] by (simp_all add: sz)
  show "i < 1024 \<Longrightarrow> file_byte boot_disk (inode_on boot_disk 2) i = boot_disk (10240 + i)"
    "i < 1024 \<Longrightarrow> file_byte boot_disk (inode_on boot_disk 11) i = boot_disk (13312 + i)"
    "i < 1024 \<Longrightarrow> file_byte boot_disk (inode_on boot_disk 12) i = boot_disk (14336 + i)"
    using ob(2) [OF sec(1) _ blk(1)] ob(2) [OF sec(2) _ blk(2)] ob(2) [OF sec(3) _ blk(3)] by (simp_all add: sz)
  show "is_dir (inode_on boot_disk 2)" "is_dir (inode_on boot_disk 11)" "is_file (inode_on boot_disk 12)"
    by (simp_all add: is_dir_def nd_is_dir_def is_file_def nd_is_file_def nd_get_type_def boot_disk_eval) (simp_all add: boot_disk_back boot_files_def image_def)
qed

lemma boot_disk_walk: "walk boot_disk (mounted boot_disk) (Some (inode_on boot_disk 2)) [sbin_name, init_name] = Some (Some (inode_on boot_disk 12))"
proof -
  have lay: "dir_layout (file_byte boot_disk (inode_on boot_disk 2)) 0 [(11, sbin_name, 12)] 12"
      "dir_layout (file_byte boot_disk (inode_on boot_disk 11)) 0 [(12, init_name, 12)] 12"
    by (simp_all add: le32_def le16_def upt_rec boot_nodes sbin_name_def init_name_def) (simp_all add: boot_disk_back boot_files_def image_def)
  have "node_find boot_disk (inode_on boot_disk 2) (sbin_name @ [0]) = Some 11"
    using node_find_layout [OF boot_nodes(1,2), of "[(11, sbin_name, 12)]" sbin_name] lay(1) by (simp add: boot_nodes(3) sbin_name_def)
  moreover have "node_find boot_disk (inode_on boot_disk 11) (init_name @ [0]) = Some 12"
    using node_find_layout [OF boot_nodes(4,5), of "[(12, init_name, 12)]" init_name] lay(2) by (simp add: boot_nodes(6) init_name_def)
  moreover have "get_node boot_disk (mounted boot_disk) 11 = Some (inode_on boot_disk 11)"
      "get_node boot_disk (mounted boot_disk) 12 = Some (inode_on boot_disk 12)"
    by (rule get_node_mounted [OF boot_geometry_ok]; simp add: boot_super)+
  ultimately show ?thesis using boot_nodes(2,5) by (simp add: Ext2_find_def)
qed

lemma boot_program:
  "read_header (Node_io boot_disk (inode_on boot_disk 12)) = Some ex_header"
  "read_phs (Node_io boot_disk (inode_on boot_disk 12)) ex_header 0 1 = Some [ex_ph 16]"
proof -
  let ?nd = "inode_on boot_disk 12"
  have byte: "file_byte boot_disk ?nd i = ex_elf 16 ! i" if "i < 88" for i
  proof -
    have "boot_disk (14336 + i) = image boot_files (14336 + i)" by (rule boot_disk_back) simp
    also have "\<dots> = ex_elf 16 ! i" using that by (simp add: boot_files_def image_def)
    finally show ?thesis using boot_nodes(12) [of i] that by simp
  qed
  have slice: "map (file_byte boot_disk ?nd) [a..<a + n] = take n (drop a (ex_elf 16))" if "a + n \<le> 88" for a n
    using that by (intro nth_equalityI) (simp_all add: byte)
  note rd = block_device.read_thing_correct [OF node_block_device [OF boot_nodes(7)]]
  have sz: "node_size_in_bytes ?nd = 88" by (rule boot_nodes(9))
  have "read_thing (Node_io boot_disk ?nd) 0 52 = Some (take 52 (drop 0 (ex_elf 16)))"
    using rd [of 0 52] slice [of 0 52] by (simp add: sz)
  also have "take 52 (drop 0 (ex_elf 16)) = take 52 (ex_elf 0)" by (simp add: ex_elf_def)
  finally show "read_header (Node_io boot_disk ?nd) = Some ex_header" by (simp add: read_header_def sizeof_ElfHeader_def ex_header_def)
  have "read_thing (Node_io boot_disk ?nd) 52 32 = Some (take 32 (drop 52 (ex_elf 16)))"
    using rd [of 52 32] slice [of 52 32] by (simp add: sz)
  then show "read_phs (Node_io boot_disk ?nd) ex_header 0 1 = Some [ex_ph 16]"
    by (simp add: read_ph_def sizeof_ProgramHeader_def ex_ph_def ex_header_fields)
qed

text \<open>The machine before the first process: no process yet, an empty user memory.\<close>

definition boot_kernel :: kernel where
  "boot_kernel = (ex_kernel [] (PCB_new 0x600000) Map.empty)
     \<lparr>disk_image := boot_disk, pcbs := Map.empty, active := 0, heap_new := [0x2000, 0x3000, 0x4000, 0x5000]\<rparr>"

lemma boot_user_memory: "va \<in> boot_memory [ex_ph 16] \<Longrightarrow> user_va va \<and> (page va = 0xEFFFF000 \<or> page va = 0x80000000)"
proof -
  assume "va \<in> boot_memory [ex_ph 16]"
  then have "va \<in> span 0xEFFFFFE0 27 \<or> va \<in> span 0x80000000 4" by (simp add: boot_memory_def ex_ph_fields)
  then consider i where "i < 27" "va = 0xEFFFFFE0 + of_nat i" | i where "i < 4" "va = 0x80000000 + of_nat i" by (auto simp: span_def)
  then have "(0xEFFFFFE0 \<le> unat va \<and> unat va < 0xF0000000) \<or> (0x80000000 \<le> unat va \<and> unat va < 0x80001000)"
  proof cases
    case 1
    then have "unat va = 0xEFFFFFE0 + i" by (simp only: 1(2)) (subst unat_add_no_wrap, simp_all add: unat_of_nat)
    then show ?thesis using 1(1) by simp
  next
    case 2
    then have "unat va = 0x80000000 + i" by (simp only: 2(2)) (subst unat_add_no_wrap, simp_all add: unat_of_nat)
    then show ?thesis using 2(1) by simp
  qed
  then show ?thesis by (auto simp: user_va_def word_le_unat word_less_unat word_unat_eq_iff unat_page_base)
qed

lemma boot_valid: "valid_load (Node_io boot_disk (inode_on boot_disk 12)) = Some 1"
proof -
  let ?f = "Node_io boot_disk (inode_on boot_disk 12)"
  have "read_ph ?f ex_header 0 = Some (ex_ph 16)" using boot_program(2) by (simp split: Option.bind_splits)
  moreover have "size_in_bytes ?f = 88" using boot_nodes(9) by simp
  ultimately show ?thesis
    by (simp add: valid_load_def Let_def boot_program(1) ex_header_fields ex_ph_fields ph_outside_def sizeof_ElfHeader_def)
qed

text \<open>The small program loaded into the first process.\<close>

lemma kelf_load_correct_witness:
  "\<exists>k'. kelf_load (inode_on boot_disk 12) (first_kernel 0x2000 [0x3000, 0x4000, 0x5000] [] boot_kernel) = Done 0x80000002 k' \<and>
     kview k' 0x80000003 = 0xC3"
proof -
  let ?nd = "inode_on boot_disk 12"
  define k where "k = first_kernel 0x2000 [0x3000, 0x4000, 0x5000] [] boot_kernel"
  have b: "disk_image boot_kernel = boot_disk" "pm_of boot_kernel = ex_page []" "getCR3 boot_kernel = 0x600000"
    by (simp_all add: boot_kernel_def ex_kernel_def pm_of_def getCR3_def)
  have k: "disk_image k = boot_disk" "pm_of k = ex_page []" "getCR3 k = 0x600000"
      "mine k = Some (first_pcb 0x600000 (inode_on boot_disk 2) [0x3000, 0x4000, 0x5000])"
    by (simp_all add: k_def first_kernel_fields b)
  have rp: "read_phs (Node_io boot_disk ?nd) ex_header 0 (unat (eh_phnum ex_header)) = Some [ex_ph 16]"
    using boot_program(2) by (simp add: ex_header_fields)
  have mem: "va \<in> boot_memory [ex_ph 16]" if "va \<in> file_memory [ex_ph 16]" for va
    using that by (simp add: file_memory_def boot_memory_def)
  have u: "\<forall>va \<in> file_memory [ex_ph 16]. user_va va" using boot_user_memory mem by blast
  have "missing (ex_page []) 0x600000 (file_memory [ex_ph 16]) \<subseteq> {0x80000000}"
    unfolding missing_def ex_page_walk using boot_user_memory mem by (auto split: if_splits)
  then have "card (missing (ex_page []) 0x600000 (file_memory [ex_ph 16])) \<le> 1" using card_mono [of "{0x80000000 :: u32}"] by fastforce
  then have room: "2 * card (missing (ex_page []) 0x600000 (file_memory [ex_ph 16])) \<le> frames_left [] (ex_page [])"
    by (simp add: frames_left_def ex_page_def)
  have seg: "\<forall>p \<in> set [ex_ph 16]. ph_type p = 1 \<longrightarrow> ph_filesz p \<le> ph_memsz p \<and> unat (ph_vaddr p) + unat (ph_memsz p) < 0xF0001000"
    by (simp add: ex_ph_fields)
  obtain k' where k': "kelf_load ?nd k = Done (eh_entry ex_header) k'"
      "kview k' = (\<lambda>x. case image_at (Node_io boot_disk ?nd) (file_byte boot_disk ?nd) [ex_ph 16] x of None \<Rightarrow> kview k x | Some b \<Rightarrow> b)"
    using kelf_load_correct [of k ?nd ex_header "[ex_ph 16]", unfolded k(1-3), OF boot_nodes(7) boot_valid boot_program(1) rp seg k(4) ex_page_ok u room]
    unfolding Let_def by blast
  have "kview k' 0x80000003 = file_byte boot_disk ?nd 87"
    by (simp add: k'(2) image_at_def seg_len_def ex_ph_fields boot_nodes(9))
  also have "\<dots> = boot_disk 14423" using boot_nodes(12) [of 87] by simp
  also have "boot_disk 14423 = 0xC3" by (simp add: boot_disk_back boot_files_def image_def) (simp add: ex_elf_def)
  finally show ?thesis using k'(1) unfolding k_def by (intro exI [of _ k']) (simp add: ex_header_fields)
qed

theorem boot_enters_init_witness:
  "\<exists>k'. kernelMain boot_kernel = Stop (Enter 0x80000002 0xEFFFFFE0 0 k') \<and> kword k' 0xEFFFFFE0 = 1 \<and>
     str_at k' (kword k' (kword k' 0xEFFFFFE4)) init_path \<and> active k' = 0x2000 \<and> kview k' 0x80000003 = 0xC3"
proof -
  have k: "disk_image boot_kernel = boot_disk" "pm_of boot_kernel = ex_page []" "getCR3 boot_kernel = 0x600000"
      "heap_new boot_kernel = 0x2000 # 0x3000 # 0x4000 # 0x5000 # []"
    by (simp_all add: boot_kernel_def ex_kernel_def pm_of_def getCR3_def)
  have ps: "\<forall>p \<in> set [ex_ph 16]. ph_type p = 1 \<longrightarrow> loadable p" by (simp add: loadable_def ex_ph_fields)
  have rp: "read_phs (Node_io boot_disk (inode_on boot_disk 12)) ex_header 0 (unat (eh_phnum ex_header)) = Some [ex_ph 16]"
    using boot_program(2) by (simp add: ex_header_fields)
  have u: "\<forall>va \<in> boot_memory [ex_ph 16]. user_va va" using boot_user_memory by blast
  have "missing (ex_page []) 0x600000 (boot_memory [ex_ph 16]) \<subseteq> {0x80000000}"
    unfolding missing_def ex_page_walk using boot_user_memory by (auto split: if_splits)
  then have "card (missing (ex_page []) 0x600000 (boot_memory [ex_ph 16])) \<le> 1" using card_mono [of "{0x80000000 :: u32}"] by fastforce
  then have room: "2 * card (missing (ex_page []) 0x600000 (boot_memory [ex_ph 16])) \<le> frames_left [] (ex_page [])"
    by (simp add: frames_left_def ex_page_def)
  have nz: "(0 :: u32) \<notin> {0x3000, 0x4000, 0x5000}" by simp
  obtain k' where k': "kernelMain boot_kernel = Stop (Enter (eh_entry ex_header) 0xEFFFFFE0 0 k')" "kword k' 0xEFFFFFE0 = 1"
      "kword k' 0xEFFFFFE4 = 0xEFFFFFE8" "kword k' 0xEFFFFFE8 = 0xEFFFFFF0" "str_at k' 0xEFFFFFF0 init_path" "active k' = 0x2000"
      "\<forall>x. x \<notin> span 0xEFFFFFE0 27 \<longrightarrow> kview k' x = (case image_at (Node_io boot_disk (inode_on boot_disk 12))
         (file_byte boot_disk (inode_on boot_disk 12)) [ex_ph 16] x of None \<Rightarrow> kview boot_kernel x | Some b \<Rightarrow> b)"
    using boot_enters_init [of boot_kernel "inode_on boot_disk 12" ex_header "[ex_ph 16]", unfolded k,
        OF boot_geometry_ok boot_disk_walk boot_nodes(8,7) boot_program(1) rp ps refl nz ex_page_ok u room] by blast
  have "(0x80000003 :: u32) \<notin> span 0xEFFFFFE0 27"
  proof
    assume "(0x80000003 :: u32) \<in> span 0xEFFFFFE0 27"
    then obtain i where i: "i < 27" "(0x80000003 :: u32) = 0xEFFFFFE0 + of_nat i" by (auto simp: span_def)
    have "unat (0xEFFFFFE0 + of_nat i :: u32) = 0xEFFFFFE0 + i" using i(1) by (subst unat_add_no_wrap) (simp_all add: unat_of_nat)
    moreover have "unat (0xEFFFFFE0 + of_nat i :: u32) = 0x80000003" by (simp only: i(2) [symmetric]) simp
    ultimately show False by simp
  qed
  from k'(7) [rule_format, OF this]
  have "kview k' 0x80000003 = file_byte boot_disk (inode_on boot_disk 12) 87"
    by (simp add: image_at_def seg_len_def ex_ph_fields boot_nodes(9))
  also have "\<dots> = boot_disk 14423" using boot_nodes(12) [of 87] by simp
  also have "boot_disk 14423 = 0xC3" by (simp add: boot_disk_back boot_files_def image_def) (simp add: ex_elf_def)
  finally show ?thesis using k'(1-6) by (intro exI [of _ k']) (simp add: ex_header_fields)
qed

end
