(* ===== verification/Mru_Cache.thy ===== *)
theory Mru_Cache
  imports Linked_Lists Block_IO
begin

text \<open>
  The block cache: \<^verbatim>\<open>MRUNode\<close> and \<^verbatim>\<open>MRUQueue\<close> of \<^verbatim>\<open>kernel/queue.h\<close> and \<^verbatim>\<open>class Cache\<close>
  (\<^verbatim>\<open>kernel/cache.h\<close>, \<^verbatim>\<open>kernel/cache.cc\<close>).  The queue is the pointer program on the lists of
  \<open>Linked_Lists\<close>; what it does to the list of cached blocks is move-to-front, and so the cache holds
  the sixteen blocks read last.  The array behind \<^verbatim>\<open>buffer\<close> belongs to its node alone and is kept in
  it.  An operation of the cache holds its lock from start to end and is one step.
\<close>

section \<open>The queue\<close>

record MRUNode =
  mru_next :: ptr
  mru_prev :: ptr
  mru_id :: u32
  mru_buffer :: "u8 list"

record MRUQueue =
  mq_first :: ptr
  mq_last :: ptr
  mq_block_size :: u32

definition MRUNode_new :: "u32 \<Rightarrow> u8 list \<Rightarrow> MRUNode" where
  "MRUNode_new i b = \<lparr>mru_next = 0, mru_prev = 0, mru_id = i, mru_buffer = b\<rparr>"

definition set_mru_next :: "ptr \<Rightarrow> MRUNode \<Rightarrow> MRUNode" where
  "set_mru_next p v = v\<lparr>mru_next := p\<rparr>"

definition set_mru_prev :: "ptr \<Rightarrow> MRUNode \<Rightarrow> MRUNode" where
  "set_mru_prev p v = v\<lparr>mru_prev := p\<rparr>"

text \<open>
  The constructor makes sixteen nodes: \<open>news\<close> are the addresses the calls of \<^verbatim>\<open>new MRUNode\<close> return,
  \<open>junk p\<close> is what the array of the node at \<open>p\<close> holds before anything is written to it.
\<close>

fun mru_init_loop :: "(ptr \<Rightarrow> u8 list) \<Rightarrow> nat \<Rightarrow> ptr \<Rightarrow> ptr list \<Rightarrow> MRUNode store \<Rightarrow> (ptr \<times> ptr list \<times> MRUNode store) option" where
  "mru_init_loop junk 0 it news h = Some (it, news, h)"
| "mru_init_loop junk (Suc n) it news h = (case news of [] \<Rightarrow> None | cur # news \<Rightarrow> do {
     let h = h(cur \<mapsto> MRUNode_new (- 1) (junk cur));
     h \<leftarrow> field_upd h it (set_mru_next cur);
     h \<leftarrow> field_upd h cur (set_mru_prev it);
     mru_init_loop junk n cur news h })"

definition MRUQueue_new :: "u32 \<Rightarrow> (ptr \<Rightarrow> u8 list) \<Rightarrow> ptr list \<Rightarrow> MRUNode store \<Rightarrow> (MRUQueue \<times> MRUNode store) option" where
  "MRUQueue_new bs junk news h = (case news of [] \<Rightarrow> None | p # news \<Rightarrow> do {
     (it, news, h) \<leftarrow> mru_init_loop junk 14 p news (h(p \<mapsto> MRUNode_new (- 1) (junk p)));
     (case news of [] \<Rightarrow> None | l # _ \<Rightarrow> do {
       let h = h(l \<mapsto> MRUNode_new (- 1) (junk l));
       h \<leftarrow> field_upd h l (set_mru_prev it);
       h \<leftarrow> field_upd h it (set_mru_next l);
       Some (\<lparr>mq_first = p, mq_last = l, mq_block_size = bs\<rparr>, h) }) })"

text \<open>\<^verbatim>\<open>it->prev = nullptr; it->next = first; first->prev = it; first = it;\<close>\<close>

definition mru_to_front :: "MRUNode store \<Rightarrow> MRUQueue \<Rightarrow> ptr \<Rightarrow> (MRUNode store \<times> MRUQueue) option" where
  "mru_to_front h q it = do {
     h \<leftarrow> field_upd h it (set_mru_prev 0);
     h \<leftarrow> field_upd h it (set_mru_next (mq_first q));
     h \<leftarrow> field_upd h (mq_first q) (set_mru_prev it);
     Some (h, q\<lparr>mq_first := it\<rparr>) }"

text \<open>\<^verbatim>\<open>for (i = 0; i < n; i++) dst[i] = src[i];\<close> on two arrays.\<close>

definition copy_into :: "nat \<Rightarrow> u8 list \<Rightarrow> u8 list \<Rightarrow> u8 list option" where
  "copy_into n src dst = (if n \<le> length src \<and> n \<le> length dst then Some (take n src @ drop n dst) else None)"

definition mru_add :: "MRUNode store \<Rightarrow> MRUQueue \<Rightarrow> u32 \<Rightarrow> u8 list \<Rightarrow> (MRUNode store \<times> MRUQueue) option" where
  "mru_add h q index buffer = do {
     let cur = mq_last q;
     c \<leftarrow> deref h cur;
     let q = q\<lparr>mq_last := mru_prev c\<rparr>;
     h \<leftarrow> field_upd h (mq_last q) (set_mru_next 0);
     (h, q) \<leftarrow> mru_to_front h q cur;
     h \<leftarrow> field_upd h cur (\<lambda>c. c\<lparr>mru_id := index\<rparr>);
     c \<leftarrow> deref h (mq_first q);
     b \<leftarrow> copy_into (unat (mq_block_size q)) buffer (mru_buffer c);
     h \<leftarrow> field_upd h (mq_first q) (\<lambda>c. c\<lparr>mru_buffer := b\<rparr>);
     Some (h, q) }"

definition mru_peek :: "MRUQueue \<Rightarrow> ptr" where
  "mru_peek q = mq_first q"

partial_function (option) mru_contains_loop :: "MRUNode store \<Rightarrow> MRUQueue \<Rightarrow> ptr \<Rightarrow> u32 \<Rightarrow> (bool \<times> MRUNode store \<times> MRUQueue) option" where
  "mru_contains_loop h q it i =
     (if it = 0 then Some (False, h, q)
      else do {
        c \<leftarrow> deref h it;
        if mru_id c = i then
          (if mru_prev c = 0 then Some (True, h, q)
           else do {
             (h, f, l) \<leftarrow> unlink mru_next mru_prev set_mru_next set_mru_prev h (mq_first q) (mq_last q) it;
             (h, q) \<leftarrow> mru_to_front h (q\<lparr>mq_first := f, mq_last := l\<rparr>) it;
             Some (True, h, q) })
        else mru_contains_loop h q (mru_next c) i })"

definition mru_contains :: "MRUNode store \<Rightarrow> MRUQueue \<Rightarrow> u32 \<Rightarrow> (bool \<times> MRUNode store \<times> MRUQueue) option" where
  "mru_contains h q i = mru_contains_loop h q (mq_first q) i"

definition mru_is_empty :: "MRUQueue \<Rightarrow> bool" where
  "mru_is_empty q \<longleftrightarrow> mq_first q = 0"

partial_function (option) mru_clear :: "MRUNode store \<Rightarrow> MRUQueue \<Rightarrow> (MRUNode store \<times> MRUQueue) option" where
  "mru_clear h q =
     (if mru_is_empty q then Some (h, q)
      else do {
        c \<leftarrow> deref h (mq_first q);
        let h1 = h(mq_first q := None);
        if mru_next c = 0 then mru_clear h1 (q\<lparr>mq_first := 0, mq_last := 0\<rparr>)
        else do {
          h2 \<leftarrow> field_upd h1 (mru_next c) (set_mru_prev 0);
          mru_clear h2 (q\<lparr>mq_first := mru_next c\<rparr>) } })"

section \<open>The cache\<close>

record Cache =
  cache_ide :: block_io
  cache_block_size :: u32
  cache_mru :: MRUQueue
  cache_nodes :: "MRUNode store"

definition Cache_new :: "block_io \<Rightarrow> u32 \<Rightarrow> (ptr \<Rightarrow> u8 list) \<Rightarrow> ptr list \<Rightarrow> MRUNode store \<Rightarrow> Cache option" where
  "Cache_new ide bs junk news h = do {
     (q, h) \<leftarrow> MRUQueue_new bs junk news h;
     Some \<lparr>cache_ide = ide, cache_block_size = bs, cache_mru = q, cache_nodes = h\<rparr> }"

text \<open>\<open>buffer\<close> is what the array of the caller holds before the call; the result is what it holds afterwards.\<close>

definition Cache_read_block :: "Cache \<Rightarrow> u32 \<Rightarrow> u8 list \<Rightarrow> (u8 list \<times> Cache) option" where
  "Cache_read_block c block_id buffer = do {
     (found, h, q) \<leftarrow> mru_contains (cache_nodes c) (cache_mru c) block_id;
     let c = c\<lparr>cache_mru := q, cache_nodes := h\<rparr>;
     if found then do {
       cached_node \<leftarrow> deref h (mru_peek q);
       buffer \<leftarrow> copy_into (unat (cache_block_size c)) (mru_buffer cached_node) buffer;
       Some (buffer, c) }
     else do {
       (_, bytes) \<leftarrow> read_all (cache_ide c) (block_id * cache_block_size c) (cache_block_size c);
       buffer \<leftarrow> copy_into (length bytes) bytes buffer;
       (h, q) \<leftarrow> mru_add h q block_id buffer;
       Some (buffer, c\<lparr>cache_mru := q, cache_nodes := h\<rparr>) } }"

section \<open>The queue as a list of blocks\<close>

type_synonym mru_entry = "u32 \<times> u8 list"

definition entry_of :: "MRUNode \<Rightarrow> mru_entry" where
  "entry_of c = (mru_id c, mru_buffer c)"

definition mruq :: "MRUNode store \<Rightarrow> MRUQueue \<Rightarrow> ptr list \<Rightarrow> mru_entry list \<Rightarrow> bool" where
  "mruq h q xs es \<longleftrightarrow> dll mru_next mru_prev h (mq_first q) (mq_last q) xs \<and>
     map (\<lambda>x. map_option entry_of (h x)) xs = map Some es"

interpretation mru: dll_node mru_next mru_prev set_mru_next set_mru_prev entry_of
  by unfold_locales (simp_all add: set_mru_next_def set_mru_prev_def entry_of_def)

lemma mru_links [simp]:
  "mru_id (set_mru_next p c) = mru_id c" "mru_id (set_mru_prev p c) = mru_id c"
  "mru_buffer (set_mru_next p c) = mru_buffer c" "mru_buffer (set_mru_prev p c) = mru_buffer c"
  by (simp_all add: set_mru_next_def set_mru_prev_def)

lemma mruq_len: "mruq h q xs es \<Longrightarrow> length xs = length es"
  by (auto simp: mruq_def dest: map_eq_imp_length_eq)

lemma mruq_entry:
  assumes "mruq h q (xs @ x # ys) es"
  obtains us e vs where "es = us @ e # vs" "length us = length xs" "map_option entry_of (h x) = Some e"
proof -
  have len: "length es = length xs + Suc (length ys)" using mruq_len [OF assms] by simp
  let ?i = "length xs"
  have "map (\<lambda>x. map_option entry_of (h x)) (xs @ x # ys) ! ?i = map Some es ! ?i" using assms by (simp add: mruq_def)
  then have "map_option entry_of (h x) = Some (es ! ?i)" using len by (simp add: nth_append)
  moreover have "es = take ?i es @ es ! ?i # drop (Suc ?i) es" using len by (simp add: id_take_nth_drop)
  ultimately show thesis using that len by simp
qed

lemma mruq_val:
  assumes "mruq h q xs es" "dll mru_next mru_prev h' (mq_first q') (mq_last q') xs"
    and "\<And>x. x \<in> set xs \<Longrightarrow> map_option entry_of (h' x) = map_option entry_of (h x)"
  shows "mruq h' q' xs es"
proof -
  have "map (\<lambda>x. map_option entry_of (h' x)) xs = map (\<lambda>x. map_option entry_of (h x)) xs" using assms(3) by (intro map_cong) auto
  then show ?thesis using assms(1,2) by (simp only: mruq_def)
qed

text \<open>Taking a node out and putting it in front.\<close>

lemma mru_to_front_link:
  "mq_first q \<noteq> 0 \<Longrightarrow> mru_to_front h q x = do { (h', f, l) \<leftarrow> link set_mru_next set_mru_prev h (mq_first q) (mq_last q) x 0 (mq_first q);
     Some (h', q\<lparr>mq_first := f\<rparr>) }"
  by (cases "field_upd h x (set_mru_prev 0)") (auto simp: mru_to_front_def link_def split: Option.bind_splits)

lemma move_front:
  assumes m: "mruq h q (xs @ x # ys) (us @ e # vs)" "length us = length xs" "xs \<noteq> []"
  obtains h1 f l h2 q2 where
    "unlink mru_next mru_prev set_mru_next set_mru_prev h (mq_first q) (mq_last q) x = Some (h1, f, l)"
    "mru_to_front h1 (q\<lparr>mq_first := f, mq_last := l\<rparr>) x = Some (h2, q2)" "mruq h2 q2 (x # xs @ ys) (e # us @ vs)"
    "mq_block_size q2 = mq_block_size q"
proof -
  have d: "dll mru_next mru_prev h (mq_first q) (mq_last q) (xs @ x # ys)" using m(1) by (simp add: mruq_def)
  then obtain h1 f l where 1: "unlink mru_next mru_prev set_mru_next set_mru_prev h (mq_first q) (mq_last q) x = Some (h1, f, l)"
      "dll mru_next mru_prev h1 f l (xs @ ys)" "\<forall>p. p \<notin> set (xs @ ys) \<longrightarrow> h1 p = h p"
    using mru.unlink_dll by blast
  have x: "x \<noteq> 0" "x \<notin> set (xs @ ys)" using dll_nonnull [OF d] d by (auto simp: dll_def)
  obtain c where c: "h1 x = Some c" using dll_alloc [OF d, of x] 1(3) x(2) by auto
  have f: "f = first_of (xs @ ys)" "f \<noteq> 0"
    using dll_first [OF 1(2)] dll_nonnull [OF 1(2)] m(3) by (auto simp: neq_Nil_conv)
  obtain h2 f2 l2 where 2: "link set_mru_next set_mru_prev h1 f l x 0 f = Some (h2, f2, l2)"
      "dll mru_next mru_prev h2 f2 l2 (x # xs @ ys)"
    using mru.link_dll [of h1 f l "[]" "xs @ ys" x c] 1(2) x c f by auto
  have "l2 = last_of (x # xs @ ys)" "l = last_of (xs @ ys)" using dll_last [OF 2(2)] dll_last [OF 1(2)] by simp_all
  then have l: "l2 = l" using m(3) by (simp add: last_of_def)
  let ?q1 = "q\<lparr>mq_first := f, mq_last := l\<rparr>" and ?q2 = "q\<lparr>mq_first := f2, mq_last := l\<rparr>"
  have front: "mru_to_front h1 ?q1 x = Some (h2, ?q2)" using 2(1) f(2) by (simp add: mru_to_front_link)
  have v: "map_option entry_of (h2 a) = map_option entry_of (h a)" for a
    using mru.unlink_val [OF 1(1)] mru.link_val [OF 2(1)] by metis
  have "mruq h2 ?q2 (x # xs @ ys) (e # us @ vs)"
    using m(1,2) 2(2) by (auto simp: mruq_def v l append_eq_append_conv)
  from that [OF 1(1) front this] show thesis by simp
qed

definition to_front :: "u32 \<Rightarrow> mru_entry list \<Rightarrow> mru_entry list" where
  "to_front i es = (case dropWhile (\<lambda>e. fst e \<noteq> i) es of [] \<Rightarrow> es | e # vs \<Rightarrow> e # takeWhile (\<lambda>e. fst e \<noteq> i) es @ vs)"

lemma to_front_found: "i \<notin> fst ` set us \<Longrightarrow> to_front i (us @ (i, b) # vs) = (i, b) # us @ vs"
proof -
  assume "i \<notin> fst ` set us"
  then have "\<forall>e \<in> set us. fst e \<noteq> i" by auto
  then show ?thesis by (simp add: to_front_def dropWhile_append2 takeWhile_append2)
qed

lemma to_front_missing: "i \<notin> fst ` set es \<Longrightarrow> to_front i es = es"
proof -
  assume "i \<notin> fst ` set es"
  then have "dropWhile (\<lambda>e. fst e \<noteq> i) es = []" by (auto simp: dropWhile_eq_Nil_conv)
  then show ?thesis by (simp only: to_front_def list.case)
qed

lemma mru_contains_refines:
  assumes "mruq h q xs es"
  shows "\<exists>h' q' xs'. mru_contains h q i = Some (i \<in> fst ` set es, h', q') \<and> mruq h' q' xs' (to_front i es) \<and>
    mq_block_size q' = mq_block_size q"
proof -
  have "\<exists>h' q' xs'. mru_contains_loop h q (first_of ys) i = Some (i \<in> fst ` set es, h', q') \<and> mruq h' q' xs' (to_front i es) \<and>
      mq_block_size q' = mq_block_size q"
    if "xs = ps @ ys" "i \<notin> fst ` set (take (length ps) es)" for ps ys
    using that
  proof (induction ys arbitrary: ps)
    case Nil
    then show ?case using assms mruq_len [OF assms] by (subst mru_contains_loop.simps) (auto simp: to_front_missing)
  next
    case (Cons y ys)
    have m: "mruq h q (ps @ y # ys) es" using assms Cons.prems(1) by simp
    obtain us e vs where es: "es = us @ e # vs" "length us = length ps" "map_option entry_of (h y) = Some e"
      by (rule mruq_entry [OF m])
    then obtain c where c: "h y = Some c" "e = (mru_id c, mru_buffer c)" by (auto simp: entry_of_def)
    have d: "dll mru_next mru_prev h (mq_first q) (mq_last q) (ps @ y # ys)" using m by (simp add: mruq_def)
    have y: "y \<noteq> 0" using dll_nonnull [OF d] by simp
    have nb: "mru_prev c = last_of ps" "mru_next c = first_of ys" using dll_mid [OF d] c(1) by auto
    have us: "i \<notin> fst ` set us" using Cons.prems(2) es by simp
    show ?case
    proof (cases "mru_id c = i")
      case False
      have "i \<notin> fst ` set (take (length (ps @ [y])) es)" using us False es c(2) by auto
      then show ?thesis
        using Cons.IH [of "ps @ [y]"] Cons.prems(1) y c(1) False nb(2) by (subst mru_contains_loop.simps) simp
    next
      case True
      then have fr: "to_front i es = (i, mru_buffer c) # us @ vs" and mem: "i \<in> fst ` set es"
        using to_front_found [OF us] by (auto simp: es(1) c(2))
      show ?thesis
      proof (cases "ps = []")
        case True
        then have "to_front i es = es" using fr es c(2) \<open>mru_id c = i\<close> by simp
        then show ?thesis using True m nb(1) c(1) y mem \<open>mru_id c = i\<close> by (subst mru_contains_loop.simps) auto
      next
        case False
        have pz: "mru_prev c \<noteq> 0" using nb(1) dll_nonnull [OF d, of "last ps"] False by (simp add: last_of_def)
        obtain h1 f l h2 q2 where "unlink mru_next mru_prev set_mru_next set_mru_prev h (mq_first q) (mq_last q) y = Some (h1, f, l)"
            "mru_to_front h1 (q\<lparr>mq_first := f, mq_last := l\<rparr>) y = Some (h2, q2)" "mruq h2 q2 (y # ps @ ys) (e # us @ vs)"
            "mq_block_size q2 = mq_block_size q"
          by (rule move_front [OF m [unfolded es(1)] es(2) False])
        then show ?thesis using pz c y mem fr True by (subst mru_contains_loop.simps) auto
      qed
    qed
  qed
  from this [of "[]" xs] show ?thesis using assms dll_first [of mru_next mru_prev h] by (auto simp: mru_contains_def mruq_def)
qed

lemma mru_add_refines:
  assumes m: "mruq h q xs (us @ [(j, b)])" "us \<noteq> []"
    and len: "unat (mq_block_size q) \<le> length buffer" "unat (mq_block_size q) \<le> length b"
  shows "\<exists>h' q' xs'. mru_add h q i buffer = Some (h', q') \<and> mq_block_size q' = mq_block_size q \<and>
    mruq h' q' xs' ((i, take (unat (mq_block_size q)) buffer @ drop (unat (mq_block_size q)) b) # us)"
proof -
  let ?n = "unat (mq_block_size q)"
  obtain ps x where xs: "xs = ps @ [x]" using mruq_len [OF m(1)] by (cases xs rule: rev_cases) auto
  have lu: "length us = length ps" "ps \<noteq> []" using mruq_len [OF m(1)] m(2) xs by auto
  have d: "dll mru_next mru_prev h (mq_first q) (mq_last q) (ps @ x # [])" using m(1) xs by (simp add: mruq_def)
  obtain c where c: "h x = Some c" "mru_prev c = last_of ps" "mru_next c = 0" using dll_mid [OF d] by auto
  have "last_of ps \<in> set ps" using lu(2) by (simp add: last_of_def)
  then have x: "x \<noteq> 0" "mq_last q = x" "last_of ps \<noteq> 0" "last_of ps \<noteq> x"
    using dll_nonnull [OF d] dll_last [OF d] d by (auto simp: dll_def)
  obtain h1 f l h2 q2 where 1: "unlink mru_next mru_prev set_mru_next set_mru_prev h (mq_first q) (mq_last q) x = Some (h1, f, l)"
      "mru_to_front h1 (q\<lparr>mq_first := f, mq_last := l\<rparr>) x = Some (h2, q2)" "mruq h2 q2 (x # ps) ((j, b) # us)"
      "mq_block_size q2 = mq_block_size q"
    by (rule move_front [of h q ps x "[]" us "(j, b)" "[]"]) (use m(1) xs lu in simp_all)
  have u: "field_upd h (last_of ps) (set_mru_next 0) = Some h1" "f = mq_first q" "l = last_of ps"
    using 1(1) c x by (auto simp: unlink_def field_upd_def split: Option.bind_splits if_splits)
  obtain c2 where c2: "h2 x = Some c2" "mru_id c2 = j" "mru_buffer c2 = b" using 1(3) by (auto simp: mruq_def entry_of_def)
  have q2: "mq_first q2 = x" using 1(3) by (auto simp: mruq_def dll_def)
  let ?b = "take ?n buffer @ drop ?n b"
  let ?h3 = "h2(x \<mapsto> c2\<lparr>mru_id := i, mru_buffer := ?b\<rparr>)"
  have run: "mru_add h q i buffer = Some (?h3, q2)"
    using c x u 1(2,4) c2 q2 len by (simp add: mru_add_def Let_def field_upd_Some copy_into_def)
  have "x \<notin> set ps" using d by (auto simp: dll_def)
  moreover have "dllseg mru_next mru_prev ?h3 (mq_first q2) 0 (x # ps) 0 (mq_last q2)"
    using 1(3) c2(1) \<open>x \<notin> set ps\<close> by (auto simp: mruq_def dll_def)
  moreover have "map (\<lambda>y. map_option entry_of (?h3 y)) ps = map (\<lambda>y. map_option entry_of (h2 y)) ps"
    using \<open>x \<notin> set ps\<close> by (intro map_cong) auto
  ultimately have "mruq ?h3 q2 (x # ps) ((i, ?b) # us)"
    using 1(3) by (simp only: mruq_def dll_def list.map) (simp add: entry_of_def)
  then show ?thesis using run 1(4) by blast
qed

text \<open>A new queue has the sixteen nodes in the order they were made; the destructor deletes every node.\<close>

lemma mru_append:
  assumes m: "mruq h \<lparr>mq_first = f, mq_last = it, mq_block_size = bs\<rparr> xs es" and x: "cur \<noteq> 0" "cur \<notin> set xs" "xs \<noteq> []" and it: "h it = Some ci"
  shows "mruq (h(it \<mapsto> set_mru_next cur ci, cur \<mapsto> set_mru_prev it (MRUNode_new i b))) \<lparr>mq_first = f, mq_last = cur, mq_block_size = bs\<rparr>
    (xs @ [cur]) (es @ [(i, b)])"
proof -
  let ?h = "h(it \<mapsto> set_mru_next cur ci)"
  have d: "dllseg mru_next mru_prev h f 0 xs 0 it" "distinct xs" using m by (simp_all add: mruq_def dll_def)
  then have l: "it = last xs" using x(3) dllseg_last [OF d(1)] by (simp add: last_of_def)
  obtain ys where ys: "xs = ys @ [it]" using x(3) l append_butlast_last_id by metis
  have "dllseg mru_next mru_prev ?h f 0 (ys @ [it]) cur it"
    using mru.seg_set_next [of h f 0 ys it 0 it ci cur] d ys it by simp
  then have "dllseg mru_next mru_prev (?h(cur \<mapsto> set_mru_prev it (MRUNode_new i b))) f 0 (xs @ [cur]) 0 cur"
    using x(1,2) by (subst dllseg_append) (auto simp: ys MRUNode_new_def set_mru_prev_def)
  moreover have "map (\<lambda>y. map_option entry_of ((?h(cur \<mapsto> c)) y)) xs = map (\<lambda>y. map_option entry_of (h y)) xs" for c
    using x(2) it by (intro map_cong) auto
  ultimately show ?thesis
    using m x d(2) unfolding mruq_def dll_def by (simp only: map_append list.map MRUQueue.simps) (simp add: entry_of_def MRUNode_new_def)
qed

lemma mru_init_loop_ok:
  assumes "mruq h \<lparr>mq_first = f, mq_last = it, mq_block_size = bs\<rparr> xs es" "xs \<noteq> []" "distinct (xs @ news)" "0 \<notin> set news" "n \<le> length news"
  shows "\<exists>h' it'. mru_init_loop junk n it news h = Some (it', drop n news, h') \<and>
    mruq h' \<lparr>mq_first = f, mq_last = it', mq_block_size = bs\<rparr> (xs @ take n news) (es @ map (\<lambda>p. (- 1, junk p)) (take n news))"
  using assms
proof (induction n arbitrary: h it xs es news)
  case 0
  then show ?case by simp
next
  case (Suc n)
  then obtain cur ns where ns: "news = cur # ns" by (cases news) auto
  have l: "it \<in> set xs" "it \<noteq> 0" using Suc.prems(1,2) dll_last [of mru_next mru_prev h f it xs] dll_nonnull [of mru_next mru_prev h f it xs]
    by (auto simp: mruq_def last_of_def)
  then obtain ci where ci: "h it = Some ci" using Suc.prems(1) dll_alloc [of mru_next mru_prev h f it xs] by (auto simp: mruq_def)
  have cur: "cur \<noteq> 0" "cur \<notin> set xs" "cur \<noteq> it" using Suc.prems(3,4) l ns by auto
  let ?h = "h(it \<mapsto> set_mru_next cur ci, cur \<mapsto> set_mru_prev it (MRUNode_new (- 1) (junk cur)))"
  have step: "mru_init_loop junk (Suc n) it (cur # ns) h = mru_init_loop junk n cur ns ?h"
    using l(2) ci cur by (simp add: field_upd_Some fun_upd_twist)
  have "\<exists>h' it'. mru_init_loop junk n cur ns ?h = Some (it', drop n ns, h') \<and> mruq h' \<lparr>mq_first = f, mq_last = it', mq_block_size = bs\<rparr>
      ((xs @ [cur]) @ take n ns) ((es @ [(- 1, junk cur)]) @ map (\<lambda>p. (- 1, junk p)) (take n ns))"
    by (rule Suc.IH [OF mru_append [OF Suc.prems(1) cur(1,2) Suc.prems(2) ci]]) (use Suc.prems(3-5) ns in auto)
  then show ?case unfolding ns step by simp
qed

lemma MRUQueue_new_ok:
  assumes "length news = 16" "distinct news" "0 \<notin> set news"
  shows "\<exists>h' q. MRUQueue_new bs junk news h = Some (q, h') \<and> mq_block_size q = bs \<and> mruq h' q news (map (\<lambda>p. (- 1, junk p)) news)"
proof -
  obtain p ns l where ns: "news = p # ns @ [l]" "length ns = 14"
    using assms(1) by (cases news; cases "tl news" rule: rev_cases) auto
  let ?h = "h(p \<mapsto> MRUNode_new (- 1) (junk p))" and ?q = "\<lambda>it. \<lparr>mq_first = p, mq_last = it, mq_block_size = bs\<rparr>"
  have "mruq ?h (?q p) [p] [(- 1, junk p)]" using assms(3) ns by (simp add: mruq_def dll_def MRUNode_new_def entry_of_def)
  then obtain h1 it where 1: "mru_init_loop junk 14 p (ns @ [l]) ?h = Some (it, [l], h1)"
      "mruq h1 (?q it) (p # ns) ((- 1, junk p) # map (\<lambda>p. (- 1, junk p)) ns)"
    using mru_init_loop_ok [of ?h p p bs "[p]" "[(- 1, junk p)]" "ns @ [l]" 14 junk] assms ns by auto
  have it: "it \<in> set (p # ns)" "it \<noteq> 0"
    using 1(2) dll_last [of mru_next mru_prev h1 p it "p # ns"] dll_nonnull [of mru_next mru_prev h1 p it "p # ns"] by (auto simp: mruq_def last_of_def)
  then obtain ci where ci: "h1 it = Some ci" using 1(2) dll_alloc [of mru_next mru_prev h1 p it "p # ns"] by (auto simp: mruq_def)
  have l: "l \<noteq> 0" "l \<notin> set (p # ns)" "l \<noteq> it" using assms ns it by auto
  have "MRUQueue_new bs junk news h = Some (?q l, h1(it \<mapsto> set_mru_next l ci, l \<mapsto> set_mru_prev it (MRUNode_new (- 1) (junk l))))"
    using ns(1) 1(1) l it(2) ci by (simp add: MRUQueue_new_def field_upd_Some fun_upd_twist)
  then show ?thesis using mru_append [OF 1(2) l(1,2) _ ci] ns(1) by simp
qed

lemma mru_clear_ok:
  assumes "mruq h q xs es"
  shows "\<exists>h' q'. mru_clear h q = Some (h', q') \<and> mru_is_empty q' \<and> (\<forall>x \<in> set xs. h' x = None) \<and> (\<forall>x. x \<notin> set xs \<longrightarrow> h' x = h x)"
  using assms
proof (induction xs arbitrary: h q es)
  case Nil
  then show ?case by (subst mru_clear.simps) (auto simp: mruq_def dll_def mru_is_empty_def)
next
  case (Cons x xs)
  have d: "dll mru_next mru_prev h (mq_first q) (mq_last q) ([] @ x # xs)" using Cons.prems by (simp add: mruq_def)
  obtain c where c: "h x = Some c" "mru_next c = first_of xs" "dllseg mru_next mru_prev h (first_of xs) x xs 0 (mq_last q)"
    by (rule dll_mid [OF d])
  have x: "mq_first q = x" "x \<noteq> 0" "x \<notin> set xs" "distinct xs" using dll_first [OF d] dll_nonnull [OF d] d by (auto simp: dll_def)
  show ?case
  proof (cases xs)
    case Nil
    have "mru_clear (h(x := None)) (q\<lparr>mq_first := 0, mq_last := 0\<rparr>) = Some (h(x := None), q\<lparr>mq_first := 0, mq_last := 0\<rparr>)"
      by (subst mru_clear.simps) (simp add: mru_is_empty_def)
    then show ?thesis using x c Nil by (subst mru_clear.simps) (simp add: mru_is_empty_def)
  next
    case (Cons y ys)
    obtain cy where cy: "h y = Some cy" using dllseg_alloc [OF c(3)] Cons by auto
    have y: "y \<noteq> 0" "y \<noteq> x" "y \<notin> set ys" using dllseg_nonnull [OF c(3)] x Cons by auto
    let ?h = "h(x := None, y \<mapsto> set_mru_prev 0 cy)" and ?q = "q\<lparr>mq_first := y\<rparr>"
    have eq: "mru_clear h q = mru_clear ?h ?q"
      using x c cy y Cons by (subst mru_clear.simps) (simp add: mru_is_empty_def field_upd_Some)
    have "dllseg mru_next mru_prev ?h y 0 xs 0 (mq_last q)"
      using mru.seg_set_prev [of "h(x := None)" y x ys 0 "mq_last q" cy 0] c(3) cy y x Cons by auto
    moreover have "map (\<lambda>z. map_option entry_of (?h z)) xs = map Some (tl es)"
    proof -
      have "map (\<lambda>z. map_option entry_of (?h z)) xs = map (\<lambda>z. map_option entry_of (h z)) xs" using cy x Cons by (intro map_cong) auto
      moreover have "map (\<lambda>z. map_option entry_of (h z)) xs = map Some (tl es)" using Cons.prems by (auto simp: mruq_def map_tl)
      ultimately show ?thesis by (rule trans)
    qed
    ultimately have "mruq ?h ?q xs (tl es)" using x by (simp only: mruq_def dll_def MRUQueue.simps) simp
    from Cons.IH [OF this] Cons eq show ?thesis using x y by fastforce
  qed
qed

section \<open>What the cache holds\<close>

text \<open>The blocks asked for, the last one first, each once.\<close>

definition recent :: "u32 list \<Rightarrow> u32 list" where
  "recent ids = fold (\<lambda>i L. i # removeAll i L) ids []"

lemma recent_snoc: "recent (ids @ [i]) = i # removeAll i (recent ids)"
  by (simp add: recent_def)

lemma recent_distinct: "distinct (recent ids)"
  by (induction ids rule: rev_induct) (simp_all add: recent_snoc distinct_removeAll, simp add: recent_def)

lemma recent_set [simp]: "set (recent ids) = set ids"
  by (induction ids rule: rev_induct) (auto simp: recent_snoc, simp_all add: recent_def)

lemma take_front:
  assumes "take (Suc n) (L @ R) = A @ i # B" "distinct L" "i \<notin> set R" "i \<notin> set A" "Suc n \<le> length R"
  shows "take n (removeAll i L @ R) = A @ B"
proof -
  have "(A @ i # B) @ drop (Suc n) (L @ R) = L @ R" using append_take_drop_id [of "Suc n" "L @ R"] by (simp only: assms(1))
  then obtain T where all: "L @ R = A @ i # B @ T" by (metis append_Cons append_assoc)
  then have "i \<in> set (L @ R)" by (metis in_set_conv_decomp)
  then obtain P S where L: "L = P @ i # S" using assms(3) by (auto dest: split_list)
  then have "P @ i # (S @ R) = A @ i # (B @ T)" using all by simp
  then have "P = A" "S @ R = B @ T" using L assms(2-4) by (auto simp: append_Cons_eq_iff)
  moreover have "removeAll i L = P @ S" using L assms(2) by (simp add: removeAll_id)
  ultimately have "removeAll i L @ R = (A @ B) @ T" by simp
  moreover have "length (A @ B) = n" using assms(5) arg_cong [OF assms(1), of length] by simp
  ultimately show ?thesis by simp
qed

lemma take_other:
  assumes "i \<notin> set (take (Suc n) (L @ R))" "i \<notin> set R"
  shows "take n (removeAll i L @ R) = take n (L @ R)"
proof -
  have i: "i \<notin> set (take n L)" using assms(1) set_take_subset_set_take [of n "Suc n" L] by (auto simp: take_append)
  have "removeAll i L = take n L @ removeAll i (drop n L)"
    using i by (subst append_take_drop_id [of n L, symmetric], subst removeAll_append) (simp add: removeAll_id)
  then show ?thesis by (cases "length L \<le> n") simp_all
qed

text \<open>
  The cache of a device with the bytes \<open>content\<close>, after the blocks \<open>L\<close> were asked for: the buffers are
  large enough, the blocks are the latest sixteen and what is cached for them is right.
\<close>

definition cached :: "(nat \<Rightarrow> u8) \<Rightarrow> nat \<Rightarrow> u32 list \<Rightarrow> mru_entry list \<Rightarrow> bool" where
  "cached content bs L es \<longleftrightarrow> map fst es = take 16 (L @ replicate 16 (- 1)) \<and>
     (\<forall>(i, b) \<in> set es. bs \<le> length b \<and> (i \<noteq> - 1 \<longrightarrow> take bs b = map content [unat i * bs..<unat i * bs + bs]))"

lemma cached_hit:
  assumes c: "cached content bs L es" "distinct L" and i: "i \<noteq> - 1" "i \<in> set (take 16 L)"
  obtains b es' where "to_front i es = (i, b) # es'" "cached content bs (i # removeAll i L) ((i, b) # es')"
    "bs \<le> length b" "take bs b = map content [unat i * bs..<unat i * bs + bs]" "i \<in> fst ` set es"
proof -
  let ?R = "replicate 16 (- 1) :: u32 list"
  have ids: "map fst es = take 16 (L @ ?R)" using c(1) by (simp add: cached_def)
  have "i \<in> set (map fst es)" unfolding ids using i(2) by auto
  from split_list_first [OF this] obtain A B where AB: "map fst es = A @ i # B" "i \<notin> set A" by blast
  then obtain us e vs where es: "es = us @ e # vs" "map fst us = A" "map fst vs = B" "fst e = i" by (auto simp: map_eq_append_conv)
  obtain b where b: "e = (i, b)" using es(4) by (cases e) auto
  have "i \<notin> fst ` set us" using AB(2) unfolding es(2) [symmetric] by simp
  then have f: "to_front i es = (i, b) # us @ vs" using to_front_found es(1) b by simp
  have "take (Suc 15) (L @ ?R) = A @ i # B" using ids AB(1) by (simp del: take_append)
  then have "take 15 (removeAll i L @ ?R) = A @ B" using i(1) c(2) AB(2) by (intro take_front) auto
  then have "take 16 ((i # removeAll i L) @ ?R) = i # A @ B" by (simp add: take_Cons' del: take_append)
  then have "cached content bs (i # removeAll i L) ((i, b) # us @ vs)"
    using c(1) es b unfolding cached_def by (auto simp del: take_append)
  moreover have "bs \<le> length b" "take bs b = map content [unat i * bs..<unat i * bs + bs]" using c(1) i(1) es(1) b by (auto simp: cached_def)
  moreover have "i \<in> fst ` set es" using es(1) b by force
  ultimately show thesis using that f by blast
qed

lemma cached_miss:
  assumes c: "cached content bs L es" and i: "i \<noteq> - 1" "i \<notin> set (take 16 L)"
  obtains us j b where "to_front i es = us @ [(j, b)]" "us \<noteq> []" "bs \<le> length b" "i \<notin> fst ` set es"
    "\<forall>b'. length b' = length b \<longrightarrow> take bs b' = map content [unat i * bs..<unat i * bs + bs] \<longrightarrow>
      cached content bs (i # removeAll i L) ((i, b') # us)"
proof -
  let ?R = "replicate 16 (- 1) :: u32 list"
  have ids: "map fst es = take 16 (L @ ?R)" using c by (simp add: cached_def)
  have len: "length es = 16" using arg_cong [OF ids, of length] by simp
  then obtain us j b where us: "es = us @ [(j, b)]" by (cases es rule: rev_cases) auto
  have out: "i \<notin> set (take 16 (L @ ?R))" using i by (auto dest: in_set_takeD)
  have "set (map fst es) = fst ` set es" by simp
  then have nf: "i \<notin> fst ` set es" using out ids by metis
  have "take 15 (removeAll i L @ ?R) = take 15 (L @ ?R)" using out i(1) by (intro take_other) (auto simp del: take_append)
  also have "\<dots> = take 15 (map fst es)" unfolding ids by (simp del: take_append)
  also have "\<dots> = map fst us" using us len by simp
  finally have L: "take 16 ((i # removeAll i L) @ ?R) = i # map fst us" by (simp add: take_Cons' del: take_append)
  show thesis
  proof (rule that)
    show "to_front i es = us @ [(j, b)]" using to_front_missing [OF nf] us by simp
    show "us \<noteq> []" using len us by auto
    show "bs \<le> length b" "i \<notin> fst ` set es" using c us nf by (auto simp: cached_def)
    show "\<forall>b'. length b' = length b \<longrightarrow> take bs b' = map content [unat i * bs..<unat i * bs + bs] \<longrightarrow>
        cached content bs (i # removeAll i L) ((i, b') # us)"
      using c us L unfolding cached_def by (auto simp del: take_append)
  qed
qed

definition cache_ok :: "block_io \<Rightarrow> (nat \<Rightarrow> u8) \<Rightarrow> u32 \<Rightarrow> u32 list \<Rightarrow> Cache \<Rightarrow> bool" where
  "cache_ok d content bs L c \<longleftrightarrow> cache_ide c = d \<and> cache_block_size c = bs \<and> mq_block_size (cache_mru c) = bs \<and>
     (\<exists>xs es. mruq (cache_nodes c) (cache_mru c) xs es \<and> cached content (unat bs) L es)"

text \<open>A block of the device, and what a read of it leaves in a buffer.\<close>

definition whole_block :: "block_io \<Rightarrow> u32 \<Rightarrow> u32 \<Rightarrow> bool" where
  "whole_block d bs i \<longleftrightarrow> (unat i + 1) * unat bs \<le> unat (size_in_bytes d)"

definition block_in :: "(nat \<Rightarrow> u8) \<Rightarrow> u32 \<Rightarrow> u8 list \<Rightarrow> u32 \<Rightarrow> u8 list" where
  "block_in content bs buf i = map content [unat i * unat bs..<unat i * unat bs + unat bs] @ drop (unat bs) buf"

lemma whole_blockD:
  assumes "whole_block d bs i" "0 < bs"
  shows "i \<noteq> - 1" "unat (i * bs) = unat i * unat bs" "unat i * unat bs + unat bs \<le> unat (size_in_bytes d)"
proof -
  have le: "(unat i + 1) * unat bs \<le> unat (size_in_bytes d)" using assms(1) by (simp add: whole_block_def)
  then show b: "unat i * unat bs + unat bs \<le> unat (size_in_bytes d)" by (simp add: algebra_simps)
  then have "unat i * unat bs < 4294967296" using unat_lt_32 [of "size_in_bytes d"] by linarith
  then show "unat (i * bs) = unat i * unat bs" by (simp add: unat_word_ariths)
  have "1 \<le> unat bs" using assms(2) by (simp add: word_less_nat_alt)
  then have "unat i + 1 \<le> (unat i + 1) * unat bs" using mult_le_mono2 [of 1 "unat bs" "unat i + 1"] by simp
  then have "unat i + 1 < 4294967296" using le unat_lt_32 [of "size_in_bytes d"] by linarith
  moreover have m: "(- 1 :: u32) = 4294967295" by simp
  have "unat (- 1 :: u32) = 4294967295" unfolding m by simp
  ultimately show "i \<noteq> - 1" by auto
qed

text \<open>One read: what it returns, what it leaves, and whether it needs the device.\<close>

lemma cache_read:
  assumes ok: "cache_ok d content bs L c" "distinct L" and dev: "block_device d content"
    and i: "whole_block d bs i" "0 < bs" and buf: "unat bs \<le> length buf"
  shows "\<exists>c'. Cache_read_block c i buf = Some (block_in content bs buf i, c') \<and> cache_ok d content bs (i # removeAll i L) c'"
    and "map_option fst (Cache_read_block (c\<lparr>cache_ide := d\<lparr>read_block := \<lambda>_. None\<rparr>\<rparr>) i buf) =
      (if i \<in> set (take 16 L) then Some (block_in content bs buf i) else None)"
proof -
  let ?n = "unat bs" and ?lost = "d\<lparr>read_block := \<lambda>_. None\<rparr>"
  note w = whole_blockD [OF i]
  obtain xs es where m: "mruq (cache_nodes c) (cache_mru c) xs es" and ca: "cached content ?n L es"
      and c: "cache_ide c = d" "cache_block_size c = bs" "mq_block_size (cache_mru c) = bs"
    using ok(1) by (auto simp: cache_ok_def)
  obtain h q ys where con: "mru_contains (cache_nodes c) (cache_mru c) i = Some (i \<in> fst ` set es, h, q)"
      "mruq h q ys (to_front i es)" "mq_block_size q = bs"
    using mru_contains_refines [OF m] c(3) by metis
  have "(\<exists>c'. Cache_read_block c i buf = Some (block_in content bs buf i, c') \<and> cache_ok d content bs (i # removeAll i L) c') \<and>
    map_option fst (Cache_read_block (c\<lparr>cache_ide := ?lost\<rparr>) i buf) = (if i \<in> set (take 16 L) then Some (block_in content bs buf i) else None)"
  proof (cases "i \<in> set (take 16 L)")
    case True
    obtain b es' where b: "to_front i es = (i, b) # es'" "cached content ?n (i # removeAll i L) ((i, b) # es')"
        "?n \<le> length b" "take ?n b = map content [unat i * ?n..<unat i * ?n + ?n]" "i \<in> fst ` set es"
      by (rule cached_hit [OF ca ok(2) w(1) True])
    then obtain y zs cy where y: "ys = y # zs" "h y = Some cy" "entry_of cy = (i, b)" using con(2) by (auto simp: mruq_def)
    have f: "mq_first q = y" "y \<noteq> 0" using con(2) y(1) by (auto simp: mruq_def dll_def)
    have hit: "Cache_read_block (c\<lparr>cache_ide := d'\<rparr>) i buf = Some (block_in content bs buf i, c\<lparr>cache_ide := d', cache_mru := q, cache_nodes := h\<rparr>)" for d'
      using con(1) b(3-5) y f buf c by (simp add: Cache_read_block_def mru_peek_def copy_into_def entry_of_def block_in_def)
    have "c\<lparr>cache_ide := d\<rparr> = c" using c(1) by (cases c) simp
    then have "cache_ok d content bs (i # removeAll i L) (c\<lparr>cache_ide := d, cache_mru := q, cache_nodes := h\<rparr>)"
      using b(1,2) con(2,3) c by (auto simp: cache_ok_def)
    then show ?thesis using hit [of d] hit [of ?lost] True \<open>c\<lparr>cache_ide := d\<rparr> = c\<close> by auto
  next
    case False
    obtain us j b where b: "to_front i es = us @ [(j, b)]" "us \<noteq> []" "?n \<le> length b" "i \<notin> fst ` set es"
        and keep: "\<forall>b'. length b' = length b \<longrightarrow> take ?n b' = map content [unat i * ?n..<unat i * ?n + ?n] \<longrightarrow>
          cached content ?n (i # removeAll i L) ((i, b') # us)"
      by (rule cached_miss [OF ca w(1) False])
    let ?bytes = "map content [unat i * ?n..<unat i * ?n + ?n]"
    have "\<not> unat (size_in_bytes d) < unat i * ?n" "min ?n (unat (size_in_bytes d) - unat i * ?n) = ?n" "bs \<noteq> 0" using w(3) i(2) by auto
    then have rd: "read_all d (i * bs) bs = Some (int ?n, ?bytes)"
      using block_device.read_all_correct [OF dev, of "i * bs" bs] by (simp add: w(2) Let_def)
    have n: "0 < ?n" using i(2) by (simp add: word_less_nat_alt)
    have "\<not> size_in_bytes ?lost < i * bs" "i * bs \<noteq> size_in_bytes ?lost" using w(2,3) n by (auto simp: word_less_nat_alt)
    then have "bio_read ?lost (i * bs) bs = None" by (auto simp: bio_read_def Let_def)
    then have lost: "read_all ?lost (i * bs) bs = None" using i(2) by (simp add: read_all_def) (subst bio_read_all.simps, simp)
    obtain h' q' zs where add: "mru_add h q i (block_in content bs buf i) = Some (h', q')" "mq_block_size q' = bs"
        "mruq h' q' zs ((i, take ?n (block_in content bs buf i) @ drop ?n b) # us)"
      using mru_add_refines [OF con(2) [unfolded b(1)] b(2), of "block_in content bs buf i" i] con(3) buf b(3) by (auto simp: block_in_def)
    have "cached content ?n (i # removeAll i L) ((i, take ?n (block_in content bs buf i) @ drop ?n b) # us)"
      using keep b(3) by (simp add: block_in_def)
    then have "cache_ok d content bs (i # removeAll i L) (c\<lparr>cache_mru := q', cache_nodes := h'\<rparr>)"
      using add(2,3) c by (auto simp: cache_ok_def)
    moreover have "Cache_read_block c i buf = Some (block_in content bs buf i, c\<lparr>cache_mru := q', cache_nodes := h'\<rparr>)"
      using con(1) b(4) c rd add(1) buf by (simp add: Cache_read_block_def copy_into_def block_in_def)
    moreover have "Cache_read_block (c\<lparr>cache_ide := ?lost\<rparr>) i buf = None" using con(1) b(4) c lost by (simp add: Cache_read_block_def)
    ultimately show ?thesis using False by simp
  qed
  then show "\<exists>c'. Cache_read_block c i buf = Some (block_in content bs buf i, c') \<and> cache_ok d content bs (i # removeAll i L) c'"
    and "map_option fst (Cache_read_block (c\<lparr>cache_ide := ?lost\<rparr>) i buf) = (if i \<in> set (take 16 L) then Some (block_in content bs buf i) else None)"
    by blast+
qed

section \<open>Properties\<close>

fun Cache_reads :: "Cache \<Rightarrow> u32 list \<Rightarrow> u8 list \<Rightarrow> (u8 list list \<times> Cache) option" where
  "Cache_reads c [] buf = Some ([], c)"
| "Cache_reads c (i # ids) buf = do { (b, c) \<leftarrow> Cache_read_block c i buf; (bs, c) \<leftarrow> Cache_reads c ids buf; Some (b # bs, c) }"

lemma cache_runs:
  assumes "cache_ok d content bs (recent done) c" "block_device d content" "\<forall>i \<in> set ids. whole_block d bs i" "0 < bs" "unat bs \<le> length buf"
  shows "\<exists>c'. Cache_reads c ids buf = Some (map (block_in content bs buf) ids, c') \<and> cache_ok d content bs (recent (done @ ids)) c'"
  using assms(1,3)
proof (induction ids arbitrary: c "done")
  case Nil
  then show ?case by simp
next
  case (Cons i ids)
  obtain c1 where 1: "Cache_read_block c i buf = Some (block_in content bs buf i, c1)" "cache_ok d content bs (recent (done @ [i])) c1"
    using cache_read(1) [OF Cons.prems(1) recent_distinct assms(2) _ assms(4,5)] Cons.prems(2) by (auto simp: recent_snoc)
  then show ?case using Cons.IH [OF 1(2)] Cons.prems(2) by auto
qed

text \<open>
  C25.  The block cache is transparent and keeps the sixteen blocks read last.  From a new cache over a
  correct device, every read of whole blocks, in any order, returns the bytes of the device.  After
  the reads \<open>ids\<close>, a read is answered without the device exactly when the block is one of the last
  sixteen different blocks read: with a device whose reads fail it returns the same bytes for these,
  and fails for all others.
\<close>

theorem cache_transparent:
  assumes "block_device d content" "0 < bs" "4 dvd unat bs"
    and "length news = 16" "distinct news" "0 \<notin> set news" "\<forall>p \<in> set news. length (junk p) = 4 * unat (drop_bit 2 bs)"
    and "\<forall>i \<in> set ids. whole_block d bs i" "unat bs \<le> length buf"
  shows "\<exists>c c'. Cache_new d bs junk news h = Some c \<and> Cache_reads c ids buf = Some (map (block_in content bs buf) ids, c') \<and>
    (\<forall>i. whole_block d bs i \<longrightarrow> map_option fst (Cache_read_block (c'\<lparr>cache_ide := d\<lparr>read_block := \<lambda>_. None\<rparr>\<rparr>) i buf) =
      (if i \<in> set (take 16 (recent ids)) then Some (block_in content bs buf i) else None))"
proof -
  obtain h' q where new: "MRUQueue_new bs junk news h = Some (q, h')" "mq_block_size q = bs" "mruq h' q news (map (\<lambda>p. (- 1, junk p)) news)"
    using MRUQueue_new_ok [OF assms(4-6)] by blast
  have "unat (drop_bit 2 bs) = unat bs div 4" by (simp add: unat_drop_bit_32)
  then have len: "\<forall>p \<in> set news. length (junk p) = unat bs" using assms(3,7) by simp
  have ids: "map fst (map (\<lambda>p. (- 1 :: u32, junk p)) news) = replicate 16 (- 1)" using assms(4) by (simp add: map_replicate_const comp_def)
  have "cached content (unat bs) [] (map (\<lambda>p. (- 1, junk p)) news)" unfolding cached_def ids using len by auto
  then have "cache_ok d content bs (recent []) \<lparr>cache_ide = d, cache_block_size = bs, cache_mru = q, cache_nodes = h'\<rparr>"
    using new(2,3) by (auto simp: cache_ok_def recent_def)
  from cache_runs [OF this assms(1,8,2,9)] obtain c' where
    "Cache_reads \<lparr>cache_ide = d, cache_block_size = bs, cache_mru = q, cache_nodes = h'\<rparr> ids buf = Some (map (block_in content bs buf) ids, c')"
    "cache_ok d content bs (recent ids) c'"
    by auto
  moreover from this(2) cache_read(2) [OF this(2) recent_distinct assms(1) _ assms(2,9)]
  have "\<forall>i. whole_block d bs i \<longrightarrow> map_option fst (Cache_read_block (c'\<lparr>cache_ide := d\<lparr>read_block := \<lambda>_. None\<rparr>\<rparr>) i buf) =
      (if i \<in> set (take 16 (recent ids)) then Some (block_in content bs buf i) else None)" by blast
  ultimately show ?thesis using new(1) by (simp add: Cache_new_def)
qed

lemma cache_transparent_witness:
  "\<exists>c c'. Cache_new (Ide (\<lambda>n. of_nat n)) 512 (\<lambda>_. replicate 512 7) (map of_nat [1..<17]) Map.empty = Some c \<and>
     Cache_reads c [3, 1, 3] (replicate 512 0) =
       Some (map (block_in (\<lambda>n. of_nat n) 512 (replicate 512 0)) [3, 1, 3], c') \<and>
     map_option fst (Cache_read_block (c'\<lparr>cache_ide := (Ide (\<lambda>n. of_nat n))\<lparr>read_block := \<lambda>_. None\<rparr>\<rparr>) 1 (replicate 512 0)) =
       Some (block_in (\<lambda>n. of_nat n) 512 (replicate 512 0) 1) \<and>
     map_option fst (Cache_read_block (c'\<lparr>cache_ide := (Ide (\<lambda>n. of_nat n))\<lparr>read_block := \<lambda>_. None\<rparr>\<rparr>) 2 (replicate 512 0)) = None"
proof -
  let ?d = "Ide (\<lambda>n. of_nat n)" and ?news = "map of_nat [1..<17] :: u32 list"
  have news: "length ?news = 16" "distinct ?news" "0 \<notin> set ?news" by (simp_all add: upt_rec)
  have wb: "whole_block ?d 512 1" "whole_block ?d 512 2" "\<forall>i \<in> set [3, 1, 3]. whole_block ?d 512 i" by (simp_all add: whole_block_def)
  have junk: "\<forall>p \<in> set ?news. length ((\<lambda>_. replicate 512 7 :: u8 list) p) = 4 * unat (drop_bit 2 (512 :: u32))" by (simp add: drop_bit_eq_div)
  have bs: "0 < (512 :: u32)" "4 dvd unat (512 :: u32)" "unat (512 :: u32) \<le> length (replicate 512 (0 :: u8))" by simp_all
  have r: "recent [3, 1, 3] = [3, 1]" by (simp add: recent_def)
  obtain c c' where "Cache_new ?d 512 (\<lambda>_. replicate 512 7) ?news Map.empty = Some c"
      "Cache_reads c [3, 1, 3] (replicate 512 0) = Some (map (block_in (\<lambda>n. of_nat n) 512 (replicate 512 0)) [3, 1, 3], c')"
      "\<forall>i. whole_block ?d 512 i \<longrightarrow> map_option fst (Cache_read_block (c'\<lparr>cache_ide := ?d\<lparr>read_block := \<lambda>_. None\<rparr>\<rparr>) i (replicate 512 0)) =
        (if i \<in> set (take 16 (recent [3, 1, 3])) then Some (block_in (\<lambda>n. of_nat n) 512 (replicate 512 0) i) else None)"
    using cache_transparent [OF ide.block_device_axioms bs(1,2) news junk wb(3) bs(3)] by blast
  then show ?thesis using wb(1,2) unfolding r by (intro exI [of _ c] exI [of _ c']) simp
qed

end
