(* ===== verification/Config_Init.thy ===== *)
theory Config_Init
  imports Vmm
begin

text \<open>
  The configuration of the machine (\<^verbatim>\<open>kernel/config.h\<close>, \<^verbatim>\<open>kernel/config.cc\<close>): the ACPI tables in low
  memory and the memory sizes the boot sector got from the BIOS.  The code runs before paging is on,
  so an address is an address of the bytes \<open>m\<close>; using a null pointer has no result, nor has a loop
  that does not end.  The record extends the three fields the memory manager uses (\<open>Vmm\<close>).
\<close>

section \<open>Data\<close>

record ApicInfo =
  ai_processorId :: u8
  ai_apicId :: u8
  ai_flags :: u32

record Config = config +
  nOtherProcs :: u32
  totalProcs :: u32
  madtFlags :: u32
  apicInfo :: "ApicInfo list"
  oemid :: "u8 list"

definition MAX_PROCS :: nat where "MAX_PROCS = 16"

record MemInfo =
  mi_ax :: u16
  mi_bx :: u16
  mi_cx :: u16
  mi_dx :: u16

type_synonym bytes = "u32 \<Rightarrow> u8"

definition byte_word16 :: "bytes \<Rightarrow> u32 \<Rightarrow> u16" where
  "byte_word16 m a = ucast (m a) OR push_bit 8 (ucast (m (a + 1)))"

definition byte_word32 :: "bytes \<Rightarrow> u32 \<Rightarrow> u32" where
  "byte_word32 m a = ucast (m a) OR push_bit 8 (ucast (m (a + 1))) OR push_bit 16 (ucast (m (a + 2))) OR push_bit 24 (ucast (m (a + 3)))"

text \<open>The packed structures, as offsets of their fields.\<close>

definition SDT_Length :: "bytes \<Rightarrow> u32 \<Rightarrow> u32" where "SDT_Length m p = byte_word32 m (p + 4)"
definition sizeof_SDT :: u32 where "sizeof_SDT = 36"
definition MADT_localAddress :: "bytes \<Rightarrow> u32 \<Rightarrow> u32" where "MADT_localAddress m p = byte_word32 m (p + 36)"
definition MADT_flags :: "bytes \<Rightarrow> u32 \<Rightarrow> u32" where "MADT_flags m p = byte_word32 m (p + 40)"
definition sizeof_MADT :: u32 where "sizeof_MADT = 44"
definition MADT_ENTRY_type :: "bytes \<Rightarrow> u32 \<Rightarrow> u8" where "MADT_ENTRY_type m p = m p"
definition MADT_ENTRY_len :: "bytes \<Rightarrow> u32 \<Rightarrow> u8" where "MADT_ENTRY_len m p = m (p + 1)"
definition APIC_ENTRY_info :: "bytes \<Rightarrow> u32 \<Rightarrow> ApicInfo" where
  "APIC_ENTRY_info m p = \<lparr>ai_processorId = m (p + 2), ai_apicId = m (p + 3), ai_flags = byte_word32 m (p + 4)\<rparr>"
definition IOAPIC_ENTRY_address :: "bytes \<Rightarrow> u32 \<Rightarrow> u32" where "IOAPIC_ENTRY_address m p = byte_word32 m (p + 4)"
definition RSD_OEMID :: "bytes \<Rightarrow> u32 \<Rightarrow> u8 list" where "RSD_OEMID m p = map (\<lambda>i. m (p + 9 + of_nat i)) [0..<6]"
definition RSD_rootSDT :: "bytes \<Rightarrow> u32 \<Rightarrow> u32" where "RSD_rootSDT m p = byte_word32 m (p + 16)"

section \<open>The code\<close>

text \<open>\<^verbatim>\<open>iseq(a, name, len)\<close>, with \<open>name\<close> the \<open>len\<close> characters of the literal.\<close>

fun iseq :: "bytes \<Rightarrow> u32 \<Rightarrow> u8 list \<Rightarrow> bool" where
  "iseq m a [] \<longleftrightarrow> True"
| "iseq m a (b # bs) \<longleftrightarrow> (if m a \<noteq> b then False else iseq m (a + 1) bs)"

definition rsd_name :: "u8 list" where "rsd_name = [82, 83, 68, 32, 80, 84, 82, 32]"
definition apic_name :: "u8 list" where "apic_name = [65, 80, 73, 67]"

partial_function (option) findRSDInRange :: "bytes \<Rightarrow> u32 \<Rightarrow> u32 \<Rightarrow> u32 option" where
  "findRSDInRange m i end =
     (if i < end then (if iseq m i rsd_name then Some i else findRSDInRange m (i + 16) end) else Some 0)"

definition findRSD :: "bytes \<Rightarrow> u32 option" where
  "findRSD m = do {
     it \<leftarrow> findRSDInRange m 0x000E0000 0x00100000;
     if it = 0 then
       (let base = push_bit 4 (ucast (byte_word16 m 0x40E)) in findRSDInRange m base (base + push_bit 10 1))
     else Some it }"

fun findSDT_loop :: "bytes \<Rightarrow> u32 \<Rightarrow> u8 list \<Rightarrow> nat \<Rightarrow> nat \<Rightarrow> u32" where
  "findSDT_loop m others name i 0 = 0"
| "findSDT_loop m others name i (Suc n) =
     (let h = byte_word32 m (elem others i) in
      if iseq m h name then h else findSDT_loop m others name (Suc i) n)"

definition findSDT :: "bytes \<Rightarrow> u32 \<Rightarrow> u8 list \<Rightarrow> u32 option" where
  "findSDT m rsdp name =
     (if rsdp = 0 then None
      else let rsdt = RSD_rootSDT m rsdp; others = rsdt + sizeof_SDT;
        entries = (SDT_Length m rsdt - sizeof_SDT) div 4 in
      Some (findSDT_loop m others name 0 (unat entries)))"

definition memAbove1M :: "MemInfo \<Rightarrow> u32 option" where
  "memAbove1M mi =
     (if mi_cx mi = 15 * 1024 \<or> mi_dx mi = 0
      then Some (push_bit 10 (ucast (mi_ax mi OR mi_cx mi)) + push_bit 16 (ucast (mi_bx mi OR mi_dx mi)))
      else None)"

text \<open>
  The body of the loop over the entries of the MADT, behind the step to the next entry.  The code does
  not check the number of processors: it writes a seventeenth one behind the end of \<^verbatim>\<open>apicInfo\<close>, which
  is undefined behaviour in C++.  Here, as for every access outside an object in this development,
  there is no result then; what the code does from there on is not modelled.
\<close>

definition config_entry :: "bytes \<Rightarrow> u32 \<Rightarrow> Config \<Rightarrow> Config option" where
  "config_entry m entryPtr config =
     (if MADT_ENTRY_type m entryPtr = 0 then
        (let apic = APIC_ENTRY_info m entryPtr in
         if ai_processorId apic = 0 then Some config
         else if unat (nOtherProcs config) < MAX_PROCS then
           Some (config\<lparr>apicInfo := (apicInfo config)[unat (nOtherProcs config) := apic], nOtherProcs := nOtherProcs config + 1\<rparr>)
         else None)
      else if MADT_ENTRY_type m entryPtr = 1 then Some (config\<lparr>ioAPIC := IOAPIC_ENTRY_address m entryPtr\<rparr>)
      else Some config)"

partial_function (option) config_loop :: "bytes \<Rightarrow> u32 \<Rightarrow> u32 \<Rightarrow> Config \<Rightarrow> Config option" where
  "config_loop m entryPtr bytesForEntries config =
     (if 0 < sint bytesForEntries then do {
        let len = ucast (MADT_ENTRY_len m entryPtr);
        let entryPtr = entryPtr + len;
        let bytesForEntries = bytesForEntries - len;
        config \<leftarrow> config_entry m entryPtr config;
        config_loop m entryPtr bytesForEntries config }
      else Some config)"

definition configInit :: "MemInfo \<Rightarrow> bytes \<Rightarrow> Config \<Rightarrow> Config option" where
  "configInit memInfo m config = do {
     extra \<leftarrow> memAbove1M memInfo;
     let config = config\<lparr>memSize := extra + push_bit 20 1\<rparr>;
     rsdp \<leftarrow> findRSD m;
     let config = (if rsdp \<noteq> 0 then config\<lparr>oemid := RSD_OEMID m rsdp @ [0]\<rparr> else config);
     madt \<leftarrow> findSDT m rsdp apic_name;
     if madt = 0 then None
     else do {
       let config = config\<lparr>localAPIC := MADT_localAddress m madt, madtFlags := MADT_flags m madt\<rparr>;
       let bytesForEntries = SDT_Length m madt - sizeof_MADT;
       config \<leftarrow> config_loop m (madt + sizeof_MADT) bytesForEntries (config\<lparr>nOtherProcs := 0\<rparr>);
       Some (config\<lparr>totalProcs := nOtherProcs config + 1\<rparr>) } }"

section \<open>The searches\<close>

lemma iseq_iff: "iseq m a bs \<longleftrightarrow> (\<forall>i < length bs. m (a + of_nat i) = bs ! i)"
proof (induction bs arbitrary: a)
  case Nil
  then show ?case by simp
next
  case (Cons b bs)
  have "(\<forall>i < length (b # bs). m (a + of_nat i) = (b # bs) ! i) \<longleftrightarrow> m a = b \<and> (\<forall>i < length bs. m (a + 1 + of_nat i) = bs ! i)"
    unfolding All_less_Suc2 length_Cons by (simp add: add.assoc)
  then show ?case by (simp add: Cons)
qed

text \<open>The first of some addresses that holds a name, null if there is none.\<close>

definition first_named :: "bytes \<Rightarrow> u8 list \<Rightarrow> u32 list \<Rightarrow> u32" where
  "first_named m name as = (case find (\<lambda>a. iseq m a name) as of None \<Rightarrow> 0 | Some a \<Rightarrow> a)"

lemma first_named_simps [simp]:
  "first_named m name [] = 0" "first_named m name (a # as) = (if iseq m a name then a else first_named m name as)"
  by (simp_all add: first_named_def)

lemma first_named_append: "0 \<notin> set as \<Longrightarrow>
    first_named m name (as @ bs) = (if first_named m name as = 0 then first_named m name bs else first_named m name as)"
  by (induction as) auto

abbreviation every_16 :: "u32 \<Rightarrow> nat \<Rightarrow> u32 list" where
  "every_16 s n \<equiv> map (\<lambda>k. s + 16 * of_nat k) [0..<n]"

lemma upt_Suc_map: "map f [0..<Suc n] = f 0 # map (\<lambda>k. f (Suc k)) [0..<n]"
  unfolding upt_conv_Cons [OF zero_less_Suc] map_Suc_upt [symmetric] by (simp add: o_def)

lemma every_16_Suc: "every_16 s (Suc n) = s # every_16 (s + 16) n"
  unfolding upt_Suc_map by (simp add: algebra_simps)

lemma findRSDInRange_ok:
  assumes "unat e \<le> 4294967280" "unat e = unat s + 16 * n"
  shows "findRSDInRange m s e = Some (first_named m rsd_name (every_16 s n))"
  using assms
proof (induction n arbitrary: s)
  case 0
  then show ?case by (subst findRSDInRange.simps) (simp add: word_less_nat_alt)
next
  case (Suc n)
  have lt: "s < e" using Suc.prems by (simp add: word_less_nat_alt)
  have "unat s + 16 < 4294967296" using Suc.prems by simp
  then have "unat (s + 16) = unat s + 16" by (subst unat_add_no_wrap) simp_all
  then have "findRSDInRange m (s + 16) e = Some (first_named m rsd_name (every_16 (s + 16) n))" using Suc.prems by (intro Suc.IH) simp_all
  then show ?case using lt unfolding every_16_Suc by (subst findRSDInRange.simps) simp
qed

text \<open>Where the root pointer may be: the BIOS area, then the first kilobyte of the extended BIOS data area.\<close>

definition rsd_places :: "bytes \<Rightarrow> u32 list" where
  "rsd_places m = every_16 0xE0000 8192 @ every_16 (push_bit 4 (ucast (byte_word16 m 0x40E))) 64"

lemma findRSD_ok: "findRSD m = Some (first_named m rsd_name (rsd_places m))"
proof -
  let ?b = "push_bit 4 (ucast (byte_word16 m 0x40E)) :: u32"
  have "unat (byte_word16 m 0x40E) < 65536" using unsigned_less [of "byte_word16 m 0x40E", where ?'a = nat] by simp
  then have "unat ?b \<le> 1048560" by (simp add: push_bit_eq_mult unat_word_ariths unsigned_ucast_eq take_bit_nat_eq_self)
  then have b: "unat (?b + 1024) = unat ?b + 16 * 64" "unat (?b + 1024) \<le> 4294967280" by (subst unat_add_no_wrap, simp, simp)+
  have e: "push_bit 10 1 = (1024 :: u32)" by (simp add: push_bit_eq_mult)
  have "0 \<notin> set (every_16 0xE0000 8192)"
  proof
    assume "0 \<in> set (every_16 0xE0000 8192)"
    then obtain k where k: "k < 8192" "(0 :: u32) = 0xE0000 + 16 * of_nat k" by auto
    then have "unat (16 * of_nat k :: u32) = 16 * k" by (simp add: unat_word_ariths unat_of_nat)
    then have "unat (0xE0000 + 16 * of_nat k :: u32) = 0xE0000 + 16 * k" using k(1) by (subst unat_add_no_wrap) simp_all
    then show False using k(2) by (metis add_is_0 unat_0 zero_neq_numeral)
  qed
  then show ?thesis
    using findRSDInRange_ok [of "0x100000" "0xE0000" 8192 m] findRSDInRange_ok [OF b(2,1), of m]
    by (simp add: findRSD_def rsd_places_def e Let_def first_named_append)
qed

text \<open>The tables the root table lists.\<close>

definition sdt_list :: "bytes \<Rightarrow> u32 \<Rightarrow> u32 list" where
  "sdt_list m rsdt = map (\<lambda>i. byte_word32 m (elem (rsdt + 36) i)) [0..<unat ((SDT_Length m rsdt - 36) div 4)]"

lemma findSDT_ok: "rsdp \<noteq> 0 \<Longrightarrow> findSDT m rsdp name = Some (first_named m name (sdt_list m (RSD_rootSDT m rsdp)))"
proof -
  have "findSDT_loop m others name i n = first_named m name (map (\<lambda>i. byte_word32 m (elem others i)) [i..<i + n])" for others i n
  proof (induction n arbitrary: i)
    case (Suc n)
    have "[i..<i + Suc n] = i # [Suc i..<Suc i + n]" by (simp add: upt_conv_Cons)
    then show ?case by (simp only: Suc findSDT_loop.simps Let_def list.map first_named_simps)
  qed simp
  from this [where i = 0] show "rsdp \<noteq> 0 \<Longrightarrow> ?thesis" by (simp add: findSDT_def sdt_list_def sizeof_SDT_def Let_def)
qed

section \<open>The entries of the MADT\<close>

text \<open>The addresses \<open>xs\<close> of the entries of a table of \<open>n\<close> bytes at \<open>a\<close>.\<close>

fun entries_at :: "bytes \<Rightarrow> u32 \<Rightarrow> nat \<Rightarrow> u32 list \<Rightarrow> bool" where
  "entries_at m a n [] \<longleftrightarrow> n = 0"
| "entries_at m a n (x # xs) \<longleftrightarrow> (let len = unat (MADT_ENTRY_len m a) in
     x = a \<and> 0 < len \<and> len \<le> n \<and> entries_at m (a + of_nat len) (n - len) xs)"

fun config_entries :: "bytes \<Rightarrow> u32 list \<Rightarrow> Config \<Rightarrow> Config option" where
  "config_entries m [] cfg = Some cfg"
| "config_entries m (x # xs) cfg = do { cfg \<leftarrow> config_entry m x cfg; config_entries m xs cfg }"

text \<open>The loop looks at every entry but the first, and at what follows the last one.\<close>

lemma config_loop_ok:
  assumes "entries_at m a n xs" "n < 2147483648"
  shows "config_loop m a (of_nat n) cfg = config_entries m (tl (xs @ [a + of_nat n])) cfg"
  using assms
proof (induction xs arbitrary: a n cfg)
  case Nil
  then show ?case by (subst config_loop.simps) simp
next
  case (Cons x xs)
  let ?l = "unat (MADT_ENTRY_len m a)"
  have l: "0 < ?l" "?l \<le> n" "entries_at m (a + of_nat ?l) (n - ?l) xs" using Cons.prems(1) by (auto simp: Let_def)
  have c: "ucast (MADT_ENTRY_len m a) = (of_nat ?l :: u32)" by simp
  have s: "0 < sint (of_nat n :: u32)"
  proof -
    have "sint (of_nat n :: u32) = int n" using Cons.prems(2) by (simp add: sint_uint signed_take_bit_int_eq_self uint_nat unat_of_nat)
    then show ?thesis using l by simp
  qed
  have sub: "of_nat n - of_nat ?l = (of_nat (n - ?l) :: u32)" using l(2) by (simp add: of_nat_diff)
  have nxt: "a + of_nat ?l + of_nat (n - ?l) = a + of_nat n" using l(2) by (simp add: of_nat_diff)
  let ?as = "xs @ [a + of_nat n]"
  have hd: "hd ?as = a + of_nat ?l" using l(3) nxt by (cases xs) (auto simp: Let_def)
  have "n - ?l < 2147483648" using Cons.prems(2) by simp
  from Cons.IH [OF l(3) this] have ih: "config_loop m (a + of_nat ?l) (of_nat (n - ?l)) = config_entries m (tl ?as)"
    unfolding nxt by (rule ext)
  have "config_loop m a (of_nat n) cfg = do { cfg \<leftarrow> config_entry m (a + of_nat ?l) cfg; config_entries m (tl ?as) cfg }"
    by (subst config_loop.simps) (simp only: Let_def c sub s ih if_True)
  also have "\<dots> = config_entries m (hd ?as # tl ?as) cfg" using hd by simp
  also have "hd ?as # tl ?as = tl ((x # xs) @ [a + of_nat n])" by simp
  finally show ?case .
qed

text \<open>What a list of entries says: the processors but processor 0, and the last I/O APIC.\<close>

definition processors :: "bytes \<Rightarrow> u32 list \<Rightarrow> ApicInfo list" where
  "processors m xs = filter (\<lambda>p. ai_processorId p \<noteq> 0) (map (APIC_ENTRY_info m) (filter (\<lambda>x. MADT_ENTRY_type m x = 0) xs))"

definition io_apic :: "bytes \<Rightarrow> u32 list \<Rightarrow> u32 \<Rightarrow> u32" where
  "io_apic m xs old = (case rev (filter (\<lambda>x. MADT_ENTRY_type m x = 1) xs) of [] \<Rightarrow> old | x # _ \<Rightarrow> IOAPIC_ENTRY_address m x)"

lemma io_apic_simps [simp]:
  "io_apic m [] old = old"
  "io_apic m (x # xs) old = io_apic m xs (if MADT_ENTRY_type m x = 1 then IOAPIC_ENTRY_address m x else old)"
  by (auto simp: io_apic_def split: list.splits)

lemma processors_simps [simp]:
  "processors m [] = []"
  "processors m (x # xs) = (if MADT_ENTRY_type m x = 0 \<and> ai_processorId (APIC_ENTRY_info m x) \<noteq> 0 then APIC_ENTRY_info m x # processors m xs
     else processors m xs)"
  by (auto simp: processors_def)

lemma config_entries_ok:
  assumes "length (apicInfo cfg) = 16" "unat (nOtherProcs cfg) = k" "k \<le> 16"
  shows "config_entries m xs cfg = (let ps = processors m xs in
    if k + length ps \<le> 16
    then Some (cfg\<lparr>ioAPIC := io_apic m xs (ioAPIC cfg), nOtherProcs := of_nat (k + length ps),
      apicInfo := take k (apicInfo cfg) @ ps @ drop (k + length ps) (apicInfo cfg)\<rparr>)
    else None)"
  using assms
proof (induction xs arbitrary: cfg k)
  case Nil
  have "of_nat k = nOtherProcs cfg" using Nil.prems(2) by auto
  then show ?case using Nil.prems by (cases cfg) simp
next
  case (Cons x xs)
  let ?p = "APIC_ENTRY_info m x"
  consider (proc) "MADT_ENTRY_type m x = 0" "ai_processorId ?p \<noteq> 0" | (other) "MADT_ENTRY_type m x = 0 \<longrightarrow> ai_processorId ?p = 0" by blast
  then show ?case
  proof cases
    case other
    let ?cfg = "if MADT_ENTRY_type m x = 1 then cfg\<lparr>ioAPIC := IOAPIC_ENTRY_address m x\<rparr> else cfg"
    have "config_entry m x cfg = Some ?cfg" using other by (auto simp: config_entry_def Let_def)
    moreover have "processors m (x # xs) = processors m xs" using other by auto
    ultimately show ?thesis using Cons.IH [of ?cfg k] Cons.prems by (simp add: Let_def)
  next
    case proc
    show ?thesis
    proof (cases "k < 16")
      case False
      then have "config_entry m x cfg = None" using proc Cons.prems by (simp add: config_entry_def Let_def MAX_PROCS_def)
      then show ?thesis using False Cons.prems(3) proc by simp
    next
      case True
      let ?cfg = "cfg\<lparr>apicInfo := (apicInfo cfg)[k := ?p], nOtherProcs := nOtherProcs cfg + 1\<rparr>"
      have e: "config_entry m x cfg = Some ?cfg" using proc Cons.prems True by (simp add: config_entry_def Let_def MAX_PROCS_def)
      have u: "unat (nOtherProcs cfg + 1) = Suc k" using Cons.prems(2) True by (subst unat_add_no_wrap) simp_all
      have t: "take (Suc k) ((apicInfo cfg)[k := ?p]) = take k (apicInfo cfg) @ [?p]" using Cons.prems(1) True by (simp add: take_Suc_conv_app_nth)
      show ?thesis using Cons.IH [of ?cfg "Suc k"] Cons.prems(1) proc u e t True by (simp add: Let_def)
    qed
  qed
qed

section \<open>Properties\<close>

text \<open>With less than 4 GB the size of the memory is what the BIOS reported (two copies of each count, or zero).\<close>

lemma memAbove1M_exact:
  assumes "mi_cx mi = mi_ax mi \<or> mi_cx mi = 0" "mi_dx mi = mi_bx mi \<or> mi_dx mi = 0" "mi_cx mi = 15 * 1024 \<or> mi_dx mi = 0"
    and "1024 * unat (mi_ax mi) + 65536 * unat (mi_bx mi) < 2 ^ 32"
  shows "\<exists>v. memAbove1M mi = Some v \<and> unat v = 1024 * unat (mi_ax mi) + 65536 * unat (mi_bx mi)"
proof -
  have or: "mi_ax mi OR mi_cx mi = mi_ax mi" "mi_bx mi OR mi_dx mi = mi_bx mi" using assms(1,2) by auto
  have lt: "unat w < 65536" for w :: u16 using unsigned_less [of w, where ?'a = nat] by simp
  have "unat (push_bit 10 (ucast w) :: u32) = 1024 * unat w" "unat (push_bit 16 (ucast w) :: u32) = 65536 * unat w" for w :: u16
    using lt [of w] by (simp_all add: push_bit_eq_mult unat_word_ariths unsigned_ucast_eq take_bit_nat_eq_self)
  then have "unat (push_bit 10 (ucast (mi_ax mi)) + push_bit 16 (ucast (mi_bx mi)) :: u32) = 1024 * unat (mi_ax mi) + 65536 * unat (mi_bx mi)"
    using assms(4) by (subst unat_add_no_wrap) simp_all
  then show ?thesis using assms(3) or by (simp add: memAbove1M_def)
qed

text \<open>
  C31.  The configuration.  Let \<open>r\<close> be the first place of the BIOS areas with the signature of the root
  pointer, \<open>t\<close> the first table its root table lists as \<^verbatim>\<open>APIC\<close>, and \<open>xs\<close> the addresses of the entries of
  that table.  \<^verbatim>\<open>configInit\<close> returns exactly when at most 16 processors are found, and records them in the
  order of the table with their number, the last I/O APIC, the local APIC, the flags and the vendor.
  What it looks at is every entry but the first, and the bytes behind the last: the first entry is
  never recorded, and what follows the table is taken for an entry.
\<close>

theorem config_init_correct:
  assumes "first_named m rsd_name (rsd_places m) = r" "r \<noteq> 0"
    and "first_named m apic_name (sdt_list m (RSD_rootSDT m r)) = t" "t \<noteq> 0"
    and "entries_at m (t + 44) n xs" "unat (SDT_Length m t) = 44 + n" "n < 2147483648"
    and "memAbove1M mi = Some extra" "length (apicInfo cfg) = 16"
    and "seen = tl (xs @ [t + 44 + of_nat n])"
  shows "configInit mi m cfg = (if length (processors m seen) \<le> 16
    then Some (cfg\<lparr>memSize := extra + 0x100000, localAPIC := MADT_localAddress m t, ioAPIC := io_apic m seen (ioAPIC cfg),
      nOtherProcs := of_nat (length (processors m seen)), totalProcs := of_nat (length (processors m seen)) + 1,
      madtFlags := MADT_flags m t, apicInfo := processors m seen @ drop (length (processors m seen)) (apicInfo cfg),
      oemid := RSD_OEMID m r @ [0]\<rparr>)
    else None)"
proof -
  have n: "SDT_Length m t - 44 = of_nat n"
  proof -
    have "SDT_Length m t = of_nat (unat (SDT_Length m t))" by simp
    then have "SDT_Length m t = of_nat (44 + n)" unfolding assms(6) .
    then show ?thesis by simp
  qed
  have mb: "push_bit 20 1 = (0x100000 :: u32)" by (simp add: push_bit_eq_mult)
  let ?cfg = "cfg\<lparr>memSize := extra + 0x100000, oemid := RSD_OEMID m r @ [0], localAPIC := MADT_localAddress m t, madtFlags := MADT_flags m t, nOtherProcs := 0\<rparr>"
  have "configInit mi m cfg = do { c \<leftarrow> config_loop m (t + 44) (of_nat n) ?cfg; Some (c\<lparr>totalProcs := nOtherProcs c + 1\<rparr>) }"
    using assms(1-4,8) n by (simp add: configInit_def findRSD_ok findSDT_ok sizeof_MADT_def mb Let_def)
  also have "config_loop m (t + 44) (of_nat n) ?cfg = config_entries m seen ?cfg"
    using config_loop_ok [OF assms(5,7)] assms(10) by simp
  finally show ?thesis
    using config_entries_ok [of ?cfg 0 m seen] assms(9) by (simp add: Let_def)
qed

text \<open>On an ordinary table, whose first entry is processor 0 and behind which no entry seems to start, nothing is lost.\<close>

lemma ordinary_table:
  assumes "MADT_ENTRY_type m x = 0" "ai_processorId (APIC_ENTRY_info m x) = 0" "MADT_ENTRY_type m e \<notin> {0, 1}"
  shows "processors m (tl ((x # xs) @ [e])) = processors m (x # xs)" "io_apic m (tl ((x # xs) @ [e])) old = io_apic m (x # xs) old"
  using assms by (auto simp: processors_def io_apic_def)

text \<open>A machine with two processors and an I/O APIC.\<close>

definition ex_rom :: bytes where
  "ex_rom a = (case find (\<lambda>(s, bs). s \<le> unat a \<and> unat a < s + length bs)
       [(0xE0000, rsd_name @ [0, 66, 79, 67, 72, 83, 32, 0, 0, 0x10, 0, 0]), (0x1000, [82, 83, 68, 84, 40]), (0x1000 + 36, [0, 0x20]),
        (0x2000, apic_name @ [72]), (0x2000 + 38, [0xE0, 0xFE]), (0x2000 + 44, [0, 8, 0, 0, 1, 0, 0, 0, 0, 8, 1, 1, 1, 0, 0, 0]),
        (0x2000 + 60, [1, 12, 0, 0, 0, 0, 0xC0, 0xFE, 0, 0, 0, 0, 0xFF])]
     of None \<Rightarrow> 0 | Some (s, bs) \<Rightarrow> bs ! (unat a - s))"

definition no_config :: Config where
  "no_config = \<lparr>memSize = 0, localAPIC = 0, ioAPIC = 0, nOtherProcs = 0, totalProcs = 0, madtFlags = 0,
     apicInfo = replicate 16 \<lparr>ai_processorId = 0, ai_apicId = 0, ai_flags = 0\<rparr>, oemid = replicate 7 0\<rparr>"

lemma config_init_correct_witness:
  "\<exists>cfg. configInit \<lparr>mi_ax = 15360, mi_bx = 1792, mi_cx = 15360, mi_dx = 1792\<rparr> ex_rom no_config = Some cfg \<and> memSize cfg = 0x8000000 \<and>
     localAPIC cfg = 0xFEE00000 \<and> ioAPIC cfg = 0xFEC00000 \<and> totalProcs cfg = 2 \<and>
     hd (apicInfo cfg) = \<lparr>ai_processorId = 1, ai_apicId = 1, ai_flags = 1\<rparr>"
proof -
  note ev = ex_rom_def rsd_name_def apic_name_def byte_word32_def byte_word16_def
  have sig: "iseq ex_rom 0xE0000 rsd_name" by (simp add: ev)
  have "every_16 0xE0000 8192 = 0xE0000 # every_16 (0xE0000 + 16) 8191" using every_16_Suc [of "0xE0000" 8191] by simp
  then have r: "first_named ex_rom rsd_name (rsd_places ex_rom) = 0xE0000" using sig by (simp only: rsd_places_def append_Cons first_named_simps if_True)
  have root: "RSD_rootSDT ex_rom 0xE0000 = 0x1000" by (simp add: RSD_rootSDT_def ev)
  have len: "SDT_Length ex_rom 0x1000 = 40" "SDT_Length ex_rom 0x2000 = 72" by (simp_all add: SDT_Length_def ev)
  have ls: "sdt_list ex_rom 0x1000 = [0x2000]" by (simp add: sdt_list_def len elem_def) (simp add: ev)
  have t: "first_named ex_rom apic_name (sdt_list ex_rom (RSD_rootSDT ex_rom 0xE0000)) = 0x2000" unfolding root ls by (simp add: ev)
  have es: "entries_at ex_rom (0x2000 + 44) 28 [0x202C, 0x2034, 0x203C]" by (simp add: MADT_ENTRY_len_def Let_def ev)
  have ab: "memAbove1M \<lparr>mi_ax = 15360, mi_bx = 1792, mi_cx = 15360, mi_dx = 1792\<rparr> = Some 0x7F00000" by (simp add: memAbove1M_def push_bit_eq_mult)
  let ?s = "[0x2034, 0x203C, 0x2048] :: u32 list"
  have seen: "?s = tl ([0x202C, 0x2034, 0x203C] @ [0x2000 + 44 + of_nat 28])" by simp
  have ps: "processors ex_rom ?s = [\<lparr>ai_processorId = 1, ai_apicId = 1, ai_flags = 1\<rparr>]" "io_apic ex_rom ?s 0 = 0xFEC00000" "MADT_localAddress ex_rom 0x2000 = 0xFEE00000"
    by (simp_all add: MADT_ENTRY_type_def APIC_ENTRY_info_def IOAPIC_ENTRY_address_def MADT_localAddress_def ev)
  have "length (apicInfo no_config) = 16" "unat (SDT_Length ex_rom 0x2000) = 44 + 28" "(0xE0000 :: u32) \<noteq> 0" "(0x2000 :: u32) \<noteq> 0" "(28 :: nat) < 2147483648"
    by (simp_all add: no_config_def len)
  note c = config_init_correct [OF r this(3) t this(4) es this(2,5) ab this(1) seen]
  have "ioAPIC no_config = 0" by (simp add: no_config_def)
  note c = c [unfolded this ps]
  show ?thesis unfolding c by (simp add: no_config_def)
qed

end
