(* ===== verification/Ide_Driver.thy ===== *)
theory Ide_Driver
  imports Block_IO
begin

text \<open>
  The disk driver (\<^verbatim>\<open>kernel/ide.h\<close>, \<^verbatim>\<open>kernel/ide.cc\<close>), which polls an ATA controller through its ports.
  The controller is hardware: a parameter, whose three operations are what the instructions \<^verbatim>\<open>inb\<close>,
  \<^verbatim>\<open>outb\<close> and \<^verbatim>\<open>inl\<close> of \<^verbatim>\<open>machine.S\<close> do to it; what the driver relies on is the protocol for reading one
  sector, \<open>ata_protocol\<close>.  A read holds the lock of the driver from start to end and is one step; no result
  is a panic or a poll that never ends.  The other theories see the device as \<open>Block_IO.Ide\<close>; the
  property below is that the driver implements it.
\<close>

section \<open>The driver\<close>

record 'd ports =
  inb :: "u16 \<Rightarrow> 'd \<Rightarrow> u8 \<times> 'd"
  outb :: "u16 \<Rightarrow> u8 \<Rightarrow> 'd \<Rightarrow> 'd"
  inl :: "u16 \<Rightarrow> 'd \<Rightarrow> u32 \<times> 'd"

definition controller :: "u32 \<Rightarrow> u32" where
  "controller drive = drop_bit 1 drive AND 1"

definition channel :: "u32 \<Rightarrow> u32" where
  "channel drive = drive AND 1"

definition port :: "u32 \<Rightarrow> u16" where
  "port drive = [0x1f0, 0x170] ! unat (controller drive)"

definition getStatus :: "'d ports \<Rightarrow> u32 \<Rightarrow> 'd \<Rightarrow> u8 \<times> 'd" where
  "getStatus io drive d = inb io (port drive + 7) d"

abbreviation ERR :: u8 where "ERR \<equiv> 0x01"
abbreviation DRQ :: u8 where "DRQ \<equiv> 0x08"
abbreviation DF :: u8 where "DF \<equiv> 0x20"
abbreviation DRDY :: u8 where "DRDY \<equiv> 0x40"
abbreviation BSY :: u8 where "BSY \<equiv> 0x80"

partial_function (option) busy_loop :: "'d ports \<Rightarrow> u32 \<Rightarrow> 'd \<Rightarrow> 'd option" where
  "busy_loop io drive d = (case getStatus io drive d of (status, d) \<Rightarrow>
     if status AND BSY \<noteq> 0 then busy_loop io drive d else Some d)"

definition waitForDrive :: "'d ports \<Rightarrow> u32 \<Rightarrow> 'd \<Rightarrow> 'd option" where
  "waitForDrive io drive d = (case getStatus io drive d of (status, d) \<Rightarrow>
     if status AND (ERR OR DF) \<noteq> 0 then None
     else if status AND DRDY = 0 then None
     else busy_loop io drive d)"

partial_function (option) request_loop :: "'d ports \<Rightarrow> u32 \<Rightarrow> 'd \<Rightarrow> 'd option" where
  "request_loop io drive d = (case getStatus io drive d of (status, d) \<Rightarrow>
     if status AND DRQ = 0 then request_loop io drive d else Some d)"

text \<open>The loop that stores the words in the buffer; \<open>word_le\<close> are the bytes of a word in memory.\<close>

definition word_le :: "u32 \<Rightarrow> u8 list" where
  "word_le w = [ucast w, ucast (drop_bit 8 w), ucast (drop_bit 16 w), ucast (drop_bit 24 w)]"

fun input_loop :: "'d ports \<Rightarrow> u16 \<Rightarrow> nat \<Rightarrow> 'd \<Rightarrow> u8 list \<times> 'd" where
  "input_loop io base 0 d = ([], d)"
| "input_loop io base (Suc n) d = (let (w, d) = inl io base d; (bs, d) = input_loop io base n d in (word_le w @ bs, d))"

text \<open>The command, and the whole read.  The state is the counter \<^verbatim>\<open>nRead\<close> and the controller.\<close>

definition issue_read :: "'d ports \<Rightarrow> u32 \<Rightarrow> u32 \<Rightarrow> 'd \<Rightarrow> 'd" where
  "issue_read io drive sec d =
     (let base = port drive;
          ch = channel drive;
          d = outb io (base + 2) 1 d;
          d = outb io (base + 3) (ucast sec) d;
          d = outb io (base + 4) (ucast (drop_bit 8 sec)) d;
          d = outb io (base + 5) (ucast (drop_bit 16 sec)) d;
          d = outb io (base + 6) (ucast (0xE0 OR push_bit 4 ch OR (drop_bit 24 sec AND 0xf))) d
      in outb io (base + 7) 0x20 d)"

definition Ide_read_block :: "'d ports \<Rightarrow> u32 \<Rightarrow> u32 \<Rightarrow> u32 \<Rightarrow> 'd \<Rightarrow> (u8 list \<times> u32 \<times> 'd) option" where
  "Ide_read_block io drive sec nRead d = do {
     let nRead = nRead + 1;
     let base = port drive;
     d \<leftarrow> waitForDrive io drive d;
     let d = issue_read io drive sec d;
     d \<leftarrow> waitForDrive io drive d;
     d \<leftarrow> request_loop io drive d;
     let (buffer, d) = input_loop io base (unat (sector_size div 4)) d;
     Some (buffer, nRead, d) }"

section \<open>The protocol of the controller\<close>

text \<open>
  A controller with two drives, \<open>disks\<close>.  A command to read one sector (0x20) makes it busy for some
  time, or for none; then it requests the transfer of 128 words, the bytes of the sector whose 28-bit
  number was written to its registers, of the drive bit 4 of the last of them selects (bits 5 to 7 ask
  for a number of this form).  The drive is ready and reports no error when it is not busy; while it is
  busy only the busy bit of the status means anything, and the other bits may have any value.
\<close>

datatype ata_phase = Idle | Busy nat "u32 list" | Data "u32 list"

record ata =
  r_count :: u8
  r_low :: u8
  r_mid :: u8
  r_high :: u8
  r_drive :: u8
  phase :: ata_phase

definition ata_lba :: "ata \<Rightarrow> u32" where
  "ata_lba r = ucast (r_low r) OR push_bit 8 (ucast (r_mid r)) OR push_bit 16 (ucast (r_high r)) OR push_bit 24 (ucast (r_drive r AND 0xf))"

definition healthy :: "u8 \<Rightarrow> bool" where
  "healthy st \<longleftrightarrow> st AND (ERR OR DF) = 0 \<and> st AND DRDY \<noteq> 0"

definition ata_status :: "ata \<Rightarrow> u8 \<Rightarrow> ata \<Rightarrow> bool" where
  "ata_status r st r' \<longleftrightarrow>
     (case phase r of
        Idle \<Rightarrow> healthy st \<and> st AND BSY = 0 \<and> r' = r
      | Busy n ws \<Rightarrow> st AND BSY \<noteq> 0 \<and> r' = r\<lparr>phase := (case n of 0 \<Rightarrow> Data ws | Suc k \<Rightarrow> Busy k ws)\<rparr>
      | Data ws \<Rightarrow> healthy st \<and> st AND BSY = 0 \<and> st AND DRQ \<noteq> 0 \<and> r' = r)"

text \<open>The phase once the controller is no longer busy.\<close>

definition settled :: "ata_phase \<Rightarrow> ata_phase" where
  "settled p = (case p of Busy n ws \<Rightarrow> Data ws | _ \<Rightarrow> p)"

definition ata_command :: "(bool \<Rightarrow> disk) \<Rightarrow> ata \<Rightarrow> ata \<Rightarrow> bool" where
  "ata_command disks r r' \<longleftrightarrow> (\<exists>p ws. r' = r\<lparr>phase := p\<rparr> \<and> settled p = Data ws \<and> length ws = 128 \<and>
     concat (map word_le ws) = sector (disks (bit (r_drive r) 4)) (unat (ata_lba r)))"

definition ata_protocol :: "'d ports \<Rightarrow> u16 \<Rightarrow> (bool \<Rightarrow> disk) \<Rightarrow> ('d \<Rightarrow> ata) \<Rightarrow> bool" where
  "ata_protocol io base disks regs \<longleftrightarrow>
     (\<forall>d. ata_status (regs d) (fst (inb io (base + 7) d)) (regs (snd (inb io (base + 7) d)))) \<and>
     (\<forall>d b. phase (regs d) = Idle \<longrightarrow>
        regs (outb io (base + 2) b d) = (regs d)\<lparr>r_count := b\<rparr> \<and> regs (outb io (base + 3) b d) = (regs d)\<lparr>r_low := b\<rparr> \<and>
        regs (outb io (base + 4) b d) = (regs d)\<lparr>r_mid := b\<rparr> \<and> regs (outb io (base + 5) b d) = (regs d)\<lparr>r_high := b\<rparr> \<and>
        regs (outb io (base + 6) b d) = (regs d)\<lparr>r_drive := b\<rparr>) \<and>
     (\<forall>d. phase (regs d) = Idle \<longrightarrow> r_count (regs d) = 1 \<longrightarrow> r_drive (regs d) AND 0xE0 = 0xE0 \<longrightarrow>
        ata_command disks (regs d) (regs (outb io (base + 7) 0x20 d))) \<and>
     (\<forall>d w ws. phase (regs d) = Data (w # ws) \<longrightarrow> fst (inl io base d) = w \<and>
        regs (snd (inl io base d)) = (regs d)\<lparr>phase := if ws = [] then Idle else Data ws\<rparr>)"

section \<open>The loops\<close>

lemma ata_protocolD:
  assumes "ata_protocol io base disks regs"
  shows "inb io (base + 7) d = (st, d') \<Longrightarrow> ata_status (regs d) st (regs d')"
    "phase (regs d) = Idle \<Longrightarrow> regs (outb io (base + 2) b d) = (regs d)\<lparr>r_count := b\<rparr>"
    "phase (regs d) = Idle \<Longrightarrow> regs (outb io (base + 3) b d) = (regs d)\<lparr>r_low := b\<rparr>"
    "phase (regs d) = Idle \<Longrightarrow> regs (outb io (base + 4) b d) = (regs d)\<lparr>r_mid := b\<rparr>"
    "phase (regs d) = Idle \<Longrightarrow> regs (outb io (base + 5) b d) = (regs d)\<lparr>r_high := b\<rparr>"
    "phase (regs d) = Idle \<Longrightarrow> regs (outb io (base + 6) b d) = (regs d)\<lparr>r_drive := b\<rparr>"
    "phase (regs d) = Idle \<Longrightarrow> r_count (regs d) = 1 \<Longrightarrow> r_drive (regs d) AND 0xE0 = 0xE0 \<Longrightarrow>
       ata_command disks (regs d) (regs (outb io (base + 7) 0x20 d))"
    "phase (regs d) = Data (w # ws) \<Longrightarrow> inl io base d = (v, d') \<Longrightarrow> v = w \<and> regs d' = (regs d)\<lparr>phase := if ws = [] then Idle else Data ws\<rparr>"
  using assms unfolding ata_protocol_def by (metis fst_conv snd_conv)+

lemma busy_loop_ok:
  assumes "ata_protocol io (port drive) disks regs"
  shows "\<exists>d'. busy_loop io drive d = Some d' \<and> regs d' = (regs d)\<lparr>phase := settled (phase (regs d))\<rparr>"
proof -
  have idle: "\<exists>d'. busy_loop io drive d = Some d' \<and> regs d' = regs d" if "\<forall>n ws. phase (regs d) \<noteq> Busy n ws" for d
  proof -
    obtain st d' where i: "inb io (port drive + 7) d = (st, d')" by (cases "inb io (port drive + 7) d")
    have "st AND BSY = 0" "regs d' = regs d"
      using ata_protocolD(1) [OF assms i] that by (auto simp: ata_status_def split: ata_phase.splits)
    then show ?thesis using i by (subst busy_loop.simps) (simp add: getStatus_def)
  qed
  show ?thesis
  proof (cases "phase (regs d)")
    case (Busy n ws)
    then show ?thesis
    proof (induction n arbitrary: d)
      case 0
      obtain st d1 where i: "inb io (port drive + 7) d = (st, d1)" by (cases "inb io (port drive + 7) d")
      have 1: "st AND BSY \<noteq> 0" "regs d1 = (regs d)\<lparr>phase := Data ws\<rparr>" using ata_protocolD(1) [OF assms i] 0 by (simp_all add: ata_status_def)
      obtain d' where "busy_loop io drive d1 = Some d'" "regs d' = regs d1" using idle [of d1] 1(2) by auto
      then show ?case using i 1 0 by (subst busy_loop.simps) (simp add: getStatus_def settled_def)
    next
      case (Suc n)
      obtain st d1 where i: "inb io (port drive + 7) d = (st, d1)" by (cases "inb io (port drive + 7) d")
      have 1: "st AND BSY \<noteq> 0" "regs d1 = (regs d)\<lparr>phase := Busy n ws\<rparr>"
        using ata_protocolD(1) [OF assms i] Suc.prems by (simp_all add: ata_status_def)
      obtain d' where "busy_loop io drive d1 = Some d'" "regs d' = (regs d1)\<lparr>phase := settled (phase (regs d1))\<rparr>" using Suc.IH [of d1] 1(2) by auto
      then show ?case using i 1 Suc.prems by (subst busy_loop.simps) (simp add: getStatus_def settled_def)
    qed
  qed (use idle [of d] in \<open>auto simp: settled_def\<close>)
qed

lemma waitForDrive_ok:
  assumes "ata_protocol io (port drive) disks regs" "healthy (fst (getStatus io drive d))"
  shows "\<exists>d'. waitForDrive io drive d = Some d' \<and> regs d' = (regs d)\<lparr>phase := settled (phase (regs d))\<rparr>"
proof -
  obtain st d1 where i: "inb io (port drive + 7) d = (st, d1)" by (cases "inb io (port drive + 7) d")
  note s = ata_protocolD(1) [OF assms(1) i]
  have h: "st AND (ERR OR DF) = 0" "st AND DRDY \<noteq> 0" using assms(2) i by (simp_all add: getStatus_def healthy_def)
  have r: "(regs d1)\<lparr>phase := settled (phase (regs d1))\<rparr> = (regs d)\<lparr>phase := settled (phase (regs d))\<rparr>"
    using s by (auto simp: ata_status_def settled_def split: ata_phase.splits nat.splits)
  obtain d' where "busy_loop io drive d1 = Some d'" "regs d' = (regs d1)\<lparr>phase := settled (phase (regs d1))\<rparr>"
    using busy_loop_ok [OF assms(1)] by blast
  then show ?thesis using i h r by (simp add: waitForDrive_def getStatus_def)
qed

lemma waitForDrive_panics: "\<not> healthy (fst (getStatus io drive d)) \<Longrightarrow> waitForDrive io drive d = None"
  by (auto simp: waitForDrive_def healthy_def split: prod.splits)

text \<open>Before the command the drive is not busy, and the status is read twice.\<close>

lemma waitForDrive_idle:
  assumes "ata_protocol io (port drive) disks regs" "phase (regs d) = Idle"
  shows "waitForDrive io drive d = Some (snd (getStatus io drive (snd (getStatus io drive d))))"
    "regs (snd (getStatus io drive (snd (getStatus io drive d)))) = regs d"
proof -
  obtain st d1 where i: "inb io (port drive + 7) d = (st, d1)" by (cases "inb io (port drive + 7) d")
  obtain st2 d2 where j: "inb io (port drive + 7) d1 = (st2, d2)" by (cases "inb io (port drive + 7) d1")
  have 1: "healthy st" "regs d1 = regs d" using ata_protocolD(1) [OF assms(1) i] assms(2) by (simp_all add: ata_status_def)
  have 2: "st2 AND BSY = 0" "regs d2 = regs d" using ata_protocolD(1) [OF assms(1) j] assms(2) 1(2) by (simp_all add: ata_status_def)
  then have "busy_loop io drive d1 = Some d2" using j by (subst busy_loop.simps) (simp add: getStatus_def)
  then show "waitForDrive io drive d = Some (snd (getStatus io drive (snd (getStatus io drive d))))"
    using i j 1(1) by (simp add: waitForDrive_def getStatus_def healthy_def)
  show "regs (snd (getStatus io drive (snd (getStatus io drive d)))) = regs d" using i j 2 by (simp add: getStatus_def)
qed

lemma request_loop_ok:
  assumes "ata_protocol io (port drive) disks regs" "phase (regs d) = Data ws"
  shows "\<exists>d'. request_loop io drive d = Some d' \<and> regs d' = regs d"
proof -
  obtain st d1 where i: "inb io (port drive + 7) d = (st, d1)" by (cases "inb io (port drive + 7) d")
  show ?thesis using ata_protocolD(1) [OF assms(1) i] assms(2) i by (subst request_loop.simps) (simp add: ata_status_def getStatus_def)
qed

lemma input_loop_ok:
  assumes "ata_protocol io base disks regs" "phase (regs d) = Data ws" "ws \<noteq> []"
  shows "\<exists>d'. input_loop io base (length ws) d = (concat (map word_le ws), d') \<and> phase (regs d') = Idle"
  using assms(2,3)
proof (induction ws arbitrary: d)
  case (Cons w ws)
  obtain v d1 where i: "inl io base d = (v, d1)" by (cases "inl io base d")
  have 1: "v = w" "regs d1 = (regs d)\<lparr>phase := if ws = [] then Idle else Data ws\<rparr>" using ata_protocolD(8) [OF assms(1) Cons.prems(1) i] by auto
  show ?case
  proof (cases "ws = []")
    case True
    then show ?thesis using i 1 by simp
  next
    case False
    then obtain d' where "input_loop io base (length ws) d1 = (concat (map word_le ws), d')" "phase (regs d') = Idle" using Cons.IH [of d1] 1(2) by auto
    then show ?thesis using i 1(1) by simp
  qed
qed simp

text \<open>The number of the sector, as the registers hold it.\<close>

lemma bit_nibble: "bit (0xf :: u8) k \<longleftrightarrow> k < 4" "bit (0xf :: u32) k \<longleftrightarrow> k < 4" "bit (0xE0 :: u32) k \<longleftrightarrow> 5 \<le> k \<and> k < 8"
proof -
  have m: "(0xf :: u8) = mask 4" "(0xf :: u32) = mask 4" "(0xE0 :: u32) = push_bit 5 (mask 3)" by (simp_all add: mask_eq_exp_minus_1 push_bit_eq_mult)
  show "bit (0xf :: u8) k \<longleftrightarrow> k < 4" "bit (0xf :: u32) k \<longleftrightarrow> k < 4" by (simp_all only: m bit_mask_iff) auto
  show "bit (0xE0 :: u32) k \<longleftrightarrow> 5 \<le> k \<and> k < 8" by (simp only: m bit_push_bit_iff bit_mask_iff) auto
qed

lemma drive_nibble: "ucast (0xE0 OR push_bit 4 ch OR (v AND 0xf) :: u32) AND (0xf :: u8) = ucast (v AND 0xf)"
  by (rule bit_word_eqI) (simp only: bit_and_iff bit_or_iff bit_unsigned_iff bit_push_bit_iff bit_nibble, auto)

lemma lba_bytes: "ucast (ucast sec :: u8) OR push_bit 8 (ucast (ucast (drop_bit 8 sec) :: u8)) OR push_bit 16 (ucast (ucast (drop_bit 16 sec) :: u8)) OR
    push_bit 24 (ucast (ucast (drop_bit 24 sec AND 0xf) :: u8)) = (sec AND mask 28 :: u32)"
proof (rule bit_word_eqI)
  fix n :: nat assume "n < LENGTH(32)"
  then have "n < 8 \<or> (8 \<le> n \<and> n < 16) \<or> (16 \<le> n \<and> n < 24) \<or> (24 \<le> n \<and> n < 28) \<or> (28 \<le> n \<and> n < 32)" by auto
  then show "bit (ucast (ucast sec :: u8) OR push_bit 8 (ucast (ucast (drop_bit 8 sec) :: u8)) OR push_bit 16 (ucast (ucast (drop_bit 16 sec) :: u8)) OR
    push_bit 24 (ucast (ucast (drop_bit 24 sec AND 0xf) :: u8)) :: u32) n = bit (sec AND mask 28) n"
    unfolding bit_or_iff bit_and_iff bit_push_bit_iff bit_drop_bit_eq bit_unsigned_iff bit_mask_iff bit_nibble o_def by auto
qed

lemma drive_byte:
  assumes "ch \<in> {0, 1 :: u32}"
  shows "(ucast (0xE0 OR push_bit 4 ch OR (v AND 0xf)) :: u8) AND 0xE0 = 0xE0" "bit (ucast (0xE0 OR push_bit 4 ch OR (v AND 0xf)) :: u8) 4 \<longleftrightarrow> ch = 1"
proof -
  have "(ucast (0xE0 :: u32) :: u8) = 0xE0" by simp
  then have u: "(ucast (0xE0 OR w) :: u8) = 0xE0 OR ucast w" for w :: u32 by (simp only: unsigned_or_eq)
  have "(0xE0 OR b) AND 0xE0 = 0xE0" for b :: u8 by (rule bit_word_eqI) (auto simp: bit_and_iff bit_or_iff)
  then show "(ucast (0xE0 OR push_bit 4 ch OR (v AND 0xf)) :: u8) AND 0xE0 = 0xE0" by (simp only: u or.assoc)
  show "bit (ucast (0xE0 OR push_bit 4 ch OR (v AND 0xf)) :: u8) 4 \<longleftrightarrow> ch = 1"
    using assms by (auto simp: bit_ucast_iff bit_or_iff bit_and_iff bit_push_bit_iff)
qed

text \<open>The command starts the read of the sector.\<close>

lemma issue_read_ok:
  assumes "ata_protocol io (port drive) disks regs" "phase (regs d) = Idle"
  obtains ws where "settled (phase (regs (issue_read io drive sec d))) = Data ws" "length ws = 128"
    "concat (map word_le ws) = sector (disks (channel drive = 1)) (unat sec mod 2 ^ 28)"
proof -
  let ?b = "port drive" and ?dv = "ucast (0xE0 OR push_bit 4 (channel drive) OR (drop_bit 24 sec AND 0xf)) :: u8"
  have ch: "channel drive \<in> {0, 1}"
  proof -
    have "unat (channel drive) < 2" using unat_and_mask_32 [of drive 1] by (simp add: channel_def mask_eq_exp_minus_1)
    then have "unat (channel drive) = 0 \<or> unat (channel drive) = 1" by auto
    then show ?thesis by (auto simp: word_unat_eq_iff)
  qed
  note P = ata_protocolD [OF assms(1)]
  define d1 where "d1 = outb io (?b + 2) 1 d"
  define d2 where "d2 = outb io (?b + 3) (ucast sec) d1"
  define d3 where "d3 = outb io (?b + 4) (ucast (drop_bit 8 sec)) d2"
  define d4 where "d4 = outb io (?b + 5) (ucast (drop_bit 16 sec)) d3"
  define d5 where "d5 = outb io (?b + 6) ?dv d4"
  have r1: "regs d1 = (regs d)\<lparr>r_count := 1\<rparr>" using P(2) [of d] assms(2) by (simp add: d1_def)
  have r2: "regs d2 = (regs d1)\<lparr>r_low := ucast sec\<rparr>" using P(3) [of d1] r1 assms(2) by (simp add: d2_def)
  have r3: "regs d3 = (regs d2)\<lparr>r_mid := ucast (drop_bit 8 sec)\<rparr>" using P(4) [of d2] r2 r1 assms(2) by (simp add: d3_def)
  have r4: "regs d4 = (regs d3)\<lparr>r_high := ucast (drop_bit 16 sec)\<rparr>" using P(5) [of d3] r3 r2 r1 assms(2) by (simp add: d4_def)
  have r5: "regs d5 = (regs d4)\<lparr>r_drive := ?dv\<rparr>" using P(6) [of d4] r4 r3 r2 r1 assms(2) by (simp add: d5_def)
  have f: "phase (regs d5) = Idle" "r_count (regs d5) = 1" "r_drive (regs d5) = ?dv" "r_low (regs d5) = ucast sec"
      "r_mid (regs d5) = ucast (drop_bit 8 sec)" "r_high (regs d5) = ucast (drop_bit 16 sec)"
    using assms(2) by (simp_all add: r5 r4 r3 r2 r1)
  have lba: "ata_lba (regs d5) = sec AND mask 28" unfolding ata_lba_def f drive_nibble by (rule lba_bytes)
  have i: "issue_read io drive sec d = outb io (?b + 7) 0x20 d5"
    by (simp add: issue_read_def Let_def d1_def d2_def d3_def d4_def d5_def)
  have "ata_command disks (regs d5) (regs (outb io (?b + 7) 0x20 d5))" by (rule P(7)) (simp_all only: f drive_byte(1) [OF ch])
  then obtain p ws where "regs (outb io (?b + 7) 0x20 d5) = (regs d5)\<lparr>phase := p\<rparr>" "settled p = Data ws" "length ws = 128"
      "concat (map word_le ws) = sector (disks (channel drive = 1)) (unat sec mod 2 ^ 28)"
    unfolding ata_command_def lba f drive_byte(2) [OF ch] by (auto simp: unat_and_mask_32)
  then show thesis by (intro that [of ws]) (simp_all add: i)
qed

section \<open>Properties\<close>

text \<open>
  C30.  The driver implements the device the file system is built on.  With a controller that follows
  the protocol and is idle, let \<open>st\<close> be the first status \<^verbatim>\<open>Ide::read_block\<close> reads after its command.  When
  \<open>st\<close> shows the drive ready and no error, the read returns, whatever the delay of the drive; the buffer
  holds exactly the bytes of the sector of the drive it was made for that \<open>Block_IO.Ide\<close> says, and the
  controller is idle again.  Otherwise the driver panics, and only because it looks at these bits before
  it waits for the drive: the busy bit of \<open>st\<close> is set, so that they mean nothing.
\<close>

theorem ide_read_correct:
  assumes "ata_protocol io (port drive) disks regs" "phase (regs d) = Idle"
  shows "let st = fst (getStatus io drive (issue_read io drive sec (snd (getStatus io drive (snd (getStatus io drive d)))))) in
    if healthy st
    then \<exists>bs d'. Ide_read_block io drive sec nRead d = Some (bs, nRead + 1, d') \<and>
      read_block (Ide (disks (channel drive = 1))) sec = Some bs \<and> phase (regs d') = Idle
    else Ide_read_block io drive sec nRead d = None \<and> st AND BSY \<noteq> 0"
proof -
  define d0 where "d0 = snd (getStatus io drive (snd (getStatus io drive d)))"
  define d6 where "d6 = issue_read io drive sec d0"
  note w = waitForDrive_idle [OF assms, folded d0_def]
  obtain ws where ws: "settled (phase (regs d6)) = Data ws" "length ws = 128"
      "concat (map word_le ws) = sector (disks (channel drive = 1)) (unat sec mod 2 ^ 28)"
    unfolding d6_def by (rule issue_read_ok [OF assms(1), of d0 sec]) (use w(2) assms(2) in auto)
  show ?thesis
  proof (cases "healthy (fst (getStatus io drive d6))")
    case True
    obtain d7 where 7: "waitForDrive io drive d6 = Some d7" "phase (regs d7) = Data ws"
      using waitForDrive_ok [OF assms(1) True] ws(1) by auto
    obtain d8 where 8: "request_loop io drive d7 = Some d8" "phase (regs d8) = Data ws" using request_loop_ok [OF assms(1) 7(2)] 7(2) by auto
    have "ws \<noteq> []" using ws(2) by auto
    then obtain d9 where 9: "input_loop io (port drive) 128 d8 = (concat (map word_le ws), d9)" "phase (regs d9) = Idle"
      using input_loop_ok [OF assms(1) 8(2)] ws(2) by auto
    have "unat (sector_size div 4) = 128" by (simp add: sector_size_def)
    then have "Ide_read_block io drive sec nRead d = Some (concat (map word_le ws), nRead + 1, d9)"
      using w(1) 7(1) 8(1) 9(1) unfolding Ide_read_block_def Let_def by (simp flip: d6_def)
    then show ?thesis using True ws(3) 9(2) unfolding Let_def d0_def [symmetric] d6_def [symmetric] by simp
  next
    case False
    obtain st d7 where i: "inb io (port drive + 7) d6 = (st, d7)" by (cases "inb io (port drive + 7) d6")
    have "\<not> healthy st" using False i by (simp add: getStatus_def)
    then have "st AND BSY \<noteq> 0"
      using ata_protocolD(1) [OF assms(1) i] ws(1) by (auto simp: ata_status_def settled_def split: ata_phase.splits)
    moreover have "Ide_read_block io drive sec nRead d = None"
      using w(1) waitForDrive_panics [OF False] unfolding Ide_read_block_def Let_def by (simp flip: d6_def)
    ultimately show ?thesis
      using False i unfolding Let_def d0_def [symmetric] d6_def [symmetric] by (simp add: getStatus_def)
  qed
qed

text \<open>A controller that answers after three polls, over two given disks.\<close>

definition word_of :: "disk \<Rightarrow> nat \<Rightarrow> u32" where
  "word_of c a = ucast (c a) OR push_bit 8 (ucast (c (a + 1))) OR push_bit 16 (ucast (c (a + 2))) OR push_bit 24 (ucast (c (a + 3)))"

lemma word_le_word_of: "word_le (word_of c a) = [c a, c (a + 1), c (a + 2), c (a + 3)]"
proof -
  have "ucast (drop_bit (8 * k) (word_of c a)) = c (a + k)" if "k \<in> {0, 1, 2, 3}" for k
    using that by (intro bit_word_eqI) (auto simp: word_of_def bit_simps dest: bit_imp_le_length)
  from this [of 0] this [of 1] this [of 2] this [of 3] show ?thesis by (simp add: word_le_def)
qed

lemma sector_words: "concat (map (\<lambda>i. word_le (word_of c (s * 512 + 4 * i))) [0..<128]) = sector c s"
proof -
  have "concat (map (\<lambda>i. word_le (word_of c (b + 4 * i))) [0..<n]) = map c [b..<b + 4 * n]" for b n
  proof (induction n)
    case (Suc n)
    have "[b..<b + 4 * Suc n] = [b..<b + 4 * n] @ [b + 4 * n, b + 4 * n + 1, b + 4 * n + 2, b + 4 * n + 3]"
      using upt_split [of b "b + 4 * n" "b + 4 * Suc n"] by (simp add: upt_rec)
    then show ?case using Suc by (simp add: word_le_word_of)
  qed simp
  from this [of "s * 512" 128] show ?thesis by (simp add: sector_def del: upt_rec_numeral)
qed

text \<open>The status while it is busy is \<open>b\<close> with the busy bit.\<close>

definition ex_ports :: "u8 \<Rightarrow> (bool \<Rightarrow> disk) \<Rightarrow> u16 \<Rightarrow> ata ports" where
  "ex_ports st disks base = \<lparr>
     inb = (\<lambda>p r. case phase r of Idle \<Rightarrow> (0x40, r)
       | Busy n ws \<Rightarrow> (st OR BSY, r\<lparr>phase := (case n of 0 \<Rightarrow> Data ws | Suc k \<Rightarrow> Busy k ws)\<rparr>) | Data ws \<Rightarrow> (0x48, r)),
     outb = (\<lambda>p b r. if p = base + 2 then r\<lparr>r_count := b\<rparr> else if p = base + 3 then r\<lparr>r_low := b\<rparr> else if p = base + 4 then r\<lparr>r_mid := b\<rparr>
       else if p = base + 5 then r\<lparr>r_high := b\<rparr> else if p = base + 6 then r\<lparr>r_drive := b\<rparr>
       else r\<lparr>phase := Busy 3 (map (\<lambda>i. word_of (disks (bit (r_drive r) 4)) (unat (ata_lba r) * 512 + 4 * i)) [0..<128])\<rparr>),
     inl = (\<lambda>p r. case phase r of Data (w # ws) \<Rightarrow> (w, r\<lparr>phase := if ws = [] then Idle else Data ws\<rparr>) | _ \<Rightarrow> (0, r))\<rparr>"

lemma ex_ports_protocol: "ata_protocol (ex_ports st disks base) base disks (\<lambda>r. r)"
proof -
  have "ata_command disks r (outb (ex_ports st disks base) (base + 7) 0x20 r)" for r
    unfolding ata_command_def
    by (intro exI [of _ "map (\<lambda>i. word_of (disks (bit (r_drive r) 4)) (unat (ata_lba r) * 512 + 4 * i)) [0..<128]"]
          exI [of _ "Busy 3 (map (\<lambda>i. word_of (disks (bit (r_drive r) 4)) (unat (ata_lba r) * 512 + 4 * i)) [0..<128])"] conjI)
      (simp_all add: ex_ports_def settled_def o_def sector_words del: upt_rec_numeral)
  moreover have "(st OR BSY) AND BSY \<noteq> 0"
  proof -
    have "(st OR BSY) AND BSY = BSY" by (rule bit_word_eqI) (auto simp: bit_and_iff bit_or_iff)
    then show ?thesis by simp
  qed
  then have "ata_status r (fst (inb (ex_ports st disks base) p r)) (snd (inb (ex_ports st disks base) p r))" for p r
    by (cases "phase r") (simp_all add: ata_status_def healthy_def ex_ports_def del: upt_rec_numeral)
  ultimately show ?thesis unfolding ata_protocol_def by (simp add: ex_ports_def del: upt_rec_numeral)
qed

definition ex_regs :: ata where
  "ex_regs = \<lparr>r_count = 0, r_low = 0, r_mid = 0, r_high = 0, r_drive = 0, phase = Idle\<rparr>"

text \<open>With the status 0xC0 while it is busy the sector is read; with 0xC1 the driver panics.\<close>

lemma ide_read_correct_witness:
  "(\<exists>bs d'. Ide_read_block (ex_ports 0x40 (\<lambda>b n. if b then of_nat (n div 512) else 0) 0x1f0) 1 5 0 ex_regs = Some (bs, 1, d') \<and>
      bs ! 0 = 5 \<and> phase d' = Idle) \<and>
   Ide_read_block (ex_ports 0x41 (\<lambda>b n. if b then of_nat (n div 512) else 0) 0x1f0) 1 5 0 ex_regs = None"
proof -
  have p: "port 1 = 0x1f0" "channel 1 = 1" by (simp_all add: port_def controller_def channel_def)
  let ?ds = "\<lambda>b n. if b then of_nat (n div 512) else 0"
  have i: "phase ex_regs = Idle" by (simp add: ex_regs_def)
  have st: "fst (getStatus (ex_ports st ?ds 0x1f0) 1 (issue_read (ex_ports st ?ds 0x1f0) 1 5
      (snd (getStatus (ex_ports st ?ds 0x1f0) 1 (snd (getStatus (ex_ports st ?ds 0x1f0) 1 ex_regs)))))) = st OR BSY" for st
    by (simp add: getStatus_def issue_read_def ex_ports_def ex_regs_def p Let_def del: upt_rec_numeral)
  note R = ide_read_correct [OF ex_ports_protocol [of _ ?ds "0x1f0", folded p(1)] i, of _ 5 0, unfolded p(1) st Let_def]
  have "healthy (0x40 OR BSY)" "\<not> healthy (0x41 OR BSY)" by (simp_all add: healthy_def)
  then show ?thesis using R [of "0x40"] R [of "0x41"] unfolding p by (auto simp: sector_def simp del: upt_rec_numeral)
qed

end
