(* ===== verification/Mmap.thy ===== *)
theory Mmap
  imports Program_Load File_Calls
begin

text \<open>
  \<^verbatim>\<open>simple_mmap\<close> (\<^verbatim>\<open>kernel/sys.cc\<close>): where the region goes, what the process finds in it, and
  when the call is refused.
\<close>

section \<open>Arguments while the regions grow\<close>

lemma fill_argE:
  assumes "filling base Q B f k A" "span (esp (iFrame uc)) (4 * Suc n) \<subseteq> A" "i \<le> n"
  obtains s f' where "arg i uc k = Done (argv k uc i) (set_pm s k)" "filling base Q B f' (set_pm s k) A" "kview (set_pm s k) = kview k"
proof -
  let ?a = "esp (iFrame uc) + 4 * of_nat i"
  have "span (esp (iFrame uc) + of_nat (4 * i)) 4 \<subseteq> span (esp (iFrame uc)) (4 * Suc n)" using assms(3) by (intro span_sub) simp
  then have "{?a, ?a + 1, ?a + 2, ?a + 3} \<subseteq> A" using assms(2) by (auto simp: span_4)
  from fill.load32_ok [OF assms(1) this] obtain k' f' where
    "kload32 ?a k = Done (kword k ?a) k'" "filling base Q B f' k' A" "paged_in base f k f' k'" "kview k' = kview k"
    by (auto simp: kword_def)
  then show thesis using that by (auto simp: arg_def argv_def elim!: paged_inE)
qed

lemma fill_args4E:
  assumes "filling base Q B f k A" "span (esp (iFrame uc)) 20 \<subseteq> A"
  obtains s1 s2 s3 s f' where "arg 1 uc k = Done (argv k uc 1) (set_pm s1 k)" "arg 2 uc (set_pm s1 k) = Done (argv k uc 2) (set_pm s2 k)"
    "arg 3 uc (set_pm s2 k) = Done (argv k uc 3) (set_pm s3 k)" "arg 4 uc (set_pm s3 k) = Done (argv k uc 4) (set_pm s k)"
    "filling base Q B f' (set_pm s k) A" "kview (set_pm s k) = kview k"
proof -
  have sp: "span (esp (iFrame uc)) (4 * Suc 4) \<subseteq> A" using assms(2) by simp
  obtain s1 f1 where 1: "arg 1 uc k = Done (argv k uc 1) (set_pm s1 k)" "filling base Q B f1 (set_pm s1 k) A" "kview (set_pm s1 k) = kview k"
    by (rule fill_argE [OF assms(1) sp, of 1]) simp
  obtain s2 f2 where 2: "arg 2 uc (set_pm s1 k) = Done (argv k uc 2) (set_pm s2 k)" "filling base Q B f2 (set_pm s2 k) A" "kview (set_pm s2 k) = kview k"
    by (rule fill_argE [OF 1(2) sp, of 2]) (simp_all add: 1(3))
  obtain s3 f3 where 3: "arg 3 uc (set_pm s2 k) = Done (argv k uc 3) (set_pm s3 k)" "filling base Q B f3 (set_pm s3 k) A" "kview (set_pm s3 k) = kview k"
    by (rule fill_argE [OF 2(2) sp, of 3]) (simp_all add: 2(3))
  obtain s4 f4 where 4: "arg 4 uc (set_pm s3 k) = Done (argv k uc 4) (set_pm s4 k)" "filling base Q B f4 (set_pm s4 k) A" "kview (set_pm s4 k) = kview k"
    by (rule fill_argE [OF 3(2) sp, of 4]) (simp_all add: 3(3))
  from that [OF 1(1) 2(1) 3(1) 4] show thesis .
qed

text \<open>With the regions in place, the whole of \<open>B\<close> is ready.\<close>

lemma filling_done:
  assumes "filling base Q B f k A" "mine k = Some pcb"
  shows "kready base f (with_regions Q pcb k) B"
  using assms by (simp add: filling_def)

section \<open>The pieces of the call\<close>

lemma zero_fill_store:
  "i \<le> fin \<Longrightarrow> zero_fill i fin k = store_bytes kstore8 i (replicate (unat fin - unat i) 0) k"
proof (induction "unat fin - unat i" arbitrary: i k)
  case 0
  then have "i = fin" by (simp add: word_le_unat word_unat_eq_iff)
  then show ?case by (subst zero_fill.simps) simp
next
  case (Suc n)
  then have lt: "i < fin" by (simp add: word_less_unat)
  then have "unat i + 1 < 4294967296" using unat_lt_32 [of fin] unfolding word_less_unat by linarith
  then have u: "unat (i + 1) = unat i + 1" by (subst unat_add_no_wrap) simp_all
  have le: "i + 1 \<le> fin" using lt u by (simp add: word_less_unat word_le_unat)
  have n: "n = unat fin - unat (i + 1)" using Suc.hyps(2) u by simp
  have "zero_fill (i + 1) fin = store_bytes kstore8 (i + 1) (replicate n 0)" using Suc.hyps(1) [OF n le] n by (intro ext) simp
  then show ?case using lt by (subst zero_fill.simps) (simp flip: Suc.hyps(2))
qed

lemma sint_small: "unat (x :: u32) < 2147483648 \<Longrightarrow> sint x = int (unat x)"
proof -
  assume a: "unat x < 2147483648"
  have u: "uint x = int (unat x)" by (rule uint_nat)
  have "uint x < 2147483648" "- 2147483648 \<le> uint x" unfolding u using a by linarith+
  then have "sint x = uint x" by (simp add: sint_uint signed_take_bit_int_eq_self)
  then show ?thesis unfolding u .
qed

lemma write_bytes_after:
  assumes "length xs + length ys \<le> 4294967296"
  shows "write_bytes (a + of_nat (length xs)) ys (write_bytes a xs m) = write_bytes a (xs @ ys) m"
proof
  fix x :: u32
  let ?n = "length xs" and ?y = "x - (a + of_nat (length xs))"
  show "write_bytes (a + of_nat ?n) ys (write_bytes a xs m) x = write_bytes a (xs @ ys) m x"
  proof (cases "unat (x - a) < ?n")
    case True
    have "\<not> unat ?y < length ys"
    proof
      assume y: "unat ?y < length ys"
      then have un: "unat (of_nat ?n :: u32) = ?n" using assms by (simp add: unat_of_nat)
      have "unat (?y + of_nat ?n) = unat ?y + ?n" using y assms un by (subst unat_add_no_wrap) simp_all
      moreover have "?y + of_nat ?n = x - a" by simp
      ultimately show False using True by simp
    qed
    then show ?thesis using True by (simp add: write_bytes_def nth_append)
  next
    case False
    then have "?n < 4294967296" using unat_lt_32 [of "x - a"] by linarith
    then have un: "unat (of_nat ?n :: u32) = ?n" by (simp add: unat_of_nat)
    have "?y = (x - a) - of_nat ?n" by simp
    also have "unat \<dots> = unat (x - a) - ?n" using False un by (subst unat_sub) (simp_all add: word_le_nat_alt)
    finally show ?thesis using False by (auto simp: write_bytes_def nth_append)
  qed
qed

text \<open>Where the region goes.\<close>

definition mmap_place :: "region list \<Rightarrow> u32 \<Rightarrow> u32 \<Rightarrow> u32 \<Rightarrow> region list \<Rightarrow> bool" where
  "mmap_place rs addr sz va rs' \<longleftrightarrow> (if addr = 0 then fits rs va sz \<and> (\<forall>a. fits rs a sz \<longrightarrow> va \<le> a) else va = addr) \<and>
     0x80000000 \<le> va \<and> unat va + unat sz \<le> 0xF0000000 \<and> regions_ok rs' \<and>
     (\<forall>a. va \<le> a \<and> a < va + sz \<longrightarrow> \<not> covered rs a) \<and> (\<forall>a. covered rs' a \<longleftrightarrow> covered rs a \<or> (va \<le> a \<and> a < va + sz))"

text \<open>
  When the call goes ahead, in the natural numbers, where no sum wraps around: the size is not 0,
  address and size are multiples of the page size, and a region whose address is given lies in user
  memory and apart from the others.  Two limits are tighter than they have to be: the region may not
  end exactly at the end of user memory, nor exactly where another one starts.
\<close>

definition mmap_valid :: "region list \<Rightarrow> u32 \<Rightarrow> u32 \<Rightarrow> bool" where
  "mmap_valid rs addr sz \<longleftrightarrow> 0 < unat sz \<and> 4096 dvd unat addr \<and> 4096 dvd unat sz \<and>
     (addr \<noteq> 0 \<longrightarrow> 0x80000000 \<le> unat addr \<and> unat addr + unat sz < 0xF0000000 \<and>
        (\<forall>r \<in> set rs. unat (r_end r) \<le> unat addr \<or> unat addr + unat sz < unat (r_start r)))"

text \<open>
  What the \<^verbatim>\<open>README\<close> says of address and size: the call fails if one of them is not page aligned, the
  region is not fully accessible in user mode, or it intersects an existing mapping.
\<close>

definition readme_fails :: "region list \<Rightarrow> u32 \<Rightarrow> u32 \<Rightarrow> bool" where
  "readme_fails rs addr sz \<longleftrightarrow> \<not> 4096 dvd unat addr \<or> \<not> 4096 dvd unat sz \<or>
     addr \<noteq> 0 \<and> (let new = {unat addr..<unat addr + unat sz} in
       \<not> new \<subseteq> {0x80000000..<0xF0000000} \<or> (\<exists>r \<in> set rs. new \<inter> {unat (r_start r)..<unat (r_end r)} \<noteq> {}))"

lemma aligned_dvd: "(x :: u32) AND 0xFFF = 0 \<longleftrightarrow> 4096 dvd unat x"
proof -
  have "x AND 0xFFF = take_bit 12 x" by (simp add: take_bit_eq_mask mask_eq_exp_minus_1)
  moreover have "unat (take_bit 12 x) = unat x mod 4096" by (simp add: take_bit_eq_mod unat_mod)
  ultimately show ?thesis by (simp add: word_unat_eq_iff dvd_eq_mod_eq_0)
qed

text \<open>The tests of the code, whose sums are 32 bits wide, are these conditions.\<close>

lemma mmap_valid_iff:
  "mmap_valid rs addr sz \<longleftrightarrow> sz \<noteq> 0 \<and> addr AND 0xFFF = 0 \<and> sz AND 0xFFF = 0 \<and>
     (addr \<noteq> 0 \<longrightarrow> 0x80000000 \<le> addr \<and> addr + sz < 0xF0000000 \<and> addr \<le> addr + sz \<and> \<not> intersects_regions addr sz rs)"
proof (cases "unat addr + unat sz < 4294967296")
  case True
  then have u: "unat (addr + sz) = unat addr + unat sz" by (rule unat_add_no_wrap)
  then show ?thesis
    unfolding mmap_valid_def aligned_dvd
    by (auto simp: intersects_regions_def list_ex_iff word_le_unat word_less_unat unat_gt_0 not_le not_less)
next
  case False
  then have "\<not> addr \<le> addr + sz" by (simp add: add_no_wrap_iff)
  moreover have "addr \<noteq> 0" using False unat_lt_32 [of sz] by auto
  ultimately show ?thesis using False by (simp add: mmap_valid_def)
qed

lemma intervals_meet: "0 < n \<Longrightarrow> b < c \<Longrightarrow> {a..<a + n} \<inter> {b..<c} \<noteq> {} \<longleftrightarrow> a < c \<and> b < a + n" for a b c n :: nat
  by (auto simp: Int_atLeastLessThan)

lemma mmap_valid_readme:
  assumes "regions_ok rs"
  shows "\<not> mmap_valid rs addr sz \<longleftrightarrow> readme_fails rs addr sz \<or> sz = 0 \<or>
     addr \<noteq> 0 \<and> (unat addr + unat sz = 0xF0000000 \<or> (\<exists>r \<in> set rs. unat addr + unat sz = unat (r_start r)))"
proof -
  let ?a = "unat addr" and ?n = "unat sz"
  show ?thesis
  proof (cases "sz = 0 \<or> addr = 0")
    case True
    then show ?thesis by (auto simp: mmap_valid_def readme_fails_def unat_gt_0)
  next
    case False
    then have n: "0 < ?n" by (simp add: unat_gt_0)
    have inside: "\<not> (0x80000000 \<le> ?a \<and> ?a + ?n < 0xF0000000) \<longleftrightarrow>
        \<not> {?a..<?a + ?n} \<subseteq> {0x80000000..<0xF0000000} \<or> ?a + ?n = 0xF0000000"
      using n by (auto simp: atLeastLessThan_subset_iff)
    have apart: "\<not> (unat (r_end r) \<le> ?a \<or> ?a + ?n < unat (r_start r)) \<longleftrightarrow>
        {?a..<?a + ?n} \<inter> {unat (r_start r)..<unat (r_end r)} \<noteq> {} \<or> ?a + ?n = unat (r_start r)" if "r \<in> set rs" for r
    proof -
      have "unat (r_start r) < unat (r_end r)"
        using assms that by (auto simp: regions_ok_def region_ok_def list_all_iff word_less_unat)
      then show ?thesis using intervals_meet [OF n, of "unat (r_start r)" "unat (r_end r)" ?a] by linarith
    qed
    have "\<not> mmap_valid rs addr sz \<longleftrightarrow> \<not> 4096 dvd ?a \<or> \<not> 4096 dvd ?n \<or> \<not> (0x80000000 \<le> ?a \<and> ?a + ?n < 0xF0000000) \<or>
        (\<exists>r \<in> set rs. \<not> (unat (r_end r) \<le> ?a \<or> ?a + ?n < unat (r_start r)))"
      using False n unfolding mmap_valid_def by blast
    then show ?thesis unfolding readme_fails_def Let_def inside using False apart by blast
  qed
qed

lemma mmap_placed:
  assumes "regions_ok rs" "mmap_valid rs addr sz" "add_region (new_region addr sz) rs = (va, rs')" "va \<noteq> 0"
  shows "mmap_place rs addr sz va rs'"
proof (cases "addr = 0")
  case True
  then have f: "fits rs va sz" "\<forall>a. fits rs a sz \<longrightarrow> va \<le> a" "regions_ok rs'" "\<forall>a. covered rs' a \<longleftrightarrow> covered rs a \<or> (va \<le> a \<and> a < va + sz)"
    using first_fit_correct [OF assms(1), of sz va rs'] assms(2-4) by (auto simp: mmap_valid_iff)
  then show ?thesis using True by (auto simp: mmap_place_def fits_def)
next
  case False
  then have v: "0x80000000 \<le> addr" "addr + sz < 0xF0000000" "addr \<le> addr + sz" "\<not> intersects_regions addr sz rs" "sz \<noteq> 0"
    using assms(2) by (auto simp: mmap_valid_iff)
  have nw: "unat addr + unat sz < 4294967296" using v(3) by (simp add: add_no_wrap_iff)
  have u: "unat (addr + sz) = unat addr + unat sz" by (rule unat_add_no_wrap [OF nw])
  have "addr < addr + sz" using v(5) u by (simp add: word_less_unat unat_gt_0)
  then have r: "region_ok (new_region addr sz)" using v(1,2) by (simp add: region_ok_def new_region_def word_le_unat word_less_unat)
  have "va = addr" "regions_ok rs'" "\<forall>a. addr \<le> a \<and> a < addr + sz \<longrightarrow> \<not> covered rs a"
      "\<forall>a. covered rs' a \<longleftrightarrow> covered rs a \<or> (addr \<le> a \<and> a < addr + sz)"
    using add_fixed_correct [OF assms(1) r _ assms(3)] v(4) by (simp_all add: new_region_def)
  then show ?thesis using False v(1,2) u by (auto simp: mmap_place_def word_less_unat)
qed

section \<open>Properties\<close>

text \<open>A regular file open at the descriptor is what is mapped.\<close>

lemma mmap_node_file:
  assumes "has_fd k pcb fd p d c" "vnode d = Some nd" "\<not> is_dir nd" "off AND 0xFFF = 0"
  shows "mmap_node fd off pcb k = Done (Some (Some nd)) k"
proof -
  have lt: "unat fd < 10" using assms(1) by (simp add: has_fd_def word_less_unat)
  then have "sint fd = int (unat fd)" by (intro sint_small) simp
  then have *: "\<not> sint fd \<ge> 10" "\<not> sint fd < 0" using lt by linarith+
  then have "fd \<noteq> - 1" by (metis sint_n1 neg_less_0_iff_less zero_less_one)
  then show ?thesis
    using assms(2-) * has_fdD [OF assms(1)] by (simp add: mmap_node_def Shared_is_null_def Shared_deref_def deref_def)
qed

lemma mmap_node_refuses:
  assumes "fd \<noteq> - 1" "off AND 0xFFF \<noteq> 0 \<or> 10 \<le> sint fd \<or> fd < 10 \<and> file_descriptor pcb ! unat fd = 0"
  shows "mmap_node fd off pcb k = Done None k"
proof -
  have "sint fd = int (unat fd)" if "fd < 10" using that by (intro sint_small) (simp add: word_less_unat)
  then have "fd < 10 \<Longrightarrow> 0 \<le> sint fd" by simp
  then show ?thesis using assms by (auto simp: mmap_node_def Shared_is_null_def)
qed

text \<open>The bytes read, then zeros up to the end of the mapping: one write of the whole mapping.\<close>

lemma map_fill_ok:
  assumes r: "kready base f k B" and sp: "span va (unat sz) \<subseteq> B" and b: "unat va + unat sz \<le> 0xF0000000" "length bs \<le> unat sz"
  obtains s t where "store_bytes kstore8 va bs k = Done () (set_pm s k)"
    "zero_fill (va + of_nat (length bs)) (va + sz) (set_pm s k) = Done () (set_pm t k)"
    "kview (set_pm t k) = write_bytes va (bs @ replicate (unat sz - length bs) 0) (kview k)"
proof -
  let ?m = "length bs" and ?zs = "replicate (unat sz - length bs) (0 :: u8)"
  have "span va ?m \<subseteq> B" using sp b(2) span_sub [of 0 ?m "unat sz" va] by auto
  then obtain s f1 where 1: "store_bytes kstore8 va bs k = Done () (set_pm s k)" "kready base f1 (set_pm s k) B"
      "kview (set_pm s k) = write_bytes va bs (kview k)"
    by (rule store_bytesE [OF r]) (use b in simp_all)
  have um: "unat (of_nat ?m :: u32) = ?m" using b by (simp add: unat_of_nat)
  have uv: "unat (va + of_nat ?m) = unat va + ?m" "unat (va + sz) = unat va + unat sz"
    using b um by (subst unat_add_no_wrap, simp_all)+
  have le: "va + of_nat ?m \<le> va + sz" using uv b(2) by (simp add: word_le_unat)
  have zf: "zero_fill (va + of_nat ?m) (va + sz) k' = store_bytes kstore8 (va + of_nat ?m) ?zs k'" for k'
    using zero_fill_store [OF le] uv by simp
  have "span (va + of_nat ?m) (length ?zs) \<subseteq> B" using sp b(2) span_sub [of ?m "unat sz - ?m" "unat sz" va] by auto
  then obtain t f2 where 2: "store_bytes kstore8 (va + of_nat ?m) ?zs (set_pm s k) = Done () (set_pm t (set_pm s k))"
      "kview (set_pm t (set_pm s k)) = write_bytes (va + of_nat ?m) ?zs (kview (set_pm s k))"
    by (rule store_bytesE [OF 1(2)]) (use b in simp_all)
  have "kview (set_pm t k) = write_bytes va (bs @ ?zs) (kview k)"
    using 2(2) 1(3) b by (simp add: write_bytes_after)
  with 1(1) 2(1) zf show thesis by (intro that) simp_all
qed

text \<open>
  C15.  \<^verbatim>\<open>simple_mmap\<close> of a file.  When address and size pass the tests, the descriptor is open on a file
  and the offset is inside it, and there is room, the call returns the address of a new region: the
  lowest at which it fits, or the one asked for.  The region was not mapped before, exactly it is now,
  and the list of regions stays sorted and disjoint.  It holds the bytes of the file from the offset
  on and zeros behind its end; no other byte of the memory of the process changes.
\<close>

theorem mmap_file_correct:
  assumes fl: "filling base rs B f k A" "span (esp (iFrame uc)) 20 \<subseteq> A" "span va (unat (argv k uc 2)) \<subseteq> B"
    and rg: "mine k = Some pcb" "regions_ok (queue pcb)" "mmap_valid (queue pcb) (argv k uc 1) (argv k uc 2)"
      "add_region (new_region (argv k uc 1) (argv k uc 2)) (queue pcb) = (va, rs)" "va \<noteq> 0"
    and fd: "has_fd k pcb (argv k uc 3) p d c" "vnode d = Some nd" "\<not> is_dir nd" "node_ok (disk_image k) nd"
      "argv k uc 4 AND 0xFFF = 0" "argv k uc 4 \<le> node_size_in_bytes nd"
  shows "\<exists>s. let sz = unat (argv k uc 2); off = unat (argv k uc 4); m = min sz (unat (node_size_in_bytes nd) - off) in
     sys_mmap uc k = Done va (set_pm s (with_regions rs pcb k)) \<and>
     kview (set_pm s k) = write_bytes va (map (file_byte (disk_image k) nd) [off..<off + m] @ replicate (sz - m) 0) (kview k) \<and>
     mmap_place (queue pcb) (argv k uc 1) (argv k uc 2) va rs"
proof -
  let ?addr = "argv k uc 1" and ?sz = "argv k uc 2" and ?fd = "argv k uc 3" and ?off = "argv k uc 4"
  define m where "m = min (unat ?sz) (unat (node_size_in_bytes nd) - unat ?off)"
  obtain s1 s2 s3 s f1 where 1: "arg 1 uc k = Done ?addr (set_pm s1 k)" "arg 2 uc (set_pm s1 k) = Done ?sz (set_pm s2 k)"
      "arg 3 uc (set_pm s2 k) = Done ?fd (set_pm s3 k)" "arg 4 uc (set_pm s3 k) = Done ?off (set_pm s k)"
      "filling base rs B f1 (set_pm s k) A" "kview (set_pm s k) = kview k"
    by (rule fill_args4E [OF fl(1,2)])
  have pl: "mmap_place (queue pcb) ?addr ?sz va rs" by (rule mmap_placed [OF rg(2-5)])
  have v: "?sz \<noteq> 0" "?addr AND 0xFFF = 0" "?sz AND 0xFFF = 0" "\<not> (?addr \<noteq> 0 \<and> (?addr < 0x80000000 \<or> ?addr + ?sz \<ge> 0xF0000000 \<or> ?addr + ?sz < ?addr))"
      "\<not> (?addr \<noteq> 0 \<and> intersects_regions ?addr ?sz (queue pcb))"
    using rg(3) by (auto simp: mmap_valid_iff not_less not_le)
  have "has_fd (set_pm s k) pcb ?fd p d c" using fd(1) by (simp add: has_fd_def)
  then have node: "mmap_node ?fd ?off pcb (set_pm s k) = Done (Some (Some nd)) (set_pm s k)" using fd(2,3,5) by (rule mmap_node_file)
  let ?k1 = "set_pm s (with_regions rs pcb k)"
  have "kready base f1 (with_regions rs pcb (set_pm s k)) B" using filling_done [OF 1(5)] rg(1) by simp
  then have r1: "kready base f1 ?k1 B" by simp
  let ?left = "node_size_in_bytes nd - ?off"
  let ?n = "if ?sz < ?left then ?sz else ?left"
  have left: "unat ?left = unat (node_size_in_bytes nd) - unat ?off" using fd(6) by (rule unat_sub)
  have n: "unat ?n = m" unfolding m_def left [symmetric] by (auto simp: word_less_unat min_def)
  have m_le: "m \<le> unat ?sz" "m \<le> unat (node_size_in_bytes nd) - unat ?off" by (simp_all add: m_def)
  let ?bs = "map (file_byte (disk_image k) nd) [unat ?off..<unat ?off + m]"
  let ?zs = "replicate (unat ?sz - m) (0 :: u8)"
  have "\<not> unat (node_size_in_bytes nd) < unat ?off" using fd(6) by (simp add: word_le_unat)
  then have rd: "read_all (Node_io (disk_image k) nd) ?off ?n = Some (int m, ?bs)"
    using block_device.read_all_correct [OF node_block_device [OF fd(4)], of ?off ?n] n m_le
    by (auto simp: Let_def min_absorb1)
  have b: "unat va + unat ?sz \<le> 0xF0000000" using pl by (simp add: mmap_place_def)
  obtain s4 s5 where 4: "store_bytes kstore8 va ?bs ?k1 = Done () (set_pm s4 ?k1)"
      "zero_fill (va + of_nat m) (va + ?sz) (set_pm s4 ?k1) = Done () (set_pm s5 ?k1)"
      "kview (set_pm s5 ?k1) = write_bytes va (?bs @ ?zs) (kview ?k1)"
    by (rule map_fill_ok [OF r1 fl(3) b, of ?bs]) (use m_le(1) in simp_all)
  have run: "sys_mmap uc k = Done va (set_pm s5 (with_regions rs pcb k))"
    using 1(1-4) v rg(1,4) node rd 4(1,2)
    by (cases "?addr = 0") (simp_all add: sys_mmap_def Let_def)
  have kv: "kview (set_pm t (with_regions rs pcb k)) = kview (set_pm t k)" for t by (simp add: kview_def)
  have "kview (set_pm s5 k) = write_bytes va (?bs @ ?zs) (kview k)" using 4(3) 1(6) by (simp add: kv)
  then show ?thesis using run pl unfolding Let_def m_def [symmetric] by blast
qed

text \<open>The small machine maps a page of the file \<^verbatim>\<open>hello\<close>.\<close>

abbreviation ex_mmap_pcb :: PCB where
  "ex_mmap_pcb \<equiv> (PCB_new 0x600000)\<lparr>file_descriptor := 0x5000 # replicate 9 0\<rparr>"

abbreviation ex_mmap_regions :: "region list" where
  "ex_mmap_regions \<equiv> [new_region 0x80000000 0x1000, new_region 0xEFF00000 0x100000]"

lemma span_range: "va \<in> span b n \<Longrightarrow> unat b + n \<le> 4294967296 \<Longrightarrow> unat b \<le> unat va \<and> unat va < unat b + n"
proof -
  assume "va \<in> span b n" "unat b + n \<le> 4294967296"
  then obtain i where i: "i < n" "va = b + of_nat i" "unat b + i < 4294967296" by (auto simp: span_def)
  then have "unat (of_nat i :: u32) = i" by (simp add: unat_of_nat)
  then have "unat va = unat b + i" using i(3) by (simp only: i(2)) (subst unat_add_no_wrap, simp_all)
  then show ?thesis using i(1) by simp
qed

lemma ex_mmap_queue: "queue ex_mmap_pcb = [new_region 0xEFF00000 0x100000]"
  by (simp add: PCB_new_def add_region_def insert_at_def new_region_def)

lemma ex_mmap_filling:
  "filling 0x600000 ex_mmap_regions (span 0xEFFFF000 20 \<union> span 0x80000000 4096) [] (ex_file_kernel ws) (span 0xEFFFF000 20)"
proof -
  let ?k = "ex_file_kernel ws" and ?B = "span 0xEFFFF000 20 \<union> span (0x80000000 :: u32) 4096"
  have k: "mine ?k = Some ex_mmap_pcb" "getCR3 ?k = 0x600000" "pm_of ?k = ex_page ws"
    by (simp_all add: ex_file_kernel_def ex_ready) (simp add: ex_kernel_def pm_of_def)
  have B: "(0xEFFFF000 \<le> unat va \<and> unat va < 0xF0000000 \<and> va \<in> span 0xEFFFF000 20) \<or> (0x80000000 \<le> unat va \<and> unat va < 0x80001000)" if "va \<in> ?B" for va
    using that span_range [of va "0xEFFFF000" 20] span_range [of va "0x80000000" 4096] by auto
  have pg: "user_va va \<and> (page va = 0xEFFFF000 \<and> va \<in> span 0xEFFFF000 20 \<or> page va = 0x80000000 \<and> covered ex_mmap_regions va)" if "va \<in> ?B" for va
    using B [OF that]
    by (auto simp: user_va_def word_le_unat word_less_unat word_unat_eq_iff unat_page_base covered_def new_region_def)
  have "missing (ex_page ws) 0x600000 ?B \<subseteq> {0x80000000}"
    unfolding missing_def ex_page_walk using pg by (auto split: if_splits)
  then have "card (missing (ex_page ws) 0x600000 ?B) \<le> 1" using card_mono [of "{0x80000000 :: u32}"] by fastforce
  then have room: "2 * card (missing (ex_page ws) 0x600000 ?B) \<le> frames_left [] (ex_page ws)" by (simp add: frames_left_def ex_page_def)
  have "accessible 0x600000 ex_mmap_regions 0x600000 [] (ex_page ws) ?B"
    unfolding accessible_def using ex_page_ok room pg by (auto simp: ex_page_walk split: if_splits)
  moreover have "covered (queue ex_mmap_pcb) va" if "va \<in> span 0xEFFFF000 20" for va
    using span_range [OF that] unfolding ex_mmap_queue by (simp add: covered_def new_region_def word_le_unat word_less_unat)
  ultimately show ?thesis using k by (simp add: filling_def kready_def)
qed

lemma mmap_file_correct_witness:
  "\<exists>k'. sys_mmap ex_context (ex_file_kernel [0, 0, 0x1000, 0, 0]) = Done 0x80000000 k' \<and>
     kview k' 0x80000001 = 101 \<and> kview k' 0x80000005 = 0 \<and> kview k' 0x80000FFF = 0"
proof -
  let ?k = "ex_file_kernel [0, 0, 0x1000, 0, 0]" and ?nd = "ex_node 0x81A4 5 11"
  have argv: "argv ?k ex_context 1 = 0" "argv ?k ex_context 2 = 0x1000" "argv ?k ex_context 3 = 0" "argv ?k ex_context 4 = 0"
    by (simp_all add: ex_file_kernel_def ex_argv)
  have mine: "mine ?k = Some ex_mmap_pcb" by (simp add: ex_file_kernel_def ex_ready)
  have ok: "regions_ok (queue ex_mmap_pcb)" unfolding ex_mmap_queue by (simp add: regions_ok_def region_ok_def new_region_def)
  have val: "mmap_valid (queue ex_mmap_pcb) (argv ?k ex_context 1) (argv ?k ex_context 2)" unfolding argv by (simp add: mmap_valid_iff)
  have add: "add_region (new_region (argv ?k ex_context 1) (argv ?k ex_context 2)) (queue ex_mmap_pcb) = (0x80000000, ex_mmap_regions)"
    unfolding argv ex_mmap_queue by (simp add: add_region_def insert_at_def new_region_def)
  have sp: "span (esp (iFrame ex_context)) 20 \<subseteq> span 0xEFFFF000 20" "span 0x80000000 (unat (argv ?k ex_context 2)) \<subseteq> span 0xEFFFF000 20 \<union> span 0x80000000 4096"
    unfolding argv by (simp_all add: ex_context_def)
  have fd: "has_fd ?k ex_mmap_pcb (argv ?k ex_context 3) 0x5000 ex_fd 1" unfolding argv by (rule ex_file_has_fd)
  have d: "disk_image ?k = ex_disk" by (simp add: ex_file_kernel_def ex_kernel_def)
  have nd: "vnode ex_fd = Some ?nd" "\<not> is_dir ?nd" "node_ok (disk_image ?k) ?nd" "argv ?k ex_context 4 AND 0xFFF = 0"
      "argv ?k ex_context 4 \<le> node_size_in_bytes ?nd"
    using ex_node_ok [of 5 11 "0x81A4"] d
    by (simp_all add: argv is_dir_def nd_is_dir_def nd_get_type_def ex_fd_def FileDescriptor_node_def ex_node_def)
  have sz: "node_size_in_bytes ?nd = 5" by (simp add: node_size_in_bytes_def ex_node_def)
  have "(0x80000000 :: u32) \<noteq> 0" by simp
  from mmap_file_correct [OF ex_mmap_filling sp mine ok val add this fd nd] obtain s where
    s: "sys_mmap ex_context ?k = Done 0x80000000 (set_pm s (with_regions ex_mmap_regions ex_mmap_pcb ?k))"
      "kview (set_pm s ?k) = write_bytes 0x80000000 (map (file_byte ex_disk ?nd) [0..<5] @ replicate 4091 0) (kview ?k)"
    unfolding Let_def argv sz d by auto
  have "kview (set_pm s (with_regions ex_mmap_regions ex_mmap_pcb ?k)) = kview (set_pm s ?k)" by (simp add: kview_def)
  moreover have "file_byte ex_disk ?nd 1 = 101" by (simp add: ex_node_byte ex_hello)
  ultimately show ?thesis using s by (simp add: write_bytes_def nth_append)
qed

text \<open>
  C40.  \<^verbatim>\<open>simple_mmap\<close> refuses.  Whenever the \<^verbatim>\<open>README\<close> says that the call fails because of its address or
  its size, it returns 0.  It does so too if the size is 0, if a region at a given address ends exactly
  at the end of user memory or exactly where another one starts, and, when a file is named, if the
  offset is not page aligned, the number is 10 or more or nothing is open there.  Then nothing is
  mapped, and nothing changes that the process could see.
\<close>

theorem mmap_refuses:
  assumes k: "args_ready base f k uc 4 A" "mine k = Some pcb" "regions_ok (queue pcb)"
    and bad: "readme_fails (queue pcb) (argv k uc 1) (argv k uc 2) \<or> argv k uc 2 = 0 \<or>
      argv k uc 1 \<noteq> 0 \<and> (unat (argv k uc 1) + unat (argv k uc 2) = 0xF0000000 \<or>
        (\<exists>r \<in> set (queue pcb). unat (argv k uc 1) + unat (argv k uc 2) = unat (r_start r))) \<or>
      argv k uc 3 \<noteq> - 1 \<and> (\<not> 4096 dvd unat (argv k uc 4) \<or> 10 \<le> sint (argv k uc 3) \<or>
        argv k uc 3 < 10 \<and> file_descriptor pcb ! unat (argv k uc 3) = 0)"
  shows "\<exists>s. sys_mmap uc k = Done 0 (set_pm s k) \<and> kview (set_pm s k) = kview k"
proof -
  obtain s1 f1 where 1: "arg 1 uc k = Done (argv k uc 1) (set_pm s1 k)" "args_ready base f1 (set_pm s1 k) uc 4 A" "kview (set_pm s1 k) = kview k"
    by (rule argE [OF k(1), of 1]) simp_all
  obtain s2 f2 where 2: "arg 2 uc (set_pm s1 k) = Done (argv k uc 2) (set_pm s2 k)" "args_ready base f2 (set_pm s2 k) uc 4 A" "kview (set_pm s2 k) = kview k"
    by (rule argE [OF 1(2), of 2]) (simp_all add: 1(3))
  obtain s3 f3 where 3: "arg 3 uc (set_pm s2 k) = Done (argv k uc 3) (set_pm s3 k)" "args_ready base f3 (set_pm s3 k) uc 4 A" "kview (set_pm s3 k) = kview k"
    by (rule argE [OF 2(2), of 3]) (simp_all add: 2(3))
  obtain s4 f4 where 4: "arg 4 uc (set_pm s3 k) = Done (argv k uc 4) (set_pm s4 k)" "kview (set_pm s4 k) = kview k"
    by (rule argE [OF 3(2), of 4]) (simp_all add: 3(3))
  let ?a = "argv k uc 1" and ?z = "argv k uc 2" and ?fd = "argv k uc 3"
  have "sys_mmap uc k = Done 0 (set_pm s4 k)"
  proof (cases "mmap_valid (queue pcb) ?a ?z")
    case True
    then have "\<not> (readme_fails (queue pcb) ?a ?z \<or> ?z = 0 \<or> ?a \<noteq> 0 \<and> (unat ?a + unat ?z = 0xF0000000 \<or>
        (\<exists>r \<in> set (queue pcb). unat ?a + unat ?z = unat (r_start r))))"
      using mmap_valid_readme [OF k(3)] by blast
    then have "?fd \<noteq> - 1" "argv k uc 4 AND 0xFFF \<noteq> 0 \<or> 10 \<le> sint ?fd \<or> ?fd < 10 \<and> file_descriptor pcb ! unat ?fd = 0"
      using bad by (auto simp: aligned_dvd)
    then have "mmap_node ?fd (argv k uc 4) pcb (set_pm s4 k) = Done None (set_pm s4 k)" by (rule mmap_node_refuses)
    then show ?thesis using 1(1) 2(1) 3(1) 4(1) k(2) True by (auto simp: sys_mmap_def mmap_valid_iff not_less not_le)
  next
    case False
    then have "?z = 0 \<or> ?a AND 0xFFF \<noteq> 0 \<or> ?z AND 0xFFF \<noteq> 0 \<or> ?a \<noteq> 0 \<and> (?a < 0x80000000 \<or> 0xF0000000 \<le> ?a + ?z \<or> ?a + ?z < ?a) \<or>
        ?a \<noteq> 0 \<and> intersects_regions ?a ?z (queue pcb)"
      by (auto simp: mmap_valid_iff not_less not_le)
    then show ?thesis using 1(1) 2(1) 3(1) 4(1) k(2) by (auto simp: sys_mmap_def)
  qed
  then show ?thesis using 4(2) by blast
qed

lemma mmap_refuses_witness:
  "\<exists>s. sys_mmap ex_context (ex_file_kernel [0, 0xEFFFF000, 0x800, 0xFFFFFFFF, 0]) = Done 0 (set_pm s (ex_file_kernel [0, 0xEFFFF000, 0x800, 0xFFFFFFFF, 0]))"
proof -
  let ?k = "ex_file_kernel [0, 0xEFFFF000, 0x800, 0xFFFFFFFF, 0]"
  have argv: "argv ?k ex_context 1 = 0xEFFFF000" "argv ?k ex_context 2 = 0x800" by (simp_all add: ex_file_kernel_def ex_argv)
  have "mine ?k = Some ex_mmap_pcb" "args_ready 0x600000 [] ?k ex_context 4 (span 0xEFFFF000 4096)" by (simp_all add: ex_file_kernel_def ex_ready)
  moreover have "regions_ok (queue ex_mmap_pcb)" unfolding ex_mmap_queue by (simp add: regions_ok_def region_ok_def new_region_def)
  moreover have "readme_fails (queue ex_mmap_pcb) (argv ?k ex_context 1) (argv ?k ex_context 2)" unfolding argv by (simp add: readme_fails_def)
  ultimately show ?thesis using mmap_refuses by blast
qed

end
