(* ===== verification/Heap_Realloc.thy ===== *)
theory Heap_Realloc
  imports Heap_Alloc User_Mem
begin

text \<open>
  \<^verbatim>\<open>realloc\<close> of the user library (\<^verbatim>\<open>t0.dir/sbin/heap.c\<close>) with the \<^verbatim>\<open>memcpy\<close> it calls
  (\<^verbatim>\<open>t0.dir/sbin/machine.S\<close>), which moves single bytes of the words of the heap.
\<close>

section \<open>The code\<close>

definition heap_load8 :: "heap \<Rightarrow> u32 \<Rightarrow> u8" where
  "heap_load8 h p = word_byte (unat (p - base h) mod 4) (of_int (array h (int (unat (p - base h) div 4))))"

definition heap_store8 :: "u32 \<Rightarrow> u8 \<Rightarrow> heap \<Rightarrow> heap" where
  "heap_store8 p b h = (let i = int (unat (p - base h) div 4) in
     store_int i (sint (word_put (unat (p - base h) mod 4) b (of_int (array h i)))) h)"

primrec memcpy_loop :: "nat \<Rightarrow> u32 \<Rightarrow> u32 \<Rightarrow> heap \<Rightarrow> heap" where
  "memcpy_loop 0 dest src h = h"
| "memcpy_loop (Suc n) dest src h = memcpy_loop n (dest + 1) (src + 1) (heap_store8 dest (heap_load8 h src) h)"

text \<open>The loop ends when the counter is negative as a signed number.\<close>

definition memcpy :: "u32 \<Rightarrow> u32 \<Rightarrow> u32 \<Rightarrow> heap \<Rightarrow> heap" where
  "memcpy dest src n h = memcpy_loop (nat (sint n)) dest src h"

text \<open>The tag of a block outside the array is not read: there is no result.\<close>

definition user_realloc :: "u32 \<Rightarrow> u32 \<Rightarrow> heap \<Rightarrow> (u32 \<times> heap) option" where
  "user_realloc p newSize h =
     (if p = 0 then user_malloc newSize h
      else if newSize = 0 then Some (0, user_free p h)
      else let idx = user_sanity h (block_idx h p) in
        if idx < 0 \<or> idx \<ge> len h then None
        else if \<not> isTaken h idx then Some (0, h)
        else do {
          let sz = heap_size h idx * 4;
          (newPtr, h1) \<leftarrow> user_malloc newSize h;
          let h2 = (if newPtr \<noteq> 0 then memcpy newPtr p (if uint newSize > sz then of_int sz else newSize) h1 else h1);
          Some (newPtr, user_free p h2) })"

section \<open>The heap as bytes\<close>

definition heap_byte :: "heap \<Rightarrow> nat \<Rightarrow> u8" where
  "heap_byte h k = word_byte (k mod 4) (of_int (array h (int (k div 4))))"

lemma heap_store8_offset:
  assumes "k < 4294967296"
  shows "heap_load8 h (base h + of_nat k) = heap_byte h k"
    "heap_byte (heap_store8 (base h + of_nat k) b h) = (heap_byte h)(k := b)"
    "w \<noteq> int (k div 4) \<Longrightarrow> array (heap_store8 (base h + of_nat k) b h) w = array h w"
proof -
  have u: "unat (base h + of_nat k - base h) = k" using assms by (simp add: unat_of_nat)
  show "heap_load8 h (base h + of_nat k) = heap_byte h k" by (simp only: heap_load8_def heap_byte_def u)
  show "w \<noteq> int (k div 4) \<Longrightarrow> array (heap_store8 (base h + of_nat k) b h) w = array h w"
    unfolding heap_store8_def u by (simp add: store_int_def Let_def)
  show "heap_byte (heap_store8 (base h + of_nat k) b h) = (heap_byte h)(k := b)"
  proof
    fix j
    have "j = k \<longleftrightarrow> j div 4 = k div 4 \<and> j mod 4 = k mod 4" by (metis div_mult_mod_eq)
    then show "heap_byte (heap_store8 (base h + of_nat k) b h) j = ((heap_byte h)(k := b)) j"
      unfolding heap_store8_def u heap_byte_def
      by (simp add: store_int_def Let_def word_byte_put)
  qed
qed

lemma heap_store8_fields [simp]:
  "base (heap_store8 p b h) = base h" "len (heap_store8 p b h) = len h" "safe (heap_store8 p b h) = safe h"
  "heap.avail (heap_store8 p b h) = heap.avail h"
  by (simp_all add: heap_store8_def Let_def store_int_def)

text \<open>A copy whose source does not lie in its target.\<close>

lemma memcpy_loop_fields [simp]:
  "base (memcpy_loop n d s h) = base h" "len (memcpy_loop n d s h) = len h" "safe (memcpy_loop n d s h) = safe h"
  "heap.avail (memcpy_loop n d s h) = heap.avail h"
  by (induction n arbitrary: d s h) simp_all

lemma memcpy_loop_words:
  assumes "d + n \<le> 4294967296" "w < int (d div 4) \<or> int ((d + n + 3) div 4) \<le> w"
  shows "array (memcpy_loop n (base h + of_nat d) src h) w = array h w"
  using assms
proof (induction n arbitrary: d src h)
  case (Suc n)
  let ?h = "heap_store8 (base h + of_nat d) (heap_load8 h src) h"
  have "array ?h w = array h w" using Suc.prems by (intro heap_store8_offset(3)) auto
  moreover have "array (memcpy_loop n (base ?h + of_nat (Suc d)) (src + 1) ?h) w = array ?h w"
    using Suc.prems by (intro Suc.IH) auto
  ultimately show ?case by (simp add: add.assoc add.commute [of 1])
qed simp

lemma memcpy_step:
  fixes h :: heap
  assumes "d < 4294967296" "s < 4294967296"
  defines "h' \<equiv> heap_store8 (base h + of_nat d) (heap_byte h s) h"
  shows "memcpy_loop (Suc n) (base h + of_nat d) (base h + of_nat s) h =
      memcpy_loop n (base h' + of_nat (Suc d)) (base h' + of_nat (Suc s)) h'"
    "heap_byte h' = (heap_byte h)(d := heap_byte h s)"
  using assms by (simp_all add: h'_def heap_store8_offset add.assoc add.commute [of 1])

lemma memcpy_loop_frame:
  assumes "d + n \<le> 4294967296" "s + n \<le> 4294967296" "k < d \<or> d + n \<le> k"
  shows "heap_byte (memcpy_loop n (base h + of_nat d) (base h + of_nat s) h) k = heap_byte h k"
  using assms
proof (induction n arbitrary: d s h)
  case (Suc n)
  then have lt: "d < 4294967296" "s < 4294967296" by simp_all
  show ?case unfolding memcpy_step(1) [OF lt] by (subst Suc.IH) (use Suc.prems in \<open>auto simp: memcpy_step(2) [OF lt]\<close>)
qed simp

lemma memcpy_loop_bytes:
  assumes "d + n \<le> 4294967296" "s + n \<le> 4294967296" "j < n" "s + j < d \<or> d + n \<le> s + j"
  shows "heap_byte (memcpy_loop n (base h + of_nat d) (base h + of_nat s) h) (d + j) = heap_byte h (s + j)"
  using assms
proof (induction n arbitrary: d s h j)
  case (Suc n)
  then have lt: "d < 4294967296" "s < 4294967296" by simp_all
  show ?case
  proof (cases j)
    case 0
    then show ?thesis
      unfolding memcpy_step(1) [OF lt] using Suc.prems by (subst memcpy_loop_frame) (auto simp: memcpy_step(2) [OF lt])
  next
    case (Suc i)
    define h1 where "h1 = heap_store8 (base h + of_nat d) (heap_byte h s) h"
    have "heap_byte (memcpy_loop n (base h1 + of_nat (Suc d)) (base h1 + of_nat (Suc s)) h1) (Suc d + i) = heap_byte h1 (Suc s + i)"
      using Suc Suc.prems by (intro Suc.IH) auto
    also have "\<dots> = heap_byte h (s + j)" using Suc Suc.prems memcpy_step(2) [OF lt, of h] by (auto simp: h1_def)
    finally show ?thesis unfolding memcpy_step(1) [OF lt] h1_def [symmetric] using Suc by simp
  qed
qed simp

section \<open>Writing into a block\<close>

lemma payload_not_tag: "blocks a i bs \<Longrightarrow> (j, k) \<in> takens i bs \<Longrightarrow> j < w \<Longrightarrow> w < j + k - 1 \<Longrightarrow> w \<notin> tags i bs"
proof (induction a i bs rule: blocks.induct)
  case (2 a i n f bs)
  then show ?case
    using tags_range [of a "i + n" bs w] takens_range [of a "i + n" bs j k] by (auto split: if_splits)
qed simp

text \<open>What a program writes between the tags of a block it has does not matter to the heap.\<close>

lemma heap_inv_payload:
  assumes inv: "heap_inv h bs fl" and t: "(j, k) \<in> takens 0 bs"
    and eq: "\<And>w. w \<le> j \<or> j + k - 1 \<le> w \<Longrightarrow> array h' w = array h w"
    "base h' = base h" "len h' = len h" "safe h' = safe h" "heap.avail h' = heap.avail h"
  shows "heap_inv h' bs fl"
proof -
  have b: "blocks (array h) 0 bs" and fl: "flist (array h) 0 (heap.avail h) fl" "set fl = frees 0 bs"
    using inv by (simp_all add: heap_inv_def heap_hole_def)
  have "array h' w = array h w" if "w \<in> tags 0 bs" for w
    using payload_not_tag [OF b t, of w] eq(1) [of w] that by (cases "j < w \<and> w < j + k - 1") auto
  then have 1: "blocks (array h') 0 bs" using b blocks_cong by blast
  have "array h' (x + 1) = array h (x + 1) \<and> array h' (x + 2) = array h (x + 2)" if "x \<in> set fl" for x
  proof -
    have "{x..<x + 4} \<subseteq> free_words 0 bs" using frees_words [OF b] fl(2) that by simp
    then have "x + 1 \<in> free_words 0 bs" "x + 2 \<in> free_words 0 bs" by (auto simp: subset_iff)
    then have "\<not> (j \<le> x + 1 \<and> x + 1 < j + k)" "\<not> (j \<le> x + 2 \<and> x + 2 < j + k)" using taken_not_free_word [OF b t] by blast+
    then show ?thesis by (intro conjI eq(1)) auto
  qed
  then have 2: "flist (array h') 0 (heap.avail h) fl" using fl(1) flist_cong [of fl "array h'" "array h"] by blast
  show ?thesis using inv 1 2 eq(2-) by (simp add: heap_inv_def heap_hole_def)
qed

section \<open>Reallocation\<close>

text \<open>Bytes behind the tag of block \<open>i\<close>.\<close>

abbreviation payload :: "heap \<Rightarrow> int \<Rightarrow> nat \<Rightarrow> u8" where
  "payload h i b \<equiv> heap_byte h (4 * nat (i + 1) + b)"

lemma bytes_in_words: "int n \<le> 4 * (k - 2) \<Longrightarrow> int ((n + 3) div 4) \<le> k - 2"
  by (simp add: zdiv_int)

lemma bytes_copied: "int n = min (int l) (m * 4) \<Longrightarrow> b < l \<Longrightarrow> int b < 4 * (m - 2) \<Longrightarrow> b < n"
  by (auto simp: min_def split: if_splits)

lemma bytes_index: "b < l \<Longrightarrow> int l \<le> 4 * (k - 2) \<Longrightarrow> int b div 4 < k - 2"
  by presburger

lemma bytes_apart:
  assumes "x + k \<le> i \<or> i + m \<le> x" "b < n" "int b < 4 * (m - 2)" "int n \<le> 4 * (k - 2)" "0 < i" "0 < x"
  shows "4 * nat (i + 1) + b < 4 * nat (x + 1) \<or> 4 * nat (x + 1) + n \<le> 4 * nat (i + 1) + b"
proof -
  have e: "int (4 * nat (y + 1) + c) = 4 * (y + 1) + int c" if "0 < y" for y c using that by simp
  have "int (4 * nat (i + 1) + b) < int (4 * nat (x + 1)) \<or> int (4 * nat (x + 1) + n) \<le> int (4 * nat (i + 1) + b)"
    using assms(1)
  proof
    assume "x + k \<le> i"
    then show ?thesis unfolding e [OF assms(5)] e [OF assms(6)] using assms(4) by simp
  next
    assume "i + m \<le> x"
    then show ?thesis unfolding e [OF assms(5)] e [OF assms(6), of 0, simplified] using assms(3,5,6) by simp
  qed
  then show ?thesis by (simp only: of_nat_less_iff of_nat_le_iff)
qed

lemma heap_byte_word: "array h' (int (k div 4)) = array h (int (k div 4)) \<Longrightarrow> heap_byte h' k = heap_byte h k"
  by (simp add: heap_byte_def)

lemma block_ptr_offset: "0 \<le> i \<Longrightarrow> block_ptr h i = base h + of_nat (4 * nat (i + 1))"
  by (simp add: block_ptr_def)

lemma takens_apart:
  "blocks a i bs \<Longrightarrow> (j, k) \<in> takens i bs \<Longrightarrow> (j', k') \<in> takens i bs \<Longrightarrow> j \<noteq> j' \<Longrightarrow> j + k \<le> j' \<or> j' + k' \<le> j"
proof (induction a i bs rule: blocks.induct)
  case (2 a i n f bs)
  then show ?case
    using takens_range [of a "i + n" bs j k] takens_range [of a "i + n" bs j' k'] by (auto split: if_splits)
qed simp

text \<open>The copy from a block to a new one, when it fits into the new one.\<close>

lemma memcpy_block:
  assumes inv: "heap_inv h bs fl" and t: "(x, k) \<in> takens 0 bs" "(i, m) \<in> takens 0 bs" "0 < i" "0 < x" "x \<noteq> i"
    and n: "uint n \<le> 4 * (k - 2)" "uint n \<le> 4 * m" and l: "len h \<le> INTS"
  defines "h' \<equiv> memcpy (block_ptr h x) (block_ptr h i) n h"
  shows "heap_inv h' bs fl" "\<And>w. w \<notin> {x + 1..<x + k - 1} \<Longrightarrow> array h' w = array h w"
    "base h' = base h" "len h' = len h"
    "\<And>b. b < unat n \<Longrightarrow> int b < 4 * (m - 2) \<Longrightarrow> payload h' x b = payload h i b"
proof -
  have bl: "blocks (array h) 0 bs" and tb: "tot bs = len h" using inv by (simp_all add: heap_inv_def heap_hole_def)
  have r: "x + k \<le> len h" "2 \<le> k" "i + m \<le> len h" "2 \<le> m"
    using takens_range [OF bl t(1)] takens_range [OF bl t(2)] tb by simp_all
  have len: "len h \<le> 1048576" using l by (simp add: INTS_def)
  have un: "int (unat n) = uint n" by simp
  have "uint n < 2 ^ 31" using n(1) r(1) t(4) len by simp
  then have "uint n < 2 ^ 31" "- (2 ^ 31) \<le> uint n" using uint_ge_0 [of n] by linarith+
  then have "sint n = uint n" unfolding sint_uint by (intro signed_take_bit_int_eq_self) simp_all
  then have N: "nat (sint n) = unat n" by (simp only: unat_eq_nat_uint)
  let ?d = "4 * nat (x + 1)" and ?s = "4 * nat (i + 1)"
  have d: "?d + unat n \<le> 4294967296" "?s + unat n \<le> 4294967296" using n r len t(3,4) un by linarith+
  have h': "h' = memcpy_loop (unat n) (base h + of_nat ?d) (base h + of_nat ?s) h"
    unfolding h'_def memcpy_def N using t(3,4) by (simp only: block_ptr_offset less_imp_le)
  show w: "array h' w = array h w" if "w \<notin> {x + 1..<x + k - 1}" for w
    unfolding h'
  proof (rule memcpy_loop_words [OF d(1)])
    have "(?d + unat n + 3) div 4 = nat (x + 1) + (unat n + 3) div 4" by simp
    moreover note bytes_in_words [OF n(1) [unfolded uint_nat]]
    ultimately show "w < int (?d div 4) \<or> int ((?d + unat n + 3) div 4) \<le> w" using that t(4) r(2) by auto
  qed
  show f: "base h' = base h" "len h' = len h" by (simp_all add: h'_def memcpy_def)
  show "heap_inv h' bs fl"
  proof (rule heap_inv_payload [OF inv t(1) _ f])
    show "safe h' = safe h" "heap.avail h' = heap.avail h" by (simp_all add: h'_def memcpy_def)
  qed (rule w, auto)
  show "payload h' x b = payload h i b" if b: "b < unat n" "int b < 4 * (m - 2)" for b
    unfolding h'
  proof (rule memcpy_loop_bytes [OF d b(1)])
    have "x + k \<le> i \<or> i + m \<le> x" by (rule takens_apart [OF bl t(1,2,5)])
    then show "?s + b < ?d \<or> ?d + unat n \<le> ?s + b" using b n(1) [unfolded uint_nat] t(3,4) by (rule bytes_apart)
  qed
qed

lemma memcpy_unsafe: "memcpy d s n (unsafe h) = unsafe (memcpy d s n h)" "heap_byte (unsafe h) = heap_byte h"
proof -
  have b: "heap_byte (unsafe h) = heap_byte h" for h by (simp add: heap_byte_def fun_eq_iff)
  have "heap_store8 d b (unsafe h) = unsafe (heap_store8 d b h)" "heap_load8 (unsafe h) d = heap_load8 h d" for d b h
    by (simp_all add: heap_store8_def heap_load8_def Let_def store_int_def)
  then have "memcpy_loop n d s (unsafe h) = unsafe (memcpy_loop n d s h)" for n
    by (induction n arbitrary: d s h) simp_all
  then show "memcpy d s n (unsafe h) = unsafe (memcpy d s n h)" "heap_byte (unsafe h) = heap_byte h" by (simp_all add: memcpy_def b)
qed

lemma take_block_fields: "take_block it mx ints h = Some h' \<Longrightarrow> base h' = base h \<and> len h' = len h"
  by (auto simp: take_block_def unlink_free_def Let_def setNext_def setPrev_def split: Option.bind_splits if_splits)

lemma user_malloc_fields:
  assumes "heap_inv (unsafe h) bs fl" "user_malloc bytes h = Some (p, h')" "bytes \<noteq> 0"
  shows "base h' = base h" "len h' = len h"
proof -
  have fl: "flist (array h) 0 (heap.avail h) fl" using inv_flist(1) [OF assms(1)] by simp
  have "\<forall>x \<in> set fl. 0 < array h x" using inv_member(1) [OF assms(1)] by force
  note spec = first_loop_spec [OF fl this, of "ints_for bytes"]
  have "h' = h \<or> (\<exists>x. take_block x (array h x) (ints_for bytes) (unsafe h) = Some (unsafe h'))"
    using spec assms(2,3) by (auto simp: user_malloc_def split: list.splits)
  then show "base h' = base h" "len h' = len h" using take_block_fields by force+
qed

lemma user_free_keeps:
  assumes "heap_inv (unsafe h) bs fl" "(i, m) \<in> takens 0 bs" "0 < i" "i + m < len h"
  obtains bs' fl' where "heap_inv (unsafe (user_free (block_ptr h i) h)) bs' fl'" "takens 0 bs' = takens 0 bs - {(i, m)}"
    "\<forall>j l w. (j, l) \<in> takens 0 bs' \<longrightarrow> j \<le> w \<longrightarrow> w < j + l \<longrightarrow> array (user_free (block_ptr h i) h) w = array h w"
proof -
  obtain bs' fl' where F: "heap_inv (unsafe (user_free (block_ptr h i) h)) bs' fl'" "takens 0 bs' = takens 0 bs - {(i, m)}"
      "\<forall>w. w \<notin> free_words 0 bs' \<longrightarrow> array (user_free (block_ptr h i) h) w = array h w"
    using user_heap_correct [OF assms(1), THEN conjunct2, rule_format, of i m] assms(2-) by blast
  have b: "blocks (array (user_free (block_ptr h i) h)) 0 bs'" using F(1) by (simp add: heap_inv_def heap_hole_def)
  show thesis by (rule that [OF F(1,2)]) (use F(3) taken_not_free_word [OF b] in \<open>intro allI impI, blast\<close>)
qed

text \<open>How many bytes \<^verbatim>\<open>realloc\<close> copies from a block of \<open>m\<close> words.\<close>

definition copied :: "int \<Rightarrow> u32 \<Rightarrow> u32" where
  "copied m newSize = (if uint newSize > m * 4 then of_int (m * 4) else newSize)"

lemma copied_bytes:
  assumes "0 \<le> m" "m < 2 ^ 30"
  shows "uint (copied m newSize) = min (uint newSize) (m * 4)"
    "b < unat newSize \<Longrightarrow> int b < 4 * (m - 2) \<Longrightarrow> b < unat (copied m newSize)"
proof -
  have "uint (of_int y :: u32) = y" if "0 \<le> y" "y < 2 ^ 32" for y using that by (simp add: uint_word_of_int)
  from this [of "m * 4"] show u: "uint (copied m newSize) = min (uint newSize) (m * 4)" using assms by (simp add: copied_def)
  show "b < unat newSize \<Longrightarrow> int b < 4 * (m - 2) \<Longrightarrow> b < unat (copied m newSize)"
    using u [unfolded uint_nat] by (rule bytes_copied)
qed

lemma taken_header:
  assumes "heap_inv (unsafe h) bs fl" "(i, m) \<in> takens 0 bs"
  shows "array h i = - m" "2 \<le> m" "blocks (array h) 0 bs"
proof -
  show b: "blocks (array h) 0 bs" using assms(1) by (simp add: heap_inv_def heap_hole_def)
  show "array h i = - m" "2 \<le> m" using takens_split [OF assms(2)] b by (auto simp: blocks_append)
qed

lemma user_realloc_block:
  assumes inv: "heap_inv (unsafe h) bs fl" and t: "(i, m) \<in> takens 0 bs" "0 < i" "i + m < len h" and n: "newSize \<noteq> 0"
  shows "user_realloc (block_ptr h i) newSize h = do {
      (newPtr, h1) \<leftarrow> user_malloc newSize h;
      Some (newPtr, user_free (block_ptr h i) (if newPtr \<noteq> 0 then memcpy newPtr (block_ptr h i) (copied m newSize) h1 else h1)) }"
proof -
  note hd = taken_header [OF inv t(1)]
  have "i + 1 < len (unsafe h)" using t(3) hd(2) by simp
  note p = block_ptr_ok [OF inv t(2) this, unfolded unsafe_commute]
  have "heap_size h i = m" using hd by (simp add: heap_size_def)
  then show ?thesis using p hd t(2,3) n unfolding copied_def by (simp add: user_realloc_def isTaken_def Let_def)
qed

text \<open>
  When the new block was free before, the copy and the release of the old one leave in it the bytes
  of the old one, and in every other block what it held.
\<close>

lemma move_block:
  assumes inv: "heap_inv (unsafe h) bs fl" and t: "(i, m) \<in> takens 0 bs" "0 < i" "i + m < len h" and l: "len h \<le> INTS"
    and h1: "heap_inv (unsafe h1) bs1 fl1" "base h1 = base h" "len h1 = len h" "\<forall>w. w \<notin> free_words 0 bs \<longrightarrow> array h1 w = array h w"
    and x: "takens 0 bs1 = insert (x, k) (takens 0 bs)" "{x..<x + k} \<subseteq> free_words 0 bs" "0 < x" "2 < k" "uint newSize \<le> 4 * (k - 2)"
  defines "h' \<equiv> user_free (block_ptr h i) (memcpy (block_ptr h x) (block_ptr h i) (copied m newSize) h1)"
  obtains bs' fl' where "heap_inv (unsafe h') bs' fl'" "takens 0 bs' = insert (x, k) (takens 0 bs - {(i, m)})"
    "\<forall>j l w. (j, l) \<in> takens 0 bs - {(i, m)} \<longrightarrow> j \<le> w \<longrightarrow> w < j + l \<longrightarrow> array h' w = array h w"
    "\<forall>b. b < unat newSize \<longrightarrow> int b < 4 * (m - 2) \<longrightarrow> payload h' x b = payload h i b"
proof -
  note hd = taken_header [OF inv t(1)]
  have "x \<in> free_words 0 bs" using x(2,4) by auto
  then have xi: "x \<noteq> i" using taken_not_free_word [OF hd(3) t(1), of i] hd(2) by auto
  have "0 \<le> m" "m < 2 ^ 30" using hd(2) t(2,3) l by (simp_all add: INTS_def)
  note c = copied_bytes [OF this, where newSize = newSize]
  have cnt: "uint (copied m newSize) \<le> 4 * (k - 2)" "uint (copied m newSize) \<le> 4 * m" using c(1) x(5) by simp_all
  have t1: "(x, k) \<in> takens 0 bs1" "(i, m) \<in> takens 0 bs1" using x(1) t(1) by simp_all
  have len1: "len (unsafe h1) \<le> INTS" using h1(3) l by simp
  define h2 where "h2 = memcpy (block_ptr h x) (block_ptr h i) (copied m newSize) h1"
  have bp: "block_ptr (unsafe h1) j = block_ptr h j" for j using h1(2) by (simp add: block_ptr_def)
  note C = memcpy_block [OF h1(1) t1 t(2) x(3) xi cnt len1, unfolded bp memcpy_unsafe, folded h2_def]
  have bp2: "block_ptr h2 i = block_ptr h i" "len h2 = len h" using C(3,4) h1(2,3) by (simp_all add: block_ptr_def)
  obtain bs' fl' where F: "heap_inv (unsafe h') bs' fl'" "takens 0 bs' = takens 0 bs1 - {(i, m)}"
      "\<forall>j l w. (j, l) \<in> takens 0 bs' \<longrightarrow> j \<le> w \<longrightarrow> w < j + l \<longrightarrow> array h' w = array h2 w"
    using user_free_keeps [OF C(1) t1(2) t(2), unfolded bp2, OF t(3)] unfolding h'_def h2_def [symmetric] by blast
  have tk: "takens 0 bs' = insert (x, k) (takens 0 bs - {(i, m)})" using F(2) x(1) xi by auto
  show thesis
  proof (rule that [OF F(1) tk]; intro allI impI)
    fix j l w assume j: "(j, l) \<in> takens 0 bs - {(i, m)}" "j \<le> w" "w < j + l"
    have "w \<notin> free_words 0 bs" using taken_not_free_word [OF hd(3) _ j(2,3)] j(1) by blast
    then have "w \<notin> {x + 1..<x + k - 1}" "array h1 w = array h w" using h1(4) x(2) by (auto simp: subset_iff)
    then show "array h' w = array h w" using F(3) [rule_format, OF _ j(2,3)] C(2) [of w] j(1) tk by simp
  next
    fix b assume b: "b < unat newSize" "int b < 4 * (m - 2)"
    have j: "int ((4 * nat (y + 1) + b) div 4) = y + 1 + int b div 4" if "0 < y" for y using that by (simp add: zdiv_int)
    have "int b div 4 < k - 2" by (rule bytes_index [OF b(1) x(5) [unfolded uint_nat]])
    then have "payload h' x b = payload h2 x b"
      using F(3) [rule_format, of x k "x + 1 + int b div 4"] tk by (intro heap_byte_word, unfold j [OF x(3)]) simp
    also have "\<dots> = payload h1 i b" using C(5) c(2) b by blast
    also have "\<dots> = payload h i b"
    proof (rule heap_byte_word)
      have "i + 1 + int b div 4 \<notin> free_words 0 bs" using b(2) by (intro taken_not_free_word [OF hd(3) t(1)]) presburger+
      then show "array h1 (int ((4 * nat (i + 1) + b) div 4)) = array h (int ((4 * nat (i + 1) + b) div 4))"
        using h1(4) unfolding j [OF t(2)] by blast
    qed
    finally show "payload h' x b = payload h i b" .
  qed
qed

section \<open>Properties\<close>

text \<open>
  C23.  \<^verbatim>\<open>realloc\<close> of the user library.  For a block of a well-formed heap and a size from 1 to 0xFFFFFFFC
  (for the three sizes above see \<^verbatim>\<open>realloc_size_wraps\<close>) it returns, the heap is well formed afterwards, the old block is free and what the other blocks hold
  is untouched.  When no free block is large enough the result is null: the old block is given up all
  the same.  Otherwise the result is a new block with room for the size asked for whose bytes are
  those of the old block, as far as both reach.
\<close>

theorem user_realloc_correct:
  assumes inv: "heap_inv (unsafe h) bs fl" and t: "(i, m) \<in> takens 0 bs" "0 < i" "i + m < len h" and l: "len h \<le> INTS"
    and n: "newSize \<noteq> 0" "newSize \<le> 0xFFFFFFFC"
  shows "\<exists>p h' bs' fl'. user_realloc (block_ptr h i) newSize h = Some (p, h') \<and> heap_inv (unsafe h') bs' fl' \<and>
    (\<forall>j k w. (j, k) \<in> takens 0 bs - {(i, m)} \<longrightarrow> j \<le> w \<longrightarrow> w < j + k \<longrightarrow> array h' w = array h w) \<and>
    (case filter (\<lambda>x. ints_for newSize \<le> array h x) fl of
       [] \<Rightarrow> p = 0 \<and> takens 0 bs' = takens 0 bs - {(i, m)}
     | x # _ \<Rightarrow> p = block_ptr h x \<and> p \<noteq> 0 \<and>
         (\<exists>k. takens 0 bs' = insert (x, k) (takens 0 bs - {(i, m)}) \<and> uint newSize \<le> 4 * (k - 2) \<and>
            (\<forall>b. b < unat newSize \<longrightarrow> int b < 4 * (m - 2) \<longrightarrow> payload h' x b = payload h i b)))"
proof (cases "filter (\<lambda>x. ints_for newSize \<le> array h x) fl")
  note M = user_heap_correct [OF inv, THEN conjunct1, rule_format, OF conjI, OF n]
  note run = user_realloc_block [OF inv t n(1)]
  {
    case Nil
    then have "user_malloc newSize h = Some (0, h)" using M by auto
    then have r: "user_realloc (block_ptr h i) newSize h = Some (0, user_free (block_ptr h i) h)" using run by simp
    obtain bs' fl' where "heap_inv (unsafe (user_free (block_ptr h i) h)) bs' fl'" "takens 0 bs' = takens 0 bs - {(i, m)}"
        "\<forall>j l w. (j, l) \<in> takens 0 bs' \<longrightarrow> j \<le> w \<longrightarrow> w < j + l \<longrightarrow> array (user_free (block_ptr h i) h) w = array h w"
      by (rule user_free_keeps [OF inv t])
    then show ?thesis using r Nil by auto
  next
    case (Cons x xs)
    then obtain h1 bs1 fl1 k where A: "user_malloc newSize h = Some (block_ptr h x, h1)" "heap_inv (unsafe h1) bs1 fl1"
        "\<forall>w. w \<notin> free_words 0 bs \<longrightarrow> array h1 w = array h w" "block_ptr h x \<noteq> 0"
        "takens 0 bs1 = insert (x, k) (takens 0 bs)" "{x..<x + k} \<subseteq> free_words 0 bs" "uint newSize \<le> 4 * (k - 2)"
      using M by auto
    have x: "0 < x" using filter_eq_ConsD [OF Cons] by (intro inv_member(2) [OF inv]) auto
    have "0 < uint newSize" using n(1) by (simp add: word_neq_0_conv word_less_def)
    then have "0 < 4 * (k - 2)" using A(7) by (rule less_le_trans)
    then have k: "2 < k" by simp
    let ?h = "user_free (block_ptr h i) (memcpy (block_ptr h x) (block_ptr h i) (copied m newSize) h1)"
    obtain bs' fl' where R: "heap_inv (unsafe ?h) bs' fl'" "takens 0 bs' = insert (x, k) (takens 0 bs - {(i, m)})"
        "\<forall>j l w. (j, l) \<in> takens 0 bs - {(i, m)} \<longrightarrow> j \<le> w \<longrightarrow> w < j + l \<longrightarrow> array ?h w = array h w"
        "\<forall>b. b < unat newSize \<longrightarrow> int b < 4 * (m - 2) \<longrightarrow> payload ?h x b = payload h i b"
      by (rule move_block [OF inv t l A(2) user_malloc_fields [OF inv A(1) n(1)] A(3,5,6) x k A(7)])
    have "user_realloc (block_ptr h i) newSize h = Some (block_ptr h x, ?h)" using run A(1,4) by simp
    then show ?thesis using R A(4,7) Cons by auto
  }
qed

text \<open>The four words of the second block of the small heap of \<open>Heap_Alloc\<close> grow to ten bytes.\<close>

lemma user_realloc_correct_witness:
  "\<exists>h' bs' fl'. user_realloc (block_ptr ex_heap2 2) 10 ex_heap2 = Some (block_ptr ex_heap2 6, h') \<and> heap_inv (unsafe h') bs' fl' \<and>
    (\<forall>b < 8. payload h' 6 b = payload ex_heap2 2 b)"
proof -
  have inv: "heap_inv (unsafe ex_heap2) [(2, False), (4, False), (248, True), (2, False)] [6]"
    using ex_heap2_inv by (simp add: heap_inv_def heap_hole_def)
  have "array ex_heap2 6 = 248" using inv by (simp add: heap_inv_def heap_hole_def)
  then have f: "filter (\<lambda>x. ints_for 10 \<le> array ex_heap2 x) [6] = [6]" by (simp add: ints_for_def)
  obtain p h' bs' fl' where "user_realloc (block_ptr ex_heap2 2) 10 ex_heap2 = Some (p, h')" "heap_inv (unsafe h') bs' fl'"
      "p = block_ptr ex_heap2 6" "\<forall>b. b < unat (10 :: u32) \<longrightarrow> int b < 4 * (4 - 2) \<longrightarrow> payload h' 6 b = payload ex_heap2 2 b"
    using user_realloc_correct [OF inv, of 2 4 10] unfolding f by (auto simp: ex_heap_base INTS_def)
  then show ?thesis by (intro exI [of _ h'] exI [of _ bs'] exI [of _ fl']) auto
qed

text \<open>
  The bound on the size is needed.  For the three sizes above it the number of words wraps around, so
  \<^verbatim>\<open>malloc\<close> gives a block of four words, and the whole old block, its tags included, is copied there: it
  runs over the header of the next block.  After it the small heap is not well formed any more.
\<close>

lemma realloc_size_wraps:
  "\<exists>h'. user_realloc (block_ptr ex_heap2 2) 0xFFFFFFFF ex_heap2 = Some (block_ptr ex_heap2 6, h') \<and> (\<nexists>bs fl. heap_inv (unsafe h') bs fl)"
proof -
  define h1 where "h1 = makeAvail 10 244 (makeTaken 6 4 (user_remove 6 ex_heap2))"
  have inv2: "heap_inv (unsafe ex_heap2) [(2, False), (4, False), (248, True), (2, False)] [6]"
    using ex_heap2_inv by (simp add: heap_inv_def heap_hole_def)
  have a: "heap.avail ex_heap2 = 6" "array ex_heap2 6 = 248" "ints_for 0xFFFFFFFF = 4"
    by code_simp+
  then have "user_malloc 0xFFFFFFFF ex_heap2 = Some (block_ptr ex_heap2 6, h1)"
    unfolding user_malloc_def by (subst first_loop.simps) (auto simp: h1_def heap_size_def)
  then have r: "user_realloc (block_ptr ex_heap2 2) 0xFFFFFFFF ex_heap2 =
      Some (block_ptr ex_heap2 6, user_free (block_ptr ex_heap2 2) (memcpy (block_ptr ex_heap2 6) (block_ptr ex_heap2 2) 16 h1))" (is "_ = Some (_, ?h)")
    using user_realloc_block [OF inv2, of 2 4 "0xFFFFFFFF"] by (simp add: ex_heap_base copied_def block_ptr_def)
  have h: "heap.avail ?h = 2" "array ?h 3 = 10" "array ?h 10 = - 4" unfolding h1_def by code_simp+
  have False if inv: "heap_inv (unsafe ?h) bs fl" for bs fl
  proof -
    have "flist (array ?h) 0 2 fl" using inv_flist(1) [OF inv] h(1) by simp
    then have "10 \<in> set fl" using h(2) by (cases fl; cases "tl fl") auto
    then have "4 \<le> array ?h 10" using inv_member(1) [OF inv, of 10] by simp
    then show False using h(3) by simp
  qed
  then show ?thesis using r by blast
qed
text \<open>The pointer \<^verbatim>\<open>malloc(0)\<close> gives is not one \<^verbatim>\<open>realloc\<close> can take: it looks for a tag before the array.\<close>

lemma realloc_of_empty: "base h \<noteq> 0 \<Longrightarrow> newSize \<noteq> 0 \<Longrightarrow> user_malloc 0 h = Some (base h, h) \<and> user_realloc (base h) newSize h = None"
  by (simp add: user_malloc_def user_realloc_def block_idx_def)

end
