(* ===== verification/Smp_Boot.thy ===== *)
theory Smp_Boot
  imports Kernel_Prelude
begin

text \<open>
  How the processors come up (\<^verbatim>\<open>kernel/init.cc\<close>, \<^verbatim>\<open>kernelInit\<close>).  The first one prepares the machine, then
  starts the others one by one, waiting until each has counted itself in \<^verbatim>\<open>SMP::running\<close>; every processor
  initialises itself and counts itself in \<^verbatim>\<open>howManyAreHere\<close>, and the last one to do so runs
  \<^verbatim>\<open>kernelMain\<close>.  A step is one atomic access by one processor, or one interrupt sent to another; what a
  processor does between two of them is its own and is left out.  A wait is a step that is not possible
  yet.
\<close>

section \<open>The steps\<close>

text \<open>
  Where a processor is: not started, before \<^verbatim>\<open>SMP::running.fetch_add(1)\<close> of the first branch, at the test
  of the loop, in the inner \<^verbatim>\<open>while\<close>, before the \<^verbatim>\<open>fetch_add\<close> of the other branch, before
  \<^verbatim>\<open>howManyAreHere.add_fetch(1)\<close>, holding its result, in \<^verbatim>\<open>kernelMain\<close>, in \<^verbatim>\<open>event_loop\<close>.
\<close>

datatype cpu = Off | First | Starting u32 | Sent u32 | Awake | Arriving | Ordered u32 | InMain | InLoop

record boot =
  running :: u32
  howManyAreHere :: u32
  core :: "nat \<Rightarrow> cpu"

definition boot_start :: boot where
  "boot_start = \<lparr>running = 0, howManyAreHere = 0, core = (\<lambda>_. Off)(0 := First)\<rparr>"

abbreviation set_core :: "boot \<Rightarrow> nat \<Rightarrow> cpu \<Rightarrow> boot" where
  "set_core s c x \<equiv> s\<lparr>core := (core s)(c := x)\<rparr>"

inductive boot_step :: "u32 \<Rightarrow> boot \<Rightarrow> boot \<Rightarrow> bool" for totalProcs where
  count_first: "core s c = First \<Longrightarrow> boot_step totalProcs s (set_core (s\<lparr>running := running s + 1\<rparr>) c (Starting 1))"
| send: "core s c = Starting i \<Longrightarrow> i < totalProcs \<Longrightarrow> boot_step totalProcs s (set_core (set_core s c (Sent i)) (unat i) Awake)"
| next_id: "core s c = Sent i \<Longrightarrow> \<not> running s \<le> i \<Longrightarrow> boot_step totalProcs s (set_core s c (Starting (i + 1)))"
| loop_done: "core s c = Starting i \<Longrightarrow> \<not> i < totalProcs \<Longrightarrow> boot_step totalProcs s (set_core s c Arriving)"
| count_other: "core s c = Awake \<Longrightarrow> boot_step totalProcs s (set_core (s\<lparr>running := running s + 1\<rparr>) c Arriving)"
| arrive: "core s c = Arriving \<Longrightarrow>
    boot_step totalProcs s (set_core (s\<lparr>howManyAreHere := howManyAreHere s + 1\<rparr>) c (Ordered (howManyAreHere s + 1)))"
| main: "core s c = Ordered n \<Longrightarrow> n = totalProcs \<Longrightarrow> boot_step totalProcs s (set_core s c InMain)"
| loop: "core s c = Ordered n \<Longrightarrow> n \<noteq> totalProcs \<Longrightarrow> boot_step totalProcs s (set_core s c InLoop)"

inductive booting :: "u32 \<Rightarrow> boot \<Rightarrow> bool" for totalProcs where
  init: "booting totalProcs boot_start"
| step: "booting totalProcs s \<Longrightarrow> boot_step totalProcs s s' \<Longrightarrow> booting totalProcs s'"

section \<open>The invariant\<close>

fun arrived :: "cpu \<Rightarrow> bool" where
  "arrived (Ordered n) = True" | "arrived InMain = True" | "arrived InLoop = True" | "arrived _ = False"

fun early :: "cpu \<Rightarrow> bool" where
  "early First = True" | "early (Starting i) = True" | "early (Sent i) = True" | "early _ = False"

text \<open>How many processors have been started, as the first one sees it.\<close>

fun started :: "nat \<Rightarrow> cpu \<Rightarrow> nat" where
  "started n First = 1" | "started n (Starting i) = unat i" | "started n (Sent i) = unat i + 1" | "started n _ = n"

fun waiting_for :: "cpu \<Rightarrow> nat option" where
  "waiting_for (Sent i) = Some (unat i)" | "waiting_for _ = None"

text \<open>The processors that are done, or will be done, with the test whether they are the last.\<close>

definition last_one :: "u32 \<Rightarrow> cpu \<Rightarrow> bool" where
  "last_one procs x \<longleftrightarrow> x = Ordered procs \<or> x = InMain"

definition boot_inv :: "u32 \<Rightarrow> boot \<Rightarrow> bool" where
  "boot_inv procs s \<longleftrightarrow> (let n = unat procs; k = started n (core s 0) in
     core s 0 \<notin> {Off, Awake} \<and> 1 \<le> k \<and> k \<le> n \<and>
     (\<forall>c > 0. \<not> early (core s c)) \<and>
     (\<forall>c. core s c = Off \<longleftrightarrow> k \<le> c) \<and>
     (\<forall>c. core s c = Awake \<longrightarrow> waiting_for (core s 0) = Some c) \<and>
     unat (running s) = card {c. core s c \<notin> {Off, First, Awake}} \<and>
     unat (howManyAreHere s) = card {c. arrived (core s c)} \<and>
     (\<forall>c m. core s c = Ordered m \<longrightarrow> unat m \<le> unat (howManyAreHere s)) \<and>
     card {c. last_one procs (core s c)} = (if unat (howManyAreHere s) = n then 1 else 0))"

lemma card_update:
  assumes "finite {c. P (f c)}"
  shows "card {d. P ((f(c := y)) d)} = (card {d. P (f d)} - (if P (f c) then 1 else 0)) + (if P y then 1 else 0)"
proof -
  have e: "{d. P ((f(c := y)) d)} = ({d. P (f d)} - {c}) \<union> (if P y then {c} else {})" by auto
  have "card ({d. P (f d)} - {c}) = card {d. P (f d)} - (if P (f c) then 1 else 0)"
    using assms by (simp add: card_Diff_singleton_if)
  moreover have "card (({d. P (f d)} - {c}) \<union> {c}) = Suc (card ({d. P (f d)} - {c}))"
    unfolding Un_insert_right Un_empty_right using assms by (intro card_insert_disjoint) auto
  ultimately show ?thesis unfolding e by simp
qed

lemma boot_invD:
  assumes "boot_inv procs s"
  shows "core s 0 \<notin> {Off, Awake}" "1 \<le> started (unat procs) (core s 0)" "started (unat procs) (core s 0) \<le> unat procs"
    "c > 0 \<Longrightarrow> \<not> early (core s c)" "core s c = Off \<longleftrightarrow> started (unat procs) (core s 0) \<le> c"
    "core s c = Awake \<Longrightarrow> waiting_for (core s 0) = Some c"
    "unat (running s) = card {c. core s c \<notin> {Off, First, Awake}}" "unat (howManyAreHere s) = card {c. arrived (core s c)}"
    "core s c = Ordered m \<Longrightarrow> unat m \<le> unat (howManyAreHere s)"
    "card {c. last_one procs (core s c)} = (if unat (howManyAreHere s) = unat procs then 1 else 0)"
  using assms unfolding boot_inv_def Let_def by blast+

text \<open>Only processors below the number take part.\<close>

lemma boot_cores:
  assumes "boot_inv procs s" "\<not> P Off"
  shows "finite {c. P (core s c)}" "card {c. P (core s c)} \<le> unat procs" "P (core s c) \<Longrightarrow> c < unat procs"
proof -
  have sub: "{c. P (core s c)} \<subseteq> {..<unat procs}"
    using boot_invD(3) [OF assms(1)] boot_invD(5) [OF assms(1)] assms(2)
    by (auto simp: not_le [symmetric]) (metis le_trans)
  then show "finite {c. P (core s c)}" by (rule finite_subset) simp
  from sub have "card {c. P (core s c)} \<le> card {..<unat procs}" by (intro card_mono) simp_all
  then show "card {c. P (core s c)} \<le> unat procs" by simp
  show "P (core s c) \<Longrightarrow> c < unat procs" using sub by auto
qed

lemma boot_inv_start: "1 \<le> unat procs \<Longrightarrow> boot_inv procs boot_start"
  by (auto simp: boot_inv_def boot_start_def Let_def last_one_def)

text \<open>The three counts after processor \<open>c\<close> has gone on to \<open>y\<close>.\<close>

abbreviation counted :: "cpu \<Rightarrow> bool" where
  "counted x \<equiv> x \<notin> {Off, First, Awake}"

lemma boot_counts:
  assumes "boot_inv procs s"
  shows "card {d. counted (((core s)(c := y)) d)} + of_bool (counted (core s c)) = unat (running s) + of_bool (counted y)"
    "card {d. arrived (((core s)(c := y)) d)} + of_bool (arrived (core s c)) = unat (howManyAreHere s) + of_bool (arrived y)"
    "card {d. last_one procs (((core s)(c := y)) d)} + of_bool (last_one procs (core s c)) =
      of_bool (unat (howManyAreHere s) = unat procs) + of_bool (last_one procs y)"
proof -
  have *: "card {d. P (((core s)(c := y)) d)} + of_bool (P (core s c)) = card {d. P (core s d)} + of_bool (P y)" if "\<not> P Off" for P
  proof -
    have f: "finite {d. P (core s d)}" using boot_cores(1) [OF assms, of P] that by simp
    have "0 < card {d. P (core s d)}" if "P (core s c)" using f that by (auto simp: card_gt_0_iff)
    then show ?thesis using card_update [where P = P and f = "core s" and c = c and y = y] f by auto
  qed
  show "card {d. counted (((core s)(c := y)) d)} + of_bool (counted (core s c)) = unat (running s) + of_bool (counted y)"
    "card {d. arrived (((core s)(c := y)) d)} + of_bool (arrived (core s c)) = unat (howManyAreHere s) + of_bool (arrived y)"
    using * [of counted] * [of arrived] boot_invD(7,8) [OF assms] by simp_all
  show "card {d. last_one procs (((core s)(c := y)) d)} + of_bool (last_one procs (core s c)) =
      of_bool (unat (howManyAreHere s) = unat procs) + of_bool (last_one procs y)"
    using * [of "last_one procs"] boot_invD(10) [OF assms] by (simp add: last_one_def)
qed

lemma boot_no_wrap:
  assumes "boot_inv procs s" "unat procs \<le> 16"
  shows "unat (running s + 1) = unat (running s) + 1" "unat (howManyAreHere s + 1) = unat (howManyAreHere s) + 1"
proof -
  have "unat (running s) \<le> 16" "unat (howManyAreHere s) \<le> 16"
    using boot_cores(2) [OF assms(1), of counted] boot_cores(2) [OF assms(1), of arrived] boot_invD(7,8) [OF assms(1)] assms(2) by simp_all
  then show "unat (running s + 1) = unat (running s) + 1" "unat (howManyAreHere s + 1) = unat (howManyAreHere s) + 1"
    by (subst unat_add_no_wrap; simp)+
qed

text \<open>One processor goes on: what has to be checked.\<close>

lemma boot_inv_update:
  assumes inv: "boot_inv procs s" and s': "core s' = (core s)(c := y)" and xy: "core s c \<noteq> Off" "y \<notin> {Off, Awake}"
    and zero: "c = 0 \<Longrightarrow> started (unat procs) y = started (unat procs) (core s 0)"
      "c = 0 \<Longrightarrow> waiting_for y = waiting_for (core s 0) \<or> (\<forall>d. core s d \<noteq> Awake)" "c > 0 \<Longrightarrow> \<not> early y"
    and cnt: "unat (running s') + of_bool (counted (core s c)) = unat (running s) + of_bool (counted y)"
      "unat (howManyAreHere s') + of_bool (arrived (core s c)) = unat (howManyAreHere s) + of_bool (arrived y)"
    and ord: "\<And>m. y = Ordered m \<Longrightarrow> unat m \<le> unat (howManyAreHere s')" "unat (howManyAreHere s) \<le> unat (howManyAreHere s')"
      "of_bool (unat (howManyAreHere s') = unat procs) + of_bool (last_one procs (core s c)) =
       of_bool (unat (howManyAreHere s) = unat procs) + (of_bool (last_one procs y) :: nat)"
  shows "boot_inv procs s'"
proof -
  note D = boot_invD [OF inv] and U = boot_counts [OF inv, of c y, folded s']
  have st: "started (unat procs) (core s' 0) = started (unat procs) (core s 0)" using zero(1) by (simp add: s')
  have 1: "core s' d = Off \<longleftrightarrow> core s d = Off" for d using xy by (simp add: s')
  have 2: "core s' 0 \<notin> {Off, Awake}" "\<forall>d > 0. \<not> early (core s' d)" using D(1,4) xy zero(3) by (simp_all add: s')
  have 3: "\<forall>d. core s' d = Awake \<longrightarrow> waiting_for (core s' 0) = Some d" using D(6) zero(2) xy(2) by (auto simp: s')
  have 4: "unat (running s') = card {d. counted (core s' d)}" "unat (howManyAreHere s') = card {d. arrived (core s' d)}"
    using U(1,2) cnt by simp_all
  have 5: "\<forall>d m. core s' d = Ordered m \<longrightarrow> unat m \<le> unat (howManyAreHere s')" using D(9) ord(1,2) by (auto simp: s' intro: order.trans)
  have 6: "card {d. last_one procs (core s' d)} = (if unat (howManyAreHere s') = unat procs then 1 else 0)"
    using U(3) ord(3) by (cases "unat (howManyAreHere s') = unat procs") simp_all
  show ?thesis unfolding boot_inv_def Let_def st 1 using D(2,3,5) 2 3 4 5 6 by blast
qed

lemma boot_inv_send:
  assumes inv: "boot_inv procs s" and i: "core s 0 = Starting i" "i < procs"
  shows "boot_inv procs (set_core (set_core s 0 (Sent i)) (unat i) Awake)" (is "boot_inv procs ?s")
proof -
  note D = boot_invD [OF inv]
  have i0: "0 < unat i" "unat i < unat procs" using D(2) i by (simp_all add: word_less_unat)
  have off: "core s (unat i) = Off" using D(5) [of "unat i"] i(1) by simp
  have cnt: "counted (core ?s d) = counted (core s d)" "arrived (core ?s d) = arrived (core s d)"
      "last_one procs (core ?s d) = last_one procs (core s d)" "core ?s d = Ordered m \<longleftrightarrow> core s d = Ordered m" for d m
    using off i(1) i0 by (auto simp: last_one_def)
  have 1: "\<forall>d > 0. \<not> early (core ?s d)" using D(4) by simp
  have 2: "core ?s d = Off \<longleftrightarrow> unat i + 1 \<le> d" for d using D(5) [of d] i(1) i0 by auto
  have 3: "\<forall>d. core ?s d = Awake \<longrightarrow> waiting_for (core ?s 0) = Some d" using D(6) i0 i(1) by auto
  have 4: "core ?s 0 = Sent i" "running ?s = running s" "howManyAreHere ?s = howManyAreHere s" using i0 by simp_all
  show ?thesis
    unfolding boot_inv_def Let_def cnt 4(2,3) using D(7-10) i0 1 2 3 unfolding 4(1) by simp
qed

text \<open>When the first processor goes on to the next one, all it has started have counted themselves.\<close>

lemma all_awake:
  assumes inv: "boot_inv procs s" and i: "core s 0 = Sent i" "\<not> running s \<le> i"
  shows "core s d \<noteq> Awake"
proof -
  note D = boot_invD [OF inv]
  have "c < unat i + 1" if "counted (core s c)" for c using D(5) [of c] i(1) that by (cases "unat i + 1 \<le> c") auto
  then have "{c. counted (core s c)} \<subseteq> {..<unat i + 1}" by blast
  moreover have "card {..<unat i + 1} \<le> card {c. counted (core s c)}" using D(7) i(2) by (simp add: word_le_unat)
  ultimately have "{c. counted (core s c)} = {..<unat i + 1}" by (intro card_seteq) simp_all
  then have "d < unat i + 1 \<Longrightarrow> counted (core s d)" by blast
  then show ?thesis using D(5) [of d] i(1) by (cases "d < unat i + 1") auto
qed

lemma not_all_here:
  assumes inv: "boot_inv procs s" and c: "\<not> arrived (core s c)" "core s c \<noteq> Off"
  shows "unat (howManyAreHere s) < unat procs"
proof -
  have "c < unat procs" using boot_cores(3) [OF inv, of "\<lambda>x. x \<noteq> Off"] c(2) by simp
  moreover have "{d. arrived (core s d)} \<subseteq> {..<unat procs} - {c}" using boot_cores(3) [OF inv, of arrived] c(1) by auto
  then have "card {d. arrived (core s d)} \<le> card ({..<unat procs} - {c})" by (intro card_mono) simp_all
  ultimately show ?thesis using boot_invD(8) [OF inv] by simp
qed

lemma boot_inv_step:
  assumes "boot_step procs s s'" "boot_inv procs s" "unat procs \<le> 16"
  shows "boot_inv procs s'"
  using assms
proof (induction rule: boot_step.induct)
  case (count_first s c)
  have "c = 0" using boot_invD(4) [OF count_first(2), of c] count_first(1) by (cases c) auto
  then show ?case using count_first boot_no_wrap [OF count_first(2,3)]
    by (intro boot_inv_update [OF count_first(2), of _ c "Starting 1"]) (simp_all add: last_one_def)
next
  case (send s c i)
  have "c = 0" using boot_invD(4) [OF send(3), of c] send(1) by (cases c) auto
  then show ?case using boot_inv_send [OF send(3)] send(1,2) by simp
next
  case (next_id s c i)
  have c: "c = 0" using boot_invD(4) [OF next_id(3), of c] next_id(1) by (cases c) auto
  then have "unat i < 16" using boot_invD(3) [OF next_id(3)] next_id(1,4) by simp
  then have "unat (i + 1) = unat i + 1" by (subst unat_add_no_wrap) simp_all
  then show ?case using next_id(1,2) c all_awake [OF next_id(3)]
    by (intro boot_inv_update [OF next_id(3), of _ c "Starting (i + 1)"]) (simp_all add: last_one_def)
next
  case (loop_done s c i)
  have c: "c = 0" using boot_invD(4) [OF loop_done(3), of c] loop_done(1) by (cases c) auto
  then have "unat i = unat procs" using boot_invD(3) [OF loop_done(3)] loop_done(1,2) by (simp add: word_less_unat)
  then show ?case using loop_done(1) c
    by (intro boot_inv_update [OF loop_done(3), of _ c Arriving]) (simp_all add: last_one_def)
next
  case (count_other s c)
  have "c \<noteq> 0" using boot_invD(1) [OF count_other(2)] count_other(1) by (cases c) auto
  then show ?case using count_other(1) boot_no_wrap [OF count_other(2,3)]
    by (intro boot_inv_update [OF count_other(2), of _ c Arriving]) (simp_all add: last_one_def)
next
  case (arrive s c)
  note w = boot_no_wrap [OF arrive(2,3)]
  have "unat (howManyAreHere s) < unat procs" using arrive(1) by (intro not_all_here [OF arrive(2), of c]) simp_all
  moreover have "howManyAreHere s + 1 = procs \<longleftrightarrow> unat (howManyAreHere s) + 1 = unat procs" using w by (simp add: word_unat_eq_iff)
  ultimately show ?case using arrive(1) w
    by (intro boot_inv_update [OF arrive(2), of _ c "Ordered (howManyAreHere s + 1)"]) (simp_all add: last_one_def)
next
  case (main s c n)
  then show ?case by (intro boot_inv_update [OF main(3), of _ c InMain]) (auto simp: last_one_def)
next
  case (loop s c n)
  then show ?case by (intro boot_inv_update [OF loop(3), of _ c InLoop]) (auto simp: last_one_def)
qed

lemma booting_inv: "booting procs s \<Longrightarrow> 1 \<le> unat procs \<Longrightarrow> unat procs \<le> 16 \<Longrightarrow> boot_inv procs s"
  by (induction rule: booting.induct) (simp_all add: boot_inv_start boot_inv_step)

section \<open>Every boot ends\<close>

fun weight0 :: "nat \<Rightarrow> cpu \<Rightarrow> nat" where
  "weight0 n First = 3 * n + 6" | "weight0 n (Starting i) = 3 * (n - unat i) + 4" | "weight0 n (Sent i) = 3 * (n - unat i) + 2"
| "weight0 n Off = 4" | "weight0 n Awake = 3" | "weight0 n Arriving = 2" | "weight0 n (Ordered m) = 1"
| "weight0 n InMain = 0" | "weight0 n InLoop = 0"

definition work_left :: "u32 \<Rightarrow> boot \<Rightarrow> nat" where
  "work_left procs s = (\<Sum>c < unat procs. weight0 (unat procs) (core s c))"

lemma work_update:
  assumes "core s' = (core s)(c := y)" "c < unat procs" "weight0 (unat procs) y < weight0 (unat procs) (core s c)"
  shows "work_left procs s' < work_left procs s"
  unfolding work_left_def assms(1) using assms(2,3) by (intro sum_strict_mono_ex1) auto

lemma boot_step_work:
  assumes "boot_step procs s s'" "boot_inv procs s" "unat procs \<le> 16"
  shows "work_left procs s' < work_left procs s"
proof -
  note D = boot_invD [OF assms(2)]
  have lt: "c < unat procs" if "core s c \<noteq> Off" for c using boot_cores(3) [OF assms(2), of "\<lambda>x. x \<noteq> Off"] that by simp
  have c0: "c = 0" if "early (core s c)" for c using D(4) [of c] that by (cases c) auto
  show ?thesis
    using assms(1)
  proof cases
    case (count_first c)
    then show ?thesis using lt [of c] by (intro work_update [of _ _ c "Starting 1"]) auto
  next
    case (send c i)
    have c: "c = 0" using c0 [of c] send(2) by simp
    have i: "0 < unat i" "core s (unat i) = Off" "unat i < unat procs"
      using D(2) D(5) [of "unat i"] send(2,3) c by (simp_all add: word_less_unat)
    have "work_left procs s' < work_left procs (set_core s 0 (Sent i))"
      using send(1) c i by (intro work_update [of _ _ "unat i" Awake]) simp_all
    also have "\<dots> < work_left procs s" using send(2) c lt [of 0] by (intro work_update [of _ _ 0 "Sent i"]) simp_all
    finally show ?thesis .
  next
    case (next_id c i)
    have c: "c = 0" using c0 [of c] next_id(2) by simp
    then have i: "unat i < unat procs" using D(3) next_id(2) by simp
    then have "unat (i + 1) = unat i + 1" using assms(3) by (subst unat_add_no_wrap) simp_all
    then show ?thesis using next_id(1,2) i lt [of c] by (intro work_update [of _ _ c "Starting (i + 1)"]) simp_all
  next
    case (loop_done c i)
    then show ?thesis using lt [of c] by (intro work_update [of _ _ c Arriving]) simp_all
  next
    case (count_other c)
    then show ?thesis using lt [of c] by (intro work_update [of _ _ c Arriving]) simp_all
  next
    case (arrive c)
    then show ?thesis using lt [of c] by (intro work_update [of _ _ c "Ordered (howManyAreHere s + 1)"]) simp_all
  next
    case (main c n)
    then show ?thesis using lt [of c] by (intro work_update [of _ _ c InMain]) simp_all
  next
    case (loop c n)
    then show ?thesis using lt [of c] by (intro work_update [of _ _ c InLoop]) simp_all
  qed
qed

section \<open>The last one\<close>

lemma all_here:
  assumes inv: "boot_inv procs s" and h: "unat (howManyAreHere s) = unat procs" and d: "d < unat procs"
  shows "arrived (core s d)" "unat (running s) = unat procs"
proof -
  have "{c. arrived (core s c)} \<subseteq> {..<unat procs}" using boot_cores(3) [OF inv, of arrived] by auto
  moreover have "card {..<unat procs} \<le> card {c. arrived (core s c)}" using boot_invD(8) [OF inv] h by simp
  ultimately have eq: "{c. arrived (core s c)} = {..<unat procs}" by (intro card_seteq) simp_all
  then show "arrived (core s d)" using d by blast
  have "{c. arrived (core s c)} \<subseteq> {c. counted (core s c)}" by auto
  then have "{c. counted (core s c)} = {..<unat procs}" using boot_cores(3) [OF inv, of counted] eq by auto
  then show "unat (running s) = unat procs" using boot_invD(7) [OF inv] by simp
qed

lemma main_is_last:
  assumes inv: "boot_inv procs s" and m: "core s c = InMain"
  shows "unat (howManyAreHere s) = unat procs" "core s d = InMain \<Longrightarrow> d = c"
proof -
  let ?L = "{c. last_one procs (core s c)}"
  have f: "finite ?L" using boot_cores(1) [OF inv, of "last_one procs"] by (simp add: last_one_def)
  have c: "c \<in> ?L" using m by (simp add: last_one_def)
  then have "card ?L \<noteq> 0" using f by auto
  then show h: "unat (howManyAreHere s) = unat procs" using boot_invD(10) [OF inv] by (auto split: if_splits)
  then have "card ?L = 1" using boot_invD(10) [OF inv] by simp
  then obtain x where "?L = {x}" by (rule card_1_singletonE)
  then show "core s d = InMain \<Longrightarrow> d = c" using c by (auto simp: last_one_def)
qed

text \<open>A state with no step: nobody waits.\<close>

lemma stuck_core:
  assumes "\<nexists>s'. boot_step procs s s'"
  shows "core s c \<in> {Off, InMain, InLoop} \<or> (\<exists>i. core s c = Sent i \<and> running s \<le> i)"
proof (cases "core s c")
  case (Starting i)
  then show ?thesis using assms by (cases "i < procs") (blast intro: boot_step.intros)+
next
  case (Ordered m)
  then show ?thesis using assms by (cases "m = procs") (blast intro: boot_step.intros)+
next
  case (Sent i)
  then show ?thesis using assms by (cases "running s \<le> i") (blast intro: boot_step.intros)+
qed (use assms in \<open>blast intro: boot_step.intros\<close>)+

lemma stuck_done:
  assumes inv: "boot_inv procs s" and st: "\<nexists>s'. boot_step procs s s'"
  shows "d < unat procs \<Longrightarrow> core s d \<in> {InMain, InLoop}"
proof -
  note D = boot_invD [OF inv]
  have "core s 0 \<in> {InMain, InLoop}"
  proof (rule ccontr)
    assume "core s 0 \<notin> {InMain, InLoop}"
    then obtain i where i: "core s 0 = Sent i" "running s \<le> i" using stuck_core [OF st, of 0] D(1) by auto
    have "counted (core s c)" if "c < unat i + 1" for c
      using stuck_core [OF st, of c] D(5) [of c] i(1) that by auto
    then have "{..<unat i + 1} \<subseteq> {c. counted (core s c)}" by auto
    then have "card {..<unat i + 1} \<le> card {c. counted (core s c)}" by (rule card_mono [OF boot_cores(1) [OF inv, of counted], rotated]) simp
    then show False using D(7) i(2) by (simp add: word_le_unat)
  qed
  then have "started (unat procs) (core s 0) = unat procs" by auto
  moreover assume "d < unat procs"
  ultimately have "core s d \<noteq> Off" using D(5) [of d] by simp
  then show ?thesis using stuck_core [OF st, of d] D(4) [of d] \<open>core s 0 \<in> {InMain, InLoop}\<close> by (cases d) auto
qed

lemma boots_end:
  assumes "1 \<le> unat procs" "unat procs \<le> 16" "f 0 = boot_start" "\<forall>n. boot_step procs (f n) (f (Suc n))"
  shows False
proof -
  have "booting procs (f n)" for n by (induction n) (use assms(3,4) in \<open>auto intro: booting.intros\<close>)
  then have "work_left procs (f (Suc n)) < work_left procs (f n)" for n
    using boot_step_work [OF _ booting_inv [OF _ assms(1,2)] assms(2)] assms(4) by blast
  then show False using wf_no_infinite_down_chainE [OF wf_less, of "\<lambda>n. work_left procs (f n)"] by auto
qed

section \<open>Properties\<close>

text \<open>
  C26.  With one to sixteen processors, \<^verbatim>\<open>kernelMain\<close> runs exactly once.  In every state of a boot, a
  processor that is in \<^verbatim>\<open>kernelMain\<close> is the only one there, and every processor has arrived before it:
  started, counted in both counters and past its own initialisation.  Every boot ends, and a state that
  allows no further step has one processor in \<^verbatim>\<open>kernelMain\<close> and all others in the event loop; no wait
  is for ever.
\<close>

theorem main_runs_once:
  assumes "1 \<le> unat procs" "unat procs \<le> 16"
  shows "(booting procs s \<and> core s c = InMain \<longrightarrow> (\<forall>d. core s d = InMain \<longrightarrow> d = c) \<and> (\<forall>d < unat procs. arrived (core s d)) \<and>
      unat (running s) = unat procs \<and> unat (howManyAreHere s) = unat procs) \<and>
    (booting procs s \<and> (\<nexists>s'. boot_step procs s s') \<longrightarrow>
      (\<exists>c < unat procs. core s c = InMain \<and> (\<forall>d < unat procs. d \<noteq> c \<longrightarrow> core s d = InLoop))) \<and>
    \<not> (\<exists>f. f 0 = boot_start \<and> (\<forall>n. boot_step procs (f n) (f (Suc n))))"
proof (intro conjI impI)
  assume b: "booting procs s \<and> core s c = InMain"
  then have inv: "boot_inv procs s" using assms booting_inv by blast
  note m = main_is_last [OF inv, of c]
  show "\<forall>d. core s d = InMain \<longrightarrow> d = c" using m(2) b by blast
  show h: "unat (howManyAreHere s) = unat procs" using m(1) b by blast
  show "\<forall>d < unat procs. arrived (core s d)" using all_here(1) [OF inv h] by blast
  show "unat (running s) = unat procs" using all_here(2) [OF inv h, of 0] assms(1) by simp
next
  assume b: "booting procs s \<and> (\<nexists>s'. boot_step procs s s')"
  then have inv: "boot_inv procs s" using assms booting_inv by blast
  have fin: "core s d \<in> {InMain, InLoop}" if "d < unat procs" for d using stuck_done [OF inv _ that] b by blast
  then have "{..<unat procs} \<subseteq> {c. arrived (core s c)}" by fastforce
  then have "card {..<unat procs} \<le> card {c. arrived (core s c)}"
    by (rule card_mono [OF boot_cores(1) [OF inv, of arrived], rotated]) simp
  then have "unat procs \<le> unat (howManyAreHere s)" using boot_invD(8) [OF inv] by simp
  then have "unat (howManyAreHere s) = unat procs" using boot_cores(2) [OF inv, of arrived] boot_invD(8) [OF inv] by simp
  then have "card {c. last_one procs (core s c)} = 1" using boot_invD(10) [OF inv] by simp
  then obtain c where "{c. last_one procs (core s c)} = {c}" by (rule card_1_singletonE)
  then have "last_one procs (core s c)" by blast
  moreover from this have c: "c < unat procs" using boot_cores(3) [OF inv, of "last_one procs"] by (simp add: last_one_def)
  ultimately have m: "core s c = InMain" using fin [OF c] by (auto simp: last_one_def)
  then have "core s d = InLoop" if "d < unat procs" "d \<noteq> c" for d using fin [OF that(1)] main_is_last(2) [OF inv m, of d] that(2) by blast
  then show "\<exists>c < unat procs. core s c = InMain \<and> (\<forall>d < unat procs. d \<noteq> c \<longrightarrow> core s d = InLoop)" using c m by blast
next
  show "\<not> (\<exists>f. f 0 = boot_start \<and> (\<forall>n. boot_step procs (f n) (f (Suc n))))" using boots_end [OF assms] by blast
qed

text \<open>Two processors, the second of which arrives first.\<close>

definition two :: "u32 \<Rightarrow> u32 \<Rightarrow> cpu \<Rightarrow> cpu \<Rightarrow> boot" where
  "two r h x y = \<lparr>running = r, howManyAreHere = h, core = (\<lambda>_. Off)(0 := x, 1 := y)\<rparr>"

lemma two_simps:
  "core (two r h x y) 0 = x" "core (two r h x y) (Suc 0) = y" "running (two r h x y) = r" "howManyAreHere (two r h x y) = h"
  "boot_start = two 0 0 First Off" "set_core (two r h x y) 0 z = two r h z y" "set_core (two r h x y) (Suc 0) z = two r h x z"
  "(two r h x y)\<lparr>running := r'\<rparr> = two r' h x y" "(two r h x y)\<lparr>howManyAreHere := h'\<rparr> = two r h' x y"
  by (simp_all add: two_def boot_start_def fun_eq_iff)

lemma two_boot: "booting 2 (two 2 2 InMain (Ordered 1))"
proof -
  have "booting 2 (two 0 0 First Off)" using booting.init by (simp add: two_simps)
  then have "booting 2 (two 1 0 (Starting 1) Off)" using booting.step boot_step.count_first [of "two 0 0 First Off" 0 2] by (simp add: two_simps)
  then have "booting 2 (two 1 0 (Sent 1) Awake)" using booting.step boot_step.send [of "two 1 0 (Starting 1) Off" 0 1 2] by (simp add: two_simps)
  then have "booting 2 (two 2 0 (Sent 1) Arriving)" using booting.step boot_step.count_other [of "two 1 0 (Sent 1) Awake" 1 2] by (simp add: two_simps)
  then have "booting 2 (two 2 1 (Sent 1) (Ordered 1))" using booting.step boot_step.arrive [of "two 2 0 (Sent 1) Arriving" 1 2] by (simp add: two_simps)
  then have "booting 2 (two 2 1 (Starting 2) (Ordered 1))" using booting.step boot_step.next_id [of "two 2 1 (Sent 1) (Ordered 1)" 0 1 2] by (simp add: two_simps word_le_unat)
  then have "booting 2 (two 2 1 Arriving (Ordered 1))" using booting.step boot_step.loop_done [of "two 2 1 (Starting 2) (Ordered 1)" 0 2 2] by (simp add: two_simps)
  then have "booting 2 (two 2 2 (Ordered 2) (Ordered 1))" using booting.step boot_step.arrive [of "two 2 1 Arriving (Ordered 1)" 0 2] by (simp add: two_simps)
  then show ?thesis using booting.step boot_step.main [of "two 2 2 (Ordered 2) (Ordered 1)" 0 2 2] by (simp add: two_simps)
qed

lemma main_runs_once_witness:
  "booting 2 (two 2 2 InMain (Ordered 1)) \<and> {d. core (two 2 2 InMain (Ordered 1)) d = InMain} = {0} \<and>
   (\<exists>s'. boot_step 2 (two 2 2 InMain (Ordered 1)) s')"
proof -
  let ?s = "two 2 2 InMain (Ordered 1)"
  note M = main_runs_once [of 2 ?s 0]
  have "core ?s 0 = InMain" "core ?s 1 = Ordered 1" by (simp_all add: two_simps)
  moreover from this have "\<not> (\<exists>c < 2. core ?s c = InMain \<and> (\<forall>d < 2. d \<noteq> c \<longrightarrow> core ?s d = InLoop))"
    by (auto simp: less_2_cases_iff dest!: spec [of _ 1] spec [of _ 0])
  ultimately show ?thesis using M two_boot by auto
qed

end
