(* ===== verification/Timer_Setup.thy ===== *)
theory Timer_Setup
  imports Ide_Driver
begin

text \<open>
  The processors' timers (\<^verbatim>\<open>kernel/pit.cc\<close>, \<^verbatim>\<open>pit.h\<close>), the registers of the local APIC (\<^verbatim>\<open>smp.cc\<close>, \<^verbatim>\<open>smp.h\<close>) and
  the interrupt table (\<^verbatim>\<open>idt.cc\<close>).  The devices are a parameter as in \<open>Ide_Driver\<close>, with two more
  operations, access to a register of the APIC at its address and to a model-specific register of
  the processor.  What is printed is left out.
\<close>

section \<open>The interrupt table\<close>

type_synonym idt = "nat \<Rightarrow> u32"

definition IDT_interrupt :: "u32 \<Rightarrow> nat \<Rightarrow> u32 \<Rightarrow> idt \<Rightarrow> idt" where
  "IDT_interrupt kernelCS index handler t =
     (let i0 = 2 * index; i1 = i0 + 1 in
      t(i0 := push_bit 16 kernelCS + (handler AND 0xffff), i1 := (handler AND 0xffff0000) OR 0x8e00))"

definition IDT_trap :: "u32 \<Rightarrow> nat \<Rightarrow> u32 \<Rightarrow> u32 \<Rightarrow> idt \<Rightarrow> idt" where
  "IDT_trap kernelCS index handler dpl t =
     (let i0 = 2 * index; i1 = i0 + 1 in
      t(i0 := push_bit 16 kernelCS + (handler AND 0xffff), i1 := (handler AND 0xffff0000) OR 0x8f00 OR push_bit 13 dpl))"

section \<open>The local APIC\<close>

record 'd machine = "'d ports" +
  reg_get :: "u32 \<Rightarrow> 'd \<Rightarrow> u32 \<times> 'd"
  reg_set :: "u32 \<Rightarrow> u32 \<Rightarrow> 'd \<Rightarrow> 'd"
  rdmsr :: "u32 \<Rightarrow> 'd \<Rightarrow> u64 \<times> 'd"
  wrmsr :: "u32 \<Rightarrow> u64 \<Rightarrow> 'd \<Rightarrow> 'd"

record SMP =
  id_reg :: u32
  eoi_reg :: u32
  spurious :: u32
  icr_low :: u32
  icr_high :: u32
  apit_lvt_timer :: u32
  apit_initial_count :: u32
  apit_current_count :: u32
  apit_divide :: u32

definition SMP_registers :: "u32 \<Rightarrow> SMP" where
  "SMP_registers localAPIC = \<lparr>id_reg = localAPIC + 0x20, eoi_reg = localAPIC + 0xb0, spurious = localAPIC + 0xf0,
     icr_low = localAPIC + 0x300, icr_high = localAPIC + 0x310, apit_lvt_timer = localAPIC + 0x320,
     apit_initial_count = localAPIC + 0x380, apit_current_count = localAPIC + 0x390, apit_divide = localAPIC + 0x3e0\<rparr>"

definition SMP_init :: "'d machine \<Rightarrow> u32 \<Rightarrow> u32 \<Rightarrow> u32 \<Rightarrow> bool \<Rightarrow> SMP \<Rightarrow> idt \<Rightarrow> 'd \<Rightarrow> SMP \<times> idt \<times> 'd" where
  "SMP_init m localAPIC kernelCS spuriousHandler isFirst r t d =
     (let (r, t) = (if isFirst then (SMP_registers localAPIC, IDT_interrupt kernelCS 0xff spuriousHandler t) else (r, t));
          d = outb m 0x21 0xff d;
          d = outb m 0xa1 0xff d;
          (msr, d) = rdmsr m 0x1B d;
          d = wrmsr m 0x1B (msr OR push_bit 11 1) d
      in (r, t, reg_set m (spurious r) 0x1ff d))"

definition SMP_me :: "'d machine \<Rightarrow> SMP \<Rightarrow> 'd \<Rightarrow> u32 \<times> 'd" where
  "SMP_me m r d = (case reg_get m (id_reg r) d of (v, d) \<Rightarrow> (drop_bit 24 v, d))"

definition SMP_eoi :: "'d machine \<Rightarrow> SMP \<Rightarrow> 'd \<Rightarrow> 'd" where
  "SMP_eoi m r d = reg_set m (eoi_reg r) 0 d"

partial_function (option) ipi_loop :: "'d machine \<Rightarrow> SMP \<Rightarrow> 'd \<Rightarrow> 'd option" where
  "ipi_loop m r d = (case reg_get m (icr_low r) d of (v, d) \<Rightarrow> if v AND push_bit 12 1 \<noteq> 0 then ipi_loop m r d else Some d)"

definition SMP_ipi :: "'d machine \<Rightarrow> SMP \<Rightarrow> u32 \<Rightarrow> u32 \<Rightarrow> 'd \<Rightarrow> 'd option" where
  "SMP_ipi m r i num d = ipi_loop m r (reg_set m (icr_low r) num (reg_set m (icr_high r) (push_bit 24 i) d))"

section \<open>The timers\<close>

definition PIT_FREQ :: u32 where "PIT_FREQ = 1193182"
definition APIT_vector :: u32 where "APIT_vector = 40"

record Pit =
  jiffiesPerSecond :: u32
  apitCounter :: u32

text \<open>Both timers are started: the one of the APIC counts down from the largest number.\<close>

definition start_timers :: "'d machine \<Rightarrow> SMP \<Rightarrow> 'd \<Rightarrow> 'd" where
  "start_timers m r d =
     (let d = reg_set m (apit_lvt_timer r) 0x00010000 d;
          d = reg_set m (apit_divide r) 0x0000000B d;
          divider = PIT_FREQ div 20;
          divider = (if divider AND 0xffff \<noteq> divider then 0xffff else divider);
          d = reg_set m (apit_initial_count r) 0xffffffff d;
          d = outb m 0x61 1 d;
          d = outb m 0x43 0xb6 d;
          d = outb m 0x42 (ucast divider) d
      in outb m 0x42 (ucast (drop_bit 8 divider)) d)"

partial_function (option) changes_loop :: "'d machine \<Rightarrow> u32 \<Rightarrow> u32 \<Rightarrow> 'd \<Rightarrow> 'd option" where
  "changes_loop m lst changes d =
     (if changes < 40 then
        case inb m 0x61 d of (v, d) \<Rightarrow>
          let t = ucast v AND 0x20 in
          if t \<noteq> lst then changes_loop m t (changes + 1) d else changes_loop m lst changes d
      else Some d)"

text \<open>No result for a frequency of 0, by which the code divides.\<close>

definition Pit_calibrate :: "'d machine \<Rightarrow> SMP \<Rightarrow> u32 \<Rightarrow> u32 \<Rightarrow> u32 \<Rightarrow> idt \<Rightarrow> 'd \<Rightarrow> (Pit \<times> idt \<times> 'd) option" where
  "Pit_calibrate m r kernelCS apitHandler hz t d = do {
     let d = start_timers m r d;
     let (v, d) = inb m 0x61 d;
     d \<leftarrow> changes_loop m (ucast v AND 0x20) 0 d;
     let (count, d) = reg_get m (apit_current_count r) d;
     let diff = 0xffffffff - count;
     let d = outb m 0x61 0 d;
     if hz = 0 then None
     else Some (\<lparr>jiffiesPerSecond = hz, apitCounter = diff div hz\<rparr>, IDT_interrupt kernelCS (unat APIT_vector) apitHandler t, d) }"

definition Pit_init :: "'d machine \<Rightarrow> SMP \<Rightarrow> Pit \<Rightarrow> 'd \<Rightarrow> 'd option" where
  "Pit_init m r pit d =
     (if apitCounter pit = 0 then None
      else let d = reg_set m (apit_divide r) 0x0000000B d;
               d = reg_set m (apit_lvt_timer r) (push_bit 17 1 OR push_bit 16 0 OR APIT_vector) d
           in Some (reg_set m (apit_initial_count r) (apitCounter pit) d))"

definition secondsToJiffies :: "Pit \<Rightarrow> u32 \<Rightarrow> u32" where
  "secondsToJiffies pit secs = jiffiesPerSecond pit * secs"

definition seconds :: "Pit \<Rightarrow> u32 \<Rightarrow> u32 option" where
  "seconds pit jiffies = (if jiffiesPerSecond pit = 0 then None else Some (jiffies div jiffiesPerSecond pit))"

section \<open>The square wave\<close>

text \<open>
  What the code relies on: bit 5 of port 0x61 is a square wave, which changes every \<open>half\<close> units of
  time, and reading the port takes some time, but not more than \<open>lag\<close>, which is no more than half a
  period.
\<close>

definition square_wave :: "'d machine \<Rightarrow> ('d \<Rightarrow> nat) \<Rightarrow> nat \<Rightarrow> nat \<Rightarrow> bool" where
  "square_wave m time half lag \<longleftrightarrow> 0 < half \<and> lag \<le> half \<and>
     (\<forall>d. (fst (inb m 0x61 d) AND 0x20 \<noteq> 0 \<longleftrightarrow> odd (time d div half)) \<and>
       time d < time (snd (inb m 0x61 d)) \<and> time (snd (inb m 0x61 d)) \<le> time d + lag)"

definition level :: "nat \<Rightarrow> u32" where
  "level n = (if odd n then 0x20 else 0)"

lemma and_bit5: "x AND 0x20 = (if bit x 5 then 0x20 else 0)" for x :: "'a :: len word"
proof -
  have "x AND 2 ^ 5 = (if bit x 5 then 2 ^ 5 else 0)" by (rule bit_word_eqI) (auto simp: bit_simps simp del: power_numeral)
  then show ?thesis by simp
qed

lemma square_wave_read:
  assumes "square_wave m time half lag" "inb m 0x61 d = (v, d')"
  shows "ucast v AND 0x20 = level (time d div half)" "time d < time d'" "time d' \<le> time d + lag"
proof -
  have b: "(v AND 0x20 \<noteq> 0 \<longleftrightarrow> odd (time d div half)) \<and> time d < time d' \<and> time d' \<le> time d + lag"
    using assms unfolding square_wave_def by (metis fst_conv snd_conv)
  have "bit v 5 \<longleftrightarrow> odd (time d div half)" using b by (simp add: and_bit5 split: if_splits)
  then show "ucast v AND 0x20 = level (time d div half)" by (simp add: and_bit5 level_def bit_ucast_iff)
  show "time d < time d'" "time d' \<le> time d + lag" using b by blast+
qed

text \<open>Between two reads the wave changes at most once.\<close>

lemma one_change:
  assumes "p < t" "t \<le> p + half" "0 < (half :: nat)"
  shows "t div half = (if level (t div half) = level (p div half) then p div half else p div half + 1)"
proof -
  have "t div half \<le> (p + half) div half" using assms(2) by (rule div_le_mono)
  also have "\<dots> = p div half + 1" using assms(3) by (intro div_add_self2) simp
  finally have "t div half \<le> p div half + 1" .
  moreover have "p div half \<le> t div half" using assms(1) by (intro div_le_mono) simp
  ultimately consider "t div half = p div half" | "t div half = p div half + 1" by linarith
  then show ?thesis by cases (simp_all add: level_def)
qed

text \<open>
  The loop, after a read at time \<open>p\<close>, returns just after the wave has come to its half period number \<open>q\<close>.
\<close>

lemma changes_loop_time:
  assumes w: "square_wave m time half lag"
    and p: "p < time d" "time d \<le> p + lag" "p div half \<le> q" "unat changes + (q - p div half) = 40" "p < q * half + lag"
  shows "\<exists>d'. changes_loop m (level (p div half)) changes d = Some d' \<and> q * half < time d' \<and> time d' \<le> q * half + 2 * lag"
  using p
proof (induction "q * half + lag - p" arbitrary: p changes d rule: less_induct)
  case less
  have h: "0 < half" "lag \<le> half" using w by (simp_all add: square_wave_def)
  show ?case
  proof (cases "p div half = q")
    case True
    then have "q * half \<le> p" using div_times_less_eq_dividend [of p half] by simp
    moreover have "\<not> changes < 40" using less.prems(4) True by (simp add: word_less_unat)
    ultimately show ?thesis using less.prems by (subst changes_loop.simps) simp
  next
    case False
    then have lt: "changes < 40" and pq: "p div half < q" using less.prems(3,4) by (simp_all add: word_less_unat)
    obtain v d' where r: "inb m 0x61 d = (v, d')" by (cases "inb m 0x61 d") auto
    note R = square_wave_read [OF w r]
    have c: "time d div half = (if level (time d div half) = level (p div half) then p div half else p div half + 1)"
      using less.prems(1,2) h by (intro one_change) simp_all
    have "p < q * half" using pq h(1) by (simp add: div_less_iff_less_mult)
    then have near: "time d < q * half + lag" using less.prems(2) by simp
    have "unat (changes + 1) = unat changes + 1" using lt by (subst unat_add_no_wrap) (simp_all add: word_less_unat)
    moreover have "q * half + lag - time d < q * half + lag - p" using less.prems(1,5) by simp
    note IH = less.hyps [OF this R(2,3) _ _ near]
    have step: "changes_loop m (level (p div half)) changes d =
        (if level (time d div half) \<noteq> level (p div half) then changes_loop m (level (time d div half)) (changes + 1) d'
         else changes_loop m (level (time d div half)) changes d')"
      using lt by (subst changes_loop.simps) (simp add: r R(1))
    ultimately show ?thesis
      using IH [of changes] IH [of "changes + 1"] less.prems(4) c pq unfolding step
      by (cases "level (time d div half) = level (p div half)") simp_all
  qed
qed

section \<open>Properties\<close>

text \<open>
  Calibration takes a second.  With a square wave at the port of the old timer, \<^verbatim>\<open>Pit::calibrate\<close>
  returns for every frequency but 0.  Between the first look at the wave and the look at the counter of
  the APIC more than 39 and no more than 40 half periods of the wave have passed, but for twice the
  time one read takes; the interval between two interrupts is set to the ticks counted in that time
  divided by the frequency, and the vector of the timer goes to its handler.
\<close>

theorem calibrate_correct:
  assumes w: "square_wave m time half lag" and hz: "hz \<noteq> 0"
  shows "\<exists>d1 d2 count d3. d1 = start_timers m r d \<and> reg_get m (apit_current_count r) d2 = (count, d3) \<and>
    Pit_calibrate m r kernelCS apitHandler hz t d =
      Some (\<lparr>jiffiesPerSecond = hz, apitCounter = (0xffffffff - count) div hz\<rparr>, IDT_interrupt kernelCS 40 apitHandler t, outb m 0x61 0 d3) \<and>
    39 * half < time d2 - time d1 \<and> time d2 - time d1 \<le> 40 * half + 2 * lag"
proof -
  define d1 where "d1 = start_timers m r d"
  obtain v d' where v: "inb m 0x61 d1 = (v, d')" by (cases "inb m 0x61 d1") auto
  note R = square_wave_read [OF w v]
  have h: "0 < half" using w by (simp add: square_wave_def)
  let ?q = "time d1 div half + 40"
  have b: "time d1 div half * half \<le> time d1" "time d1 < time d1 div half * half + half"
    using div_times_less_eq_dividend [of "time d1" half] dividend_less_div_times [OF h, of "time d1"] by simp_all
  have "time d1 < ?q * half + lag" using b(2) by (simp add: distrib_right)
  then obtain d2 where 2: "changes_loop m (ucast v AND 0x20) 0 d' = Some d2" "?q * half < time d2" "time d2 \<le> ?q * half + 2 * lag"
    using changes_loop_time [OF w R(2,3), of ?q 0] by (auto simp: R(1))
  obtain count d3 where 3: "reg_get m (apit_current_count r) d2 = (count, d3)" by (cases "reg_get m (apit_current_count r) d2") auto
  have "Pit_calibrate m r kernelCS apitHandler hz t d =
      Some (\<lparr>jiffiesPerSecond = hz, apitCounter = (0xffffffff - count) div hz\<rparr>, IDT_interrupt kernelCS 40 apitHandler t, outb m 0x61 0 d3)"
    using hz 2(1) 3 v by (simp add: Pit_calibrate_def d1_def [symmetric] APIT_vector_def)
  moreover have "39 * half < time d2 - time d1" "time d2 - time d1 \<le> 40 * half + 2 * lag" using 2(2,3) b unfolding distrib_right by linarith+
  ultimately show ?thesis using 3 d1_def by blast
qed

text \<open>A machine whose state is the time: a read takes one unit, the counter of the APIC runs ten times as fast.\<close>

definition ex_machine :: "nat machine" where
  "ex_machine = \<lparr>inb = (\<lambda>p t. (if odd (t div 5) then 0x20 else 0, t + 1)), outb = (\<lambda>p v t. t), inl = (\<lambda>p t. (0, t)),
     reg_get = (\<lambda>a t. (0xffffffff - 10 * of_nat t, t)), reg_set = (\<lambda>a v t. t), rdmsr = (\<lambda>a t. (0, t)), wrmsr = (\<lambda>a v t. t)\<rparr>"

lemma calibrate_correct_witness:
  "\<exists>d2 t'. Pit_calibrate ex_machine (SMP_registers 0xFEE00000) 8 0x1000 10 (\<lambda>_. 0) 0 =
     Some (\<lparr>jiffiesPerSecond = 10, apitCounter = 10 * of_nat d2 div 10\<rparr>, t', d2) \<and> 195 < d2 \<and> d2 \<le> 202"
proof -
  have "square_wave ex_machine id 5 1" by (simp add: square_wave_def ex_machine_def)
  then have "\<exists>d1 d2 count d3. d1 = start_timers ex_machine (SMP_registers 0xFEE00000) 0 \<and>
      reg_get ex_machine (apit_current_count (SMP_registers 0xFEE00000)) d2 = (count, d3) \<and>
      Pit_calibrate ex_machine (SMP_registers 0xFEE00000) 8 0x1000 10 (\<lambda>_. 0) 0 =
      Some (\<lparr>jiffiesPerSecond = 10, apitCounter = (0xffffffff - count) div 10\<rparr>, IDT_interrupt 8 40 0x1000 (\<lambda>_. 0), outb ex_machine 0x61 0 d3) \<and>
      39 * 5 < id d2 - id d1 \<and> id d2 - id d1 \<le> 40 * 5 + 2 * 1"
    by (rule calibrate_correct) simp
  then show ?thesis by (auto simp: ex_machine_def start_timers_def Let_def)
qed

text \<open>
  A gate of the interrupt table holds the address of its handler and the code segment of the kernel,
  and no other gate changes.
\<close>

lemma idt_gate:
  assumes "kernelCS < 0x10000"
  shows "(IDT_interrupt kernelCS i handler t (2 * i + 1) AND 0xffff0000) OR (IDT_interrupt kernelCS i handler t (2 * i) AND 0xffff) = handler"
    "drop_bit 16 (IDT_interrupt kernelCS i handler t (2 * i)) = kernelCS"
    "IDT_interrupt kernelCS i handler t (2 * i + 1) AND 0xffff = 0x8e00"
    "j \<notin> {2 * i, 2 * i + 1} \<Longrightarrow> IDT_interrupt kernelCS i handler t j = t j"
proof -
  have c: "(0xffff :: u32) = mask 16" "(0xffff0000 :: u32) = NOT (mask 16)" by (simp_all add: mask_eq_exp_minus_1)
  have "take_bit 16 (0x8e00 :: u32) = 0x8e00" by simp
  then obtain g :: u32 where g: "0x8e00 = g" and gate: "\<And>n. bit g n \<Longrightarrow> n < 16" by (metis bit_take_bit_iff)
  have "unat (take_bit 16 kernelCS) = unat kernelCS" using assms by (simp add: unsigned_take_bit_eq take_bit_nat_eq_self word_less_unat)
  then have "take_bit 16 kernelCS = kernelCS" by (simp only: word_unat_eq_iff)
  then have cs: "bit kernelCS n \<Longrightarrow> n < 16" for n by (metis bit_take_bit_iff)
  have "push_bit 16 kernelCS AND (handler AND mask 16) = 0" by (rule bit_word_eqI) (auto simp: bit_simps)
  then have lo: "push_bit 16 kernelCS + (handler AND mask 16) = push_bit 16 kernelCS OR (handler AND mask 16)"
    using word_plus_and_or [of "push_bit 16 kernelCS" "handler AND mask 16"] by simp
  have e: "IDT_interrupt kernelCS i handler t (2 * i) = push_bit 16 kernelCS OR (handler AND mask 16)"
      "IDT_interrupt kernelCS i handler t (2 * i + 1) = (handler AND NOT (mask 16)) OR g"
    unfolding IDT_interrupt_def Let_def c lo g by simp_all
  show "(IDT_interrupt kernelCS i handler t (2 * i + 1) AND 0xffff0000) OR (IDT_interrupt kernelCS i handler t (2 * i) AND 0xffff) = handler"
    unfolding e c by (rule bit_word_eqI) (auto simp: bit_and_iff bit_or_iff bit_not_iff bit_mask_iff bit_push_bit_iff dest: gate)
  show "drop_bit 16 (IDT_interrupt kernelCS i handler t (2 * i)) = kernelCS"
    unfolding e by (rule bit_word_eqI) (auto simp: bit_simps dest: cs)
  show "IDT_interrupt kernelCS i handler t (2 * i + 1) AND 0xffff = 0x8e00"
    unfolding e c g by (rule bit_word_eqI) (auto simp: bit_and_iff bit_or_iff bit_not_iff bit_mask_iff dest: gate)
  show "j \<notin> {2 * i, 2 * i + 1} \<Longrightarrow> IDT_interrupt kernelCS i handler t j = t j" by (simp add: IDT_interrupt_def Let_def)
qed

end
