(* ===== verification/Spec2Isabelle.thy ===== *)
theory Spec2Isabelle
  imports Vme_Queue Vmm Queues Shared_Ptr Semaphores Bounded_Buffer Futures Events Heap_Alloc Printf_Fmt Elf File_Calls Exec_Args Fork_Call Kernel_Steps Unmap Kernel_Main Mru_Cache Config_Init Ide_Driver Mmap Heap_Realloc Smp_Boot Timer_Setup
begin

text \<open>
  A verification library for a small multi-core kernel for the 386 (\<^verbatim>\<open>src/kernel\<close>) and the heap and
  the formatting code of its user library (\<^verbatim>\<open>src/t0.dir/sbin\<close>).

  \<^bold>\<open>The program.\<close>  The kernel boots on every core, builds its page tables, mounts an ext2 disk, loads
  \<^verbatim>\<open>/sbin/init\<close> and from then on only reacts: to system calls (\<^verbatim>\<open>sys.cc\<close>), page faults (\<^verbatim>\<open>vmm.cc\<close>) and
  timer interrupts (\<^verbatim>\<open>pit.cc\<close>).  A handler either returns to the process or queues closures (events,
  \<^verbatim>\<open>events.h\<close>) and enters the event loop of its core, which runs what is ready; processes wait for each
  other on semaphores, futures and bounded buffers whose waiting lists hold such closures.  Memory of
  a process is paged in on demand inside its regions (\<^verbatim>\<open>VMEQueue\<close>, \<^verbatim>\<open>queue.h\<close>) from a free list of
  frames (\<^verbatim>\<open>physmem.cc\<close>); kernel objects live in a boundary-tag heap (\<^verbatim>\<open>heap.cc\<close>).

  \<^bold>\<open>The model.\<close>  Code is translated function by function, under its own names.  A C object is a record,
  a heap of objects a map from addresses (\<open>'a store\<close>, 0 is \<^verbatim>\<open>nullptr\<close>), machine integers are words of
  their width.  Code that can fail returns an option: no value stands for a panic, a failed assertion,
  a null or dangling pointer, or a loop that does not end.  System calls, faults and events return a
  \<open>code\<close>: \<open>Done\<close> a value and a state, or \<open>Stop\<close> for a reason, which is a panic, a wild access, entering
  user mode (\<^verbatim>\<open>switchToUser\<close>, \<^verbatim>\<open>resume\<close>) or the event loop.  The state of the kernel is one record,
  \<open>kernel\<close>.  Closures are the constructors of the datatype \<open>kevent\<close>, and \<open>run_event\<close> runs them.

  \<^item> \<open>Kernel_Prelude\<close>: words, loops, stores, page arithmetic.  \<open>Linked_Lists\<close>: doubly linked lists in a
    store; the locale \<open>dll_node\<close> is what a node type provides.
  \<^item> \<open>Vme_Queue\<close> (\<^verbatim>\<open>queue.h\<close>): regions, as the pointer program and as a list; the refinement between the
    two, first fit, fixed placement, removal, lookup, copy.
  \<^item> \<open>Phys_Mem\<close> (\<^verbatim>\<open>physmem.cc\<close>): frames; the locale \<open>frame_allocator\<close> is the contract its clients use.
  \<^item> \<open>Vmm\<close> (\<^verbatim>\<open>vmm.cc\<close>): page directories, the walk of the processor, boot, demand paging, freeing.  What
    the tables give after boot is \<open>boot_map\<close>; what the \<^verbatim>\<open>README\<close> says they should give is \<open>readme_map\<close>.
  \<^item> \<open>Spin_Lock\<close>, \<open>Queues\<close>, \<open>Shared_Ptr\<close>, \<open>Semaphores\<close>, \<open>Bounded_Buffer\<close>, \<open>Futures\<close>, \<open>Events\<close> (\<^verbatim>\<open>atomic.h\<close>,
    \<^verbatim>\<open>queue.h\<close>, \<^verbatim>\<open>shared.h\<close>, \<^verbatim>\<open>semaphore.h\<close>, \<^verbatim>\<open>bb.h\<close>, \<^verbatim>\<open>future.h\<close>, \<^verbatim>\<open>events.cc\<close>): the concurrency library, each
    with its step relation and the invariant of its runs; the locale \<open>lock_type\<close> gives \<open>fifo\<close> for both
    lock types of a queue.  \<^verbatim>\<open>down\<close> gives back its lock before it appends a granted event to the ready
    queue: these are two steps (\<open>down_locked\<close>, \<open>down_ready\<close>), between which other cores may run.
  \<^item> \<open>Heap_Alloc\<close>, \<open>Heap_Realloc\<close> (\<^verbatim>\<open>heap.cc\<close>, \<^verbatim>\<open>t0.dir/sbin/heap.c\<close>): both heaps, their invariant, malloc and
    free, and the user's realloc.
  \<^item> \<open>Long_Double\<close>, \<open>Printf_Fmt\<close> (\<^verbatim>\<open>snprintf.cc\<close>): the format machine, integers, strings, floating-point
    numbers with a significand of 64 bits, the bounded buffer; widths and precisions are 32 bits.
  \<^item> \<open>Config_Init\<close> (\<^verbatim>\<open>config.cc\<close>): the ACPI tables and the size of the memory.
  \<^item> \<open>Ide_Driver\<close> (\<^verbatim>\<open>ide.cc\<close>): the polling driver over a controller that is a parameter, with the protocol
    for reading a sector as its hypothesis; while the busy bit is set the other status bits are free.
    \<open>Mru_Cache\<close> (\<^verbatim>\<open>queue.h\<close>, \<^verbatim>\<open>cache.cc\<close>): the block cache.
  \<^item> \<open>Block_IO\<close>, \<open>Ext2\<close>, \<open>Elf\<close> (\<^verbatim>\<open>block_io.cc\<close>, \<^verbatim>\<open>ext2.cc\<close>, \<^verbatim>\<open>elf.cc\<close>): from sectors to files, directories and
    program headers; the locale \<open>block_device\<close> is interpreted on the disk and on files.  A scan of a
    directory that panics is told from one that never ends by counting rounds (\<open>entries_after\<close>).
  \<^item> \<open>User_Mem\<close>: how kernel code reads and writes user memory through the tables, with page faults in
    between; the locale \<open>flat_memory\<close> says that it looks like an array of bytes, and is interpreted on
    page tables (\<open>paged\<close>) and on the whole kernel (\<open>kmem\<close>, in \<open>Sys_Memory\<close>).
  \<^item> \<open>Fork\<close>, \<open>Processes\<close>, \<open>Sys_Calls\<close> (\<^verbatim>\<open>pcb.h\<close>, \<^verbatim>\<open>sys.cc\<close>, \<^verbatim>\<open>vmm.cc\<close>, \<^verbatim>\<open>pit.cc\<close>): the process control block, the
    kernel state, events, scheduling, the fault and timer handlers, every system call.
  \<^item> \<open>Sys_Memory\<close>, \<open>File_Calls\<close>, \<open>Path_Names\<close>, \<open>Exec_Args\<close>, \<open>Fork_Space\<close>, \<open>Fork_Call\<close>, \<open>Signals\<close>,
    \<open>Process_Life\<close>, \<open>Mmap\<close>, \<open>Unmap\<close>, \<open>Kernel_Steps\<close>: what the system calls promise.
  \<^item> \<open>Smp_Boot\<close> (\<^verbatim>\<open>init.cc\<close>): how the processors are started and meet, as a step relation.
    \<open>Timer_Setup\<close> (\<^verbatim>\<open>pit.cc\<close>, \<^verbatim>\<open>smp.cc\<close>, \<^verbatim>\<open>idt.cc\<close>): the APIC, the interrupt table, calibration of the timer.
  \<^item> \<open>Program_Load\<close>, \<open>Kernel_Main\<close> (\<^verbatim>\<open>elf.cc\<close>, \<^verbatim>\<open>kernel.cc\<close>): programs loaded through the page tables while the
    regions grow (\<open>flat_memory\<close> again, as \<open>fill\<close>), and the way from the mounted disk to the first
    instruction of \<^verbatim>\<open>/sbin/init\<close>.

  \<^bold>\<open>What is shown.\<close>  Memory: demand paging refines a flat private array; boot, paging, \<^verbatim>\<open>fork\<close>, \<^verbatim>\<open>mmap\<close>,
  \<^verbatim>\<open>munmap\<close> and \<^verbatim>\<open>exit\<close> change exactly the translations they should, frames are neither shared nor
  lost, and the frames a copy takes or a removal returns are counted exactly.  Files: from the
  registers of the controller, through a cache that only saves reads, and the bytes of the disk to
  what \<^verbatim>\<open>read\<close> leaves in the buffer, path names, directories, program loading, the argument vector of
  \<^verbatim>\<open>execl\<close>, the memory and the descriptors \<^verbatim>\<open>/sbin/init\<close> starts with.  Processes: \<^verbatim>\<open>fork\<close>,
  \<^verbatim>\<open>join\<close>/\<^verbatim>\<open>exit\<close> in both orders, signals there and back, \<^verbatim>\<open>kill\<close>, and an invariant of
  every run of the kernel.  Processors: \<^verbatim>\<open>kernelMain\<close> runs once, after all have arrived; calibration takes
  a second.  Library: mutual exclusion, queues, reference counts, semaphores, buffers,
  futures, timers, heaps and formatting, each over all operations and interleavings.  Several theorems
  show where the code does not do what it should (double deletion of events, a lock taken twice,
  wrap-around of sizes, endless directory scans, misplaced digits of fractions, gaps in the check of
  programs, the first entry of the processor table, kernel tables that a child of \<^verbatim>\<open>fork\<close> lacks, status
  bits read too early, regions that \<^verbatim>\<open>mmap\<close> refuses although the \<^verbatim>\<open>README\<close> allows them).

  \<^bold>\<open>Bounds.\<close>  There is no fuel.  Loops over pointers are partial functions in the option monad, and the
  theorems show that they return.  The scans of strings in user memory stop at index \<open>2 ^ 32\<close> with a
  wild access, where the 32-bit index of the code would have wrapped around; the theorems on path
  names and arguments show that they end before.  An operation that holds a lock is one step; where
  the code works without one, the steps are the single atomic accesses.

  \<^bold>\<open>Not modelled.\<close>  Devices and assembly: what is inside the IDE controller (a parameter), the
  serial line, the timers and the APICs (parameters), task-state segments, the boot sector, context
  switch in assembly (its effect is an outcome of the model).  The translation look-aside buffer: a
  translation is always the one in the tables, so that the missing invalidation in
  \<^verbatim>\<open>remove_from_vmequeue\<close> is not visible.  The coroutine glue of C++, and the user programs, whose
  steps are arbitrary.  In \<open>Kernel_Steps\<close> a handler or an event is one step: the interleaving of several
  cores inside a handler is modelled in the theories of the concurrency library only.
\<close>

end
